(* ===== verification/Prelude.thy ===== *)
theory Prelude imports Main "HOL-Library.Word" "HOL-Library.Multiset" "HOL-Library.Sublist" begin

text \<open>
  Shared vocabulary of the development: machine integer types, the outcome type of
  fallible Rust code, checked arithmetic, indexed reads that panic out of range, and the
  lemmas on lists and words that several components use.
\<close>

section \<open>Machine integers\<close>

type_synonym byte = "8 word"
type_synonym u32 = "32 word"
type_synonym u64 = "64 word"
type_synonym u128 = "128 word"
type_synonym u256 = "256 word"

text \<open>Signed integers are words read with \<open>sint\<close>.\<close>

type_synonym i128 = "128 word"
type_synonym i256 = "256 word"

text \<open>
  Rust's \<open>checked_add\<close> and \<open>checked_sub\<close> on unsigned integers, and the same for the
  \<open>usize\<close> indices of the off-chain code, which are natural numbers below \<open>2 ^ 64\<close>.
\<close>

definition checked_add :: "'w::len word \<Rightarrow> 'w word \<Rightarrow> 'w word option" where
  "checked_add a b = (if uint a + uint b < 2 ^ LENGTH('w) then Some (a + b) else None)"

definition checked_sub :: "'w::len word \<Rightarrow> 'w word \<Rightarrow> 'w word option" where
  "checked_sub a b = (if b \<le> a then Some (a - b) else None)"

definition usize_checked_add :: "nat \<Rightarrow> nat \<Rightarrow> nat option" where
  "usize_checked_add a b = (if int a + int b < 2 ^ 64 then Some (a + b) else None)"

definition usize_checked_sub :: "nat \<Rightarrow> nat \<Rightarrow> nat option" where
  "usize_checked_sub a b = (if b \<le> a then Some (a - b) else None)"

text \<open>
  The indices and counters of the contracts (\<open>u32\<close> and \<open>u64\<close>) are natural numbers too; each
  operation the source checks is written with the width \<open>w\<close> it is checked at.
\<close>

definition nat_checked_add :: "nat \<Rightarrow> nat \<Rightarrow> nat \<Rightarrow> nat option" where
  "nat_checked_add w a b = (if int a + int b < 2 ^ w then Some (a + b) else None)"

definition nat_checked_shl :: "nat \<Rightarrow> nat \<Rightarrow> nat \<Rightarrow> nat option" where
  "nat_checked_shl w a s = (if s < w then Some (a * 2 ^ s mod 2 ^ w) else None)"

definition nat_try_from :: "nat \<Rightarrow> nat \<Rightarrow> nat option" where
  "nat_try_from w a = (if int a < 2 ^ w then Some a else None)"

section \<open>Outcomes\<close>

text \<open>
  A call returns a value, fails with an error value of its own (\<open>Fail\<close>), panics (a
  \<open>panic!\<close>, \<open>expect\<close>, an index out of range, a host trap), or does not return at all
  (\<open>Diverge\<close>). In the contracts every outcome but a returned value rolls the storage back.
\<close>

datatype 'e fault = Fail 'e | Panic | Diverge

type_synonym ('e, 'a) outcome = "'e fault + 'a"

named_theorems res_simps "unfolding of outcomes that returned a value"

definition andThen :: "('e + 'a) \<Rightarrow> ('a \<Rightarrow> 'e + 'b) \<Rightarrow> 'e + 'b" where
  "andThen m f = (case m of Inl e \<Rightarrow> Inl e | Inr a \<Rightarrow> f a)"

lemma andThen_simps [simp]:
  "andThen (Inl e) f = Inl e"
  "andThen (Inr a) f = f a"
  by (simp_all add: andThen_def)

lemma andThen_Inr [res_simps]: "andThen m f = Inr b \<longleftrightarrow> (\<exists>a. m = Inr a \<and> f a = Inr b)"
  by (cases m) auto

lemma andThen_Inl: "andThen m f = Inl e \<longleftrightarrow> m = Inl e \<or> (\<exists>a. m = Inr a \<and> f a = Inl e)"
  by (cases m) auto

lemma andThen_cong [fundef_cong]:
  "m = m' \<Longrightarrow> (\<And>a. m' = Inr a \<Longrightarrow> f a = f' a) \<Longrightarrow> andThen m f = andThen m' f'"
  by (cases m') auto

text \<open>\<open>ok_or\<close>, \<open>expect\<close>, an early return on a condition, and an indexed read.\<close>

definition ok_or :: "'e \<Rightarrow> 'a option \<Rightarrow> ('e, 'a) outcome" where
  "ok_or e v = (case v of None \<Rightarrow> Inl (Fail e) | Some a \<Rightarrow> Inr a)"

definition expect :: "'a option \<Rightarrow> ('e, 'a) outcome" where
  "expect v = (case v of None \<Rightarrow> Inl Panic | Some a \<Rightarrow> Inr a)"

definition guard :: "bool \<Rightarrow> 'e \<Rightarrow> ('e, unit) outcome" where
  "guard b e = (if b then Inr () else Inl (Fail e))"

definition vec_get :: "'a list \<Rightarrow> nat \<Rightarrow> 'a option" where
  "vec_get xs i = (if i < length xs then Some (xs ! i) else None)"

definition vec_index :: "'a list \<Rightarrow> nat \<Rightarrow> ('e, 'a) outcome" where
  "vec_index xs i = expect (vec_get xs i)"

text \<open>A fallible function on every element, first to last, up to the first fault.\<close>

fun traverse :: "('a \<Rightarrow> ('e, 'b) outcome) \<Rightarrow> 'a list \<Rightarrow> ('e, 'b list) outcome" where
  "traverse f [] = Inr []"
| "traverse f (x # xs) = andThen (f x) (\<lambda>y. andThen (traverse f xs) (\<lambda>ys. Inr (y # ys)))"


lemma ok_or_simps [simp]: "ok_or e (Some a) = Inr a" "ok_or e None = Inl (Fail e)"
  by (simp_all add: ok_or_def)

lemma ok_or_Inr [res_simps]: "ok_or e v = Inr a \<longleftrightarrow> v = Some a"
  by (cases v) auto

lemma expect_simps [simp]: "expect (Some a) = Inr a" "expect None = Inl Panic"
  by (simp_all add: expect_def)

lemma expect_Inr [res_simps]: "expect v = Inr a \<longleftrightarrow> v = Some a"
  by (cases v) auto

lemma guard_Inr [res_simps]: "guard b e = Inr u \<longleftrightarrow> b"
  by (simp add: guard_def)

lemma guard_simps [simp]: "guard True e = Inr ()" "guard False e = Inl (Fail e)"
  by (simp_all add: guard_def)

lemma vec_get_Some [res_simps]: "vec_get xs i = Some x \<longleftrightarrow> i < length xs \<and> x = xs ! i"
  by (auto simp: vec_get_def)

lemma vec_index_in [simp]: "i < length xs \<Longrightarrow> vec_index xs i = Inr (xs ! i)"
  by (simp add: vec_index_def vec_get_def)

lemma vec_index_Inr [res_simps]: "vec_index xs i = Inr x \<longleftrightarrow> i < length xs \<and> x = xs ! i"
  by (simp add: vec_index_def res_simps)

lemma traverse_Inr [simp]: "(\<And>x. x \<in> set xs \<Longrightarrow> f x = Inr (g x)) \<Longrightarrow> traverse f xs = Inr (map g xs)"
  by (induction xs) auto

lemma traverse_length: "traverse f xs = Inr ys \<Longrightarrow> length ys = length xs"
  by (induction xs arbitrary: ys) (auto simp: andThen_Inr)


text \<open>A call whose error is converted into the error of its caller.\<close>

fun map_fault :: "('e \<Rightarrow> 'f) \<Rightarrow> 'e fault \<Rightarrow> 'f fault" where
  "map_fault f (Fail e) = Fail (f e)"
| "map_fault f Panic = Panic"
| "map_fault f Diverge = Diverge"

definition map_err :: "('e \<Rightarrow> 'f) \<Rightarrow> ('e, 'a) outcome \<Rightarrow> ('f, 'a) outcome" where
  "map_err f m = (case m of Inl e \<Rightarrow> Inl (map_fault f e) | Inr a \<Rightarrow> Inr a)"

text \<open>\<open>expect\<close> and \<open>unwrap\<close> on a result panic whatever the error is.\<close>

definition unwrap :: "('e, 'a) outcome \<Rightarrow> ('f, 'a) outcome" where
  "unwrap m = (case m of Inl (Fail e) \<Rightarrow> Inl Panic | Inl Panic \<Rightarrow> Inl Panic | Inl Diverge \<Rightarrow> Inl Diverge | Inr a \<Rightarrow> Inr a)"

lemma map_err_simps [simp]: "map_err f (Inr a) = Inr a" "map_err f (Inl (Fail e)) = Inl (Fail (f e))" "map_err f (Inl Panic) = Inl Panic"
  by (simp_all add: map_err_def)

lemma map_err_Inr [res_simps]: "map_err f m = Inr a \<longleftrightarrow> m = Inr a"
  by (simp add: map_err_def split: sum.splits)

lemma unwrap_simps [simp]: "unwrap (Inr a) = Inr a" "unwrap (Inl (Fail e)) = Inl Panic" "unwrap (Inl Panic) = Inl Panic"
  by (simp_all add: unwrap_def)

lemma unwrap_Inr [res_simps]: "unwrap m = Inr a \<longleftrightarrow> m = Inr a"
  by (simp add: unwrap_def split: sum.splits fault.splits)

lemma map_err_andThen: "map_err f (andThen m k) = andThen (map_err f m) (\<lambda>a. map_err f (k a))"
  by (cases m) (simp_all add: map_err_def)

lemma map_err_steps [simp]:
  "map_err f (expect v) = expect v" "map_err f (vec_index xs i) = vec_index xs i" "map_err f (ok_or e v) = ok_or (f e) v"
  "map_err f (guard b e) = guard b (f e)"
  by (auto simp: map_err_def expect_def vec_index_def ok_or_def guard_def split: option.splits)

lemma map_err_traverse: "map_err f (traverse g xs) = traverse (\<lambda>x. map_err f (g x)) xs"
  by (induction xs) (simp_all add: map_err_andThen)

lemma traverse_rel:
  "(\<And>x. x \<in> set xs \<Longrightarrow> \<exists>y. f x = Inr y \<and> R x y) \<Longrightarrow> \<exists>ys. traverse f xs = Inr ys \<and> list_all2 R xs ys"
proof (induction xs)
  case (Cons x xs)
  then obtain y ys where "f x = Inr y" "R x y" "traverse f xs = Inr ys" "list_all2 R xs ys" by fastforce
  then show ?case by (intro exI [of _ "y # ys"]) simp
qed simp

section \<open>Words\<close>

lemma checked_add_unat:
  fixes a b :: "'w::len word"
  shows "checked_add a b = (if unat a + unat b < 2 ^ LENGTH('w) then Some (a + b) else None)"
proof -
  have "uint a + uint b < 2 ^ LENGTH('w) \<longleftrightarrow> int (unat a + unat b) < int (2 ^ LENGTH('w))"
    by simp
  then show ?thesis by (simp only: checked_add_def of_nat_less_iff)
qed

lemma usize_checked_add_Some [res_simps]:
  "usize_checked_add a b = Some c \<longleftrightarrow> a + b < 2 ^ 64 \<and> c = a + b"
  by (auto simp: usize_checked_add_def)

lemma usize_checked_sub_Some [res_simps]: "usize_checked_sub a b = Some c \<longleftrightarrow> b \<le> a \<and> c = a - b"
  by (auto simp: usize_checked_sub_def)

lemma nat_checked_add_Some [res_simps]: "nat_checked_add w a b = Some c \<longleftrightarrow> a + b < 2 ^ w \<and> c = a + b"
proof -
  have "int a + int b < 2 ^ w \<longleftrightarrow> int (a + b) < int (2 ^ w)" by simp
  then show ?thesis by (auto simp only: nat_checked_add_def of_nat_less_iff split: if_splits)
qed

lemma nat_checked_shl_Some [res_simps]:
  "nat_checked_shl w a s = Some c \<longleftrightarrow> s < w \<and> c = a * 2 ^ s mod 2 ^ w"
  by (auto simp: nat_checked_shl_def)

lemma nat_try_from_Some [res_simps]: "nat_try_from w a = Some c \<longleftrightarrow> a < 2 ^ w \<and> c = a"
proof -
  have "int a < 2 ^ w \<longleftrightarrow> int a < int (2 ^ w)" by simp
  then show ?thesis by (auto simp only: nat_try_from_def of_nat_less_iff split: if_splits)
qed

lemma checked_add_Some [res_simps]:
  fixes a b :: "'w::len word"
  shows "checked_add a b = Some c \<longleftrightarrow> unat c = unat a + unat b"
proof
  assume "checked_add a b = Some c"
  then show "unat c = unat a + unat b"
    by (auto simp: checked_add_unat unat_word_ariths split: if_splits)
next
  assume eq: "unat c = unat a + unat b"
  have "unat a + unat b < 2 ^ LENGTH('w)"
    using unsigned_less [of c, where ?'a = nat] by (simp flip: eq)
  moreover from this have "a + b = c"
    by (simp add: word_unat_eq_iff unat_word_ariths eq)
  ultimately show "checked_add a b = Some c"
    by (simp add: checked_add_unat)
qed

lemma checked_sub_Some [res_simps]:
  fixes a b :: "'w::len word"
  shows "checked_sub a b = Some c \<longleftrightarrow> unat a = unat b + unat c"
proof
  assume "checked_sub a b = Some c"
  then show "unat a = unat b + unat c"
    by (auto simp: checked_sub_def unat_sub word_le_nat_alt split: if_splits)
next
  assume eq: "unat a = unat b + unat c"
  then have "b \<le> a" by (simp add: word_le_nat_alt)
  moreover from this have "a - b = c"
    by (simp add: word_unat_eq_iff unat_sub eq)
  ultimately show "checked_sub a b = Some c"
    by (simp add: checked_sub_def)
qed

lemma checked_sub_None: "checked_sub a b = None \<longleftrightarrow> unat a < unat b"
  by (auto simp: checked_sub_def word_le_nat_alt)

lemma checked_add_None:
  fixes a b :: "'w::len word"
  shows "checked_add a b = None \<longleftrightarrow> 2 ^ LENGTH('w) \<le> unat a + unat b"
  by (auto simp: checked_add_unat)

lemma sint_eqD: "sint (x :: 'w::len word) = sint y \<Longrightarrow> x = y"
  by (rule signed_word_eqI)

section \<open>Byte strings\<close>

text \<open>
  Little-endian and big-endian readings of byte strings, and the fixed-length strings of
  a number, as \<open>to_le_bytes\<close>, \<open>from_be_bytes\<close> and their variants define them.
\<close>

fun from_le :: "byte list \<Rightarrow> 'w::len word" where
  "from_le [] = 0"
| "from_le (b # bs) = ucast b + 256 * from_le bs"

fun to_le :: "nat \<Rightarrow> 'w::len word \<Rightarrow> byte list" where
  "to_le 0 w = []"
| "to_le (Suc n) w = ucast w # to_le n (drop_bit 8 w)"

definition from_be :: "byte list \<Rightarrow> 'w::len word" where
  "from_be bs = from_le (rev bs)"

definition to_be :: "nat \<Rightarrow> 'w::len word \<Rightarrow> byte list" where
  "to_be n w = rev (to_le n w)"

text \<open>The same strings as numbers.\<close>

fun le_val :: "byte list \<Rightarrow> nat" where
  "le_val [] = 0"
| "le_val (b # bs) = unat b + 256 * le_val bs"

fun le_bytes :: "nat \<Rightarrow> nat \<Rightarrow> byte list" where
  "le_bytes 0 v = []"
| "le_bytes (Suc n) v = word_of_nat (v mod 256) # le_bytes n (v div 256)"

lemma length_le_bytes [simp]: "length (le_bytes n v) = n"
  by (induction n arbitrary: v) simp_all

lemma from_le_le_val: "from_le bs = word_of_nat (le_val bs)"
  by (induction bs) simp_all

lemma to_le_le_bytes: "to_le n w = le_bytes n (unat w)"
proof (induction n arbitrary: w)
  case 0
  then show ?case by simp
next
  case (Suc n)
  have "ucast w = (word_of_nat (unat w mod 256) :: byte)"
    by (simp add: word_unat_eq_iff unat_of_nat unsigned_ucast_eq take_bit_eq_mod)
  moreover have "unat (drop_bit 8 w) = unat w div 256"
    by (simp only: unat_drop_bit_eq) (simp add: drop_bit_eq_div)
  ultimately show ?case by (simp only: to_le.simps le_bytes.simps Suc)
qed

lemma length_to_le [simp]: "length (to_le n w) = n"
  by (induction n arbitrary: w) simp_all

lemma length_to_be [simp]: "length (to_be n w) = n"
  by (simp add: to_be_def)

lemma le_val_le_bytes: "le_val (le_bytes n v) = v mod 256 ^ n"
proof (induction n arbitrary: v)
  case 0
  then show ?case by simp
next
  case (Suc n)
  have "unat (word_of_nat (v mod 256) :: byte) = v mod 256"
    by (simp add: unat_of_nat)
  then show ?case
    by (simp add: Suc mod_mult2_eq)
qed

lemma le_bytes_le_val: "le_bytes (length bs) (le_val bs) = bs"
proof (induction bs)
  case Nil
  then show ?case by simp
next
  case (Cons b bs)
  have "unat b < 256" using unsigned_less [of b, where ?'a = nat] by simp
  then show ?case by (simp add: Cons)
qed

lemma le_val_less: "le_val bs < 256 ^ length bs"
proof (induction bs)
  case Nil
  then show ?case by simp
next
  case (Cons b bs)
  have "unat b < 256" using unsigned_less [of b, where ?'a = nat] by simp
  with Cons show ?case by simp
qed

lemma from_le_to_le:
  fixes w :: "'w::len word"
  assumes "LENGTH('w) \<le> 8 * n"
  shows "from_le (to_le n w) = w"
proof -
  have "unat w < 2 ^ LENGTH('w)" by (rule unsigned_less)
  also have "\<dots> \<le> 2 ^ (8 * n)" using assms by simp
  also have "\<dots> = 256 ^ n" by (simp add: power_mult)
  finally show ?thesis by (simp add: from_le_le_val to_le_le_bytes le_val_le_bytes)
qed

lemma to_le_from_le:
  assumes "length bs = n" "8 * n \<le> LENGTH('w)"
  shows "to_le n (from_le bs :: 'w::len word) = bs"
proof -
  have "le_val bs < 256 ^ n" using le_val_less [of bs] assms by simp
  also have "\<dots> = 2 ^ (8 * n)" by (simp add: power_mult)
  also have "\<dots> \<le> 2 ^ LENGTH('w)" using assms by simp
  finally have "unat (from_le bs :: 'w word) = le_val bs"
    by (simp add: from_le_le_val unat_of_nat)
  then show ?thesis using assms le_bytes_le_val [of bs] by (simp add: to_le_le_bytes)
qed

lemma from_be_to_be: "LENGTH('w) \<le> 8 * n \<Longrightarrow> from_be (to_be n w) = (w :: 'w::len word)"
  by (simp add: from_be_def to_be_def from_le_to_le)

lemma to_be_from_be: "length bs = n \<Longrightarrow> 8 * n \<le> LENGTH('w) \<Longrightarrow> to_be n (from_be bs :: 'w::len word) = bs"
  by (simp add: from_be_def to_be_def to_le_from_le)

section \<open>Subsequences and sums over lists\<close>

lemma subseq_set_mono: "subseq ys xs \<Longrightarrow> set ys \<subseteq> set xs"
  by (metis subseq_conv_nths set_nths_subset)

lemma subseq_distinct: "subseq ys xs \<Longrightarrow> distinct xs \<Longrightarrow> distinct ys"
  by (metis subseq_conv_nths distinct_nthsI)

lemma sorted_wrt_subseq: "subseq ys xs \<Longrightarrow> sorted_wrt P xs \<Longrightarrow> sorted_wrt P ys"
proof (induction rule: list_emb.induct)
  case (list_emb_Cons2 x y xs ys)
  then show ?case using subseq_set_mono [of xs ys] by auto
qed simp_all

lemma sum_take_Suc_le:
  assumes "\<forall>x \<in> set xs. x \<le> (d :: nat)"
  shows "sum_list (take (Suc n) xs) \<le> d + sum_list (take n xs)"
proof (cases "n < length xs")
  case True
  then have "sum_list (take (Suc n) xs) = sum_list (take n xs) + xs ! n"
    by (simp add: take_Suc_conv_app_nth)
  with True assms show ?thesis by simp
next
  case False
  then show ?thesis by simp
qed

lemma subseq_sum_le_top:
  fixes xs :: "nat list"
  assumes "subseq ys xs" "sorted_wrt (\<ge>) xs"
  shows "sum_list ys \<le> sum_list (take (length ys) xs)"
  using assms
proof (induction xs arbitrary: ys rule: list.induct)
  case Nil
  then have "ys = []" by (cases ys) simp_all
  then show ?case by simp
next
  case (Cons d xs)
  show ?case
  proof (cases ys)
    case Nil
    then show ?thesis by simp
  next
    case (Cons y zs)
    show ?thesis
    proof (cases "y = d")
      case True
      then have "subseq zs xs" using Cons.prems Cons by auto
      then show ?thesis using Cons.IH [of zs] Cons.prems Cons True by simp
    next
      case False
      then have "subseq ys xs" using Cons.prems Cons by auto
      then have "sum_list ys \<le> sum_list (take (length ys) xs)"
        using Cons.IH Cons.prems by simp
      also have "\<dots> \<le> d + sum_list (take (length zs) xs)"
        using Cons sum_take_Suc_le [of xs d "length zs"] Cons.prems by simp
      finally show ?thesis using Cons by simp
    qed
  qed
qed

lemma sum_take_mono: "m \<le> n \<Longrightarrow> sum_list (take m xs) \<le> sum_list (take n (xs :: nat list))"
  using take_add [of m "n - m" xs] by simp

lemma sum_list_mset_eq:
  fixes f :: "'a \<Rightarrow> nat"
  assumes "mset xs = mset ys"
  shows "sum_list (map f xs) = sum_list (map f ys)"
  using arg_cong [OF assms, of "\<lambda>m. \<Sum>\<^sub># (image_mset f m)"] by (simp add: sum_mset_sum_list flip: mset_map)

end
