(* ===== verification/Amounts.thy ===== *)
theory Amounts imports Prelude begin

text \<open>
  The amount and field types of the application, from
  \<^verbatim>\<open>app/crates/core/types/src/amounts.rs\<close>: \<open>NoteAmount\<close> (a u128), \<open>ExtAmount\<close> (an i128)
  and \<open>Field\<close> (a BN254 scalar in a U256), with their checked and panicking arithmetic and
  the conversions between them.
\<close>

section \<open>Types\<close>

datatype note_amount = NoteAmount (na_val: u128)
datatype ext_amount = ExtAmount (ea_val: i128)
datatype field = Field (f_val: u256)

text \<open>The keys of the crate \<^verbatim>\<open>types\<close>: byte strings with a name.\<close>

datatype key_derivation_signature = KeyDerivationSignature "byte list"
datatype note_private_key = NotePrivateKey "byte list"
datatype note_public_key = NotePublicKey "byte list"
datatype encryption_private_key = EncryptionPrivateKey "byte list"
datatype encryption_public_key = EncryptionPublicKey "byte list"

datatype amount_error =
    NoteAmountOutOfRange
  | ExtAmountOutOfRange
  | ExtAmountOutOfFieldRange
  | FieldOutOfRange

text \<open>The derived orders compare the wrapped integers: u128 and U256 unsigned, i128 signed.\<close>

instantiation note_amount :: linorder
begin

definition less_eq_note_amount :: "note_amount \<Rightarrow> note_amount \<Rightarrow> bool" where
  "less_eq_note_amount a b = (na_val a \<le> na_val b)"

definition less_note_amount :: "note_amount \<Rightarrow> note_amount \<Rightarrow> bool" where
  "less_note_amount a b = (na_val a < na_val b)"

instance
  by standard (auto simp: less_eq_note_amount_def less_note_amount_def note_amount.expand)

end

instantiation ext_amount :: linorder
begin

definition less_eq_ext_amount :: "ext_amount \<Rightarrow> ext_amount \<Rightarrow> bool" where
  "less_eq_ext_amount a b = (sint (ea_val a) \<le> sint (ea_val b))"

definition less_ext_amount :: "ext_amount \<Rightarrow> ext_amount \<Rightarrow> bool" where
  "less_ext_amount a b = (sint (ea_val a) < sint (ea_val b))"

instance
  by standard (auto simp: less_eq_ext_amount_def less_ext_amount_def intro!: ext_amount.expand dest: sint_eqD)

end

instantiation field :: linorder
begin

definition less_eq_field :: "field \<Rightarrow> field \<Rightarrow> bool" where
  "less_eq_field a b = (f_val a \<le> f_val b)"

definition less_field :: "field \<Rightarrow> field \<Rightarrow> bool" where
  "less_field a b = (f_val a < f_val b)"

instance
  by standard (auto simp: less_eq_field_def less_field_def field.expand)

end

section \<open>Note amounts\<close>

definition NA_MAX :: note_amount where "NA_MAX = NoteAmount (- 1)"
definition NA_ONE :: note_amount where "NA_ONE = NoteAmount 1"
definition NA_ZERO :: note_amount where "NA_ZERO = NoteAmount 0"

definition na_is_zero :: "note_amount \<Rightarrow> bool" where
  "na_is_zero a = (na_val a = 0)"

definition na_to_le_bytes :: "note_amount \<Rightarrow> byte list" where
  "na_to_le_bytes a = to_le 16 (na_val a)"

definition na_checked_add :: "note_amount \<Rightarrow> note_amount \<Rightarrow> note_amount option" where
  "na_checked_add a b = map_option NoteAmount (checked_add (na_val a) (na_val b))"

definition na_checked_sub :: "note_amount \<Rightarrow> note_amount \<Rightarrow> note_amount option" where
  "na_checked_sub a b = map_option NoteAmount (checked_sub (na_val a) (na_val b))"

text \<open>The operators panic where the checked operations return \<open>None\<close>.\<close>

definition na_add :: "note_amount \<Rightarrow> note_amount \<Rightarrow> (amount_error, note_amount) outcome" where
  "na_add a b = expect (na_checked_add a b)"

definition na_sub :: "note_amount \<Rightarrow> note_amount \<Rightarrow> (amount_error, note_amount) outcome" where
  "na_sub a b = expect (na_checked_sub a b)"

section \<open>External amounts\<close>

definition EA_MAX :: ext_amount where "EA_MAX = ExtAmount (2 ^ 127 - 1)"
definition EA_ONE :: ext_amount where "EA_ONE = ExtAmount 1"
definition EA_ZERO :: ext_amount where "EA_ZERO = ExtAmount 0"

definition in_i128 :: "int \<Rightarrow> bool" where
  "in_i128 x = (- (2 ^ 127) \<le> x \<and> x < 2 ^ 127)"

definition ea_is_zero :: "ext_amount \<Rightarrow> bool" where
  "ea_is_zero a = (ea_val a = 0)"

definition ea_checked_add :: "ext_amount \<Rightarrow> ext_amount \<Rightarrow> ext_amount option" where
  "ea_checked_add a b =
     (if in_i128 (sint (ea_val a) + sint (ea_val b)) then Some (ExtAmount (ea_val a + ea_val b)) else None)"

definition ea_checked_sub :: "ext_amount \<Rightarrow> ext_amount \<Rightarrow> ext_amount option" where
  "ea_checked_sub a b =
     (if in_i128 (sint (ea_val a) - sint (ea_val b)) then Some (ExtAmount (ea_val a - ea_val b)) else None)"

definition ea_checked_neg :: "ext_amount \<Rightarrow> ext_amount option" where
  "ea_checked_neg a = (if in_i128 (- sint (ea_val a)) then Some (ExtAmount (- ea_val a)) else None)"

definition ea_add :: "ext_amount \<Rightarrow> ext_amount \<Rightarrow> (amount_error, ext_amount) outcome" where
  "ea_add a b = expect (ea_checked_add a b)"

definition ea_sub :: "ext_amount \<Rightarrow> ext_amount \<Rightarrow> (amount_error, ext_amount) outcome" where
  "ea_sub a b = expect (ea_checked_sub a b)"

definition ea_neg :: "ext_amount \<Rightarrow> (amount_error, ext_amount) outcome" where
  "ea_neg a = expect (ea_checked_neg a)"

text \<open>
  \<open>NoteAmount::try_from(ExtAmount)\<close> is \<open>u128::try_from\<close> of an i128: it fails on the
  negative values; \<open>ExtAmount::try_from(NoteAmount)\<close> fails above \<open>i128::MAX\<close>.
\<close>

definition na_try_from_ext :: "ext_amount \<Rightarrow> (amount_error, note_amount) outcome" where
  "na_try_from_ext e =
     (if 0 \<le> sint (ea_val e) then Inr (NoteAmount (word_of_int (sint (ea_val e))))
      else Inl (Fail NoteAmountOutOfRange))"

definition ea_try_from_note :: "note_amount \<Rightarrow> (amount_error, ext_amount) outcome" where
  "ea_try_from_note n =
     (if uint (na_val n) < 2 ^ 127 then Inr (ExtAmount (word_of_int (uint (na_val n))))
      else Inl (Fail ExtAmountOutOfRange))"

section \<open>Field elements\<close>

definition BN254_MODULUS_BE :: "byte list" where
  "BN254_MODULUS_BE =
     [48, 100, 78, 114, 225, 49, 160, 41, 184, 80, 69, 182, 129, 129, 88, 93, 40, 51, 232, 72, 121,
      185, 112, 145, 67, 225, 245, 147, 240, 0, 0, 1]"

definition bn254_modulus_u256 :: u256 where
  "bn254_modulus_u256 = from_be BN254_MODULUS_BE"

text \<open>A \<open>U256\<close> built from its four 64-bit limbs, least significant first.\<close>

definition from_limbs :: "u64 list \<Rightarrow> u256" where
  "from_limbs ls = word_of_nat (foldr (\<lambda>l acc. unat l + 2 ^ 64 * acc) ls 0)"

definition BN254_PRIME :: u256 where
  "BN254_PRIME = from_limbs [0x43e1f593f0000001, 0x2833e84879b97091, 0xb85045b68181585d, 0x30644e72e131a029]"

definition F_ONE :: field where "F_ONE = Field 1"
definition F_ZERO :: field where "F_ZERO = Field 0"

definition f_is_zero :: "field \<Rightarrow> bool" where
  "f_is_zero f = (f = F_ZERO)"

definition f_to_be_bytes :: "field \<Rightarrow> byte list" where
  "f_to_be_bytes f = to_be 32 (f_val f)"

definition f_to_le_bytes :: "field \<Rightarrow> byte list" where
  "f_to_le_bytes f = to_le 32 (f_val f)"

definition f_try_from_u256 :: "u256 \<Rightarrow> (amount_error, field) outcome" where
  "f_try_from_u256 v = (if bn254_modulus_u256 \<le> v then Inl (Fail FieldOutOfRange) else Inr (Field v))"

definition f_try_from_be_bytes :: "byte list \<Rightarrow> (amount_error, field) outcome" where
  "f_try_from_be_bytes bs = f_try_from_u256 (from_be bs)"

definition f_try_from_le_bytes :: "byte list \<Rightarrow> (amount_error, field) outcome" where
  "f_try_from_le_bytes bs = f_try_from_u256 (from_le bs)"

definition f_from_le_bytes_mod_order :: "byte list \<Rightarrow> field" where
  "f_from_le_bytes_mod_order bs = Field (from_le bs mod BN254_PRIME)"

definition f_from_note :: "note_amount \<Rightarrow> field" where
  "f_from_note n = Field (ucast (na_val n))"

text \<open>
  \<open>Field::try_from(ExtAmount)\<close>: a non-negative amount is the field element itself, a
  negative one is \<open>p - |x|\<close>; the range guards of the code are kept.
\<close>

definition f_try_from_ext :: "ext_amount \<Rightarrow> (amount_error, field) outcome" where
  "f_try_from_ext e =
     (let m = bn254_modulus_u256; x = sint (ea_val e) in
      if 0 \<le> x then
        (let v = (word_of_int x :: u256) in
         if m \<le> v then Inl (Fail ExtAmountOutOfFieldRange) else Inr (Field v))
      else
        (let a = (word_of_int \<bar>x\<bar> :: u256) in
         if m \<le> a then Inl (Fail ExtAmountOutOfFieldRange)
         else andThen (expect (checked_sub m a)) (\<lambda>v. Inr (Field v))))"

definition f_add :: "field \<Rightarrow> field \<Rightarrow> (amount_error, field) outcome" where
  "f_add a b =
     (let m = bn254_modulus_u256 in
      andThen (expect (checked_add (f_val a) (f_val b))) (\<lambda>v.
      if m \<le> v then andThen (expect (checked_sub v m)) (\<lambda>v'. Inr (Field v')) else Inr (Field v)))"

definition f_sub :: "field \<Rightarrow> field \<Rightarrow> (amount_error, field) outcome" where
  "f_sub a b =
     (let m = bn254_modulus_u256 in
      if f_val b \<le> f_val a then andThen (expect (checked_sub (f_val a) (f_val b))) (\<lambda>v. Inr (Field v))
      else andThen (expect (checked_sub (f_val b) (f_val a))) (\<lambda>diff.
           andThen (expect (checked_sub m diff)) (\<lambda>v. Inr (Field v))))"

section \<open>The modulus\<close>

abbreviation bn_p :: nat where
  "bn_p \<equiv> 21888242871839275222246405745257275088548364400416034343698204186575808495617"

lemma bn254_modulus_u256_eq: "bn254_modulus_u256 = word_of_nat bn_p"
  by (simp add: bn254_modulus_u256_def BN254_MODULUS_BE_def from_be_def)

lemma unat_bn254_modulus [simp]: "unat bn254_modulus_u256 = bn_p"
  by (simp add: bn254_modulus_u256_eq)

lemma BN254_PRIME_eq: "BN254_PRIME = bn254_modulus_u256"
  by (simp add: BN254_PRIME_def from_limbs_def bn254_modulus_u256_eq)

definition f_canonical :: "field \<Rightarrow> bool" where
  "f_canonical f = (f_val f < bn254_modulus_u256)"

lemma f_canonical_nat: "f_canonical f \<longleftrightarrow> unat (f_val f) < bn_p"
  by (simp add: f_canonical_def word_less_nat_alt)

section \<open>Note amounts as natural numbers\<close>

abbreviation amt :: "note_amount \<Rightarrow> nat" where
  "amt n \<equiv> unat (na_val n)"

lemma amt_inject: "amt a = amt b \<longleftrightarrow> a = b"
  by (auto simp flip: word_unat_eq_iff intro: note_amount.expand)

lemma na_le_amt: "a \<le> b \<longleftrightarrow> amt a \<le> amt b"
  by (simp add: less_eq_note_amount_def word_le_nat_alt)

lemma na_less_amt: "a < b \<longleftrightarrow> amt a < amt b"
  by (simp add: less_note_amount_def word_less_nat_alt)

lemma amt_NA_ZERO [simp]: "amt NA_ZERO = 0"
  by (simp add: NA_ZERO_def)

lemma amt_less: "amt n < 2 ^ 128"
  using unsigned_less [of "na_val n", where ?'a = nat] by simp

lemma na_is_zero_amt: "na_is_zero a \<longleftrightarrow> amt a = 0"
  by (simp add: na_is_zero_def unat_eq_0)

lemma na_checked_add_Some [res_simps]: "na_checked_add a b = Some c \<longleftrightarrow> amt c = amt a + amt b"
  by (cases c) (auto simp: na_checked_add_def res_simps)

lemma na_checked_sub_Some [res_simps]: "na_checked_sub a b = Some c \<longleftrightarrow> amt a = amt b + amt c"
  by (cases c) (auto simp: na_checked_sub_def res_simps)

lemma na_checked_sub_None: "na_checked_sub a b = None \<longleftrightarrow> amt a < amt b"
  by (simp add: na_checked_sub_def checked_sub_None)

lemma na_checked_add_None: "na_checked_add a b = None \<longleftrightarrow> 2 ^ 128 \<le> amt a + amt b"
  by (simp add: na_checked_add_def checked_add_None)

section \<open>Field arithmetic\<close>

lemma f_add_mod:
  assumes "f_canonical a" "f_canonical b"
  shows "\<exists>c. f_add a b = Inr c \<and> f_canonical c \<and> unat (f_val c) = (unat (f_val a) + unat (f_val b)) mod bn_p"
proof -
  let ?x = "unat (f_val a)" and ?y = "unat (f_val b)" and ?m = bn254_modulus_u256
  have xy: "?x < bn_p" "?y < bn_p" using assms by (simp_all add: f_canonical_nat)
  then have "?x + ?y < 2 ^ 256" by simp
  then have c: "checked_add (f_val a) (f_val b) = Some (f_val a + f_val b)"
    by (simp add: checked_add_unat)
  then have v: "unat (f_val a + f_val b) = ?x + ?y" by (simp add: res_simps)
  show ?thesis
  proof (cases "?m \<le> f_val a + f_val b")
    case True
    then have "bn_p \<le> ?x + ?y" by (simp add: word_le_nat_alt v)
    moreover have "unat (f_val a + f_val b - ?m) = ?x + ?y - bn_p"
      using True by (simp add: unat_sub v)
    ultimately show ?thesis
      using True xy c by (simp add: f_add_def checked_sub_def f_canonical_nat mod_if)
  next
    case False
    then have "?x + ?y < bn_p" by (simp add: word_le_nat_alt v)
    then show ?thesis using False c v by (simp add: f_add_def f_canonical_nat)
  qed
qed

lemma f_sub_mod:
  assumes "f_canonical a" "f_canonical b"
  shows "\<exists>c. f_sub a b = Inr c \<and> f_canonical c \<and>
    unat (f_val c) = (unat (f_val a) + (bn_p - unat (f_val b))) mod bn_p"
proof -
  let ?x = "unat (f_val a)" and ?y = "unat (f_val b)" and ?m = bn254_modulus_u256
  have xy: "?x < bn_p" "?y < bn_p" using assms by (simp_all add: f_canonical_nat)
  show ?thesis
  proof (cases "f_val b \<le> f_val a")
    case True
    then have le: "?y \<le> ?x" by (simp add: word_le_nat_alt)
    then have "?x + (bn_p - ?y) = (?x - ?y) + bn_p" using xy by simp
    then have "(?x + (bn_p - ?y)) mod bn_p = (?x - ?y) mod bn_p" by (simp only: mod_add_self2)
    also have "\<dots> = ?x - ?y" using xy by (intro mod_less) simp
    finally show ?thesis using True xy
      by (simp add: f_sub_def checked_sub_def f_canonical_nat unat_sub)
  next
    case False
    then have lt: "?x < ?y" by (simp add: word_le_nat_alt)
    then have d: "unat (f_val b - f_val a) = ?y - ?x" by (simp add: unat_sub word_le_nat_alt)
    then have le: "f_val b - f_val a \<le> ?m" using xy by (simp add: word_le_nat_alt)
    have "unat (?m - (f_val b - f_val a)) = bn_p - (?y - ?x)"
      by (simp only: unat_sub [OF le] d unat_bn254_modulus)
    moreover have "bn_p - (?y - ?x) < bn_p" "bn_p - (?y - ?x) = ?x + (bn_p - ?y)"
      using lt xy by linarith+
    ultimately show ?thesis using False le
      by (simp del: diff_diff_right add: f_sub_def checked_sub_def f_canonical_nat)
  qed
qed

lemma f_sub_add_cancel:
  assumes "f_canonical a" "f_canonical b" "f_add a b = Inr c"
  shows "f_sub c b = Inr a"
proof -
  have v: "unat (f_val c) = (unat (f_val a) + unat (f_val b)) mod bn_p" "f_canonical c"
    using f_add_mod [OF assms(1,2)] assms(3) by auto
  obtain d where d: "f_sub c b = Inr d"
    "unat (f_val d) = (unat (f_val c) + (bn_p - unat (f_val b))) mod bn_p"
    using f_sub_mod [OF v(2) assms(2)] by auto
  have "unat (f_val d) = (unat (f_val a) + unat (f_val b) + (bn_p - unat (f_val b))) mod bn_p"
    by (simp add: d v mod_add_left_eq)
  also have "\<dots> = unat (f_val a)"
    using assms(1,2) by (simp add: f_canonical_nat)
  finally have "f_val d = f_val a" by (simp only: word_unat_eq_iff)
  then show ?thesis using d by (simp add: field.expand)
qed

section \<open>Signed amounts in the field\<close>

lemma sint_i128_bounds: "- (2 ^ 127) \<le> sint (x :: i128)" "sint (x :: i128) < 2 ^ 127"
  using sint_ge [of x] sint_lt [of x] by simp_all

lemma unat_word_of_int_u256: "0 \<le> x \<Longrightarrow> x < 2 ^ 256 \<Longrightarrow> unat (word_of_int x :: u256) = nat x"
  by (simp add: unat_eq_nat_uint uint_word_of_int)

lemma f_try_from_ext_value:
  "\<exists>f. f_try_from_ext e = Inr f \<and> f_canonical f \<and> int (unat (f_val f)) = sint (ea_val e) mod int bn_p"
proof -
  define x where "x = sint (ea_val e)"
  have b: "- (2 ^ 127) \<le> x" "x < 2 ^ 127"
    using sint_i128_bounds [of "ea_val e"] by (simp_all add: x_def)
  show ?thesis
  proof (cases "0 \<le> x")
    case True
    then have u: "unat (word_of_int x :: u256) = nat x"
      using b by (intro unat_word_of_int_u256) auto
    have lt: "word_of_int x < bn254_modulus_u256"
      unfolding word_less_nat_alt u using b by simp
    have ui: "uint (word_of_int x :: u256) = x"
      unfolding uint_word_of_int using True b by (intro mod_pos_pos_trivial) auto
    have "x mod int bn_p = x" using True b by (intro mod_pos_pos_trivial) auto
    then show ?thesis using True u lt
      unfolding f_try_from_ext_def Let_def x_def [symmetric]
      by (simp add: f_canonical_def not_le ui)
  next
    case False
    define w where "w = (word_of_int \<bar>x\<bar> :: u256)"
    have u: "unat w = nat (- x)"
      using b False unat_word_of_int_u256 [of "\<bar>x\<bar>"] by (simp add: w_def)
    then have lt: "w < bn254_modulus_u256"
      unfolding word_less_nat_alt u using b by simp
    then have s: "unat (bn254_modulus_u256 - w) = bn_p - nat (- x)"
      by (simp only: unat_sub [OF less_imp_le [OF lt]] u unat_bn254_modulus)
    have "x mod int bn_p = (x + int bn_p) mod int bn_p" by (simp only: mod_add_self2)
    also have "\<dots> = x + int bn_p" using False b by (intro mod_pos_pos_trivial) auto
    finally have "int (unat (bn254_modulus_u256 - w)) = x mod int bn_p"
      unfolding s using False b by simp
    moreover have "unat (bn254_modulus_u256 - w) < bn_p" unfolding s using False by simp
    moreover have "f_try_from_ext e = Inr (Field (bn254_modulus_u256 - w))"
      using False lt unfolding f_try_from_ext_def Let_def x_def [symmetric] w_def [symmetric]
      by (simp add: checked_sub_def not_le less_imp_le)
    ultimately show ?thesis
      by (intro exI [of _ "Field (bn254_modulus_u256 - w)"] conjI)
        (simp_all only: f_canonical_nat field.sel x_def)
  qed
qed

section \<open>Byte encodings\<close>

text \<open>
  The contract of a fixed-width encoding: decoding accepts exactly the encodings of the
  valid values, and inverts them.
\<close>

locale byte_codec =
  fixes enc :: "'a \<Rightarrow> byte list"
    and dec :: "byte list \<Rightarrow> ('e, 'a) outcome"
    and valid :: "'a \<Rightarrow> bool"
    and width :: nat
  assumes length_enc: "length (enc a) = width"
    and dec_enc: "valid a \<Longrightarrow> dec (enc a) = Inr a"
    and enc_dec: "length bs = width \<Longrightarrow> dec bs = Inr a \<Longrightarrow> valid a \<and> enc a = bs"
begin

lemma enc_inject: "valid a \<Longrightarrow> valid b \<Longrightarrow> enc a = enc b \<Longrightarrow> a = b"
  by (metis dec_enc sum.inject(2))

lemma dec_inject:
  "length bs = width \<Longrightarrow> length cs = width \<Longrightarrow> dec bs = Inr a \<Longrightarrow> dec cs = Inr a \<Longrightarrow> bs = cs"
  using enc_dec by metis

lemma dec_iff: "length bs = width \<Longrightarrow> dec bs = Inr a \<longleftrightarrow> valid a \<and> enc a = bs"
  using dec_enc enc_dec by metis

end

lemma f_try_from_u256_Inr [res_simps]: "f_try_from_u256 v = Inr f \<longleftrightarrow> v < bn254_modulus_u256 \<and> f = Field v"
  by (auto simp: f_try_from_u256_def)

interpretation field_le: byte_codec f_to_le_bytes f_try_from_le_bytes f_canonical 32
proof
  show "length (f_to_le_bytes f) = 32" for f by (simp add: f_to_le_bytes_def)
  show "f_canonical f \<Longrightarrow> f_try_from_le_bytes (f_to_le_bytes f) = Inr f" for f
    by (simp add: f_to_le_bytes_def f_try_from_le_bytes_def f_canonical_def res_simps from_le_to_le)
  show "f_canonical f \<and> f_to_le_bytes f = bs"
    if "length bs = 32" "f_try_from_le_bytes bs = Inr f" for bs f
    using that by (simp add: f_to_le_bytes_def f_try_from_le_bytes_def f_canonical_def res_simps to_le_from_le)
qed

interpretation field_be: byte_codec f_to_be_bytes f_try_from_be_bytes f_canonical 32
proof
  show "length (f_to_be_bytes f) = 32" for f by (simp add: f_to_be_bytes_def)
  show "f_canonical f \<Longrightarrow> f_try_from_be_bytes (f_to_be_bytes f) = Inr f" for f
    by (simp add: f_to_be_bytes_def f_try_from_be_bytes_def f_canonical_def res_simps from_be_to_be)
  show "f_canonical f \<and> f_to_be_bytes f = bs"
    if "length bs = 32" "f_try_from_be_bytes bs = Inr f" for bs f
    using that by (simp add: f_to_be_bytes_def f_try_from_be_bytes_def f_canonical_def res_simps to_be_from_be)
qed

lemma f_from_le_bytes_mod_order_val:
  assumes "length bs = 32"
  shows "unat (f_val (f_from_le_bytes_mod_order bs)) = le_val bs mod bn_p"
proof -
  have "le_val bs < 2 ^ 256" using le_val_less [of bs] assms by simp
  then show ?thesis
    by (simp add: f_from_le_bytes_mod_order_def from_le_le_val BN254_PRIME_eq unat_mod unat_of_nat)
qed

lemma f_canonical_from_le_bytes_mod_order: "f_canonical (f_from_le_bytes_mod_order bs)"
  by (simp add: f_canonical_nat f_from_le_bytes_mod_order_def BN254_PRIME_eq unat_mod)

end
