(* ===== verification/Combination.thy ===== *)
theory Combination imports Amounts begin

text \<open>
  Coin selection, from \<^verbatim>\<open>app/crates/core/tx-planner/src/plan/combination.rs\<close> and
  \<^verbatim>\<open>plan/error.rs\<close>: the two-pointer scan for a pair, the scan for a single note, the
  bounded depth-first search for three notes or more with its greedy fallback, and
  \<open>find_combination\<close>, which tries them in the order of the code.
  An index into the wallet is a \<open>nat\<close>; a slice read out of range is \<open>Panic\<close>.
  The standard library's \<open>sort_unstable_by_key\<close> leaves the order of equal keys open: it is
  the parameter \<open>srt\<close>, any function with \<open>sorts_by_key srt\<close>.
\<close>

section \<open>Errors and results\<close>

datatype plan_error =
    NoSpendableNotes
  | NoCombination
  | TooManyNotes nat nat
  | NoteIndexOutOfRange nat
  | InputAmountOverflow
  | InternalError string
  | InvalidPlan
  | CommitmentNotFound field
  | NoteAmountMismatch field note_amount note_amount
  | NoNoteForAmount note_amount
  | AmbiguousNoteForAmount note_amount

datatype combination_result =
    TwoExact nat nat
  | OneExact nat
  | TwoOvershoot nat nat note_amount
  | OneOvershoot nat note_amount
  | ExactK "nat list"
  | Overshoot "nat list" note_amount
  | Impossible

type_synonym valued = "nat \<times> note_amount"

definition TRANSACTION_LIMIT :: nat where "TRANSACTION_LIMIT = 10"

definition sorts_by_key :: "(valued list \<Rightarrow> valued list) \<Rightarrow> bool" where
  "sorts_by_key srt \<longleftrightarrow> (\<forall>xs. mset (srt xs) = mset xs \<and> sorted (map snd (srt xs)))"

section \<open>Pairs\<close>

datatype TwoScan = TwoScanExact nat nat | TwoScanOvershoot nat nat note_amount | TwoScanMiss

text \<open>
  The loop \<open>while left < right\<close>. The code compares the excess with zero twice; where
  both comparisons fail the loop would not move, and the termination proof shows that this
  cannot happen.
\<close>

function two_loop ::
  "valued list \<Rightarrow> note_amount \<Rightarrow> nat \<Rightarrow> nat \<Rightarrow> (nat \<times> nat \<times> note_amount) option \<Rightarrow>
    (plan_error, TwoScan) outcome" where
  "two_loop xs goal left right best =
     (if left < right then
        andThen (vec_index xs left) (\<lambda>l.
        andThen (vec_index xs right) (\<lambda>r.
        andThen (ok_or InputAmountOverflow (na_checked_add (snd l) (snd r))) (\<lambda>sum.
        case na_checked_sub sum goal of
          None \<Rightarrow>
            andThen (ok_or (InternalError ''two-scan: left index overflow'') (usize_checked_add left 1)) (\<lambda>left'.
            two_loop xs goal left' right best)
        | Some diff \<Rightarrow>
            if na_is_zero diff then Inr (TwoScanExact (fst l) (fst r))
            else if NA_ZERO < diff then
              (let best' = (if (case best of None \<Rightarrow> True | Some (_, _, excess) \<Rightarrow> diff < excess)
                            then Some (fst l, fst r, diff) else best) in
               andThen (ok_or (InternalError ''two-scan: right index underflow'') (usize_checked_sub right 1)) (\<lambda>right'.
               two_loop xs goal left right' best'))
            else two_loop xs goal left right best)))
      else
        Inr (case best of Some (i, j, excess) \<Rightarrow> TwoScanOvershoot i j excess | None \<Rightarrow> TwoScanMiss))"
  by pat_completeness auto
termination
  by (relation "measure (\<lambda>(xs, goal, left, right, best). right - left)")
    (auto simp: res_simps na_is_zero_amt na_less_amt split: if_splits)

declare two_loop.simps [simp del]

definition two_scan :: "valued list \<Rightarrow> note_amount \<Rightarrow> (plan_error, TwoScan) outcome" where
  "two_scan xs goal =
     (if length xs < 2 then Inr TwoScanMiss
      else andThen (ok_or (InternalError ''two-scan: right bound underflow'') (usize_checked_sub (length xs) 1))
             (\<lambda>right. two_loop xs goal 0 right None))"

section \<open>Single notes\<close>

datatype OneScan = OneScanExact nat | OneScanOvershoot nat note_amount | OneScanMiss

fun one_scan :: "valued list \<Rightarrow> note_amount \<Rightarrow> OneScan" where
  "one_scan [] goal = OneScanMiss"
| "one_scan ((i, x) # xs) goal =
     (case na_checked_sub x goal of
        None \<Rightarrow> one_scan xs goal
      | Some diff \<Rightarrow>
          if na_is_zero diff then OneScanExact i
          else if NA_ZERO < diff then OneScanOvershoot i diff
          else one_scan xs goal)"

section \<open>Three notes and more\<close>

datatype KScan = KScanExact "nat list" | KScanOvershoot "nat list" note_amount | KScanMiss

text \<open>The mutable part of \<open>DfsContext\<close>: the i32 iteration limit, the path, the best overshoot.\<close>

record dfs_context =
  iteration_limit :: int
  path :: "nat list"
  best_overshoot :: "(note_amount \<times> nat list) option"

definition i32_checked_sub :: "int \<Rightarrow> int \<Rightarrow> int option" where
  "i32_checked_sub a b = (if - (2 ^ 31) \<le> a - b \<and> a - b < 2 ^ 31 then Some (a - b) else None)"

function dfs ::
  "valued list \<Rightarrow> note_amount \<Rightarrow> nat \<Rightarrow> note_amount \<Rightarrow> nat \<Rightarrow> dfs_context \<Rightarrow>
    (plan_error, bool \<times> dfs_context) outcome" where
  "dfs candidates goal target_k acc index ctx =
     (if length (path ctx) = target_k then
        (case na_checked_sub acc goal of
           None \<Rightarrow> Inr (False, ctx)
         | Some diff \<Rightarrow>
             if na_is_zero diff then Inr (True, ctx)
             else if NA_ZERO < diff \<and>
               (case best_overshoot ctx of None \<Rightarrow> True | Some (min_ov, _) \<Rightarrow> diff < min_ov)
             then Inr (False, ctx\<lparr>best_overshoot := Some (diff, path ctx)\<rparr>)
             else Inr (False, ctx))
      else if goal \<le> acc \<or> length candidates \<le> index \<or> iteration_limit ctx \<le> 0 then Inr (False, ctx)
      else
        andThen (ok_or (InternalError ''dfs: iteration limit underflow'') (i32_checked_sub (iteration_limit ctx) 1)) (\<lambda>limit.
        andThen (ok_or (InternalError ''dfs: index overflow'') (usize_checked_add index 1)) (\<lambda>next_index.
        andThen (vec_index candidates index) (\<lambda>note.
        andThen (ok_or InputAmountOverflow (na_checked_add acc (snd note))) (\<lambda>with_note.
        andThen (dfs candidates goal target_k with_note next_index
                  (ctx\<lparr>iteration_limit := limit, path := path ctx @ [fst note]\<rparr>)) (\<lambda>res.
        if fst res then Inr (True, snd res)
        else dfs candidates goal target_k acc next_index
               ((snd res)\<lparr>path := butlast (path (snd res))\<rparr>)))))))"
  by pat_completeness auto
termination
  by (relation "measure (\<lambda>(candidates, goal, target_k, acc, index, ctx). length candidates - index)")
    (auto simp: res_simps split: if_splits)

declare dfs.simps [simp del]

text \<open>Largest notes first until the goal is reached; \<open>xs\<close> is the reversed sorted slice.\<close>

fun greedy_loop :: "valued list \<Rightarrow> note_amount \<Rightarrow> note_amount \<Rightarrow> nat list \<Rightarrow> (plan_error, KScan) outcome" where
  "greedy_loop [] goal acc picks = Inr KScanMiss"
| "greedy_loop ((i, x) # xs) goal acc picks =
     andThen (ok_or InputAmountOverflow (na_checked_add acc x)) (\<lambda>acc'.
     if goal \<le> acc' then
       andThen (ok_or (InternalError ''greedy: excess invariant'') (na_checked_sub acc' goal))
         (\<lambda>excess. Inr (KScanOvershoot (picks @ [i]) excess))
     else greedy_loop xs goal acc' (picks @ [i]))"

definition greedy_impl :: "valued list \<Rightarrow> note_amount \<Rightarrow> (plan_error, KScan) outcome" where
  "greedy_impl xs goal = greedy_loop (rev xs) goal NA_ZERO []"

text \<open>The loop \<open>for k in 3..=max_k\<close>, each round with a fresh context.\<close>

fun k_loop :: "valued list \<Rightarrow> valued list \<Rightarrow> note_amount \<Rightarrow> nat list \<Rightarrow> (plan_error, KScan) outcome" where
  "k_loop xs candidates goal [] = greedy_impl xs goal"
| "k_loop xs candidates goal (k # ks) =
     andThen (dfs candidates goal k NA_ZERO 0
               \<lparr>iteration_limit = 5000, path = [], best_overshoot = None\<rparr>) (\<lambda>res.
     if fst res then Inr (KScanExact (path (snd res)))
     else case best_overshoot (snd res) of
            Some (excess, p) \<Rightarrow> Inr (KScanOvershoot p excess)
          | None \<Rightarrow> k_loop xs candidates goal ks)"

definition k_scan :: "valued list \<Rightarrow> note_amount \<Rightarrow> (plan_error, KScan) outcome" where
  "k_scan xs goal =
     (let candidates_desc = rev (filter (\<lambda>(_, x). x < goal) xs) in
      if 3 \<le> length candidates_desc
      then k_loop xs candidates_desc goal [3 ..< Suc (min (length candidates_desc) TRANSACTION_LIMIT)]
      else greedy_impl xs goal)"

section \<open>Coin selection\<close>

definition find_combination ::
  "(valued list \<Rightarrow> valued list) \<Rightarrow> note_amount list \<Rightarrow> note_amount \<Rightarrow>
    (plan_error, combination_result) outcome" where
  "find_combination srt values goal =
     (if values = [] then Inr Impossible
      else
        let sorted_vals = srt (enumerate 0 values) in
        andThen (two_scan sorted_vals goal) (\<lambda>two.
        case two of
          TwoScanExact i j \<Rightarrow> Inr (TwoExact i j)
        | _ \<Rightarrow>
            (let one = one_scan sorted_vals goal in
             case one of
               OneScanExact i \<Rightarrow> Inr (OneExact i)
             | _ \<Rightarrow>
                 (case two of
                    TwoScanOvershoot i j excess \<Rightarrow> Inr (TwoOvershoot i j excess)
                  | _ \<Rightarrow>
                      (case one of
                         OneScanOvershoot i excess \<Rightarrow> Inr (OneOvershoot i excess)
                       | _ \<Rightarrow>
                           andThen (k_scan sorted_vals goal) (\<lambda>k.
                           case k of
                             KScanExact is \<Rightarrow> Inr (ExactK is)
                           | KScanOvershoot is excess \<Rightarrow> Inr (Overshoot is excess)
                           | KScanMiss \<Rightarrow> Inr Impossible))))))"

section \<open>Amounts of lists of notes\<close>

definition weight :: "valued list \<Rightarrow> nat" where
  "weight ps = sum_list (map (amt \<circ> snd) ps)"

lemma weight_simps [simp]:
  "weight [] = 0" "weight (p # ps) = amt (snd p) + weight ps"
  "weight (ps @ qs) = weight ps + weight qs" "weight (rev ps) = weight ps"
  by (simp_all add: weight_def flip: rev_map)

definition partial_path :: "valued list \<Rightarrow> nat \<Rightarrow> note_amount \<Rightarrow> nat list \<Rightarrow> bool" where
  "partial_path cs index acc p \<longleftrightarrow>
     (\<exists>ps. subseq ps (take index cs) \<and> p = map fst ps \<and> weight ps = amt acc)"

definition path_sum :: "valued list \<Rightarrow> nat \<Rightarrow> nat \<Rightarrow> nat list \<Rightarrow> bool" where
  "path_sum cs k s p \<longleftrightarrow> (\<exists>ps. subseq ps cs \<and> p = map fst ps \<and> length ps = k \<and> weight ps = s)"

definition best_ok :: "valued list \<Rightarrow> note_amount \<Rightarrow> nat \<Rightarrow> dfs_context \<Rightarrow> bool" where
  "best_ok cs goal k ctx \<longleftrightarrow>
     (\<forall>e p. best_overshoot ctx = Some (e, p) \<longrightarrow> 0 < amt e \<and> path_sum cs k (amt goal + amt e) p)"

lemma best_ok_update [simp]:
  "best_ok cs goal k (ctx\<lparr>path := p\<rparr>) = best_ok cs goal k ctx"
  "best_ok cs goal k (ctx\<lparr>iteration_limit := n\<rparr>) = best_ok cs goal k ctx"
  by (simp_all add: best_ok_def)

lemma partial_path_skip: "partial_path cs i acc p \<Longrightarrow> partial_path cs (Suc i) acc p"
  unfolding partial_path_def using take_add [of i 1 cs] list_emb_prefix [where ?ys = "take i cs"] by fastforce

lemma partial_path_take:
  assumes "partial_path cs i acc p" "i < length cs" "na_checked_add acc (snd (cs ! i)) = Some acc'"
  shows "partial_path cs (Suc i) acc' (p @ [fst (cs ! i)])"
proof -
  from assms(1) obtain ps where ps: "subseq ps (take i cs)" "p = map fst ps" "weight ps = amt acc"
    by (auto simp: partial_path_def)
  have "subseq (ps @ [cs ! i]) (take i cs @ [cs ! i])"
    using ps(1) by simp
  then show ?thesis using ps assms(2,3)
    unfolding partial_path_def
    by (intro exI [of _ "ps @ [cs ! i]"]) (auto simp: take_Suc_conv_app_nth res_simps)
qed

lemma partial_path_full: "partial_path cs i acc p \<Longrightarrow> path_sum cs (length p) (amt acc) p"
  unfolding partial_path_def path_sum_def
  using append_take_drop_id [of i cs] list_emb_prefix [where ?ys = "take i cs" and ?zs = "drop i cs"] by fastforce

text \<open>The runs of the search, as a relation between a call and what it returns.\<close>

inductive dfs_run ::
  "valued list \<Rightarrow> note_amount \<Rightarrow> nat \<Rightarrow> note_amount \<Rightarrow> nat \<Rightarrow> dfs_context \<Rightarrow> bool \<Rightarrow> dfs_context \<Rightarrow> bool"
  for cs goal k where
  exact: "length (path ctx) = k \<Longrightarrow> amt acc = amt goal \<Longrightarrow> dfs_run cs goal k acc index ctx True ctx"
| better: "length (path ctx) = k \<Longrightarrow> amt acc = amt goal + amt diff \<Longrightarrow> 0 < amt diff \<Longrightarrow>
    (\<And>e p. best_overshoot ctx = Some (e, p) \<Longrightarrow> amt diff < amt e) \<Longrightarrow>
    dfs_run cs goal k acc index ctx False (ctx\<lparr>best_overshoot := Some (diff, path ctx)\<rparr>)"
| worse: "length (path ctx) = k \<Longrightarrow> amt goal < amt acc \<Longrightarrow> best_overshoot ctx = Some (e, p) \<Longrightarrow>
    amt goal + amt e \<le> amt acc \<Longrightarrow> dfs_run cs goal k acc index ctx False ctx"
| below: "length (path ctx) = k \<Longrightarrow> amt acc < amt goal \<Longrightarrow> dfs_run cs goal k acc index ctx False ctx"
| stop: "length (path ctx) \<noteq> k \<Longrightarrow>
    amt goal \<le> amt acc \<or> length cs \<le> index \<or> iteration_limit ctx \<le> 0 \<Longrightarrow>
    dfs_run cs goal k acc index ctx False ctx"
| found: "length (path ctx) \<noteq> k \<Longrightarrow> amt acc < amt goal \<Longrightarrow> index < length cs \<Longrightarrow> 0 < iteration_limit ctx \<Longrightarrow>
    na_checked_add acc (snd (cs ! index)) = Some acc' \<Longrightarrow>
    dfs_run cs goal k acc' (Suc index)
      (ctx\<lparr>iteration_limit := iteration_limit ctx - 1, path := path ctx @ [fst (cs ! index)]\<rparr>) True ctx' \<Longrightarrow>
    dfs_run cs goal k acc index ctx True ctx'"
| skipped: "length (path ctx) \<noteq> k \<Longrightarrow> amt acc < amt goal \<Longrightarrow> index < length cs \<Longrightarrow> 0 < iteration_limit ctx \<Longrightarrow>
    na_checked_add acc (snd (cs ! index)) = Some acc' \<Longrightarrow>
    dfs_run cs goal k acc' (Suc index)
      (ctx\<lparr>iteration_limit := iteration_limit ctx - 1, path := path ctx @ [fst (cs ! index)]\<rparr>) False ctx1 \<Longrightarrow>
    dfs_run cs goal k acc (Suc index) (ctx1\<lparr>path := butlast (path ctx1)\<rparr>) f ctx' \<Longrightarrow>
    dfs_run cs goal k acc index ctx f ctx'"

lemma i32_checked_sub_Some [res_simps]:
  "i32_checked_sub a b = Some c \<longleftrightarrow> - (2 ^ 31) \<le> a - b \<and> a - b < 2 ^ 31 \<and> c = a - b"
  by (auto simp: i32_checked_sub_def)

lemma dfs_leaf:
  assumes "dfs cs goal k acc index ctx = Inr (f, ctx')" "length (path ctx) = k"
  shows "dfs_run cs goal k acc index ctx f ctx'"
proof (cases "na_checked_sub acc goal")
  case None
  then have "amt acc < amt goal" by (simp add: na_checked_sub_None)
  then show ?thesis using assms None
    by (subst (asm) dfs.simps) (auto intro: dfs_run.below)
next
  case (Some diff)
  then have d: "amt acc = amt goal + amt diff" by (simp add: res_simps)
  show ?thesis
  proof (cases "amt diff = 0")
    case True
    then show ?thesis using assms Some d
      by (subst (asm) dfs.simps) (auto simp: na_is_zero_amt intro: dfs_run.exact)
  next
    case False
    then show ?thesis using assms Some d
      by (subst (asm) dfs.simps)
        (auto simp: na_is_zero_amt na_less_amt split: option.splits if_splits
          intro: dfs_run.better dfs_run.worse)
  qed
qed

lemma dfs_dfs_run: "dfs cs goal k acc index ctx = Inr (f, ctx') \<Longrightarrow> dfs_run cs goal k acc index ctx f ctx'"
proof (induction "length cs - index" arbitrary: acc index ctx f ctx' rule: less_induct)
  case less
  show ?case
  proof (cases "length (path ctx) = k")
    case True
    then show ?thesis using dfs_leaf less.prems by simp
  next
    case False
    show ?thesis
    proof (cases "goal \<le> acc \<or> length cs \<le> index \<or> iteration_limit ctx \<le> 0")
      case True
      with False less.prems show ?thesis
        by (subst (asm) dfs.simps) (auto simp: na_le_amt intro: dfs_run.stop)
    next
      case running: False
      then have idx: "index < length cs" "0 < iteration_limit ctx" "amt acc < amt goal"
        by (auto simp: na_le_amt)
      from less.prems False running obtain with_note res where
        sum: "na_checked_add acc (snd (cs ! index)) = Some with_note"
        and rec: "dfs cs goal k with_note (Suc index)
            (ctx\<lparr>iteration_limit := iteration_limit ctx - 1, path := path ctx @ [fst (cs ! index)]\<rparr>) = Inr res"
        and rest: "(if fst res then Inr (True, snd res)
          else dfs cs goal k acc (Suc index) ((snd res)\<lparr>path := butlast (path (snd res))\<rparr>)) = Inr (f, ctx')"
        by (subst (asm) dfs.simps)
          (auto simp: andThen_Inr ok_or_Inr usize_checked_add_Some i32_checked_sub_Some vec_index_Inr split del: if_split)
      have first: "dfs_run cs goal k with_note (Suc index)
          (ctx\<lparr>iteration_limit := iteration_limit ctx - 1, path := path ctx @ [fst (cs ! index)]\<rparr>) (fst res) (snd res)"
        using idx rec by (intro less.hyps) (simp_all only: prod.collapse diff_less_mono2 lessI)
      show ?thesis
      proof (cases "fst res")
        case True
        with first rest show ?thesis
          using dfs_run.found [OF False idx(3) idx(1) idx(2) sum] by simp
      next
        case notfound: False
        then have "dfs_run cs goal k acc (Suc index) ((snd res)\<lparr>path := butlast (path (snd res))\<rparr>) f ctx'"
          using idx rest by (intro less.hyps) simp_all
        with first notfound show ?thesis
          using dfs_run.skipped [OF False idx(3) idx(1) idx(2) sum] by simp
      qed
    qed
  qed
qed

lemma dfs_run_sound:
  assumes "dfs_run cs goal k acc index ctx found ctx'"
    and "partial_path cs index acc (path ctx)" and "best_ok cs goal k ctx"
  shows "best_ok cs goal k ctx' \<and>
    (if found then path_sum cs k (amt goal) (path ctx') else path ctx' = path ctx)"
  using assms
proof induction
  case (found ctx acc index acc' ctx')
  have pp: "partial_path cs (Suc index) acc' (path ctx @ [fst (cs ! index)])"
    by (rule partial_path_take [OF found.prems(1) found.hyps(3,5)])
  show ?case using found.IH pp found.prems(2) by simp
next
  case (skipped ctx acc index acc' ctx1 f ctx')
  have pp: "partial_path cs (Suc index) acc' (path ctx @ [fst (cs ! index)])"
    by (rule partial_path_take [OF skipped.prems(1) skipped.hyps(3,5)])
  have "best_ok cs goal k ctx1 \<and> path ctx1 = path ctx @ [fst (cs ! index)]"
    using skipped.IH(1) pp skipped.prems(2) by simp
  then show ?case
    using skipped.IH(2) partial_path_skip [OF skipped.prems(1)] by simp
qed (auto simp: best_ok_def dest: partial_path_full)

lemma dfs_run_keeps_best:
  "dfs_run cs goal k acc index ctx f ctx' \<Longrightarrow> best_overshoot ctx \<noteq> None \<Longrightarrow> best_overshoot ctx' \<noteq> None"
  by (induction rule: dfs_run.induct) auto

lemma dfs_run_limit: "dfs_run cs goal k acc index ctx f ctx' \<Longrightarrow> iteration_limit ctx' \<le> iteration_limit ctx"
  by (induction rule: dfs_run.induct) auto

text \<open>The first path of the search takes the largest \<open>k\<close> notes; a result at \<open>k\<close> follows.\<close>

lemma dfs_run_dive:
  assumes "dfs_run cs goal k acc index ctx f ctx'"
    and "length (path ctx) = index" "index \<le> k" "k \<le> length cs" "amt acc = weight (take index cs)"
    and "\<forall>i<k. weight (take i cs) < amt goal" "amt goal \<le> weight (take k cs)"
    and "int (k - index) \<le> iteration_limit ctx"
  shows "f \<or> best_overshoot ctx' \<noteq> None"
  using assms
proof induction
  case (stop ctx acc index)
  then have "index < k" by simp
  then have "weight (take index cs) < amt goal" using stop.prems by blast
  then have False using stop.hyps(2) stop.prems(3,4,7) \<open>index < k\<close> by auto
  then show ?case ..
next
  case (found ctx acc index acc' ctx')
  then show ?case by simp
next
  case (skipped ctx acc index acc' ctx1 f ctx')
  have "weight (take (Suc index) cs) = amt acc'"
    using skipped.hyps(3,5) skipped.prems by (simp add: take_Suc_conv_app_nth na_checked_add_Some)
  then have "best_overshoot ctx1 \<noteq> None"
    using skipped.IH(1) skipped.hyps skipped.prems by simp
  then show ?case using dfs_run_keeps_best [OF skipped.hyps(7)] by simp
qed auto

lemma dfs_total:
  assumes "amt acc + weight (drop index cs) < 2 ^ 128" "length cs < 2 ^ 64" "iteration_limit ctx < 2 ^ 31"
  shows "\<exists>res. dfs cs goal k acc index ctx = Inr res"
  using assms
proof (induction "length cs - index" arbitrary: acc index ctx rule: less_induct)
  case less
  show ?case
  proof (cases "length (path ctx) = k \<or> goal \<le> acc \<or> length cs \<le> index \<or> iteration_limit ctx \<le> 0")
    case True
    then show ?thesis by (subst dfs.simps) (auto split: option.splits)
  next
    case False
    then have idx: "index < length cs" "0 < iteration_limit ctx" by auto
    then have drop: "drop index cs = cs ! index # drop (Suc index) cs" by (rule_tac Cons_nth_drop_Suc [symmetric])
    obtain acc' where acc': "na_checked_add acc (snd (cs ! index)) = Some acc'"
      using less.prems(1) drop by (cases "na_checked_add acc (snd (cs ! index))") (auto simp: na_checked_add_None)
    let ?ctx = "ctx\<lparr>iteration_limit := iteration_limit ctx - 1, path := path ctx @ [fst (cs ! index)]\<rparr>"
    have "amt acc' + weight (drop (Suc index) cs) < 2 ^ 128"
      using acc' less.prems(1) drop by (simp add: na_checked_add_Some)
    then obtain f ctx1 where first: "dfs cs goal k acc' (Suc index) ?ctx = Inr (f, ctx1)"
      using less.hyps [of "Suc index" acc' ?ctx] less.prems idx by (auto intro!: diff_less_mono2)
    have "iteration_limit ctx1 < 2 ^ 31"
      using dfs_run_limit [OF dfs_dfs_run [OF first]] less.prems by simp
    then obtain res where rest: "dfs cs goal k acc (Suc index) (ctx1\<lparr>path := butlast (path ctx1)\<rparr>) = Inr res"
      using less.hyps [of "Suc index" acc "ctx1\<lparr>path := butlast (path ctx1)\<rparr>"] less.prems idx drop by (auto intro!: diff_less_mono2)
    have "i32_checked_sub (iteration_limit ctx) 1 = Some (iteration_limit ctx - 1)"
      using idx less.prems by (simp add: i32_checked_sub_Some)
    moreover have "usize_checked_add index 1 = Some (Suc index)"
      using idx less.prems by (simp add: usize_checked_add_Some)
    ultimately show ?thesis
      using False first rest acc' idx by (cases res, subst dfs.simps) auto
  qed
qed

section \<open>Pairs\<close>

definition pair_sum :: "valued list \<Rightarrow> nat \<Rightarrow> nat \<Rightarrow> nat" where
  "pair_sum xs a b = amt (snd (xs ! a)) + amt (snd (xs ! b))"

definition pair_at :: "valued list \<Rightarrow> nat \<Rightarrow> nat \<Rightarrow> nat \<Rightarrow> bool" where
  "pair_at xs i j s \<longleftrightarrow> (\<exists>a b. a < b \<and> b < length xs \<and> fst (xs ! a) = i \<and> fst (xs ! b) = j \<and> pair_sum xs a b = s)"

fun no_better :: "note_amount \<Rightarrow> (nat \<times> nat \<times> note_amount) option \<Rightarrow> nat \<Rightarrow> bool" where
  "no_better goal None s = (s < amt goal)"
| "no_better goal (Some (i, j, e)) s = (s < amt goal \<or> amt goal + amt e \<le> s)"

definition two_inv :: "valued list \<Rightarrow> note_amount \<Rightarrow> nat \<Rightarrow> nat \<Rightarrow> (nat \<times> nat \<times> note_amount) option \<Rightarrow> bool" where
  "two_inv xs goal left right best \<longleftrightarrow>
     (\<forall>a b. a < b \<longrightarrow> b < length xs \<longrightarrow> a < left \<or> right < b \<longrightarrow> no_better goal best (pair_sum xs a b)) \<and>
     (case best of None \<Rightarrow> True | Some (i, j, e) \<Rightarrow> 0 < amt e \<and> pair_at xs i j (amt goal + amt e))"

definition improve :: "(nat \<times> nat \<times> note_amount) option \<Rightarrow> nat \<Rightarrow> nat \<Rightarrow> note_amount \<Rightarrow> (nat \<times> nat \<times> note_amount) option" where
  "improve best i j e = (if (case best of None \<Rightarrow> True | Some (_, _, e') \<Rightarrow> e < e') then Some (i, j, e) else best)"

lemma no_better_below: "s < amt goal \<Longrightarrow> no_better goal best s"
  by (cases "(goal, best, s)" rule: no_better.cases) simp_all

lemma no_better_improve:
  "no_better goal best s \<or> amt goal + amt e \<le> s \<Longrightarrow> no_better goal (improve best i j e) s"
  by (cases "(goal, best, s)" rule: no_better.cases) (auto simp: improve_def na_less_amt)

fun two_ok :: "valued list \<Rightarrow> note_amount \<Rightarrow> TwoScan \<Rightarrow> bool" where
  "two_ok xs goal (TwoScanExact i j) = pair_at xs i j (amt goal)"
| "two_ok xs goal (TwoScanOvershoot i j e) = (0 < amt e \<and> pair_at xs i j (amt goal + amt e) \<and>
     (\<forall>a b. a < b \<longrightarrow> b < length xs \<longrightarrow> pair_sum xs a b < amt goal \<or> amt goal + amt e \<le> pair_sum xs a b))"
| "two_ok xs goal TwoScanMiss = (\<forall>a b. a < b \<longrightarrow> b < length xs \<longrightarrow> pair_sum xs a b < amt goal)"

lemma pair_sum_mono:
  assumes "sorted (map snd xs)" "a \<le> a'" "b \<le> b'" "a' < length xs" "b' < length xs"
  shows "pair_sum xs a b \<le> pair_sum xs a' b'"
  using sorted_nth_mono [OF assms(1), of a a'] sorted_nth_mono [OF assms(1), of b b'] assms
  by (simp add: pair_sum_def na_le_amt)

lemma two_inv_left:
  assumes "two_inv xs goal left right best" "sorted (map snd xs)" "left < right" "right < length xs"
    and "pair_sum xs left right < amt goal"
  shows "two_inv xs goal (Suc left) right best"
proof -
  have "pair_sum xs left b < amt goal" if "b \<le> right" for b
    using pair_sum_mono [OF assms(2), of left left b right] that assms by simp
  then show ?thesis
    using assms(1) no_better_below unfolding two_inv_def by (metis less_Suc_eq not_less)
qed

lemma two_inv_right:
  assumes "two_inv xs goal left right best" "sorted (map snd xs)" "left < right" "right < length xs"
    and "pair_sum xs left right = amt goal + amt e" "0 < amt e"
  shows "two_inv xs goal left (right - 1) (improve best (fst (xs ! left)) (fst (xs ! right)) e)"
proof -
  have ge: "amt goal + amt e \<le> pair_sum xs a right" if "left \<le> a" "a < right" for a
    using pair_sum_mono [OF assms(2), of left a right right] that assms by simp
  have "no_better goal best (pair_sum xs a b) \<or> amt goal + amt e \<le> pair_sum xs a b"
    if "a < b" "b < length xs" "a < left \<or> right - 1 < b" for a b
  proof (cases "a < left \<or> right < b")
    case True
    then show ?thesis using assms(1) that unfolding two_inv_def by blast
  next
    case False
    then have "b = right" using that by auto
    then show ?thesis using ge [of a] that False by simp
  qed
  moreover have "pair_at xs (fst (xs ! left)) (fst (xs ! right)) (amt goal + amt e)"
    using assms by (auto simp: pair_at_def)
  ultimately show ?thesis
    using assms(1,6) unfolding two_inv_def
    by (intro conjI allI impI no_better_improve) (auto simp: improve_def split: option.splits)
qed

lemma two_loop_ok:
  assumes "two_loop xs goal left right best = Inr res" "sorted (map snd xs)" "right < length xs"
    and "two_inv xs goal left right best"
  shows "two_ok xs goal res"
  using assms
proof (induction "right - left" arbitrary: left right best rule: less_induct)
  case less
  show ?case
  proof (cases "left < right")
    case False
    have "a < left \<or> right < b" if "a < b" for a b using that False by auto
    then show ?thesis using less.prems(1,4) False
      by (subst (asm) two_loop.simps) (auto simp: two_inv_def split: option.splits)
  next
    case True
    have bounds: "left < length xs" "right < length xs" using True less.prems by auto
    with less.prems(1) True obtain s where s: "na_checked_add (snd (xs ! left)) (snd (xs ! right)) = Some s"
      by (subst (asm) two_loop.simps) (auto simp: andThen_Inr ok_or_Inr)
    then have s_sum: "amt s = pair_sum xs left right" by (simp add: na_checked_add_Some pair_sum_def)
    show ?thesis
    proof (cases "na_checked_sub s goal")
      case None
      then have "pair_sum xs left right < amt goal" using s_sum by (simp add: na_checked_sub_None)
      then have inv: "two_inv xs goal (Suc left) right best"
        using two_inv_left less.prems True by simp
      have "two_loop xs goal (Suc left) right best = Inr res"
        using less.prems(1) True s None bounds
        by (subst (asm) two_loop.simps) (auto simp: andThen_Inr ok_or_Inr usize_checked_add_Some)
      then show ?thesis using less.hyps [OF _ _ less.prems(2,3) inv] True by simp
    next
      case (Some diff)
      then have d: "pair_sum xs left right = amt goal + amt diff" using s_sum by (simp add: na_checked_sub_Some)
      show ?thesis
      proof (cases "amt diff = 0")
        case exact: True
        then have "pair_at xs (fst (xs ! left)) (fst (xs ! right)) (amt goal)"
          using d bounds True by (auto simp: pair_at_def)
        then show ?thesis using less.prems(1) True s Some exact bounds
          by (subst (asm) two_loop.simps) (auto simp: na_is_zero_amt)
      next
        case False
        let ?best = "improve best (fst (xs ! left)) (fst (xs ! right)) diff"
        have inv: "two_inv xs goal left (right - 1) ?best"
          using two_inv_right [OF less.prems(4,2) True bounds(2) d] False by simp
        have "two_loop xs goal left (right - 1) ?best = Inr res"
          using less.prems(1) True s Some False bounds
          by (subst (asm) two_loop.simps)
            (auto simp: andThen_Inr ok_or_Inr usize_checked_sub_Some na_is_zero_amt na_less_amt improve_def Let_def)
        then show ?thesis using less.hyps [OF _ _ less.prems(2) _ inv] True bounds by simp
      qed
    qed
  qed
qed

lemma two_inv_start: "two_inv xs goal 0 (length xs - 1) None"
  unfolding two_inv_def by (auto dest!: Suc_lessD intro: FalseE)

lemma two_scan_ok: "two_scan xs goal = Inr res \<Longrightarrow> sorted (map snd xs) \<Longrightarrow> two_ok xs goal res"
  using two_loop_ok [of xs goal 0 "length xs - 1" None res] two_inv_start [of xs goal]
  by (auto simp: two_scan_def andThen_Inr ok_or_Inr usize_checked_sub_Some split: if_splits)

lemma two_loop_total:
  assumes "\<forall>a b. a < b \<longrightarrow> b < length xs \<longrightarrow> pair_sum xs a b < 2 ^ 128" "right < length xs" "length xs < 2 ^ 64"
  shows "\<exists>res. two_loop xs goal left right best = Inr res"
  using assms
proof (induction "right - left" arbitrary: left right best rule: less_induct)
  case less
  show ?case
  proof (cases "left < right")
    case True
    then have bounds: "left < length xs" "right < length xs" using less.prems by auto
    then obtain s where "na_checked_add (snd (xs ! left)) (snd (xs ! right)) = Some s"
      using less.prems(1) [rule_format, OF True bounds(2)]
      by (cases "na_checked_add (snd (xs ! left)) (snd (xs ! right))") (auto simp: na_checked_add_None pair_sum_def)
    moreover have "usize_checked_add left 1 = Some (Suc left)" "usize_checked_sub right 1 = Some (right - 1)"
      using less.prems True by (auto simp: usize_checked_add_Some usize_checked_sub_Some)
    moreover have "\<exists>res. two_loop xs goal (Suc left) right best' = Inr res" for best'
      using less.hyps [of right "Suc left" best'] less.prems True by simp
    moreover have "\<exists>res. two_loop xs goal left (right - 1) best' = Inr res" for best'
      using less.hyps [of "right - 1" left best'] less.prems True by simp
    ultimately show ?thesis using True bounds
      by (subst two_loop.simps)
        (simp add: na_is_zero_amt na_less_amt Let_def split: option.split)
  qed (subst two_loop.simps, simp)
qed


lemma two_scan_total:
  assumes "\<forall>a b. a < b \<longrightarrow> b < length xs \<longrightarrow> pair_sum xs a b < 2 ^ 128" "length xs < 2 ^ 64"
  shows "\<exists>res. two_scan xs goal = Inr res"
  using two_loop_total [OF assms(1) _ assms(2), of "length xs - 1" goal 0 None] assms
  by (auto simp: two_scan_def usize_checked_sub_def)

section \<open>Singles\<close>

fun one_ok :: "valued list \<Rightarrow> note_amount \<Rightarrow> OneScan \<Rightarrow> bool" where
  "one_ok xs goal (OneScanExact i) = (\<exists>x. (i, x) \<in> set xs \<and> amt x = amt goal)"
| "one_ok xs goal (OneScanOvershoot i e) = (0 < amt e \<and> (\<exists>x. (i, x) \<in> set xs \<and> amt x = amt goal + amt e) \<and>
     (\<forall>(j, y) \<in> set xs. amt y < amt goal \<or> amt goal + amt e \<le> amt y))"
| "one_ok xs goal OneScanMiss = (\<forall>(j, y) \<in> set xs. amt y < amt goal)"

lemma one_ok_Cons: "one_ok xs goal r \<Longrightarrow> amt x < amt goal \<Longrightarrow> one_ok ((i, x) # xs) goal r"
  by (cases r) auto

lemma one_scan_ok: "sorted (map snd xs) \<Longrightarrow> one_ok xs goal (one_scan xs goal)"
proof (induction xs goal rule: one_scan.induct)
  case (2 i x xs goal)
  show ?case
  proof (cases "na_checked_sub x goal")
    case None
    then have "amt x < amt goal" by (simp add: na_checked_sub_None)
    then show ?thesis using 2 None by (simp add: one_ok_Cons)
  next
    case (Some diff)
    then have "amt x = amt goal + amt diff" by (simp add: na_checked_sub_Some)
    then show ?thesis using 2 Some by (force simp: na_is_zero_amt na_less_amt na_le_amt)
  qed
qed simp

section \<open>Greedy fallback\<close>

lemma greedy_loop_ok:
  assumes "greedy_loop xs goal acc picks = Inr res" "amt acc < amt goal"
    and "picks = map fst taken" "weight taken = amt acc"
  shows "case res of KScanMiss \<Rightarrow> amt acc + weight xs < amt goal
    | KScanOvershoot is e \<Rightarrow> (\<exists>n < length xs. is = map fst (taken @ take (Suc n) xs) \<and>
        weight (taken @ take (Suc n) xs) = amt goal + amt e \<and> weight (taken @ take n xs) < amt goal)
    | KScanExact _ \<Rightarrow> False"
  using assms
proof (induction xs goal acc picks arbitrary: taken rule: greedy_loop.induct)
  case (1 goal acc picks)
  then show ?case by auto
next
  case (2 i x xs goal acc picks)
  from "2.prems"(1) obtain acc' where acc': "na_checked_add acc x = Some acc'"
    and rest: "(if goal \<le> acc' then
       andThen (ok_or (InternalError ''greedy: excess invariant'') (na_checked_sub acc' goal))
         (\<lambda>excess. Inr (KScanOvershoot (picks @ [i]) excess))
     else greedy_loop xs goal acc' (picks @ [i])) = Inr res"
    by (auto simp: andThen_Inr ok_or_Inr)
  have sum: "amt acc' = amt acc + amt x" using acc' by (simp add: na_checked_add_Some)
  show ?case
  proof (cases "goal \<le> acc'")
    case True
    with rest obtain e where "res = KScanOvershoot (picks @ [i]) e" "amt acc' = amt goal + amt e"
      by (auto simp: andThen_Inr ok_or_Inr na_checked_sub_Some)
    then show ?thesis using "2.prems" sum by (auto intro!: exI [of _ 0])
  next
    case False
    then have "case res of KScanMiss \<Rightarrow> amt acc' + weight xs < amt goal
      | KScanOvershoot is e \<Rightarrow> (\<exists>n < length xs. is = map fst ((taken @ [(i, x)]) @ take (Suc n) xs) \<and>
          weight ((taken @ [(i, x)]) @ take (Suc n) xs) = amt goal + amt e \<and>
          weight ((taken @ [(i, x)]) @ take n xs) < amt goal)
      | KScanExact _ \<Rightarrow> False"
      using rest "2.prems" sum acc' by (intro "2.IH") (auto simp: na_le_amt)
    then show ?thesis using sum by (fastforce split: KScan.splits)
  qed
qed

lemma greedy_loop_total:
  "amt acc + weight xs < 2 ^ 128 \<Longrightarrow> \<exists>res. greedy_loop xs goal acc picks = Inr res"
proof (induction xs goal acc picks rule: greedy_loop.induct)
  case (2 i x xs goal acc picks)
  obtain acc' where acc': "na_checked_add acc x = Some acc'" "amt acc' = amt acc + amt x"
    using "2.prems" by (cases "na_checked_add acc x") (auto simp: na_checked_add_None na_checked_add_Some)
  show ?case
  proof (cases "goal \<le> acc'")
    case True
    then obtain e where "na_checked_sub acc' goal = Some e"
      by (cases "na_checked_sub acc' goal") (auto simp: na_checked_sub_None na_le_amt)
    then show ?thesis using acc' True by simp
  next
    case False
    then show ?thesis using acc' "2.IH" [of acc'] "2.prems" by simp
  qed
qed simp


section \<open>Three notes and more\<close>

text \<open>
  What the search for three notes or more promises on notes \<open>desc\<close> that are all below
  the goal: the picks are a subsequence of the notes with the stated sum, and one note
  fewer cannot reach the goal.
\<close>

definition k_ok :: "valued list \<Rightarrow> note_amount \<Rightarrow> KScan \<Rightarrow> bool" where
  "k_ok desc goal res = (case res of
     KScanExact is \<Rightarrow> path_sum desc (length is) (amt goal) is \<and> weight (take (length is - 1) desc) < amt goal
   | KScanOvershoot is e \<Rightarrow> path_sum desc (length is) (amt goal + amt e) is \<and>
       weight (take (length is - 1) desc) < amt goal
   | KScanMiss \<Rightarrow> weight desc < amt goal)"

lemma greedy_loop_k_ok:
  assumes "greedy_loop desc goal NA_ZERO [] = Inr res" "0 < amt goal"
  shows "k_ok desc goal res"
proof -
  have g: "case res of KScanMiss \<Rightarrow> amt NA_ZERO + weight desc < amt goal
    | KScanOvershoot is e \<Rightarrow> (\<exists>n < length desc. is = map fst ([] @ take (Suc n) desc) \<and>
        weight ([] @ take (Suc n) desc) = amt goal + amt e \<and> weight ([] @ take n desc) < amt goal)
    | KScanExact _ \<Rightarrow> False"
    using assms by (intro greedy_loop_ok) (auto simp: amt_NA_ZERO)
  show ?thesis
  proof (cases res)
    case (KScanOvershoot "is" e)
    then obtain n where n: "n < length desc" "is = map fst (take (Suc n) desc)"
      "weight (take (Suc n) desc) = amt goal + amt e" "weight (take n desc) < amt goal"
      using g by auto
    then have "path_sum desc (Suc n) (amt goal + amt e) is"
      unfolding path_sum_def by (auto simp: list_emb_prefix [of _ _ _ "drop (Suc n) desc", simplified] intro!: exI [of _ "take (Suc n) desc"] prefix_imp_subseq take_is_prefix)
    moreover have "length is = Suc n" using n by simp
    ultimately show ?thesis using KScanOvershoot n(4) by (simp add: k_ok_def)
  qed (use g in \<open>auto simp: k_ok_def amt_NA_ZERO\<close>)
qed

abbreviation desc_sorted :: "valued list \<Rightarrow> bool" where
  "desc_sorted ps \<equiv> sorted_wrt (\<ge>) (map (amt \<circ> snd) ps)"

lemma subseq_weight_le:
  assumes "subseq ps desc" "desc_sorted desc"
  shows "weight ps \<le> weight (take (length ps) desc)"
  using subseq_sum_le_top [OF subseq_map [OF assms(1)] assms(2)] by (simp add: weight_def take_map)

lemma weight_take_mono: "m \<le> n \<Longrightarrow> weight (take m xs) \<le> weight (take n xs)"
  using sum_take_mono [of m n "map (amt \<circ> snd) xs"] by (simp add: weight_def take_map)

lemma k_loop_ok:
  assumes "k_loop xs desc goal ks = Inr res" "ks = [k ..< n]" "0 < k" "n \<le> Suc (length desc)" "n \<le> 5000"
    and "desc_sorted desc" "rev xs = desc" "weight (take (k - 1) desc) < amt goal"
  shows "k_ok desc goal res"
  using assms
proof (induction ks arbitrary: k)
  case Nil
  have "0 < amt goal" using Nil.prems(8) by simp
  then show ?case using greedy_loop_k_ok Nil.prems by (simp add: greedy_impl_def)
next
  case (Cons k' ks)
  have k: "k' = k" "ks = [Suc k ..< n]" "k < n"
    using Cons.prems(2) upt_rec [of k n] by (auto split: if_splits)
  let ?ctx = "\<lparr>iteration_limit = 5000, path = [], best_overshoot = None\<rparr> :: dfs_context"
  from Cons.prems(1) k(1) obtain r where run: "dfs desc goal k NA_ZERO 0 ?ctx = Inr r"
    and rest: "(if fst r then Inr (KScanExact (path (snd r)))
     else case best_overshoot (snd r) of
            Some (excess, p) \<Rightarrow> Inr (KScanOvershoot p excess)
          | None \<Rightarrow> k_loop xs desc goal ks) = Inr res"
    by (simp only: k_loop.simps andThen_Inr) blast
  then obtain f ctx' where dfs: "dfs desc goal k NA_ZERO 0 ?ctx = Inr (f, ctx')" and r: "r = (f, ctx')"
    by (cases r) simp
  have sound: "best_ok desc goal k ctx' \<and>
      (if f then path_sum desc k (amt goal) (path ctx') else path ctx' = path ?ctx)"
    by (rule dfs_run_sound [OF dfs_dfs_run [OF dfs]])
      (auto simp: partial_path_def best_ok_def amt_NA_ZERO)
  have low: "\<forall>i<k. weight (take i desc) < amt goal"
  proof (intro allI impI)
    fix i assume "i < k"
    then have "weight (take i desc) \<le> weight (take (k - 1) desc)" by (intro weight_take_mono) simp
    then show "weight (take i desc) < amt goal" using Cons.prems(8) by simp
  qed
  have len: "length p = k" if "path_sum desc k s p" for s p using that by (auto simp: path_sum_def)
  show ?case
  proof (cases "f \<or> best_overshoot ctx' \<noteq> None")
    case True
    then show ?thesis using rest sound Cons.prems(8) len r
      by (auto simp: k_ok_def best_ok_def split: if_splits option.splits)
  next
    case False
    have "\<not> amt goal \<le> weight (take k desc)"
      using dfs_run_dive [OF dfs_dfs_run [OF dfs]] False low Cons.prems(4,5) k by (auto simp: amt_NA_ZERO)
    moreover have "k_loop xs desc goal ks = Inr res"
      using rest r False by (auto split: if_splits option.splits)
    ultimately show ?thesis
      using Cons.IH [of "Suc k"] Cons.prems(3-7) k by simp
  qed
qed


lemma k_loop_total:
  assumes "weight xs < 2 ^ 128" "length xs < 2 ^ 64" "rev xs = desc"
  shows "\<exists>res. k_loop xs desc goal ks = Inr res"
proof (induction ks)
  case Nil
  show ?case using greedy_loop_total [of NA_ZERO "rev xs"] assms(1,2) assms(3) [symmetric] by (simp add: greedy_impl_def)
next
  case (Cons k ks)
  obtain f ctx' where "dfs desc goal k NA_ZERO 0 \<lparr>iteration_limit = 5000, path = [], best_overshoot = None\<rparr> = Inr (f, ctx')"
    using dfs_total [of NA_ZERO 0 desc "\<lparr>iteration_limit = 5000, path = [], best_overshoot = None\<rparr>" goal k] assms(1,2) assms(3) [symmetric]
    by auto
  then show ?case using Cons by (auto split: option.splits)
qed

lemma all_below_filter:
  "\<forall>(j, y) \<in> set xs. amt y < amt goal \<Longrightarrow> filter (\<lambda>(_, x). x < goal) xs = xs"
  by (auto simp: filter_id_conv na_less_amt)

lemma k_scan_total:
  assumes "weight xs < 2 ^ 128" "length xs < 2 ^ 64" "\<forall>(j, y) \<in> set xs. amt y < amt goal"
  shows "\<exists>res. k_scan xs goal = Inr res"
  using k_loop_total [OF assms(1,2) refl] greedy_loop_total [of NA_ZERO "rev xs" goal "[]"] assms(1)
  by (simp add: k_scan_def all_below_filter [OF assms(3)] greedy_impl_def amt_NA_ZERO Let_def)

lemma desc_sorted_rev: "sorted (map snd xs) \<Longrightarrow> desc_sorted (rev xs)"
  by (simp add: sorted_wrt_rev sorted_wrt_map na_le_amt flip: rev_map)

lemma k_scan_ok:
  assumes "k_scan xs goal = Inr res" "sorted (map snd xs)" "xs \<noteq> []"
    and singles: "\<forall>(j, y) \<in> set xs. amt y < amt goal"
    and pairs: "\<forall>a b. a < b \<longrightarrow> b < length xs \<longrightarrow> pair_sum xs a b < amt goal"
  shows "k_ok (rev xs) goal res"
proof (cases "3 \<le> length xs")
  case True
  have "weight (take 2 (rev xs)) = pair_sum xs (length xs - 2) (length xs - 1)"
  proof -
    have "take 2 (rev xs) = [xs ! (length xs - 1), xs ! (length xs - 2)]"
      using True by (cases xs rule: rev_cases; cases "butlast xs" rule: rev_cases)
        (auto simp: nth_append numeral_2_eq_2)
    then show ?thesis by (simp add: pair_sum_def)
  qed
  then have "weight (take (3 - 1) (rev xs)) < amt goal" using pairs True by simp
  then show ?thesis
    using assms(1) True k_loop_ok [of xs "rev xs" goal _ res 3 "Suc (min (length xs) TRANSACTION_LIMIT)"]
      desc_sorted_rev [OF assms(2)]
    by (simp add: k_scan_def all_below_filter [OF singles] Let_def TRANSACTION_LIMIT_def)
next
  case False
  have "0 < amt goal" using singles assms(3) by (cases xs) auto
  then show ?thesis using False assms(1) greedy_loop_k_ok
    by (simp add: k_scan_def all_below_filter [OF singles] Let_def greedy_impl_def)
qed


section \<open>Selections over the wallet\<close>

text \<open>The indices a result selects, with the excess over the goal.\<close>

fun selected :: "combination_result \<Rightarrow> (nat list \<times> nat) option" where
  "selected (TwoExact i j) = Some ([i, j], 0)"
| "selected (OneExact i) = Some ([i], 0)"
| "selected (TwoOvershoot i j e) = Some ([i, j], amt e)"
| "selected (OneOvershoot i e) = Some ([i], amt e)"
| "selected (ExactK is) = Some (is, 0)"
| "selected (Overshoot is e) = Some (is, amt e)"
| "selected Impossible = None"

definition value_of :: "note_amount list \<Rightarrow> nat list \<Rightarrow> nat" where
  "value_of values is = sum_list (map (\<lambda>i. amt (values ! i)) is)"

lemma value_of_simps [simp]:
  "value_of values [] = 0" "value_of values (i # is) = amt (values ! i) + value_of values is"
  "value_of values (is @ js) = value_of values is + value_of values js"
  by (simp_all add: value_of_def)

definition wallet_picks :: "note_amount list \<Rightarrow> nat list \<Rightarrow> bool" where
  "wallet_picks values is \<longleftrightarrow> distinct is \<and> set is \<subseteq> {..<length values}"

definition view_of :: "note_amount list \<Rightarrow> valued list \<Rightarrow> bool" where
  "view_of values xs \<longleftrightarrow> mset xs = mset (enumerate 0 values) \<and> sorted (map snd xs)"

lemma view_of_srt: "sorts_by_key srt \<Longrightarrow> view_of values (srt (enumerate 0 values))"
  by (simp add: sorts_by_key_def view_of_def)

lemma view_length: "view_of values xs \<Longrightarrow> length xs = length values"
  unfolding view_of_def by (metis length_enumerate size_mset)

lemma view_distinct: "view_of values xs \<Longrightarrow> distinct (map fst xs)"
  unfolding view_of_def
  by (metis distinct_enumerate distinct_map mset_eq_imp_distinct_iff mset_map map_fst_enumerate distinct_upt)

lemma view_member: "view_of values xs \<Longrightarrow> (i, x) \<in> set xs \<longleftrightarrow> i < length values \<and> x = values ! i"
  using mset_eq_setD [of xs "enumerate 0 values"] by (auto simp: view_of_def in_set_enumerate_eq)

lemma view_weight: "view_of values xs \<Longrightarrow> weight xs = sum_list (map amt values)"
  using sum_list_mset_eq [of xs "enumerate 0 values" "amt \<circ> snd"]
  by (simp add: view_of_def weight_def flip: map_map)

lemma view_picks:
  assumes "view_of values xs" "distinct ps" "set ps \<subseteq> set xs"
  shows "wallet_picks values (map fst ps) \<and> value_of values (map fst ps) = weight ps"
proof -
  have mem: "i < length values \<and> x = values ! i" if "(i, x) \<in> set ps" for i x
    using view_member [OF assms(1)] that assms(3) by auto
  have "inj_on fst (set ps)" by (intro inj_onI) (metis mem prod.collapse)
  moreover have eq: "map (\<lambda>i. amt (values ! i)) (map fst ps) = map (amt \<circ> snd) ps"
    using mem by auto
  have "value_of values (map fst ps) = weight ps"
    unfolding value_of_def weight_def by (simp only: eq)
  ultimately show ?thesis using assms(2) mem
    by (auto simp: wallet_picks_def distinct_map)
qed

lemma view_path_sum:
  assumes "view_of values xs" "path_sum (rev xs) k s is"
  shows "wallet_picks values is \<and> length is = k \<and> value_of values is = s"
proof -
  obtain ps where ps: "subseq ps (rev xs)" "is = map fst ps" "length ps = k" "weight ps = s"
    using assms(2) by (auto simp: path_sum_def)
  have "distinct (rev xs)" using view_distinct [OF assms(1)] by (simp add: distinct_map)
  then have "distinct ps" using ps(1) subseq_distinct by blast
  moreover have "set ps \<subseteq> set xs" using subseq_set_mono [OF ps(1)] by simp
  ultimately show ?thesis using view_picks [OF assms(1)] ps by auto
qed

lemma view_pair_at:
  assumes "view_of values xs" "pair_at xs i j s"
  shows "wallet_picks values [i, j] \<and> value_of values [i, j] = s"
proof -
  obtain a b where ab: "a < b" "b < length xs" "fst (xs ! a) = i" "fst (xs ! b) = j" "pair_sum xs a b = s"
    using assms(2) by (auto simp: pair_at_def)
  have "distinct [xs ! a, xs ! b]"
    using view_distinct [OF assms(1)] ab by (auto simp: distinct_map nth_eq_iff_index_eq)
  then show ?thesis using view_picks [OF assms(1), of "[xs ! a, xs ! b]"] ab
    by (simp add: pair_sum_def)
qed

text \<open>Every selection of the wallet is a subsequence of the sorted view.\<close>

lemma view_subseq:
  assumes "view_of values xs" "wallet_picks values is"
  shows "\<exists>ps. subseq ps (rev xs) \<and> length ps = length is \<and> weight ps = value_of values is"
proof -
  let ?ps = "filter (\<lambda>p. fst p \<in> set is) (rev xs)"
  have d: "distinct (map fst ?ps)"
    using view_distinct [OF assms(1)] by (simp add: distinct_map rev_filter [symmetric] inj_on_def)
  have "set (map fst ?ps) = set is"
    using assms(2) view_member [OF assms(1)] by (force simp: wallet_picks_def)
  then have perm: "mset (map fst ?ps) = mset is"
    using d assms(2) set_eq_iff_mset_eq_distinct [of "map fst ?ps" "is"] unfolding wallet_picks_def by blast
  have "weight ?ps = value_of values (map fst ?ps)"
    using view_picks [OF assms(1), of ?ps] d by (auto simp: distinct_map)
  also have "\<dots> = value_of values is"
    unfolding value_of_def by (rule sum_list_mset_eq [OF perm])
  finally have "weight ?ps = value_of values is" .
  moreover have "length ?ps = length is" using mset_eq_length [OF perm] by simp
  ultimately show ?thesis using subseq_filter_left [of _ "rev xs"] by blast
qed

lemma view_fewer:
  assumes "view_of values xs" "wallet_picks values js" "length js \<le> m" "weight (take m (rev xs)) < g"
  shows "value_of values js < g"
proof -
  obtain ps where ps: "subseq ps (rev xs)" "length ps = length js" "weight ps = value_of values js"
    using view_subseq [OF assms(1,2)] by auto
  have "weight ps \<le> weight (take (length ps) (rev xs))"
    using subseq_weight_le [OF ps(1)] desc_sorted_rev assms(1) by (simp add: view_of_def)
  also have "\<dots> \<le> weight (take m (rev xs))" using ps assms(3) by (intro weight_take_mono) simp
  finally show ?thesis using ps assms(4) by simp
qed


section \<open>What a result promises\<close>

fun result_ok :: "valued list \<Rightarrow> note_amount \<Rightarrow> combination_result \<Rightarrow> bool" where
  "result_ok xs goal (TwoExact i j) = two_ok xs goal (TwoScanExact i j)"
| "result_ok xs goal (OneExact i) =
     (one_ok xs goal (OneScanExact i) \<and> (\<exists>two. two_ok xs goal two \<and> (\<forall>i j. two \<noteq> TwoScanExact i j)))"
| "result_ok xs goal (TwoOvershoot i j e) =
     (two_ok xs goal (TwoScanOvershoot i j e) \<and> (\<exists>one. one_ok xs goal one \<and> (\<forall>i. one \<noteq> OneScanExact i)))"
| "result_ok xs goal (OneOvershoot i e) =
     (one_ok xs goal (OneScanOvershoot i e) \<and> two_ok xs goal TwoScanMiss)"
| "result_ok xs goal (ExactK is) =
     (k_ok (rev xs) goal (KScanExact is) \<and> two_ok xs goal TwoScanMiss \<and> one_ok xs goal OneScanMiss)"
| "result_ok xs goal (Overshoot is e) =
     (k_ok (rev xs) goal (KScanOvershoot is e) \<and> two_ok xs goal TwoScanMiss \<and> one_ok xs goal OneScanMiss)"
| "result_ok xs goal Impossible = k_ok (rev xs) goal KScanMiss"

lemma find_combination_ok:
  assumes "sorts_by_key srt" "find_combination srt values goal = Inr r" "values \<noteq> []"
    and xs: "xs = srt (enumerate 0 values)"
  shows "result_ok xs goal r"
proof -
  have view: "view_of values xs" using view_of_srt assms by simp
  then have sorted: "sorted (map snd xs)" by (simp add: view_of_def)
  have ne: "xs \<noteq> []" using view_length [OF view] assms(3) by auto
  obtain two where two: "two_scan xs goal = Inr two"
    using assms(2,3) xs by (auto simp: find_combination_def andThen_Inr Let_def)
  define one where "one = one_scan xs goal"
  have ok: "two_ok xs goal two" "one_ok xs goal one"
    using two_scan_ok [OF two sorted] one_scan_ok [OF sorted] by (simp_all add: one_def)
  have rest: "k_ok (rev xs) goal k" if "k_scan xs goal = Inr k" "two = TwoScanMiss" "one = OneScanMiss" for k
    using k_scan_ok [OF that(1) sorted ne] that(2,3) ok by simp
  show ?thesis
  proof (cases "two = TwoScanMiss \<and> one = OneScanMiss")
    case True
    then obtain k where k: "k_scan xs goal = Inr k"
      and r: "Inr r = (case k of KScanExact is \<Rightarrow> Inr (ExactK is)
        | KScanOvershoot is e \<Rightarrow> Inr (Overshoot is e) | KScanMiss \<Rightarrow> (Inr Impossible :: (plan_error, _) outcome))"
      using assms(2,3) two xs [symmetric] one_def [symmetric]
      by (auto simp: find_combination_def andThen_Inr Let_def)
    show ?thesis
      using rest [OF k] True ok r by (cases k) (auto simp del: two_ok.simps one_ok.simps)
  next
    case False
    then show ?thesis
      using assms(2,3) two ok xs [symmetric] one_def [symmetric]
      by (cases two; cases one)
        (auto simp: find_combination_def andThen_Inr Let_def simp del: two_ok.simps one_ok.simps)
  qed
qed

lemma select_total:
  assumes "sorts_by_key srt" "length values < 2 ^ 64" "sum_list (map amt values) < 2 ^ 128"
  shows "\<exists>r. find_combination srt values goal = Inr r"
proof -
  define xs where "xs = srt (enumerate 0 values)"
  have view: "view_of values xs" using view_of_srt assms by (simp add: xs_def)
  then have sorted: "sorted (map snd xs)" by (simp add: view_of_def)
  have weight: "weight xs < 2 ^ 128" and len: "length xs < 2 ^ 64"
    using view_weight [OF view] view_length [OF view] assms by simp_all
  have "pair_sum xs a b < 2 ^ 128" if "a < b" "b < length xs" for a b
  proof -
    have "wallet_picks values [fst (xs ! a), fst (xs ! b)] \<and> value_of values [fst (xs ! a), fst (xs ! b)] = pair_sum xs a b"
      using that by (intro view_pair_at [OF view]) (auto simp: pair_at_def)
    then show ?thesis using view_fewer [OF view, of "[fst (xs ! a), fst (xs ! b)]" "length xs" "2 ^ 128"] weight that by simp
  qed
  then obtain two where two: "two_scan xs goal = Inr two"
    using two_scan_total [of xs goal] len by blast
  have "\<exists>res. k_scan xs goal = Inr res" if "one_scan xs goal = OneScanMiss"
    using k_scan_total [OF weight len] one_scan_ok [OF sorted, of goal] that by simp
  then show ?thesis using two
    by (auto simp: find_combination_def xs_def [symmetric] Let_def split: TwoScan.split OneScan.split KScan.split)
qed

lemma k_ok_picks:
  assumes "view_of values xs" "path_sum (rev xs) (length is) s is" "0 < s"
  shows "wallet_picks values is \<and> is \<noteq> [] \<and> value_of values is = s"
  using view_path_sum [OF assms(1,2)] assms(3) by (auto simp: value_of_def)

lemma view_single: "view_of values xs \<Longrightarrow> (i, x) \<in> set xs \<Longrightarrow> wallet_picks values [i] \<and> value_of values [i] = amt x"
  using view_member [of "values" xs i x] by (simp add: wallet_picks_def value_of_def)

lemma result_ok_sound:
  assumes "view_of values xs" "result_ok xs goal r" "selected r = Some (is, e)"
  shows "wallet_picks values is \<and> is \<noteq> [] \<and> value_of values is = amt goal + e"
proof (cases r)
  case (OneExact i)
  then show ?thesis using assms(2,3) view_single [OF assms(1)] by fastforce
next
  case (OneOvershoot i ex)
  then show ?thesis using assms(2,3) view_single [OF assms(1)] by fastforce
next
  case (ExactK js)
  then have "path_sum (rev xs) (length js) (amt goal) js" "0 < amt goal"
    using assms(2) by (auto simp: k_ok_def)
  then show ?thesis using ExactK assms(3) k_ok_picks [OF assms(1), of js "amt goal"] by simp
next
  case (Overshoot js ex)
  then have "path_sum (rev xs) (length js) (amt goal + amt ex) js" "0 < amt goal + amt ex"
    using assms(2) by (auto simp: k_ok_def)
  then show ?thesis using Overshoot assms(3) k_ok_picks [OF assms(1), of js "amt goal + amt ex"] by simp
qed (use assms(2,3) view_pair_at [OF assms(1)] in auto)

lemma select_sound:
  assumes "sorts_by_key srt" "find_combination srt values goal = Inr r" "selected r = Some (is, e)"
  shows "wallet_picks values is \<and> is \<noteq> [] \<and> value_of values is = amt goal + e"
proof -
  have "values \<noteq> []" using assms(2,3) by (auto simp: find_combination_def)
  then show ?thesis
    using result_ok_sound [OF view_of_srt [OF assms(1)] find_combination_ok [OF assms(1,2) _ refl] assms(3)] by simp
qed

lemma select_impossible:
  assumes "sorts_by_key srt" "find_combination srt values goal = Inr r"
  shows "r = Impossible \<longleftrightarrow> values = [] \<or> sum_list (map amt values) < amt goal"
proof (cases "values = []")
  case True
  then show ?thesis using assms(2) by (simp add: find_combination_def)
next
  case False
  have view: "view_of values (srt (enumerate 0 values))" using view_of_srt assms(1) .
  have ok: "result_ok (srt (enumerate 0 values)) goal r"
    using find_combination_ok [OF assms False refl] .
  show ?thesis
  proof (cases "selected r")
    case None
    then have "r = Impossible" by (cases r) auto
    then show ?thesis using ok view_weight [OF view] False by (simp add: k_ok_def)
  next
    case (Some sel)
    obtain "is" e where sel: "sel = (is, e)" by fastforce
    then have sound: "wallet_picks values is" "value_of values is = amt goal + e"
      using result_ok_sound [OF view ok] Some by auto
    obtain ps where ps: "subseq ps (rev (srt (enumerate 0 values)))" "length ps = length is" "weight ps = value_of values is"
      using view_subseq [OF view sound(1)] by auto
    have "value_of values is \<le> sum_list (map amt values)"
      using view_fewer [OF view sound(1), of "length is + length values" "Suc (sum_list (map amt values))"]
        view_weight [OF view] view_length [OF view] by simp
    moreover have "r \<noteq> Impossible" using Some by auto
    ultimately show ?thesis using sound False by simp
  qed
qed

lemma select_fewest:
  assumes "sorts_by_key srt" "find_combination srt values goal = Inr r" "selected r = Some (is, e)"
    and "3 \<le> length is" "wallet_picks values js" "length js < length is"
  shows "value_of values js < amt goal"
proof -
  have "values \<noteq> []" using assms(2,3) by (auto simp: find_combination_def)
  then have "result_ok (srt (enumerate 0 values)) goal r"
    using find_combination_ok [OF assms(1,2) _ refl] by simp
  then have "weight (take (length is - 1) (rev (srt (enumerate 0 values)))) < amt goal"
    using assms(3,4) by (cases r) (auto simp: k_ok_def)
  then show ?thesis
    using view_fewer [OF view_of_srt [OF assms(1)] assms(5), of "length is - 1"] assms(6) by simp
qed

lemma view_pair_positions:
  assumes "view_of values xs" "wallet_picks values [i, j]"
  shows "\<exists>a b. a < b \<and> b < length xs \<and> pair_sum xs a b = value_of values [i, j]"
proof -
  have "(i, values ! i) \<in> set xs" "(j, values ! j) \<in> set xs" "i \<noteq> j"
    using view_member [OF assms(1)] assms(2) by (auto simp: wallet_picks_def)
  then obtain a b where ab: "a < length xs" "xs ! a = (i, values ! i)" "b < length xs" "xs ! b = (j, values ! j)"
    by (metis in_set_conv_nth)
  then have "a \<noteq> b" using \<open>i \<noteq> j\<close> by auto
  then show ?thesis
  proof (cases "a < b")
    case True
    then show ?thesis using ab
      by (intro exI [of _ a] exI [of _ b]) (auto simp: pair_sum_def value_of_def)
  next
    case False
    then show ?thesis using ab \<open>a \<noteq> b\<close>
      by (intro exI [of _ b] exI [of _ a]) (auto simp: pair_sum_def value_of_def)
  qed
qed

lemma result_ok_pair:
  assumes "result_ok xs goal r" "selected r = Some (is, e)" "a < b" "b < length xs"
    and "amt goal \<le> pair_sum xs a b"
  shows "length is \<le> 2 \<and> amt goal + e \<le> pair_sum xs a b"
proof -
  have miss: "\<not> two_ok xs goal TwoScanMiss" using assms(3-5) by (auto simp: not_less)
  show ?thesis
  proof (cases r)
    case (TwoOvershoot i j ex)
    then have "amt goal + amt ex \<le> pair_sum xs a b"
      using assms(1,3-5) not_less [of "pair_sum xs a b"] by fastforce
    then show ?thesis using TwoOvershoot assms(2) by auto
  qed (use assms(1,2,5) miss in \<open>simp_all del: two_ok.simps one_ok.simps, auto?\<close>)
qed

lemma result_ok_single:
  assumes "result_ok xs goal r" "selected r = Some (is, e)" "(i, x) \<in> set xs" "amt goal \<le> amt x"
  shows "length is \<le> 2 \<and> (amt x = amt goal \<longrightarrow> e = 0)"
proof -
  have miss: "\<not> one_ok xs goal OneScanMiss" using assms(3,4) by (force simp: not_less)
  show ?thesis
  proof (cases r)
    case (TwoOvershoot j k ex)
    then obtain one where "one_ok xs goal one" "\<forall>i. one \<noteq> OneScanExact i" using assms(1) by auto
    then have "amt x \<noteq> amt goal" using assms(3) by (cases one) auto
    then show ?thesis using TwoOvershoot assms(2) by auto
  next
    case (OneOvershoot j ex)
    then have "amt x \<noteq> amt goal" using assms(1,3) by auto
    then show ?thesis using OneOvershoot assms(2) by auto
  qed (use assms(1,2) miss in \<open>simp_all del: two_ok.simps one_ok.simps, auto?\<close>)
qed

lemma select_pairs:
  assumes "sorts_by_key srt" "find_combination srt values goal = Inr r" "selected r = Some (is, e)"
  shows "(wallet_picks values [i, j] \<longrightarrow> amt goal \<le> value_of values [i, j] \<longrightarrow>
      length is \<le> 2 \<and> amt goal + e \<le> value_of values [i, j]) \<and>
    (i < length values \<longrightarrow> amt goal \<le> amt (values ! i) \<longrightarrow>
      length is \<le> 2 \<and> (amt (values ! i) = amt goal \<longrightarrow> e = 0))"
proof -
  define xs where "xs = srt (enumerate 0 values)"
  have "values \<noteq> []" using assms(2,3) by (auto simp: find_combination_def)
  then have ok: "result_ok xs goal r" using find_combination_ok assms by (simp add: xs_def)
  have view: "view_of values xs" using view_of_srt assms by (simp add: xs_def)
  have "(i, values ! i) \<in> set xs" if "i < length values" using view_member [OF view] that by simp
  then show ?thesis
    using view_pair_positions [OF view, of i j] result_ok_pair [OF ok assms(3)] result_ok_single [OF ok assms(3)]
    by metis
qed

lemma path_sum_descending:
  assumes "view_of values xs" "path_sum (rev xs) k s is"
  shows "sorted_wrt (\<ge>) (map (\<lambda>i. amt (values ! i)) is)"
proof -
  obtain ps where ps: "subseq ps (rev xs)" "is = map fst ps"
    using assms(2) by (auto simp: path_sum_def)
  have "set ps \<subseteq> set xs" using subseq_set_mono [OF ps(1)] by simp
  then have "map (\<lambda>i. amt (values ! i)) is = map (amt \<circ> snd) ps"
    using view_member [OF assms(1)] ps(2) by auto
  moreover have "subseq (map (amt \<circ> snd) ps) (map (amt \<circ> snd) (rev xs))"
    using subseq_map [OF ps(1)] .
  moreover have "desc_sorted (rev xs)" using desc_sorted_rev assms(1) by (simp add: view_of_def)
  ultimately show ?thesis using sorted_wrt_subseq by fastforce
qed

lemma select_descending:
  assumes "sorts_by_key srt" "find_combination srt values goal = Inr r" "selected r = Some (is, e)"
    and "3 \<le> length is"
  shows "sorted_wrt (\<ge>) (map (\<lambda>i. amt (values ! i)) is)"
proof -
  have "values \<noteq> []" using assms(2,3) by (auto simp: find_combination_def)
  then have "result_ok (srt (enumerate 0 values)) goal r"
    using find_combination_ok [OF assms(1,2) _ refl] by simp
  then have "\<exists>s. path_sum (rev (srt (enumerate 0 values))) (length is) s is"
    using assms(3,4) by (cases r) (auto simp: k_ok_def)
  then show ?thesis using path_sum_descending [OF view_of_srt [OF assms(1)]] by blast
qed

section \<open>The contract of a coin selector\<close>

text \<open>
  What the planner relies on: a selector indexed by the part of the environment it depends
  on (\<open>srt\<close>, the sorting routine), and the laws it keeps where \<open>valid\<close> holds.
\<close>

locale coin_selector =
  fixes valid :: "'env \<Rightarrow> bool"
    and select :: "'env \<Rightarrow> note_amount list \<Rightarrow> note_amount \<Rightarrow> (plan_error, combination_result) outcome"
  assumes total: "valid env \<Longrightarrow> length values < 2 ^ 64 \<Longrightarrow> sum_list (map amt values) < 2 ^ 128 \<Longrightarrow>
      \<exists>r. select env values goal = Inr r"
    and sound: "valid env \<Longrightarrow> select env values goal = Inr r \<Longrightarrow> selected r = Some (is, e) \<Longrightarrow>
      wallet_picks values is \<and> is \<noteq> [] \<and> value_of values is = amt goal + e"
    and impossible: "valid env \<Longrightarrow> select env values goal = Inr r \<Longrightarrow>
      r = Impossible \<longleftrightarrow> values = [] \<or> sum_list (map amt values) < amt goal"
    and fewest: "valid env \<Longrightarrow> select env values goal = Inr r \<Longrightarrow> selected r = Some (is, e) \<Longrightarrow>
      3 \<le> length is \<Longrightarrow> wallet_picks values js \<Longrightarrow> length js < length is \<Longrightarrow> value_of values js < amt goal"
    and descending: "valid env \<Longrightarrow> select env values goal = Inr r \<Longrightarrow> selected r = Some (is, e) \<Longrightarrow>
      3 \<le> length is \<Longrightarrow> sorted_wrt (\<ge>) (map (\<lambda>i. amt (values ! i)) is)"
begin

text \<open>No pick is worthless, and no partial sum of the picks is the amount of another note.\<close>

lemma picks_positive:
  assumes "valid env" "select env values goal = Inr r" "selected r = Some (is, e)" "3 \<le> length is"
    and "m < length is"
  shows "0 < amt (values ! (is ! m))"
proof (rule ccontr)
  assume "\<not> ?thesis"
  then have zero: "amt (values ! (is ! m)) = 0" by simp
  let ?js = "take m is @ drop (Suc m) is"
  have split: "is = take m is @ is ! m # drop (Suc m) is"
    using assms(5) by (rule id_take_nth_drop)
  have ok: "wallet_picks values is" "value_of values is = amt goal + e"
    using sound [OF assms(1-3)] by auto
  then have "wallet_picks values (take m is @ is ! m # drop (Suc m) is)" by (simp flip: split)
  then have picks: "wallet_picks values ?js" by (auto simp: wallet_picks_def)
  have len: "length ?js < length is" using assms(5) by simp
  have "value_of values is = value_of values ?js + amt (values ! (is ! m))"
    using arg_cong [OF split, of "value_of values"] by simp
  then show False using fewest [OF assms(1-4) picks len] ok zero by simp
qed

lemma no_collision:
  assumes "valid env" "select env values goal = Inr r" "selected r = Some (is, e)" "3 \<le> length is"
    and j: "2 \<le> j" "j < length is" and i: "i < length values" "i \<notin> set (take j is)"
  shows "amt (values ! i) \<noteq> value_of values (take j is)"
proof
  assume same: "amt (values ! i) = value_of values (take j is)"
  have ok: "wallet_picks values is" "value_of values is = amt goal + e"
    using sound [OF assms(1-3)] by auto
  have parts: "value_of values is = value_of values (take j is) + value_of values (drop j is)"
    using value_of_simps(3) [of "values" "take j is" "drop j is"] by simp
  show False
  proof (cases "i \<in> set (drop j is)")
    case False
    have "distinct (i # drop j is)" using ok(1) False by (simp add: wallet_picks_def)
    moreover have "set (i # drop j is) \<subseteq> {..<length values}"
      using ok(1) i(1) set_drop_subset [of j "is"] by (auto simp: wallet_picks_def)
    ultimately have "value_of values (i # drop j is) < amt goal"
      using fewest [OF assms(1-4), of "i # drop j is"] j by (simp add: wallet_picks_def)
    then show False using parts ok(2) same by (simp add: value_of_def)
  next
    case True
    then obtain d where d: "d < length (drop j is)" "drop j is ! d = i" by (metis in_set_conv_nth)
    then have m: "j + d < length is" "is ! (j + d) = i" using j(2) by simp_all
    have "amt (values ! i) \<le> amt (values ! (is ! 0))"
      using descending [OF assms(1-4)] m j
        sorted_wrt_nth_less [of "(\<ge>)" "map (\<lambda>i. amt (values ! i)) is" 0 "j + d"]
        nth_map [of 0 "is"] by (cases "is") simp_all
    moreover have "take j is = is ! 0 # is ! 1 # take (j - 2) (drop 2 is)"
      using assms(4) j(1) by (cases "is"; cases "tl is") (auto simp: take_Cons' numeral_2_eq_2)
    then have "amt (values ! (is ! 0)) + amt (values ! (is ! 1)) \<le> value_of values (take j is)"
      by (simp add: value_of_def)
    moreover have "0 < amt (values ! (is ! 1))" using picks_positive [OF assms(1-4)] j by simp
    ultimately show False using same by simp
  qed
qed

end

interpretation find: coin_selector sorts_by_key find_combination
  by unfold_locales
    (fact select_total select_sound select_impossible select_fewest select_descending)+

section \<open>Properties\<close>

text \<open>
  Property C23: coin selection neither fails nor panics on a wallet of fewer than \<open>2 ^ 64\<close> notes whose total
  fits the note amount type: the checked sums, the index arithmetic, the indexed reads and the
  iteration counter never leave their range.
\<close>

theorem find_combination_total:
  assumes "sorts_by_key srt" "length values < 2 ^ 64" "sum_list (map amt values) < 2 ^ 128"
  shows "\<exists>r. find_combination srt values goal = Inr r"
  using assms by (rule select_total)

text \<open>
  Property C21: what coin selection returns are distinct notes of the wallet that pay exactly the goal plus
  the excess it reports (no excess for the exact results).
\<close>

theorem find_combination_sound:
  assumes "sorts_by_key srt" "find_combination srt values goal = Inr r" "selected r = Some (is, e)"
  shows "wallet_picks values is \<and> is \<noteq> [] \<and> value_of values is = amt goal + e"
  using assms by (rule select_sound)

text \<open>
  Coin selection gives up exactly when the wallet is empty or its total is below the goal; a
  goal the wallet can pay is never refused.
\<close>

theorem find_combination_impossible:
  assumes "sorts_by_key srt" "find_combination srt values goal = Inr r"
  shows "r = Impossible \<longleftrightarrow> values = [] \<or> sum_list (map amt values) < amt goal"
  using assms by (rule select_impossible)

text \<open>
  Property C22: when coin selection spends three notes or more, no choice of fewer notes reaches the goal. This
  holds in spite of the bound of 5000 search steps and of the greedy fallback.
\<close>

theorem find_combination_fewest:
  assumes "sorts_by_key srt" "find_combination srt values goal = Inr r" "selected r = Some (is, e)"
    and "3 \<le> length is" "wallet_picks values js" "length js < length is"
  shows "value_of values js < amt goal"
  using assms by (rule select_fewest)

text \<open>
  If two notes of the wallet reach the goal, at most two notes are returned and no pair has a
  smaller excess; if a single note reaches it, at most two notes are returned, and without
  excess when the note is exactly the goal.
\<close>

theorem find_combination_pairs:
  assumes "sorts_by_key srt" "find_combination srt values goal = Inr r" "selected r = Some (is, e)"
  shows "(wallet_picks values [i, j] \<longrightarrow> amt goal \<le> value_of values [i, j] \<longrightarrow>
      length is \<le> 2 \<and> amt goal + e \<le> value_of values [i, j]) \<and>
    (i < length values \<longrightarrow> amt goal \<le> amt (values ! i) \<longrightarrow>
      length is \<le> 2 \<and> (amt (values ! i) = amt goal \<longrightarrow> e = 0))"
  using assms by (rule select_pairs)

section \<open>Runs\<close>

lemma sort_key_sorts: "sorts_by_key (sort_key snd)"
  by (simp add: sorts_by_key_def)

definition doc_wallet :: "note_amount list" where
  "doc_wallet = map NoteAmount [4, 4, 3, 1, 1]"

lemma doc_wallet_run:
  "find_combination (sort_key snd) doc_wallet (NoteAmount 10) = Inr (Overshoot [1, 0, 2] (NoteAmount 1))"
  by code_simp

lemma doc_wallet_run_pair:
  "find_combination (sort_key snd) doc_wallet (NoteAmount 7) = Inr (TwoExact 2 1)"
  by code_simp

lemma doc_wallet_total: "sum_list (map amt doc_wallet) = 13"
  by code_simp

theorem find_combination_total_witness:
  "\<exists>r. find_combination (sort_key snd) doc_wallet (NoteAmount 10) = Inr r"
  using find_combination_total [OF sort_key_sorts, of doc_wallet "NoteAmount 10"] doc_wallet_total
  by (simp add: doc_wallet_def)

theorem find_combination_sound_witness:
  "wallet_picks doc_wallet [1, 0, 2] \<and> [1, 0, 2] \<noteq> ([] :: nat list) \<and>
   value_of doc_wallet [1, 0, 2] = amt (NoteAmount 10) + amt (NoteAmount 1)"
  using find_combination_sound [OF sort_key_sorts doc_wallet_run, of "[1, 0, 2]" "amt (NoteAmount 1)"] by simp

theorem find_combination_impossible_witness:
  "Overshoot [1, 0, 2] (NoteAmount 1) = Impossible \<longleftrightarrow>
     doc_wallet = [] \<or> sum_list (map amt doc_wallet) < amt (NoteAmount 10)"
  by (rule find_combination_impossible [OF sort_key_sorts doc_wallet_run])

theorem find_combination_fewest_witness: "value_of doc_wallet [0, 1] < amt (NoteAmount 10)"
  using find_combination_fewest [OF sort_key_sorts doc_wallet_run, of "[1, 0, 2]" "amt (NoteAmount 1)" "[0, 1]"]
  by (simp add: wallet_picks_def doc_wallet_def)

theorem find_combination_pairs_witness:
  "length [2, 1 :: nat] \<le> 2 \<and> amt (NoteAmount 7) + 0 \<le> value_of doc_wallet [0, 1]"
proof -
  have "wallet_picks doc_wallet [0, 1]" "amt (NoteAmount 7) \<le> value_of doc_wallet [0, 1]"
    by (simp_all add: wallet_picks_def doc_wallet_def value_of_def)
  then show ?thesis
    using find_combination_pairs [OF sort_key_sorts doc_wallet_run_pair, of "[2, 1]" 0 0 1] by simp
qed

text \<open>
  The README of the planner and the comment on \<open>Overshoot\<close> present the overshoot as
  the fallback when no exact subset of three to ten notes exists. The search returns the best
  overshoot of the first size that reaches the goal, so an exact choice of one note more is not
  found: here four notes pay ten exactly and the result is an overshoot of one with three.
\<close>

theorem find_combination_misses_exact:
  "find_combination (sort_key snd) doc_wallet (NoteAmount 10) = Inr (Overshoot [1, 0, 2] (NoteAmount 1)) \<and>
   wallet_picks doc_wallet [0, 1, 3, 4] \<and> value_of doc_wallet [0, 1, 3, 4] = amt (NoteAmount 10)"
  by code_simp

end
