(* ===== verification/Plan.thy ===== *)
theory Plan imports Combination begin

text \<open>
  Transaction plans, from \<^verbatim>\<open>app/crates/core/tx-planner/src/plan/mod.rs\<close>: the steps a
  spend is cut into (two inputs and two outputs each), \<open>plan\<close> itself, and the
  resolution of a step's inputs against the notes the wallet holds when the step runs.
  A plan is the list of its steps.
\<close>

section \<open>Data\<close>

record spendable_note =
  sn_commitment :: field
  sn_amount :: note_amount

record step_note =
  st_commitment :: "field option"
  st_amount :: note_amount

datatype step_action =
    Consolidate note_amount
  | Final "note_amount \<times> note_amount option"

record planned_step =
  ps_inputs :: "step_note \<times> step_note option"
  ps_action :: step_action

type_synonym transaction_plan = "planned_step list"

definition from_spendable :: "spendable_note \<Rightarrow> step_note" where
  "from_spendable n = \<lparr>st_commitment = Some (sn_commitment n), st_amount = sn_amount n\<rparr>"

definition from_amount :: "note_amount \<Rightarrow> step_note" where
  "from_amount a = \<lparr>st_commitment = None, st_amount = a\<rparr>"

section \<open>Planning\<close>

definition assemble :: "planned_step list \<Rightarrow> transaction_plan option" where
  "assemble steps =
     (if steps = [] then None
      else case ps_action (last steps) of Final _ \<Rightarrow> Some steps | Consolidate _ \<Rightarrow> None)"

text \<open>The loop over the selected indices after the first one.\<close>

fun merge_loop ::
  "spendable_note list \<Rightarrow> nat list \<Rightarrow> note_amount \<Rightarrow> step_note \<Rightarrow> planned_step list \<Rightarrow>
    (plan_error, planned_step list) outcome" where
  "merge_loop notes [] acc prev_note steps = Inr steps"
| "merge_loop notes (index # indices) acc prev_note steps =
     andThen (vec_index notes index) (\<lambda>n.
     let current_note = from_spendable n in
     andThen (ok_or InputAmountOverflow (na_checked_add acc (st_amount current_note))) (\<lambda>next.
     merge_loop notes indices next (from_amount next)
       (steps @ [\<lparr>ps_inputs = (prev_note, Some current_note), ps_action = Consolidate next\<rparr>])))"

text \<open>\<open>steps.last_mut()\<close>, which does nothing on an empty vector.\<close>

definition set_last_action :: "step_action \<Rightarrow> planned_step list \<Rightarrow> planned_step list" where
  "set_last_action act steps =
     (if steps = [] then [] else butlast steps @ [(last steps)\<lparr>ps_action := act\<rparr>])"

definition plan_steps ::
  "note_amount \<Rightarrow> spendable_note list \<Rightarrow> nat list \<Rightarrow> note_amount option \<Rightarrow> (plan_error, transaction_plan) outcome" where
  "plan_steps amount notes indices change =
     andThen (guard (length indices \<le> TRANSACTION_LIMIT) (TooManyNotes (length indices) TRANSACTION_LIMIT)) (\<lambda>_.
     andThen (case find (\<lambda>index. length notes \<le> index) indices of
                Some index \<Rightarrow> Inl (Fail (NoteIndexOutOfRange index)) | None \<Rightarrow> Inr ()) (\<lambda>_.
     andThen (vec_index indices 0) (\<lambda>first.
     andThen (vec_index notes first) (\<lambda>n.
     let note0 = from_spendable n in
     andThen (if length indices = 1
              then Inr [\<lparr>ps_inputs = (note0, None), ps_action = Final (amount, change)\<rparr>]
              else andThen (merge_loop notes (drop 1 indices) (st_amount note0) note0 [])
                     (\<lambda>steps. Inr (set_last_action (Final (amount, change)) steps))) (\<lambda>steps.
     ok_or InvalidPlan (assemble steps))))))"

definition plan ::
  "(valued list \<Rightarrow> valued list) \<Rightarrow> note_amount \<Rightarrow> spendable_note list \<Rightarrow> (plan_error, transaction_plan) outcome" where
  "plan srt amount notes =
     (if notes = [] then Inl (Fail NoSpendableNotes)
      else
        andThen (find_combination srt (map sn_amount notes) amount) (\<lambda>combo.
        case combo of
          Impossible \<Rightarrow> Inl (Fail NoCombination)
        | OneExact i \<Rightarrow> plan_steps amount notes [i] None
        | TwoExact i j \<Rightarrow> plan_steps amount notes [i, j] None
        | OneOvershoot i excess \<Rightarrow> plan_steps amount notes [i] (Some excess)
        | TwoOvershoot i j excess \<Rightarrow> plan_steps amount notes [i, j] (Some excess)
        | ExactK indices \<Rightarrow> plan_steps amount notes indices None
        | Overshoot indices excess \<Rightarrow> plan_steps amount notes indices (Some excess)))"

section \<open>Resolving a step\<close>

definition resolve_input_note ::
  "step_note \<Rightarrow> spendable_note list \<Rightarrow> step_note option \<Rightarrow> (plan_error, spendable_note) outcome" where
  "resolve_input_note input notes sibling =
     (case st_commitment input of
        Some c \<Rightarrow>
          andThen (ok_or (CommitmentNotFound c) (find (\<lambda>n. sn_commitment n = c) notes)) (\<lambda>n.
          if sn_amount n \<noteq> st_amount input
          then Inl (Fail (NoteAmountMismatch c (sn_amount n) (st_amount input)))
          else Inr n)
      | None \<Rightarrow>
          (let excluded = (case sibling of None \<Rightarrow> None | Some n \<Rightarrow> st_commitment n);
               matches = filter (\<lambda>n. excluded \<noteq> Some (sn_commitment n))
                           (filter (\<lambda>n. sn_amount n = st_amount input) notes) in
           if length matches = 0 then Inl (Fail (NoNoteForAmount (st_amount input)))
           else if length matches = 1 then vec_index matches 0
           else Inl (Fail (AmbiguousNoteForAmount (st_amount input)))))"

definition resolve :: "planned_step \<Rightarrow> spendable_note list \<Rightarrow> (plan_error, spendable_note list) outcome" where
  "resolve step notes =
     andThen (resolve_input_note (fst (ps_inputs step)) notes (snd (ps_inputs step))) (\<lambda>n1.
     case snd (ps_inputs step) of
       None \<Rightarrow> Inr [n1]
     | Some second \<Rightarrow>
         andThen (resolve_input_note second notes (Some (fst (ps_inputs step)))) (\<lambda>n2. Inr [n1, n2]))"

section \<open>Shape of a plan\<close>

text \<open>
  The steps a list of picks \<open>ns\<close> gives: each step merges the sum so far with the next
  pick, and the last step pays the amount and the change.
\<close>

definition prefix_sum :: "spendable_note list \<Rightarrow> nat \<Rightarrow> nat" where
  "prefix_sum ns j = sum_list (map (amt \<circ> sn_amount) (take j ns))"

definition plan_for :: "note_amount \<Rightarrow> note_amount option \<Rightarrow> spendable_note list \<Rightarrow> transaction_plan \<Rightarrow> bool" where
  "plan_for amount change ns steps \<longleftrightarrow>
     ns \<noteq> [] \<and> length steps = max 1 (length ns - 1) \<and>
     (\<forall>i < length steps.
        amt (st_amount (fst (ps_inputs (steps ! i)))) = prefix_sum ns (Suc i) \<and>
        st_commitment (fst (ps_inputs (steps ! i))) = (if i = 0 then Some (sn_commitment (ns ! 0)) else None) \<and>
        snd (ps_inputs (steps ! i)) = (if length ns = 1 then None else Some (from_spendable (ns ! Suc i))) \<and>
        (if Suc i = length steps then ps_action (steps ! i) = Final (amount, change)
         else \<exists>out. ps_action (steps ! i) = Consolidate out \<and> amt out = prefix_sum ns (Suc (Suc i))))"

lemma prefix_sum_simps [simp]:
  "prefix_sum ns 0 = 0" "prefix_sum (n # ns) (Suc j) = amt (sn_amount n) + prefix_sum ns j"
  by (simp_all add: prefix_sum_def)

lemma prefix_sum_all: "prefix_sum ns (length ns) = sum_list (map (amt \<circ> sn_amount) ns)"
  by (simp add: prefix_sum_def)

lemma step_note_simps [simp]:
  "st_commitment (from_spendable n) = Some (sn_commitment n)" "st_amount (from_spendable n) = sn_amount n"
  "st_commitment (from_amount a) = None" "st_amount (from_amount a) = a"
  by (simp_all add: from_spendable_def from_amount_def)

text \<open>The merge steps for the picks \<open>ns\<close>, from the sum \<open>acc\<close> held by \<open>prev\<close>.\<close>

definition merge_steps ::
  "note_amount \<Rightarrow> step_note \<Rightarrow> spendable_note list \<Rightarrow> planned_step list \<Rightarrow> bool" where
  "merge_steps acc prev ns steps \<longleftrightarrow> length steps = length ns \<and>
     (\<forall>i < length steps. \<exists>s t. amt s = amt acc + prefix_sum ns i \<and> amt t = amt acc + prefix_sum ns (Suc i) \<and>
        steps ! i = \<lparr>ps_inputs = (if i = 0 then prev else from_amount s, Some (from_spendable (ns ! i))),
                     ps_action = Consolidate t\<rparr>)"

lemma merge_steps_Cons:
  assumes "amt acc' = amt acc + amt (sn_amount n)" "merge_steps acc' (from_amount acc') ns steps"
  shows "merge_steps acc prev (n # ns)
    (\<lparr>ps_inputs = (prev, Some (from_spendable n)), ps_action = Consolidate acc'\<rparr> # steps)"
  unfolding merge_steps_def
proof (intro conjI allI impI)
  show "length (\<lparr>ps_inputs = (prev, Some (from_spendable n)), ps_action = Consolidate acc'\<rparr> # steps) = length (n # ns)"
    using assms(2) by (simp add: merge_steps_def)
  fix i assume i: "i < length (\<lparr>ps_inputs = (prev, Some (from_spendable n)), ps_action = Consolidate acc'\<rparr> # steps)"
  show "\<exists>s t. amt s = amt acc + prefix_sum (n # ns) i \<and> amt t = amt acc + prefix_sum (n # ns) (Suc i) \<and>
      (\<lparr>ps_inputs = (prev, Some (from_spendable n)), ps_action = Consolidate acc'\<rparr> # steps) ! i =
      \<lparr>ps_inputs = (if i = 0 then prev else from_amount s, Some (from_spendable ((n # ns) ! i))), ps_action = Consolidate t\<rparr>"
  proof (cases i)
    case 0
    then show ?thesis using assms(1) by (intro exI [of _ acc] exI [of _ acc']) simp
  next
    case (Suc j)
    then obtain s t where "amt s = amt acc' + prefix_sum ns j" "amt t = amt acc' + prefix_sum ns (Suc j)"
      "steps ! j = \<lparr>ps_inputs = (if j = 0 then from_amount acc' else from_amount s, Some (from_spendable (ns ! j))),
         ps_action = Consolidate t\<rparr>"
      using assms(2) i by (auto simp: merge_steps_def)
    moreover from this(1) have "j = 0 \<Longrightarrow> s = acc'" by (simp add: amt_inject)
    ultimately show ?thesis using Suc assms(1) by (intro exI [of _ s] exI [of _ t]) auto
  qed
qed

lemma merge_loop_ok:
  assumes "merge_loop wallet indices acc prev done' = Inr steps"
  shows "\<exists>new. steps = done' @ new \<and> merge_steps acc prev (map ((!) wallet) indices) new"
  using assms
proof (induction wallet indices acc prev done' rule: merge_loop.induct)
  case (1 wallet acc prev steps)
  then show ?case by (simp add: merge_steps_def)
next
  case (2 wallet index indices acc prev steps0)
  then obtain next' where nxt: "na_checked_add acc (sn_amount (wallet ! index)) = Some next'" "index < length wallet"
    and rest: "merge_loop wallet indices next' (from_amount next')
       (steps0 @ [\<lparr>ps_inputs = (prev, Some (from_spendable (wallet ! index))), ps_action = Consolidate next'\<rparr>]) = Inr steps"
    by (auto simp: andThen_Inr ok_or_Inr vec_index_Inr Let_def)
  have "vec_index wallet index = (Inr (wallet ! index) :: (plan_error, _) outcome)" using nxt by simp
  from "2.IH" [OF this refl _ rest] nxt obtain new where
    "steps = (steps0 @ [\<lparr>ps_inputs = (prev, Some (from_spendable (wallet ! index))), ps_action = Consolidate next'\<rparr>]) @ new"
    "merge_steps next' (from_amount next') (map ((!) wallet) indices) new"
    by auto
  then show ?case
    using merge_steps_Cons [of next' acc "wallet ! index"] nxt by (auto simp: na_checked_add_Some)
qed

lemma merge_loop_total:
  assumes "\<forall>i \<in> set indices. i < length wallet"
    and "amt acc + sum_list (map (\<lambda>i. amt (sn_amount (wallet ! i))) indices) < 2 ^ 128"
  shows "\<exists>steps. merge_loop wallet indices acc prev done' = Inr steps"
  using assms
proof (induction indices arbitrary: acc prev done')
  case (Cons i indices)
  obtain s where s: "na_checked_add acc (sn_amount (wallet ! i)) = Some s" "amt s = amt acc + amt (sn_amount (wallet ! i))"
    using Cons.prems by (cases "na_checked_add acc (sn_amount (wallet ! i))") (auto simp: na_checked_add_None na_checked_add_Some)
  then show ?case using Cons.IH [of s] Cons.prems by (simp add: Let_def)
qed simp

lemma assemble_set_last [simp]:
  "steps \<noteq> [] \<Longrightarrow> assemble (set_last_action (Final x) steps) = Some (set_last_action (Final x) steps)"
  by (simp add: assemble_def set_last_action_def)

lemma assemble_single [simp]: "assemble [\<lparr>ps_inputs = i, ps_action = Final x\<rparr>] = Some [\<lparr>ps_inputs = i, ps_action = Final x\<rparr>]"
  by (simp add: assemble_def)

lemma nth_set_last:
  "i < length steps \<Longrightarrow> set_last_action act steps ! i =
    (if Suc i = length steps then (steps ! i)\<lparr>ps_action := act\<rparr> else steps ! i)"
  by (cases "length steps - Suc 0 = i") (auto simp: set_last_action_def nth_append nth_butlast last_conv_nth)

lemma length_set_last [simp]: "length (set_last_action act steps) = length steps"
  by (simp add: set_last_action_def)

lemma plan_for_merge:
  assumes "merge_steps (sn_amount n) (from_spendable n) ns steps" "ns \<noteq> []"
  shows "plan_for amount change (n # ns) (set_last_action (Final (amount, change)) steps)"
  unfolding plan_for_def
proof (intro conjI allI impI)
  show "length (set_last_action (Final (amount, change)) steps) = max 1 (length (n # ns) - 1)"
    using assms by (cases ns) (auto simp: merge_steps_def)
  fix i assume i: "i < length (set_last_action (Final (amount, change)) steps)"
  then obtain s t where st: "amt s = amt (sn_amount n) + prefix_sum ns i" "amt t = amt (sn_amount n) + prefix_sum ns (Suc i)"
    "steps ! i = \<lparr>ps_inputs = (if i = 0 then from_spendable n else from_amount s, Some (from_spendable (ns ! i))),
       ps_action = Consolidate t\<rparr>"
    using assms(1) by (auto simp: merge_steps_def)
  let ?step = "set_last_action (Final (amount, change)) steps ! i"
  have inp: "ps_inputs ?step = (if i = 0 then from_spendable n else from_amount s, Some (from_spendable (ns ! i)))"
  proof -
    have "ps_inputs ?step = ps_inputs (steps ! i)" using i by (simp add: nth_set_last)
    then show ?thesis by (simp only: st(3) planned_step.simps)
  qed
  show "amt (st_amount (fst (ps_inputs ?step))) = prefix_sum (n # ns) (Suc i)" using inp st(1) by simp
  show "st_commitment (fst (ps_inputs ?step)) = (if i = 0 then Some (sn_commitment ((n # ns) ! 0)) else None)"
    using inp by simp
  show "snd (ps_inputs ?step) = (if length (n # ns) = 1 then None else Some (from_spendable ((n # ns) ! Suc i)))"
    using inp assms(2) by simp
  show "if Suc i = length (set_last_action (Final (amount, change)) steps) then ps_action ?step = Final (amount, change)
    else \<exists>out. ps_action ?step = Consolidate out \<and> amt out = prefix_sum (n # ns) (Suc (Suc i))"
    using i st by (simp add: nth_set_last)
qed simp

lemma plan_steps_ok:
  assumes "plan_steps amount wallet indices change = Inr steps"
  shows "length indices \<le> TRANSACTION_LIMIT \<and> indices \<noteq> [] \<and> (\<forall>i \<in> set indices. i < length wallet) \<and>
    plan_for amount change (map ((!) wallet) indices) steps"
proof -
  have "length indices \<le> TRANSACTION_LIMIT" "indices \<noteq> []"
    using assms by (auto simp: plan_steps_def andThen_Inr guard_Inr vec_index_Inr)
  moreover have range: "\<forall>i \<in> set indices. i < length wallet"
    using assms by (auto simp: plan_steps_def andThen_Inr find_None_iff not_le split: option.splits)
  moreover obtain i "is" where ind: "indices = i # is" using calculation(2) by (cases indices) auto
  moreover have "plan_for amount change (map ((!) wallet) indices) steps"
  proof (cases "is = []")
    case True
    then have "steps = [\<lparr>ps_inputs = (from_spendable (wallet ! i), None), ps_action = Final (amount, change)\<rparr>]"
      using assms ind by (auto simp: plan_steps_def andThen_Inr ok_or_Inr vec_index_Inr Let_def)
    then show ?thesis using True ind by (simp add: plan_for_def)
  next
    case False
    then obtain new where new: "merge_loop wallet is (sn_amount (wallet ! i)) (from_spendable (wallet ! i)) [] = Inr new"
      and asm: "assemble (set_last_action (Final (amount, change)) new) = Some steps"
      using assms ind by (auto simp: plan_steps_def andThen_Inr ok_or_Inr vec_index_Inr Let_def)
    have ms: "merge_steps (sn_amount (wallet ! i)) (from_spendable (wallet ! i)) (map ((!) wallet) is) new"
      using merge_loop_ok [OF new] by simp
    then have "new \<noteq> []" using False by (auto simp: merge_steps_def)
    then show ?thesis using plan_for_merge [OF ms, of amount change] asm ind False by simp
  qed
  ultimately show ?thesis by blast
qed

lemma plan_steps_total:
  assumes "indices \<noteq> []" "\<forall>i \<in> set indices. i < length wallet"
    and "sum_list (map (\<lambda>i. amt (sn_amount (wallet ! i))) indices) < 2 ^ 128"
  shows "if length indices \<le> TRANSACTION_LIMIT then \<exists>steps. plan_steps amount wallet indices change = Inr steps
    else plan_steps amount wallet indices change = Inl (Fail (TooManyNotes (length indices) TRANSACTION_LIMIT))"
proof -
  obtain i "is" where ind: "indices = i # is" using assms(1) by (cases indices) auto
  have f: "find (\<lambda>index. length wallet \<le> index) indices = None"
    using assms(2) by (auto simp: find_None_iff)
  obtain new where new: "merge_loop wallet is (sn_amount (wallet ! i)) (from_spendable (wallet ! i)) [] = Inr new"
    using merge_loop_total [of "is" wallet "sn_amount (wallet ! i)" "from_spendable (wallet ! i)" "[]"] assms ind by auto
  have "is \<noteq> [] \<Longrightarrow> new \<noteq> []" using merge_loop_ok [OF new] by (auto simp: merge_steps_def)
  then show ?thesis
    using f new ind assms(2) by (auto simp: plan_steps_def guard_def Let_def)
qed


section \<open>Plans and selections\<close>

fun selection :: "combination_result \<Rightarrow> (nat list \<times> note_amount option) option" where
  "selection (TwoExact i j) = Some ([i, j], None)"
| "selection (OneExact i) = Some ([i], None)"
| "selection (TwoOvershoot i j e) = Some ([i, j], Some e)"
| "selection (OneOvershoot i e) = Some ([i], Some e)"
| "selection (ExactK is) = Some (is, None)"
| "selection (Overshoot is e) = Some (is, Some e)"
| "selection Impossible = None"

definition change_value :: "note_amount option \<Rightarrow> nat" where
  "change_value change = (case change of None \<Rightarrow> 0 | Some c \<Rightarrow> amt c)"

lemma selection_selected: "selection r = Some (is, change) \<Longrightarrow> selected r = Some (is, change_value change)"
  by (cases r) (auto simp: change_value_def)

lemma selection_None: "selection r = None \<longleftrightarrow> r = Impossible"
  by (cases r) auto

lemma plan_unfold:
  "plan srt amount wallet =
     (if wallet = [] then Inl (Fail NoSpendableNotes)
      else andThen (find_combination srt (map sn_amount wallet) amount) (\<lambda>r.
        case selection r of None \<Rightarrow> Inl (Fail NoCombination)
        | Some (is, change) \<Rightarrow> plan_steps amount wallet is change))"
  unfolding plan_def
  by (intro if_cong refl arg_cong [where f = "andThen _"] ext) (simp split: combination_result.split)

lemma plan_selection:
  assumes "plan srt amount wallet = Inr steps"
  obtains r "is" change where "find_combination srt (map sn_amount wallet) amount = Inr r"
    "selection r = Some (is, change)" "selected r = Some (is, change_value change)"
    "plan_steps amount wallet is change = Inr steps"
  using assms by (auto simp: plan_unfold andThen_Inr selection_selected split: if_splits option.splits)

lemma value_of_wallet:
  "\<forall>i \<in> set is. i < length wallet \<Longrightarrow>
    value_of (map sn_amount wallet) is = sum_list (map (amt \<circ> sn_amount) (map ((!) wallet) is))"
  by (induction "is") auto

lemma plan_shape_lemma:
  assumes "sorts_by_key srt" "plan srt amount wallet = Inr steps"
  shows "\<exists>is change. wallet_picks (map sn_amount wallet) is \<and> length is \<le> TRANSACTION_LIMIT \<and>
    value_of (map sn_amount wallet) is = amt amount + change_value change \<and>
    plan_for amount change (map ((!) wallet) is) steps"
proof -
  obtain r "is" change where r: "find_combination srt (map sn_amount wallet) amount = Inr r"
    "selected r = Some (is, change_value change)" "plan_steps amount wallet is change = Inr steps"
    using plan_selection [OF assms(2)] by metis
  show ?thesis
    using find.sound [OF assms(1) r(1,2)] plan_steps_ok [OF r(3)] by blast
qed

text \<open>
  Property C17: a plan spends at most ten distinct notes of the wallet whose amounts add up to the amount and
  the change. It has one step for one note and one step less than there are notes otherwise; every
  step but the last merges the sum so far with the next note, and the last one pays the amount and
  the change.
\<close>

theorem plan_shape:
  assumes "sorts_by_key srt" "plan srt amount wallet = Inr steps"
  shows "\<exists>is change. wallet_picks (map sn_amount wallet) is \<and> length is \<le> TRANSACTION_LIMIT \<and>
    value_of (map sn_amount wallet) is = amt amount + change_value change \<and>
    plan_for amount change (map ((!) wallet) is) steps"
  using assms by (rule plan_shape_lemma)

lemma wallet_picks_less: "wallet_picks (map sn_amount wallet) is \<Longrightarrow> \<forall>i \<in> set is. i < length wallet"
  by (auto simp: wallet_picks_def)

lemma picks_value_le:
  assumes "wallet_picks values is"
  shows "value_of values is \<le> sum_list (map amt values)"
proof -
  have "value_of values is = (\<Sum>i\<in>set is. amt (values ! i))"
    using assms by (simp add: value_of_def wallet_picks_def sum_list_distinct_conv_sum_set)
  also have "\<dots> \<le> (\<Sum>i\<in>{..<length values}. amt (values ! i))"
    using assms by (intro sum_mono2) (auto simp: wallet_picks_def)
  also have "\<dots> = sum_list (map amt values)"
    by (simp add: sum_list_sum_nth atLeast0LessThan)
  finally show ?thesis .
qed

text \<open>
  Property C18: \<open>plan\<close> succeeds exactly when ten notes of the wallet or fewer can reach the amount; a
  payment ten notes can cover is never refused, and none is planned with more.
\<close>

theorem plan_succeeds_iff:
  assumes "sorts_by_key srt" "length wallet < 2 ^ 64" "sum_list (map (amt \<circ> sn_amount) wallet) < 2 ^ 128"
  shows "(\<exists>steps. plan srt amount wallet = Inr steps) \<longleftrightarrow>
    (\<exists>js. wallet_picks (map sn_amount wallet) js \<and> js \<noteq> [] \<and> length js \<le> 10 \<and>
      amt amount \<le> value_of (map sn_amount wallet) js)"
proof
  assume "\<exists>steps. plan srt amount wallet = Inr steps"
  then obtain steps where "plan srt amount wallet = Inr steps" ..
  then obtain "is" change where ok: "wallet_picks (map sn_amount wallet) is" "length is \<le> TRANSACTION_LIMIT"
    "value_of (map sn_amount wallet) is = amt amount + change_value change"
    "plan_for amount change (map ((!) wallet) is) steps"
    using plan_shape_lemma [OF assms(1)] by blast
  have "is \<noteq> []" using ok(4) by (auto simp: plan_for_def)
  then show "\<exists>js. wallet_picks (map sn_amount wallet) js \<and> js \<noteq> [] \<and> length js \<le> 10 \<and>
      amt amount \<le> value_of (map sn_amount wallet) js"
    using ok(1,2,3) by (intro exI [of _ "is"]) (simp add: TRANSACTION_LIMIT_def)
next
  let ?vals = "map sn_amount wallet"
  assume "\<exists>js. wallet_picks ?vals js \<and> js \<noteq> [] \<and> length js \<le> 10 \<and> amt amount \<le> value_of ?vals js"
  then obtain js where js: "wallet_picks ?vals js" "js \<noteq> []" "length js \<le> 10" "amt amount \<le> value_of ?vals js"
    by blast
  obtain r where r: "find_combination srt ?vals amount = Inr r"
    using find.total [OF assms(1), of ?vals amount] assms(2,3) by auto
  have ne: "wallet \<noteq> []" using js(1,2) by (auto simp: wallet_picks_def)
  have "r \<noteq> Impossible"
    using find.impossible [OF assms(1) r] ne js(4) picks_value_le [OF js(1)] by simp
  then obtain "is" change where sel: "selection r = Some (is, change)"
    using selection_None by (cases "selection r") auto
  then have sel': "selected r = Some (is, change_value change)" by (rule selection_selected)
  have ok: "wallet_picks ?vals is" "is \<noteq> []" using find.sound [OF assms(1) r sel'] by auto
  have "length is \<le> length js \<or> length is < 3"
    using find.fewest [OF assms(1) r sel' _ js(1)] js(4) by (meson not_less)
  then have len: "length is \<le> TRANSACTION_LIMIT" using js(3) by (auto simp: TRANSACTION_LIMIT_def)
  have "sum_list (map (\<lambda>i. amt (sn_amount (wallet ! i))) is) = value_of ?vals is"
    using value_of_wallet [OF wallet_picks_less [OF ok(1)]] by (simp add: comp_def)
  then have "\<exists>steps. plan_steps amount wallet is change = Inr steps"
    using plan_steps_total [OF ok(2) wallet_picks_less [OF ok(1)], of amount change] len
      picks_value_le [OF ok(1)] assms(3) by simp
  then show "\<exists>steps. plan srt amount wallet = Inr steps"
    using r sel ne by (simp add: plan_unfold)
qed

section \<open>Runs\<close>

definition doc_notes :: "spendable_note list" where
  "doc_notes = map (\<lambda>(c, a). \<lparr>sn_commitment = Field c, sn_amount = NoteAmount a\<rparr>)
     [(101, 4), (102, 4), (103, 3), (104, 1), (105, 1)]"

lemma doc_notes_plan:
  "plan (sort_key snd) (NoteAmount 10) doc_notes = Inr
    [\<lparr>ps_inputs = (\<lparr>st_commitment = Some (Field 102), st_amount = NoteAmount 4\<rparr>,
        Some \<lparr>st_commitment = Some (Field 101), st_amount = NoteAmount 4\<rparr>), ps_action = Consolidate (NoteAmount 8)\<rparr>,
     \<lparr>ps_inputs = (\<lparr>st_commitment = None, st_amount = NoteAmount 8\<rparr>,
        Some \<lparr>st_commitment = Some (Field 103), st_amount = NoteAmount 3\<rparr>),
      ps_action = Final (NoteAmount 10, Some (NoteAmount 1))\<rparr>]"
  by code_simp

lemma doc_notes_total: "sum_list (map (amt \<circ> sn_amount) doc_notes) = 13"
  by (simp add: doc_notes_def)

theorem plan_shape_witness:
  "\<exists>is change. wallet_picks (map sn_amount doc_notes) is \<and> length is \<le> TRANSACTION_LIMIT \<and>
    value_of (map sn_amount doc_notes) is = amt (NoteAmount 10) + change_value change \<and>
    plan_for (NoteAmount 10) change (map ((!) doc_notes) is)
      [\<lparr>ps_inputs = (\<lparr>st_commitment = Some (Field 102), st_amount = NoteAmount 4\<rparr>,
          Some \<lparr>st_commitment = Some (Field 101), st_amount = NoteAmount 4\<rparr>), ps_action = Consolidate (NoteAmount 8)\<rparr>,
       \<lparr>ps_inputs = (\<lparr>st_commitment = None, st_amount = NoteAmount 8\<rparr>,
          Some \<lparr>st_commitment = Some (Field 103), st_amount = NoteAmount 3\<rparr>),
        ps_action = Final (NoteAmount 10, Some (NoteAmount 1))\<rparr>]"
  by (rule plan_shape [OF sort_key_sorts doc_notes_plan])

theorem plan_succeeds_iff_witness:
  "(\<exists>steps. plan (sort_key snd) (NoteAmount 10) doc_notes = Inr steps) \<longleftrightarrow>
    (\<exists>js. wallet_picks (map sn_amount doc_notes) js \<and> js \<noteq> [] \<and> length js \<le> 10 \<and>
      amt (NoteAmount 10) \<le> value_of (map sn_amount doc_notes) js)"
  by (rule plan_succeeds_iff [OF sort_key_sorts]) (simp_all add: doc_notes_total, simp add: doc_notes_def)

end
