(* ===== verification/Session.thy ===== *)
theory Session imports Plan begin

text \<open>
  The spend session, from \<^verbatim>\<open>app/crates/core/tx-planner/src/execute/mod.rs\<close> and
  \<^verbatim>\<open>execute/error.rs\<close>: a plan frozen at \<open>setup\<close> together with the wallet, the
  on-chain call each step stands for, and the wallet update after the call was submitted.
\<close>

section \<open>Data\<close>

datatype spend_session_error =
    PlanFailed plan_error
  | SessionComplete
  | ExtAmountOverflow
  | MissingWithdrawRecipient

datatype spend_target =
    Transfer note_public_key encryption_public_key
  | Withdraw string

record transact_call =
  input_commitments :: "field list"
  output_amounts :: "note_amount \<times> note_amount"
  ext_amount_of :: ext_amount
  ext_recipient :: string
  out_recipient_note_pubkeys :: "note_public_key option \<times> note_public_key option"
  out_recipient_encryption_pubkeys :: "encryption_public_key option \<times> encryption_public_key option"

record spend_session =
  ss_steps :: "planned_step list"
  ss_wallet :: "spendable_note list"
  ss_pool_address :: string
  ss_target :: spend_target
  ss_step_index :: nat

text \<open>The \<open>From<PlanError>\<close> conversion of the \<open>?\<close> operator.\<close>

definition plan_call :: "(plan_error, 'a) outcome \<Rightarrow> (spend_session_error, 'a) outcome" where
  "plan_call m = (case m of Inr a \<Rightarrow> Inr a | Inl (Fail e) \<Rightarrow> Inl (Fail (PlanFailed e))
     | Inl Panic \<Rightarrow> Inl Panic | Inl Diverge \<Rightarrow> Inl Diverge)"

section \<open>Operations\<close>

definition validate_target :: "spend_target \<Rightarrow> (spend_session_error, unit) outcome" where
  "validate_target target =
     (case target of Withdraw recipient \<Rightarrow> guard (recipient \<noteq> []) MissingWithdrawRecipient
      | Transfer _ _ \<Rightarrow> Inr ())"

definition setup_session ::
  "(valued list \<Rightarrow> valued list) \<Rightarrow> spendable_note list \<Rightarrow> note_amount \<Rightarrow> string \<Rightarrow> spend_target \<Rightarrow>
    (spend_session_error, spend_session) outcome" where
  "setup_session srt wallet amount pool_address target =
     andThen (validate_target target) (\<lambda>_.
     andThen (plan_call (plan srt amount wallet)) (\<lambda>steps.
     Inr \<lparr>ss_steps = steps, ss_wallet = wallet, ss_pool_address = pool_address,
          ss_target = target, ss_step_index = 0\<rparr>))"

definition is_done :: "spend_session \<Rightarrow> bool" where
  "is_done s = (length (ss_steps s) \<le> ss_step_index s)"

definition is_consolidate_step :: "spend_session \<Rightarrow> bool" where
  "is_consolidate_step s =
     (case vec_get (ss_steps s) (ss_step_index s) of
        None \<Rightarrow> False
      | Some step \<Rightarrow> (case ps_action step of Consolidate _ \<Rightarrow> True | Final _ \<Rightarrow> False))"

definition unwrap_or_zero :: "note_amount option \<Rightarrow> note_amount" where
  "unwrap_or_zero a = (case a of None \<Rightarrow> NA_ZERO | Some x \<Rightarrow> x)"

definition materialize_step ::
  "planned_step \<Rightarrow> string \<Rightarrow> spend_target \<Rightarrow> spendable_note list \<Rightarrow> (spend_session_error, transact_call) outcome" where
  "materialize_step step pool_address target resolved_inputs =
     (let inputs = map sn_commitment resolved_inputs in
      case ps_action step of
        Consolidate out \<Rightarrow>
          Inr \<lparr>input_commitments = inputs, output_amounts = (out, NA_ZERO), ext_amount_of = EA_ZERO,
               ext_recipient = pool_address, out_recipient_note_pubkeys = (None, None),
               out_recipient_encryption_pubkeys = (None, None)\<rparr>
      | Final outputs \<Rightarrow>
          (case target of
             Transfer recipient_note recipient_enc \<Rightarrow>
               (let out1 = unwrap_or_zero (snd outputs);
                    pks = (if snd outputs \<noteq> None
                           then ((Some recipient_note, None), (Some recipient_enc, None))
                           else ((Some recipient_note, Some recipient_note), (Some recipient_enc, Some recipient_enc))) in
                Inr \<lparr>input_commitments = inputs, output_amounts = (fst outputs, out1), ext_amount_of = EA_ZERO,
                     ext_recipient = pool_address, out_recipient_note_pubkeys = fst pks,
                     out_recipient_encryption_pubkeys = snd pks\<rparr>)
           | Withdraw recipient \<Rightarrow>
               andThen (case ea_try_from_note (fst outputs) of
                          Inr a \<Rightarrow> Inr a | Inl _ \<Rightarrow> Inl (Fail ExtAmountOverflow)) (\<lambda>a.
               andThen (ok_or ExtAmountOverflow (ea_checked_neg a)) (\<lambda>ext.
               Inr \<lparr>input_commitments = inputs, output_amounts = (unwrap_or_zero (snd outputs), NA_ZERO),
                    ext_amount_of = ext, ext_recipient = recipient, out_recipient_note_pubkeys = (None, None),
                    out_recipient_encryption_pubkeys = (None, None)\<rparr>))))"

definition session_step :: "spend_session \<Rightarrow> (spend_session_error, transact_call option) outcome" where
  "session_step s =
     (if is_done s then Inr None
      else
        andThen (vec_index (ss_steps s) (ss_step_index s)) (\<lambda>step.
        andThen (plan_call (resolve step (ss_wallet s))) (\<lambda>resolved.
        andThen (materialize_step step (ss_pool_address s) (ss_target s) resolved) (\<lambda>t. Inr (Some t)))))"

definition remove_spent :: "spendable_note list \<Rightarrow> spendable_note list \<Rightarrow> spendable_note list" where
  "remove_spent wallet spent = foldl (\<lambda>w note. filter (\<lambda>n. sn_commitment n \<noteq> sn_commitment note) w) wallet spent"

definition complete_step :: "spend_session \<Rightarrow> field \<times> field \<Rightarrow> (spend_session_error, spend_session) outcome" where
  "complete_step s output_commitments =
     (if is_done s then Inl (Fail SessionComplete)
      else
        andThen (vec_index (ss_steps s) (ss_step_index s)) (\<lambda>step.
        andThen (plan_call (resolve step (ss_wallet s))) (\<lambda>spent.
        let merge_output = (case ps_action step of
              Consolidate out \<Rightarrow> Some \<lparr>sn_commitment = fst output_commitments, sn_amount = out\<rparr>
            | Final _ \<Rightarrow> None) in
        andThen (case ps_action step of
              Consolidate _ \<Rightarrow> andThen (expect merge_output) (\<lambda>m. Inr (remove_spent (ss_wallet s) spent @ [m]))
            | Final _ \<Rightarrow> Inr (remove_spent (ss_wallet s) spent)) (\<lambda>wallet.
        andThen (expect (usize_checked_add (ss_step_index s) 1)) (\<lambda>index.
        Inr (s\<lparr>ss_wallet := wallet, ss_step_index := index\<rparr>))))))"

text \<open>
  The caller's loop: \<open>step\<close>, submit, \<open>complete_step\<close> with the commitments the submitted call
  created, until \<open>step\<close> returns nothing. \<open>outs\<close> lists those commitments; where it ends the
  loop stops with the call submitted last.
\<close>

fun run_session ::
  "spend_session \<Rightarrow> (field \<times> field) list \<Rightarrow> (spend_session_error, transact_call list \<times> spend_session) outcome" where
  "run_session s [] =
     andThen (session_step s) (\<lambda>t. case t of None \<Rightarrow> Inr ([], s) | Some c \<Rightarrow> Inr ([c], s))"
| "run_session s (out # outs) =
     andThen (session_step s) (\<lambda>t. case t of
       None \<Rightarrow> Inr ([], s)
     | Some c \<Rightarrow> andThen (complete_step s out) (\<lambda>s'.
                andThen (run_session s' outs) (\<lambda>(cs, s''). Inr (c # cs, s''))))"

section \<open>Resolution\<close>

lemma resolve_input_note_ok:
  assumes "resolve_input_note input wallet sibling = Inr n"
  shows "n \<in> set wallet \<and> sn_amount n = st_amount input"
proof (cases "st_commitment input")
  case (Some c)
  then show ?thesis using assms
    by (auto simp: resolve_input_note_def andThen_Inr ok_or_Inr find_Some_iff split: if_splits)
next
  case None
  let ?ms = "filter (\<lambda>n. (case sibling of None \<Rightarrow> None | Some n \<Rightarrow> st_commitment n) \<noteq> Some (sn_commitment n))
    (filter (\<lambda>n. sn_amount n = st_amount input) wallet)"
  have "0 < length ?ms" "n = ?ms ! 0" using assms None
    by (auto simp: resolve_input_note_def Let_def vec_index_Inr simp del: filter_filter split: if_splits)
  then have "n \<in> set ?ms" using nth_mem by blast
  then show ?thesis by auto
qed

definition step_inputs :: "planned_step \<Rightarrow> nat" where
  "step_inputs step = amt (st_amount (fst (ps_inputs step))) +
     (case snd (ps_inputs step) of None \<Rightarrow> 0 | Some n \<Rightarrow> amt (st_amount n))"

definition step_outputs :: "planned_step \<Rightarrow> nat" where
  "step_outputs step = (case ps_action step of Consolidate out \<Rightarrow> amt out
     | Final outputs \<Rightarrow> amt (fst outputs) + change_value (snd outputs))"

lemma resolve_ok:
  assumes "resolve step wallet = Inr spent"
  shows "set spent \<subseteq> set wallet \<and> sum_list (map (amt \<circ> sn_amount) spent) = step_inputs step"
  using assms resolve_input_note_ok
  by (fastforce simp: resolve_def andThen_Inr step_inputs_def split: option.splits)

lemma prefix_sum_Suc: "j < length ns \<Longrightarrow> prefix_sum ns (Suc j) = prefix_sum ns j + amt (sn_amount (ns ! j))"
  by (simp add: prefix_sum_def take_Suc_conv_app_nth)

lemma prefix_sum_1: "ns \<noteq> [] \<Longrightarrow> prefix_sum ns (Suc 0) = amt (sn_amount (ns ! 0))"
  by (cases ns) simp_all

lemma plan_for_step:
  assumes "plan_for amount change ns steps" "i < length steps"
  shows "amt (st_amount (fst (ps_inputs (steps ! i)))) = prefix_sum ns (Suc i)"
    "st_commitment (fst (ps_inputs (steps ! i))) = (if i = 0 then Some (sn_commitment (ns ! 0)) else None)"
    "snd (ps_inputs (steps ! i)) = (if length ns = 1 then None else Some (from_spendable (ns ! Suc i)))"
    "if Suc i = length steps then ps_action (steps ! i) = Final (amount, change)
     else \<exists>out. ps_action (steps ! i) = Consolidate out \<and> amt out = prefix_sum ns (Suc (Suc i))"
  using assms unfolding plan_for_def by blast+

lemma plan_for_length:
  assumes "plan_for amount change ns steps"
  shows "ns \<noteq> []" "length steps = max 1 (length ns - 1)"
  using assms unfolding plan_for_def by blast+

lemma plan_for_balanced:
  assumes "plan_for amount change ns steps" "prefix_sum ns (length ns) = amt amount + change_value change"
    and "i < length steps"
  shows "step_inputs (steps ! i) = step_outputs (steps ! i)"
proof (cases "length ns = 1")
  case True
  then have "i = 0" "Suc i = length steps" using assms(3) plan_for_length [OF assms(1)] by simp_all
  with True assms(2) plan_for_step [OF assms(1,3)] show ?thesis
    by (simp add: step_inputs_def step_outputs_def)
next
  case False
  then have len: "length steps = length ns - 1" "2 \<le> length ns"
    using plan_for_length [OF assms(1)] by (cases ns rule: remdups_adj.cases; simp)+
  have "step_inputs (steps ! i) = prefix_sum ns (Suc i) + amt (sn_amount (ns ! Suc i))"
    using plan_for_step [OF assms(1,3)] False by (simp add: step_inputs_def)
  also have "\<dots> = prefix_sum ns (Suc (Suc i))"
    using assms(3) len by (intro prefix_sum_Suc [symmetric]) simp
  also have "\<dots> = step_outputs (steps ! i)"
  proof (cases "Suc i = length steps")
    case True
    then have "Suc (Suc i) = length ns" using len by simp
    then show ?thesis using True assms(2) plan_for_step(4) [OF assms(1,3)] by (simp add: step_outputs_def)
  next
    case False
    then obtain out where "ps_action (steps ! i) = Consolidate out" "amt out = prefix_sum ns (Suc (Suc i))"
      using plan_for_step(4) [OF assms(1,3)] by auto
    then show ?thesis by (simp add: step_outputs_def)
  qed
  finally show ?thesis .
qed

definition call_outputs :: "transact_call \<Rightarrow> nat" where
  "call_outputs c = amt (fst (output_amounts c)) + amt (snd (output_amounts c))"

lemma amt_unwrap [simp]: "amt (unwrap_or_zero a) = change_value a"
  by (simp add: unwrap_or_zero_def change_value_def split: option.split)

lemma uint_unwrap [simp]: "uint (na_val (unwrap_or_zero a)) = int (change_value a)"
  by (simp add: unwrap_or_zero_def change_value_def NA_ZERO_def split: option.split)

lemma int_less_of_amt:
  assumes "amt a < 2 ^ n"
  shows "uint (na_val a) < 2 ^ n"
proof -
  have "int (amt a) < int (2 ^ n)" using assms by (simp only: of_nat_less_iff)
  then show ?thesis by simp
qed

lemma ea_neg_note:
  assumes "ea_try_from_note n = Inr a" "ea_checked_neg a = Some b"
  shows "sint (ea_val b) = - int (amt n)"
proof -
  have small: "uint (na_val n) < 2 ^ 127" and a: "a = ExtAmount (word_of_int (uint (na_val n)))"
    using assms(1) by (auto simp: ea_try_from_note_def split: if_splits)
  have "- (2 ^ 127) \<le> uint (na_val n)" by (rule order_trans [of _ 0]) simp_all
  then have sa: "sint (ea_val a) = uint (na_val n)"
    using small by (simp add: a sint_uint signed_take_bit_int_eq_self)
  have "sint (ea_val b) = - sint (ea_val a)"
    using assms(2) by (auto simp: ea_checked_neg_def in_i128_def sint_word_ariths signed_take_bit_int_eq_self split: if_splits)
  then show ?thesis using sa by simp
qed

lemma materialize_step_conserves:
  assumes "materialize_step step pool target resolved = Inr c"
  shows "input_commitments c = map sn_commitment resolved \<and>
    int (step_outputs step) + sint (ea_val (ext_amount_of c)) = int (call_outputs c)"
proof (cases "ps_action step")
  case (Consolidate out)
  then show ?thesis using assms
    by (auto simp: materialize_step_def call_outputs_def step_outputs_def EA_ZERO_def NA_ZERO_def)
next
  case (Final outputs)
  show ?thesis
  proof (cases target)
    case (Transfer a b)
    then show ?thesis using assms Final
      by (auto simp: materialize_step_def call_outputs_def step_outputs_def EA_ZERO_def NA_ZERO_def Let_def)
  next
    case (Withdraw r)
    then obtain a b where "ea_try_from_note (fst outputs) = Inr a" "ea_checked_neg a = Some b"
      and c: "ext_amount_of c = b" "output_amounts c = (unwrap_or_zero (snd outputs), NA_ZERO)"
        "input_commitments c = map sn_commitment resolved"
      using assms Final by (auto simp: materialize_step_def andThen_Inr ok_or_Inr split: sum.splits)
    then show ?thesis using ea_neg_note Final by (simp add: call_outputs_def step_outputs_def)
  qed
qed

section \<open>Reachable sessions\<close>

inductive session_reach ::
  "(valued list \<Rightarrow> valued list) \<Rightarrow> spendable_note list \<Rightarrow> note_amount \<Rightarrow> string \<Rightarrow> spend_target \<Rightarrow> spend_session \<Rightarrow> bool"
  for srt wallet amount pool target where
  start: "setup_session srt wallet amount pool target = Inr s \<Longrightarrow> session_reach srt wallet amount pool target s"
| advance: "session_reach srt wallet amount pool target s \<Longrightarrow> complete_step s outs = Inr s' \<Longrightarrow>
    session_reach srt wallet amount pool target s'"

lemma plan_call_Inr [res_simps]: "plan_call m = Inr a \<longleftrightarrow> m = Inr a"
  by (auto simp: plan_call_def split: sum.splits fault.splits)

lemma setup_session_Inr:
  "setup_session srt wallet amount pool target = Inr s \<Longrightarrow>
    plan srt amount wallet = Inr (ss_steps s) \<and> ss_wallet s = wallet \<and> ss_pool_address s = pool \<and>
    ss_target s = target \<and> ss_step_index s = 0"
  by (auto simp: setup_session_def andThen_Inr plan_call_Inr)

lemma complete_step_Inr:
  "complete_step s outs = Inr s' \<Longrightarrow>
    ss_steps s' = ss_steps s \<and> ss_step_index s' = Suc (ss_step_index s) \<and> \<not> is_done s"
  by (auto simp: complete_step_def andThen_Inr expect_Inr usize_checked_add_Some Let_def split: if_splits)

lemma session_reach_plan:
  "session_reach srt wallet amount pool target s \<Longrightarrow> plan srt amount wallet = Inr (ss_steps s)"
  by (induction rule: session_reach.induct) (auto dest: setup_session_Inr complete_step_Inr)

text \<open>
  Property C16: in every state a session reaches, the call of the current step spends notes the wallet holds,
  and what it creates is what it spends plus the external amount, which is zero but for the
  withdrawal of the last step.
\<close>

theorem session_conserves:
  assumes "sorts_by_key srt" "session_reach srt wallet amount pool target s" "session_step s = Inr (Some c)"
  shows "\<exists>spent. set spent \<subseteq> set (ss_wallet s) \<and> input_commitments c = map sn_commitment spent \<and>
    int (sum_list (map (amt \<circ> sn_amount) spent)) + sint (ea_val (ext_amount_of c)) = int (call_outputs c)"
proof -
  have plan: "plan srt amount wallet = Inr (ss_steps s)" using session_reach_plan [OF assms(2)] .
  obtain "is" change where shape: "wallet_picks (map sn_amount wallet) is"
    "value_of (map sn_amount wallet) is = amt amount + change_value change"
    "plan_for amount change (map ((!) wallet) is) (ss_steps s)"
    using plan_shape_lemma [OF assms(1) plan] by blast
  let ?step = "ss_steps s ! ss_step_index s"
  obtain spent where spent: "resolve ?step (ss_wallet s) = Inr spent"
    and c: "materialize_step ?step (ss_pool_address s) (ss_target s) spent = Inr c"
    and i: "ss_step_index s < length (ss_steps s)"
    using assms(3) by (auto simp: session_step_def andThen_Inr plan_call_Inr vec_index_Inr split: if_splits)
  have "prefix_sum (map ((!) wallet) is) (length (map ((!) wallet) is)) = amt amount + change_value change"
    using shape(2) value_of_wallet [OF wallet_picks_less [OF shape(1)]] by (simp only: prefix_sum_all)
  from plan_for_balanced [OF shape(3) this i] show ?thesis
    using resolve_ok [OF spent] materialize_step_conserves [OF c] by (intro exI [of _ spent]) simp
qed


section \<open>Completion\<close>

lemma find_unique:
  "distinct (map f xs) \<Longrightarrow> n \<in> set xs \<Longrightarrow> find (\<lambda>x. f x = f n) xs = Some n"
  by (induction xs) (auto simp: image_iff)

abbreviation commitments :: "spendable_note list \<Rightarrow> field set" where
  "commitments ns \<equiv> sn_commitment ` set ns"

text \<open>The notes of the wallet that are not among the first \<open>j\<close> picks.\<close>

definition held :: "spendable_note list \<Rightarrow> spendable_note list \<Rightarrow> nat \<Rightarrow> spendable_note list" where
  "held wallet ns j = filter (\<lambda>n. sn_commitment n \<notin> commitments (take j ns)) wallet"

definition clear_plan :: "spendable_note list \<Rightarrow> spendable_note list \<Rightarrow> bool" where
  "clear_plan wallet ns \<longleftrightarrow> distinct (map sn_commitment wallet) \<and> distinct ns \<and> set ns \<subseteq> set wallet \<and>
     (\<forall>j. 2 \<le> j \<longrightarrow> j < length ns \<longrightarrow>
       (\<forall>n \<in> set wallet. n \<notin> set (take j ns) \<longrightarrow> amt (sn_amount n) \<noteq> prefix_sum ns j))"

lemma held_Suc:
  "j < length ns \<Longrightarrow> held wallet ns (Suc j) = filter (\<lambda>n. sn_commitment n \<noteq> sn_commitment (ns ! j)) (held wallet ns j)"
  by (auto simp: held_def take_Suc_conv_app_nth intro: filter_cong)

lemma held_0 [simp]: "held wallet ns 0 = wallet"
  by (simp add: held_def)

lemma held_subset: "set (held wallet ns j) \<subseteq> set wallet"
  by (auto simp: held_def)

lemma held_commitment: "n \<in> set (held wallet ns j) \<Longrightarrow> sn_commitment n \<in> commitments wallet"
  by (auto simp: held_def)

lemma held_member:
  assumes "clear_plan wallet ns" "j \<le> m" "m < length ns"
  shows "ns ! m \<in> set (held wallet ns j)"
proof -
  have mem: "ns ! m \<in> set wallet" using assms by (auto simp: clear_plan_def)
  have "sn_commitment (ns ! m) \<notin> commitments (take j ns)"
  proof
    assume "sn_commitment (ns ! m) \<in> commitments (take j ns)"
    then obtain l where l: "l < j" "sn_commitment (ns ! l) = sn_commitment (ns ! m)"
      using assms(2,3) by (auto simp: in_set_conv_nth)
    then have "ns ! l \<in> set wallet" using assms by (auto simp: clear_plan_def)
    then have "ns ! l = ns ! m"
      using l mem assms(1) by (auto simp: clear_plan_def distinct_map dest: inj_onD)
    then show False using l assms by (auto simp: clear_plan_def nth_eq_iff_index_eq)
  qed
  then show ?thesis using mem by (simp add: held_def)
qed

lemma held_distinct: "clear_plan wallet ns \<Longrightarrow> distinct (map sn_commitment (held wallet ns j))"
  by (auto simp: clear_plan_def held_def distinct_map_filter)

lemma resolve_pick:
  assumes "clear_plan wallet ns" "j \<le> m" "m < length ns" "extra = [] \<or> (\<exists>x. extra = [x] \<and> sn_commitment x \<notin> commitments wallet)"
  shows "resolve_input_note (from_spendable (ns ! m)) (held wallet ns j @ extra) sibling = Inr (ns ! m)"
proof -
  have "distinct (map sn_commitment (held wallet ns j @ extra))"
    using held_distinct [OF assms(1), of j] held_commitment [of _ wallet ns j] assms(4) by fastforce
  moreover have "ns ! m \<in> set (held wallet ns j @ extra)" using held_member [OF assms(1-3)] by simp
  ultimately have "find (\<lambda>x. sn_commitment x = sn_commitment (ns ! m)) (held wallet ns j @ extra) = Some (ns ! m)"
    by (rule find_unique)
  then show ?thesis by (simp add: resolve_input_note_def)
qed

lemma resolve_merge_note:
  assumes "clear_plan wallet ns" "2 \<le> j" "j < length ns" "amt (sn_amount m) = prefix_sum ns j"
    and "sn_commitment m \<notin> commitments wallet" "st_commitment input = None" "amt (st_amount input) = prefix_sum ns j"
  shows "resolve_input_note input (held wallet ns j @ [m]) (Some (from_spendable (ns ! j))) = Inr m"
proof -
  have same: "st_amount input = sn_amount m" using assms(4,7) by (intro amt_inject [THEN iffD1]) simp
  have "filter (\<lambda>n. sn_amount n = st_amount input) (held wallet ns j) = []"
  proof -
    have "sn_amount n \<noteq> st_amount input" if "n \<in> set (held wallet ns j)" for n
    proof -
      have "n \<in> set wallet" "n \<notin> set (take j ns)" using that by (auto simp: held_def)
      then have "amt (sn_amount n) \<noteq> prefix_sum ns j" using assms(1-3) by (auto simp: clear_plan_def)
      then show ?thesis using assms(7) by auto
    qed
    then show ?thesis by (simp add: filter_empty_conv)
  qed
  moreover have "sn_commitment (ns ! j) \<noteq> sn_commitment m"
    using held_commitment [OF held_member [OF assms(1) le_refl assms(3)]] assms(5) by auto
  ultimately have "filter (\<lambda>n. sn_commitment (ns ! j) \<noteq> sn_commitment n)
      (filter (\<lambda>n. sn_amount n = sn_amount m) (held wallet ns j @ [m])) = [m]"
    by (simp add: same del: filter_filter)
  then show ?thesis
    using assms(6) by (simp add: resolve_input_note_def same Let_def del: filter_filter filter_append filter.simps)
qed

text \<open>The wallet before step \<open>i\<close>: the picks of the earlier steps are gone, their sum is held by \<open>m\<close>.\<close>

definition wallet_at :: "spendable_note list \<Rightarrow> spendable_note list \<Rightarrow> nat \<Rightarrow> spendable_note list \<Rightarrow> bool" where
  "wallet_at wallet ns i w \<longleftrightarrow>
     (if i = 0 then w = wallet
      else if length ns \<le> Suc i then w = held wallet ns (length ns)
      else \<exists>m. w = held wallet ns (Suc i) @ [m] \<and> amt (sn_amount m) = prefix_sum ns (Suc i) \<and>
        sn_commitment m \<notin> commitments wallet)"

lemma filter_commitment_held:
  assumes "sn_commitment m \<notin> commitments wallet"
  shows "filter (\<lambda>n. sn_commitment n \<noteq> sn_commitment m) (held wallet ns j) = held wallet ns j"
proof -
  have "sn_commitment n \<noteq> sn_commitment m" if "n \<in> set (held wallet ns j)" for n
    using that assms held_commitment by metis
  then show ?thesis by (simp add: filter_id_conv)
qed

text \<open>A step resolves, and removing what it spends leaves the notes not picked so far.\<close>

lemma step_resolves:
  assumes "clear_plan wallet ns" "plan_for amount change ns steps" "i < length steps" "wallet_at wallet ns i w"
  obtains spent where "resolve (steps ! i) w = Inr spent"
    "remove_spent w spent = held wallet ns (min (length ns) (Suc (Suc i)))"
proof (cases "length ns = 1")
  case True
  then have "i = 0" using assms(3) plan_for_length [OF assms(2)] by simp
  then have "w = wallet" using assms(4) by (simp add: wallet_at_def)
  have inp: "ps_inputs (steps ! 0) = (from_spendable (ns ! 0), None)"
    using plan_for_step [OF assms(2,3)] True \<open>i = 0\<close>
    by (cases "ps_inputs (steps ! 0)") (auto intro!: step_note.equality amt_inject [THEN iffD1] simp: prefix_sum_Suc)
  have "resolve (steps ! 0) wallet = Inr [ns ! 0]"
    using resolve_pick [OF assms(1), of 0 0 "[]"] True by (simp add: resolve_def inp)
  moreover have "remove_spent wallet [ns ! 0] = held wallet ns 1"
    using held_Suc [of 0 ns wallet] True by (simp add: remove_spent_def)
  ultimately show thesis using that True \<open>i = 0\<close> \<open>w = wallet\<close> by simp
next
  case False
  then have len: "length steps = length ns - 1" "2 \<le> length ns"
    using plan_for_length [OF assms(2)] by (cases ns rule: remdups_adj.cases; simp)+
  have snd: "snd (ps_inputs (steps ! i)) = Some (from_spendable (ns ! Suc i))"
    using plan_for_step(3) [OF assms(2,3)] False by simp
  have min: "min (length ns) (Suc (Suc i)) = Suc (Suc i)" using assms(3) len by simp
  show thesis
  proof (cases "i = 0")
    case True
    then have w: "w = wallet" using assms(4) by (simp add: wallet_at_def)
    have fst: "fst (ps_inputs (steps ! 0)) = from_spendable (ns ! 0)"
      using plan_for_step(1,2) [OF assms(2,3)] True prefix_sum_1 [OF plan_for_length(1) [OF assms(2)]]
      by (auto intro!: step_note.equality amt_inject [THEN iffD1])
    have "resolve (steps ! 0) wallet = Inr [ns ! 0, ns ! 1]"
      using resolve_pick [OF assms(1), of 0 0 "[]"] resolve_pick [OF assms(1), of 0 1 "[]"] len snd True
        plan_for_length(1) [OF assms(2)]
      by (simp add: resolve_def fst)
    moreover have "remove_spent wallet [ns ! 0, ns ! 1] = held wallet ns 2"
      using held_Suc [of 0 ns wallet] held_Suc [of 1 ns wallet] len plan_for_length(1) [OF assms(2)]
      by (simp add: remove_spent_def numeral_2_eq_2)
    ultimately show thesis using that True w min by (simp add: numeral_2_eq_2)
  next
    case False
    have "\<not> length ns \<le> Suc i" using assms(3) len by simp
    with False obtain m where m: "w = held wallet ns (Suc i) @ [m]" "amt (sn_amount m) = prefix_sum ns (Suc i)"
      "sn_commitment m \<notin> commitments wallet"
      using assms(3,4) len by (auto simp: wallet_at_def)
    have "resolve_input_note (fst (ps_inputs (steps ! i))) w (snd (ps_inputs (steps ! i))) = Inr m"
      using resolve_merge_note [OF assms(1), of "Suc i" m "fst (ps_inputs (steps ! i))"]
        plan_for_step(1,2) [OF assms(2,3)] False assms(3) len m snd by simp
    moreover have "resolve_input_note (from_spendable (ns ! Suc i)) w sibling = Inr (ns ! Suc i)" for sibling
      using resolve_pick [OF assms(1), of "Suc i" "Suc i" "[m]"] assms(3) len m by simp
    ultimately have "resolve (steps ! i) w = Inr [m, ns ! Suc i]"
      by (simp add: resolve_def snd)
    moreover have "remove_spent w [m, ns ! Suc i] = held wallet ns (Suc (Suc i))"
      using held_Suc [of "Suc i" ns wallet] filter_commitment_held [OF m(3)] assms(3) len m
      by (simp add: remove_spent_def)
    ultimately show thesis using that min by simp
  qed
qed


lemma materialize_step_total:
  assumes "ps_action step = Final (amount, change) \<Longrightarrow> (\<exists>r. target = Withdraw r) \<Longrightarrow> amt amount < 2 ^ 127"
    and "(\<exists>out. ps_action step = Consolidate out) \<or> ps_action step = Final (amount, change)"
  shows "\<exists>c. materialize_step step pool target resolved = Inr c"
proof (cases "ps_action step = Final (amount, change) \<and> (\<exists>r. target = Withdraw r)")
  case True
  then obtain r where r: "target = Withdraw r" by blast
  have small: "uint (na_val amount) < 2 ^ 127"
    using assms(1) True by (intro int_less_of_amt) blast
  then have try_from: "ea_try_from_note amount = Inr (ExtAmount (na_val amount))"
    by (simp add: ea_try_from_note_def)
  have "- (2 ^ 127) \<le> uint (na_val amount)" by (rule order_trans [of _ 0]) simp_all
  then have "sint (na_val amount) = uint (na_val amount)"
    using small by (simp add: sint_uint signed_take_bit_int_eq_self)
  moreover have "0 \<le> uint (na_val amount)" by simp
  ultimately have "in_i128 (- sint (na_val amount))" using small unfolding in_i128_def by linarith
  then show ?thesis using True r try_from
    by (simp add: materialize_step_def ea_checked_neg_def Let_def)
next
  case False
  then show ?thesis using assms(2)
    by (cases target) (auto simp: materialize_step_def Let_def)
qed

text \<open>One round of the loop.\<close>

lemma session_round:
  assumes "clear_plan wallet ns" "plan_for amount change ns (ss_steps s)" "ss_step_index s < length (ss_steps s)"
    and "wallet_at wallet ns (ss_step_index s) (ss_wallet s)"
    and "(\<exists>r. ss_target s = Withdraw r) \<longrightarrow> amt amount < 2 ^ 127"
    and "fst out \<notin> commitments wallet" "length (ss_steps s) < 2 ^ 64"
  shows "\<exists>c s'. session_step s = Inr (Some c) \<and> complete_step s out = Inr s' \<and>
    wallet_at wallet ns (Suc (ss_step_index s)) (ss_wallet s') \<and> ss_steps s' = ss_steps s \<and>
    ss_target s' = ss_target s \<and> ss_step_index s' = Suc (ss_step_index s)"
proof -
  let ?i = "ss_step_index s"
  let ?step = "ss_steps s ! ?i"
  obtain spent where spent: "resolve ?step (ss_wallet s) = Inr spent"
    "remove_spent (ss_wallet s) spent = held wallet ns (min (length ns) (Suc (Suc ?i)))"
    using step_resolves [OF assms(1-4)] by blast
  have len: "length (ss_steps s) = max 1 (length ns - 1)" "ns \<noteq> []" using plan_for_length [OF assms(2)] by auto
  have act: "if Suc ?i = length (ss_steps s) then ps_action ?step = Final (amount, change)
     else \<exists>out. ps_action ?step = Consolidate out \<and> amt out = prefix_sum ns (Suc (Suc ?i))"
    using plan_for_step(4) [OF assms(2,3)] .
  then have "(\<exists>out. ps_action ?step = Consolidate out) \<or> ps_action ?step = Final (amount, change)"
    by (auto split: if_splits)
  then obtain c where c: "materialize_step ?step (ss_pool_address s) (ss_target s) spent = Inr c"
    using materialize_step_total assms(5) by blast
  have step: "session_step s = Inr (Some c)"
    using spent(1) c assms(3) by (simp add: session_step_def is_done_def plan_call_def)
  have idx: "usize_checked_add ?i 1 = Some (Suc ?i)"
    using assms(3,7) by (simp add: usize_checked_add_Some)
  show ?thesis
  proof (cases "Suc ?i = length (ss_steps s)")
    case True
    have "length ns \<le> Suc (Suc ?i)" using True len by simp
    then have "wallet_at wallet ns (Suc ?i) (remove_spent (ss_wallet s) spent)"
      using spent(2) by (simp add: wallet_at_def min_def)
    moreover have "complete_step s out = Inr (s\<lparr>ss_wallet := remove_spent (ss_wallet s) spent, ss_step_index := Suc ?i\<rparr>)"
      using True act spent(1) assms(3) idx by (simp add: complete_step_def is_done_def plan_call_def Let_def)
    ultimately show ?thesis using step by simp
  next
    case False
    then obtain s_out where o: "ps_action ?step = Consolidate s_out" "amt s_out = prefix_sum ns (Suc (Suc ?i))"
      using act by auto
    let ?w = "remove_spent (ss_wallet s) spent @ [\<lparr>sn_commitment = fst out, sn_amount = s_out\<rparr>]"
    have "Suc (Suc ?i) < length ns" using False assms(3) len by auto
    then have "wallet_at wallet ns (Suc ?i) ?w"
      using spent(2) o(2) assms(6) by (simp add: wallet_at_def)
    moreover have "complete_step s out = Inr (s\<lparr>ss_wallet := ?w, ss_step_index := Suc ?i\<rparr>)"
      using o(1) spent(1) assms(3) idx by (simp add: complete_step_def is_done_def plan_call_def Let_def)
    ultimately show ?thesis using step by simp
  qed
qed

lemma run_session_from:
  assumes "clear_plan wallet ns" "plan_for amount change ns (ss_steps s)" "ss_step_index s \<le> length (ss_steps s)"
    and "wallet_at wallet ns (ss_step_index s) (ss_wallet s)"
    and "(\<exists>r. ss_target s = Withdraw r) \<longrightarrow> amt amount < 2 ^ 127"
    and "fst ` set outs \<inter> commitments wallet = {}" "length (ss_steps s) < 2 ^ 64"
    and "length (ss_steps s) \<le> ss_step_index s + length outs"
  shows "\<exists>cs s'. run_session s outs = Inr (cs, s') \<and> is_done s' \<and>
    length cs = length (ss_steps s) - ss_step_index s \<and> ss_wallet s' = held wallet ns (length ns)"
  using assms
proof (induction outs arbitrary: s)
  case Nil
  then have "is_done s" "ss_step_index s = length (ss_steps s)" by (simp_all add: is_done_def)
  moreover have "0 < length (ss_steps s)" "length ns \<le> Suc (length (ss_steps s))"
    using plan_for_length [OF Nil.prems(2)] by auto
  ultimately show ?case using Nil.prems(4) by (simp add: session_step_def wallet_at_def)
next
  case (Cons out outs)
  show ?case
  proof (cases "ss_step_index s < length (ss_steps s)")
    case False
    then have "is_done s" "ss_step_index s = length (ss_steps s)" using Cons.prems(3) by (simp_all add: is_done_def)
    moreover have "0 < length (ss_steps s)" "length ns \<le> Suc (length (ss_steps s))"
      using plan_for_length [OF Cons.prems(2)] by auto
    ultimately show ?thesis using Cons.prems(4) by (simp add: session_step_def wallet_at_def)
  next
    case True
    have fresh: "fst out \<notin> commitments wallet" using Cons.prems(6) by auto
    obtain c s' where round: "session_step s = Inr (Some c)" "complete_step s out = Inr s'"
      "wallet_at wallet ns (Suc (ss_step_index s)) (ss_wallet s')" "ss_steps s' = ss_steps s"
      "ss_target s' = ss_target s" "ss_step_index s' = Suc (ss_step_index s)"
      using session_round [OF Cons.prems(1,2) True Cons.prems(4,5) fresh Cons.prems(7)] by blast
    have "\<exists>cs s''. run_session s' outs = Inr (cs, s'') \<and> is_done s'' \<and>
        length cs = length (ss_steps s') - ss_step_index s' \<and> ss_wallet s'' = held wallet ns (length ns)"
      using Cons.prems True round by (intro Cons.IH) auto
    then show ?thesis using round True by (auto simp: Suc_diff_Suc)
  qed
qed

lemma plan_clear:
  assumes "sorts_by_key srt" "find_combination srt (map sn_amount wallet) amount = Inr r"
    and "selected r = Some (is, e)" "distinct (map sn_commitment wallet)"
  shows "clear_plan wallet (map ((!) wallet) is)"
proof -
  let ?vals = "map sn_amount wallet"
  have picks: "distinct is" "\<forall>i \<in> set is. i < length wallet"
    using find.sound [OF assms(1-3)] by (auto simp: wallet_picks_def)
  have dw: "distinct wallet" using assms(4) by (simp add: distinct_map)
  have "distinct (map ((!) wallet) is)"
    using picks dw by (auto simp: distinct_map inj_on_def nth_eq_iff_index_eq)
  moreover have "amt (sn_amount n) \<noteq> prefix_sum (map ((!) wallet) is) j"
    if j: "2 \<le> j" "j < length is" and n: "n \<in> set wallet" "n \<notin> set (take j (map ((!) wallet) is))" for j n
  proof -
    obtain i where i: "i < length wallet" "n = wallet ! i" using n(1) by (metis in_set_conv_nth)
    have "i \<notin> set (take j is)" using n(2) i by (auto simp: take_map)
    then have "amt (?vals ! i) \<noteq> value_of ?vals (take j is)"
      using find.no_collision [OF assms(1-3)] j i by simp
    moreover have "value_of ?vals (take j is) = prefix_sum (map ((!) wallet) is) j"
      using value_of_wallet [of "take j is" wallet] picks(2) set_take_subset [of j "is"]
      by (auto simp: prefix_sum_def take_map)
    ultimately show ?thesis using i by simp
  qed
  ultimately show ?thesis using picks assms(4) by (auto simp: clear_plan_def)
qed

text \<open>
  Property C15: a session set up on a wallet with distinct commitments runs to its end when the caller submits
  each call and reports commitments the wallet did not hold: no step is ambiguous or fails to find
  its notes, there is one call for each planned step, and at the end the wallet has lost exactly
  the planned notes. A withdrawal must fit the external amount type.
\<close>

theorem session_completes:
  assumes "sorts_by_key srt" "setup_session srt wallet amount pool target = Inr s"
    and "distinct (map sn_commitment wallet)" "fst ` set outs \<inter> commitments wallet = {}"
    and "(\<exists>r. target = Withdraw r) \<longrightarrow> amt amount < 2 ^ 127" "length (ss_steps s) \<le> length outs"
  shows "\<exists>cs s' is change. run_session s outs = Inr (cs, s') \<and> is_done s' \<and> length cs = length (ss_steps s) \<and>
    wallet_picks (map sn_amount wallet) is \<and> value_of (map sn_amount wallet) is = amt amount + change_value change \<and>
    ss_wallet s' = filter (\<lambda>n. sn_commitment n \<notin> sn_commitment ` (!) wallet ` set is) wallet"
proof -
  have s: "plan srt amount wallet = Inr (ss_steps s)" "ss_wallet s = wallet" "ss_target s = target" "ss_step_index s = 0"
    using setup_session_Inr [OF assms(2)] by simp_all
  obtain r "is" change where r: "find_combination srt (map sn_amount wallet) amount = Inr r"
    "selected r = Some (is, change_value change)" "plan_steps amount wallet is change = Inr (ss_steps s)"
    using plan_selection [OF s(1)] by metis
  let ?ns = "map ((!) wallet) is"
  have shape: "plan_for amount change ?ns (ss_steps s)" "length is \<le> TRANSACTION_LIMIT"
    using plan_steps_ok [OF r(3)] by auto
  then have "length (ss_steps s) < 2 ^ 64"
    using plan_for_length [OF shape(1)] by (simp add: TRANSACTION_LIMIT_def)
  then have "\<exists>cs s'. run_session s outs = Inr (cs, s') \<and> is_done s' \<and>
      length cs = length (ss_steps s) - ss_step_index s \<and> ss_wallet s' = held wallet ?ns (length ?ns)"
    using s assms(4-6) shape(1) plan_clear [OF assms(1) r(1,2) assms(3)]
    by (intro run_session_from [of wallet ?ns amount change]) (auto simp: wallet_at_def)
  then show ?thesis
    using find.sound [OF assms(1) r(1,2)] s(4)
    by (auto simp: held_def intro!: exI [of _ "is"] exI [of _ change])
qed


section \<open>Runs\<close>

definition doc_pool :: string where "doc_pool = ''POOL''"

definition doc_session :: "spend_session option" where
  "doc_session =
     (case setup_session (sort_key snd) doc_notes (NoteAmount 10) doc_pool (Withdraw ''GA'') of
        Inr s \<Rightarrow> Some s | Inl _ \<Rightarrow> None)"

definition doc_outs :: "(field \<times> field) list" where
  "doc_outs = [(Field 201, Field 202), (Field 203, Field 204)]"

lemma doc_setup:
  "setup_session (sort_key snd) doc_notes (NoteAmount 10) doc_pool (Withdraw ''GA'') = Inr (the doc_session)"
  by code_simp

lemma doc_steps: "length (ss_steps (the doc_session)) = 2"
  by code_simp

lemma doc_first_step:
  "session_step (the doc_session) = Inr (Some
    \<lparr>input_commitments = [Field 102, Field 101], output_amounts = (NoteAmount 8, NoteAmount 0), ext_amount_of = ExtAmount 0,
     ext_recipient = ''POOL'', out_recipient_note_pubkeys = (None, None), out_recipient_encryption_pubkeys = (None, None)\<rparr>)"
  by code_simp

theorem session_conserves_witness:
  "\<exists>spent. set spent \<subseteq> set (ss_wallet (the doc_session)) \<and> [Field 102, Field 101] = map sn_commitment spent \<and>
    int (sum_list (map (amt \<circ> sn_amount) spent)) + sint (0 :: i128) = 8"
  using session_conserves [OF sort_key_sorts session_reach.start [OF doc_setup] doc_first_step]
  by (simp add: call_outputs_def)

theorem session_completes_witness:
  "\<exists>cs s' is change. run_session (the doc_session) doc_outs = Inr (cs, s') \<and> is_done s' \<and>
    length cs = length (ss_steps (the doc_session)) \<and> wallet_picks (map sn_amount doc_notes) is \<and>
    value_of (map sn_amount doc_notes) is = amt (NoteAmount 10) + change_value change \<and>
    ss_wallet s' = filter (\<lambda>n. sn_commitment n \<notin> sn_commitment ` (!) doc_notes ` set is) doc_notes"
  by (rule session_completes [OF sort_key_sorts doc_setup])
    (simp_all add: doc_steps doc_notes_def doc_outs_def)

end
