(* ===== verification/Poseidon.thy ===== *)
theory Poseidon imports Amounts begin

text \<open>
  The hash functions of the contracts, from \<^verbatim>\<open>contracts/soroban-utils/src/poseidon2.rs\<close>
  and \<^verbatim>\<open>constants.rs\<close>: the modulus, the round constants, the compression of two field
  elements, the hash of two elements with a domain separator, and the precomputed hashes
  of empty subtrees. A \<open>U256\<close> the source builds from 32 big-endian bytes is written as one
  numeral with the same hexadecimal digits.

  The permutation is a host function (\<open>crypto_hazmat().poseidon2_permutation\<close>): it is the
  parameter \<open>perm\<close> of every definition that hashes. What the code relies on is \<open>host_ok\<close>
  (as many field elements out as in) and, for the trees, \<open>zero_chain\<close> (each hash of an
  empty subtree is the compression of the one below).
\<close>

section \<open>Constants\<close>

definition BN256_MOD_BYTES :: "byte list" where
  "BN256_MOD_BYTES =
     [48, 100, 78, 114, 225, 49, 160, 41, 184, 80, 69, 182, 129, 129, 88, 93, 40, 51, 232, 72, 121,
      185, 112, 145, 67, 225, 245, 147, 240, 0, 0, 1]"

definition bn256_modulus :: u256 where
  "bn256_modulus = from_be BN256_MOD_BYTES"

definition get_round_constants_t2 :: "u256 list list" where
  "get_round_constants_t2 =
  [[0x9c46e9ec68e9bd4fe1faaba294cba38a71aa177534cdd1b6c7dc0dbd0abd7a7,
    0xc0356530896eec42a97ed937f3135cfc5142b3ae405b8343c1d83ffa604cb81],
   [0x1e28a1d935698ad1142e51182bb54cf4a00ea5aabd6268bd317ea977cc154a30,
    0x27af2d831a9d2748080965db30e298e40e5757c3e008db964cf9e2b12b91251f],
   [0x1e6f11ce60fc8f513a6a3cfe16ae175a41291462f214cd0879aaf43545b74e03,
    0x2a67384d3bbd5e438541819cb681f0be04462ed14c3613d8f719206268d142d3],
   [0xb66fdf356093a611609f8e12fbfecf0b985e381f025188936408f5d5c9f45d0,
    0x12ee3ec1e78d470830c61093c2ade370b26c83cc5cebeeddaa6852dbdb09e21],
   [0x252ba5f6760bfbdfd88f67f8175e3fd6cd1c431b099b6bb2d108e7b445bb1b9,
    0],
   [0x179474cceca5ff676c6bec3cef54296354391a8935ff71d6ef5aeaad7ca932f1,
    0],
   [0x2c24261379a51bfa9228ff4a503fd4ed9c1f974a264969b37e1a2589bbed2b91,
    0],
   [0x1cc1d7b62692e63eac2f288bd0695b43c2f63f5001fc0fc553e66c0551801b05,
    0],
   [0x255059301aada98bb2ed55f852979e9600784dbf17fbacd05d9eff5fd9c91b56,
    0],
   [0x28437be3ac1cb2e479e1f5c0eccd32b3aea24234970a8193b11c29ce7e59efd9,
    0],
   [0x28216a442f2e1f711ca4fa6b53766eb118548da8fb4f78d4338762c37f5f2043,
    0],
   [0x2c1f47cd17fa5adf1f39f4e7056dd03feee1efce03094581131f2377323482c9,
    0],
   [0x7abad02b7a5ebc48632bcc9356ceb7dd9dafca276638a63646b8566a621afc9,
    0],
   [0x230264601ffdf29275b33ffaab51dfe9429f90880a69cd137da0c4d15f96c3c,
    0],
   [0x1bc973054e51d905a0f168656497ca40a864414557ee289e717e5d66899aa0a9,
    0],
   [0x2e1c22f964435008206c3157e86341edd249aff5c2d8421f2a6b22288f0a67fc,
    0],
   [0x1224f38df67c5378121c1d5f461bbc509e8ea1598e46c9f7a70452bc2bba86b8,
    0],
   [0x2e4e69d8ba59e519280b4bd9ed0068fd7bfe8cd9dfeda1969d2989186cde20e,
    0],
   [0x1f1eccc34aaba0137f5df81fc04ff3ee4f19ee364e653f076d47e9735d98018e,
    0],
   [0x1672ad3d709a353974266c3039a9a7311424448032cd1819eacb8a4d4284f582,
    0],
   [0x283e3fdc2c6e420c56f44af5192b4ae9cda6961f284d24991d2ed602df8c8fc7,
    0],
   [0x1c2a3d120c550ecfd0db0957170fa013683751f8fdff59d6614fbd69ff394bcc,
    0],
   [0x216f84877aac6172f7897a7323456efe143a9a43773ea6f296cb6b8177653fbd,
    0],
   [0x2c0d272becf2a75764ba7e8e3e28d12bceaa47ea61ca59a411a1f51552f94788,
    0],
   [0x16e34299865c0e28484ee7a74c454e9f170a5480abe0508fcb4a6c3d89546f43,
    0],
   [0x175ceba599e96f5b375a232a6fb9cc71772047765802290f48cd939755488fc5,
    0],
   [0xc7594440dc48c16fead9e1758b028066aa410bfbc354f54d8c5ffbb44a1ee32,
    0],
   [0x1a3c29bc39f21bb5c466db7d7eb6fd8f760e20013ccf912c92479882d919fd8d,
    0],
   [0xccfdd906f3426e5c0986ea049b253400855d349074f5a6695c8eeabcd22e68f,
    0],
   [0x14f6bc81d9f186f62bdb475ce6c9411866a7a8a3fd065b3ce0e699b67dd9e796],
   [0x962b82789fb3d129702ca70b2f6c5aacc099810c9c495c888edeb7386b97052,
    0],
   [0x1a880af7074d18b3bf20c79de25127bc13284ab01ef02575afef0c8f6a31a86d,
    0],
   [0x10cba18419a6a332cd5e77f0211c154b20af2924fc20ff3f4c3012bb7ae9311b,
    0],
   [0x57e62a9a8f89b3ebdc76ba63a9eaca8fa27b7319cae3406756a2849f302f10d,
    0],
   [0x287c971de91dc0abd44adf5384b4988cb961303bbf65cff5afa0413b44280cee,
    0],
   [0x21df3388af1687bbb3bca9da0cca908f1e562bc46d4aba4e6f7f7960e306891d,
    0],
   [0x1be5c887d25bce703e25cc974d0934cd789df8f70b498fd83eff8b560e1682b3,
    0],
   [0x268da36f76e568fb68117175cea2cd0dd2cb5d42fda5acea48d59c2706a0d5c1,
    0],
   [0xe17ab091f6eae50c609beaf5510ececc5d8bb74135ebd05bd06460cc26a5ed6,
    0],
   [0x4d727e728ffa0a67aee535ab074a43091ef62d8cf83d270040f5caa1f62af40,
    0],
   [0xddbd7bf9c29341581b549762bc022ed33702ac10f1bfd862b15417d7e39ca6e,
    0],
   [0x2790eb3351621752768162e82989c6c234f5b0d1d3af9b588a29c49c8789654b,
    0],
   [0x1e457c601a63b73e4471950193d8a570395f3d9ab8b2fd0984b764206142f9e9,
    0],
   [0x21ae64301dca9625638d6ab2bbe7135ffa90ecd0c43ff91fc4c686fc46e091b0,
    0],
   [0x379f63c8ce3468d4da293166f494928854be9e3432e09555858534eed8d350b,
    0],
   [0x2d56420359d0266a744a080809e054ca0e4921a46686ac8c9f58a324c35049,
    0],
   [0x123158e5965b5d9b1d68b3cd32e10bbeda8d62459e21f4090fc2c5af963515a6,
    0],
   [0xbe29fc40847a941661d14bbf6cbe0420fbb2b6f52836d4e60c80eb49cad9ec1,
    0],
   [0x1ac96991dec2bb0557716142015a453c36db9d859cad5f9a233802f24fdf4c1a,
    0],
   [0x1596443f763dbcc25f4964fc61d23b3e5e12c9fa97f18a9251ca3355bcb0627e,
    0],
   [0x12e0bcd3654bdfa76b2861d4ec3aeae0f1857d9f17e715aed6d049eae3ba3212,
    0],
   [0xfc92b4f1bbea82b9ea73d4af9af2a50ceabac7f37154b1904e6c76c7cf964ba,
    0],
   [0x1f9c0b1610446442d6f2e592a8013f40b14f7c7722236f4f9c7e965233872762,
    0],
   [0xebd74244ae72675f8cde06157a782f4050d914da38b4c058d159f643dbbf4d3,
    0],
   [0x2cb7f0ed39e16e9f69a9fafd4ab951c03b0671e97346ee397a839839dccfc6d1,
    0],
   [0x1a9d6e2ecff022cc5605443ee41bab20ce761d0514ce526690c72bca7352d9bf,
    0],
   [0x2a115439607f335a5ea83c3bc44a9331d0c13326a9a7ba3087da182d648ec72f,
    0],
   [0x23f9b6529b5d040d15b8fa7aee3e3410e738b56305cd44f29535c115c5a4c060,
    0],
   [0x5872c16db0f72a2249ac6ba484bb9c3a3ce97c16d58b68b260eb939f0e6e8a7,
    0],
   [0x1300bdee08bb7824ca20fb80118075f40219b6151d55b5c52b624a7cdeddf6a7,
    0],
   [0x19b9b63d2f108e17e63817863a8f6c288d7ad29916d98cb1072e4e7b7d52b376,
    0x15bee1357e3c015b5bda237668522f613d1c88726b5ec4224a20128481b4f7f],
   [0x2953736e94bb6b9f1b9707a4f1615e4efe1e1ce4bab218cbea92c785b128ffd1,
    0xb069353ba091618862f806180c0385f851b98d372b45f544ce7266ed6608dfc],
   [0x304f74d461ccc13115e4e0bcfb93817e55aeb7eb9306b64e4f588ac97d81f429,
    0x15bbf146ce9bca09e8a33f5e77dfe4f5aad2a164a4617a4cb8ee5415cde913fc],
   [0xab4dfe0c2742cde44901031487964ed9b8f4b850405c10ca9ff23859572c8c6,
    0xe32db320a044e3197f45f7649a19675ef5eedfea546dea9251de39f9639779a]]"

definition get_round_constants_t3 :: "u256 list list" where
  "get_round_constants_t3 =
  [[0x1d066a255517b7fd8bddd3a93f7804ef7f8fcde48bb4c37a59a09a1a97052816,
    0x29daefb55f6f2dc6ac3f089cebcc6120b7c6fef31367b68eb7238547d32c1610,
    0x1f2cb1624a78ee001ecbd88ad959d7012572d76f08ec5c4f9e8b7ad7b0b4e1d1],
   [0xaad2e79f15735f2bd77c0ed3d14aa27b11f092a53bbc6e1db0672ded84f31e5,
    0x2252624f8617738cd6f661dd4094375f37028a98f1dece66091ccf1595b43f28,
    0x1a24913a928b38485a65a84a291da1ff91c20626524b2b87d49f4f2c9018d735],
   [0x22fc468f1759b74d7bfc427b5f11ebb10a41515ddff497b14fd6dae1508fc47a,
    0x1059ca787f1f89ed9cd026e9c9ca107ae61956ff0b4121d5efd65515617f6e4d,
    0x2be9473358461d8f61f3536d877de982123011f0bf6f155a45cbbfae8b981ce],
   [0xec96c8e32962d462778a749c82ed623aba9b669ac5b8736a1ff3a441a5084a4,
    0x292f906e073677405442d9553c45fa3f5a47a7cdb8c99f9648fb2e4d814df57e,
    0x274982444157b86726c11b9a0f5e39a5cc611160a394ea460c63f0b2ffe5657e],
   [0x1a1d063e54b1e764b63e1855bff015b8cedd192f47308731499573f23597d4b5,
    0,
    0],
   [0x26abc66f3fdf8e68839d10956259063708235dccc1aa3793b91b002c5b257c37,
    0,
    0],
   [0xc7c64a9d887385381a578cfed5aed370754427aabca92a70b3c2b12ff4d7be8,
    0,
    0],
   [0x1cf5998769e9fab79e17f0b6d08b2d1eba2ebac30dc386b0edd383831354b495,
    0,
    0],
   [0xf5e3a8566be31b7564ca60461e9e08b19828764a9669bc17aba0b97e66b0109,
    0,
    0],
   [0x18df6a9d19ea90d895e60e4db0794a01f359a53a180b7d4b42bf3d7a531c976e,
    0,
    0],
   [0x4f7bf2c5c0538ac6e4b782c3c6e601ad0ea1d3a3b9d25ef4e324055fa3123dc,
    0,
    0],
   [0x29c76ce22255206e3c40058523748531e770c0584aa2328ce55d54628b89ebe6,
    0,
    0],
   [0x198d425a45b78e85c053659ab4347f5d65b1b8e9c6108dbe00e0e945dbc5ff15,
    0,
    0],
   [0x25ee27ab6296cd5e6af3cc79c598a1daa7ff7f6878b3c49d49d3a9a90c3fdf74,
    0,
    0],
   [0x138ea8e0af41a1e024561001c0b6eb1505845d7d0c55b1b2c0f88687a96d1381,
    0,
    0],
   [0x306197fb3fab671ef6e7c2cba2eefd0e42851b5b9811f2ca4013370a01d95687,
    0,
    0],
   [0x1a0c7d52dc32a4432b66f0b4894d4f1a21db7565e5b4250486419eaf00e8f620,
    0,
    0],
   [0x2b46b418de80915f3ff86a8e5c8bdfccebfbe5f55163cd6caa52997da2c54a9f,
    0,
    0],
   [0x12d3e0dc0085873701f8b777b9673af9613a1af5db48e05bfb46e312b5829f64,
    0,
    0],
   [0x263390cf74dc3a8870f5002ed21d089ffb2bf768230f648dba338a5cb19b3a1f,
    0,
    0],
   [0xa14f33a5fe668a60ac884b4ca607ad0f8abb5af40f96f1d7d543db52b003dcd,
    0,
    0],
   [0x28ead9c586513eab1a5e86509d68b2da27be3a4f01171a1dd847df829bc683b9,
    0,
    0],
   [0x1c6ab1c328c3c6430972031f1bdb2ac9888f0ea1abe71cffea16cda6e1a7416c,
    0,
    0],
   [0x1fc7e71bc0b819792b2500239f7f8de04f6decd608cb98a932346015c5b42c94,
    0,
    0],
   [0x3e107eb3a42b2ece380e0d860298f17c0c1e197c952650ee6dd85b93a0ddaa8,
    0,
    0],
   [0x2d354a251f381a4669c0d52bf88b772c46452ca57c08697f454505f6941d78cd,
    0,
    0],
   [0x94af88ab05d94baf687ef14bc566d1c522551d61606eda3d14b4606826f794b,
    0,
    0],
   [0x19705b783bf3d2dc19bcaeabf02f8ca5e1ab5b6f2e3195a9d52b2d249d1396f7,
    0,
    0],
   [0x9bf4acc3a8bce3f1fcc33fee54fc5b28723b16b7d740a3e60cef6852271200e,
    0,
    0],
   [0x1803f8200db6013c50f83c0c8fab62843413732f301f7058543a073f3f3b5e4e,
    0,
    0],
   [0xf80afb5046244de30595b160b8d1f38bf6fb02d4454c0add41f7fef2faf3e5c,
    0,
    0],
   [0x126ee1f8504f15c3d77f0088c1cfc964abcfcf643f4a6fea7dc3f98219529d78,
    0,
    0],
   [0x23c203d10cfcc60f69bfb3d919552ca10ffb4ee63175ddf8ef86f991d7d0a591,
    0,
    0],
   [0x2a2ae15d8b143709ec0d09705fa3a6303dec1ee4eec2cf747c5a339f7744fb94,
    0,
    0],
   [0x7b60dee586ed6ef47e5c381ab6343ecc3d3b3006cb461bbb6b5d89081970b2b,
    0,
    0],
   [0x27316b559be3edfd885d95c494c1ae3d8a98a320baa7d152132cfe583c9311bd,
    0,
    0],
   [0x1d5c49ba157c32b8d8937cb2d3f84311ef834cc2a743ed662f5f9af0c0342e76,
    0,
    0],
   [0x2f8b124e78163b2f332774e0b850b5ec09c01bf6979938f67c24bd5940968488,
    0,
    0],
   [0x1e6843a5457416b6dc5b7aa09a9ce21b1d4cba6554e51d84665f75260113b3d5,
    0,
    0],
   [0x11cdf00a35f650c55fca25c9929c8ad9a68daf9ac6a189ab1f5bc79f21641d4b,
    0,
    0],
   [0x21632de3d3bbc5e42ef36e588158d6d4608b2815c77355b7e82b5b9b7eb560bc,
    0,
    0],
   [0xde625758452efbd97b27025fbd245e0255ae48ef2a329e449d7b5c51c18498a,
    0,
    0],
   [0x2ad253c053e75213e2febfd4d976cc01dd9e1e1c6f0fb6b09b09546ba0838098,
    0,
    0],
   [0x1d6b169ed63872dc6ec7681ec39b3be93dd49cdd13c813b7d35702e38d60b077,
    0,
    0],
   [0x1660b740a143664bb9127c4941b67fed0be3ea70a24d5568c3a54e706cfef7fe,
    0,
    0],
   [0x65a92d1de81f34114f4ca2deef76e0ceacdddb12cf879096a29f10376ccbfe,
    0,
    0],
   [0x1f11f065202535987367f823da7d672c353ebe2ccbc4869bcf30d50a5871040d,
    0,
    0],
   [0x26596f5c5dd5a5d1b437ce7b14a2c3dd3bd1d1a39b6759ba110852d17df0693e,
    0,
    0],
   [0x16f49bc727e45a2f7bf3056efcf8b6d38539c4163a5f1e706743db15af91860f,
    0,
    0],
   [0x1abe1deb45b3e3119954175efb331bf4568feaf7ea8b3dc5e1a4e7438dd39e5f,
    0,
    0],
   [0xe426ccab66984d1d8993a74ca548b779f5db92aaec5f102020d34aea15fba59,
    0,
    0],
   [0xe7c30c2e2e8957f4933bd1942053f1f0071684b902d534fa841924303f6a6c6,
    0,
    0],
   [0x812a017ca92cf0a1622708fc7edff1d6166ded6e3528ead4c76e1f31d3fc69d,
    0,
    0],
   [0x21a5ade3df2bc1b5bba949d1db96040068afe5026edd7a9c2e276b47cf010d54,
    0,
    0],
   [0x1f3035463816c84ad711bf1a058c6c6bd101945f50e5afe72b1a5233f8749ce,
    0,
    0],
   [0xb115572f038c0e2028c2aafc2d06a5e8bf2f9398dbd0fdf4dcaa82b0f0c1c8b,
    0,
    0],
   [0x1c38ec0b99b62fd4f0ef255543f50d2e27fc24db42bc910a3460613b6ef59e2f,
    0,
    0],
   [0x1c89c6d9666272e8425c3ff1f4ac737b2f5d314606a297d4b1d0b254d880c53e,
    0,
    0],
   [0x3326e643580356bf6d44008ae4c042a21ad4880097a5eb38b71e2311bb88f8f,
    0,
    0],
   [0x268076b0054fb73f67cee9ea0e51e3ad50f27a6434b5dceb5bdde2299910a4c9,
    0,
    0],
   [0x1acd63c67fbc9ab1626ed93491bda32e5da18ea9d8e4f10178d04aa6f8747ad0,
    0x19f8a5d670e8ab66c4e3144be58ef6901bf93375e2323ec3ca8c86cd2a28b5a5,
    0x1c0dc443519ad7a86efa40d2df10a011068193ea51f6c92ae1cfbb5f7b9b6893],
   [0x14b39e7aa4068dbe50fe7190e421dc19fbeab33cb4f6a2c4180e4c3224987d3d,
    0x1d449b71bd826ec58f28c63ea6c561b7b820fc519f01f021afb1e35e28b0795e,
    0x1ea2c9a89baaddbb60fa97fe60fe9d8e89de141689d1252276524dc0a9e987fc],
   [0x478d66d43535a8cb57e9c1c3d6a2bd7591f9a46a0e9c058134d5cefdb3c7ff1,
    0x19272db71eece6a6f608f3b2717f9cd2662e26ad86c400b21cde5e4a7b00bebe,
    0x14226537335cab33c749c746f09208abb2dd1bd66a87ef75039be846af134166],
   [0x1fd6af15956294f9dfe38c0d976a088b21c21e4a1c2e823f912f44961f9a9ce,
    0x18e5abedd626ec307bca190b8b2cab1aaee2e62ed229ba5a5ad8518d4e5f2a57,
    0xfc1bbceba0590f5abbdffa6d3b35e3297c021a3a409926d0e2d54dc1c84fda6]]"

definition get_zeroes :: "u256 list" where
  "get_zeroes =
   [0x25302288db99350344974183ce310d63b53abb9ef0f8575753eed36e0118f9ce,
    0x21f4ea2492ade006a8ee7fb764060a95a4eef5ca931e037bcdf05fc28067d008,
    0xebfb4d2f05bb6a473c9bff72586fec806f1ac237015c570d7c78249cf7d7740,
    0x66882a5dab186d4d63fa6600f9ea3d5cdfef2a2811c89731128a729d7e8b897,
    0x65db3148d8da5329beaec5042785c69f2ce0709e26d468bda1e255c599b5686,
    0x19926faa23b0737d467f9476f0f84b2968ff6666e16a23e4d44898f884504764,
    0x287c485a72ccc8d4d80692d97eb62c164953a0422791f6af6214a9a7ad2279c0,
    0x1f729e103e7d415f728dc945e3b6e2c40ac0cb369e532ba50a569790cdde2acc,
    0x1887e71f92217ffe86620e6ea5a71ad3521fade4c83203ffa3e838fe3d6e7203,
    0x295aa78e56c7a09a864f2f4175100095f3e7b9ef2a911af87cb0f3f7eef27700,
    0x517032a796b0340dc5f9df28b1fd320daba24d5a45335a137167300ee368828,
    0x15fadf4947d2a40c7b439e83ea3c979ff725aad11c47aaaf892aab413db2dcdd,
    0xacb7236b6d87f4875b3b9d1720a9e0682c70e4bc6d54edf61faa2bc93841d6,
    0x9836dd9054d560ae60ea6a8033404b3e40309f6ee4d170acb92e6667e86c775,
    0x2198946b17f9ba035d7ee728741ca5f4e5875cb6afb29684a6f5f9a82feec482,
    0x15d4b16830604dbe0b3212e31f9574787c15b0f54e5e24b080687e7a6ef6d455,
    0x2d07f73e04cf0a538037ba07561651ac979bb00e1705c75ddc9516ec4b8a6a76,
    0x2f8731aea289a6b401000487e8c6925c922407eeca58f2e18cc8ad9b6c5d13f,
    0xa30053c1787c79782e60bc8d825e9e323c8a902f93aa5923c24d17d16db925c,
    0xea3058d9958ba5fe441fbd79dc968f449215ddee66146161afcf34c34bfa490,
    0x27b9937e47a65983ad50a5b7f6b9cf0542c91a8dfa1714cef89013438a06f9b7,
    0x2d347be4e547c5837c1b2172322628a0c48d668193196791b310674b0453c039,
    0x3f2461b35b892fc8c589706283d1083f4d2d66be4f97e461abaf2f06f89cffd,
    0x259b8fa0082cf6066f005a0a49006712fe1dcfef6a98d68f7ab445f88adb61a7,
    0x1980a5f7eac09daac7b2d2179ba1d970fb3f0213dd90613128f5d55863d84414,
    0x1cfcd94aabc23cacd4ccab22e87d2303200d09b03042b2047f03d2e0def57e85,
    0x102bdc81acbf8c52d35871a21ff27516ddbe6e31ef51740c49bd2ee2b1980c21,
    0x2fad84f388a263e714c7b39fb0dd24be6158b9e21480aa3a60778707889f76ad,
    0x2ace942d30becb369f1cfd025b5394d6ee4c97f55930048a18fb501128c87777,
    0x930feccbf762a6b239acee2c369de9a31bd3e232c90c64af141945c1c415463,
    0x1a59e2ba55f1e829bca2c6316a9ccd08017d2e9bf532942c26d82365ca604b58,
    0x1a8e840c84e2fb5212d61f09ad5f91d6a70a83074e942772ef74b42d12a11f50,
    0x134b50df02e2ccb98b59af2c2c55d7a41ff102681730c42ba364dbff1271cf62]"

section \<open>Hashing\<close>

text \<open>
  The arguments of the host function: the state, the field, the width, the S-box degree,
  the full and partial rounds, the diagonal of the internal matrix, the round constants.
\<close>

type_synonym permutation =
  "u256 list \<Rightarrow> string \<Rightarrow> nat \<Rightarrow> nat \<Rightarrow> nat \<Rightarrow> nat \<Rightarrow> u256 list \<Rightarrow> u256 list list \<Rightarrow> u256 list"

text \<open>The host's \<open>U256::add\<close> traps on overflow; \<open>rem_euclid\<close> is the unsigned remainder.\<close>

definition u256_add :: "u256 \<Rightarrow> u256 \<Rightarrow> ('e, u256) outcome" where
  "u256_add a b = expect (checked_add a b)"

definition poseidon2_compress :: "permutation \<Rightarrow> u256 \<Rightarrow> u256 \<Rightarrow> ('e, u256) outcome" where
  "poseidon2_compress perm left right =
     (let bn256_mod = bn256_modulus in
      if bn256_mod \<le> left \<or> bn256_mod \<le> right then Inl Panic
      else
        let out = perm [left, right] ''BN254'' 2 5 8 56 [1, 2] get_round_constants_t2 in
        andThen (expect (vec_get out 0)) (\<lambda>out_0.
        andThen (u256_add out_0 left) (\<lambda>compressed_0.
        Inr (if bn256_mod \<le> compressed_0 then compressed_0 mod bn256_mod else compressed_0))))"

definition poseidon2_hash2 :: "permutation \<Rightarrow> u256 \<Rightarrow> u256 \<Rightarrow> u256 option \<Rightarrow> ('e, u256) outcome" where
  "poseidon2_hash2 perm a b sep =
     (let bn256_mod = bn256_modulus; sep = (case sep of None \<Rightarrow> 0 | Some s \<Rightarrow> s) in
      if bn256_mod \<le> a \<or> bn256_mod \<le> b \<or> bn256_mod \<le> sep then Inl Panic
      else expect (vec_get (perm [a, b, sep] ''BN254'' 3 5 8 56 [1, 1, 2] get_round_constants_t3) 0))"

section \<open>What the hashes rely on and return\<close>

definition host_ok :: "permutation \<Rightarrow> bool" where
  "host_ok perm \<longleftrightarrow> (\<forall>st fld t d rf rp diag rc. length st = t \<longrightarrow>
     length (perm st fld t d rf rp diag rc) = t \<and> (\<forall>x \<in> set (perm st fld t d rf rp diag rc). x < bn256_modulus))"

text \<open>The compression as a function of two field elements.\<close>

definition hash_of :: "permutation \<Rightarrow> u256 \<Rightarrow> u256 \<Rightarrow> u256" where
  "hash_of perm l r =
     (let s = unat (hd (perm [l, r] ''BN254'' 2 5 8 56 [1, 2] get_round_constants_t2)) + unat l in
      word_of_nat (s mod bn_p))"

definition zero_chain :: "permutation \<Rightarrow> bool" where
  "zero_chain perm \<longleftrightarrow> (\<forall>i<32. hash_of perm (get_zeroes ! i) (get_zeroes ! i) = get_zeroes ! Suc i)"

lemma bn256_modulus_eq: "bn256_modulus = word_of_nat bn_p"
  using bn254_modulus_u256_eq
  by (simp only: bn256_modulus_def BN256_MOD_BYTES_def bn254_modulus_u256_def BN254_MODULUS_BE_def)

lemma unat_bn256_modulus [simp]: "unat bn256_modulus = bn_p"
  by (simp add: bn256_modulus_eq unat_of_nat)

lemma below_modulus: "x < bn256_modulus \<longleftrightarrow> unat x < bn_p"
  by (simp add: word_less_nat_alt)

lemma hash_of_less: "hash_of perm l r < bn256_modulus"
  by (simp add: below_modulus hash_of_def Let_def unat_of_nat)

lemma host_ok_two:
  assumes "host_ok perm"
  obtains a b where "perm [l, r] fld 2 d rf rp diag rc = [a, b]" "unat a < bn_p"
proof -
  have "length (perm [l, r] fld 2 d rf rp diag rc) = 2"
    "\<forall>x \<in> set (perm [l, r] fld 2 d rf rp diag rc). x < bn256_modulus"
    using assms [unfolded host_ok_def, rule_format, of "[l, r]" 2] by auto
  then show thesis using that
    by (cases "perm [l, r] fld 2 d rf rp diag rc" rule: remdups_adj.cases) (auto simp: below_modulus)
qed

lemma compress_ok:
  assumes "host_ok perm" "l < bn256_modulus" "r < bn256_modulus"
  shows "poseidon2_compress perm l r = Inr (hash_of perm l r)"
proof -
  obtain a b where out: "perm [l, r] ''BN254'' 2 5 8 56 [1, 2] get_round_constants_t2 = [a, b]" "unat a < bn_p"
    using host_ok_two [OF assms(1)] by metis
  have "unat a + unat l < 2 * bn_p" using out(2) assms(2) by (simp add: below_modulus)
  then have small: "unat a + unat l < 2 ^ 256" by simp
  then have add: "checked_add a l = Some (a + l)" "unat (a + l) = unat a + unat l"
    by (simp_all add: checked_add_unat unat_word_ariths)
  then show ?thesis using assms(2,3) out(1)
    by (auto simp: poseidon2_compress_def hash_of_def vec_get_def u256_add_def Let_def word_le_nat_alt
        word_less_nat_alt word_unat_eq_iff unat_of_nat unat_mod)
qed

lemma compress_panic:
  "\<not> (l < bn256_modulus \<and> r < bn256_modulus) \<Longrightarrow> poseidon2_compress perm l r = Inl Panic"
  by (auto simp: poseidon2_compress_def Let_def)

lemma length_get_zeroes [simp]: "length get_zeroes = 33"
  by (simp add: get_zeroes_def)

lemma unat_numeral_small:
  "(numeral n :: nat) < 2 ^ LENGTH('w) \<Longrightarrow> unat (numeral n :: 'w::len word) = numeral n"
  by (subst unat_numeral) simp

lemma unat_numeral_u256:
  "(numeral n :: nat) < 115792089237316195423570985008687907853269984665640564039457584007913129639936 \<Longrightarrow>
    unat (numeral n :: u256) = numeral n"
  by (rule unat_numeral_small) simp

lemmas numeral_u256_simps = unat_numeral_u256 rel_simps list.map list.set ball_simps simp_thms

lemma get_zeroes_less_all: "\<forall>z \<in> set get_zeroes. z < bn256_modulus"
  by (simp only: get_zeroes_def below_modulus numeral_u256_simps)

lemma get_zeroes_less: "i < 33 \<Longrightarrow> get_zeroes ! i < bn256_modulus"
  using get_zeroes_less_all by simp

section \<open>A permutation for runs\<close>

text \<open>
  A permutation that keeps \<open>host_ok\<close> and \<open>zero_chain\<close>, for the concrete runs. It is no
  model of the host's function; the theorems hold for every permutation with the two laws.
\<close>

definition run_perm :: permutation where
  "run_perm st fld t d rf rp diag rc =
     (case st of
        [a, b] \<Rightarrow>
          [(case map_of (zip (butlast get_zeroes) (tl get_zeroes)) a of
              Some z \<Rightarrow> if a = b then word_of_nat ((unat z + (bn_p - unat a)) mod bn_p)
                        else word_of_nat ((3 * unat b + 7) mod bn_p)
            | None \<Rightarrow> word_of_nat ((3 * unat b + 7) mod bn_p)), 0]
      | [a, b, c] \<Rightarrow> [word_of_nat ((unat a + 5 * unat b + 11 * unat c + 13) mod bn_p), 0, 0]
      | _ \<Rightarrow> map (\<lambda>_. 0) st)"

lemma run_perm_ok: "host_ok run_perm"
  unfolding host_ok_def
  by (auto simp: run_perm_def below_modulus unat_of_nat split: list.splits option.splits)

lemma distinct_get_zeroes: "distinct get_zeroes"
proof -
  have "distinct (map unat get_zeroes)"
    by (simp only: get_zeroes_def numeral_u256_simps distinct.simps insert_iff empty_iff)
  then show ?thesis by (simp add: distinct_map)
qed

lemma get_zeroes_next:
  assumes "i < 32"
  shows "map_of (zip (butlast get_zeroes) (tl get_zeroes)) (get_zeroes ! i) = Some (get_zeroes ! Suc i)"
proof -
  have "map_of (zip (butlast get_zeroes) (tl get_zeroes)) (butlast get_zeroes ! i) = Some (tl get_zeroes ! i)"
    using assms distinct_get_zeroes by (intro map_of_zip_nth) (simp_all add: distinct_butlast)
  then show ?thesis using assms by (simp add: nth_butlast nth_tl)
qed

lemma run_perm_zeroes: "zero_chain run_perm"
  unfolding zero_chain_def
proof (intro allI impI)
  fix i :: nat assume i: "i < 32"
  have "unat (get_zeroes ! i) < bn_p" "unat (get_zeroes ! Suc i) < bn_p"
    using get_zeroes_less [of i] get_zeroes_less [of "Suc i"] i by (simp_all add: below_modulus)
  then show "hash_of run_perm (get_zeroes ! i) (get_zeroes ! i) = get_zeroes ! Suc i"
    by (simp add: hash_of_def run_perm_def get_zeroes_next [OF i] unat_of_nat mod_simps word_unat_eq_iff)
qed

end
