(* ===== verification/Frontier.thy ===== *)
theory Frontier imports Poseidon begin

text \<open>
  Binary Merkle trees filled from the left. The specification is the whole tree over the
  leaves inserted so far (\<open>node\<close>, \<open>merkle_root\<close>), missing leaves being the empty leaf. The
  contracts keep only its frontier: for each level the last complete left subtree. The
  locale \<open>path_loop\<close> states what the insertion loops of the two contracts have in common and
  proves once that walking the path of a new block of leaves yields the root of the tree
  with these leaves, and its frontier.
\<close>

section \<open>The tree over a list of leaves\<close>

fun node :: "('a \<Rightarrow> 'a \<Rightarrow> 'a) \<Rightarrow> 'a \<Rightarrow> 'a list \<Rightarrow> nat \<Rightarrow> nat \<Rightarrow> 'a" where
  "node H z ls 0 i = (if i < length ls then ls ! i else z)"
| "node H z ls (Suc l) i = H (node H z ls l (2 * i)) (node H z ls l (2 * i + 1))"

definition merkle_root :: "('a \<Rightarrow> 'a \<Rightarrow> 'a) \<Rightarrow> 'a \<Rightarrow> 'a list \<Rightarrow> nat \<Rightarrow> 'a" where
  "merkle_root H z ls L = node H z ls L 0"

fun zero_at :: "('a \<Rightarrow> 'a \<Rightarrow> 'a) \<Rightarrow> 'a \<Rightarrow> nat \<Rightarrow> 'a" where
  "zero_at H z 0 = z"
| "zero_at H z (Suc l) = H (zero_at H z l) (zero_at H z l)"

lemma node_empty: "length ls \<le> i * 2 ^ l \<Longrightarrow> node H z ls l i = zero_at H z l"
  by (induction l arbitrary: i) (simp_all add: algebra_simps)

lemma node_append: "(i + 1) * 2 ^ l \<le> length ls \<Longrightarrow> node H z (ls @ xs) l i = node H z ls l i"
proof (induction l arbitrary: i)
  case 0
  then show ?case by (simp add: nth_append)
next
  case (Suc l)
  have "(2 * i + 1 + 1) * 2 ^ l \<le> length ls" "(2 * i + 1) * 2 ^ l \<le> length ls"
    using Suc.prems by (simp_all add: algebra_simps)
  then show ?case using Suc.IH by simp
qed

lemma node_pred:
  assumes "P z" "\<And>a b. P (H a b)" "\<forall>x \<in> set ls. P x"
  shows "P (node H z ls l i)"
  using assms by (cases l) auto

lemma merkle_root_empty: "merkle_root H z [] L = zero_at H z L"
  by (simp add: merkle_root_def node_empty)

section \<open>The frontier\<close>

definition frontier :: "('a \<Rightarrow> 'a \<Rightarrow> 'a) \<Rightarrow> 'a \<Rightarrow> 'a list \<Rightarrow> nat \<Rightarrow> (nat \<Rightarrow> 'a option) \<Rightarrow> bool" where
  "frontier H z ls L filled \<longleftrightarrow>
     (\<forall>l<L. odd (length ls div 2 ^ l) \<longrightarrow> filled l = Some (node H z ls l (length ls div 2 ^ l - 1)))"

lemma frontier_empty [simp]: "frontier H z [] L filled"
  by (simp add: frontier_def)

text \<open>Index arithmetic: a block of \<open>2 ^ s\<close> leaves appended at an index it divides.\<close>

lemma block_bound:
  fixes n :: nat
  assumes "2 ^ s dvd n" "s \<le> l"
  shows "n + 2 ^ s \<le> (n div 2 ^ l + 1) * 2 ^ l"
proof -
  obtain q where q: "n = 2 ^ s * q" using assms(1) by (elim dvdE)
  have pow: "(2::nat) ^ l = 2 ^ s * 2 ^ (l - s)" using assms(2) by (simp flip: power_add)
  have "n div 2 ^ l = q div 2 ^ (l - s)" by (simp add: q pow)
  moreover have "q + 1 \<le> (q div 2 ^ (l - s) + 1) * 2 ^ (l - s)"
    by (metis Suc_eq_plus1 Suc_leI dividend_less_div_times mult.commute mult_Suc_right add.commute zero_less_numeral zero_less_power mult_Suc)
  then have "2 ^ s * (q + 1) \<le> 2 ^ s * ((q div 2 ^ (l - s) + 1) * 2 ^ (l - s))" by (rule mult_le_mono2)
  ultimately show ?thesis by (simp add: q pow algebra_simps)
qed

lemma block_div:
  fixes n :: nat
  assumes "2 ^ s dvd n" "s \<le> l"
  shows "(n + 2 ^ s) div 2 ^ l = n div 2 ^ l \<or> (n + 2 ^ s) div 2 ^ l = n div 2 ^ l + 1"
proof -
  have "n div 2 ^ l \<le> (n + 2 ^ s) div 2 ^ l" by (rule div_le_mono) simp
  moreover have "(n + 2 ^ s) div 2 ^ l \<le> (n div 2 ^ l + 1) * 2 ^ l div 2 ^ l"
    using block_bound [OF assms] by (rule div_le_mono)
  ultimately show ?thesis by auto
qed

lemma block_even_below:
  fixes n :: nat
  assumes "2 ^ s dvd n" "m < s"
  shows "even ((n + 2 ^ s) div 2 ^ m)"
proof -
  from assms obtain q where q: "n = 2 ^ s * q" by (elim dvdE)
  have pow: "(2::nat) ^ s = 2 ^ m * (2 * 2 ^ (s - Suc m))"
    using assms(2) by (simp flip: power_Suc power_add)
  have "n + 2 ^ s = 2 ^ m * (2 * (2 ^ (s - Suc m) * (q + 1)))" by (simp add: q pow algebra_simps)
  then show ?thesis by simp
qed

section \<open>The loop along the path\<close>

locale path_loop =
  fixes valid :: "'env \<Rightarrow> bool"
    and fits :: "'a \<Rightarrow> bool"
    and hash :: "'env \<Rightarrow> 'a \<Rightarrow> 'a \<Rightarrow> 'a"
    and comp :: "'env \<Rightarrow> 'a \<Rightarrow> 'a \<Rightarrow> ('e, 'a) outcome"
    and run :: "'env \<Rightarrow> nat list \<Rightarrow> nat \<Rightarrow> 'a \<Rightarrow> 's \<Rightarrow> ('e, 'a \<times> 's) outcome"
    and filled :: "'s \<Rightarrow> nat \<Rightarrow> 'a option"
    and zeroes :: "'s \<Rightarrow> nat \<Rightarrow> 'a option"
    and put :: "nat \<Rightarrow> 'a \<Rightarrow> 's \<Rightarrow> 's"
    and rest :: "'s \<Rightarrow> 'r"
  assumes comp_ok: "valid env \<Longrightarrow> fits l \<Longrightarrow> fits r \<Longrightarrow> comp env l r = Inr (hash env l r)"
    and hash_fits: "valid env \<Longrightarrow> fits (hash env l r)"
    and run_Nil: "run env [] i h s = Inr (h, s)"
    and run_right: "odd i \<Longrightarrow> filled s lv = Some x \<Longrightarrow> comp env x h = Inr h' \<Longrightarrow>
      run env (lv # lvs) i h s = run env lvs (i div 2) h' s"
    and run_left: "even i \<Longrightarrow> zeroes s lv = Some x \<Longrightarrow> comp env h x = Inr h' \<Longrightarrow>
      run env (lv # lvs) i h s = run env lvs (i div 2) h' (put lv h s)"
    and filled_put: "filled (put lv h s) = (filled s)(lv \<mapsto> h)"
    and zeroes_put: "zeroes (put lv h s) = zeroes s"
    and rest_put: "rest (put lv h s) = rest s"
begin

lemma run_block:
  assumes "valid env" "fits z" "\<forall>x \<in> set (ls @ xs). fits x"
    and "2 ^ s dvd length ls" "length xs = 2 ^ s" "length ls + 2 ^ s \<le> 2 ^ L"
    and "\<forall>l<L. zeroes st l = Some (zero_at (hash env) z l)"
    and "frontier (hash env) z ls L f0" "\<forall>m. l \<le> m \<longrightarrow> filled st m = f0 m"
    and "\<forall>m<l. odd (length (ls @ xs) div 2 ^ m) \<longrightarrow>
      filled st m = Some (node (hash env) z (ls @ xs) m (length (ls @ xs) div 2 ^ m - 1))"
    and "s \<le> l" "l \<le> L"
  shows "\<exists>st'. run env [l..<L] (length ls div 2 ^ l) (node (hash env) z (ls @ xs) l (length ls div 2 ^ l)) st =
      Inr (merkle_root (hash env) z (ls @ xs) L, st') \<and>
    frontier (hash env) z (ls @ xs) L (filled st') \<and> zeroes st' = zeroes st \<and> rest st' = rest st"
  using assms
proof (induction "L - l" arbitrary: l st)
  case 0
  then have l: "l = L" by simp
  have "length ls < length ls + 2 ^ s" by simp
  also have "\<dots> \<le> 2 ^ L" by (rule "0.prems"(6))
  finally have top: "length ls div 2 ^ L = 0" by (rule div_less)
  have fr: "frontier (hash env) z (ls @ xs) L (filled st)"
    using "0.prems"(10) l unfolding frontier_def by blast
  have "run env [L..<L] 0 (node (hash env) z (ls @ xs) L 0) st = Inr (merkle_root (hash env) z (ls @ xs) L, st)"
    unfolding merkle_root_def upt_conv_Nil [OF order_refl] by (rule run_Nil)
  then show ?case unfolding l top using fr by blast
next
  case (Suc d)
  let ?H = "hash env" and ?n = "length ls" and ?ls = "ls @ xs"
  let ?i = "length ls div 2 ^ l"
  let ?cur = "node ?H z ?ls l ?i"
  have l: "l < L" "[l..<L] = l # [Suc l..<L]" "d = L - Suc l"
    using Suc.hyps(2) by (simp_all add: upt_conv_Cons)
  have fits_node: "fits (node ?H z ?ls m j)" for m j
    by (rule node_pred [where P = fits, OF Suc.prems(2) hash_fits [OF Suc.prems(1)]])
      (use Suc.prems(3) in simp)
  have up: "?n div 2 ^ Suc l = ?i div 2" by (simp only: power_Suc2 div_mult2_eq)
  have len: "length ?ls = ?n + 2 ^ s" using Suc.prems(5) by simp
  have split: "length ?ls div 2 ^ l = ?i \<or> length ?ls div 2 ^ l = ?i + 1"
    using block_div [OF Suc.prems(4,11)] len by simp
  show ?case
  proof (cases "odd ?i")
    case True
    then have "1 \<le> ?i" by (cases ?i) simp_all
    have complete: "(?i - 1 + 1) * 2 ^ l \<le> ?n"
      using \<open>1 \<le> ?i\<close> by (simp add: div_times_less_eq_dividend)
    have "filled st l = Some (node ?H z ls l (?i - 1))"
      using Suc.prems(8,9) l(1) True by (simp add: frontier_def)
    then have left: "filled st l = Some (node ?H z ?ls l (?i - 1))"
      using node_append [OF complete] by simp
    have parent: "?H (node ?H z ?ls l (?i - 1)) ?cur = node ?H z ?ls (Suc l) (?i div 2)"
    proof -
      have "2 * (?i div 2) = ?i - 1" "2 * (?i div 2) + 1 = ?i" using True by (simp_all add: odd_two_times_div_two_nat)
      then show ?thesis by simp
    qed
    have new: "filled st l = Some (node ?H z ?ls l (length ?ls div 2 ^ l - 1))" if "odd (length ?ls div 2 ^ l)"
      using that split True left by auto
    have step: "run env [l..<L] ?i ?cur st = run env [Suc l..<L] (?i div 2) (node ?H z ?ls (Suc l) (?i div 2)) st"
      using l run_right [OF True left] comp_ok [OF Suc.prems(1) fits_node fits_node] parent by simp
    have "\<exists>st'. run env [Suc l..<L] (?n div 2 ^ Suc l) (node ?H z ?ls (Suc l) (?n div 2 ^ Suc l)) st =
        Inr (merkle_root ?H z ?ls L, st') \<and>
      frontier ?H z ?ls L (filled st') \<and> zeroes st' = zeroes st \<and> rest st' = rest st"
      using Suc.prems l new by (intro Suc.hyps(1)) (auto simp: less_Suc_eq)
    then show ?thesis using step unfolding up by simp
  next
    case False
    let ?st = "put l ?cur st"
    have zero: "zeroes st l = Some (zero_at ?H z l)" using Suc.prems(7) l(1) by simp
    have "length ?ls \<le> (?i + 1) * 2 ^ l"
      using block_bound [OF Suc.prems(4,11)] len by simp
    then have empty: "node ?H z ?ls l (?i + 1) = zero_at ?H z l" by (rule node_empty)
    have parent: "?H ?cur (zero_at ?H z l) = node ?H z ?ls (Suc l) (?i div 2)"
    proof -
      have "2 * (?i div 2) = ?i" using False by simp
      then show ?thesis using empty by simp
    qed
    have fits_zero: "fits (zero_at ?H z l)" using fits_node [of l "?i + 1"] empty by simp
    have step: "run env [l..<L] ?i ?cur st = run env [Suc l..<L] (?i div 2) (node ?H z ?ls (Suc l) (?i div 2)) ?st"
      using l run_left [OF _ zero] False comp_ok [OF Suc.prems(1) fits_node fits_zero] parent by simp
    have new: "filled ?st l = Some (node ?H z ?ls l (length ?ls div 2 ^ l - 1))" if "odd (length ?ls div 2 ^ l)"
      using that split False by (auto simp: filled_put)
    have "\<exists>st'. run env [Suc l..<L] (?n div 2 ^ Suc l) (node ?H z ?ls (Suc l) (?n div 2 ^ Suc l)) ?st =
        Inr (merkle_root ?H z ?ls L, st') \<and>
      frontier ?H z ?ls L (filled st') \<and> zeroes st' = zeroes ?st \<and> rest st' = rest ?st"
      using Suc.prems l new by (intro Suc.hyps(1)) (auto simp: less_Suc_eq filled_put zeroes_put)
    then show ?thesis using step unfolding up by (simp add: zeroes_put rest_put)
  qed
qed

text \<open>Inserting a block: the loop starts at its level, on the frontier of the leaves before it.\<close>

lemma run_insert:
  assumes "valid env" "fits z" "\<forall>x \<in> set (ls @ xs). fits x"
    and "2 ^ s dvd length ls" "length xs = 2 ^ s" "length ls + 2 ^ s \<le> 2 ^ L" "s \<le> L"
    and "\<forall>l<L. zeroes st l = Some (zero_at (hash env) z l)" "frontier (hash env) z ls L (filled st)"
  shows "\<exists>st'. run env [s..<L] (length ls div 2 ^ s) (node (hash env) z (ls @ xs) s (length ls div 2 ^ s)) st =
      Inr (merkle_root (hash env) z (ls @ xs) L, st') \<and>
    frontier (hash env) z (ls @ xs) L (filled st') \<and> zeroes st' = zeroes st \<and> rest st' = rest st"
  using assms block_even_below [OF assms(4)] by (intro run_block) auto

end

section \<open>Trees of field elements\<close>

text \<open>The trees of the contracts: the empty leaf is the first of the precomputed hashes.\<close>

abbreviation zero_leaf :: u256 where "zero_leaf \<equiv> get_zeroes ! 0"

lemma zero_at_zeroes: "zero_chain perm \<Longrightarrow> l \<le> 32 \<Longrightarrow> zero_at (hash_of perm) zero_leaf l = get_zeroes ! l"
  by (induction l) (simp_all add: zero_chain_def)

definition tree_root :: "permutation \<Rightarrow> u256 list \<Rightarrow> nat \<Rightarrow> u256" where
  "tree_root perm leaves levels = merkle_root (hash_of perm) zero_leaf leaves levels"

definition poseidon_ok :: "permutation \<Rightarrow> bool" where
  "poseidon_ok perm \<longleftrightarrow> host_ok perm \<and> zero_chain perm"

lemma run_perm_poseidon_ok: "poseidon_ok run_perm"
  by (simp add: poseidon_ok_def run_perm_ok run_perm_zeroes)

end
