(* ===== verification/Host.thy ===== *)
theory Host imports Prelude begin

text \<open>
  What the contracts use of the Soroban host besides storage and arithmetic: addresses and
  their authorization. An invocation carries the set of addresses that authorized it;
  \<open>require_auth\<close> traps when the address is not among them. The admin update shared by the
  contracts is \<^verbatim>\<open>contracts/soroban-utils/src/utils.rs\<close>.
\<close>

datatype address = Address nat

type_synonym auths = "address \<Rightarrow> bool"

definition require_auth :: "auths \<Rightarrow> address \<Rightarrow> ('e, unit) outcome" where
  "require_auth auth a = (if auth a then Inr () else Inl Panic)"

text \<open>The value stored under the admin key, before and after.\<close>

definition update_admin :: "auths \<Rightarrow> address option \<Rightarrow> address \<Rightarrow> ('e, address option) outcome" where
  "update_admin auth stored new_admin =
     andThen (expect stored) (\<lambda>admin.
     andThen (require_auth auth admin) (\<lambda>_.
     Inr (Some new_admin)))"

lemma require_auth_simps [simp]:
  "auth a \<Longrightarrow> require_auth auth a = Inr ()"
  "\<not> auth a \<Longrightarrow> require_auth auth a = Inl Panic"
  by (simp_all add: require_auth_def)

lemma require_auth_Inr [res_simps]: "require_auth auth a = Inr u \<longleftrightarrow> auth a"
  by (simp add: require_auth_def)

lemma update_admin_Inr [res_simps]:
  "update_admin auth stored new_admin = Inr x \<longleftrightarrow> (\<exists>a. stored = Some a \<and> auth a) \<and> x = Some new_admin"
  by (auto simp: update_admin_def andThen_Inr expect_Inr require_auth_Inr)

section \<open>Operations reserved to an administrator\<close>

text \<open>
  A sequence of invocations of one operation: a failed one leaves the storage as it was. The
  contract of an operation reserved to the stored administrator is that it succeeds only with
  that address among the authorizations.
\<close>

fun attempts :: "(auths \<Rightarrow> 'x \<Rightarrow> 's \<Rightarrow> ('e, 's) outcome) \<Rightarrow> (auths \<times> 'x) list \<Rightarrow> 's \<Rightarrow> 's" where
  "attempts op [] st = st"
| "attempts op ((auth, x) # cs) st = attempts op cs (case op auth x st of Inr st' \<Rightarrow> st' | Inl _ \<Rightarrow> st)"

locale admin_gate =
  fixes admin_of :: "'s \<Rightarrow> address option"
    and op :: "auths \<Rightarrow> 'x \<Rightarrow> 's \<Rightarrow> ('e, 's) outcome"
  assumes needs_admin: "op auth x st = Inr st' \<Longrightarrow> \<exists>a. admin_of st = Some a \<and> auth a"
begin

lemma refused: "admin_of st = Some a \<Longrightarrow> \<not> auth a \<Longrightarrow> \<exists>e. op auth x st = Inl e"
  using needs_admin [of auth x st] by (cases "op auth x st") auto

lemma attempts_refused:
  assumes "admin_of st = Some a" "\<forall>(auth, x) \<in> set cs. \<not> auth a"
  shows "attempts op cs st = st"
  using assms
proof (induction cs)
  case (Cons c cs)
  obtain auth x where c: "c = (auth, x)" by (cases c)
  then obtain e where "op auth x st = Inl e" using Cons.prems refused by fastforce
  then show ?case using Cons c by simp
qed simp

end

end
