(* ===== verification/AspMembership.thy ===== *)
theory AspMembership imports Frontier Host begin

text \<open>
  The membership contract of an association set provider, from
  \<^verbatim>\<open>contracts/asp-membership/src/lib.rs\<close>: an append-only tree of members filled one leaf
  at a time, with an administrator and a switch that opens insertion to everyone. Storage
  is a record with one field for each key. A failed call rolls back, so an error carries no
  state; the published event is part of the value a call returns.
\<close>

section \<open>Storage\<close>

datatype asp_error =
    Asp_NotAuthorized
  | Asp_MerkleTreeFull
  | Asp_WrongLevels
  | Asp_NotInitialized
  | Asp_Overflow

record asp_store =
  as_admin :: "address option"
  as_filled_subtrees :: "nat \<Rightarrow> u256 option"
  as_zeroes :: "nat \<Rightarrow> u256 option"
  as_levels :: "nat option"
  as_next_index :: "nat option"
  as_root :: "u256 option"
  as_admin_insert_only :: "bool option"

record leaf_added_event =
  la_leaf :: u256
  la_index :: nat
  la_root :: u256

definition asp_empty :: asp_store where
  "asp_empty = \<lparr>as_admin = None, as_filled_subtrees = Map.empty, as_zeroes = Map.empty, as_levels = None,
     as_next_index = None, as_root = None, as_admin_insert_only = None\<rparr>"

section \<open>Operations\<close>

fun asp_init_loop :: "u256 list \<Rightarrow> nat list \<Rightarrow> asp_store \<Rightarrow> (asp_error, asp_store) outcome" where
  "asp_init_loop zeros [] st = Inr st"
| "asp_init_loop zeros (lvl # lvls) st =
     andThen (ok_or Asp_NotInitialized (vec_get zeros lvl)) (\<lambda>zero_val.
     asp_init_loop zeros lvls
       (st\<lparr>as_filled_subtrees := (as_filled_subtrees st)(lvl \<mapsto> zero_val),
           as_zeroes := (as_zeroes st)(lvl \<mapsto> zero_val)\<rparr>))"

definition asp_constructor :: "address \<Rightarrow> nat \<Rightarrow> asp_store \<Rightarrow> (asp_error, asp_store) outcome" where
  "asp_constructor admin levels st =
     (if levels = 0 \<or> 32 < levels then Inl (Fail Asp_WrongLevels)
      else
        let st = st\<lparr>as_admin := Some admin, as_levels := Some levels, as_next_index := Some 0,
                    as_admin_insert_only := Some True\<rparr>;
            zeros = get_zeroes in
        andThen (asp_init_loop zeros [0..<Suc levels] st) (\<lambda>st.
        andThen (ok_or Asp_NotInitialized (vec_get zeros levels)) (\<lambda>root_val.
        Inr (st\<lparr>as_root := Some root_val\<rparr>))))"

definition asp_update_admin :: "auths \<Rightarrow> address \<Rightarrow> asp_store \<Rightarrow> (asp_error, asp_store) outcome" where
  "asp_update_admin auth new_admin st =
     (if as_admin st = None then Inl (Fail Asp_NotInitialized)
      else andThen (update_admin auth (as_admin st) new_admin) (\<lambda>admin. Inr (st\<lparr>as_admin := admin\<rparr>)))"

definition asp_set_admin_insert_only :: "auths \<Rightarrow> bool \<Rightarrow> asp_store \<Rightarrow> (asp_error, asp_store) outcome" where
  "asp_set_admin_insert_only auth admin_only st =
     andThen (ok_or Asp_NotInitialized (as_admin st)) (\<lambda>admin.
     andThen (require_auth auth admin) (\<lambda>_.
     Inr (st\<lparr>as_admin_insert_only := Some admin_only\<rparr>)))"

definition asp_get_root :: "asp_store \<Rightarrow> (asp_error, u256) outcome" where
  "asp_get_root st = ok_or Asp_NotInitialized (as_root st)"

definition asp_hash_pair :: "permutation \<Rightarrow> u256 \<Rightarrow> u256 \<Rightarrow> (asp_error, u256) outcome" where
  "asp_hash_pair perm left right = poseidon2_compress perm left right"

text \<open>The loop \<open>for lvl in 0..levels\<close>.\<close>

fun asp_path ::
  "permutation \<Rightarrow> nat list \<Rightarrow> nat \<Rightarrow> u256 \<Rightarrow> asp_store \<Rightarrow> (asp_error, u256 \<times> asp_store) outcome" where
  "asp_path perm [] current_index current_hash st = Inr (current_hash, st)"
| "asp_path perm (lvl # lvls) current_index current_hash st =
     (if odd current_index then
        andThen (ok_or Asp_NotInitialized (as_filled_subtrees st lvl)) (\<lambda>left.
        andThen (poseidon2_compress perm left current_hash) (\<lambda>h.
        asp_path perm lvls (current_index div 2) h st))
      else
        let st = st\<lparr>as_filled_subtrees := (as_filled_subtrees st)(lvl \<mapsto> current_hash)\<rparr> in
        andThen (ok_or Asp_NotInitialized (as_zeroes st lvl)) (\<lambda>zero_val.
        andThen (poseidon2_compress perm current_hash zero_val) (\<lambda>h.
        asp_path perm lvls (current_index div 2) h st)))"

definition asp_insert_leaf ::
  "permutation \<Rightarrow> auths \<Rightarrow> u256 \<Rightarrow> asp_store \<Rightarrow> (asp_error, leaf_added_event \<times> asp_store) outcome" where
  "asp_insert_leaf perm auth leaf st =
     andThen (if (case as_admin_insert_only st of None \<Rightarrow> True | Some b \<Rightarrow> b)
              then andThen (ok_or Asp_NotInitialized (as_admin st)) (require_auth auth)
              else Inr ()) (\<lambda>_.
     andThen (ok_or Asp_NotInitialized (as_levels st)) (\<lambda>levels.
     andThen (ok_or Asp_NotInitialized (as_next_index st)) (\<lambda>actual_index.
     andThen (ok_or Asp_MerkleTreeFull (nat_checked_shl 64 1 levels)) (\<lambda>capacity.
     andThen (guard (\<not> capacity \<le> actual_index) Asp_MerkleTreeFull) (\<lambda>_.
     andThen (asp_path perm [0..<levels] actual_index leaf st) (\<lambda>(current_hash, st).
     let st = st\<lparr>as_root := Some current_hash\<rparr>;
         event = \<lparr>la_leaf = leaf, la_index = actual_index, la_root = current_hash\<rparr> in
     andThen (ok_or Asp_Overflow (nat_checked_add 64 actual_index 1)) (\<lambda>n.
     Inr (event, st\<lparr>as_next_index := Some n\<rparr>))))))))"

section \<open>The loop of the contract\<close>

definition asp_rest ::
  "asp_store \<Rightarrow> address option \<times> nat option \<times> nat option \<times> u256 option \<times> bool option" where
  "asp_rest st = (as_admin st, as_levels st, as_next_index st, as_root st, as_admin_insert_only st)"

interpretation asp_path: path_loop poseidon_ok "\<lambda>x. x < bn256_modulus" hash_of poseidon2_compress
  asp_path as_filled_subtrees as_zeroes
  "\<lambda>lv h st. st\<lparr>as_filled_subtrees := (as_filled_subtrees st)(lv \<mapsto> h)\<rparr>" asp_rest
  by unfold_locales (simp_all add: poseidon_ok_def compress_ok hash_of_less asp_rest_def)

section \<open>The tree of the contract\<close>

definition asp_ok :: "permutation \<Rightarrow> nat \<Rightarrow> u256 list \<Rightarrow> asp_store \<Rightarrow> bool" where
  "asp_ok perm levels leaves st \<longleftrightarrow>
     1 \<le> levels \<and> levels \<le> 32 \<and> as_levels st = Some levels \<and> as_admin st \<noteq> None \<and>
     length leaves \<le> 2 ^ levels \<and> as_next_index st = Some (length leaves) \<and>
     (\<forall>x \<in> set leaves. x < bn256_modulus) \<and>
     (\<forall>l \<le> levels. as_zeroes st l = Some (get_zeroes ! l)) \<and>
     frontier (hash_of perm) zero_leaf leaves levels (as_filled_subtrees st) \<and>
     as_root st = Some (tree_root perm leaves levels)"

lemma asp_init_loop_ok:
  assumes "\<forall>i \<in> set is. i < length zeros"
  shows "asp_init_loop zeros is st = Inr (st\<lparr>
    as_filled_subtrees := (\<lambda>i. if i \<in> set is then Some (zeros ! i) else as_filled_subtrees st i),
    as_zeroes := (\<lambda>i. if i \<in> set is then Some (zeros ! i) else as_zeroes st i)\<rparr>)"
  using assms
proof (induction zeros "is" st rule: asp_init_loop.induct)
  case (2 zeros i "is" st)
  have "vec_get zeros i = Some (zeros ! i)" using "2.prems" by (simp add: vec_get_Some)
  then show ?case using 2 by (auto simp: fun_eq_iff intro!: asp_store.equality)
qed simp

lemma asp_constructor_ok:
  assumes "zero_chain perm" "1 \<le> levels" "levels \<le> 32"
  shows "\<exists>st. asp_constructor admin levels asp_empty = Inr st \<and> asp_ok perm levels [] st \<and>
    as_admin st = Some admin \<and> as_admin_insert_only st = Some True"
proof -
  have "vec_get get_zeroes levels = Some (get_zeroes ! levels)" using assms(3) by (simp add: vec_get_Some)
  then show ?thesis using assms asp_init_loop_ok [of "[0..<Suc levels]" get_zeroes]
    by (simp add: asp_constructor_def asp_empty_def asp_ok_def tree_root_def
        merkle_root_empty zero_at_zeroes Let_def)
qed

text \<open>Whether the caller may insert.\<close>

definition may_insert :: "auths \<Rightarrow> asp_store \<Rightarrow> bool" where
  "may_insert auth st \<longleftrightarrow> as_admin_insert_only st = Some False \<or> (\<exists>a. as_admin st = Some a \<and> auth a)"

lemma asp_insert_ok:
  assumes "poseidon_ok perm" "asp_ok perm levels leaves st" "may_insert auth st" "leaf < bn256_modulus"
  shows "if length leaves < 2 ^ levels
    then \<exists>st'. asp_insert_leaf perm auth leaf st = Inr (\<lparr>la_leaf = leaf, la_index = length leaves,
        la_root = tree_root perm (leaves @ [leaf]) levels\<rparr>, st') \<and>
      asp_ok perm levels (leaves @ [leaf]) st' \<and> as_admin st' = as_admin st \<and>
      as_admin_insert_only st' = as_admin_insert_only st
    else asp_insert_leaf perm auth leaf st = Inl (Fail Asp_MerkleTreeFull)"
proof -
  let ?n = "length leaves" and ?ls = "leaves @ [leaf]"
  have ok: "1 \<le> levels" "levels \<le> 32" "as_levels st = Some levels" "?n \<le> 2 ^ levels"
    "as_next_index st = Some ?n" "\<forall>x \<in> set leaves. x < bn256_modulus"
    "\<forall>l \<le> levels. as_zeroes st l = Some (get_zeroes ! l)"
    "frontier (hash_of perm) zero_leaf leaves levels (as_filled_subtrees st)"
    using assms(2) by (simp_all add: asp_ok_def)
  have cap: "(2::nat) ^ levels \<le> 2 ^ 32" using ok(2) by (rule power_increasing) simp
  have shl: "nat_checked_shl 64 1 levels = Some (2 ^ levels)"
    using ok(2) cap by (simp add: nat_checked_shl_Some)
  have add1: "nat_checked_add 64 ?n 1 = Some (Suc ?n)"
    using ok(4) cap by (simp add: nat_checked_add_Some)
  have may: "(if (case as_admin_insert_only st of None \<Rightarrow> True | Some b \<Rightarrow> b)
      then andThen (ok_or Asp_NotInitialized (as_admin st)) (require_auth auth) else Inr ()) = Inr ()"
    using assms(3) by (auto simp: may_insert_def split: option.splits)
  show ?thesis
  proof (cases "?n < 2 ^ levels")
    case False
    then show ?thesis using ok(3,5) shl may by (simp add: asp_insert_leaf_def)
  next
    case True
    have zero: "\<forall>l<levels. as_zeroes st l = Some (zero_at (hash_of perm) zero_leaf l)"
      using ok(2,7) assms(1) by (simp add: zero_at_zeroes poseidon_ok_def)
    have "2 ^ 0 dvd ?n" "length [leaf] = 2 ^ 0" "?n + 2 ^ 0 \<le> 2 ^ levels"
      "\<forall>x \<in> set ?ls. x < bn256_modulus" "zero_leaf < bn256_modulus"
      using ok(6) True assms(4) get_zeroes_less [of 0] by auto
    from asp_path.run_insert [OF assms(1) this(5,4,1,2,3) le0 zero ok(8)] obtain st' where
      path: "asp_path perm [0..<levels] (?n div 2 ^ 0) (node (hash_of perm) zero_leaf ?ls 0 (?n div 2 ^ 0)) st =
        Inr (tree_root perm ?ls levels, st')"
      and fr: "frontier (hash_of perm) zero_leaf ?ls levels (as_filled_subtrees st')"
      and same: "as_zeroes st' = as_zeroes st" "asp_rest st' = asp_rest st"
      by (auto simp: tree_root_def)
    have path': "asp_path perm [0..<levels] ?n leaf st = Inr (tree_root perm ?ls levels, st')"
      using path by simp
    let ?st = "st'\<lparr>as_root := Some (tree_root perm ?ls levels), as_next_index := Some (Suc ?n)\<rparr>"
    have ins: "asp_insert_leaf perm auth leaf st =
        Inr (\<lparr>la_leaf = leaf, la_index = ?n, la_root = tree_root perm ?ls levels\<rparr>, ?st)"
      using ok(3,5) shl add1 may True path' by (simp add: asp_insert_leaf_def Let_def)
    have "asp_ok perm levels ?ls ?st"
      using assms(2,4) same fr True by (auto simp: asp_ok_def asp_rest_def)
    then show ?thesis using ins True same by (auto simp: asp_rest_def)
  qed
qed

lemma asp_insert_refused: "\<not> may_insert auth st \<Longrightarrow> as_admin st \<noteq> None \<Longrightarrow> asp_insert_leaf perm auth leaf st = Inl Panic"
  by (auto simp: asp_insert_leaf_def may_insert_def split: option.splits)

section \<open>Reachable contracts\<close>

lemma asp_path_fits:
  assumes "asp_path perm (lv # lvs) i h st = Inr r"
  shows "h < bn256_modulus"
  using assms compress_panic [of _ h perm, where ?'a = asp_error] compress_panic [of h _ perm, where ?'a = asp_error]
  by (cases "h < bn256_modulus") (auto simp: andThen_Inr Let_def split: if_splits)

lemma asp_insert_Inr:
  assumes "asp_insert_leaf perm auth leaf st = Inr r" "asp_ok perm levels leaves st"
  shows "leaf < bn256_modulus \<and> may_insert auth st"
proof -
  have lv: "[0..<levels] = 0 # [1..<levels]" "as_levels st = Some levels"
    using assms(2) by (simp_all add: asp_ok_def upt_conv_Cons)
  then obtain i r' where "asp_path perm (0 # [1..<levels]) i leaf st = Inr r'"
    using assms(1) by (auto simp: asp_insert_leaf_def andThen_Inr ok_or_Inr)
  then have "leaf < bn256_modulus" by (rule asp_path_fits)
  moreover have "may_insert auth st"
    using assms(1) by (auto simp: asp_insert_leaf_def may_insert_def andThen_Inr ok_or_Inr require_auth_Inr
        split: if_splits option.splits)
  ultimately show ?thesis ..
qed

text \<open>The contract after its construction and any sequence of calls that returned; each call has its own authorizations.\<close>

inductive asp_reach :: "permutation \<Rightarrow> address \<Rightarrow> nat \<Rightarrow> u256 list \<Rightarrow> asp_store \<Rightarrow> bool" for perm admin levels where
  start: "asp_constructor admin levels asp_empty = Inr st \<Longrightarrow> asp_reach perm admin levels [] st"
| insert: "asp_reach perm admin levels leaves st \<Longrightarrow> asp_insert_leaf perm auth leaf st = Inr (event, st') \<Longrightarrow>
    asp_reach perm admin levels (leaves @ [leaf]) st'"
| update: "asp_reach perm admin levels leaves st \<Longrightarrow> asp_update_admin auth a st = Inr st' \<Longrightarrow>
    asp_reach perm admin levels leaves st'"
| switch: "asp_reach perm admin levels leaves st \<Longrightarrow> asp_set_admin_insert_only auth b st = Inr st' \<Longrightarrow>
    asp_reach perm admin levels leaves st'"

lemma asp_reach_ok:
  assumes "asp_reach perm admin levels leaves st" "poseidon_ok perm"
  shows "asp_ok perm levels leaves st"
  using assms
proof induction
  case (start st)
  then have "1 \<le> levels" "levels \<le> 32" by (auto simp: asp_constructor_def split: if_splits)
  then show ?case using asp_constructor_ok [of perm levels admin] start by (auto simp: poseidon_ok_def)
next
  case (insert leaves st auth leaf event st')
  then show ?case
    using asp_insert_ok [of perm levels leaves st auth leaf] asp_insert_Inr [OF insert.hyps(2)]
    by (auto split: if_splits)
next
  case (update leaves st auth a st')
  then have "asp_ok perm levels leaves st" "\<exists>x. st' = st\<lparr>as_admin := Some x\<rparr>"
    by (auto simp: asp_update_admin_def andThen_Inr update_admin_Inr split: if_splits)
  then show ?case by (auto simp: asp_ok_def)
next
  case (switch leaves st auth b st')
  then have "asp_ok perm levels leaves st" "st' = st\<lparr>as_admin_insert_only := Some b\<rparr>"
    by (auto simp: asp_set_admin_insert_only_def andThen_Inr)
  then show ?case by (auto simp: asp_ok_def)
qed

section \<open>Properties\<close>

text \<open>
  Property C24: whatever calls were made, the stored root is the root of the whole tree over the members
  inserted so far, in order; changes of the administrator or of the switch leave it alone.
\<close>

theorem asp_root_correct:
  assumes "poseidon_ok perm" "asp_reach perm admin levels leaves st"
  shows "asp_get_root st = Inr (tree_root perm leaves levels)"
  using asp_reach_ok [OF assms(2,1)] by (simp add: asp_get_root_def asp_ok_def)

text \<open>
  Property C25: an invocation without the stored administrator's authorization cannot change the
  administrator or the switch, and inserts only where the switch is open; with it, both changes
  take effect and touch nothing else.
\<close>

theorem asp_access_control:
  assumes "as_admin st = Some a"
  shows "(if auth a
    then asp_update_admin auth new st = Inr (st\<lparr>as_admin := Some new\<rparr>) \<and>
      asp_set_admin_insert_only auth b st = Inr (st\<lparr>as_admin_insert_only := Some b\<rparr>)
    else asp_update_admin auth new st = Inl Panic \<and> asp_set_admin_insert_only auth b st = Inl Panic \<and>
      (as_admin_insert_only st \<noteq> Some False \<longrightarrow> asp_insert_leaf perm auth leaf st = Inl Panic))"
  using assms asp_insert_refused [of auth st perm leaf]
  by (simp add: asp_update_admin_def asp_set_admin_insert_only_def update_admin_def may_insert_def)

text \<open>
  A permitted insertion of a field element appends it at the next index while the tree has
  room, publishes the leaf, its index and the new root, and fails with \<open>MerkleTreeFull\<close> on a full tree.
\<close>

theorem asp_insert_outcome:
  assumes "poseidon_ok perm" "asp_reach perm admin levels leaves st" "may_insert auth st" "leaf < bn256_modulus"
  shows "if length leaves < 2 ^ levels
    then \<exists>st'. asp_insert_leaf perm auth leaf st = Inr (\<lparr>la_leaf = leaf, la_index = length leaves,
        la_root = tree_root perm (leaves @ [leaf]) levels\<rparr>, st') \<and> asp_reach perm admin levels (leaves @ [leaf]) st'
    else asp_insert_leaf perm auth leaf st = Inl (Fail Asp_MerkleTreeFull)"
  using asp_insert_ok [OF assms(1) asp_reach_ok [OF assms(2,1)] assms(3,4)] asp_reach.insert [OF assms(2)]
  by (auto split: if_splits)

section \<open>Runs\<close>

lemma run_asp_start:
  "\<exists>st. asp_reach run_perm (Address 1) 2 [] st \<and> as_admin st = Some (Address 1) \<and>
    may_insert (\<lambda>a. a = Address 1) st"
  using asp_constructor_ok [OF run_perm_zeroes, of 2 "Address 1"] asp_reach.start [of "Address 1" 2 _ run_perm]
  by (auto simp: may_insert_def)

lemma run_asp: "\<exists>st. asp_reach run_perm (Address 1) 2 [9] st \<and> as_admin st = Some (Address 1)"
proof -
  obtain st0 where st0: "asp_reach run_perm (Address 1) 2 [] st0" "as_admin st0 = Some (Address 1)"
    "may_insert (\<lambda>a. a = Address 1) st0"
    using run_asp_start by blast
  have "(9 :: u256) < bn256_modulus" by (simp add: below_modulus)
  from asp_insert_ok [OF run_perm_poseidon_ok asp_reach_ok [OF st0(1) run_perm_poseidon_ok] st0(3) this]
  show ?thesis using asp_reach.insert [OF st0(1)] st0(2) by fastforce
qed

theorem asp_root_correct_witness:
  "\<exists>st. asp_reach run_perm (Address 1) 2 [9] st \<and> asp_get_root st = Inr (tree_root run_perm [9] 2)"
  using run_asp asp_root_correct [OF run_perm_poseidon_ok] by blast

theorem asp_access_control_witness:
  "\<exists>st. asp_reach run_perm (Address 1) 2 [9] st \<and> asp_update_admin (\<lambda>a. a = Address 2) (Address 2) st = Inl Panic"
proof -
  obtain st where st: "asp_reach run_perm (Address 1) 2 [9] st" "as_admin st = Some (Address 1)" using run_asp by blast
  show ?thesis
    using asp_access_control [OF st(2), of "\<lambda>a. a = Address 2" "Address 2"] st by auto
qed

theorem asp_insert_outcome_witness:
  "\<exists>st st'. asp_reach run_perm (Address 1) 2 [] st \<and> asp_insert_leaf run_perm (\<lambda>a. a = Address 1) 9 st =
    Inr (\<lparr>la_leaf = 9, la_index = 0, la_root = tree_root run_perm [9] 2\<rparr>, st')"
proof -
  obtain st where st: "asp_reach run_perm (Address 1) 2 [] st" "may_insert (\<lambda>a. a = Address 1) st"
    using run_asp_start by blast
  show ?thesis
    using asp_insert_outcome [OF run_perm_poseidon_ok st, of 9] st(1) by (auto simp: below_modulus)
qed

end
