(* ===== verification/MerkleHistory.thy ===== *)
theory MerkleHistory imports Frontier begin

text \<open>
  The commitment tree of the pool, from \<^verbatim>\<open>contracts/pool/src/merkle_with_history.rs\<close>: a
  tree filled two leaves at a time and a ring buffer of its last roots. The persistent
  storage is a record with one field for each storage key; a key with an argument is a
  partial map. An error rolls the storage back, so it carries no state.
\<close>

section \<open>Storage\<close>

definition ROOT_HISTORY_SIZE :: nat where "ROOT_HISTORY_SIZE = 90"

datatype merkle_error =
    Merkle_AlreadyInitialized
  | Merkle_WrongLevels
  | Merkle_TreeFull
  | Merkle_NextIndexNotEven
  | Merkle_NotInitialized
  | Merkle_Overflow

record merkle_store =
  mt_levels :: "nat option"
  mt_current_root_index :: "nat option"
  mt_next_index :: "nat option"
  mt_filled_subtree :: "nat \<Rightarrow> u256 option"
  mt_zeroes :: "nat \<Rightarrow> u256 option"
  mt_root :: "nat \<Rightarrow> u256 option"

definition empty_store :: merkle_store where
  "empty_store = \<lparr>mt_levels = None, mt_current_root_index = None, mt_next_index = None,
     mt_filled_subtree = Map.empty, mt_zeroes = Map.empty, mt_root = Map.empty\<rparr>"

section \<open>Operations\<close>

fun merkle_init_loop :: "u256 list \<Rightarrow> nat list \<Rightarrow> merkle_store \<Rightarrow> (merkle_error, merkle_store) outcome" where
  "merkle_init_loop zeros [] st = Inr st"
| "merkle_init_loop zeros (i # is) st =
     andThen (ok_or Merkle_NotInitialized (vec_get zeros i)) (\<lambda>z.
     merkle_init_loop zeros is
       (st\<lparr>mt_filled_subtree := (mt_filled_subtree st)(i \<mapsto> z), mt_zeroes := (mt_zeroes st)(i \<mapsto> z)\<rparr>))"

definition merkle_init :: "nat \<Rightarrow> merkle_store \<Rightarrow> (merkle_error, merkle_store) outcome" where
  "merkle_init levels st =
     (if levels = 0 \<or> 32 < levels then Inl (Fail Merkle_WrongLevels)
      else if mt_current_root_index st \<noteq> None then Inl (Fail Merkle_AlreadyInitialized)
      else
        let zeros = get_zeroes in
        andThen (merkle_init_loop zeros [0..<Suc levels] (st\<lparr>mt_levels := Some levels\<rparr>)) (\<lambda>st.
        andThen (ok_or Merkle_NotInitialized (vec_get zeros levels)) (\<lambda>root_0.
        Inr (st\<lparr>mt_root := (mt_root st)(0 \<mapsto> root_0), mt_current_root_index := Some 0, mt_next_index := Some 0\<rparr>))))"

text \<open>The loop \<open>for lvl in 1..levels\<close>; it returns the hash it ends with and the storage.\<close>

fun merkle_path ::
  "permutation \<Rightarrow> nat list \<Rightarrow> nat \<Rightarrow> u256 \<Rightarrow> merkle_store \<Rightarrow> (merkle_error, u256 \<times> merkle_store) outcome" where
  "merkle_path perm [] current_index current_hash st = Inr (current_hash, st)"
| "merkle_path perm (lvl # lvls) current_index current_hash st =
     (if odd current_index then
        andThen (ok_or Merkle_NotInitialized (mt_filled_subtree st lvl)) (\<lambda>left.
        andThen (poseidon2_compress perm left current_hash) (\<lambda>h.
        merkle_path perm lvls (current_index div 2) h st))
      else
        let st = st\<lparr>mt_filled_subtree := (mt_filled_subtree st)(lvl \<mapsto> current_hash)\<rparr> in
        andThen (ok_or Merkle_NotInitialized (mt_zeroes st lvl)) (\<lambda>zero_val.
        andThen (poseidon2_compress perm current_hash zero_val) (\<lambda>h.
        merkle_path perm lvls (current_index div 2) h st)))"

definition insert_two_leaves ::
  "permutation \<Rightarrow> u256 \<Rightarrow> u256 \<Rightarrow> merkle_store \<Rightarrow> (merkle_error, (nat \<times> nat) \<times> merkle_store) outcome" where
  "insert_two_leaves perm leaf_1 leaf_2 st =
     andThen (ok_or Merkle_NotInitialized (mt_levels st)) (\<lambda>levels.
     andThen (ok_or Merkle_NotInitialized (mt_next_index st)) (\<lambda>next_index.
     andThen (ok_or Merkle_NotInitialized (mt_current_root_index st)) (\<lambda>root_index.
     andThen (ok_or Merkle_WrongLevels (nat_checked_shl 64 1 levels)) (\<lambda>max_leaves.
     andThen (guard (next_index mod 2 = 0) Merkle_NextIndexNotEven) (\<lambda>_.
     andThen (ok_or Merkle_Overflow (nat_checked_add 64 next_index 2)) (\<lambda>after.
     andThen (guard (\<not> max_leaves < after) Merkle_TreeFull) (\<lambda>_.
     andThen (poseidon2_compress perm leaf_1 leaf_2) (\<lambda>pair_hash.
     andThen (merkle_path perm [1..<levels] (next_index div 2) pair_hash st) (\<lambda>(current_hash, st).
     andThen (ok_or Merkle_Overflow (nat_checked_add 32 root_index 1)) (\<lambda>next_root.
     let root_index = next_root mod ROOT_HISTORY_SIZE;
         st = st\<lparr>mt_root := (mt_root st)(root_index \<mapsto> current_hash), mt_current_root_index := Some root_index\<rparr> in
     andThen (ok_or Merkle_Overflow (nat_checked_add 64 next_index 2)) (\<lambda>n.
     let st = st\<lparr>mt_next_index := Some n\<rparr> in
     andThen (ok_or Merkle_TreeFull (nat_try_from 32 next_index)) (\<lambda>left.
     andThen (ok_or Merkle_Overflow (nat_checked_add 64 next_index 1)) (\<lambda>n1.
     andThen (ok_or Merkle_TreeFull (nat_try_from 32 n1)) (\<lambda>right.
     Inr ((left, right), st)))))))))))))))"

text \<open>
  The search through the ring buffer. The loop ends when it is back where it started; on a
  start index outside the ring it would not end, and the value is \<open>None\<close>.
\<close>

partial_function (option) known_root_loop ::
  "(nat \<Rightarrow> u256 option) \<Rightarrow> u256 \<Rightarrow> nat \<Rightarrow> nat \<Rightarrow> (merkle_error, bool) outcome option" where
  "known_root_loop roots root current_root_index i =
     (if (case roots i of Some r \<Rightarrow> r = root | None \<Rightarrow> False) then Some (Inr True)
      else case nat_checked_add 32 i 1 of
             None \<Rightarrow> Some (Inl (Fail Merkle_Overflow))
           | Some j \<Rightarrow>
               if j mod ROOT_HISTORY_SIZE = current_root_index then Some (Inr False)
               else known_root_loop roots root current_root_index (j mod ROOT_HISTORY_SIZE))"

definition is_known_root :: "u256 \<Rightarrow> merkle_store \<Rightarrow> (merkle_error, bool) outcome" where
  "is_known_root root st =
     (if root = 0 then Inr False
      else
        andThen (ok_or Merkle_NotInitialized (mt_current_root_index st)) (\<lambda>current_root_index.
        case known_root_loop (mt_root st) root current_root_index current_root_index of
          Some r \<Rightarrow> r | None \<Rightarrow> Inl Diverge))"

definition get_last_root :: "merkle_store \<Rightarrow> (merkle_error, u256) outcome" where
  "get_last_root st =
     andThen (ok_or Merkle_NotInitialized (mt_current_root_index st)) (\<lambda>current_root_index.
     ok_or Merkle_NotInitialized (mt_root st current_root_index))"

definition merkle_hash_pair :: "permutation \<Rightarrow> u256 \<Rightarrow> u256 \<Rightarrow> (merkle_error, u256) outcome" where
  "merkle_hash_pair perm left right = poseidon2_compress perm left right"

section \<open>The loop of the pool\<close>

definition pool_rest :: "merkle_store \<Rightarrow> nat option \<times> nat option \<times> nat option \<times> (nat \<Rightarrow> u256 option)" where
  "pool_rest st = (mt_levels st, mt_current_root_index st, mt_next_index st, mt_root st)"

interpretation pool_path: path_loop poseidon_ok "\<lambda>x. x < bn256_modulus" hash_of poseidon2_compress
  merkle_path mt_filled_subtree mt_zeroes
  "\<lambda>lv h st. st\<lparr>mt_filled_subtree := (mt_filled_subtree st)(lv \<mapsto> h)\<rparr>" pool_rest
  by unfold_locales (simp_all add: poseidon_ok_def compress_ok hash_of_less pool_rest_def)

section \<open>The tree and its history\<close>

text \<open>The root after \<open>k\<close> insertions of a pair, and the ring buffer after \<open>m\<close> of them.\<close>

definition root_after :: "permutation \<Rightarrow> nat \<Rightarrow> u256 list \<Rightarrow> nat \<Rightarrow> u256" where
  "root_after perm levels leaves k = tree_root perm (take (2 * k) leaves) levels"

definition ring_ok :: "(nat \<Rightarrow> u256) \<Rightarrow> nat \<Rightarrow> (nat \<Rightarrow> u256 option) \<Rightarrow> bool" where
  "ring_ok root m roots \<longleftrightarrow>
     (\<forall>k \<le> m. m < k + ROOT_HISTORY_SIZE \<longrightarrow> roots (k mod ROOT_HISTORY_SIZE) = Some (root k)) \<and>
     (\<forall>j < ROOT_HISTORY_SIZE. m < j \<longrightarrow> roots j = None)"

definition merkle_ok :: "permutation \<Rightarrow> nat \<Rightarrow> u256 list \<Rightarrow> merkle_store \<Rightarrow> bool" where
  "merkle_ok perm levels leaves st \<longleftrightarrow>
     1 \<le> levels \<and> levels \<le> 32 \<and> mt_levels st = Some levels \<and>
     even (length leaves) \<and> length leaves \<le> 2 ^ levels \<and> mt_next_index st = Some (length leaves) \<and>
     (\<forall>x \<in> set leaves. x < bn256_modulus) \<and>
     (\<forall>l \<le> levels. mt_zeroes st l = Some (get_zeroes ! l)) \<and>
     frontier (hash_of perm) zero_leaf leaves levels (mt_filled_subtree st) \<and>
     mt_current_root_index st = Some (length leaves div 2 mod ROOT_HISTORY_SIZE) \<and>
     ring_ok (root_after perm levels leaves) (length leaves div 2) (mt_root st)"

lemma merkle_init_loop_ok:
  assumes "\<forall>i \<in> set is. i < length zeros"
  shows "merkle_init_loop zeros is st = Inr (st\<lparr>
    mt_filled_subtree := (\<lambda>i. if i \<in> set is then Some (zeros ! i) else mt_filled_subtree st i),
    mt_zeroes := (\<lambda>i. if i \<in> set is then Some (zeros ! i) else mt_zeroes st i)\<rparr>)"
  using assms
proof (induction zeros "is" st rule: merkle_init_loop.induct)
  case (2 zeros i "is" st)
  have "vec_get zeros i = Some (zeros ! i)" using "2.prems" by (simp add: vec_get_Some)
  then show ?case using 2 by (auto simp: fun_eq_iff intro!: merkle_store.equality)
qed simp

lemma merkle_init_ok:
  assumes "zero_chain perm" "1 \<le> levels" "levels \<le> 32"
  shows "\<exists>st. merkle_init levels empty_store = Inr st \<and> merkle_ok perm levels [] st"
proof -
  have "vec_get get_zeroes levels = Some (get_zeroes ! levels)" using assms(3) by (simp add: vec_get_Some)
  then show ?thesis using assms merkle_init_loop_ok [of "[0..<Suc levels]" get_zeroes]
    by (simp add: merkle_init_def empty_store_def merkle_ok_def ring_ok_def root_after_def tree_root_def
        merkle_root_empty zero_at_zeroes ROOT_HISTORY_SIZE_def Let_def)
qed

lemma ring_insert:
  assumes "ring_ok root m roots" "\<forall>k \<le> m. root' k = root k"
  shows "ring_ok root' (Suc m) (roots(Suc m mod ROOT_HISTORY_SIZE \<mapsto> root' (Suc m)))"
  unfolding ring_ok_def
proof (intro conjI allI impI)
  fix k assume k: "k \<le> Suc m" "Suc m < k + ROOT_HISTORY_SIZE"
  show "(roots(Suc m mod ROOT_HISTORY_SIZE \<mapsto> root' (Suc m))) (k mod ROOT_HISTORY_SIZE) = Some (root' k)"
  proof (cases "k = Suc m")
    case False
    then have "k \<le> m" "m < k + ROOT_HISTORY_SIZE" using k by auto
    moreover have "k mod ROOT_HISTORY_SIZE \<noteq> Suc m mod ROOT_HISTORY_SIZE"
    proof
      assume "k mod ROOT_HISTORY_SIZE = Suc m mod ROOT_HISTORY_SIZE"
      then have "ROOT_HISTORY_SIZE dvd Suc m - k" using k(1) by (metis mod_eq_dvd_iff_nat)
      then show False using k False by (auto dest!: dvd_imp_le simp: ROOT_HISTORY_SIZE_def)
    qed
    ultimately show ?thesis using assms by (simp add: ring_ok_def)
  qed simp
next
  fix j assume j: "j < ROOT_HISTORY_SIZE" "Suc m < j"
  then have "Suc m mod ROOT_HISTORY_SIZE = Suc m" by simp
  then show "(roots(Suc m mod ROOT_HISTORY_SIZE \<mapsto> root' (Suc m))) j = None"
    using assms(1) j by (simp add: ring_ok_def)
qed

lemma node_pair:
  assumes "even (length ls)"
  shows "node H z (ls @ [a, b]) 1 (length ls div 2) = H a b"
proof -
  have "2 * (length ls div 2) = length ls" using assms by simp
  then show ?thesis by (simp add: nth_append)
qed

lemma insert_two_ok:
  assumes "poseidon_ok perm" "merkle_ok perm levels leaves st" "a < bn256_modulus" "b < bn256_modulus"
  shows "if length leaves + 2 \<le> 2 ^ levels
    then \<exists>st'. insert_two_leaves perm a b st = Inr ((length leaves, length leaves + 1), st') \<and>
      merkle_ok perm levels (leaves @ [a, b]) st'
    else insert_two_leaves perm a b st = Inl (Fail Merkle_TreeFull)"
proof -
  let ?n = "length leaves" and ?ls = "leaves @ [a, b]"
  have ok: "1 \<le> levels" "levels \<le> 32" "mt_levels st = Some levels" "even ?n" "?n \<le> 2 ^ levels"
    "mt_next_index st = Some ?n" "\<forall>x \<in> set leaves. x < bn256_modulus"
    "\<forall>l \<le> levels. mt_zeroes st l = Some (get_zeroes ! l)"
    "frontier (hash_of perm) zero_leaf leaves levels (mt_filled_subtree st)"
    "mt_current_root_index st = Some (?n div 2 mod ROOT_HISTORY_SIZE)"
    "ring_ok (root_after perm levels leaves) (?n div 2) (mt_root st)"
    using assms(2) by (simp_all add: merkle_ok_def)
  have cap: "(2::nat) ^ levels \<le> 2 ^ 32" using ok(2) by (rule power_increasing) simp
  have shl: "nat_checked_shl 64 1 levels = Some (2 ^ levels)"
    using ok(2) cap by (simp add: nat_checked_shl_Some)
  have add2: "nat_checked_add 64 ?n 2 = Some (?n + 2)" "nat_checked_add 64 ?n 1 = Some (?n + 1)"
    using ok(5) cap by (simp_all add: nat_checked_add_Some)
  have pair: "poseidon2_compress perm a b = (Inr (hash_of perm a b) :: (merkle_error, u256) outcome)"
    using assms(1,3,4) by (simp add: poseidon_ok_def compress_ok)
  show ?thesis
  proof (cases "?n + 2 \<le> 2 ^ levels")
    case False
    then show ?thesis using ok(3,4,6,10) shl add2 by (simp add: insert_two_leaves_def)
  next
    case True
    have zero: "\<forall>l<levels. mt_zeroes st l = Some (zero_at (hash_of perm) zero_leaf l)"
      using ok(2,8) assms(1) by (simp add: zero_at_zeroes poseidon_ok_def)
    have "2 ^ 1 dvd ?n" "length [a, b] = 2 ^ 1" "?n + 2 ^ 1 \<le> 2 ^ levels"
      "\<forall>x \<in> set ?ls. x < bn256_modulus" "zero_leaf < bn256_modulus"
      using ok(4,7) True assms(3,4) get_zeroes_less [of 0] by auto
    from pool_path.run_insert [OF assms(1) this(5,4,1,2,3) ok(1) zero ok(9)] obtain st' where
      path: "merkle_path perm [1..<levels] (?n div 2 ^ 1) (node (hash_of perm) zero_leaf ?ls 1 (?n div 2 ^ 1)) st =
        Inr (tree_root perm ?ls levels, st')"
      and fr: "frontier (hash_of perm) zero_leaf ?ls levels (mt_filled_subtree st')"
      and same: "mt_zeroes st' = mt_zeroes st" "pool_rest st' = pool_rest st"
      by (auto simp: tree_root_def)
    have path': "merkle_path perm [1..<levels] (?n div 2) (hash_of perm a b) st =
        Inr (tree_root perm ?ls levels, st')"
      using path unfolding power_one_right node_pair [OF ok(4)] .
    let ?c = "Suc (?n div 2 mod ROOT_HISTORY_SIZE) mod ROOT_HISTORY_SIZE"
    have cur: "nat_checked_add 32 (?n div 2 mod ROOT_HISTORY_SIZE) 1 = Some (Suc (?n div 2 mod ROOT_HISTORY_SIZE))"
      by (simp add: nat_checked_add_Some ROOT_HISTORY_SIZE_def)
    have idx: "nat_try_from 32 ?n = Some ?n" "nat_try_from 32 (?n + 1) = Some (?n + 1)"
      using True cap by (simp_all add: nat_try_from_Some)
    let ?st = "st'\<lparr>mt_root := (mt_root st')(?c \<mapsto> tree_root perm ?ls levels), mt_current_root_index := Some ?c,
      mt_next_index := Some (?n + 2)\<rparr>"
    have ins: "insert_two_leaves perm a b st = Inr ((?n, ?n + 1), ?st)"
      using ok(3,4,6,10) shl add2 True pair path' cur idx
      by (simp add: insert_two_leaves_def Let_def)
    have c: "?c = Suc (?n div 2) mod ROOT_HISTORY_SIZE" by (simp add: mod_Suc_eq)
    have len: "length ?ls div 2 = Suc (?n div 2)" using ok(4) by simp
    have "ring_ok (root_after perm levels ?ls) (Suc (?n div 2))
      ((mt_root st)(Suc (?n div 2) mod ROOT_HISTORY_SIZE \<mapsto> root_after perm levels ?ls (Suc (?n div 2))))"
    proof (rule ring_insert [OF ok(11)], intro allI impI)
      fix k assume "k \<le> ?n div 2"
      then have "2 * k \<le> ?n" by simp
      then show "root_after perm levels ?ls k = root_after perm levels leaves k" by (simp add: root_after_def)
    qed
    moreover have "root_after perm levels ?ls (Suc (?n div 2)) = tree_root perm ?ls levels"
      using ok(4) by (simp add: root_after_def)
    ultimately have "ring_ok (root_after perm levels ?ls) (length ?ls div 2) (mt_root ?st)"
      using same c len by (simp add: pool_rest_def)
    then have "merkle_ok perm levels ?ls ?st"
      using ok same fr True c len assms(3,4) by (auto simp: merkle_ok_def pool_rest_def)
    then show ?thesis using ins True by auto
  qed
qed


section \<open>Known roots\<close>

lemma known_root_loop_ring:
  assumes "c < ROOT_HISTORY_SIZE" "t < ROOT_HISTORY_SIZE"
  shows "known_root_loop roots root c ((c + t) mod ROOT_HISTORY_SIZE) =
    Some (Inr (\<exists>u. t \<le> u \<and> u < ROOT_HISTORY_SIZE \<and> roots ((c + u) mod ROOT_HISTORY_SIZE) = Some root))"
  using assms(2)
proof (induction "ROOT_HISTORY_SIZE - t" arbitrary: t rule: less_induct)
  case less
  let ?i = "(c + t) mod ROOT_HISTORY_SIZE"
  have "?i < ROOT_HISTORY_SIZE" by (simp add: ROOT_HISTORY_SIZE_def)
  then have add: "nat_checked_add 32 ?i 1 = Some (Suc ?i)"
    by (simp add: nat_checked_add_Some ROOT_HISTORY_SIZE_def)
  have next_i: "Suc ?i mod ROOT_HISTORY_SIZE = (c + Suc t) mod ROOT_HISTORY_SIZE" by (simp add: mod_Suc_eq)
  show ?case
  proof (cases "roots ?i = Some root")
    case True
    then show ?thesis using less.prems by (subst known_root_loop.simps) auto
  next
    case miss: False
    have unroll: "known_root_loop roots root c ?i =
      (if (c + Suc t) mod ROOT_HISTORY_SIZE = c then Some (Inr False)
       else known_root_loop roots root c ((c + Suc t) mod ROOT_HISTORY_SIZE))"
      using miss add next_i by (subst known_root_loop.simps) (auto split: option.split)
    have later: "(\<exists>u. t \<le> u \<and> u < ROOT_HISTORY_SIZE \<and> roots ((c + u) mod ROOT_HISTORY_SIZE) = Some root) \<longleftrightarrow>
      (\<exists>u. Suc t \<le> u \<and> u < ROOT_HISTORY_SIZE \<and> roots ((c + u) mod ROOT_HISTORY_SIZE) = Some root)"
      using miss by (metis Suc_leD le_antisym not_less_eq_eq)
    show ?thesis
    proof (cases "Suc t = ROOT_HISTORY_SIZE")
      case True
      then show ?thesis using unroll later assms(1) by simp
    next
      case False
      then have t: "Suc t < ROOT_HISTORY_SIZE" using less.prems by simp
      have "(c + Suc t) mod ROOT_HISTORY_SIZE \<noteq> c"
      proof
        assume "(c + Suc t) mod ROOT_HISTORY_SIZE = c"
        then have "(c + Suc t) mod ROOT_HISTORY_SIZE = c mod ROOT_HISTORY_SIZE" using assms(1) by simp
        then have "ROOT_HISTORY_SIZE dvd (c + Suc t) - c" by (metis le_add1 mod_eq_dvd_iff_nat)
        then show False using t by (auto dest!: dvd_imp_le)
      qed
      then show ?thesis using unroll later less.hyps [of "Suc t"] t less.prems by simp
    qed
  qed
qed

lemma ring_contains:
  assumes "ring_ok root m roots"
  shows "(\<exists>j < ROOT_HISTORY_SIZE. roots j = Some r) \<longleftrightarrow> (\<exists>k \<le> m. m < k + ROOT_HISTORY_SIZE \<and> root k = r)"
proof
  assume "\<exists>j < ROOT_HISTORY_SIZE. roots j = Some r"
  then obtain j where j: "j < ROOT_HISTORY_SIZE" "roots j = Some r" by blast
  then have "j \<le> m" using assms unfolding ring_ok_def by (metis not_less option.distinct(1))
  define k where "k = m - (m - j) mod ROOT_HISTORY_SIZE"
  have "(m - j) mod ROOT_HISTORY_SIZE \<le> m - j" by simp
  then have le: "(m - j) mod ROOT_HISTORY_SIZE \<le> m" using diff_le_self le_trans by blast
  have "(m - j) mod ROOT_HISTORY_SIZE < ROOT_HISTORY_SIZE" by (simp add: ROOT_HISTORY_SIZE_def)
  then have k: "k \<le> m" "m < k + ROOT_HISTORY_SIZE" using le by (auto simp: k_def)
  have "(m - j) - (m - j) mod ROOT_HISTORY_SIZE = (m - j) div ROOT_HISTORY_SIZE * ROOT_HISTORY_SIZE"
    by (rule minus_mod_eq_div_mult)
  moreover have "k = j + ((m - j) - (m - j) mod ROOT_HISTORY_SIZE)"
    using \<open>j \<le> m\<close> \<open>(m - j) mod ROOT_HISTORY_SIZE \<le> m - j\<close> unfolding k_def by linarith
  ultimately have "k = j + (m - j) div ROOT_HISTORY_SIZE * ROOT_HISTORY_SIZE" by simp
  then have "k mod ROOT_HISTORY_SIZE = j" using j(1) by simp
  then show "\<exists>k \<le> m. m < k + ROOT_HISTORY_SIZE \<and> root k = r" using assms j(2) k by (auto simp: ring_ok_def)
next
  assume "\<exists>k \<le> m. m < k + ROOT_HISTORY_SIZE \<and> root k = r"
  then obtain k where "k \<le> m" "m < k + ROOT_HISTORY_SIZE" "root k = r" by blast
  then have "roots (k mod ROOT_HISTORY_SIZE) = Some r" using assms by (simp add: ring_ok_def)
  then show "\<exists>j < ROOT_HISTORY_SIZE. roots j = Some r"
    by (intro exI [of _ "k mod ROOT_HISTORY_SIZE"]) (simp add: ROOT_HISTORY_SIZE_def)
qed

lemma ring_shift:
  fixes c :: nat
  assumes "c < R"
  shows "(\<exists>u<R. P ((c + u) mod R)) \<longleftrightarrow> (\<exists>j<R. P j)"
proof
  assume "\<exists>j<R. P j"
  then obtain j where j: "j < R" "P j" by blast
  have "(c + (R - c + j) mod R) mod R = (c + (R - c + j)) mod R" by (simp add: mod_add_right_eq)
  also have "\<dots> = j" using assms j(1) by simp
  finally show "\<exists>u<R. P ((c + u) mod R)"
    using j by (intro exI [of _ "(R - c + j) mod R"]) simp
next
  assume "\<exists>u<R. P ((c + u) mod R)"
  then obtain u where "P ((c + u) mod R)" by blast
  then show "\<exists>j<R. P j" using assms by (intro exI [of _ "(c + u) mod R"]) simp
qed

definition recent_root :: "permutation \<Rightarrow> nat \<Rightarrow> u256 list \<Rightarrow> u256 \<Rightarrow> bool" where
  "recent_root perm levels leaves r \<longleftrightarrow>
     (\<exists>k \<le> length leaves div 2. length leaves div 2 < k + ROOT_HISTORY_SIZE \<and> root_after perm levels leaves k = r)"

lemma is_known_root_ok:
  assumes "merkle_ok perm levels leaves st"
  shows "is_known_root r st = Inr (r \<noteq> 0 \<and> recent_root perm levels leaves r)"
proof -
  let ?c = "length leaves div 2 mod ROOT_HISTORY_SIZE"
  have c: "?c < ROOT_HISTORY_SIZE" by (simp add: ROOT_HISTORY_SIZE_def)
  have st: "mt_current_root_index st = Some ?c"
    "ring_ok (root_after perm levels leaves) (length leaves div 2) (mt_root st)"
    using assms by (simp_all add: merkle_ok_def)
  have "known_root_loop (mt_root st) r ?c ?c =
      Some (Inr (\<exists>u < ROOT_HISTORY_SIZE. mt_root st ((?c + u) mod ROOT_HISTORY_SIZE) = Some r))"
    using known_root_loop_ring [OF c, of 0 "mt_root st" r] by (simp add: ROOT_HISTORY_SIZE_def)
  then have "known_root_loop (mt_root st) r ?c ?c = Some (Inr (recent_root perm levels leaves r))"
    using ring_shift [OF c, of "\<lambda>j. mt_root st j = Some r"] ring_contains [OF st(2), of r]
    by (simp add: recent_root_def)
  then show ?thesis using st(1) by (simp add: is_known_root_def)
qed

lemma get_last_root_ok:
  assumes "merkle_ok perm levels leaves st"
  shows "get_last_root st = Inr (tree_root perm leaves levels)"
proof -
  let ?m = "length leaves div 2"
  have "mt_root st (?m mod ROOT_HISTORY_SIZE) = Some (root_after perm levels leaves ?m)"
    using assms by (simp add: merkle_ok_def ring_ok_def ROOT_HISTORY_SIZE_def)
  moreover have "root_after perm levels leaves ?m = tree_root perm leaves levels"
    using assms by (simp add: merkle_ok_def root_after_def)
  ultimately show ?thesis using assms by (simp add: get_last_root_def merkle_ok_def)
qed

section \<open>Reachable trees\<close>

inductive merkle_reach :: "permutation \<Rightarrow> nat \<Rightarrow> u256 list \<Rightarrow> merkle_store \<Rightarrow> bool" for perm levels where
  init: "merkle_init levels empty_store = Inr st \<Longrightarrow> merkle_reach perm levels [] st"
| insert: "merkle_reach perm levels leaves st \<Longrightarrow> insert_two_leaves perm a b st = Inr (ix, st') \<Longrightarrow>
    merkle_reach perm levels (leaves @ [a, b]) st'"

lemma insert_two_fits:
  "insert_two_leaves perm a b st = Inr r \<Longrightarrow> a < bn256_modulus \<and> b < bn256_modulus"
  using compress_panic [of a b perm, where ?'a = merkle_error]
  by (fastforce simp: insert_two_leaves_def andThen_Inr)

lemma merkle_reach_ok:
  assumes "merkle_reach perm levels leaves st" "poseidon_ok perm"
  shows "merkle_ok perm levels leaves st"
  using assms
proof induction
  case (init st)
  then have "1 \<le> levels" "levels \<le> 32" by (auto simp: merkle_init_def split: if_splits)
  then show ?case using merkle_init_ok [of perm levels] init by (auto simp: poseidon_ok_def)
next
  case (insert leaves st a b ix st')
  then show ?case
    using insert_two_ok [of perm levels leaves st a b] insert_two_fits [OF insert.hyps(2)]
    by (auto split: if_splits)
qed

section \<open>Properties\<close>

text \<open>
  Property C13: after any sequence of insertions the current root of the pool's tree is the root of the whole
  tree over the leaves inserted so far, in order, although the contract only stores one hash for
  each level and never recomputes the tree.
\<close>

theorem merkle_root_correct:
  assumes "poseidon_ok perm" "merkle_reach perm levels leaves st"
  shows "get_last_root st = Inr (tree_root perm leaves levels)"
  using get_last_root_ok [OF merkle_reach_ok [OF assms(2,1)]] .

text \<open>
  Property C14: a root is known exactly if it is not zero and it is the root after one of the last ninety
  insertions (the initial tree counting as one); the search through the ring buffer always ends.
\<close>

theorem merkle_known_roots:
  assumes "poseidon_ok perm" "merkle_reach perm levels leaves st"
  shows "is_known_root r st = Inr (r \<noteq> 0 \<and>
    (\<exists>k \<le> length leaves div 2. length leaves div 2 < k + 90 \<and> tree_root perm (take (2 * k) leaves) levels = r))"
  using is_known_root_ok [OF merkle_reach_ok [OF assms(2,1)], of r]
  by (simp add: recent_root_def root_after_def ROOT_HISTORY_SIZE_def)

text \<open>
  Inserting two field elements returns their positions, an even index and the next one, and
  succeeds as long as the tree has room for two; on a full tree it fails with \<open>MerkleTreeFull\<close>, and
  values outside the field make it panic.
\<close>

theorem merkle_insert_outcome:
  assumes "poseidon_ok perm" "merkle_reach perm levels leaves st"
  shows "(if 2 ^ levels < length leaves + 2 then insert_two_leaves perm a b st = Inl (Fail Merkle_TreeFull)
    else if a < bn256_modulus \<and> b < bn256_modulus
    then \<exists>st'. insert_two_leaves perm a b st = Inr ((length leaves, length leaves + 1), st') \<and>
      merkle_reach perm levels (leaves @ [a, b]) st'
    else insert_two_leaves perm a b st = Inl Panic)"
proof -
  have ok: "merkle_ok perm levels leaves st" by (rule merkle_reach_ok [OF assms(2,1)])
  show ?thesis
  proof (cases "a < bn256_modulus \<and> b < bn256_modulus")
    case True
    then show ?thesis
      using insert_two_ok [OF assms(1) ok, of a b] merkle_reach.insert [OF assms(2)] by (auto simp: not_less)
  next
    case False
    have lv: "levels \<le> 32" using ok by (simp add: merkle_ok_def)
    have cap: "levels < 64" "(2::nat) ^ levels \<le> 2 ^ 32"
      using lv power_increasing [OF lv, of "2::nat"] by simp_all
    then have "nat_checked_shl 64 1 levels = Some (2 ^ levels)" "nat_checked_add 64 (length leaves) 2 = Some (length leaves + 2)"
      using ok by (auto simp: nat_checked_shl_Some nat_checked_add_Some merkle_ok_def)
    then show ?thesis
      using ok False compress_panic [OF False, of perm, where ?'a = merkle_error]
      by (auto simp: insert_two_leaves_def merkle_ok_def guard_def)
  qed
qed

section \<open>Runs\<close>

lemma run_merkle: "\<exists>st. merkle_reach run_perm 2 [5, 7] st"
proof -
  obtain st0 where st0: "merkle_init 2 empty_store = Inr st0" "merkle_ok run_perm 2 [] st0"
    using merkle_init_ok [OF run_perm_zeroes, of 2] by auto
  then obtain st where "insert_two_leaves run_perm 5 7 st0 = Inr ((0, 1), st)"
    using insert_two_ok [OF run_perm_poseidon_ok st0(2), of 5 7] by (auto simp: below_modulus)
  then show ?thesis
    using merkle_reach.insert [OF merkle_reach.init [OF st0(1)], of run_perm 5 7 "(0, 1)" st] by auto
qed

theorem merkle_root_correct_witness:
  "\<exists>st. merkle_reach run_perm 2 [5, 7] st \<and> get_last_root st = Inr (tree_root run_perm [5, 7] 2)"
  using run_merkle merkle_root_correct [OF run_perm_poseidon_ok] by blast

theorem merkle_known_roots_witness:
  "\<exists>st. merkle_reach run_perm 2 [5, 7] st \<and> is_known_root (get_zeroes ! 2) st = Inr (get_zeroes ! 2 \<noteq> 0 \<and>
    (\<exists>k \<le> length [5, 7 :: u256] div 2. length [5, 7 :: u256] div 2 < k + 90 \<and>
      tree_root run_perm (take (2 * k) [5, 7]) 2 = get_zeroes ! 2))"
  using run_merkle merkle_known_roots [OF run_perm_poseidon_ok, of 2 "[5, 7]"] by blast

theorem merkle_insert_outcome_witness:
  "\<exists>st st'. merkle_reach run_perm 2 [5, 7] st \<and> insert_two_leaves run_perm 11 13 st = Inr ((2, 3), st')"
proof -
  obtain st where "merkle_reach run_perm 2 [5, 7] st" using run_merkle ..
  then show ?thesis
    using merkle_insert_outcome [OF run_perm_poseidon_ok, of 2 "[5, 7]" st 11 13] by (auto simp: below_modulus)
qed

end
