(* ===== verification/Groth16.thy ===== *)
theory Groth16 imports Prelude begin

text \<open>
  Groth16 proofs and their verification: \<^verbatim>\<open>contracts/types/src/lib.rs\<close> (errors, keys,
  proofs and their byte format) and \<^verbatim>\<open>contracts/circom-groth16-verifier/src/lib.rs\<close>.
  A curve point or scalar is the byte string that encodes it. The curve operations are host
  functions: the parameter \<open>bn\<close>, where \<open>None\<close> is a trap (a byte string that is no point).
  The key the verifier embeds is generated at build time: it is the parameter \<open>vk\<close>.
\<close>

section \<open>Types\<close>

type_synonym g1 = "byte list"
type_synonym g2 = "byte list"
type_synonym fr = "byte list"

datatype groth16_error = InvalidProof | MalformedPublicInputs | MalformedProof

record verification_key =
  vk_alpha :: g1
  vk_beta :: g2
  vk_gamma :: g2
  vk_delta :: g2
  vk_ic :: "g1 list"

record groth16_proof =
  gp_a :: g1
  gp_b :: g2
  gp_c :: g1

definition proof_is_empty :: "groth16_proof \<Rightarrow> bool" where
  "proof_is_empty p = (gp_a p = [] \<or> gp_b p = [] \<or> gp_c p = [])"

definition FIELD_ELEMENT_SIZE :: nat where "FIELD_ELEMENT_SIZE = 32"
definition G1_SIZE :: nat where "G1_SIZE = FIELD_ELEMENT_SIZE * 2"
definition G2_SIZE :: nat where "G2_SIZE = FIELD_ELEMENT_SIZE * 4"
definition PROOF_SIZE :: nat where "PROOF_SIZE = G1_SIZE + G2_SIZE + G1_SIZE"

text \<open>\<open>Bytes::slice\<close> and the conversion to \<open>BytesN\<close>.\<close>

definition slice :: "byte list \<Rightarrow> nat \<Rightarrow> nat \<Rightarrow> byte list" where
  "slice bs a b = take (b - a) (drop a bs)"

definition bytes_n :: "nat \<Rightarrow> byte list \<Rightarrow> byte list option" where
  "bytes_n n bs = (if length bs = n then Some bs else None)"

definition proof_try_from :: "byte list \<Rightarrow> (groth16_error, groth16_proof) outcome" where
  "proof_try_from value =
     (if length value \<noteq> PROOF_SIZE then Inl (Fail MalformedProof)
      else
        andThen (ok_or MalformedProof (bytes_n 64 (slice value 0 G1_SIZE))) (\<lambda>a.
        andThen (ok_or MalformedProof (bytes_n 128 (slice value G1_SIZE (G1_SIZE + G2_SIZE)))) (\<lambda>b.
        andThen (ok_or MalformedProof (bytes_n 64 (slice value (G1_SIZE + G2_SIZE) (length value)))) (\<lambda>c.
        Inr \<lparr>gp_a = a, gp_b = b, gp_c = c\<rparr>))))"

section \<open>Verification\<close>

record bn_host =
  g1_mul :: "g1 \<Rightarrow> fr \<Rightarrow> g1 option"
  g1_add :: "g1 \<Rightarrow> g1 \<Rightarrow> g1 option"
  g1_neg :: "g1 \<Rightarrow> g1 option"
  pairing_check :: "g1 list \<Rightarrow> g2 list \<Rightarrow> bool option"

text \<open>The loop \<open>for i in 0..pub_inputs.len()\<close> that adds up the public inputs.\<close>

fun inputs_loop ::
  "bn_host \<Rightarrow> g1 list \<Rightarrow> fr list \<Rightarrow> nat list \<Rightarrow> g1 \<Rightarrow> (groth16_error, g1) outcome" where
  "inputs_loop bn ic pub_inputs [] vk_x = Inr vk_x"
| "inputs_loop bn ic pub_inputs (i # is) vk_x =
     andThen (ok_or MalformedPublicInputs (vec_get pub_inputs i)) (\<lambda>s.
     andThen (ok_or MalformedPublicInputs (nat_checked_add 32 i 1)) (\<lambda>ic_idx.
     andThen (ok_or MalformedPublicInputs (vec_get ic ic_idx)) (\<lambda>v.
     andThen (expect (g1_mul bn v s)) (\<lambda>prod.
     andThen (expect (g1_add bn vk_x prod)) (\<lambda>vk_x.
     inputs_loop bn ic pub_inputs is vk_x)))))"

definition verify_with_vk ::
  "bn_host \<Rightarrow> verification_key \<Rightarrow> groth16_proof \<Rightarrow> fr list \<Rightarrow> (groth16_error, bool) outcome" where
  "verify_with_vk bn vk p pub_inputs =
     (if nat_checked_add 32 (length pub_inputs) 1 \<noteq> Some (length (vk_ic vk))
      then Inl (Fail MalformedPublicInputs)
      else
        andThen (ok_or MalformedPublicInputs (vec_get (vk_ic vk) 0)) (\<lambda>vk_0.
        andThen (inputs_loop bn (vk_ic vk) pub_inputs [0..<length pub_inputs] vk_0) (\<lambda>vk_x.
        andThen (expect (g1_neg bn (gp_a p))) (\<lambda>neg_a.
        andThen (expect (pairing_check bn [neg_a, vk_alpha vk, vk_x, gp_c p]
                           [gp_b p, vk_beta vk, vk_gamma vk, vk_delta vk])) (\<lambda>ok.
        if ok then Inr True else Inl (Fail InvalidProof))))))"

section \<open>Facts\<close>

lemma slice_sizes [simp]: "G1_SIZE = 64" "G2_SIZE = 128" "PROOF_SIZE = 256"
  by (simp_all add: G1_SIZE_def G2_SIZE_def PROOF_SIZE_def FIELD_ELEMENT_SIZE_def)

lemma bytes_n_Some [res_simps]: "bytes_n n bs = Some x \<longleftrightarrow> length bs = n \<and> x = bs"
  by (auto simp: bytes_n_def)

text \<open>
  The 256-byte format of a proof and its three points determine each other: parsing accepts
  exactly the strings that are the concatenation of a 64, a 128 and a 64 byte point.
\<close>

theorem proof_bytes_roundtrip:
  "proof_try_from bs = Inr p \<longleftrightarrow>
    bs = gp_a p @ gp_b p @ gp_c p \<and> length (gp_a p) = 64 \<and> length (gp_b p) = 128 \<and> length (gp_c p) = 64"
proof
  assume l: "proof_try_from bs = Inr p"
  then have parts: "gp_a p = slice bs 0 64" "gp_b p = slice bs 64 192" "gp_c p = slice bs 192 256" and len: "length bs = 256"
    by (auto simp: proof_try_from_def andThen_Inr ok_or_Inr bytes_n_Some split: if_splits)
  have "bs = take 64 bs @ drop 64 bs" by simp
  also have "drop 64 bs = take 128 (drop 64 bs) @ drop 128 (drop 64 bs)" by (rule append_take_drop_id [symmetric])
  finally have "bs = slice bs 0 64 @ slice bs 64 192 @ slice bs 192 256"
    using len by (simp add: slice_def)
  then show "bs = gp_a p @ gp_b p @ gp_c p \<and> length (gp_a p) = 64 \<and> length (gp_b p) = 128 \<and> length (gp_c p) = 64"
    using parts len by (simp add: slice_def)
next
  assume "bs = gp_a p @ gp_b p @ gp_c p \<and> length (gp_a p) = 64 \<and> length (gp_b p) = 128 \<and> length (gp_c p) = 64"
  then show "proof_try_from bs = Inr p"
    by (auto simp: proof_try_from_def slice_def bytes_n_def intro!: groth16_proof.equality)
qed

text \<open>The linear combination of the public inputs, as the sum the comment in the code describes.\<close>

fun input_sum :: "bn_host \<Rightarrow> g1 \<Rightarrow> (g1 \<times> fr) list \<Rightarrow> g1 option" where
  "input_sum bn acc [] = Some acc"
| "input_sum bn acc ((v, s) # rest) =
     (case g1_mul bn v s of None \<Rightarrow> None
      | Some pr \<Rightarrow> (case g1_add bn acc pr of None \<Rightarrow> None | Some acc' \<Rightarrow> input_sum bn acc' rest))"

lemma inputs_loop_sum:
  assumes "k \<le> length pub_inputs" "length pub_inputs < 2 ^ 32" "length ic = Suc (length pub_inputs)"
  shows "inputs_loop bn ic pub_inputs [k..<length pub_inputs] acc =
    expect (input_sum bn acc (drop k (zip (tl ic) pub_inputs)))"
  using assms
proof (induction "length pub_inputs - k" arbitrary: k acc)
  case 0
  then show ?case by simp
next
  case (Suc d)
  then have k: "k < length pub_inputs" "[k..<length pub_inputs] = k # [Suc k..<length pub_inputs]"
    by (simp_all add: upt_conv_Cons)
  then have get: "vec_get pub_inputs k = Some (pub_inputs ! k)" "vec_get ic (Suc k) = Some (ic ! Suc k)"
    and add: "nat_checked_add 32 k (Suc 0) = Some (Suc k)"
    using Suc.prems by (auto simp: vec_get_Some nat_checked_add_Some)
  have "drop k (zip (tl ic) pub_inputs) = zip (tl ic) pub_inputs ! k # drop (Suc k) (zip (tl ic) pub_inputs)"
    using k Suc.prems by (intro Cons_nth_drop_Suc [symmetric]) simp
  then have step: "drop k (zip (tl ic) pub_inputs) = (ic ! Suc k, pub_inputs ! k) # drop (Suc k) (zip (tl ic) pub_inputs)"
    using k Suc.prems by (simp add: nth_tl)
  have IH: "inputs_loop bn ic pub_inputs [Suc k..<length pub_inputs] a =
      expect (input_sum bn a (drop (Suc k) (zip (tl ic) pub_inputs)))" for a
    using Suc by simp
  show ?case
    by (simp add: k(2) get add step IH split: option.split)
qed

text \<open>
  Property C26: the verifier answers true or not at all. It returns true exactly when there is one more key
  point than there are public inputs, every curve operation is defined, and the pairing equation
  holds for the weighted sum of the public inputs; a wrong proof is an error and never the value
  false, so a caller that only tests the returned value is safe.
\<close>

theorem verifier_accepts_iff:
  assumes "length pub_inputs + 1 < 2 ^ 32"
  shows "verify_with_vk bn vk p pub_inputs \<noteq> Inr False \<and>
    (verify_with_vk bn vk p pub_inputs = Inr True \<longleftrightarrow>
      length (vk_ic vk) = length pub_inputs + 1 \<and>
      (\<exists>vk_x neg_a. input_sum bn (hd (vk_ic vk)) (zip (tl (vk_ic vk)) pub_inputs) = Some vk_x \<and>
        g1_neg bn (gp_a p) = Some neg_a \<and>
        pairing_check bn [neg_a, vk_alpha vk, vk_x, gp_c p] [gp_b p, vk_beta vk, vk_gamma vk, vk_delta vk] = Some True))"
proof (cases "length (vk_ic vk) = length pub_inputs + 1")
  case True
  then obtain v vs where ic: "vk_ic vk = v # vs" by (cases "vk_ic vk") auto
  have "nat_checked_add 32 (length pub_inputs) 1 = Some (length (vk_ic vk))"
    using True assms by (simp add: nat_checked_add_Some)
  moreover have "vec_get (vk_ic vk) 0 = Some v" using ic by (simp add: vec_get_def)
  moreover have "inputs_loop bn (vk_ic vk) pub_inputs [0..<length pub_inputs] v =
      expect (input_sum bn v (zip vs pub_inputs))"
    using inputs_loop_sum [of 0 pub_inputs "vk_ic vk" bn v] True assms ic by simp
  ultimately show ?thesis using True ic
    by (auto simp: verify_with_vk_def andThen_Inr expect_Inr split: if_splits)
next
  case False
  then have "nat_checked_add 32 (length pub_inputs) 1 \<noteq> Some (length (vk_ic vk))"
    by (simp add: nat_checked_add_Some)
  then show ?thesis using False by (simp add: verify_with_vk_def)
qed

section \<open>Runs\<close>

definition run_bn :: bn_host where
  "run_bn = \<lparr>g1_mul = (\<lambda>p s. Some (p @ s)), g1_add = (\<lambda>p q. Some (p @ q)), g1_neg = (\<lambda>p. Some (rev p)),
     pairing_check = (\<lambda>ps qs. Some (length ps = length qs))\<rparr>"

definition run_vk :: verification_key where
  "run_vk = \<lparr>vk_alpha = [1], vk_beta = [2], vk_gamma = [3], vk_delta = [4], vk_ic = [[5], [6]]\<rparr>"

definition run_proof :: groth16_proof where
  "run_proof = \<lparr>gp_a = [7], gp_b = [8], gp_c = [9]\<rparr>"

theorem verifier_accepts_iff_witness:
  "verify_with_vk run_bn run_vk run_proof [[10]] = Inr True"
  using verifier_accepts_iff [of "[[10]]" run_bn run_vk run_proof]
  by (simp add: run_bn_def run_vk_def run_proof_def)

end
