(* ===== verification/Pool.thy ===== *)
theory Pool imports MerkleHistory Groth16 Host begin

text \<open>
  The privacy pool, from \<^verbatim>\<open>contracts/pool/src/pool.rs\<close>. Storage is a record with one
  field for each key and the store of the commitment tree; the world of a call adds the
  token transfers made and the events published so far. A failed call rolls everything
  back, so an error carries no world.

  The code outside the repository is in \<open>pool_env\<close>: the contract's own address, the XDR
  serialization and Keccak256, the roots the two association set contracts answer with, the
  verifier's answer, and whether a token transfer goes through after the transfers before
  it (\<open>None\<close> or false is a trap of the called contract).
\<close>

section \<open>Types\<close>

datatype pool_error =
    Pool_NotAuthorized
  | Pool_MerkleTreeFull
  | Pool_AlreadyInitialized
  | Pool_WrongLevels
  | Pool_NextIndexNotEven
  | Pool_WrongExtAmount
  | Pool_InvalidProof
  | Pool_UnknownRoot
  | Pool_AlreadySpentNullifier
  | Pool_WrongExtHash
  | Pool_NotInitialized
  | Pool_Overflow
  | Pool_NonCanonicalPublicInput

definition pool_error_from :: "merkle_error \<Rightarrow> pool_error" where
  "pool_error_from e = (case e of
     Merkle_AlreadyInitialized \<Rightarrow> Pool_AlreadyInitialized
   | Merkle_TreeFull \<Rightarrow> Pool_MerkleTreeFull
   | Merkle_WrongLevels \<Rightarrow> Pool_WrongLevels
   | Merkle_NextIndexNotEven \<Rightarrow> Pool_NextIndexNotEven
   | Merkle_NotInitialized \<Rightarrow> Pool_NotInitialized
   | Merkle_Overflow \<Rightarrow> Pool_Overflow)"

text \<open>The \<open>?\<close> operator on a result of the tree.\<close>

definition merkle_call :: "(merkle_error, 'a) outcome \<Rightarrow> (pool_error, 'a) outcome" where
  "merkle_call m = (case m of Inr a \<Rightarrow> Inr a | Inl (Fail e) \<Rightarrow> Inl (Fail (pool_error_from e))
     | Inl Panic \<Rightarrow> Inl Panic | Inl Diverge \<Rightarrow> Inl Diverge)"

record pool_proof =
  pp_proof :: groth16_proof
  pp_root :: u256
  pp_input_nullifiers :: "u256 list"
  pp_output_commitment0 :: u256
  pp_output_commitment1 :: u256
  pp_public_amount :: u256
  pp_ext_data_hash :: "byte list"
  pp_asp_membership_root :: u256
  pp_asp_non_membership_root :: u256

record ext_data =
  ed_recipient :: address
  ed_ext_amount :: i256
  ed_encrypted_output0 :: "byte list"
  ed_encrypted_output1 :: "byte list"

record token_call =
  tc_token :: address
  tc_from :: address
  tc_to :: address
  tc_amount :: i128

datatype pool_event =
    NewCommitmentEvent u256 nat "byte list"
  | NewNullifierEvent u256

record pool_store =
  ps_admin :: "address option"
  ps_token :: "address option"
  ps_verifier :: "address option"
  ps_maximum_deposit_amount :: "u256 option"
  ps_nullifiers :: "(u256 \<Rightarrow> bool option) option"
  ps_asp_membership :: "address option"
  ps_asp_non_membership :: "address option"
  ps_merkle :: merkle_store

record pool_world =
  pw_store :: pool_store
  pw_calls :: "token_call list"
  pw_events :: "pool_event list"

record pool_env =
  pe_this :: address
  pe_auth :: auths
  pe_to_xdr :: "ext_data \<Rightarrow> byte list"
  pe_keccak256 :: "byte list \<Rightarrow> byte list"
  pe_asp_root :: "address \<Rightarrow> u256 option"
  pe_verify :: "address \<Rightarrow> groth16_proof \<Rightarrow> fr list \<Rightarrow> bool option"
  pe_transfer_ok :: "token_call list \<Rightarrow> token_call \<Rightarrow> bool"

section \<open>Arithmetic\<close>

definition in_i256 :: "int \<Rightarrow> bool" where
  "in_i256 x = (- (2 ^ 255) \<le> x \<and> x < 2 ^ 255)"

text \<open>\<open>I256::sub\<close> traps on overflow; \<open>to_i128\<close> is defined on the values that fit.\<close>

definition i256_sub :: "i256 \<Rightarrow> i256 \<Rightarrow> ('e, i256) outcome" where
  "i256_sub a b = (if in_i256 (sint a - sint b) then Inr (a - b) else Inl Panic)"

definition i256_to_i128 :: "i256 \<Rightarrow> i128 option" where
  "i256_to_i128 v = (if in_i128 (sint v) then Some (word_of_int (sint v)) else None)"

definition u256_sub :: "u256 \<Rightarrow> u256 \<Rightarrow> ('e, u256) outcome" where
  "u256_sub a b = expect (checked_sub a b)"

definition max_ext_amount :: u256 where
  "max_ext_amount = from_limbs [0, 0, 0, 0x0100000000000000]"

definition i256_abs_to_u256 :: "i256 \<Rightarrow> (pool_error, u256) outcome" where
  "i256_abs_to_u256 v =
     andThen (if 0 \<le> sint v then Inr v else i256_sub 0 v) (\<lambda>abs.
     Inr (from_be (to_be 32 abs)))"

definition i256_to_i128_nonneg :: "i256 \<Rightarrow> (pool_error, i128) outcome" where
  "i256_to_i128_nonneg v =
     (if sint v < 0 then Inl (Fail Pool_WrongExtAmount)
      else ok_or Pool_WrongExtAmount (i256_to_i128 v))"

definition calculate_public_amount :: "i256 \<Rightarrow> (pool_error, u256) outcome" where
  "calculate_public_amount ext_amount =
     andThen (i256_abs_to_u256 ext_amount) (\<lambda>abs_ext.
     if max_ext_amount \<le> abs_ext then Inl (Fail Pool_WrongExtAmount)
     else if 0 \<le> sint ext_amount then Inr (from_be (to_be 32 ext_amount))
     else
       andThen (i256_sub 0 ext_amount) (\<lambda>neg.
       let neg_u256 = from_be (to_be 32 neg) in
       u256_sub bn256_modulus neg_u256))"

definition u256_to_bytes :: "u256 \<Rightarrow> byte list" where
  "u256_to_bytes v = to_be 32 v"

definition hash_ext_data :: "pool_env \<Rightarrow> ext_data \<Rightarrow> byte list" where
  "hash_ext_data env ext =
     (let payload = pe_to_xdr env ext;
          digest = pe_keccak256 env payload;
          digest_u256 = from_be digest;
          reduced = digest_u256 mod bn256_modulus in
      to_be 32 reduced)"

section \<open>Storage access\<close>

definition get_nullifiers :: "pool_store \<Rightarrow> (pool_error, u256 \<Rightarrow> bool option) outcome" where
  "get_nullifiers st = ok_or Pool_NotInitialized (ps_nullifiers st)"

definition get_token :: "pool_store \<Rightarrow> (pool_error, address) outcome" where
  "get_token st = ok_or Pool_NotInitialized (ps_token st)"

definition get_maximum_deposit :: "pool_store \<Rightarrow> (pool_error, u256) outcome" where
  "get_maximum_deposit st = ok_or Pool_NotInitialized (ps_maximum_deposit_amount st)"

definition get_verifier :: "pool_store \<Rightarrow> (pool_error, address) outcome" where
  "get_verifier st = ok_or Pool_NotInitialized (ps_verifier st)"

definition get_admin :: "pool_store \<Rightarrow> (pool_error, address) outcome" where
  "get_admin st = ok_or Pool_NotInitialized (ps_admin st)"

definition get_asp_membership :: "pool_store \<Rightarrow> (pool_error, address) outcome" where
  "get_asp_membership st = ok_or Pool_NotInitialized (ps_asp_membership st)"

definition get_asp_non_membership :: "pool_store \<Rightarrow> (pool_error, address) outcome" where
  "get_asp_non_membership st = ok_or Pool_NotInitialized (ps_asp_non_membership st)"

definition get_asp_membership_root :: "pool_env \<Rightarrow> pool_store \<Rightarrow> (pool_error, u256) outcome" where
  "get_asp_membership_root env st = andThen (get_asp_membership st) (\<lambda>a. expect (pe_asp_root env a))"

definition get_asp_non_membership_root :: "pool_env \<Rightarrow> pool_store \<Rightarrow> (pool_error, u256) outcome" where
  "get_asp_non_membership_root env st = andThen (get_asp_non_membership st) (\<lambda>a. expect (pe_asp_root env a))"

definition pool_get_root :: "pool_store \<Rightarrow> (pool_error, u256) outcome" where
  "pool_get_root st = merkle_call (get_last_root (ps_merkle st))"

definition pool_is_known_root :: "u256 \<Rightarrow> pool_store \<Rightarrow> (pool_error, bool) outcome" where
  "pool_is_known_root root st = merkle_call (is_known_root root (ps_merkle st))"

section \<open>Construction and administration\<close>

definition pool_empty :: pool_store where
  "pool_empty = \<lparr>ps_admin = None, ps_token = None, ps_verifier = None, ps_maximum_deposit_amount = None,
     ps_nullifiers = None, ps_asp_membership = None, ps_asp_non_membership = None, ps_merkle = empty_store\<rparr>"

definition pool_constructor ::
  "address \<Rightarrow> address \<Rightarrow> address \<Rightarrow> address \<Rightarrow> address \<Rightarrow> u256 \<Rightarrow> nat \<Rightarrow> pool_store \<Rightarrow> (pool_error, pool_store) outcome" where
  "pool_constructor admin token verifier asp_membership asp_non_membership maximum_deposit_amount levels st =
     (let st = st\<lparr>ps_admin := Some admin, ps_token := Some token, ps_verifier := Some verifier,
                  ps_asp_membership := Some asp_membership, ps_asp_non_membership := Some asp_non_membership,
                  ps_maximum_deposit_amount := Some maximum_deposit_amount, ps_nullifiers := Some Map.empty\<rparr> in
      andThen (merkle_call (merkle_init levels (ps_merkle st))) (\<lambda>m. Inr (st\<lparr>ps_merkle := m\<rparr>)))"

definition pool_update_admin :: "auths \<Rightarrow> address \<Rightarrow> pool_store \<Rightarrow> (pool_error, pool_store) outcome" where
  "pool_update_admin auth new_admin st =
     (if ps_admin st = None then Inl (Fail Pool_NotInitialized)
      else andThen (update_admin auth (ps_admin st) new_admin) (\<lambda>admin. Inr (st\<lparr>ps_admin := admin\<rparr>)))"

definition update_asp_membership :: "auths \<Rightarrow> address \<Rightarrow> pool_store \<Rightarrow> (pool_error, pool_store) outcome" where
  "update_asp_membership auth new_asp_membership st =
     andThen (get_admin st) (\<lambda>admin.
     andThen (require_auth auth admin) (\<lambda>_.
     Inr (st\<lparr>ps_asp_membership := Some new_asp_membership\<rparr>)))"

definition update_asp_non_membership :: "auths \<Rightarrow> address \<Rightarrow> pool_store \<Rightarrow> (pool_error, pool_store) outcome" where
  "update_asp_non_membership auth new_asp_non_membership st =
     andThen (get_admin st) (\<lambda>admin.
     andThen (require_auth auth admin) (\<lambda>_.
     Inr (st\<lparr>ps_asp_non_membership := Some new_asp_non_membership\<rparr>)))"

section \<open>Transactions\<close>

definition is_spent :: "pool_store \<Rightarrow> u256 \<Rightarrow> (pool_error, bool) outcome" where
  "is_spent st n =
     andThen (get_nullifiers st) (\<lambda>nulls. Inr (case nulls n of None \<Rightarrow> False | Some b \<Rightarrow> b))"

definition mark_spent :: "pool_store \<Rightarrow> u256 \<Rightarrow> (pool_error, pool_store) outcome" where
  "mark_spent st n =
     andThen (get_nullifiers st) (\<lambda>nulls. Inr (st\<lparr>ps_nullifiers := Some (nulls(n \<mapsto> True))\<rparr>))"

definition validate_bn256_public_input :: "u256 \<Rightarrow> u256 \<Rightarrow> (pool_error, unit) outcome" where
  "validate_bn256_public_input value modulus = guard (\<not> modulus \<le> value) Pool_NonCanonicalPublicInput"

fun validate_all :: "u256 list \<Rightarrow> u256 \<Rightarrow> (pool_error, unit) outcome" where
  "validate_all [] modulus = Inr ()"
| "validate_all (v # vs) modulus =
     andThen (validate_bn256_public_input v modulus) (\<lambda>_. validate_all vs modulus)"

definition validate_bn256_public_inputs :: "pool_proof \<Rightarrow> u256 \<Rightarrow> (pool_error, unit) outcome" where
  "validate_bn256_public_inputs p modulus =
     andThen (validate_bn256_public_input (pp_root p) modulus) (\<lambda>_.
     andThen (validate_bn256_public_input (pp_public_amount p) modulus) (\<lambda>_.
     andThen (validate_all (pp_input_nullifiers p) modulus) (\<lambda>_.
     andThen (validate_bn256_public_input (pp_output_commitment0 p) modulus) (\<lambda>_.
     andThen (validate_bn256_public_input (pp_output_commitment1 p) modulus) (\<lambda>_.
     andThen (validate_bn256_public_input (pp_asp_membership_root p) modulus) (\<lambda>_.
     validate_bn256_public_input (pp_asp_non_membership_root p) modulus))))))"

definition public_inputs :: "pool_proof \<Rightarrow> fr list" where
  "public_inputs p =
     [u256_to_bytes (pp_root p), u256_to_bytes (pp_public_amount p), pp_ext_data_hash p] @
     map u256_to_bytes (pp_input_nullifiers p) @
     [u256_to_bytes (pp_output_commitment0 p), u256_to_bytes (pp_output_commitment1 p)] @
     replicate (length (pp_input_nullifiers p)) (u256_to_bytes (pp_asp_membership_root p)) @
     replicate (length (pp_input_nullifiers p)) (u256_to_bytes (pp_asp_non_membership_root p))"

definition verify_proof :: "pool_env \<Rightarrow> pool_store \<Rightarrow> pool_proof \<Rightarrow> (pool_error, bool) outcome" where
  "verify_proof env st p =
     (if proof_is_empty (pp_proof p) then Inl (Fail Pool_InvalidProof)
      else
        andThen (get_verifier st) (\<lambda>verifier.
        andThen (validate_bn256_public_inputs p bn256_modulus) (\<lambda>_.
        expect (pe_verify env verifier (pp_proof p) (public_inputs p)))))"

text \<open>The loop over the nullifiers before anything is written.\<close>

fun check_nullifiers :: "pool_store \<Rightarrow> u256 list \<Rightarrow> (pool_error, unit) outcome" where
  "check_nullifiers st [] = Inr ()"
| "check_nullifiers st (n # ns) =
     andThen (is_spent st n) (\<lambda>spent.
     if spent then Inl (Fail Pool_AlreadySpentNullifier) else check_nullifiers st ns)"

text \<open>The loop that marks them; the result of \<open>mark_spent\<close> is dropped.\<close>

fun spend_nullifiers :: "u256 list \<Rightarrow> pool_world \<Rightarrow> pool_world" where
  "spend_nullifiers [] w = w"
| "spend_nullifiers (n # ns) w =
     (let st = (case mark_spent (pw_store w) n of Inr st \<Rightarrow> st | Inl _ \<Rightarrow> pw_store w) in
      spend_nullifiers ns (w\<lparr>pw_store := st, pw_events := pw_events w @ [NewNullifierEvent n]\<rparr>))"

definition token_transfer ::
  "pool_env \<Rightarrow> address \<Rightarrow> address \<Rightarrow> address \<Rightarrow> i128 \<Rightarrow> pool_world \<Rightarrow> (pool_error, pool_world) outcome" where
  "token_transfer env token sender recipient amount w =
     (let call = \<lparr>tc_token = token, tc_from = sender, tc_to = recipient, tc_amount = amount\<rparr> in
      if pe_transfer_ok env (pw_calls w) call then Inr (w\<lparr>pw_calls := pw_calls w @ [call]\<rparr>) else Inl Panic)"

definition internal_transact ::
  "permutation \<Rightarrow> pool_env \<Rightarrow> pool_proof \<Rightarrow> ext_data \<Rightarrow> pool_world \<Rightarrow> (pool_error, pool_world) outcome" where
  "internal_transact perm env p ext w =
     (let st = pw_store w in
      andThen (merkle_call (is_known_root (pp_root p) (ps_merkle st))) (\<lambda>known.
      andThen (guard known Pool_UnknownRoot) (\<lambda>_.
      andThen (check_nullifiers st (pp_input_nullifiers p)) (\<lambda>_.
      andThen (guard (hash_ext_data env ext = pp_ext_data_hash p) Pool_WrongExtHash) (\<lambda>_.
      andThen (calculate_public_amount (ed_ext_amount ext)) (\<lambda>expected_public_amount.
      andThen (guard (pp_public_amount p = expected_public_amount) Pool_WrongExtAmount) (\<lambda>_.
      andThen (get_asp_membership_root env st) (\<lambda>member_root.
      andThen (get_asp_non_membership_root env st) (\<lambda>non_member_root.
      andThen (guard (member_root = pp_asp_membership_root p \<and> non_member_root = pp_asp_non_membership_root p)
                 Pool_InvalidProof) (\<lambda>_.
      andThen (verify_proof env st p) (\<lambda>valid.
      andThen (guard valid Pool_InvalidProof) (\<lambda>_.
      let w = spend_nullifiers (pp_input_nullifiers p) w in
      andThen (get_token (pw_store w)) (\<lambda>token.
      andThen (if sint (ed_ext_amount ext) < 0
               then andThen (i256_sub 0 (ed_ext_amount ext)) (\<lambda>abs.
                    andThen (i256_to_i128_nonneg abs) (\<lambda>amount.
                    token_transfer env token (pe_this env) (ed_recipient ext) amount w))
               else Inr w) (\<lambda>w.
      andThen (merkle_call (insert_two_leaves perm (pp_output_commitment0 p) (pp_output_commitment1 p)
                 (ps_merkle (pw_store w)))) (\<lambda>((idx_0, idx_1), m).
      Inr (w\<lparr>pw_store := (pw_store w)\<lparr>ps_merkle := m\<rparr>,
             pw_events := pw_events w @
               [NewCommitmentEvent (pp_output_commitment0 p) idx_0 (ed_encrypted_output0 ext),
                NewCommitmentEvent (pp_output_commitment1 p) idx_1 (ed_encrypted_output1 ext)]\<rparr>))))))))))))))))"

definition transact ::
  "permutation \<Rightarrow> pool_env \<Rightarrow> pool_proof \<Rightarrow> ext_data \<Rightarrow> address \<Rightarrow> pool_world \<Rightarrow> (pool_error, pool_world) outcome" where
  "transact perm env p ext sender w =
     andThen (require_auth (pe_auth env) sender) (\<lambda>_.
     andThen (get_token (pw_store w)) (\<lambda>token.
     andThen (if 0 < sint (ed_ext_amount ext)
              then let deposit_u = from_be (to_be 32 (ed_ext_amount ext)) in
                   andThen (get_maximum_deposit (pw_store w)) (\<lambda>max.
                   andThen (guard (\<not> max < deposit_u) Pool_WrongExtAmount) (\<lambda>_.
                   andThen (i256_to_i128_nonneg (ed_ext_amount ext)) (\<lambda>amount.
                   token_transfer env token sender (pe_this env) amount w)))
              else Inr w) (\<lambda>w.
     internal_transact perm env p ext w)))"

end
