(* ===== verification/PoolLedger.thy ===== *)
theory PoolLedger imports Pool begin

text \<open>
  What the pool promises: the contract of one transaction (when it is accepted and the state
  it leaves) and, over the histories of accepted transactions and administrative calls, the
  ledger: commitments, spent nullifiers, token transfers, events and balances.
\<close>

section \<open>Public amounts\<close>

lemma from_be_to_be_32 [simp]: "from_be (to_be 32 v) = (v :: u256)"
  by (rule from_be_to_be) simp

lemma uint_nonneg_sint:
  assumes "0 \<le> sint v"
  shows "uint (v :: 'w::len word) = sint v"
proof -
  have "sint v < 2 ^ LENGTH('w)"
    using sint_less [of v] by (rule less_le_trans) (simp add: power_increasing)
  then show ?thesis using assms by (simp add: uint_sint take_bit_int_eq_self)
qed

lemma unat_nonneg_sint: "0 \<le> sint v \<Longrightarrow> int (unat (v :: 'w::len word)) = sint v"
  using uint_nonneg_sint [of v] by simp

lemma i256_sub_zero:
  assumes "- (2 ^ 255) < sint v"
  shows "i256_sub 0 v = (Inr (- v) :: ('e, i256) outcome)" "sint (- v) = - sint v"
proof -
  have b: "- (2 ^ 255) \<le> - sint v" "- sint v < 2 ^ 255"
    using assms sint_less [of v] by simp_all
  then show "i256_sub 0 v = (Inr (- v) :: ('e, i256) outcome)" by (simp add: i256_sub_def in_i256_def)
  show "sint (- v) = - sint v"
    using b by (simp add: sint_word_ariths signed_take_bit_int_eq_self)
qed

lemma unat_max_ext_amount: "unat max_ext_amount = 2 ^ 248"
  by (simp add: max_ext_amount_def from_limbs_def)

lemma i256_abs_ok:
  assumes "- (2 ^ 255) < sint v"
  shows "\<exists>a. i256_abs_to_u256 v = Inr a \<and> int (unat a) = \<bar>sint v\<bar>"
proof (cases "0 \<le> sint v")
  case True
  then show ?thesis by (simp add: i256_abs_to_u256_def uint_nonneg_sint)
next
  case False
  have neg: "i256_sub 0 v = (Inr (- v) :: (pool_error, i256) outcome)"
    using i256_sub_zero(1) [OF assms] .
  have "0 \<le> sint (- v)" using False i256_sub_zero(2) [OF assms] by simp
  then show ?thesis using False neg i256_sub_zero(2) [OF assms] unat_nonneg_sint [of "- v"]
    by (simp add: i256_abs_to_u256_def uint_nonneg_sint)
qed

lemma calculate_public_amount_iff:
  "calculate_public_amount v = Inr r \<longleftrightarrow>
    \<bar>sint v\<bar> < 2 ^ 248 \<and> int (unat r) = sint v mod int bn_p"
proof (cases "- (2 ^ 255) < sint v")
  case False
  have "i256_abs_to_u256 v = Inl Panic"
    using False sint_ge [of v] by (simp add: i256_abs_to_u256_def i256_sub_def in_i256_def)
  then show ?thesis using False by (simp add: calculate_public_amount_def)
next
  case True
  then obtain a where a: "i256_abs_to_u256 v = Inr a" "int (unat a) = \<bar>sint v\<bar>"
    using i256_abs_ok by blast
  have big: "max_ext_amount \<le> a \<longleftrightarrow> 2 ^ 248 \<le> \<bar>sint v\<bar>"
  proof -
    have "max_ext_amount \<le> a \<longleftrightarrow> int (2 ^ 248) \<le> int (unat a)"
      by (simp only: word_le_nat_alt unat_max_ext_amount of_nat_le_iff)
    then show ?thesis using a(2) by simp
  qed
  show ?thesis
  proof (cases "\<bar>sint v\<bar> < 2 ^ 248")
    case False
    then show ?thesis using a big by (simp add: calculate_public_amount_def)
  next
    case small: True
    show ?thesis
    proof (cases "0 \<le> sint v")
      case True
      have "sint v mod int bn_p = sint v" using small True by (intro mod_pos_pos_trivial) simp_all
      then show ?thesis using a big small True unat_nonneg_sint [OF True]
        by (auto simp: calculate_public_amount_def word_unat_eq_iff simp flip: of_nat_eq_iff [where 'a = int])
    next
      case False
      have neg: "sint (- v) = - sint v" "i256_sub 0 v = (Inr (- v) :: (pool_error, i256) outcome)"
        using i256_sub_zero [OF True] by simp_all
      then have n: "int (unat (- v)) = - sint v" using False unat_nonneg_sint [of "- v"] by simp
      have m: "sint v mod int bn_p = sint v + int bn_p"
        using mod_pos_pos_trivial [of "sint v + int bn_p" "int bn_p"] small False by simp
      have "calculate_public_amount v = u256_sub bn256_modulus (- v)"
        using a big small False neg by (simp add: calculate_public_amount_def)
      then have "calculate_public_amount v = Inr r \<longleftrightarrow> unat bn256_modulus = unat (- v) + unat r"
        by (simp only: u256_sub_def expect_Inr checked_sub_Some)
      also have "\<dots> \<longleftrightarrow> int bn_p = int (unat (- v)) + int (unat r)"
        by (simp only: unat_bn256_modulus of_nat_eq_iff flip: of_nat_add)
      also have "\<dots> \<longleftrightarrow> int (unat r) = sint v mod int bn_p"
        by (simp only: n m) linarith
      finally show ?thesis using small by blast
    qed
  qed
qed

section \<open>The parts of a transaction\<close>

lemma i256_to_i128_nonneg_Inr:
  "i256_to_i128_nonneg v = Inr a \<longleftrightarrow> 0 \<le> sint v \<and> sint v < 2 ^ 127 \<and> a = word_of_int (sint v)"
  by (auto simp: i256_to_i128_nonneg_def ok_or_Inr i256_to_i128_def in_i128_def)

lemma token_transfer_Inr:
  "token_transfer env token sender recipient amount w = Inr w' \<longleftrightarrow>
    (let c = \<lparr>tc_token = token, tc_from = sender, tc_to = recipient, tc_amount = amount\<rparr> in
     pe_transfer_ok env (pw_calls w) c \<and> w' = w\<lparr>pw_calls := pw_calls w @ [c]\<rparr>)"
  by (auto simp: token_transfer_def Let_def)

lemma validate_Inr: "validate_bn256_public_input v m = Inr u \<longleftrightarrow> v < m"
  by (simp add: validate_bn256_public_input_def guard_Inr not_le)

lemma validate_all_Inr: "validate_all vs m = Inr u \<longleftrightarrow> (\<forall>v \<in> set vs. v < m)"
  by (induction vs) (auto simp: andThen_Inr validate_Inr)

definition canonical_inputs :: "pool_proof \<Rightarrow> bool" where
  "canonical_inputs p \<longleftrightarrow>
     (\<forall>v \<in> {pp_root p, pp_public_amount p, pp_output_commitment0 p, pp_output_commitment1 p,
            pp_asp_membership_root p, pp_asp_non_membership_root p} \<union> set (pp_input_nullifiers p).
        v < bn256_modulus)"

lemma validate_inputs_Inr: "validate_bn256_public_inputs p bn256_modulus = Inr u \<longleftrightarrow> canonical_inputs p"
  by (auto simp: validate_bn256_public_inputs_def andThen_Inr validate_Inr validate_all_Inr canonical_inputs_def)

lemma verify_proof_Inr:
  "verify_proof env st p = Inr b \<longleftrightarrow>
    \<not> proof_is_empty (pp_proof p) \<and> canonical_inputs p \<and>
    (\<exists>v. ps_verifier st = Some v \<and> pe_verify env v (pp_proof p) (public_inputs p) = Some b)"
  by (auto simp: verify_proof_def andThen_Inr get_verifier_def ok_or_Inr validate_inputs_Inr expect_Inr)

lemma check_nullifiers_Inr:
  assumes "ps_nullifiers st = Some nulls"
  shows "check_nullifiers st ns = Inr u \<longleftrightarrow> (\<forall>n \<in> set ns. nulls n \<noteq> Some True)"
  using assms
  by (induction ns) (auto simp: andThen_Inr is_spent_def get_nullifiers_def split: option.splits)

lemma spend_nullifiers_ok:
  assumes "ps_nullifiers (pw_store w) = Some nulls"
  shows "spend_nullifiers ns w = w\<lparr>
    pw_store := (pw_store w)\<lparr>ps_nullifiers := Some (\<lambda>n. if n \<in> set ns then Some True else nulls n)\<rparr>,
    pw_events := pw_events w @ map NewNullifierEvent ns\<rparr>"
  using assms
proof (induction ns arbitrary: w nulls)
  case Nil
  then show ?case by (simp add: pool_world.equality pool_store.equality)
next
  case (Cons n ns)
  let ?w = "w\<lparr>pw_store := (pw_store w)\<lparr>ps_nullifiers := Some (nulls(n \<mapsto> True))\<rparr>,
    pw_events := pw_events w @ [NewNullifierEvent n]\<rparr>"
  have "spend_nullifiers (n # ns) w = spend_nullifiers ns ?w"
    using Cons.prems by (simp add: mark_spent_def get_nullifiers_def)
  then show ?case using Cons.IH [of ?w "nulls(n \<mapsto> True)"]
    by (simp add: fun_eq_iff if_distrib)
qed

lemma merkle_call_Inr: "merkle_call m = Inr a \<longleftrightarrow> m = Inr a"
  by (auto simp: merkle_call_def split: sum.splits fault.splits)

section \<open>The contract of a transaction\<close>

text \<open>
  The token transfer a transaction makes before its checks and the one it makes after
  them, what it demands, and the ledger it leaves.
\<close>

definition deposit_calls :: "address \<Rightarrow> address \<Rightarrow> ext_data \<Rightarrow> address \<Rightarrow> token_call list" where
  "deposit_calls this token ext sender =
     (if 0 < sint (ed_ext_amount ext)
      then [\<lparr>tc_token = token, tc_from = sender, tc_to = this, tc_amount = word_of_int (sint (ed_ext_amount ext))\<rparr>]
      else [])"

definition withdrawal_calls :: "address \<Rightarrow> address \<Rightarrow> ext_data \<Rightarrow> token_call list" where
  "withdrawal_calls this token ext =
     (if sint (ed_ext_amount ext) < 0
      then [\<lparr>tc_token = token, tc_from = this, tc_to = ed_recipient ext,
             tc_amount = word_of_int (- sint (ed_ext_amount ext))\<rparr>]
      else [])"

definition transfers_ok :: "pool_env \<Rightarrow> token_call list \<Rightarrow> token_call list \<Rightarrow> bool" where
  "transfers_ok env done cs = (\<forall>i < length cs. pe_transfer_ok env (done @ take i cs) (cs ! i))"

definition proof_accepted :: "pool_env \<Rightarrow> pool_store \<Rightarrow> pool_proof \<Rightarrow> bool" where
  "proof_accepted env st p \<longleftrightarrow>
     \<not> proof_is_empty (pp_proof p) \<and> canonical_inputs p \<and>
     (\<exists>v. ps_verifier st = Some v \<and> pe_verify env v (pp_proof p) (public_inputs p) = Some True)"

definition asp_roots_match :: "pool_env \<Rightarrow> pool_store \<Rightarrow> pool_proof \<Rightarrow> bool" where
  "asp_roots_match env st p \<longleftrightarrow>
     (\<exists>m n. ps_asp_membership st = Some m \<and> ps_asp_non_membership st = Some n \<and>
        pe_asp_root env m = Some (pp_asp_membership_root p) \<and>
        pe_asp_root env n = Some (pp_asp_non_membership_root p))"

definition amount_matches :: "pool_proof \<Rightarrow> ext_data \<Rightarrow> bool" where
  "amount_matches p ext \<longleftrightarrow>
     \<bar>sint (ed_ext_amount ext)\<bar> < 2 ^ 127 \<and>
     int (unat (pp_public_amount p)) = sint (ed_ext_amount ext) mod int bn_p"

definition deposit_allowed :: "pool_store \<Rightarrow> ext_data \<Rightarrow> bool" where
  "deposit_allowed st ext \<longleftrightarrow>
     0 < sint (ed_ext_amount ext) \<longrightarrow>
     (\<exists>max. ps_maximum_deposit_amount st = Some max \<and> sint (ed_ext_amount ext) \<le> int (unat max))"

text \<open>The well-formed storage: initialized, with the tree of \<open>leaves\<close> and the set \<open>spent\<close>.\<close>

definition pool_ok :: "permutation \<Rightarrow> nat \<Rightarrow> address \<Rightarrow> u256 list \<Rightarrow> u256 set \<Rightarrow> pool_store \<Rightarrow> bool" where
  "pool_ok perm levels token leaves spent st \<longleftrightarrow>
     ps_token st = Some token \<and>
     (\<exists>nulls. ps_nullifiers st = Some nulls \<and> spent = {n. nulls n = Some True}) \<and>
     merkle_ok perm levels leaves (ps_merkle st)"

definition transact_allowed ::
  "permutation \<Rightarrow> nat \<Rightarrow> address \<Rightarrow> u256 list \<Rightarrow> u256 set \<Rightarrow> pool_env \<Rightarrow> pool_proof \<Rightarrow> ext_data \<Rightarrow> address \<Rightarrow>
   pool_world \<Rightarrow> bool" where
  "transact_allowed perm levels token leaves spent env p ext sender w \<longleftrightarrow>
     pe_auth env sender \<and>
     deposit_allowed (pw_store w) ext \<and>
     pp_root p \<noteq> 0 \<and> recent_root perm levels leaves (pp_root p) \<and>
     set (pp_input_nullifiers p) \<inter> spent = {} \<and>
     hash_ext_data env ext = pp_ext_data_hash p \<and>
     amount_matches p ext \<and>
     asp_roots_match env (pw_store w) p \<and>
     proof_accepted env (pw_store w) p \<and>
     length leaves + 2 \<le> 2 ^ levels \<and>
     transfers_ok env (pw_calls w) (deposit_calls (pe_this env) token ext sender @ withdrawal_calls (pe_this env) token ext)"

text \<open>The state a transaction leaves, on the record it found.\<close>

definition transact_effect ::
  "pool_env \<Rightarrow> address \<Rightarrow> pool_proof \<Rightarrow> ext_data \<Rightarrow> address \<Rightarrow> nat \<times> nat \<Rightarrow> merkle_store \<Rightarrow> pool_world \<Rightarrow> pool_world" where
  "transact_effect env token p ext sender idx m w = w\<lparr>
     pw_store := (pw_store w)\<lparr>
       ps_nullifiers := map_option (\<lambda>nulls n. if n \<in> set (pp_input_nullifiers p) then Some True else nulls n)
         (ps_nullifiers (pw_store w)),
       ps_merkle := m\<rparr>,
     pw_calls := pw_calls w @ deposit_calls (pe_this env) token ext sender @ withdrawal_calls (pe_this env) token ext,
     pw_events := pw_events w @ map NewNullifierEvent (pp_input_nullifiers p) @
       [NewCommitmentEvent (pp_output_commitment0 p) (fst idx) (ed_encrypted_output0 ext),
        NewCommitmentEvent (pp_output_commitment1 p) (snd idx) (ed_encrypted_output1 ext)]\<rparr>"

lemma deposit_part:
  "(if 0 < sint (ed_ext_amount ext)
    then let deposit_u = from_be (to_be 32 (ed_ext_amount ext)) in
         andThen (get_maximum_deposit (pw_store w)) (\<lambda>max.
         andThen (guard (\<not> max < deposit_u) Pool_WrongExtAmount) (\<lambda>_.
         andThen (i256_to_i128_nonneg (ed_ext_amount ext)) (\<lambda>amount.
         token_transfer env token sender (pe_this env) amount w)))
    else Inr w) = Inr w1 \<longleftrightarrow>
   deposit_allowed (pw_store w) ext \<and> sint (ed_ext_amount ext) < 2 ^ 127 \<and>
   transfers_ok env (pw_calls w) (deposit_calls (pe_this env) token ext sender) \<and>
   w1 = w\<lparr>pw_calls := pw_calls w @ deposit_calls (pe_this env) token ext sender\<rparr>"
proof (cases "0 < sint (ed_ext_amount ext)")
  case True
  then have "\<not> max < ed_ext_amount ext \<longleftrightarrow> sint (ed_ext_amount ext) \<le> int (unat max)" for max
    using uint_nonneg_sint [of "ed_ext_amount ext"] by (simp add: word_less_def not_less)
  then show ?thesis using True
    by (auto simp: andThen_Inr get_maximum_deposit_def ok_or_Inr guard_Inr i256_to_i128_nonneg_Inr
        token_transfer_Inr deposit_allowed_def deposit_calls_def transfers_ok_def Let_def)
next
  case False
  then show ?thesis by (auto simp: deposit_allowed_def deposit_calls_def transfers_ok_def)
qed

lemma withdrawal_part:
  assumes "\<bar>sint (ed_ext_amount ext)\<bar> < 2 ^ 248"
  shows "(if sint (ed_ext_amount ext) < 0
    then andThen (i256_sub 0 (ed_ext_amount ext)) (\<lambda>abs.
         andThen (i256_to_i128_nonneg abs) (\<lambda>amount.
         token_transfer env token (pe_this env) (ed_recipient ext) amount w))
    else Inr w) = Inr w1 \<longleftrightarrow>
   - sint (ed_ext_amount ext) < 2 ^ 127 \<and>
   transfers_ok env (pw_calls w) (withdrawal_calls (pe_this env) token ext) \<and>
   w1 = w\<lparr>pw_calls := pw_calls w @ withdrawal_calls (pe_this env) token ext\<rparr>"
proof (cases "sint (ed_ext_amount ext) < 0")
  case True
  have lb: "- (2 ^ 255) < sint (ed_ext_amount ext)" using assms by (simp add: abs_less_iff)
  note neg = i256_sub_zero(1) [OF lb, where ?'e = pool_error] i256_sub_zero(2) [OF lb]
  show ?thesis using True
    by (auto simp: neg andThen_Inr i256_to_i128_nonneg_Inr token_transfer_Inr withdrawal_calls_def
        transfers_ok_def Let_def)
next
  case False
  then show ?thesis by (auto simp: withdrawal_calls_def transfers_ok_def)
qed

lemma calculate_public_amount_bound: "calculate_public_amount v = Inr r \<Longrightarrow> \<bar>sint v\<bar> < 2 ^ 248"
  by (simp only: calculate_public_amount_iff)

lemma internal_transact_Inr:
  assumes "ps_nullifiers (pw_store w) = Some nulls" "ps_token (pw_store w) = Some token"
  shows "internal_transact perm env p ext w = Inr w' \<longleftrightarrow>
    is_known_root (pp_root p) (ps_merkle (pw_store w)) = Inr True \<and>
    (\<forall>n \<in> set (pp_input_nullifiers p). nulls n \<noteq> Some True) \<and>
    hash_ext_data env ext = pp_ext_data_hash p \<and>
    calculate_public_amount (ed_ext_amount ext) = Inr (pp_public_amount p) \<and>
    asp_roots_match env (pw_store w) p \<and> proof_accepted env (pw_store w) p \<and>
    - sint (ed_ext_amount ext) < 2 ^ 127 \<and>
    transfers_ok env (pw_calls w) (withdrawal_calls (pe_this env) token ext) \<and>
    (\<exists>i j m. insert_two_leaves perm (pp_output_commitment0 p) (pp_output_commitment1 p) (ps_merkle (pw_store w)) =
       Inr ((i, j), m) \<and>
     w' = w\<lparr>pw_store := (pw_store w)\<lparr>ps_nullifiers :=
         Some (\<lambda>n. if n \<in> set (pp_input_nullifiers p) then Some True else nulls n), ps_merkle := m\<rparr>,
       pw_calls := pw_calls w @ withdrawal_calls (pe_this env) token ext,
       pw_events := pw_events w @ map NewNullifierEvent (pp_input_nullifiers p) @
         [NewCommitmentEvent (pp_output_commitment0 p) i (ed_encrypted_output0 ext),
          NewCommitmentEvent (pp_output_commitment1 p) j (ed_encrypted_output1 ext)]\<rparr>)"
proof -
  have known: "andThen (merkle_call m) (\<lambda>known. andThen (guard known e) (\<lambda>_. k)) = Inr x \<longleftrightarrow> m = Inr True \<and> k = Inr x"
    for m e and k :: "(pool_error, pool_world) outcome" and x
    by (auto simp: andThen_Inr guard_Inr merkle_call_Inr)
  have check: "andThen (check_nullifiers (pw_store w) (pp_input_nullifiers p)) (\<lambda>_. k) = Inr x \<longleftrightarrow>
      (\<forall>n \<in> set (pp_input_nullifiers p). nulls n \<noteq> Some True) \<and> k = Inr x"
    for k :: "(pool_error, pool_world) outcome" and x
    using check_nullifiers_Inr [OF assms(1)] by (auto simp: andThen_Inr)
  have grd: "andThen (guard b e) (\<lambda>_. k) = Inr x \<longleftrightarrow> b \<and> k = Inr x"
    for b e and k :: "(pool_error, pool_world) outcome" and x
    by (auto simp: andThen_Inr guard_Inr)
  have calc: "andThen (calculate_public_amount v) (\<lambda>a. andThen (guard (b = a) e) (\<lambda>_. k)) = Inr x \<longleftrightarrow>
      calculate_public_amount v = Inr b \<and> k = Inr x"
    for v b e and k :: "(pool_error, pool_world) outcome" and x
    by (auto simp: andThen_Inr guard_Inr)
  have roots: "andThen (get_asp_membership_root env st) (\<lambda>a. andThen (get_asp_non_membership_root env st) (\<lambda>b.
      andThen (guard (a = pp_asp_membership_root p \<and> b = pp_asp_non_membership_root p) e) (\<lambda>_. k))) = Inr x
    \<longleftrightarrow> asp_roots_match env st p \<and> k = Inr x"
    for st e and k :: "(pool_error, pool_world) outcome" and x
    by (auto simp: andThen_Inr guard_Inr get_asp_membership_root_def get_asp_non_membership_root_def
        get_asp_membership_def get_asp_non_membership_def ok_or_Inr expect_Inr asp_roots_match_def)
  have ver: "andThen (verify_proof env st p) (\<lambda>valid. andThen (guard valid e) (\<lambda>_. k)) = Inr x
    \<longleftrightarrow> proof_accepted env st p \<and> k = Inr x"
    for st e and k :: "(pool_error, pool_world) outcome" and x
    by (auto simp: andThen_Inr guard_Inr verify_proof_Inr proof_accepted_def)
  show ?thesis
  proof (cases "\<bar>sint (ed_ext_amount ext)\<bar> < 2 ^ 248")
    case False
    then have "calculate_public_amount (ed_ext_amount ext) \<noteq> Inr (pp_public_amount p)"
      using calculate_public_amount_bound by blast
    then show ?thesis
      unfolding internal_transact_def Let_def by (simp only: known check grd calc roots ver) simp
  next
    case True
    show ?thesis
      unfolding internal_transact_def Let_def
      by (simp only: known check grd calc roots ver spend_nullifiers_ok [OF assms(1)] pool_world.simps
          andThen_simps(2))
        (auto simp: andThen_Inr withdrawal_part [OF True] merkle_call_Inr get_token_def assms(2))
  qed
qed

lemma transfers_ok_append:
  "transfers_ok env cs (ds @ es) \<longleftrightarrow> transfers_ok env cs ds \<and> transfers_ok env (cs @ ds) es"
proof -
  have "(\<forall>i < length (ds @ es). P i) \<longleftrightarrow> (\<forall>i < length ds. P i) \<and> (\<forall>i < length es. P (length ds + i))" for P
    by (auto simp: not_less dest: le_Suc_ex) (metis add_less_cancel_left le_Suc_ex not_less)
  then show ?thesis by (simp add: transfers_ok_def nth_append)
qed

lemma calculate_amount_matches:
  "calculate_public_amount (ed_ext_amount ext) = Inr (pp_public_amount p) \<and>
     sint (ed_ext_amount ext) < 2 ^ 127 \<and> - sint (ed_ext_amount ext) < 2 ^ 127 \<longleftrightarrow> amount_matches p ext"
proof -
  have "sint v < 2 ^ 127 \<and> - sint v < 2 ^ 127 \<longleftrightarrow> \<bar>sint v\<bar> < 2 ^ 127" for v :: i256 by linarith
  moreover have "\<bar>sint v\<bar> < 2 ^ 127 \<Longrightarrow> \<bar>sint v\<bar> < 2 ^ 248" for v :: i256 by simp
  ultimately show ?thesis unfolding amount_matches_def calculate_public_amount_iff by blast
qed

lemma transact_Inr:
  assumes "poseidon_ok perm" "pool_ok perm levels token leaves spent (pw_store w)"
  shows "transact perm env p ext sender w = Inr w' \<longleftrightarrow>
    transact_allowed perm levels token leaves spent env p ext sender w \<and>
    (\<exists>m. insert_two_leaves perm (pp_output_commitment0 p) (pp_output_commitment1 p) (ps_merkle (pw_store w)) =
       Inr ((length leaves, length leaves + 1), m) \<and>
     w' = transact_effect env token p ext sender (length leaves, length leaves + 1) m w)"
proof -
  obtain nulls where st: "ps_token (pw_store w) = Some token" "ps_nullifiers (pw_store w) = Some nulls"
    "spent = {n. nulls n = Some True}" "merkle_ok perm levels leaves (ps_merkle (pw_store w))"
    using assms(2) by (auto simp: pool_ok_def)
  let ?w = "w\<lparr>pw_calls := pw_calls w @ deposit_calls (pe_this env) token ext sender\<rparr>"
  let ?ins = "insert_two_leaves perm (pp_output_commitment0 p) (pp_output_commitment1 p) (ps_merkle (pw_store w))"
  have fresh: "set (pp_input_nullifiers p) \<inter> spent = {} \<longleftrightarrow> (\<forall>n \<in> set (pp_input_nullifiers p). nulls n \<noteq> Some True)"
    using st(3) by auto
  have room: "length leaves + 2 \<le> 2 ^ levels \<and> i = length leaves \<and> j = length leaves + 1"
    if "proof_accepted env (pw_store w) p" "?ins = Inr ((i, j), m)" for i j m
  proof -
    have "pp_output_commitment0 p < bn256_modulus" "pp_output_commitment1 p < bn256_modulus"
      using that(1) by (auto simp: proof_accepted_def canonical_inputs_def)
    then show ?thesis
      using insert_two_ok [OF assms(1) st(4), of "pp_output_commitment0 p" "pp_output_commitment1 p"] that(2)
      by (auto split: if_splits)
  qed
  have nulls: "ps_nullifiers (pw_store ?w) = Some nulls" "ps_token (pw_store ?w) = Some token"
    using st by simp_all
  have "transact perm env p ext sender w = Inr w' \<longleftrightarrow>
      pe_auth env sender \<and> deposit_allowed (pw_store w) ext \<and> sint (ed_ext_amount ext) < 2 ^ 127 \<and>
      transfers_ok env (pw_calls w) (deposit_calls (pe_this env) token ext sender) \<and>
      internal_transact perm env p ext ?w = Inr w'"
    by (auto simp: transact_def andThen_Inr require_auth_Inr get_token_def st(1) deposit_part)
  also have "\<dots> \<longleftrightarrow> transact_allowed perm levels token leaves spent env p ext sender w \<and>
      (\<exists>m. ?ins = Inr ((length leaves, length leaves + 1), m) \<and>
       w' = transact_effect env token p ext sender (length leaves, length leaves + 1) m w)"
    unfolding transact_allowed_def transfers_ok_append fresh
    by (auto simp: internal_transact_Inr [OF nulls] is_known_root_ok [OF st(4)] st(2) transact_effect_def
        dest: room simp flip: calculate_amount_matches)
  finally show ?thesis .
qed

lemma transact_succeeds:
  assumes "poseidon_ok perm" "pool_ok perm levels token leaves spent (pw_store w)"
    and "transact_allowed perm levels token leaves spent env p ext sender w"
  shows "\<exists>w'. transact perm env p ext sender w = Inr w'"
proof -
  have "merkle_ok perm levels leaves (ps_merkle (pw_store w))" using assms(2) by (auto simp: pool_ok_def)
  moreover have "pp_output_commitment0 p < bn256_modulus" "pp_output_commitment1 p < bn256_modulus"
    "length leaves + 2 \<le> 2 ^ levels"
    using assms(3) by (auto simp: transact_allowed_def proof_accepted_def canonical_inputs_def)
  ultimately obtain m where "insert_two_leaves perm (pp_output_commitment0 p) (pp_output_commitment1 p)
      (ps_merkle (pw_store w)) = Inr ((length leaves, length leaves + 1), m)"
    using insert_two_ok [OF assms(1)] by (metis (no_types, lifting))
  then show ?thesis using transact_Inr [OF assms(1,2)] assms(3) by blast
qed

lemma transact_keeps:
  assumes "poseidon_ok perm" "pool_ok perm levels token leaves spent (pw_store w)"
    and "transact perm env p ext sender w = Inr w'"
  shows "pool_ok perm levels token (leaves @ [pp_output_commitment0 p, pp_output_commitment1 p])
      (spent \<union> set (pp_input_nullifiers p)) (pw_store w')"
proof -
  obtain m where m: "transact_allowed perm levels token leaves spent env p ext sender w"
    "insert_two_leaves perm (pp_output_commitment0 p) (pp_output_commitment1 p) (ps_merkle (pw_store w)) =
       Inr ((length leaves, length leaves + 1), m)"
    "w' = transact_effect env token p ext sender (length leaves, length leaves + 1) m w"
    using transact_Inr [OF assms(1,2)] assms(3) by blast
  have ok: "merkle_ok perm levels leaves (ps_merkle (pw_store w))" using assms(2) by (auto simp: pool_ok_def)
  have "pp_output_commitment0 p < bn256_modulus" "pp_output_commitment1 p < bn256_modulus"
    using m(1) by (auto simp: transact_allowed_def proof_accepted_def canonical_inputs_def)
  then have "merkle_ok perm levels (leaves @ [pp_output_commitment0 p, pp_output_commitment1 p]) m"
    using insert_two_ok [OF assms(1) ok, of "pp_output_commitment0 p" "pp_output_commitment1 p"] m(2)
    by (auto split: if_splits)
  then show ?thesis using assms(2) by (auto simp: pool_ok_def m(3) transact_effect_def)
qed

section \<open>Histories\<close>

text \<open>
  The calls a pool has accepted, and the ledger they should leave: the commitments in order,
  the nullifiers spent, and the token transfers.
\<close>

type_synonym accepted = "address \<times> pool_proof \<times> ext_data"

fun tx_nullifiers :: "accepted \<Rightarrow> u256 set" where
  "tx_nullifiers (sender, p, ext) = set (pp_input_nullifiers p)"

fun tx_commitments :: "accepted \<Rightarrow> u256 list" where
  "tx_commitments (sender, p, ext) = [pp_output_commitment0 p, pp_output_commitment1 p]"

fun tx_calls :: "address \<Rightarrow> address \<Rightarrow> accepted \<Rightarrow> token_call list" where
  "tx_calls this token (sender, p, ext) = deposit_calls this token ext sender @ withdrawal_calls this token ext"

fun tx_events :: "nat \<times> accepted \<Rightarrow> pool_event list" where
  "tx_events (i, sender, p, ext) = map NewNullifierEvent (pp_input_nullifiers p) @
     [NewCommitmentEvent (pp_output_commitment0 p) (2 * i) (ed_encrypted_output0 ext),
      NewCommitmentEvent (pp_output_commitment1 p) (2 * i + 1) (ed_encrypted_output1 ext)]"

fun tx_matches :: "accepted \<Rightarrow> bool" where
  "tx_matches (sender, p, ext) = amount_matches p ext"

fun tx_public_amount :: "accepted \<Rightarrow> int" where
  "tx_public_amount (sender, p, ext) = int (unat (pp_public_amount p))"

fun tx_recipient :: "accepted \<Rightarrow> address" where
  "tx_recipient (sender, p, ext) = ed_recipient ext"

fun tx_amount :: "accepted \<Rightarrow> int" where
  "tx_amount (sender, p, ext) = sint (ed_ext_amount ext)"

datatype admin_call = UpdateAdmin address | UpdateAspMembership address | UpdateAspNonMembership address

fun admin_step :: "auths \<Rightarrow> admin_call \<Rightarrow> pool_store \<Rightarrow> (pool_error, pool_store) outcome" where
  "admin_step auth (UpdateAdmin a) st = pool_update_admin auth a st"
| "admin_step auth (UpdateAspMembership a) st = update_asp_membership auth a st"
| "admin_step auth (UpdateAspNonMembership a) st = update_asp_non_membership auth a st"

inductive pool_reach ::
  "permutation \<Rightarrow> nat \<Rightarrow> address \<Rightarrow> address \<Rightarrow> accepted list \<Rightarrow> pool_world \<Rightarrow> bool"
  for perm :: permutation and levels :: nat and token :: address and this :: address where
  created: "pool_constructor admin token verifier member non_member max_deposit levels pool_empty = Inr st \<Longrightarrow>
    pool_reach perm levels token this [] \<lparr>pw_store = st, pw_calls = [], pw_events = []\<rparr>"
| transacted: "pool_reach perm levels token this h w \<Longrightarrow> pe_this env = this \<Longrightarrow>
    transact perm env p ext sender w = Inr w' \<Longrightarrow> pool_reach perm levels token this (h @ [(sender, p, ext)]) w'"
| administered: "pool_reach perm levels token this h w \<Longrightarrow> admin_step auth c (pw_store w) = Inr st \<Longrightarrow>
    pool_reach perm levels token this h (w\<lparr>pw_store := st\<rparr>)"

lemma admin_step_Inr:
  "admin_step auth c st = Inr st' \<longleftrightarrow> (\<exists>a. ps_admin st = Some a \<and> auth a) \<and>
    st' = (case c of UpdateAdmin b \<Rightarrow> st\<lparr>ps_admin := Some b\<rparr>
      | UpdateAspMembership b \<Rightarrow> st\<lparr>ps_asp_membership := Some b\<rparr>
      | UpdateAspNonMembership b \<Rightarrow> st\<lparr>ps_asp_non_membership := Some b\<rparr>)"
  by (cases c) (auto simp: pool_update_admin_def update_asp_membership_def update_asp_non_membership_def
      andThen_Inr update_admin_Inr get_admin_def ok_or_Inr require_auth_Inr)

definition ledger_ok :: "permutation \<Rightarrow> nat \<Rightarrow> address \<Rightarrow> address \<Rightarrow> accepted list \<Rightarrow> pool_world \<Rightarrow> bool" where
  "ledger_ok perm levels token this h w \<longleftrightarrow>
     pool_ok perm levels token (concat (map tx_commitments h)) (\<Union> (set (map tx_nullifiers h))) (pw_store w) \<and>
     pw_calls w = concat (map (tx_calls this token) h) \<and>
     pw_events w = concat (map tx_events (enumerate 0 h)) \<and>
     sorted_wrt (\<lambda>t u. tx_nullifiers t \<inter> tx_nullifiers u = {}) h \<and>
     (\<forall>t \<in> set h. tx_matches t)"

lemma length_commitments: "length (concat (map tx_commitments h)) = 2 * length h"
proof (induction h)
  case (Cons t h)
  then show ?case by (cases t) simp
qed simp

lemma pool_created_ok:
  assumes "poseidon_ok perm"
    and "pool_constructor admin token verifier member non_member max_deposit levels pool_empty = Inr st"
  shows "pool_ok perm levels token [] {} st"
proof -
  obtain m where m: "merkle_init levels empty_store = Inr m" "ps_merkle st = m" "ps_token st = Some token"
    "ps_nullifiers st = Some Map.empty"
    using assms(2) by (auto simp: pool_constructor_def pool_empty_def Let_def andThen_Inr merkle_call_Inr)
  then have "1 \<le> levels" "levels \<le> 32" by (auto simp: merkle_init_def split: if_splits)
  then have "merkle_ok perm levels [] m"
    using merkle_init_ok [of perm levels] assms(1) m(1) by (auto simp: poseidon_ok_def)
  then show ?thesis using m by (simp add: pool_ok_def)
qed

lemma pool_reach_ok:
  assumes "pool_reach perm levels token this h w" "poseidon_ok perm"
  shows "ledger_ok perm levels token this h w"
  using assms
proof (induction rule: pool_reach.induct)
  case (created admin verifier member non_member max_deposit st)
  then show ?case using pool_created_ok by (auto simp: ledger_ok_def)
next
  case (transacted h w env p ext sender w')
  let ?leaves = "concat (map tx_commitments h)" and ?spent = "\<Union> (set (map tx_nullifiers h))"
  have ok: "pool_ok perm levels token ?leaves ?spent (pw_store w)"
    "pw_calls w = concat (map (tx_calls this token) h)" "pw_events w = concat (map tx_events (enumerate 0 h))"
    "sorted_wrt (\<lambda>t u. tx_nullifiers t \<inter> tx_nullifiers u = {}) h" "\<forall>t \<in> set h. tx_matches t"
    using transacted.IH [OF transacted.prems] by (simp_all add: ledger_ok_def)
  obtain m where m: "transact_allowed perm levels token ?leaves ?spent env p ext sender w"
    "w' = transact_effect env token p ext sender (length ?leaves, length ?leaves + 1) m w"
    using transact_Inr [OF transacted.prems ok(1)] transacted.hyps(3) by blast
  have "set (pp_input_nullifiers p) \<inter> ?spent = {}" "amount_matches p ext"
    using m(1) by (simp_all add: transact_allowed_def)
  moreover have "pool_ok perm levels token (concat (map tx_commitments (h @ [(sender, p, ext)])))
      (\<Union> (set (map tx_nullifiers (h @ [(sender, p, ext)])))) (pw_store w')"
    using transact_keeps [OF transacted.prems ok(1) transacted.hyps(3)] by (simp add: Un_commute)
  ultimately show ?case
    using ok m(2) transacted.hyps(2) by (auto simp: ledger_ok_def sorted_wrt_append transact_effect_def enumerate_append_eq length_commitments)
next
  case (administered h w auth c st)
  then have "ledger_ok perm levels token this h w" by simp
  then show ?case using administered.hyps(2)
    by (auto simp: ledger_ok_def pool_ok_def admin_step_Inr split: admin_call.splits)
qed

section \<open>Balances\<close>

text \<open>What the transfers bring into an account.\<close>

fun inflow :: "address \<Rightarrow> token_call list \<Rightarrow> int" where
  "inflow a [] = 0"
| "inflow a (c # cs) = (if tc_to c = a then sint (tc_amount c) else 0)
     - (if tc_from c = a then sint (tc_amount c) else 0) + inflow a cs"

lemma inflow_append: "inflow a (cs @ ds) = inflow a cs + inflow a ds"
  by (induction cs) simp_all

lemma sint_i128_word: "- (2 ^ 127) \<le> x \<Longrightarrow> x < 2 ^ 127 \<Longrightarrow> sint (word_of_int x :: i128) = x"
  by (simp add: signed_of_int signed_take_bit_int_eq_self)

lemma sint_i256_word: "- (2 ^ 127) \<le> x \<Longrightarrow> x < 2 ^ 127 \<Longrightarrow> sint (word_of_int x :: i256) = x"
  by (simp add: signed_of_int signed_take_bit_int_eq_self)

lemma inflow_tx:
  assumes "tx_matches t" "fst t \<noteq> this"
  shows "tx_amount t \<le> inflow this (tx_calls this token t)"
    and "tx_recipient t \<noteq> this \<Longrightarrow> inflow this (tx_calls this token t) = tx_amount t"
proof -
  obtain sender p ext where t: "t = (sender, p, ext)" by (cases t)
  have "\<bar>sint (ed_ext_amount ext)\<bar> < 2 ^ 127" using assms(1) t by (simp only: amount_matches_def tx_matches.simps)
  then have "sint (word_of_int (sint (ed_ext_amount ext)) :: i128) = sint (ed_ext_amount ext)"
    "sint (word_of_int (- sint (ed_ext_amount ext)) :: i128) = - sint (ed_ext_amount ext)"
    by (intro sint_i128_word; linarith)+
  then show "tx_amount t \<le> inflow this (tx_calls this token t)"
    "tx_recipient t \<noteq> this \<Longrightarrow> inflow this (tx_calls this token t) = tx_amount t"
    using assms(2) t by (auto simp: deposit_calls_def withdrawal_calls_def)
qed

lemma inflow_history:
  assumes "\<forall>t \<in> set h. tx_matches t" "\<forall>t \<in> set h. fst t \<noteq> this"
  shows "sum_list (map tx_amount h) \<le> inflow this (concat (map (tx_calls this token) h))"
  using assms inflow_tx(1) by (induction h) (auto simp: inflow_append intro!: add_mono)

lemma inflow_history_exact:
  assumes "\<forall>t \<in> set h. tx_matches t" "\<forall>t \<in> set h. fst t \<noteq> this" "\<forall>t \<in> set h. tx_recipient t \<noteq> this"
  shows "inflow this (concat (map (tx_calls this token) h)) = sum_list (map tx_amount h)"
  using assms inflow_tx(2) by (induction h) (simp_all add: inflow_append)

lemma public_amounts_sum:
  assumes "\<forall>t \<in> set h. tx_matches t"
  shows "sum_list (map tx_public_amount h) mod int bn_p = sum_list (map tx_amount h) mod int bn_p"
  using assms
proof (induction h)
  case (Cons t h)
  obtain sender p ext where t: "t = (sender, p, ext)" by (cases t)
  have "tx_matches (sender, p, ext)" using Cons.prems t by simp
  then have "tx_public_amount t = tx_amount t mod int bn_p"
    unfolding t by (simp only: tx_matches.simps amount_matches_def tx_public_amount.simps tx_amount.simps)
  then have "tx_public_amount t mod int bn_p = tx_amount t mod int bn_p" by (simp only: mod_mod_trivial)
  moreover have "sum_list (map tx_public_amount h) mod int bn_p = sum_list (map tx_amount h) mod int bn_p"
    using Cons by simp
  ultimately show ?case by (simp only: list.map sum_list.Cons) (rule mod_add_cong)
qed simp

section \<open>Public inputs\<close>

lemma u256_to_bytes_eq [simp]: "u256_to_bytes v = u256_to_bytes w \<longleftrightarrow> v = w"
  by (metis from_be_to_be_32 u256_to_bytes_def)

lemma length_public_inputs: "length (public_inputs p) = 3 * length (pp_input_nullifiers p) + 5"
  by (simp add: public_inputs_def)

lemma map_bytes_eq: "map u256_to_bytes vs = map u256_to_bytes ws \<longleftrightarrow> vs = ws"
  by (rule inj_map_eq_map) (simp add: inj_def)

section \<open>Administration\<close>

interpretation pool_gate: admin_gate ps_admin admin_step
  by unfold_locales (auto simp: admin_step_Inr)

section \<open>Properties\<close>

text \<open>
  Property C2: on every reachable pool a transaction is accepted exactly when the sender
  authorized it, a deposit is within the maximum, the root is the root after one of the last
  ninety insertions, no nullifier was spent by an earlier transaction, the proof is for these
  external data and this amount, the association set roots are the current ones, the verifier
  accepts the proof on the public inputs, the tree has room for two commitments and the
  token transfers go through.
\<close>

theorem pool_transact_iff:
  assumes "poseidon_ok perm" "pool_reach perm levels token this h w"
  shows "(\<exists>w'. transact perm env p ext sender w = Inr w') \<longleftrightarrow>
    transact_allowed perm levels token (concat (map tx_commitments h)) (\<Union> (set (map tx_nullifiers h))) env p ext sender w"
proof -
  have "pool_ok perm levels token (concat (map tx_commitments h)) (\<Union> (set (map tx_nullifiers h))) (pw_store w)"
    using pool_reach_ok [OF assms(2,1)] by (simp add: ledger_ok_def)
  from transact_Inr [OF assms(1) this] transact_succeeds [OF assms(1) this] show ?thesis by blast
qed

text \<open>
  Property C1: no nullifier is spent twice: the nullifiers of any two accepted transactions are
  disjoint, and the contract answers exactly for those of the history that they are spent,
  whatever transactions and administrative calls were made.
\<close>

theorem pool_no_double_spend:
  assumes "poseidon_ok perm" "pool_reach perm levels token this h w"
  shows "(i < j \<longrightarrow> j < length h \<longrightarrow> tx_nullifiers (h ! i) \<inter> tx_nullifiers (h ! j) = {}) \<and>
    is_spent (pw_store w) n = Inr (\<exists>t \<in> set h. n \<in> tx_nullifiers t)"
proof -
  have "ledger_ok perm levels token this h w" by (rule pool_reach_ok [OF assms(2,1)])
  then show ?thesis
    by (auto simp: ledger_ok_def pool_ok_def is_spent_def get_nullifiers_def sorted_wrt_iff_nth_less
        set_eq_iff split: option.split)
qed

text \<open>
  Property C3: the ledger of a reachable pool is the one its history describes: the root is
  the root of the tree of all output commitments in order, the token transfers are those the
  external amounts ask for, each made once, and the published events give every nullifier and
  every commitment with its position in the tree.
\<close>

theorem pool_ledger:
  assumes "poseidon_ok perm" "pool_reach perm levels token this h w"
  shows "pool_get_root (pw_store w) = Inr (tree_root perm (concat (map tx_commitments h)) levels) \<and>
    pw_calls w = concat (map (tx_calls this token) h) \<and>
    pw_events w = concat (map tx_events (enumerate 0 h))"
  using pool_reach_ok [OF assms(2,1)]
  by (auto simp: ledger_ok_def pool_ok_def pool_get_root_def merkle_call_Inr dest: get_last_root_ok)

text \<open>
  Property C4: the pool is solvent: what the transfers have brought into it is at least the sum
  of the external amounts of the accepted transactions, and exactly that when no withdrawal names
  the pool as its recipient; in the field this sum is the sum of the public amounts of the proofs.
  The pool's own address is never a sender.
\<close>

theorem pool_solvent:
  assumes "poseidon_ok perm" "pool_reach perm levels token this h w" "\<forall>t \<in> set h. fst t \<noteq> this"
  shows "sum_list (map tx_amount h) \<le> inflow this (pw_calls w) \<and>
    ((\<forall>t \<in> set h. tx_recipient t \<noteq> this) \<longrightarrow> inflow this (pw_calls w) = sum_list (map tx_amount h)) \<and>
    sum_list (map tx_public_amount h) mod int bn_p = sum_list (map tx_amount h) mod int bn_p"
proof -
  have ok: "\<forall>t \<in> set h. tx_matches t" "pw_calls w = concat (map (tx_calls this token) h)"
    using pool_reach_ok [OF assms(2,1)] by (simp_all add: ledger_ok_def)
  then show ?thesis
    using inflow_history [OF ok(1) assms(3)] inflow_history_exact [OF ok(1) assms(3)] public_amounts_sum [OF ok(1)]
    by auto
qed

text \<open>
  Property C20: the field element the contract computes for an external amount is the one the
  application puts into the proof; for an \<open>i128\<close> amount neither side fails.
\<close>

theorem public_amount_agrees:
  "\<exists>f. f_try_from_ext e = Inr f \<and> calculate_public_amount (word_of_int (sint (ea_val e))) = Inr (f_val f)"
proof -
  obtain f where f: "f_try_from_ext e = Inr f" "int (unat (f_val f)) = sint (ea_val e) mod int bn_p"
    using f_try_from_ext_value by blast
  have b: "- (2 ^ 127) \<le> sint (ea_val e)" "sint (ea_val e) < 2 ^ 127" by (rule sint_i128_bounds)+
  then have w: "sint (word_of_int (sint (ea_val e)) :: i256) = sint (ea_val e)"
    by (intro sint_i256_word; linarith)
  have "\<bar>sint (ea_val e)\<bar> < 2 ^ 248" using b by simp
  then show ?thesis using f unfolding calculate_public_amount_iff w by blast
qed

text \<open>
  Property C19: exactly what the vector given to the verifier determines: two proofs have the same vector if and only
  if they agree in root, public amount, hash of the external data, nullifiers and commitments, and, as
  the association set roots occur once for each nullifier, in these roots unless there is no nullifier.
\<close>

theorem public_inputs_binding:
  "public_inputs p = public_inputs q \<longleftrightarrow>
    pp_root p = pp_root q \<and> pp_public_amount p = pp_public_amount q \<and> pp_ext_data_hash p = pp_ext_data_hash q \<and>
    pp_input_nullifiers p = pp_input_nullifiers q \<and> pp_output_commitment0 p = pp_output_commitment0 q \<and>
    pp_output_commitment1 p = pp_output_commitment1 q \<and>
    (pp_input_nullifiers p \<noteq> [] \<longrightarrow> pp_asp_membership_root p = pp_asp_membership_root q \<and>
      pp_asp_non_membership_root p = pp_asp_non_membership_root q)"
  (is "?same \<longleftrightarrow> ?agree")
proof
  assume same: ?same
  have "length (pp_input_nullifiers p) = length (pp_input_nullifiers q)"
    using length_public_inputs [of p] length_public_inputs [of q] same by simp
  then show ?agree using same
    by (auto simp: public_inputs_def append_eq_append_conv map_bytes_eq replicate_eq_replicate)
next
  assume ?agree
  then show ?same by (cases "pp_input_nullifiers q = []") (simp_all add: public_inputs_def)
qed

text \<open>
  What a refused transaction without a deposit reports: the checks are made in the
  order root, nullifiers, hash of the external data, amount, and nothing is written before the
  last of them has passed.
\<close>

theorem pool_refusals:
  assumes "poseidon_ok perm" "pool_reach perm levels token this h w" "pe_auth env sender"
    and "sint (ed_ext_amount ext) \<le> 0" "- (2 ^ 248) < sint (ed_ext_amount ext)"
    and "\<not> (pp_root p \<noteq> 0 \<and> recent_root perm levels (concat (map tx_commitments h)) (pp_root p) \<and>
      (\<forall>n \<in> set (pp_input_nullifiers p). \<forall>t \<in> set h. n \<notin> tx_nullifiers t) \<and>
      hash_ext_data env ext = pp_ext_data_hash p \<and>
      int (unat (pp_public_amount p)) = sint (ed_ext_amount ext) mod int bn_p)"
  shows "transact perm env p ext sender w = Inl (Fail
    (if \<not> (pp_root p \<noteq> 0 \<and> recent_root perm levels (concat (map tx_commitments h)) (pp_root p)) then Pool_UnknownRoot
     else if \<exists>n \<in> set (pp_input_nullifiers p). \<exists>t \<in> set h. n \<in> tx_nullifiers t then Pool_AlreadySpentNullifier
     else if hash_ext_data env ext \<noteq> pp_ext_data_hash p then Pool_WrongExtHash
     else Pool_WrongExtAmount))"
proof -
  let ?spent = "\<Union> (set (map tx_nullifiers h))"
  obtain nulls where st: "ps_token (pw_store w) = Some token" "ps_nullifiers (pw_store w) = Some nulls"
    "?spent = {n. nulls n = Some True}"
    "merkle_ok perm levels (concat (map tx_commitments h)) (ps_merkle (pw_store w))"
    using pool_reach_ok [OF assms(2,1)] by (auto simp: ledger_ok_def pool_ok_def)
  have spent: "nulls n = Some True \<longleftrightarrow> (\<exists>t \<in> set h. n \<in> tx_nullifiers t)" for n
    using st(3) by (auto simp: set_eq_iff)
  obtain r where r: "calculate_public_amount (ed_ext_amount ext) = Inr r"
    "int (unat r) = sint (ed_ext_amount ext) mod int bn_p"
  proof -
    have "0 \<le> sint (ed_ext_amount ext) mod int bn_p" "sint (ed_ext_amount ext) mod int bn_p < int bn_p"
      by (simp_all add: pos_mod_bound)
    then have "int (unat (word_of_int (sint (ed_ext_amount ext) mod int bn_p) :: u256)) = sint (ed_ext_amount ext) mod int bn_p"
      using unat_word_of_int_u256 [of "sint (ed_ext_amount ext) mod int bn_p"] by simp
    moreover have "\<bar>sint (ed_ext_amount ext)\<bar> < 2 ^ 248" using assms(4,5) by linarith
    ultimately show thesis using that unfolding calculate_public_amount_iff by blast
  qed
  have amount: "pp_public_amount p = r \<longleftrightarrow> int (unat (pp_public_amount p)) = sint (ed_ext_amount ext) mod int bn_p"
    by (simp only: flip: r(2)) (simp only: of_nat_eq_iff word_unat_eq_iff)
  have checked: "check_nullifiers (pw_store w) ns =
    (if \<exists>n \<in> set ns. nulls n = Some True then Inl (Fail Pool_AlreadySpentNullifier) else Inr ())" for ns
    using st(2) by (induction ns) (auto simp: is_spent_def get_nullifiers_def split: option.splits)
  have "transact perm env p ext sender w = internal_transact perm env p ext w"
    using assms(3,4) st(1) by (simp add: transact_def get_token_def)
  then show ?thesis using assms(6)
    by (simp add: internal_transact_def Let_def is_known_root_ok [OF st(4)] merkle_call_def checked spent r(1) amount guard_def) blast
qed

text \<open>
  An administrative call needs the stored administrator: without that authorization
  no sequence of calls changes anything, with it the call changes its own field and nothing else.
\<close>

theorem pool_admin_only:
  assumes "ps_admin st = Some a"
  shows "((\<forall>(auth, c) \<in> set cs. \<not> auth a) \<longrightarrow> attempts admin_step cs st = st) \<and>
    (auth a \<longrightarrow> admin_step auth c st = Inr (case c of UpdateAdmin b \<Rightarrow> st\<lparr>ps_admin := Some b\<rparr>
      | UpdateAspMembership b \<Rightarrow> st\<lparr>ps_asp_membership := Some b\<rparr>
      | UpdateAspNonMembership b \<Rightarrow> st\<lparr>ps_asp_non_membership := Some b\<rparr>))"
  using pool_gate.attempts_refused [OF assms] assms by (auto simp: admin_step_Inr)

section \<open>Runs\<close>

text \<open>
  A pool with a tree of two levels that accepts a deposit of five with two input nullifiers. The
  parameters answer with constants: every transfer goes through, every proof is accepted.
\<close>

definition run_env :: pool_env where
  "run_env = \<lparr>pe_this = Address 9, pe_auth = (\<lambda>_. True), pe_to_xdr = (\<lambda>_. []),
     pe_keccak256 = (\<lambda>_. replicate 32 0), pe_asp_root = (\<lambda>_. Some 7), pe_verify = (\<lambda>_ _ _. Some True),
     pe_transfer_ok = (\<lambda>_ _. True)\<rparr>"

definition run_ext :: ext_data where
  "run_ext = \<lparr>ed_recipient = Address 8, ed_ext_amount = 5, ed_encrypted_output0 = [1], ed_encrypted_output1 = [2]\<rparr>"

definition run_tx :: pool_proof where
  "run_tx = \<lparr>pp_proof = \<lparr>gp_a = [1], gp_b = [1], gp_c = [1]\<rparr>, pp_root = get_zeroes ! 2,
     pp_input_nullifiers = [11, 12], pp_output_commitment0 = 21, pp_output_commitment1 = 22, pp_public_amount = 5,
     pp_ext_data_hash = hash_ext_data run_env run_ext, pp_asp_membership_root = 7, pp_asp_non_membership_root = 7\<rparr>"

lemma run_root: "get_zeroes ! 2 \<noteq> 0" "recent_root run_perm 2 [] (get_zeroes ! 2)"
proof -
  have "unat (get_zeroes ! 2) \<noteq> 0"
    by (simp only: get_zeroes_def nth_Cons_numeral nth_Cons_0 nth_Cons_Suc numeral_2_eq_2 unat_numeral_u256 rel_simps) simp
  then show "get_zeroes ! 2 \<noteq> 0" by auto
  have "tree_root run_perm [] 2 = get_zeroes ! 2"
    by (simp add: tree_root_def merkle_root_empty zero_at_zeroes run_perm_zeroes)
  then show "recent_root run_perm 2 [] (get_zeroes ! 2)"
    by (simp add: recent_root_def root_after_def ROOT_HISTORY_SIZE_def)
qed

lemma run_canonical: "canonical_inputs run_tx"
  using get_zeroes_less [of 2] by (simp add: canonical_inputs_def run_tx_def below_modulus)

lemma run_pool_created:
  "\<exists>st. pool_constructor (Address 1) (Address 2) (Address 3) (Address 6) (Address 7) 100 2 pool_empty = Inr st \<and>
    ps_verifier st = Some (Address 3) \<and> ps_asp_membership st = Some (Address 6) \<and>
    ps_asp_non_membership st = Some (Address 7) \<and> ps_maximum_deposit_amount st = Some 100 \<and> ps_admin st = Some (Address 1)"
proof -
  obtain m where "merkle_init 2 empty_store = Inr m"
    using merkle_init_ok [OF run_perm_zeroes, of 2] by auto
  then show ?thesis by (simp add: pool_constructor_def pool_empty_def merkle_call_def)
qed

lemma run_allowed:
  assumes "pool_constructor (Address 1) (Address 2) (Address 3) (Address 6) (Address 7) 100 2 pool_empty = Inr st"
  shows "transact_allowed run_perm 2 (Address 2) [] {} run_env run_tx run_ext (Address 5)
    \<lparr>pw_store = st, pw_calls = [], pw_events = []\<rparr>"
proof -
  have st: "ps_verifier st = Some (Address 3)" "ps_asp_membership st = Some (Address 6)"
    "ps_asp_non_membership st = Some (Address 7)" "ps_maximum_deposit_amount st = Some 100"
    using run_pool_created assms by auto
  show ?thesis
    using run_root run_canonical st
    by (simp add: transact_allowed_def run_env_def run_tx_def run_ext_def deposit_allowed_def amount_matches_def
        asp_roots_match_def proof_accepted_def proof_is_empty_def transfers_ok_def)
qed

lemma run_pool_start:
  "\<exists>st. pool_reach run_perm 2 (Address 2) (Address 9) [] \<lparr>pw_store = st, pw_calls = [], pw_events = []\<rparr> \<and>
    transact_allowed run_perm 2 (Address 2) [] {} run_env run_tx run_ext (Address 5)
      \<lparr>pw_store = st, pw_calls = [], pw_events = []\<rparr> \<and> ps_admin st = Some (Address 1)"
  using run_pool_created run_allowed pool_reach.created by blast

lemma run_pool: "\<exists>w. pool_reach run_perm 2 (Address 2) (Address 9) [(Address 5, run_tx, run_ext)] w"
proof -
  obtain st where st: "pool_reach run_perm 2 (Address 2) (Address 9) [] \<lparr>pw_store = st, pw_calls = [], pw_events = []\<rparr>"
    "transact_allowed run_perm 2 (Address 2) [] {} run_env run_tx run_ext (Address 5)
      \<lparr>pw_store = st, pw_calls = [], pw_events = []\<rparr>"
    using run_pool_start by blast
  have "pool_ok run_perm 2 (Address 2) [] {} st"
    using pool_reach_ok [OF st(1) run_perm_poseidon_ok] by (simp add: ledger_ok_def)
  then obtain w where "transact run_perm run_env run_tx run_ext (Address 5)
      \<lparr>pw_store = st, pw_calls = [], pw_events = []\<rparr> = Inr w"
    using transact_succeeds [OF run_perm_poseidon_ok _ st(2)] by auto
  then show ?thesis
    using pool_reach.transacted [OF st(1), of run_env run_tx run_ext "Address 5" w] by (auto simp: run_env_def)
qed

theorem pool_transact_iff_witness:
  "\<exists>st w'. pool_reach run_perm 2 (Address 2) (Address 9) [] \<lparr>pw_store = st, pw_calls = [], pw_events = []\<rparr> \<and>
    transact run_perm run_env run_tx run_ext (Address 5) \<lparr>pw_store = st, pw_calls = [], pw_events = []\<rparr> = Inr w'"
proof -
  obtain st where "pool_reach run_perm 2 (Address 2) (Address 9) [] \<lparr>pw_store = st, pw_calls = [], pw_events = []\<rparr>"
    "transact_allowed run_perm 2 (Address 2) [] {} run_env run_tx run_ext (Address 5)
      \<lparr>pw_store = st, pw_calls = [], pw_events = []\<rparr>"
    using run_pool_start by blast
  then show ?thesis
    using pool_transact_iff [OF run_perm_poseidon_ok, of 2 "Address 2" "Address 9" "[]"] by simp blast
qed

theorem pool_no_double_spend_witness:
  "\<exists>w. pool_reach run_perm 2 (Address 2) (Address 9) [(Address 5, run_tx, run_ext)] w \<and>
    is_spent (pw_store w) 12 = Inr True"
proof -
  obtain w where "pool_reach run_perm 2 (Address 2) (Address 9) [(Address 5, run_tx, run_ext)] w"
    using run_pool by blast
  then show ?thesis
    using pool_no_double_spend [OF run_perm_poseidon_ok, of 2 "Address 2" "Address 9" _ w 0 1 12]
    by (intro exI [of _ w]) (simp add: run_tx_def)
qed

theorem pool_ledger_witness:
  "\<exists>w. pool_reach run_perm 2 (Address 2) (Address 9) [(Address 5, run_tx, run_ext)] w \<and>
    pool_get_root (pw_store w) = Inr (tree_root run_perm [21, 22] 2) \<and>
    pw_calls w = [\<lparr>tc_token = Address 2, tc_from = Address 5, tc_to = Address 9, tc_amount = 5\<rparr>]"
proof -
  obtain w where "pool_reach run_perm 2 (Address 2) (Address 9) [(Address 5, run_tx, run_ext)] w"
    using run_pool by blast
  then show ?thesis
    using pool_ledger [OF run_perm_poseidon_ok, of 2 "Address 2" "Address 9" _ w]
    by (intro exI [of _ w]) (simp add: run_tx_def run_ext_def deposit_calls_def withdrawal_calls_def)
qed

theorem pool_solvent_witness:
  "\<exists>w. pool_reach run_perm 2 (Address 2) (Address 9) [(Address 5, run_tx, run_ext)] w \<and>
    inflow (Address 9) (pw_calls w) = 5"
proof -
  obtain w where "pool_reach run_perm 2 (Address 2) (Address 9) [(Address 5, run_tx, run_ext)] w"
    using run_pool by blast
  then show ?thesis
    using pool_solvent [OF run_perm_poseidon_ok, of 2 "Address 2" "Address 9" _ w]
    by (intro exI [of _ w]) (simp add: run_ext_def)
qed

text \<open>
  A proof for one root has another vector than the same proof for another root, and so it is for a set root
  as long as there is a nullifier; without nullifiers the two set roots are not in the vector.
\<close>

theorem public_inputs_binding_witness:
  "public_inputs (run_tx\<lparr>pp_root := 0\<rparr>) \<noteq> public_inputs run_tx \<and>
    public_inputs (run_tx\<lparr>pp_asp_membership_root := 8\<rparr>) \<noteq> public_inputs run_tx \<and>
    public_inputs (run_tx\<lparr>pp_input_nullifiers := [], pp_asp_membership_root := 8\<rparr>) = public_inputs (run_tx\<lparr>pp_input_nullifiers := []\<rparr>)"
  unfolding public_inputs_binding using run_root(1) by (simp add: run_tx_def)

definition run_ext_none :: ext_data where
  "run_ext_none = run_ext\<lparr>ed_ext_amount := 0\<rparr>"

theorem pool_refusals_witness:
  "\<exists>st. transact run_perm run_env (run_tx\<lparr>pp_root := 0\<rparr>) run_ext_none (Address 5)
     \<lparr>pw_store = st, pw_calls = [], pw_events = []\<rparr> = Inl (Fail Pool_UnknownRoot)"
proof -
  obtain st where "pool_reach run_perm 2 (Address 2) (Address 9) [] \<lparr>pw_store = st, pw_calls = [], pw_events = []\<rparr>"
    using run_pool_start by blast
  then show ?thesis
    using pool_refusals [OF run_perm_poseidon_ok, of 2 "Address 2" "Address 9" "[]" _ run_env "Address 5" run_ext_none
        "run_tx\<lparr>pp_root := 0\<rparr>"]
    by (auto simp: run_env_def run_ext_none_def run_ext_def)
qed

theorem pool_admin_only_witness:
  "\<exists>st. ps_admin st = Some (Address 1) \<and>
    attempts admin_step [((\<lambda>a. a = Address 4), UpdateAdmin (Address 4))] st = st \<and>
    admin_step (\<lambda>a. a = Address 1) (UpdateAspMembership (Address 4)) st = Inr (st\<lparr>ps_asp_membership := Some (Address 4)\<rparr>)"
proof -
  obtain st :: pool_store where st: "ps_admin st = Some (Address 1)" using run_pool_created by blast
  show ?thesis
    using pool_admin_only [OF st, of "[((\<lambda>a. a = Address 4), UpdateAdmin (Address 4))]" "\<lambda>a. a = Address 1"
        "UpdateAspMembership (Address 4)"] st
    by (intro exI [of _ st]) simp
qed

end
