(* ===== verification/Spm.thy ===== *)
theory Spm imports Groth16 begin

text \<open>
  The prediction market, from \<^verbatim>\<open>contracts/spm/src/lib.rs\<close>: its storage, the copy of the
  Groth16 verifier it has, voting, resolving and closing. Counters are natural numbers with
  the \<open>u32\<close> bound checked where the code adds or multiplies: the workspace builds with
  overflow checks, so an overflow panics.
\<close>

section \<open>Types\<close>

datatype market_status = Open | Closed | Resolved

record vote_result =
  vr_votes_yes :: nat
  vr_votes_no :: nat
  vr_total_voters :: nat
  vr_minority_wins :: bool

datatype proof_error = SpmInvalidProof | SpmMalformedProof | SpmNullifierAlreadyUsed | SpmMarketNotOpen

record market =
  mk_vk :: "byte list option"
  mk_total_votes :: "nat option"
  mk_voter_cnt :: "nat option"
  mk_status :: "market_status option"
  mk_result :: "vote_result option"
  mk_nullifier_root :: "byte list option"
  mk_used_nullifiers :: "bool option"

definition market_empty :: market where
  "market_empty = \<lparr>mk_vk = None, mk_total_votes = None, mk_voter_cnt = None, mk_status = None, mk_result = None,
     mk_nullifier_root = None, mk_used_nullifiers = None\<rparr>"

definition or_default :: "'a \<Rightarrow> 'a option \<Rightarrow> 'a" where
  "or_default d v = (case v of None \<Rightarrow> d | Some a \<Rightarrow> a)"

lemma or_default_simps [simp]: "or_default d None = d" "or_default d (Some a) = a"
  by (simp_all add: or_default_def)

section \<open>Operations\<close>

definition market_require :: "bool \<Rightarrow> ('e, unit) outcome" where
  "market_require cond = (if \<not> cond then Inl Panic else Inr ())"

fun spm_inputs_loop ::
  "bn_host \<Rightarrow> g1 list \<Rightarrow> fr list \<Rightarrow> nat list \<Rightarrow> g1 \<Rightarrow> (proof_error, g1) outcome" where
  "spm_inputs_loop bn ic public_inputs [] vk_x = Inr vk_x"
| "spm_inputs_loop bn ic public_inputs (i # is) vk_x =
     andThen (ok_or SpmMalformedProof (vec_get public_inputs i)) (\<lambda>s.
     andThen (ok_or SpmMalformedProof (nat_checked_add 32 i 1)) (\<lambda>ic_idx.
     andThen (ok_or SpmMalformedProof (vec_get ic ic_idx)) (\<lambda>v.
     andThen (expect (g1_mul bn v s)) (\<lambda>prod.
     andThen (expect (g1_add bn vk_x prod)) (\<lambda>vk_x.
     spm_inputs_loop bn ic public_inputs is vk_x)))))"

definition verify_groth16 ::
  "bn_host \<Rightarrow> g1 \<Rightarrow> g2 \<Rightarrow> g1 \<Rightarrow> fr list \<Rightarrow> g1 \<Rightarrow> g2 \<Rightarrow> g2 \<Rightarrow> g2 \<Rightarrow> g1 list \<Rightarrow> (proof_error, bool) outcome" where
  "verify_groth16 bn a b c public_inputs alpha beta gamma delta ic =
     (if nat_checked_add 32 (length public_inputs) 1 \<noteq> Some (length ic)
      then Inl (Fail SpmMalformedProof)
      else
        andThen (ok_or SpmMalformedProof (vec_get ic 0)) (\<lambda>vk_0.
        andThen (spm_inputs_loop bn ic public_inputs [0..<length public_inputs] vk_0) (\<lambda>vk_x.
        andThen (expect (g1_neg bn a)) (\<lambda>neg_a.
        andThen (expect (pairing_check bn [neg_a, alpha, vk_x, c] [b, beta, gamma, delta])) (\<lambda>ok.
        if ok then Inr True else Inl (Fail SpmInvalidProof))))))"

definition initialize :: "byte list \<Rightarrow> byte list \<Rightarrow> market \<Rightarrow> market" where
  "initialize vk nullifier_root m =
     m\<lparr>mk_vk := Some vk, mk_nullifier_root := Some nullifier_root, mk_total_votes := Some 0,
       mk_voter_cnt := Some 0, mk_status := Some Open\<rparr>"

record ballot =
  bl_nullifier :: "byte list"
  bl_vote_commitment :: "byte list"
  bl_proof :: groth16_proof
  bl_vk :: verification_key

definition submit_vote :: "bn_host \<Rightarrow> ballot \<Rightarrow> market \<Rightarrow> (proof_error, bool \<times> market) outcome" where
  "submit_vote bn v m =
     (let status = or_default Open (mk_status m) in
      andThen (market_require (status = Open)) (\<lambda>_.
      let used = or_default False (mk_used_nullifiers m) in
      andThen (market_require (\<not> used)) (\<lambda>_.
      let public_inputs = [bl_nullifier v, bl_vote_commitment v]; vk = bl_vk v; p = bl_proof v in
      case verify_groth16 bn (gp_a p) (gp_b p) (gp_c p) public_inputs
             (vk_alpha vk) (vk_beta vk) (vk_gamma vk) (vk_delta vk) (vk_ic vk) of
        Inl Diverge \<Rightarrow> Inl Diverge
      | Inl _ \<Rightarrow> Inl Panic
      | Inr _ \<Rightarrow>
          let m = m\<lparr>mk_used_nullifiers := Some True\<rparr>; total = or_default 0 (mk_total_votes m) in
          andThen (expect (nat_checked_add 32 total 1)) (\<lambda>t.
          let m = m\<lparr>mk_total_votes := Some t\<rparr>; cnt = or_default 0 (mk_voter_cnt m) in
          andThen (expect (nat_checked_add 32 cnt 1)) (\<lambda>c.
          Inr (True, m\<lparr>mk_voter_cnt := Some c\<rparr>))))))"

definition nat_checked_mul :: "nat \<Rightarrow> nat \<Rightarrow> nat \<Rightarrow> nat option" where
  "nat_checked_mul w a b = (if int a * int b < 2 ^ w then Some (a * b) else None)"

definition resolve_market ::
  "nat \<Rightarrow> nat \<Rightarrow> nat \<Rightarrow> nat \<Rightarrow> market \<Rightarrow> (proof_error, vote_result \<times> market) outcome" where
  "resolve_market votes_yes votes_no total_voters minority_threshold m =
     (let status = or_default Open (mk_status m) in
      andThen (market_require (status = Open)) (\<lambda>_.
      let minority = (if votes_yes < votes_no then votes_yes else votes_no) in
      andThen (expect (nat_checked_mul 32 minority 100)) (\<lambda>scaled.
      let pct = scaled div (max total_voters 1);
          minority_wins = (minority_threshold \<le> pct);
          result = \<lparr>vr_votes_yes = votes_yes, vr_votes_no = votes_no, vr_total_voters = total_voters,
                    vr_minority_wins = minority_wins\<rparr> in
      Inr (result, m\<lparr>mk_result := Some result, mk_status := Some Resolved\<rparr>))))"

definition close_market :: "market \<Rightarrow> market" where
  "close_market m = m\<lparr>mk_status := Some Closed\<rparr>"

definition get_status :: "market \<Rightarrow> market_status" where
  "get_status m = or_default Open (mk_status m)"

definition get_result :: "market \<Rightarrow> vote_result option" where
  "get_result m = mk_result m"

definition get_total_votes :: "market \<Rightarrow> nat" where
  "get_total_votes m = or_default 0 (mk_total_votes m)"

definition get_verification_key :: "market \<Rightarrow> byte list option" where
  "get_verification_key m = mk_vk m"

definition get_nullifier_root :: "market \<Rightarrow> byte list option" where
  "get_nullifier_root m = mk_nullifier_root m"

section \<open>The verifier\<close>

fun spm_error :: "groth16_error fault \<Rightarrow> proof_error fault" where
  "spm_error (Fail InvalidProof) = Fail SpmInvalidProof"
| "spm_error (Fail MalformedPublicInputs) = Fail SpmMalformedProof"
| "spm_error (Fail MalformedProof) = Fail SpmMalformedProof"
| "spm_error Panic = Panic"
| "spm_error Diverge = Diverge"

lemma spm_inputs_loop_same:
  "spm_inputs_loop bn ic ps is x = map_sum spm_error id (inputs_loop bn ic ps is x)"
proof (induction "is" arbitrary: x)
  case (Cons i "is")
  have m: "andThen (ok_or SpmMalformedProof a) f = map_sum spm_error id (andThen (ok_or MalformedPublicInputs a) g)"
    if "\<And>v. f v = map_sum spm_error id (g v)" for a :: "'b option" and f g
    using that by (cases a) simp_all
  have e: "andThen (expect a) f = map_sum spm_error id (andThen (expect a) g)"
    if "\<And>v. f v = map_sum spm_error id (g v)" for a :: "g1 option" and f g
    using that by (cases a) simp_all
  show ?case
    unfolding spm_inputs_loop.simps inputs_loop.simps by (intro m e Cons.IH)
qed simp

lemma verify_groth16_same:
  "verify_groth16 bn (gp_a p) (gp_b p) (gp_c p) ps (vk_alpha vk) (vk_beta vk) (vk_gamma vk) (vk_delta vk) (vk_ic vk) =
    map_sum spm_error id (verify_with_vk bn vk p ps)"
  unfolding verify_groth16_def verify_with_vk_def spm_inputs_loop_same
  by (auto simp: andThen_def ok_or_def expect_def split: option.split sum.split)

section \<open>Operations of the market\<close>

lemma market_require_Inr: "market_require c = Inr u \<longleftrightarrow> c"
  by (simp add: market_require_def)

lemma nat_checked_mul_Some: "nat_checked_mul w a b = Some c \<longleftrightarrow> a * b < 2 ^ w \<and> c = a * b"
proof -
  have "int a * int b < 2 ^ w \<longleftrightarrow> int (a * b) < int (2 ^ w)" by simp
  then show ?thesis by (auto simp only: nat_checked_mul_def of_nat_less_iff split: if_splits)
qed

lemma submit_vote_Inr:
  "submit_vote bn v m = Inr (r, m') \<longleftrightarrow>
    r \<and> get_status m = Open \<and> mk_used_nullifiers m \<noteq> Some True \<and>
    verify_with_vk bn (bl_vk v) (bl_proof v) [bl_nullifier v, bl_vote_commitment v] \<in> range Inr \<and>
    get_total_votes m + 1 < 2 ^ 32 \<and> or_default 0 (mk_voter_cnt m) + 1 < 2 ^ 32 \<and>
    m' = m\<lparr>mk_used_nullifiers := Some True, mk_total_votes := Some (get_total_votes m + 1),
      mk_voter_cnt := Some (or_default 0 (mk_voter_cnt m) + 1)\<rparr>"
  by (cases "verify_with_vk bn (bl_vk v) (bl_proof v) [bl_nullifier v, bl_vote_commitment v]")
    (auto simp: submit_vote_def Let_def verify_groth16_same andThen_Inr market_require_Inr expect_Inr
      nat_checked_add_Some get_status_def get_total_votes_def or_default_def split: fault.splits option.splits)

lemma resolve_market_Inr:
  "resolve_market y n t k m = Inr (r, m') \<longleftrightarrow>
    get_status m = Open \<and> min y n * 100 < 2 ^ 32 \<and>
    r = \<lparr>vr_votes_yes = y, vr_votes_no = n, vr_total_voters = t, vr_minority_wins = (k \<le> min y n * 100 div max t 1)\<rparr> \<and>
    m' = m\<lparr>mk_result := Some r, mk_status := Some Resolved\<rparr>"
  by (auto simp: resolve_market_def Let_def andThen_Inr market_require_Inr expect_Inr nat_checked_mul_Some
      get_status_def min_def)

datatype market_call =
    Initialize "byte list" "byte list"
  | SubmitVote ballot
  | ResolveMarket nat nat nat nat
  | CloseMarket

fun market_step :: "bn_host \<Rightarrow> market_call \<Rightarrow> market \<Rightarrow> (proof_error, market) outcome" where
  "market_step bn (Initialize vk nroot) m = Inr (initialize vk nroot m)"
| "market_step bn (SubmitVote v) m = andThen (submit_vote bn v m) (\<lambda>(_, m'). Inr m')"
| "market_step bn (ResolveMarket y n t k) m = andThen (resolve_market y n t k m) (\<lambda>(_, m'). Inr m')"
| "market_step bn CloseMarket m = Inr (close_market m)"

text \<open>The calls a market has accepted, from the empty storage.\<close>

inductive market_reach :: "bn_host \<Rightarrow> market_call list \<Rightarrow> market \<Rightarrow> bool" for bn where
  start: "market_reach bn [] market_empty"
| call: "market_reach bn cs m \<Longrightarrow> market_step bn c m = Inr m' \<Longrightarrow> market_reach bn (cs @ [c]) m'"

fun is_vote :: "market_call \<Rightarrow> bool" where
  "is_vote (SubmitVote v) = True"
| "is_vote _ = False"

lemma market_reach_votes:
  assumes "market_reach bn cs m"
  shows "length (filter is_vote cs) = (if mk_used_nullifiers m = Some True then 1 else 0)"
  using assms
proof induction
  case (call cs m c m')
  then show ?case
    by (cases c) (auto simp: initialize_def close_market_def andThen_Inr submit_vote_Inr resolve_market_Inr)
qed (simp add: market_empty_def)

section \<open>Properties\<close>

text \<open>
  The market's own copy of the verifier answers as the verifier contract does, on
  every proof, key and vector of public inputs, up to the names of the errors.
\<close>

theorem spm_verifier_agrees:
  "verify_groth16 bn (gp_a p) (gp_b p) (gp_c p) ps (vk_alpha vk) (vk_beta vk) (vk_gamma vk) (vk_delta vk) (vk_ic vk) =
    map_sum spm_error id (verify_with_vk bn vk p ps)"
  by (rule verify_groth16_same)

text \<open>
  A market accepts one vote in its whole life. The set of used nullifiers is one
  boolean, which no call resets, so after the first vote every other one panics, whoever casts
  it and whatever its nullifier is, also after the market was initialized again.
\<close>

theorem spm_single_vote:
  assumes "market_reach bn cs m"
  shows "length (filter is_vote cs) \<le> 1 \<and>
    (filter is_vote cs \<noteq> [] \<longrightarrow> submit_vote bn v m = Inl Panic)"
  using market_reach_votes [OF assms]
  by (auto simp: submit_vote_def market_require_def Let_def filter_empty_conv or_default_def
      split: if_splits)

text \<open>
  Resolving an open market records the tally it is given and decides for the
  minority when its share in percent, rounded down, reaches the threshold; it panics when the
  hundredfold minority does not fit a \<open>u32\<close>, and on a market that is closed or resolved.
\<close>

theorem spm_resolve_outcome:
  "resolve_market y n t k m =
    (if get_status m = Open \<and> min y n * 100 < 2 ^ 32 then
       let r = \<lparr>vr_votes_yes = y, vr_votes_no = n, vr_total_voters = t,
                vr_minority_wins = (k * max t 1 \<le> min y n * 100)\<rparr> in
       Inr (r, m\<lparr>mk_result := Some r, mk_status := Some Resolved\<rparr>)
     else Inl Panic)"
proof -
  have share: "k \<le> s div max t 1 \<longleftrightarrow> k * max t 1 \<le> s" for s
    by (simp add: less_eq_div_iff_mult_less_eq)
  show ?thesis
  proof (cases "resolve_market y n t k m")
    case (Inr x)
    then show ?thesis by (cases x) (simp add: resolve_market_Inr share [unfolded One_nat_def] Let_def)
  next
    case (Inl e)
    then have "\<not> (get_status m = Open \<and> min y n * 100 < 2 ^ 32)"
      using resolve_market_Inr [of y n t k m] by auto
    moreover have "e = Panic" using Inl
      by (auto simp: resolve_market_def Let_def andThen_Inl market_require_def expect_def split: if_splits option.splits)
    ultimately show ?thesis using Inl by auto
  qed
qed

text \<open>
  Nothing in the market depends on who calls it or on what was initialized: a
  closed or resolved market is reopened by a second \<open>initialize\<close>, and whether a vote is
  accepted does not depend on the stored verification key or nullifier root.
\<close>

theorem spm_unbound:
  "get_status (initialize vk nroot m) = Open \<and> get_total_votes (initialize vk nroot m) = 0 \<and>
   map_sum id (\<lambda>(r, m'). (r, mk_total_votes m', mk_voter_cnt m', mk_used_nullifiers m'))
     (submit_vote bn v (m\<lparr>mk_vk := a, mk_nullifier_root := b\<rparr>)) =
   map_sum id (\<lambda>(r, m'). (r, mk_total_votes m', mk_voter_cnt m', mk_used_nullifiers m')) (submit_vote bn v m)"
  by (simp add: initialize_def get_status_def get_total_votes_def submit_vote_def Let_def andThen_def
      split: sum.split fault.split)

section \<open>Runs\<close>

definition run_ballot :: ballot where
  "run_ballot = \<lparr>bl_nullifier = [1], bl_vote_commitment = [2], bl_proof = run_proof,
     bl_vk = run_vk\<lparr>vk_ic := [[5], [6], [7]]\<rparr>\<rparr>"

lemma run_vote: "\<exists>m. market_reach run_bn [SubmitVote run_ballot] m"
proof -
  have "\<exists>m. market_step run_bn (SubmitVote run_ballot) market_empty = Inr m"
    by (simp add: submit_vote_def market_empty_def market_require_def verify_groth16_def run_ballot_def run_bn_def
        run_proof_def run_vk_def nat_checked_add_def vec_get_def Let_def upt_rec)
  then show ?thesis using market_reach.call [OF market_reach.start] by fastforce
qed

theorem spm_single_vote_witness:
  "\<exists>m. market_reach run_bn [SubmitVote run_ballot] m \<and> submit_vote run_bn run_ballot m = Inl Panic"
  using run_vote spm_single_vote [of run_bn "[SubmitVote run_ballot]"] by auto

end
