(* ===== verification/PublicKeyRegistry.thy ===== *)
theory PublicKeyRegistry imports Host begin

text \<open>
  The registry of public keys, from \<^verbatim>\<open>contracts/public-key-registry/src/lib.rs\<close>: one
  registration for each owner and one stream of events that the application reads to find
  the keys of a recipient.
\<close>

section \<open>Types\<close>

record account =
  ac_owner :: address
  ac_encryption_key :: "byte list"
  ac_note_key :: "byte list"

record public_key_event =
  pk_owner :: address
  pk_encryption_key :: "byte list"
  pk_note_key :: "byte list"

record registration =
  rg_encryption_key :: "byte list"
  rg_note_key :: "byte list"

record registry =
  rs_registration :: "address \<Rightarrow> registration option"
  rs_events :: "public_key_event list"

section \<open>Operations\<close>

definition register :: "auths \<Rightarrow> account \<Rightarrow> registry \<Rightarrow> (unit, registry) outcome" where
  "register auth acct st =
     andThen (require_auth auth (ac_owner acct)) (\<lambda>_.
     if length (ac_encryption_key acct) \<noteq> 32 then Inl Panic
     else if length (ac_note_key acct) \<noteq> 32 then Inl Panic
     else
       let key = ac_owner acct;
           new = \<lparr>rg_encryption_key = ac_encryption_key acct, rg_note_key = ac_note_key acct\<rparr> in
       if rs_registration st key = Some new then Inr st
       else Inr (st\<lparr>rs_registration := (rs_registration st)(key \<mapsto> new),
              rs_events := rs_events st @
                [\<lparr>pk_owner = ac_owner acct, pk_encryption_key = ac_encryption_key acct, pk_note_key = ac_note_key acct\<rparr>]\<rparr>))"

section \<open>The event stream\<close>

text \<open>What a reader of the events knows: the last event of each owner.\<close>

fun replay :: "public_key_event list \<Rightarrow> (address \<Rightarrow> registration option) \<Rightarrow> address \<Rightarrow> registration option" where
  "replay [] m = m"
| "replay (e # es) m =
     replay es (m(pk_owner e \<mapsto> \<lparr>rg_encryption_key = pk_encryption_key e, rg_note_key = pk_note_key e\<rparr>))"

lemma replay_append: "replay (es @ fs) m = replay fs (replay es m)"
  by (induction es arbitrary: m) simp_all

inductive registry_reach :: "registry \<Rightarrow> bool" where
  start: "registry_reach \<lparr>rs_registration = Map.empty, rs_events = []\<rparr>"
| registered: "registry_reach st \<Longrightarrow> register auth acct st = Inr st' \<Longrightarrow> registry_reach st'"

lemma register_Inr:
  "register auth acct st = Inr st' \<longleftrightarrow>
    auth (ac_owner acct) \<and> length (ac_encryption_key acct) = 32 \<and> length (ac_note_key acct) = 32 \<and>
    (let new = \<lparr>rg_encryption_key = ac_encryption_key acct, rg_note_key = ac_note_key acct\<rparr> in
     if rs_registration st (ac_owner acct) = Some new then st' = st
     else st' = st\<lparr>rs_registration := (rs_registration st)(ac_owner acct \<mapsto> new),
       rs_events := rs_events st @ [\<lparr>pk_owner = ac_owner acct, pk_encryption_key = ac_encryption_key acct,
         pk_note_key = ac_note_key acct\<rparr>]\<rparr>)"
  by (auto simp: register_def andThen_Inr require_auth_Inr Let_def)

lemma registry_reach_replay:
  assumes "registry_reach st"
  shows "rs_registration st = replay (rs_events st) Map.empty \<and>
    (\<forall>a r. rs_registration st a = Some r \<longrightarrow> length (rg_encryption_key r) = 32 \<and> length (rg_note_key r) = 32)"
  using assms
proof induction
  case (registered st auth acct st')
  then show ?case
    by (auto simp: register_Inr Let_def replay_append split: if_splits)
qed simp

section \<open>Properties\<close>

text \<open>
  The events published so far tell the whole registry: replaying them gives the
  stored registrations, and every stored key is 32 bytes long.
\<close>

theorem registry_events_complete:
  assumes "registry_reach st"
  shows "rs_registration st = replay (rs_events st) Map.empty \<and>
    (\<forall>a r. rs_registration st a = Some r \<longrightarrow> length (rg_encryption_key r) = 32 \<and> length (rg_note_key r) = 32)"
  using registry_reach_replay [OF assms] .

text \<open>
  Registering needs the owner and two keys of 32 bytes and panics otherwise; it
  leaves every other owner's keys alone, and registering the same keys again changes nothing
  and publishes nothing.
\<close>

theorem register_outcome:
  assumes "register auth acct st = Inr st'"
  shows "auth (ac_owner acct) \<and>
    rs_registration st' (ac_owner acct) =
      Some \<lparr>rg_encryption_key = ac_encryption_key acct, rg_note_key = ac_note_key acct\<rparr> \<and>
    (\<forall>a. a \<noteq> ac_owner acct \<longrightarrow> rs_registration st' a = rs_registration st a) \<and>
    register auth acct st' = Inr st'"
  using assms by (auto simp: register_Inr Let_def split: if_splits)

section \<open>Runs\<close>

definition run_account :: account where
  "run_account = \<lparr>ac_owner = Address 1, ac_encryption_key = replicate 32 7, ac_note_key = replicate 32 9\<rparr>"

definition run_registry :: registry where
  "run_registry = \<lparr>rs_registration = [Address 1 \<mapsto> \<lparr>rg_encryption_key = replicate 32 7, rg_note_key = replicate 32 9\<rparr>],
     rs_events = [\<lparr>pk_owner = Address 1, pk_encryption_key = replicate 32 7, pk_note_key = replicate 32 9\<rparr>]\<rparr>"

lemma run_register:
  "register (\<lambda>_. True) run_account \<lparr>rs_registration = Map.empty, rs_events = []\<rparr> = Inr run_registry"
  by (simp add: register_Inr run_account_def run_registry_def)

theorem registry_events_complete_witness:
  "registry_reach run_registry \<and> rs_registration run_registry = replay (rs_events run_registry) Map.empty"
  using registry_events_complete registry_reach.registered [OF registry_reach.start run_register] by blast

theorem register_outcome_witness: "register (\<lambda>_. True) run_account run_registry = Inr run_registry"
  using register_outcome [OF run_register] by blast

end
