(* ===== verification/SparseTrie.thy ===== *)
theory SparseTrie imports Poseidon begin

text \<open>
  The abstract sparse Merkle tree: a binary trie keyed by the bits of a 256-bit key, least
  significant first, whose leaves sit at the shortest prefix that tells them apart. Insertion
  and deletion are structural; the storage of a contract or of a client refines them.
\<close>

section \<open>Tries\<close>

datatype smt = E | L u256 u256 | N smt smt

fun entries :: "smt \<Rightarrow> (u256 \<times> u256) set" where
  "entries E = {}"
| "entries (L k v) = {(k, v)}"
| "entries (N l r) = entries l \<union> entries r"

abbreviation keys :: "smt \<Rightarrow> u256 set" where
  "keys t \<equiv> fst ` entries t"

fun many :: "smt \<Rightarrow> bool" where
  "many E = False"
| "many (L k v) = False"
| "many (N l r) = True"

text \<open>
  Well formed at depth \<open>d\<close>: the bit at the depth separates the two sides, a node has two
  entries at least (no node has an empty and a leaf child or two empty ones), and the depth
  stays within the key.
\<close>

fun trie_wf :: "nat \<Rightarrow> smt \<Rightarrow> bool" where
  "trie_wf d E = (d \<le> 256)"
| "trie_wf d (L k v) = (d \<le> 256)"
| "trie_wf d (N l r) = (d < 256 \<and> trie_wf (Suc d) l \<and> trie_wf (Suc d) r \<and>
     (\<forall>k \<in> keys l. \<not> bit k d) \<and> (\<forall>k \<in> keys r. bit k d) \<and>
     (l = E \<longrightarrow> many r) \<and> (r = E \<longrightarrow> many l))"

definition agree :: "nat \<Rightarrow> u256 \<Rightarrow> u256 \<Rightarrow> bool" where
  "agree d a b = (\<forall>i < d. bit a i = bit b i)"

lemma agree_Suc: "agree (Suc d) a b \<longleftrightarrow> agree d a b \<and> bit a d = bit b d"
  by (auto simp: agree_def less_Suc_eq)

lemma agree_0 [simp]: "agree 0 a b"
  by (simp add: agree_def)

lemma agree_refl [simp]: "agree d a a"
  by (simp add: agree_def)

text \<open>The trie only has keys that share the first \<open>d\<close> bits with \<open>k\<close>.\<close>

definition under :: "nat \<Rightarrow> u256 \<Rightarrow> smt \<Rightarrow> bool" where
  "under d k t \<longleftrightarrow> (\<forall>k' \<in> keys t. agree d k k')"

lemma under_simps [simp]:
  "under d k E"
  "under d k (L k' v') \<longleftrightarrow> agree d k k'"
  "under d k (N l r) \<longleftrightarrow> under d k l \<and> under d k r"
  "under 0 k t"
  by (auto simp: under_def)

lemma under_child:
  "trie_wf d (N l r) \<Longrightarrow> under d k (N l r) \<Longrightarrow> bit k d \<Longrightarrow> under (Suc d) k r"
  "trie_wf d (N l r) \<Longrightarrow> under d k (N l r) \<Longrightarrow> \<not> bit k d \<Longrightarrow> under (Suc d) k l"
  by (auto simp: under_def agree_Suc)

lemma many_not_E: "many t \<Longrightarrow> t \<noteq> E"
  by auto

lemma agree_256: "agree 256 a b \<Longrightarrow> a = b"
  by (rule bit_word_eqI) (simp add: agree_def)

lemma agree_less: "agree d a b \<Longrightarrow> a \<noteq> b \<Longrightarrow> d < 256"
  by (metis agree_256 agree_def less_le_trans not_less)

section \<open>Operations\<close>

fun tfind :: "nat \<Rightarrow> u256 \<Rightarrow> smt \<Rightarrow> u256 option" where
  "tfind d k E = None"
| "tfind d k (L k' v') = (if k' = k then Some v' else None)"
| "tfind d k (N l r) = (if bit k d then tfind (Suc d) k r else tfind (Suc d) k l)"

text \<open>The chain of nodes that separates two leaves with a common prefix.\<close>

function split :: "nat \<Rightarrow> u256 \<Rightarrow> u256 \<Rightarrow> u256 \<Rightarrow> u256 \<Rightarrow> smt" where
  "split d k v k' v' =
     (if 256 \<le> d then E
      else if bit k d = bit k' d
      then (if bit k d then N E (split (Suc d) k v k' v') else N (split (Suc d) k v k' v') E)
      else if bit k d then N (L k' v') (L k v) else N (L k v) (L k' v'))"
  by pat_completeness auto
termination by (relation "measure (\<lambda>(d, _). 256 - d)") auto

declare split.simps [simp del]

fun tinsert :: "nat \<Rightarrow> u256 \<Rightarrow> u256 \<Rightarrow> smt \<Rightarrow> smt" where
  "tinsert d k v E = L k v"
| "tinsert d k v (L k' v') = split d k v k' v'"
| "tinsert d k v (N l r) =
     (if bit k d then N l (tinsert (Suc d) k v r) else N (tinsert (Suc d) k v l) r)"

text \<open>A node whose only entry is one leaf collapses to that leaf.\<close>

fun mk :: "smt \<Rightarrow> smt \<Rightarrow> smt" where
  "mk E E = E"
| "mk E (L k v) = L k v"
| "mk (L k v) E = L k v"
| "mk l r = N l r"

fun tdelete :: "nat \<Rightarrow> u256 \<Rightarrow> smt \<Rightarrow> smt" where
  "tdelete d k E = E"
| "tdelete d k (L k' v') = (if k' = k then E else L k' v')"
| "tdelete d k (N l r) =
     (if bit k d then mk l (tdelete (Suc d) k r) else mk (tdelete (Suc d) k l) r)"

section \<open>Entries\<close>

lemma entries_split:
  assumes "agree d k k'" "k \<noteq> k'"
  shows "entries (split d k v k' v') = {(k, v), (k', v')}"
  using assms
proof (induction d k v k' v' rule: split.induct)
  case (1 d k v k' v')
  have "d < 256" using 1(3,4) agree_less by blast
  then show ?case using 1 by (subst split.simps) (auto simp: agree_Suc)
qed

lemma many_split:
  assumes "agree d k k'" "k \<noteq> k'"
  shows "many (split d k v k' v')"
proof -
  have "d < 256" using assms agree_less by blast
  then show ?thesis by (subst split.simps) auto
qed

lemma trie_wf_split:
  assumes "agree d k k'" "k \<noteq> k'"
  shows "trie_wf d (split d k v k' v')"
  using assms
proof (induction d k v k' v' rule: split.induct)
  case (1 d k v k' v')
  have d: "d < 256" using 1(3,4) agree_less by blast
  show ?case
  proof (cases "bit k d = bit k' d")
    case True
    then have a: "agree (Suc d) k k'" using 1(3) by (simp add: agree_Suc)
    have "trie_wf (Suc d) (split (Suc d) k v k' v')"
      using 1(1) [OF _ True _ a 1(4)] 1(2) [OF _ True _ a 1(4)] d by (cases "bit k d") auto
    moreover have "split (Suc d) k v k' v' \<noteq> E" using many_split [OF a 1(4), of v v'] by (rule many_not_E)
    ultimately show ?thesis using d True entries_split [OF a 1(4)] many_split [OF a 1(4)]
      by (subst split.simps) auto
  next
    case False
    then show ?thesis using d by (subst split.simps) auto
  qed
qed

lemma mk_entries [simp]: "entries (mk l r) = entries l \<union> entries r"
  by (cases "(l, r)" rule: mk.cases) auto

lemma tfind_entries:
  assumes "trie_wf d t" "under d k t"
  shows "tfind d k t = Some v \<longleftrightarrow> (k, v) \<in> entries t"
  using assms
proof (induction t arbitrary: d)
  case (N l r)
  have "(k, v) \<notin> entries l" if "bit k d" using N.prems that by force
  moreover have "(k, v) \<notin> entries r" if "\<not> bit k d" using N.prems that by force
  ultimately show ?case using N.IH [of "Suc d"] N.prems under_child [OF N.prems] by auto
qed auto

lemma entries_unique:
  assumes "trie_wf d t" "(k, v) \<in> entries t" "(k, v') \<in> entries t"
  shows "v = v'"
  using assms
proof (induction t arbitrary: d)
  case (N l r)
  have "\<not> bit k d" if "(k, w) \<in> entries l" for w using N.prems(1) that by force
  moreover have "bit k d" if "(k, w) \<in> entries r" for w using N.prems(1) that by force
  ultimately show ?case using N by (auto 0 3)
qed auto

lemma entries_tinsert:
  assumes "trie_wf d t" "under d k t" "k \<notin> keys t"
  shows "entries (tinsert d k v t) = insert (k, v) (entries t)"
  using assms
proof (induction t arbitrary: d)
  case (L k' v')
  then show ?case using entries_split [of d k k' v v'] by auto
next
  case (N l r)
  have out: "k \<notin> keys l" "k \<notin> keys r" using N.prems(3) by (simp_all add: image_Un)
  show ?case
  proof (cases "bit k d")
    case True
    then show ?thesis using N.IH(2) [OF _ under_child(1) [OF N.prems(1,2) True] out(2)] N.prems(1) by simp
  next
    case False
    then show ?thesis using N.IH(1) [OF _ under_child(2) [OF N.prems(1,2) False] out(1)] N.prems(1) by simp
  qed
qed simp

lemma keys_tinsert:
  assumes "trie_wf d t" "under d k t" "k \<notin> keys t"
  shows "keys (tinsert d k v t) = insert k (keys t)"
  by (simp add: entries_tinsert [OF assms])

lemma many_tinsert: "many t \<Longrightarrow> many (tinsert d k v t)"
  by (cases t) auto

lemma tinsert_not_E:
  assumes "under d k t" "k \<notin> keys t"
  shows "tinsert d k v t \<noteq> E"
proof (cases t)
  case (L k' v')
  then have "many (split d k v k' v')" using assms by (intro many_split) auto
  then show ?thesis using L by auto
qed auto

lemma trie_wf_tinsert:
  assumes "trie_wf d t" "under d k t" "k \<notin> keys t"
  shows "trie_wf d (tinsert d k v t)"
  using assms
proof (induction t arbitrary: d)
  case (L k' v')
  then show ?case using trie_wf_split [of d k k'] by auto
next
  case (N l r)
  have out: "k \<notin> keys l" "k \<notin> keys r" using N.prems(3) by (simp_all add: image_Un)
  show ?case
  proof (cases "bit k d")
    case True
    note p = under_child(1) [OF N.prems(1,2) True]
    have wf: "trie_wf (Suc d) r" using N.prems(1) by simp
    show ?thesis
      using N.prems(1) True N.IH(2) [OF wf p out(2)] keys_tinsert [OF wf p out(2)] tinsert_not_E [OF p out(2)]
      by (simp add: many_tinsert)
  next
    case False
    note p = under_child(2) [OF N.prems(1,2) False]
    have wf: "trie_wf (Suc d) l" using N.prems(1) by simp
    show ?thesis
      using N.prems(1) False N.IH(1) [OF wf p out(1)] keys_tinsert [OF wf p out(1)] tinsert_not_E [OF p out(1)]
      by (simp add: many_tinsert)
  qed
qed simp

lemma trie_wf_mk:
  assumes "d < 256" "trie_wf (Suc d) l" "trie_wf (Suc d) r" "\<forall>k \<in> keys l. \<not> bit k d" "\<forall>k \<in> keys r. bit k d"
  shows "trie_wf d (mk l r)"
  using assms by (cases "(l, r)" rule: mk.cases) auto

lemma entries_tdelete:
  assumes "trie_wf d t" "under d k t"
  shows "entries (tdelete d k t) = {e \<in> entries t. fst e \<noteq> k}"
  using assms
proof (induction t arbitrary: d)
  case (N l r)
  show ?case
  proof (cases "bit k d")
    case True
    have "\<forall>e \<in> entries l. fst e \<noteq> k" using N.prems(1) True by auto
    then show ?thesis using N.IH(2) [OF _ under_child(1) [OF N.prems True]] N.prems(1) True by auto
  next
    case False
    have "\<forall>e \<in> entries r. fst e \<noteq> k" using N.prems(1) False by auto
    then show ?thesis using N.IH(1) [OF _ under_child(2) [OF N.prems False]] N.prems(1) False by auto
  qed
qed auto

lemma trie_wf_tdelete:
  assumes "trie_wf d t" "under d k t"
  shows "trie_wf d (tdelete d k t)"
  using assms
proof (induction t arbitrary: d)
  case (N l r)
  show ?case
  proof (cases "bit k d")
    case True
    note p = under_child(1) [OF N.prems True]
    have wf: "trie_wf (Suc d) r" using N.prems(1) by simp
    show ?thesis using N.prems(1) True N.IH(2) [OF wf p] entries_tdelete [OF wf p] by (auto intro!: trie_wf_mk)
  next
    case False
    note p = under_child(2) [OF N.prems False]
    have wf: "trie_wf (Suc d) l" using N.prems(1) by simp
    show ?thesis using N.prems(1) False N.IH(1) [OF wf p] entries_tdelete [OF wf p] by (auto intro!: trie_wf_mk)
  qed
qed auto

section \<open>One trie for one set of entries\<close>

lemma entries_not_E: "t \<noteq> E \<Longrightarrow> trie_wf d t \<Longrightarrow> entries t \<noteq> {}"
proof (induction t arbitrary: d)
  case (N l r)
  then show ?case by (cases "l = E") auto
qed auto

lemma many_two:
  assumes "many t" "trie_wf d t"
  shows "\<exists>e \<in> entries t. \<exists>f \<in> entries t. fst e \<noteq> fst f"
  using assms
proof (induction t arbitrary: d)
  case (N l r)
  consider "l = E" | "r = E" | "l \<noteq> E" "r \<noteq> E" by blast
  then show ?case
  proof cases
    case 1
    then show ?thesis using N by (auto dest!: N.IH(2))
  next
    case 2
    then show ?thesis using N by (auto dest!: N.IH(1))
  next
    case 3
    then obtain e f where "e \<in> entries l" "f \<in> entries r"
      using N.prems(2) entries_not_E by (metis equals0I trie_wf.simps(3))
    then show ?thesis using N.prems(2) by force
  qed
qed auto

lemma many_not_single: "many t \<Longrightarrow> trie_wf d t \<Longrightarrow> entries t \<noteq> {e}"
  using many_two [of t d] by (metis singletonD)

lemma entries_side:
  assumes "trie_wf d (N l r)"
  shows "entries l = {e \<in> entries (N l r). \<not> bit (fst e) d}" "entries r = {e \<in> entries (N l r). bit (fst e) d}"
  using assms by auto

lemma trie_unique:
  assumes "trie_wf d t" "trie_wf d u" "entries t = entries u"
  shows "t = u"
  using assms
proof (induction t arbitrary: d u)
  case E
  then show ?case using entries_not_E [of u d] by auto
next
  case (L k v)
  then show ?case
  proof (cases u)
    case (N l r)
    then show ?thesis using many_not_single [of u d "(k, v)"] L.prems by simp
  qed auto
next
  case (N l r)
  show ?case
  proof (cases u)
    case E
    then show ?thesis using entries_not_E [of "N l r" d] N.prems by auto
  next
    case (L k v)
    then show ?thesis using many_not_single [of "N l r" d "(k, v)"] N.prems(1,3) by (simp only: entries.simps many.simps simp_thms)
  next
    case (N l' r')
    have eq: "entries (N l r) = entries (N l' r')" "trie_wf d (N l' r')" using N.prems N by (simp_all only:)
    have sides: "entries l = entries l'" "entries r = entries r'"
      by (rule trans [OF entries_side(1) [OF N.prems(1)] trans [OF _ entries_side(1) [OF eq(2), symmetric]]], simp only: eq(1))
        (rule trans [OF entries_side(2) [OF N.prems(1)] trans [OF _ entries_side(2) [OF eq(2), symmetric]]], simp only: eq(1))
    have p: "trie_wf (Suc d) l" "trie_wf (Suc d) r" "trie_wf (Suc d) l'" "trie_wf (Suc d) r'"
      using N.prems(1,2) N by simp_all
    show ?thesis using N N.IH(1) [OF p(1,3) sides(1)] N.IH(2) [OF p(2,4) sides(2)] by simp
  qed
qed

section \<open>Paths\<close>

text \<open>The siblings from the root down, the trie at the end, and putting a trie back there.\<close>

fun siblings :: "nat \<Rightarrow> u256 \<Rightarrow> smt \<Rightarrow> smt list" where
  "siblings d k (N l r) = (if bit k d then l # siblings (Suc d) k r else r # siblings (Suc d) k l)"
| "siblings d k _ = []"

fun end_of :: "nat \<Rightarrow> u256 \<Rightarrow> smt \<Rightarrow> smt" where
  "end_of d k (N l r) = (if bit k d then end_of (Suc d) k r else end_of (Suc d) k l)"
| "end_of d k t = t"

definition join :: "bool \<Rightarrow> smt \<Rightarrow> smt \<Rightarrow> smt" where
  "join b s x = (if b then N s x else N x s)"

fun plug :: "nat \<Rightarrow> u256 \<Rightarrow> smt list \<Rightarrow> smt \<Rightarrow> smt" where
  "plug d k [] x = x"
| "plug d k (s # ss) x = join (bit k d) s (plug (Suc d) k ss x)"

lemma plug_append: "plug d k (ss @ us) x = plug d k ss (plug (d + length ss) k us x)"
  by (induction ss arbitrary: d) simp_all

lemma plug_siblings: "plug d k (siblings d k t) (end_of d k t) = t"
  by (induction t arbitrary: d) (auto simp: join_def)

lemma end_of_cases: "end_of d k t = E \<or> (\<exists>k' v'. end_of d k t = L k' v')"
  by (induction t arbitrary: d) auto

lemma length_siblings: "trie_wf d t \<Longrightarrow> d + length (siblings d k t) \<le> 256"
proof (induction t arbitrary: d)
  case (N l r)
  then show ?case using N.IH(1) [of "Suc d"] N.IH(2) [of "Suc d"] by auto
qed auto

lemma tfind_end: "tfind d k t = (case end_of d k t of L k' v' \<Rightarrow> if k' = k then Some v' else None | _ \<Rightarrow> None)"
  by (induction t arbitrary: d) auto

text \<open>The number of bits two keys share from \<open>d\<close> on.\<close>

function common :: "nat \<Rightarrow> u256 \<Rightarrow> u256 \<Rightarrow> nat" where
  "common d k k' = (if d < 256 \<and> bit k d = bit k' d then Suc (common (Suc d) k k') else 0)"
  by pat_completeness auto
termination by (relation "measure (\<lambda>(d, _). 256 - d)") auto

declare common.simps [simp del]

lemma common_bits:
  assumes "k \<noteq> k'" "agree d k k'"
  shows "d + common d k k' < 256 \<and> bit k (d + common d k k') \<noteq> bit k' (d + common d k k') \<and>
    agree (d + common d k k') k k'"
  using assms
proof (induction d k k' rule: common.induct)
  case (1 d k k')
  have d: "d < 256" using 1(2,3) agree_less by blast
  show ?case
  proof (cases "bit k d = bit k' d")
    case True
    then have a: "agree (Suc d) k k'" using 1(3) by (simp add: agree_Suc)
    have c: "common d k k' = Suc (common (Suc d) k k')" using d True by (subst common.simps) simp
    show ?thesis using 1(1) [OF _ 1(2) a] d True unfolding c by simp
  next
    case False
    then have "common d k k' = 0" by (subst common.simps) simp
    then show ?thesis using d False 1(3) by simp
  qed
qed

lemma split_plug:
  assumes "k \<noteq> k'" "agree d k k'"
  shows "split d k v k' v' = plug d k (replicate (common d k k') E @ [L k' v']) (L k v)"
  using assms
proof (induction d k v k' v' rule: split.induct)
  case (1 d k v k' v')
  have d: "d < 256" using 1(3,4) agree_less by blast
  show ?case
  proof (cases "bit k d = bit k' d")
    case True
    then have a: "agree (Suc d) k k'" using 1(4) by (simp add: agree_Suc)
    have c: "common d k k' = Suc (common (Suc d) k k')" using d True by (subst common.simps) simp
    show ?thesis using 1(1) [OF _ True _ 1(3) a] 1(2) [OF _ True _ 1(3) a] d True unfolding c
      by (subst split.simps) (auto simp: join_def)
  next
    case False
    then have "common d k k' = 0" by (subst common.simps) simp
    then show ?thesis using d False by (subst split.simps) (auto simp: join_def)
  qed
qed

text \<open>The siblings a new leaf gets, and the trie with it.\<close>

definition new_siblings :: "nat \<Rightarrow> u256 \<Rightarrow> smt \<Rightarrow> smt list" where
  "new_siblings d k t = siblings d k t @ (case end_of d k t of
     L k' v' \<Rightarrow> replicate (common (d + length (siblings d k t)) k k') E @ [L k' v'] | _ \<Rightarrow> [])"

lemma tinsert_plug:
  assumes "trie_wf d t" "under d k t" "k \<notin> keys t"
  shows "tinsert d k v t = plug d k (new_siblings d k t) (L k v)"
  using assms
proof (induction t arbitrary: d)
  case E
  then show ?case by (simp add: new_siblings_def)
next
  case (L k' v')
  then show ?case by (simp add: new_siblings_def split_plug)
next
  case (N l r)
  have out: "k \<notin> keys l" "k \<notin> keys r" using N.prems(3) by (simp_all add: image_Un)
  show ?case
  proof (cases "bit k d")
    case True
    then show ?thesis using N.IH(2) [OF _ under_child(1) [OF N.prems(1,2) True] out(2)] N.prems(1)
      by (simp add: new_siblings_def join_def split: smt.split)
  next
    case False
    then show ?thesis using N.IH(1) [OF _ under_child(2) [OF N.prems(1,2) False] out(1)] N.prems(1)
      by (simp add: new_siblings_def join_def split: smt.split)
  qed
qed

section \<open>Sub-tries\<close>

fun subtries :: "smt \<Rightarrow> smt set" where
  "subtries E = {}"
| "subtries (L k v) = {L k v}"
| "subtries (N l r) = insert (N l r) (subtries l \<union> subtries r)"

lemma subtries_self: "t \<noteq> E \<Longrightarrow> t \<in> subtries t"
  by (cases t) auto

lemma subtries_size: "s \<in> subtries t \<Longrightarrow> size s \<le> size t"
  by (induction t) auto

lemma subtries_entries: "s \<in> subtries t \<Longrightarrow> entries s \<subseteq> entries t"
  by (induction t) auto

lemma subtries_not_E: "E \<notin> subtries t"
  by (induction t) auto

lemma subtries_entries_ne: "trie_wf d t \<Longrightarrow> s \<in> subtries t \<Longrightarrow> entries s \<noteq> {}"
proof (induction t arbitrary: d)
  case (N l r)
  then show ?case using entries_not_E [of "N l r" d] by auto
qed auto

lemma subtries_trans: "s \<in> subtries t \<Longrightarrow> t \<in> subtries u \<Longrightarrow> s \<in> subtries u"
  by (induction u) auto

text \<open>The inner nodes on the path of a key.\<close>

fun path_nodes :: "nat \<Rightarrow> u256 \<Rightarrow> smt \<Rightarrow> smt set" where
  "path_nodes d k (N l r) = insert (N l r) (if bit k d then path_nodes (Suc d) k r else path_nodes (Suc d) k l)"
| "path_nodes d k _ = {}"

lemma path_nodes_subtries: "path_nodes d k t \<subseteq> subtries t"
  by (induction t arbitrary: d) auto

lemma plug_path_node:
  "j < length (siblings d k t) \<Longrightarrow> plug (d + j) k (drop j (siblings d k t)) (end_of d k t) \<in> path_nodes d k t"
proof (induction t arbitrary: d j)
  case (N l r)
  show ?case
  proof (cases j)
    case 0
    then show ?thesis using plug_siblings [of d k "N l r"] by simp
  next
    case (Suc i)
    then show ?thesis using N.IH(1) [of i "Suc d"] N.IH(2) [of i "Suc d"] N.prems by (auto split: if_splits)
  qed
qed auto

lemma siblings_subtries: "s \<in> set (siblings d k t) \<Longrightarrow> subtries s \<subseteq> subtries t"
  by (induction t arbitrary: d) (auto split: if_splits)

lemma end_of_subtries: "subtries (end_of d k t) \<subseteq> subtries t"
  by (induction t arbitrary: d) auto

lemma split_subtries:
  assumes "agree d k k'" "k \<noteq> k'" "s \<in> subtries (split d k v k' v')" "k \<notin> keys s"
  shows "s = L k' v'"
  using assms
proof (induction d k v k' v' rule: split.induct)
  case (1 d k v k' v')
  have d: "d < 256" using 1(3,4) agree_less by blast
  have top: "k \<in> keys (split d k v k' v')" using entries_split [OF 1(3,4)] by simp
  show ?case
  proof (cases "bit k d = bit k' d")
    case True
    then have a: "agree (Suc d) k k'" using 1(3) by (simp add: agree_Suc)
    have "s \<noteq> split d k v k' v'" using top 1(6) by auto
    then have "s \<in> subtries (split (Suc d) k v k' v')"
      using 1(5) d True by (subst (asm) (2) split.simps, subst (asm) split.simps) (auto split: if_splits)
    then show ?thesis using 1(1) [OF _ True _ a 1(4) _ 1(6)] 1(2) [OF _ True _ a 1(4) _ 1(6)] d by auto
  next
    case False
    then show ?thesis using 1(5,6) d by (subst (asm) split.simps) (auto split: if_splits)
  qed
qed

lemma tinsert_subtries_old:
  assumes "trie_wf d t" "under d k t" "k \<notin> keys t" "s \<in> subtries (tinsert d k v t)" "k \<notin> keys s"
  shows "s \<in> subtries t"
  using assms
proof (induction t arbitrary: d)
  case E
  then show ?case by auto
next
  case (L k' v')
  then show ?case using split_subtries [of d k k' s v v'] by auto
next
  case (N l r)
  have out: "k \<notin> keys l" "k \<notin> keys r" using N.prems(3) by (simp_all add: image_Un)
  have top: "s \<noteq> tinsert d k v (N l r)" using keys_tinsert [OF N.prems(1-3)] N.prems(5) by auto
  show ?case
  proof (cases "bit k d")
    case True
    then show ?thesis
      using N.IH(2) [OF _ under_child(1) [OF N.prems(1,2) True] out(2) _ N.prems(5)] N.prems(1,4) top by auto
  next
    case False
    then show ?thesis
      using N.IH(1) [OF _ under_child(2) [OF N.prems(1,2) False] out(1) _ N.prems(5)] N.prems(1,4) top by auto
  qed
qed

lemma size_child: "size l < size (N l r)" "size r < size (N l r)"
  by simp_all

lemma tinsert_subtries_path:
  assumes "trie_wf d t" "under d k t" "k \<notin> keys t"
  shows "subtries (tinsert d k v t) \<inter> path_nodes d k t = {}"
  using assms
proof (induction t arbitrary: d)
  case (N l r)
  have out: "k \<notin> keys l" "k \<notin> keys r" using N.prems(3) by (simp_all add: image_Un)
  have small: "N l r \<notin> subtries l" "N l r \<notin> subtries r"
    using subtries_size [of "N l r" l] subtries_size [of "N l r" r] by auto
  have new: "p \<noteq> tinsert d k v (N l r)" if "p \<in> path_nodes d k (N l r)" for p
  proof
    assume "p = tinsert d k v (N l r)"
    then have "k \<in> keys p" using keys_tinsert [OF N.prems] by simp
    then show False using that path_nodes_subtries subtries_entries N.prems(3) by (meson image_mono subsetD)
  qed
  have sides: "p \<notin> subtries l" if "bit k d" "p \<in> path_nodes (Suc d) k r" for p
  proof
    assume "p \<in> subtries l"
    moreover have "p \<in> subtries r" using that path_nodes_subtries by blast
    ultimately show False
      using subtries_entries [of p l] subtries_entries [of p r] subtries_entries_ne [of "Suc d" l p] N.prems(1) by fastforce
  qed
  have sides': "p \<notin> subtries r" if "\<not> bit k d" "p \<in> path_nodes (Suc d) k l" for p
  proof
    assume "p \<in> subtries r"
    moreover have "p \<in> subtries l" using that path_nodes_subtries by blast
    ultimately show False
      using subtries_entries [of p l] subtries_entries [of p r] subtries_entries_ne [of "Suc d" l p] N.prems(1) by fastforce
  qed
  show ?case
  proof (cases "bit k d")
    case True
    note p = under_child(1) [OF N.prems(1,2) True]
    have wf: "trie_wf (Suc d) r" using N.prems(1) by simp
    have "N l r \<notin> subtries (tinsert (Suc d) k v r)"
      using tinsert_subtries_old [OF wf p out(2), of "N l r" v] small N.prems(3) by auto
    then show ?thesis using True N.IH(2) [OF wf p out(2)] small new sides [OF True] by auto
  next
    case False
    note p = under_child(2) [OF N.prems(1,2) False]
    have wf: "trie_wf (Suc d) l" using N.prems(1) by simp
    have "N l r \<notin> subtries (tinsert (Suc d) k v l)"
      using tinsert_subtries_old [OF wf p out(1), of "N l r" v] small N.prems(3) by auto
    then show ?thesis using False N.IH(1) [OF wf p out(1)] small new sides' [OF False] by auto
  qed
qed auto

lemma subtries_plug:
  assumes "s \<in> subtries (plug d k ss x)"
  shows "s \<in> subtries x \<or> (\<exists>u \<in> set ss. s \<in> subtries u) \<or> (\<exists>j < length ss. s = plug (d + j) k (drop j ss) x)"
  using assms
proof (induction ss arbitrary: d)
  case (Cons u ss)
  have "s = plug d k (u # ss) x \<or> s \<in> subtries u \<or> s \<in> subtries (plug (Suc d) k ss x)"
    using Cons.prems by (auto simp: join_def split: if_splits)
  then show ?case
  proof (elim disjE)
    assume "s = plug d k (u # ss) x"
    then show ?thesis by (intro disjI2 exI [of _ 0]) simp
  next
    assume "s \<in> subtries (plug (Suc d) k ss x)"
    from Cons.IH [OF this] show ?thesis
    proof (elim disjE exE conjE)
      fix j assume "j < length ss" "s = plug (Suc d + j) k (drop j ss) x"
      then show ?thesis by (intro disjI2 exI [of _ "Suc j"]) simp
    qed auto
  qed auto
qed simp

lemma plug_subtries: "j \<le> length ss \<Longrightarrow> subtries (plug (d + j) k (drop j ss) x) \<subseteq> subtries (plug d k ss x)"
proof (induction ss arbitrary: d j)
  case (Cons u ss)
  show ?case
  proof (cases j)
    case (Suc i)
    then have "subtries (plug (Suc d + i) k (drop i ss) x) \<subseteq> subtries (plug (Suc d) k ss x)"
      using Cons by (intro Cons.IH) simp
    then show ?thesis using Suc by (auto simp: join_def)
  qed simp
qed simp

section \<open>Hashes\<close>

definition leaf_hash :: "permutation \<Rightarrow> u256 \<Rightarrow> u256 \<Rightarrow> u256" where
  "leaf_hash perm k v = hd (perm [k, v, 1] ''BN254'' 3 5 8 56 [1, 1, 2] get_round_constants_t3)"

fun thash :: "permutation \<Rightarrow> smt \<Rightarrow> u256" where
  "thash perm E = 0"
| "thash perm (L k v) = leaf_hash perm k v"
| "thash perm (N l r) = hash_of perm (thash perm l) (thash perm r)"

text \<open>What is stored under the hash of a node.\<close>

fun content :: "permutation \<Rightarrow> smt \<Rightarrow> u256 list" where
  "content perm E = []"
| "content perm (L k v) = [1, k, v]"
| "content perm (N l r) = [thash perm l, thash perm r]"

definition holds :: "permutation \<Rightarrow> (u256 \<Rightarrow> u256 list option) \<Rightarrow> smt set \<Rightarrow> bool" where
  "holds perm nodes T \<longleftrightarrow> (\<forall>t \<in> T. nodes (thash perm t) = Some (content perm t))"

text \<open>
  No two of the given tries have the same hash, and none has the hash of the empty trie. The
  hash is not injective on all field elements, so this can only be asked of the tries at hand.
\<close>

definition no_collision :: "permutation \<Rightarrow> smt set \<Rightarrow> bool" where
  "no_collision perm T \<longleftrightarrow> inj_on (thash perm) T \<and> 0 \<notin> thash perm ` T"

definition fits :: "smt \<Rightarrow> bool" where
  "fits t \<longleftrightarrow> (\<forall>(k, v) \<in> entries t. k < bn256_modulus \<and> v < bn256_modulus)"

lemma fits_simps [simp]:
  "fits E"
  "fits (L k v) \<longleftrightarrow> k < bn256_modulus \<and> v < bn256_modulus"
  "fits (N l r) \<longleftrightarrow> fits l \<and> fits r"
  by (auto simp: fits_def)

lemma one_less_modulus: "1 < bn256_modulus" "0 < bn256_modulus"
  by (simp_all add: below_modulus)

lemma host_ok_three:
  assumes "host_ok perm"
  obtains a b c where "perm [x, y, z] fld 3 d rf rp diag rc = [a, b, c]" "a < bn256_modulus"
proof -
  have "length (perm [x, y, z] fld 3 d rf rp diag rc) = 3"
    "\<forall>x \<in> set (perm [x, y, z] fld 3 d rf rp diag rc). x < bn256_modulus"
    using assms [unfolded host_ok_def, rule_format, of "[x, y, z]" 3] by auto
  then show thesis using that by (auto simp: numeral_3_eq_3 length_Suc_conv)
qed

lemma leaf_hash_ok:
  assumes "host_ok perm" "k < bn256_modulus" "v < bn256_modulus"
  shows "poseidon2_hash2 perm k v (Some 1) = Inr (leaf_hash perm k v)"
proof -
  obtain a b c where "perm [k, v, 1] ''BN254'' 3 5 8 56 [1, 1, 2] get_round_constants_t3 = [a, b, c]"
    using host_ok_three [OF assms(1)] by metis
  then show ?thesis using assms(2,3) one_less_modulus
    by (simp add: poseidon2_hash2_def leaf_hash_def Let_def vec_get_def not_le)
qed

lemma leaf_hash_less: "host_ok perm \<Longrightarrow> leaf_hash perm k v < bn256_modulus"
  unfolding leaf_hash_def using host_ok_three [of perm k v 1] by (metis list.sel(1))

lemma thash_less: "host_ok perm \<Longrightarrow> thash perm t < bn256_modulus"
  by (cases t) (simp_all add: one_less_modulus leaf_hash_less hash_of_less)

lemma leaf_hash_panic:
  "\<not> (k < bn256_modulus \<and> v < bn256_modulus) \<Longrightarrow> poseidon2_hash2 perm k v (Some 1) = Inl Panic"
  by (auto simp: poseidon2_hash2_def Let_def)

lemma thash_join: "thash perm (join b s x) =
  (if b then hash_of perm (thash perm s) (thash perm x) else hash_of perm (thash perm x) (thash perm s))"
  by (simp add: join_def)

lemma content_join: "content perm (join b s x) =
  (if b then [thash perm s, thash perm x] else [thash perm x, thash perm s])"
  by (simp add: join_def)

lemma holds_remove:
  assumes "holds perm nodes X" "no_collision perm T" "X \<subseteq> T" "t \<in> T" "t \<notin> X"
  shows "holds perm (nodes(thash perm t := None)) X"
  using assms by (auto simp: holds_def no_collision_def inj_on_def)

lemma holds_set:
  assumes "holds perm nodes X" "no_collision perm T" "X \<subseteq> T" "t \<in> T"
  shows "holds perm (nodes(thash perm t \<mapsto> content perm t)) (insert t X)"
  using assms by (auto simp: holds_def no_collision_def inj_on_def)

lemma holds_mono: "holds perm nodes X \<Longrightarrow> Y \<subseteq> X \<Longrightarrow> holds perm nodes Y"
  by (auto simp: holds_def)

lemma no_collision_mono: "no_collision perm T \<Longrightarrow> S \<subseteq> T \<Longrightarrow> no_collision perm S"
  by (auto simp: no_collision_def inj_on_def)

text \<open>Two tries with the same root have the same entries.\<close>

lemma thash_inj:
  assumes "no_collision perm (subtries t \<union> subtries u)" "thash perm t = thash perm u"
  shows "t = u"
proof (cases "t = E \<or> u = E")
  case True
  then show ?thesis using assms subtries_self [of t] subtries_self [of u]
    by (cases "t = E"; cases "u = E") (auto simp: no_collision_def image_iff)
next
  case False
  then show ?thesis using assms subtries_self by (auto simp: no_collision_def inj_on_def)
qed

section \<open>Deletion along a path\<close>

definition collapse :: "bool \<Rightarrow> smt \<Rightarrow> smt \<Rightarrow> smt" where
  "collapse b s x = (if b then mk s x else mk x s)"

fun cplug :: "nat \<Rightarrow> u256 \<Rightarrow> smt list \<Rightarrow> smt \<Rightarrow> smt" where
  "cplug d k [] x = x"
| "cplug d k (s # ss) x = collapse (bit k d) s (cplug (Suc d) k ss x)"

lemma tdelete_cplug: "end_of d k t = L k v \<Longrightarrow> tdelete d k t = cplug d k (siblings d k t) E"
  by (induction t arbitrary: d) (auto simp: collapse_def split: if_splits)

lemma cplug_append: "cplug d k (ss @ us) x = cplug d k ss (cplug (d + length ss) k us x)"
  by (induction ss arbitrary: d) simp_all

lemma mk_E: "mk s x = E \<longleftrightarrow> s = E \<and> x = E"
  by (cases "(s, x)" rule: mk.cases) auto

lemma mk_many:
  "many x \<Longrightarrow> mk s x = N s x" "many x \<Longrightarrow> mk x s = N x s"
  "s \<noteq> E \<Longrightarrow> x \<noteq> E \<Longrightarrow> mk s x = N s x"
  by (cases "(s, x)" rule: mk.cases; cases "(x, s)" rule: mk.cases; auto)+

lemma collapse_E_left: "x \<noteq> E \<Longrightarrow> \<not> many x \<Longrightarrow> collapse b E x = x"
  by (cases x) (simp_all add: collapse_def)

lemma collapse_join: "many x \<or> s \<noteq> E \<and> x \<noteq> E \<or> many s \<Longrightarrow> collapse b s x = join b s x"
  using mk_many by (auto simp: collapse_def join_def)

lemma many_join [simp]: "many (join b s x)"
  by (simp add: join_def)

lemma cplug_not_E: "x \<noteq> E \<or> (ss \<noteq> [] \<and> last ss \<noteq> E) \<Longrightarrow> cplug d k ss x \<noteq> E"
  by (induction ss arbitrary: d) (auto simp: collapse_def mk_E split: if_splits)

lemma collapse_subtries:
  "r \<in> subtries (collapse b s x) \<Longrightarrow> r \<in> subtries s \<or> r \<in> subtries x \<or> (r = collapse b s x \<and> many r)"
  by (cases "(s, x)" rule: mk.cases; cases "(x, s)" rule: mk.cases) (auto simp: collapse_def split: if_splits)

lemma subtries_cplug:
  assumes "r \<in> subtries (cplug d k ss x)"
  shows "r \<in> subtries x \<or> (\<exists>u \<in> set ss. r \<in> subtries u) \<or>
    (\<exists>j < length ss. r = cplug (d + j) k (drop j ss) x \<and> many r)"
  using assms
proof (induction ss arbitrary: d)
  case (Cons u ss)
  then have "r \<in> subtries u \<or> r \<in> subtries (cplug (Suc d) k ss x) \<or> (r = cplug d k (u # ss) x \<and> many r)"
    using collapse_subtries by auto
  then show ?case
  proof (elim disjE conjE)
    assume "r = cplug d k (u # ss) x" "many r"
    then show ?thesis by (intro disjI2 exI [of _ 0]) simp
  next
    assume "r \<in> subtries (cplug (Suc d) k ss x)"
    from Cons.IH [OF this] show ?thesis
    proof (elim disjE exE conjE)
      fix j assume "j < length ss" "r = cplug (Suc d + j) k (drop j ss) x" "many r"
      then show ?thesis by (intro disjI2 exI [of _ "Suc j"]) simp
    qed auto
  qed auto
qed simp

lemma cplug_subtries:
  "j \<le> length ss \<Longrightarrow> many (cplug (d + j) k (drop j ss) x) \<Longrightarrow>
    cplug (d + j) k (drop j ss) x \<in> subtries (cplug d k ss x) \<and> many (cplug d k ss x)"
proof (induction ss arbitrary: d j)
  case Nil
  then show ?case using subtries_self [OF many_not_E] by simp
next
  case (Cons u ss)
  show ?case
  proof (cases j)
    case 0
    then show ?thesis using Cons.prems subtries_self [OF many_not_E] by simp
  next
    case (Suc i)
    then have "cplug (Suc d + i) k (drop i ss) x \<in> subtries (cplug (Suc d) k ss x)" "many (cplug (Suc d) k ss x)"
      using Cons.IH [of i "Suc d"] Cons.prems by simp_all
    then show ?thesis using Suc by (auto simp: collapse_join join_def)
  qed
qed

lemma siblings_keys:
  assumes "trie_wf d t" "s \<in> set (siblings d k t)"
  shows "k \<notin> keys s"
  using assms
proof (induction t arbitrary: d)
  case (N l r)
  then show ?case using N.IH(1) [of "Suc d"] N.IH(2) [of "Suc d"] by (auto split: if_splits)
qed auto

lemma keys_plug: "keys (plug d k ss x) = keys x \<union> (\<Union>s \<in> set ss. keys s)"
  by (induction ss arbitrary: d) (auto simp: join_def image_Un)

end
