(* ===== verification/AspNonMembership.thy ===== *)
theory AspNonMembership imports SparseTrie Host begin

text \<open>
  The non-membership contract of an association set provider, from
  \<^verbatim>\<open>contracts/asp-non-membership/src/lib.rs\<close>: a sparse Merkle tree in the storage. A node
  is stored under its hash, a leaf as the list 1, key, value and an inner node as the list of
  the hashes of its children. A failed call rolls back, so an error carries no state.
\<close>

section \<open>Storage\<close>

record smt_store =
  sm_admin :: "address option"
  sm_root :: "u256 option"
  sm_node :: "u256 \<Rightarrow> u256 list option"

record find_result =
  fr_found :: bool
  fr_siblings :: "u256 list"
  fr_found_value :: u256
  fr_not_found_key :: u256
  fr_not_found_value :: u256
  fr_is_old0 :: bool

datatype smt_error =
    Smt_NotAuthorized
  | Smt_KeyNotFound
  | Smt_KeyAlreadyExists
  | Smt_InvalidProof
  | Smt_NotInitialized
  | Smt_Overflow

datatype smt_event =
    LeafInsertedEvent u256 u256 u256
  | LeafDeletedEvent u256 u256

definition smt_empty :: smt_store where
  "smt_empty = \<lparr>sm_admin = None, sm_root = None, sm_node = Map.empty\<rparr>"

definition smt_constructor :: "address \<Rightarrow> smt_store \<Rightarrow> (smt_error, smt_store) outcome" where
  "smt_constructor admin st = Inr (st\<lparr>sm_admin := Some admin, sm_root := Some 0\<rparr>)"

definition smt_update_admin :: "auths \<Rightarrow> address \<Rightarrow> smt_store \<Rightarrow> (smt_error, smt_store) outcome" where
  "smt_update_admin auth new_admin st =
     andThen (update_admin auth (sm_admin st) new_admin) (\<lambda>admin. Inr (st\<lparr>sm_admin := admin\<rparr>))"

definition smt_get_root :: "smt_store \<Rightarrow> (smt_error, u256) outcome" where
  "smt_get_root st = ok_or Smt_NotInitialized (sm_root st)"

section \<open>Hashes and bits\<close>

definition hash_leaf :: "permutation \<Rightarrow> u256 \<Rightarrow> u256 \<Rightarrow> (smt_error, u256) outcome" where
  "hash_leaf perm k v = poseidon2_hash2 perm k v (Some 1)"

definition hash_internal :: "permutation \<Rightarrow> u256 \<Rightarrow> u256 \<Rightarrow> (smt_error, u256) outcome" where
  "hash_internal perm left right = poseidon2_compress perm left right"

text \<open>The loop of \<open>split_bits\<close>, with the number of rounds left.\<close>

fun split_bits_loop :: "nat \<Rightarrow> u256 \<Rightarrow> bool list" where
  "split_bits_loop 0 k = []"
| "split_bits_loop (Suc n) k = (k mod 2 = 1) # split_bits_loop n (k div 2)"

definition split_bits :: "u256 \<Rightarrow> bool list" where
  "split_bits k = split_bits_loop 256 k"

section \<open>Search\<close>

function find_key_internal ::
  "(u256 \<Rightarrow> u256 list option) \<Rightarrow> u256 \<Rightarrow> bool list \<Rightarrow> u256 \<Rightarrow> nat \<Rightarrow> (smt_error, find_result) outcome" where
  "find_key_internal nodes key key_bits root level =
     (if root = 0
      then Inr \<lparr>fr_found = False, fr_siblings = [], fr_found_value = 0, fr_not_found_key = key,
             fr_not_found_value = 0, fr_is_old0 = True\<rparr>
      else
        andThen (ok_or Smt_KeyNotFound (nodes root)) (\<lambda>node_data.
        andThen (if length node_data = 3
                 then andThen (ok_or Smt_KeyNotFound (vec_get node_data 0)) (\<lambda>tag. Inr (tag = 1))
                 else Inr False) (\<lambda>is_leaf.
        if is_leaf then
          andThen (ok_or Smt_KeyNotFound (vec_get node_data 1)) (\<lambda>stored_key.
          andThen (ok_or Smt_KeyNotFound (vec_get node_data 2)) (\<lambda>stored_value.
          if stored_key = key
          then Inr \<lparr>fr_found = True, fr_siblings = [], fr_found_value = stored_value, fr_not_found_key = 0,
                 fr_not_found_value = 0, fr_is_old0 = False\<rparr>
          else Inr \<lparr>fr_found = False, fr_siblings = [], fr_found_value = 0, fr_not_found_key = stored_key,
                 fr_not_found_value = stored_value, fr_is_old0 = False\<rparr>))
        else if length node_data = 2 then
          andThen (ok_or Smt_KeyNotFound (vec_get node_data 0)) (\<lambda>left.
          andThen (ok_or Smt_KeyNotFound (vec_get node_data 1)) (\<lambda>right.
          andThen (ok_or Smt_KeyNotFound (vec_get key_bits level)) (\<lambda>b.
          andThen (if \<not> b
                   then andThen (ok_or Smt_Overflow (nat_checked_add 32 level 1)) (\<lambda>next_level.
                        find_key_internal nodes key key_bits left next_level)
                   else andThen (ok_or Smt_Overflow (nat_checked_add 32 level 1)) (\<lambda>next_level.
                        find_key_internal nodes key key_bits right next_level)) (\<lambda>result.
          let sibling = (if \<not> b then right else left) in
          Inr (result\<lparr>fr_siblings := sibling # fr_siblings result\<rparr>)))))
        else Inl (Fail Smt_KeyNotFound))))"
  by pat_completeness auto
termination
  by (relation "measure (\<lambda>(nodes, key, key_bits, root, level). length key_bits - level)")
    (auto simp: ok_or_Inr vec_get_Some nat_checked_add_Some)

declare find_key_internal.simps [simp del]

definition find_key :: "u256 \<Rightarrow> smt_store \<Rightarrow> (smt_error, find_result) outcome" where
  "find_key key st =
     (let root = (case sm_root st of None \<Rightarrow> 0 | Some r \<Rightarrow> r); key_bits = split_bits key in
      find_key_internal (sm_node st) key key_bits root 0)"

section \<open>Insertion\<close>

text \<open>The loop that extends the siblings by one zero for each common bit.\<close>

function extend_siblings :: "bool list \<Rightarrow> bool list \<Rightarrow> nat \<Rightarrow> u256 list \<Rightarrow> (smt_error, u256 list) outcome" where
  "extend_siblings old_key_bits key_bits i sibs =
     andThen (if i < length old_key_bits \<and> i < length key_bits
              then andThen (ok_or Smt_KeyNotFound (vec_get old_key_bits i)) (\<lambda>a.
                   andThen (ok_or Smt_KeyNotFound (vec_get key_bits i)) (\<lambda>b. Inr (a = b)))
              else Inr False) (\<lambda>continue.
     if continue
     then andThen (ok_or Smt_Overflow (nat_checked_add 32 i 1)) (\<lambda>j.
          extend_siblings old_key_bits key_bits j (sibs @ [0]))
     else Inr sibs)"
  by pat_completeness auto
termination
  by (relation "measure (\<lambda>(old_key_bits, key_bits, i, sibs). length key_bits - i)")
    (auto simp: ok_or_Inr nat_checked_add_Some split: if_splits)

declare extend_siblings.simps [simp del]

text \<open>
  The loop \<open>for (i, sibling) in siblings.iter().enumerate().rev()\<close>. It carries the old hash
  whose node is removed, the flag that says whether one is, the new hash and the nodes.
\<close>

fun insert_loop ::
  "permutation \<Rightarrow> bool list \<Rightarrow> u256 list \<Rightarrow> bool \<Rightarrow> nat \<Rightarrow> (nat \<times> u256) list \<Rightarrow> u256 \<Rightarrow> bool \<Rightarrow> u256 \<Rightarrow>
   (u256 \<Rightarrow> u256 list option) \<Rightarrow> (smt_error, u256 \<times> (u256 \<Rightarrow> u256 list option)) outcome" where
  "insert_loop perm key_bits found_siblings added_one siblings_len [] rt_old mixed rt nodes = Inr (rt, nodes)"
| "insert_loop perm key_bits found_siblings added_one siblings_len ((i, sibling) # rest) rt_old mixed rt nodes =
     (let is_last_added_leaf = (added_one \<and> i = siblings_len - 1);
          mixed = (mixed \<or> (\<not> is_last_added_leaf \<and> i < siblings_len - 1 \<and> sibling \<noteq> 0)) in
      andThen (if mixed \<and> \<not> is_last_added_leaf
               then andThen (if i < length found_siblings
                             then ok_or Smt_KeyNotFound (vec_get found_siblings i)
                             else Inr 0) (\<lambda>old_sibling.
                    andThen (ok_or Smt_KeyNotFound (vec_get key_bits i)) (\<lambda>b.
                    andThen (if b then hash_internal perm old_sibling rt_old
                             else hash_internal perm rt_old old_sibling) (\<lambda>rt_old.
                    Inr (rt_old, nodes(rt_old := None)))))
               else Inr (rt_old, nodes)) (\<lambda>(rt_old, nodes).
      andThen (ok_or Smt_KeyNotFound (vec_get key_bits i)) (\<lambda>b.
      let (left_hash, right_hash) = (if b then (sibling, rt) else (rt, sibling)) in
      andThen (hash_internal perm left_hash right_hash) (\<lambda>rt.
      insert_loop perm key_bits found_siblings added_one siblings_len rest rt_old mixed rt
        (nodes(rt \<mapsto> [left_hash, right_hash]))))))"

text \<open>
  The list \<open>siblings\<close> is shortened again after the loop in the source and not read any more;
  that part is left out.
\<close>

definition insert_leaf ::
  "permutation \<Rightarrow> auths \<Rightarrow> u256 \<Rightarrow> u256 \<Rightarrow> smt_store \<Rightarrow> (smt_error, smt_event \<times> smt_store) outcome" where
  "insert_leaf perm auth key value st =
     andThen (ok_or Smt_NotInitialized (sm_admin st)) (\<lambda>admin.
     andThen (require_auth auth admin) (\<lambda>_.
     let root = (case sm_root st of None \<Rightarrow> 0 | Some r \<Rightarrow> r); key_bits = split_bits key in
     andThen (find_key_internal (sm_node st) key key_bits root 0) (\<lambda>fr.
     if fr_found fr then Inl (Fail Smt_KeyAlreadyExists)
     else
       let sibs = fr_siblings fr in
       andThen (if \<not> fr_is_old0 fr
                then let old_key_bits = split_bits (fr_not_found_key fr) in
                     andThen (extend_siblings old_key_bits key_bits (length sibs) sibs) (\<lambda>sibs.
                     andThen (hash_leaf perm (fr_not_found_key fr) (fr_not_found_value fr)) (\<lambda>rt_old.
                     Inr (sibs @ [rt_old], rt_old, True, False)))
                else if sibs \<noteq> [] then Inr (sibs, 0, False, True)
                else Inr (sibs, 0, False, False)) (\<lambda>(sibs, rt_old, added_one, mixed).
       andThen (hash_leaf perm key value) (\<lambda>rt.
       let nodes = (sm_node st)(rt \<mapsto> [1, key, value]) in
       andThen (insert_loop perm key_bits (fr_siblings fr) added_one (length sibs) (rev (enumerate 0 sibs))
                  rt_old mixed rt nodes) (\<lambda>(rt, nodes).
       Inr (LeafInsertedEvent key value rt, st\<lparr>sm_root := Some rt, sm_node := nodes\<rparr>)))))))"

section \<open>Deletion\<close>

text \<open>The loop from the deleted leaf to the root: one round for each sibling in use, last first.\<close>

fun delete_loop ::
  "permutation \<Rightarrow> bool list \<Rightarrow> u256 list \<Rightarrow> nat list \<Rightarrow> u256 \<Rightarrow> bool \<Rightarrow> u256 \<Rightarrow>
   (u256 \<Rightarrow> u256 list option) \<Rightarrow> (smt_error, u256 \<times> (u256 \<Rightarrow> u256 list option)) outcome" where
  "delete_loop perm key_bits sibs [] rt_old mixed rt_new nodes = Inr (rt_new, nodes)"
| "delete_loop perm key_bits sibs (level_idx # rest) rt_old mixed rt_new nodes =
     (let level = length sibs - 1 - level_idx in
      andThen (ok_or Smt_KeyNotFound (vec_get sibs level)) (\<lambda>sibling.
      andThen (ok_or Smt_KeyNotFound (vec_get key_bits level)) (\<lambda>b.
      andThen (if b then hash_internal perm sibling rt_old else hash_internal perm rt_old sibling) (\<lambda>rt_old.
      let nodes = nodes(rt_old := None); mixed = (mixed \<or> sibling \<noteq> 0) in
      if mixed then
        let (left_hash, right_hash) = (if b then (sibling, rt_new) else (rt_new, sibling)) in
        andThen (hash_internal perm left_hash right_hash) (\<lambda>rt_new.
        delete_loop perm key_bits sibs rest rt_old mixed rt_new (nodes(rt_new \<mapsto> [left_hash, right_hash])))
      else delete_loop perm key_bits sibs rest rt_old mixed rt_new nodes))))"

definition delete_leaf ::
  "permutation \<Rightarrow> auths \<Rightarrow> u256 \<Rightarrow> smt_store \<Rightarrow> (smt_error, smt_event \<times> smt_store) outcome" where
  "delete_leaf perm auth key st =
     andThen (ok_or Smt_NotInitialized (sm_admin st)) (\<lambda>admin.
     andThen (require_auth auth admin) (\<lambda>_.
     andThen (ok_or Smt_NotInitialized (sm_root st)) (\<lambda>root.
     let key_bits = split_bits key in
     andThen (find_key_internal (sm_node st) key key_bits root 0) (\<lambda>fr.
     if \<not> fr_found fr then Inl (Fail Smt_KeyNotFound)
     else
       andThen (hash_leaf perm key (fr_found_value fr)) (\<lambda>rt_old.
       let nodes = (sm_node st)(rt_old := None) in
       andThen (if fr_siblings fr \<noteq> []
                then let last_sibling = last (fr_siblings fr) in
                     case nodes last_sibling of
                       None \<Rightarrow> Inl (Fail Smt_KeyNotFound)
                     | Some node_data \<Rightarrow>
                         andThen (if length node_data = 3
                                  then andThen (ok_or Smt_KeyNotFound (vec_get node_data 0)) (\<lambda>tag. Inr (tag = 1))
                                  else Inr False) (\<lambda>is_leaf.
                         if is_leaf then Inr (last_sibling, butlast (fr_siblings fr))
                         else if length node_data = 2 then Inr (0, fr_siblings fr)
                         else Inl (Fail Smt_KeyNotFound))
                else Inr (0, fr_siblings fr)) (\<lambda>(rt_new, sibs).
       andThen (delete_loop perm key_bits sibs [0..<length sibs] rt_old False rt_new nodes) (\<lambda>(rt_new, nodes).
       Inr (LeafDeletedEvent key rt_new, st\<lparr>sm_root := Some rt_new, sm_node := nodes\<rparr>))))))))"

section \<open>Proofs of non-membership\<close>

fun compare_siblings :: "u256 list \<Rightarrow> (nat \<times> u256) list \<Rightarrow> (smt_error, unit) outcome" where
  "compare_siblings found [] = Inr ()"
| "compare_siblings found ((i, sibling) # rest) =
     andThen (ok_or Smt_InvalidProof (vec_get found i)) (\<lambda>expected.
     if sibling \<noteq> expected then Inl (Fail Smt_InvalidProof) else compare_siblings found rest)"

fun root_loop ::
  "permutation \<Rightarrow> bool list \<Rightarrow> u256 list \<Rightarrow> nat list \<Rightarrow> u256 \<Rightarrow> (smt_error, u256) outcome" where
  "root_loop perm key_bits sibs [] computed_root = Inr computed_root"
| "root_loop perm key_bits sibs (level_idx # rest) computed_root =
     (let level = length sibs - 1 - level_idx in
      andThen (ok_or Smt_InvalidProof (vec_get sibs level)) (\<lambda>sibling.
      andThen (ok_or Smt_InvalidProof (vec_get key_bits level)) (\<lambda>b.
      andThen (if b then hash_internal perm sibling computed_root
               else hash_internal perm computed_root sibling) (\<lambda>computed_root.
      root_loop perm key_bits sibs rest computed_root))))"

definition verify_non_membership ::
  "permutation \<Rightarrow> u256 \<Rightarrow> u256 list \<Rightarrow> u256 \<Rightarrow> u256 \<Rightarrow> smt_store \<Rightarrow> (smt_error, bool) outcome" where
  "verify_non_membership perm key sibs not_found_key not_found_value st =
     (let root = (case sm_root st of None \<Rightarrow> 0 | Some r \<Rightarrow> r); key_bits = split_bits key in
      andThen (find_key_internal (sm_node st) key key_bits root 0) (\<lambda>fr.
      if fr_found fr then Inr False
      else if length (fr_siblings fr) \<noteq> length sibs then Inl (Fail Smt_InvalidProof)
      else
        andThen (compare_siblings (fr_siblings fr) (enumerate 0 sibs)) (\<lambda>_.
        if fr_not_found_key fr \<noteq> not_found_key \<or> fr_not_found_value fr \<noteq> not_found_value
        then Inl (Fail Smt_InvalidProof)
        else
          andThen (if not_found_key \<noteq> key \<and> not_found_value \<noteq> 0
                   then hash_leaf perm not_found_key not_found_value else Inr 0) (\<lambda>computed_root.
          andThen (root_loop perm key_bits sibs [0..<length sibs] computed_root) (\<lambda>computed_root.
          if computed_root \<noteq> root then Inl (Fail Smt_InvalidProof) else Inr True)))))"

section \<open>Bits\<close>

lemma length_split_bits [simp]: "length (split_bits k) = 256"
proof -
  have "length (split_bits_loop n k) = n" for n k by (induction n arbitrary: k) simp_all
  then show ?thesis by (simp add: split_bits_def)
qed

lemma split_bits_nth: "i < 256 \<Longrightarrow> split_bits k ! i = bit k i"
proof -
  have "i < n \<Longrightarrow> split_bits_loop n k ! i = bit k i" for n
  proof (induction n arbitrary: i k)
    case (Suc n)
    then show ?case by (cases i) (simp_all add: bit_0 odd_iff_mod_2_eq_one bit_Suc)
  qed simp
  then show "i < 256 \<Longrightarrow> split_bits k ! i = bit k i" by (simp add: split_bits_def)
qed

lemma split_bits_get [simp]: "i < 256 \<Longrightarrow> vec_get (split_bits k) i = Some (bit k i)"
  by (simp add: vec_get_Some split_bits_nth)

section \<open>Search\<close>

lemma hash_internal_ok:
  "host_ok perm \<Longrightarrow> hash_internal perm (thash perm a) (thash perm b) = Inr (thash perm (N a b))"
  by (simp add: hash_internal_def compress_ok thash_less)

lemma hash_leaf_ok:
  "host_ok perm \<Longrightarrow> fits (L k v) \<Longrightarrow> hash_leaf perm k v = Inr (thash perm (L k v))"
  by (simp add: hash_leaf_def leaf_hash_ok)

definition find_spec :: "permutation \<Rightarrow> u256 \<Rightarrow> nat \<Rightarrow> smt \<Rightarrow> find_result" where
  "find_spec perm key d t =
     (let sibs = map (thash perm) (siblings d key t) in
      case end_of d key t of
        L k v \<Rightarrow>
          (if k = key
           then \<lparr>fr_found = True, fr_siblings = sibs, fr_found_value = v, fr_not_found_key = 0,
                  fr_not_found_value = 0, fr_is_old0 = False\<rparr>
           else \<lparr>fr_found = False, fr_siblings = sibs, fr_found_value = 0, fr_not_found_key = k,
                  fr_not_found_value = v, fr_is_old0 = False\<rparr>)
      | _ \<Rightarrow> \<lparr>fr_found = False, fr_siblings = sibs, fr_found_value = 0, fr_not_found_key = key,
               fr_not_found_value = 0, fr_is_old0 = True\<rparr>)"

lemma find_spec_N:
  "find_spec perm key d (N l r) =
    (if bit key d
     then (find_spec perm key (Suc d) r)\<lparr>fr_siblings := thash perm l # fr_siblings (find_spec perm key (Suc d) r)\<rparr>
     else (find_spec perm key (Suc d) l)\<lparr>fr_siblings := thash perm r # fr_siblings (find_spec perm key (Suc d) l)\<rparr>)"
  by (simp add: find_spec_def Let_def split: smt.split)

lemma find_key_internal_ok:
  assumes "trie_wf d t" "holds perm nodes (subtries t)" "0 \<notin> thash perm ` subtries t"
  shows "find_key_internal nodes key (split_bits key) (thash perm t) d = Inr (find_spec perm key d t)"
  using assms
proof (induction t arbitrary: d)
  case E
  then show ?case by (subst find_key_internal.simps) (simp add: find_spec_def)
next
  case (L k v)
  then show ?case
    by (subst find_key_internal.simps) (simp add: find_spec_def holds_def vec_get_def)
next
  case (N l r)
  have node: "nodes (hash_of perm (thash perm l) (thash perm r)) = Some [thash perm l, thash perm r]"
    "hash_of perm (thash perm l) (thash perm r) \<noteq> 0" "d < 256"
    using N.prems by (auto simp: holds_def)
  have sub: "holds perm nodes (subtries l)" "holds perm nodes (subtries r)"
    using N.prems(2) by (auto simp: holds_def)
  have nz: "0 \<notin> thash perm ` subtries l" "0 \<notin> thash perm ` subtries r" using N.prems(3) by auto
  have IH: "find_key_internal nodes key (split_bits key) (thash perm l) (Suc d) = Inr (find_spec perm key (Suc d) l)"
    "find_key_internal nodes key (split_bits key) (thash perm r) (Suc d) = Inr (find_spec perm key (Suc d) r)"
    using N.IH(1) [of "Suc d"] N.IH(2) [of "Suc d"] N.prems(1) sub nz by simp_all
  have lvl: "nat_checked_add 32 d (Suc 0) = Some (Suc d)" using node(3) by (simp add: nat_checked_add_Some)
  show ?case
    by (subst find_key_internal.simps)
      (simp add: node lvl IH vec_get_def [of "[_, _]"] find_spec_N)
qed

lemma extend_siblings_ok:
  "i \<le> 256 \<Longrightarrow> extend_siblings (split_bits k') (split_bits k) i s = Inr (s @ replicate (common i k k') 0)"
proof (induction "256 - i" arbitrary: i s)
  case 0
  then have "i = 256" by simp
  then show ?case by (subst extend_siblings.simps, subst common.simps) simp
next
  case (Suc n)
  then have i: "i < 256" "nat_checked_add 32 i (Suc 0) = Some (Suc i)" by (simp_all add: nat_checked_add_Some)
  show ?case
  proof (cases "bit k i = bit k' i")
    case True
    then show ?thesis using i Suc.hyps(1) [of "Suc i" "s @ [0]"] Suc.hyps(2)
      by (subst extend_siblings.simps, subst common.simps) simp
  next
    case False
    then show ?thesis using i by (subst extend_siblings.simps, subst common.simps) auto
  qed
qed

lemma last_sibling:
  assumes "trie_wf d t" "siblings d k t \<noteq> []"
  shows "last (siblings d k t) \<noteq> E" "end_of d k t = E \<Longrightarrow> many (last (siblings d k t))"
proof -
  have step: "s \<noteq> E" "end_of e k u = E \<Longrightarrow> many s"
    if "siblings e k u = []" "s = E \<longrightarrow> many u" "u = E \<longrightarrow> many s" for s u e
    using that by (cases u; auto split: if_splits)+
  have "last (siblings d k t) \<noteq> E \<and> (end_of d k t = E \<longrightarrow> many (last (siblings d k t)))"
    using assms
  proof (induction t arbitrary: d)
    case (N l r)
    show ?case
    proof (cases "bit k d")
      case True
      then show ?thesis
        using N.IH(2) [of "Suc d"] N.prems(1) step [of "Suc d" r l] by (cases "siblings (Suc d) k r = []") auto
    next
      case False
      then show ?thesis
        using N.IH(1) [of "Suc d"] N.prems(1) step [of "Suc d" l r] by (cases "siblings (Suc d) k l = []") auto
    qed
  qed auto
  then show "last (siblings d k t) \<noteq> E" "end_of d k t = E \<Longrightarrow> many (last (siblings d k t))" by auto
qed

section \<open>Insertion\<close>

lemma rev_enumerate_Suc:
  "n < length xs \<Longrightarrow> rev (enumerate 0 (take (Suc n) xs)) = (n, xs ! n) # rev (enumerate 0 (take n xs))"
  by (simp add: take_Suc_conv_app_nth enumerate_append_eq)

lemma length_new_siblings:
  assumes "trie_wf 0 t" "k \<notin> keys t"
  shows "length (new_siblings 0 k t) \<le> 256"
proof (cases "end_of 0 k t")
  case (L k' v')
  have "end_of 0 k t \<in> subtries t" using end_of_subtries [of 0 k t] L by auto
  then have "(k', v') \<in> entries t" using subtries_entries [of "L k' v'" t] L by auto
  then have ne: "k \<noteq> k'" using assms(2) by force
  have "common d k k' + d < 256" if "agree d k k'" for d using common_bits [OF ne that] by simp
  moreover have "agree (length (siblings 0 k t)) k k'"
    using assms(1) L
  proof -
    have "trie_wf d u \<Longrightarrow> under d k u \<Longrightarrow> end_of d k u = L k' v' \<Longrightarrow> agree (d + length (siblings d k u)) k k'" for d u
    proof (induction u arbitrary: d)
      case (N l r)
      then show ?case using N.IH(1) [of "Suc d"] N.IH(2) [of "Suc d"] under_child [OF N.prems(1,2)] by auto
    qed auto
    from this [of 0 t] show ?thesis using assms(1) L by simp
  qed
  ultimately show ?thesis using L by (fastforce simp: new_siblings_def)
qed (use length_siblings [OF assms(1)] in \<open>auto simp: new_siblings_def\<close>)

text \<open>
  The loop on a well-formed trie. \<open>S\<close> are the siblings of the new leaf, \<open>F\<close> those of the old
  path, \<open>x\<close> the new leaf and \<open>y\<close> the old end; the nodes hold what is common to the old and the
  new trie and the new path built so far.
\<close>

lemma insert_loop_ok:
  fixes perm k v t
  defines "F \<equiv> siblings 0 k t" and "S \<equiv> new_siblings 0 k t" and "y \<equiv> end_of 0 k t" and "x \<equiv> L k v"
    and "t' \<equiv> tinsert 0 k v t"
  assumes "host_ok perm" "trie_wf 0 t" "k \<notin> keys t" "no_collision perm (subtries t \<union> subtries t')"
    and "n \<le> length S" "rt = thash perm (plug n k (drop n S) x)"
    and "holds perm nodes (subtries t \<inter> subtries t' \<union> {plug j k (drop j S) x |j. n \<le> j \<and> j \<le> length S})"
    and "if mixed then n \<le> length F \<and> rt_old = thash perm (plug n k (drop n F) y)
      else length F \<le> n \<and> rt_old = thash perm y \<and> (y \<noteq> E \<or> F = [])"
  shows "\<exists>nodes'. insert_loop perm (split_bits k) (map (thash perm) F) (y \<noteq> E) (length S)
      (rev (enumerate 0 (take n (map (thash perm) S)))) rt_old mixed rt nodes = Inr (thash perm t', nodes') \<and>
    holds perm nodes' (subtries t \<inter> subtries t' \<union> {plug j k (drop j S) x |j. j \<le> length S})"
  using assms(10-)
proof (induction n arbitrary: rt_old mixed rt nodes)
  case 0
  have "t' = plug 0 k S x" using tinsert_plug [of 0 t k v] assms(7,8) by (simp add: t'_def S_def x_def)
  then show ?case using 0 by simp
next
  case (Suc n)
  let ?h = "thash perm" and ?X = "\<lambda>n. subtries t \<inter> subtries t' \<union> {plug j k (drop j S) x |j. n \<le> j \<and> j \<le> length S}"
  have t': "t' = plug 0 k S x" using tinsert_plug [of 0 t k v] assms(7,8) by (simp add: t'_def S_def x_def)
  have n: "n < length S" "n < 256" using Suc.prems(1) length_new_siblings [OF assms(7,8)] by (simp_all add: S_def)
  have new_in: "plug j k (drop j S) x \<in> subtries t'" if "j \<le> length S" for j
  proof -
    have "plug j k (drop j S) x \<noteq> E" by (cases "drop j S") (simp_all add: x_def join_def)
    then show ?thesis using plug_subtries [OF that, of 0 k x] subtries_self t' by auto
  qed
  then have X: "?X m \<subseteq> subtries t'" for m by auto
  have len: "y = E \<Longrightarrow> length S = length F" "y \<noteq> E \<Longrightarrow> length F < length S"
    using end_of_cases [of 0 k t] by (auto simp: S_def F_def y_def new_siblings_def)
  have P: "plug n k (drop n S) x = join (bit k n) (S ! n) (plug (Suc n) k (drop (Suc n) S) x)"
    using n by (simp add: Cons_nth_drop_Suc [symmetric])
  have rt: "hash_internal perm (if bit k n then ?h (S ! n) else rt) (if bit k n then rt else ?h (S ! n)) =
      Inr (?h (plug n k (drop n S) x))"
    unfolding P Suc.prems(2) using assms(6) by (simp add: hash_internal_ok thash_join del: thash.simps) (simp add: join_def)
  have content: "content perm (plug n k (drop n S) x) = (if bit k n then [?h (S ! n), rt] else [rt, ?h (S ! n)])"
    unfolding P Suc.prems(2) by (simp add: content_join)
  have set_node: "holds perm (ns(?h (plug n k (drop n S) x) \<mapsto> content perm (plug n k (drop n S) x))) (?X n)"
    if "holds perm ns (?X (Suc n))" for ns
  proof -
    have "?X n \<subseteq> insert (plug n k (drop n S) x) (?X (Suc n))"
    proof
      fix s assume "s \<in> ?X n"
      then consider "s \<in> subtries t \<inter> subtries t'" | j where "s = plug j k (drop j S) x" "n \<le> j" "j \<le> length S"
        by blast
      then show "s \<in> insert (plug n k (drop n S) x) (?X (Suc n))"
      proof cases
        case (2 j)
        then have "j = n \<or> Suc n \<le> j" by linarith
        then show ?thesis using 2 by blast
      qed blast
    qed
    moreover have "holds perm (ns(?h (plug n k (drop n S) x) \<mapsto> content perm (plug n k (drop n S) x)))
        (insert (plug n k (drop n S) x) (?X (Suc n)))"
      using holds_set [OF that assms(9), of "plug n k (drop n S) x"] X [of "Suc n"] new_in [of n] n by auto
    ultimately show ?thesis by (meson holds_mono)
  qed
  have loop: "rev (enumerate 0 (take (Suc n) (map ?h S))) = (n, ?h (S ! n)) # rev (enumerate 0 (take n (map ?h S)))"
    using n rev_enumerate_Suc [of n "map ?h S"] by simp
  show ?case
  proof (cases "n < length F")
    case False
    then have m: "\<not> mixed" "rt_old = ?h y" "y \<noteq> E" using Suc.prems(4) len n by (auto split: if_splits)
    have Sn: "n < length S - 1 \<Longrightarrow> ?h (S ! n) = 0"
      using False m(3) end_of_cases [of 0 k t] n
      by (auto simp: S_def F_def y_def new_siblings_def nth_append)
    have "\<exists>nodes'. insert_loop perm (split_bits k) (map ?h F) (y \<noteq> E) (length S) (rev (enumerate 0 (take n (map ?h S))))
        rt_old False (?h (plug n k (drop n S) x))
        (nodes(?h (plug n k (drop n S) x) \<mapsto> content perm (plug n k (drop n S) x))) = Inr (?h t', nodes') \<and>
      holds perm nodes' (subtries t \<inter> subtries t' \<union> {plug j k (drop j S) x |j. j \<le> length S})"
      by (rule Suc.IH [OF _ refl set_node [OF Suc.prems(3)]]) (use n m False in simp_all)
    moreover have "(n \<noteq> length S - Suc 0 \<and> n < length S - Suc 0 \<and> ?h (S ! n) \<noteq> 0) = False" using Sn by auto
    ultimately show ?thesis
      using m n rt unfolding loop content by (auto simp: Let_def split: if_splits)
  next
    case True
    have F: "S ! n = F ! n" using True by (simp add: S_def F_def new_siblings_def nth_append)
    have last: "\<not> (y \<noteq> E \<and> n = length S - 1)" using True len by auto
    have old: "rt_old = ?h (plug (Suc n) k (drop (Suc n) F) y)"
      using Suc.prems(4) True by (auto split: if_splits)
    have mix: "mixed \<or> n < length S - 1 \<and> ?h (S ! n) \<noteq> 0"
    proof (cases mixed)
      case False
      then have e: "length F = Suc n" "y \<noteq> E" using Suc.prems(4) True by auto
      then have "F ! n = last F" by (metis diff_Suc_1 last_conv_nth list.size(3) nat.distinct(1))
      moreover have "last F \<noteq> E" using last_sibling(1) [OF assms(7), of k] e(1) by (cases F) (auto simp: F_def)
      moreover have "subtries (F ! n) \<subseteq> subtries t" using siblings_subtries nth_mem [OF True] by (auto simp: F_def)
      ultimately have "S ! n \<in> subtries t" using F subtries_self by auto
      then show ?thesis using assms(9) e len by (auto simp: no_collision_def)
    qed simp
    have O: "plug n k (drop n F) y = join (bit k n) (F ! n) (plug (Suc n) k (drop (Suc n) F) y)"
      using True by (simp add: Cons_nth_drop_Suc [symmetric])
    have rto: "(if bit k n then hash_internal perm (?h (F ! n)) rt_old else hash_internal perm rt_old (?h (F ! n))) =
        Inr (?h (plug n k (drop n F) y))"
      unfolding O old using assms(6) by (simp add: hash_internal_ok join_def)
    have on_path: "plug n k (drop n F) y \<in> path_nodes 0 k t"
      using plug_path_node [of n 0 k t] True by (simp add: F_def y_def)
    then have gone: "plug n k (drop n F) y \<notin> ?X (Suc n)" "plug n k (drop n F) y \<in> subtries t \<union> subtries t'"
      using tinsert_subtries_path [of 0 t k v] assms(7,8) X [of "Suc n"] path_nodes_subtries [of 0 k t] by (auto simp: t'_def)
    let ?ns = "nodes(?h (plug n k (drop n F) y) := None)"
    have kept: "holds perm ?ns (?X (Suc n))"
      using holds_remove [OF Suc.prems(3) assms(9) _ gone(2,1)] X [of "Suc n"] by blast
    have "\<exists>nodes'. insert_loop perm (split_bits k) (map ?h F) (y \<noteq> E) (length S) (rev (enumerate 0 (take n (map ?h S))))
        (?h (plug n k (drop n F) y)) True (?h (plug n k (drop n S) x))
        (?ns(?h (plug n k (drop n S) x) \<mapsto> content perm (plug n k (drop n S) x))) = Inr (?h t', nodes') \<and>
      holds perm nodes' (subtries t \<inter> subtries t' \<union> {plug j k (drop j S) x |j. j \<le> length S})"
      by (rule Suc.IH [OF _ refl set_node [OF kept]]) (use n True in simp_all)
    moreover have "vec_get (map ?h F) n = Some (?h (F ! n))" using True by (simp add: vec_get_Some)
    ultimately show ?thesis
      using last mix n True rt rto unfolding loop content by (auto simp: Let_def F split: if_splits)
  qed
qed

text \<open>The storage that represents a trie.\<close>

definition smt_ok :: "permutation \<Rightarrow> smt \<Rightarrow> smt_store \<Rightarrow> bool" where
  "smt_ok perm t st \<longleftrightarrow> trie_wf 0 t \<and> fits t \<and> sm_root st = Some (thash perm t) \<and> holds perm (sm_node st) (subtries t)"

lemma find_spec_found:
  "fr_found (find_spec perm k 0 t) \<longleftrightarrow> (\<exists>v. end_of 0 k t = L k v)"
  using end_of_cases [of 0 k t] by (auto simp: find_spec_def Let_def split: if_splits)

lemma keys_end_of:
  assumes "trie_wf 0 t"
  shows "(k, v) \<in> entries t \<longleftrightarrow> end_of 0 k t = L k v"
  using tfind_entries [OF assms, of k v] tfind_end [of 0 k t] by (auto split: smt.splits if_splits)

lemma smt_find:
  assumes "smt_ok perm t st" "no_collision perm T" "subtries t \<subseteq> T"
  shows "find_key_internal (sm_node st) k (split_bits k) (thash perm t) 0 = Inr (find_spec perm k 0 t)"
  using assms by (intro find_key_internal_ok) (auto simp: smt_ok_def no_collision_def)

lemma fits_tinsert:
  assumes "trie_wf 0 t" "k \<notin> keys t" "fits t" "fits (L k v)"
  shows "fits (tinsert 0 k v t)"
  using assms(3,4) entries_tinsert [OF assms(1) _ assms(2), of v] by (auto simp: fits_def)

text \<open>What insertion does between the search and the loop.\<close>

abbreviation insert_prep ::
  "permutation \<Rightarrow> u256 \<Rightarrow> find_result \<Rightarrow> (smt_error, u256 list \<times> u256 \<times> bool \<times> bool) outcome" where
  "insert_prep perm k fr \<equiv>
     (if \<not> fr_is_old0 fr
      then let old_key_bits = split_bits (fr_not_found_key fr) in
           andThen (extend_siblings old_key_bits (split_bits k) (length (fr_siblings fr)) (fr_siblings fr)) (\<lambda>sibs.
           andThen (hash_leaf perm (fr_not_found_key fr) (fr_not_found_value fr)) (\<lambda>rt_old.
           Inr (sibs @ [rt_old], rt_old, True, False)))
      else if fr_siblings fr \<noteq> [] then Inr (fr_siblings fr, 0, False, True)
      else Inr (fr_siblings fr, 0, False, False))"

lemma find_spec_absent:
  assumes "trie_wf 0 t" "k \<notin> keys t"
  shows "\<not> fr_found (find_spec perm k 0 t)" "fr_siblings (find_spec perm k 0 t) = map (thash perm) (siblings 0 k t)"
    "fr_is_old0 (find_spec perm k 0 t) = (end_of 0 k t = E)"
  using assms keys_end_of [OF assms(1), of k] end_of_cases [of 0 k t] by (force simp: find_spec_def Let_def)+

lemma insert_prep_ok:
  assumes "host_ok perm" "trie_wf 0 t" "fits t" "k \<notin> keys t"
  shows "insert_prep perm k (find_spec perm k 0 t) = Inr (map (thash perm) (new_siblings 0 k t), thash perm (end_of 0 k t),
    end_of 0 k t \<noteq> E, end_of 0 k t = E \<and> siblings 0 k t \<noteq> [])"
proof -
  let ?F = "siblings 0 k t" and ?S = "new_siblings 0 k t" and ?y = "end_of 0 k t"
  note nf = find_spec_absent [OF assms(2,4), of perm]
  show ?thesis
  proof (cases ?y)
    case (L k' v')
    then have "(k', v') \<in> entries t"
      using end_of_subtries [of 0 k t] subtries_entries [of "L k' v'" t] by auto
    then have "fits (L k' v')" "k' \<noteq> k" using assms(3,4) by (force simp: fits_def)+
    moreover have "length ?F \<le> 256" using length_siblings [OF assms(2), of k] by simp
    ultimately show ?thesis using L assms(1) nf
      by (simp add: find_spec_def Let_def extend_siblings_ok hash_leaf_ok new_siblings_def del: fits_simps thash.simps(2))
  qed (use nf end_of_cases [of 0 k t] in \<open>auto simp: new_siblings_def\<close>)
qed

lemma insert_leaf_ok:
  assumes "host_ok perm" "smt_ok perm t st" "no_collision perm (subtries t \<union> subtries (tinsert 0 k v t))"
    and "sm_admin st = Some a" "auth a" "fits (L k v)"
  shows "if k \<in> keys t then insert_leaf perm auth k v st = Inl (Fail Smt_KeyAlreadyExists)
    else \<exists>st'. insert_leaf perm auth k v st = Inr (LeafInsertedEvent k v (thash perm (tinsert 0 k v t)), st') \<and>
      smt_ok perm (tinsert 0 k v t) st' \<and> sm_admin st' = sm_admin st"
proof -
  have ok: "trie_wf 0 t" "fits t" "sm_root st = Some (thash perm t)" "holds perm (sm_node st) (subtries t)"
    using assms(2) by (simp_all add: smt_ok_def)
  have find: "find_key_internal (sm_node st) k (split_bits k) (thash perm t) 0 = Inr (find_spec perm k 0 t)"
    by (rule smt_find [OF assms(2,3)]) simp
  show ?thesis
  proof (cases "k \<in> keys t")
    case True
    then have "fr_found (find_spec perm k 0 t)" using keys_end_of [OF ok(1)] by (auto simp: find_spec_found)
    then show ?thesis using True assms(4,5) ok(3) find by (simp add: insert_leaf_def Let_def)
  next
    case False
    let ?F = "siblings 0 k t" and ?S = "new_siblings 0 k t" and ?y = "end_of 0 k t" and ?t' = "tinsert 0 k v t"
    have nf: "\<not> fr_found (find_spec perm k 0 t)" "fr_siblings (find_spec perm k 0 t) = map (thash perm) ?F"
      "fr_is_old0 (find_spec perm k 0 t) = (?y = E)"
      using False keys_end_of [OF ok(1), of k] end_of_cases [of 0 k t] by (force simp: find_spec_def Let_def)+
    have t': "?t' = plug 0 k ?S (L k v)" using tinsert_plug [OF ok(1) _ False] by simp
    have leaf: "L k v \<in> subtries ?t'" using plug_subtries [of "length ?S" ?S 0 k "L k v"] t' by simp
    let ?nodes = "(sm_node st)(thash perm (L k v) \<mapsto> content perm (L k v))"
    have "holds perm ?nodes (insert (L k v) (subtries t \<inter> subtries ?t'))"
      using leaf by (intro holds_set [OF holds_mono [OF ok(4)] assms(3)]) auto
    moreover have "subtries t \<inter> subtries ?t' \<union> {plug j k (drop j ?S) (L k v) |j. length ?S \<le> j \<and> j \<le> length ?S} =
        insert (L k v) (subtries t \<inter> subtries ?t')" by (auto intro: exI [of _ "length ?S"])
    ultimately have start: "holds perm ?nodes
        (subtries t \<inter> subtries ?t' \<union> {plug j k (drop j ?S) (L k v) |j. length ?S \<le> j \<and> j \<le> length ?S})" by simp
    have prep: "insert_prep perm k (find_spec perm k 0 t) = Inr (map (thash perm) ?S, thash perm ?y, ?y \<noteq> E, ?y = E \<and> ?F \<noteq> [])"
      by (rule insert_prep_ok [OF assms(1) ok(1,2) False])
    obtain nodes' where loop: "insert_loop perm (split_bits k) (map (thash perm) ?F) (?y \<noteq> E) (length ?S)
        (rev (enumerate 0 (map (thash perm) ?S))) (thash perm ?y) (?y = E \<and> ?F \<noteq> []) (thash perm (L k v)) ?nodes =
        Inr (thash perm ?t', nodes')"
      "holds perm nodes' (subtries t \<inter> subtries ?t' \<union> {plug j k (drop j ?S) (L k v) |j. j \<le> length ?S})"
    proof -
      have mix: "if ?y = E \<and> ?F \<noteq> [] then length ?S \<le> length ?F \<and> thash perm ?y = thash perm (plug (length ?S) k (drop (length ?S) ?F) ?y)
        else length ?F \<le> length ?S \<and> thash perm ?y = thash perm ?y \<and> (?y \<noteq> E \<or> ?F = [])"
        by (auto simp: new_siblings_def)
      have "thash perm (L k v) = thash perm (plug (length ?S) k (drop (length ?S) ?S) (L k v))" by simp
      from insert_loop_ok [OF assms(1) ok(1) False assms(3) order.refl this start mix] show ?thesis
        using that by auto
    qed
    have all: "subtries ?t' \<subseteq> subtries t \<inter> subtries ?t' \<union> {plug j k (drop j ?S) (L k v) |j. j \<le> length ?S}"
    proof
      fix s assume s: "s \<in> subtries ?t'"
      then consider "s \<in> subtries (L k v)" | u where "u \<in> set ?S" "s \<in> subtries u"
        | j where "j < length ?S" "s = plug (0 + j) k (drop j ?S) (L k v)"
        using subtries_plug [of s 0 k ?S "L k v"] t' by auto
      then show "s \<in> subtries t \<inter> subtries ?t' \<union> {plug j k (drop j ?S) (L k v) |j. j \<le> length ?S}"
      proof cases
        case 1
        then have "s = plug (length ?S) k (drop (length ?S) ?S) (L k v)" by simp
        then show ?thesis by blast
      next
        case 2
        then have "s \<in> subtries t"
          using siblings_subtries [of u 0 k t] end_of_subtries [of 0 k t] end_of_cases [of 0 k t]
          by (auto simp: new_siblings_def split: smt.splits)
        then show ?thesis using s by blast
      next
        case 3
        then have "j \<le> length ?S" "s = plug j k (drop j ?S) (L k v)" by simp_all
        then show ?thesis by blast
      qed
    qed
    have hl: "hash_leaf perm k v = Inr (thash perm (L k v))" by (rule hash_leaf_ok [OF assms(1,6)])
    let ?st = "st\<lparr>sm_root := Some (thash perm ?t'), sm_node := nodes'\<rparr>"
    have "insert_leaf perm auth k v st = Inr (LeafInsertedEvent k v (thash perm ?t'), ?st)"
      using assms(4,5) ok(3) find nf(1) prep hl loop(1) unfolding nf(2)
      by (simp add: insert_leaf_def Let_def nf(2) del: thash.simps)
    moreover have "smt_ok perm ?t' ?st"
      using trie_wf_tinsert [OF ok(1) _ False] fits_tinsert [OF ok(1) False ok(2) assms(6)] holds_mono [OF loop(2) all]
      by (simp add: smt_ok_def)
    ultimately show ?thesis using False by auto
  qed
qed

section \<open>Deletion\<close>

lemma upt_tail: "n < m \<Longrightarrow> [m - Suc n..<m] = (m - Suc n) # [m - n..<m]"
  by (subst upt_conv_Cons) (auto simp: Suc_diff_Suc)

text \<open>
  The loop of a deletion. \<open>U\<close> are the siblings in use and \<open>x\<close> what takes the place of the leaf: a
  promoted leaf, or nothing next to an inner node. Every node removed has the deleted key below.
\<close>

lemma delete_loop_ok:
  fixes perm k v t U x
  defines "g \<equiv> plug 0 k U (L k v)" and "t' \<equiv> cplug 0 k U x"
  assumes "host_ok perm" "length U \<le> 256" "no_collision perm (T \<union> subtries t' \<union> subtries g)"
    and "\<forall>u \<in> set U. subtries u \<subseteq> T" "\<not> many x" "x \<noteq> E \<or> U = [] \<or> many (last U)" "k \<notin> keys t'"
    and "n \<le> length U" "rt_new = thash perm (cplug n k (drop n U) x)" "rt_old = thash perm (plug n k (drop n U) (L k v))"
    and "mixed = many (cplug n k (drop n U) x)"
    and "holds perm nodes (T \<inter> subtries t' \<union> {cplug j k (drop j U) x |j. n \<le> j \<and> j \<le> length U \<and> many (cplug j k (drop j U) x)})"
  shows "\<exists>nodes'. delete_loop perm (split_bits k) (map (thash perm) U) [length U - n..<length U] rt_old mixed rt_new nodes =
      Inr (thash perm t', nodes') \<and>
    holds perm nodes' (T \<inter> subtries t' \<union> {cplug j k (drop j U) x |j. j \<le> length U \<and> many (cplug j k (drop j U) x)})"
  using assms(10-)
proof (induction n arbitrary: rt_old mixed rt_new nodes)
  case 0
  then show ?case by (simp add: t'_def)
next
  case (Suc n)
  let ?h = "thash perm" and ?C = "\<lambda>j. cplug j k (drop j U) x" and ?G = "\<lambda>j. plug j k (drop j U) (L k v)"
  let ?X = "\<lambda>n. T \<inter> subtries t' \<union> {?C j |j. n \<le> j \<and> j \<le> length U \<and> many (?C j)}"
  have n: "n < length U" "n < 256" using Suc.prems(1) assms(4) by simp_all
  have C: "?C n = collapse (bit k n) (U ! n) (?C (Suc n))" and G: "?G n = join (bit k n) (U ! n) (?G (Suc n))"
    using n by (simp_all add: Cons_nth_drop_Suc [symmetric])
  have C_in: "?C j \<in> subtries t'" if "j \<le> length U" "many (?C j)" for j
    using cplug_subtries [of j U 0 k x] that by (simp add: t'_def)
  then have X: "?X m \<subseteq> subtries t'" for m by auto
  have no_k: "k \<notin> keys s" if "s \<in> subtries t'" for s
    using subtries_entries [OF that] assms(9) by (meson image_mono subsetD)
  have G_in: "?G n \<in> subtries g" "k \<in> keys (?G n)"
    using plug_subtries [of n U 0 k "L k v"] n subtries_self [of "?G n"] keys_plug [of n k "drop n U" "L k v"]
    by (auto simp: g_def G join_def)
  have rto: "(if bit k n then hash_internal perm (?h (U ! n)) rt_old else hash_internal perm rt_old (?h (U ! n))) = Inr (?h (?G n))"
    unfolding G Suc.prems(3) using assms(3) by (simp add: hash_internal_ok join_def)
  let ?ns = "nodes(?h (?G n) := None)"
  have kept: "holds perm ?ns (?X (Suc n))"
    using holds_remove [OF Suc.prems(5) assms(5), of "?G n"] X [of "Suc n"] G_in no_k by blast
  have loop: "[length U - Suc n..<length U] = (length U - Suc n) # [length U - n..<length U]"
    using n(1) by (rule upt_tail)
  have level: "length U - 1 - (length U - Suc n) = n" using n by simp
  have get: "vec_get (map ?h U) n = Some (?h (U ! n))" using n by (simp add: vec_get_Some)
  have sib: "?h (U ! n) \<noteq> 0 \<longleftrightarrow> U ! n \<noteq> E"
  proof -
    have "U ! n \<noteq> E \<Longrightarrow> U ! n \<in> T" using assms(6) n subtries_self nth_mem by blast
    then show ?thesis using assms(5) by (auto simp: no_collision_def)
  qed
  have bottom: "?C (Suc n) = E \<Longrightarrow> many (U ! n)"
  proof -
    assume e: "?C (Suc n) = E"
    then have "x = E" "drop (Suc n) U = [] \<or> last (drop (Suc n) U) = E" using cplug_not_E [of x "drop (Suc n) U" "Suc n" k] by auto
    moreover from this have "many (last U)" using assms(8) n by auto
    ultimately have "drop (Suc n) U = []" by (metis drop_eq_Nil last_drop many_not_E not_less)
    then have "length U = Suc n" using n by simp
    then have "last U = U ! n" by (metis diff_Suc_1 last_conv_nth list.size(3) nat.distinct(1))
    then show "many (U ! n)" using \<open>many (last U)\<close> by simp
  qed
  show ?case
  proof (cases "mixed \<or> U ! n \<noteq> E")
    case True
    then have J: "?C n = join (bit k n) (U ! n) (?C (Suc n))"
      unfolding C using Suc.prems(4) bottom by (intro collapse_join) auto
    then have many: "many (?C n)" by simp
    have rtn: "hash_internal perm (if bit k n then ?h (U ! n) else rt_new) (if bit k n then rt_new else ?h (U ! n)) = Inr (?h (?C n))"
      unfolding J Suc.prems(2) using assms(3) by (simp add: hash_internal_ok join_def)
    have content: "content perm (?C n) = (if bit k n then [?h (U ! n), rt_new] else [rt_new, ?h (U ! n)])"
      unfolding J Suc.prems(2) by (simp add: content_join)
    have "?X n \<subseteq> insert (?C n) (?X (Suc n))"
    proof
      fix s assume "s \<in> ?X n"
      then consider "s \<in> T \<inter> subtries t'" | j where "s = ?C j" "n \<le> j" "j \<le> length U" "many (?C j)"
        by blast
      then show "s \<in> insert (?C n) (?X (Suc n))"
      proof cases
        case (2 j)
        then have "j = n \<or> Suc n \<le> j" by linarith
        then show ?thesis using 2 by blast
      qed blast
    qed
    moreover have "holds perm (?ns(?h (?C n) \<mapsto> content perm (?C n))) (insert (?C n) (?X (Suc n)))"
      using holds_set [OF kept assms(5), of "?C n"] X [of "Suc n"] C_in [of n] n many by auto
    ultimately have set_node: "holds perm (?ns(?h (?C n) \<mapsto> content perm (?C n))) (?X n)" by (meson holds_mono)
    have "\<exists>nodes'. delete_loop perm (split_bits k) (map ?h U) [length U - n..<length U] (?h (?G n)) True (?h (?C n))
        (?ns(?h (?C n) \<mapsto> content perm (?C n))) = Inr (?h t', nodes') \<and>
      holds perm nodes' (T \<inter> subtries t' \<union> {?C j |j. j \<le> length U \<and> many (?C j)})"
      by (rule Suc.IH [OF _ refl refl _ set_node]) (use n many in simp_all)
    moreover have "(mixed \<or> ?h (U ! n) \<noteq> 0) = True" using True sib by simp
    ultimately show ?thesis
      using n rto rtn level get unfolding loop content by (auto simp: Let_def split: if_splits)
  next
    case False
    then have e: "U ! n = E" "\<not> many (?C (Suc n))" using Suc.prems(4) by auto
    then have "?C n = ?C (Suc n)" unfolding C using bottom by (auto intro: collapse_E_left)
    have "\<exists>nodes'. delete_loop perm (split_bits k) (map ?h U) [length U - n..<length U] (?h (?G n)) False rt_new ?ns = Inr (?h t', nodes') \<and>
      holds perm nodes' (T \<inter> subtries t' \<union> {?C j |j. j \<le> length U \<and> many (?C j)})"
    proof -
      have eq: "?C n = ?C (Suc n)" by fact
      have "?X n \<subseteq> ?X (Suc n)"
      proof
        fix s assume "s \<in> ?X n"
        then consider "s \<in> T \<inter> subtries t'" | j where "s = ?C j" "n \<le> j" "j \<le> length U" "many (?C j)"
          by blast
        then show "s \<in> ?X (Suc n)"
        proof cases
          case (2 j)
          then have "Suc n \<le> j" using eq e(2) by (metis not_less_eq_eq le_antisym)
          then show ?thesis using 2 by blast
        qed blast
      qed
      then have h: "holds perm ?ns (?X n)" using kept holds_mono by blast
      show ?thesis
        by (rule Suc.IH [OF _ _ refl _ h]) (use n e(2) eq Suc.prems(2) in simp_all)
    qed
    moreover have "(mixed \<or> ?h (U ! n) \<noteq> 0) = False" using False sib by simp
    ultimately show ?thesis
      using n rto level get unfolding loop by (auto simp: Let_def split: if_splits)
  qed
qed

text \<open>The siblings a deletion rebuilds, what it puts at the end of the path, and the nodes it removes.\<close>

definition rebuilt :: "u256 \<Rightarrow> smt \<Rightarrow> smt list \<times> smt" where
  "rebuilt k t =
     (let F = siblings 0 k t in
      if F = [] \<or> many (last F) then (F, E) else (butlast F, last F))"

definition removed_path :: "u256 \<Rightarrow> u256 \<Rightarrow> smt \<Rightarrow> smt" where
  "removed_path k v t = plug 0 k (fst (rebuilt k t)) (L k v)"

lemma rebuilt_props:
  assumes "trie_wf 0 t" "end_of 0 k t = L k v" "rebuilt k t = (U, x)"
  shows "length U \<le> 256" "\<forall>u \<in> set U. subtries u \<subseteq> subtries t" "\<not> many x" "x \<noteq> E \<or> U = [] \<or> many (last U)"
    "subtries x \<subseteq> subtries t" "tdelete 0 k t = cplug 0 k U x" "\<forall>u \<in> insert x (set U). k \<notin> keys u"
proof -
  let ?F = "siblings 0 k t"
  have last: "?F \<noteq> [] \<Longrightarrow> last ?F \<noteq> E" using last_sibling(1) [OF assms(1)] by simp
  have UX: "(?F = [] \<or> many (last ?F)) \<and> U = ?F \<and> x = E \<or>
      ?F \<noteq> [] \<and> \<not> many (last ?F) \<and> U = butlast ?F \<and> x = last ?F"
    using assms(3) by (auto simp: rebuilt_def Let_def split: if_splits)
  then have sub: "set U \<subseteq> set ?F" "x = E \<or> x \<in> set ?F" by (auto dest: in_set_butlastD)
  show "length U \<le> 256" using length_siblings [OF assms(1), of k] UX by auto
  show "\<forall>u \<in> set U. subtries u \<subseteq> subtries t" "subtries x \<subseteq> subtries t"
    using sub siblings_subtries [of _ 0 k t] by auto
  show "\<not> many x" "x \<noteq> E \<or> U = [] \<or> many (last U)" using UX last by auto
  show "\<forall>u \<in> insert x (set U). k \<notin> keys u" using sub siblings_keys [OF assms(1), of _ k] by auto
  have "cplug 0 k ?F E = cplug 0 k U x"
  proof (cases "?F = [] \<or> many (last ?F)")
    case False
    then have e: "?F = U @ [x]" "x \<noteq> E" "\<not> many x" using UX last by auto
    then have "collapse b x E = x" for b by (cases x) (simp_all add: collapse_def)
    then show ?thesis using e by (simp add: cplug_append)
  qed (use UX in auto)
  then show "tdelete 0 k t = cplug 0 k U x" using tdelete_cplug [OF assms(2)] by simp
qed

lemma delete_leaf_ok:
  assumes "host_ok perm" "smt_ok perm t st" "(k, v) \<in> entries t"
    and "no_collision perm (subtries t \<union> subtries (tdelete 0 k t) \<union> subtries (removed_path k v t))"
    and "sm_admin st = Some a" "auth a"
  shows "\<exists>st'. delete_leaf perm auth k st = Inr (LeafDeletedEvent k (thash perm (tdelete 0 k t)), st') \<and>
      smt_ok perm (tdelete 0 k t) st' \<and> sm_admin st' = sm_admin st"
proof -
  let ?h = "thash perm" and ?F = "siblings 0 k t" and ?t' = "tdelete 0 k t"
  have ok: "trie_wf 0 t" "fits t" "sm_root st = Some (?h t)" "holds perm (sm_node st) (subtries t)"
    using assms(2) by (simp_all add: smt_ok_def)
  have y: "end_of 0 k t = L k v" using assms(3) keys_end_of [OF ok(1)] by simp
  obtain U x where ux: "rebuilt k t = (U, x)" by fastforce
  note R = rebuilt_props [OF ok(1) y ux]
  have g: "removed_path k v t = plug 0 k U (L k v)" using ux by (simp add: removed_path_def)
  have find: "find_key_internal (sm_node st) k (split_bits k) (?h t) 0 = Inr (find_spec perm k 0 t)"
    by (rule smt_find [OF assms(2,4)]) blast
  let ?fr = "find_spec perm k 0 t"
  have fr: "fr_found ?fr" "fr_found_value ?fr = v" and fs: "fr_siblings ?fr = map ?h ?F"
    using y by (simp_all add: find_spec_def)
  have leaf: "L k v \<in> subtries t" using end_of_subtries [of 0 k t] y by simp
  have fl: "fits (L k v)" using ok(2) assms(3) by (force simp: fits_def)
  have keys': "k \<notin> keys ?t'" using entries_tdelete [OF ok(1), of k] by auto
  let ?ns = "(sm_node st)(?h (L k v) := None)"
  have kept: "holds perm ?ns (subtries t - {L k v})"
    by (rule holds_remove [OF holds_mono [OF ok(4)] assms(4)]) (use leaf in auto)
  have not_leaf: "s \<noteq> L k v" if "s \<in> subtries ?t'" for s
    using subtries_entries [OF that] keys' by force
  have last: "(case ?ns (last (fr_siblings ?fr)) of None \<Rightarrow> Inl (Fail Smt_KeyNotFound)
      | Some node_data \<Rightarrow>
         andThen (if length node_data = 3
                  then andThen (ok_or Smt_KeyNotFound (vec_get node_data 0)) (\<lambda>tag. Inr (tag = 1))
                  else Inr False) (\<lambda>is_leaf.
         if is_leaf then Inr (last (fr_siblings ?fr), butlast (fr_siblings ?fr))
         else if length node_data = 2 then Inr (0, fr_siblings ?fr)
         else Inl (Fail Smt_KeyNotFound))) = Inr (?h x, map ?h U)" if ne: "?F \<noteq> []"
  proof -
    have l: "last ?F \<in> subtries t" "last ?F \<noteq> E" "last ?F \<noteq> L k v"
      using last_sibling(1) [OF ok(1) ne] siblings_subtries [of "last ?F" 0 k t] ne subtries_self [of "last ?F"]
        siblings_keys [OF ok(1), of "last ?F" k] by auto
    then have n: "?ns (?h (last ?F)) = Some (content perm (last ?F))" using kept by (simp add: holds_def)
    have lm: "last (map ?h ?F) = ?h (last ?F)" using ne by (simp add: last_map)
    show ?thesis
    proof (cases "many (last ?F)")
      case True
      then have "U = ?F" "x = E" "length (content perm (last ?F)) = 2"
        using ux by (auto simp: rebuilt_def Let_def elim: many.elims)
      then show ?thesis unfolding fs lm n by simp
    next
      case False
      then have u: "U = butlast ?F" "x = last ?F" using ux ne by (auto simp: rebuilt_def Let_def)
      obtain k' v' where "last ?F = L k' v'" using False l(2) by (cases "last ?F") auto
      then have "length (content perm (last ?F)) = 3" "vec_get (content perm (last ?F)) 0 = Some 1"
        by (simp_all add: vec_get_def)
      then show ?thesis unfolding fs lm n u by (simp add: map_butlast)
    qed
  qed
  obtain nodes' where loop: "delete_loop perm (split_bits k) (map ?h U) [0..<length U] (?h (L k v)) False (?h x) ?ns =
      Inr (?h ?t', nodes')"
    "holds perm nodes' (subtries t \<inter> subtries ?t' \<union> {cplug j k (drop j U) x |j. j \<le> length U \<and> many (cplug j k (drop j U) x)})"
  proof -
    have nc: "no_collision perm (subtries t \<union> subtries (cplug 0 k U x) \<union> subtries (plug 0 k U (L k v)))"
      using assms(4) g R(6) by simp
    have k': "k \<notin> keys (cplug 0 k U x)" using keys' R(6) by simp
    have "subtries t \<inter> subtries (cplug 0 k U x) \<union>
        {cplug j k (drop j U) x |j. length U \<le> j \<and> j \<le> length U \<and> many (cplug j k (drop j U) x)} \<subseteq> subtries t - {L k v}"
      using not_leaf R(3,6) by auto
    then have h: "holds perm ?ns (subtries t \<inter> subtries (cplug 0 k U x) \<union>
        {cplug j k (drop j U) x |j. length U \<le> j \<and> j \<le> length U \<and> many (cplug j k (drop j U) x)})"
      using kept holds_mono by blast
    have "?h x = ?h (cplug (length U) k (drop (length U) U) x)" "?h (L k v) = ?h (plug (length U) k (drop (length U) U) (L k v))"
      "False = many (cplug (length U) k (drop (length U) U) x)" using R(3) by simp_all
    from delete_loop_ok [OF assms(1) R(1) nc R(2,3,4) k' order.refl this h] show ?thesis
      using that R(6) by auto
  qed
  have all: "subtries ?t' \<subseteq> subtries t \<inter> subtries ?t' \<union> {cplug j k (drop j U) x |j. j \<le> length U \<and> many (cplug j k (drop j U) x)}"
  proof
    fix s assume s: "s \<in> subtries ?t'"
    then consider "s \<in> subtries x" | u where "u \<in> set U" "s \<in> subtries u"
      | j where "j < length U" "s = cplug (0 + j) k (drop j U) x" "many s"
      using subtries_cplug [of s 0 k U x] R(6) by auto
    then show "s \<in> subtries t \<inter> subtries ?t' \<union> {cplug j k (drop j U) x |j. j \<le> length U \<and> many (cplug j k (drop j U) x)}"
    proof cases
      case 3
      then have "s = cplug j k (drop j U) x" "j \<le> length U" "many (cplug j k (drop j U) x)" by simp_all
      then show ?thesis by blast
    qed (use s R(2,5) in blast)+
  qed
  let ?st = "st\<lparr>sm_root := Some (?h ?t'), sm_node := nodes'\<rparr>"
  have "smt_ok perm ?t' ?st"
    using trie_wf_tdelete [OF ok(1), of k] ok(2) entries_tdelete [OF ok(1), of k] holds_mono [OF loop(2) all]
    by (auto simp: smt_ok_def fits_def)
  moreover have "delete_leaf perm auth k st = Inr (LeafDeletedEvent k (?h ?t'), ?st)"
  proof (cases "?F = []")
    case True
    then have "U = []" "x = E" using ux by (simp_all add: rebuilt_def)
    then show ?thesis using assms(1,5,6) ok(3) find fl fr loop(1) fs True
      by (simp add: delete_leaf_def hash_leaf_ok Let_def del: fits_simps thash.simps(2))
  next
    case False
    then show ?thesis using assms(1,5,6) ok(3) find fl fr loop(1) last [OF False]
      by (simp add: delete_leaf_def hash_leaf_ok Let_def fs [THEN arg_cong [of _ _ "\<lambda>xs. xs = []"]]
          del: fits_simps thash.simps(2) fun_upd_apply)
  qed
  ultimately show ?thesis by auto
qed

lemma insert_leaf_panic:
  assumes "host_ok perm" "smt_ok perm t st" "no_collision perm (subtries t)" "k \<notin> keys t"
    and "sm_admin st = Some a" "auth a" "\<not> fits (L k v)"
  shows "insert_leaf perm auth k v st = Inl Panic"
proof -
  have ok: "trie_wf 0 t" "fits t" "sm_root st = Some (thash perm t)" using assms(2) by (simp_all add: smt_ok_def)
  have "(hash_leaf perm k v :: (smt_error, u256) outcome) = Inl Panic"
    using assms(7) by (simp add: hash_leaf_def leaf_hash_panic)
  then show ?thesis
    using assms(5,6) ok(3) smt_find [OF assms(2,3), of k] find_spec_absent(1) [OF ok(1) assms(4)]
      insert_prep_ok [OF assms(1) ok(1,2) assms(4)]
    by (simp add: insert_leaf_def Let_def del: thash.simps fits_simps)
qed

lemma delete_leaf_absent:
  assumes "smt_ok perm t st" "no_collision perm (subtries t)" "k \<notin> keys t" "sm_admin st = Some a" "auth a"
  shows "delete_leaf perm auth k st = Inl (Fail Smt_KeyNotFound)"
proof -
  have ok: "trie_wf 0 t" "sm_root st = Some (thash perm t)" using assms(1) by (simp_all add: smt_ok_def)
  have "\<not> fr_found (find_spec perm k 0 t)" using assms(3) keys_end_of [OF ok(1)] by (force simp: find_spec_found)
  then show ?thesis
    using assms(4,5) ok(2) smt_find [OF assms(1,2)] by (simp add: delete_leaf_def Let_def)
qed

end
