(* ===== verification/SmtLedger.thy ===== *)
theory SmtLedger imports AspNonMembership begin

text \<open>
  Histories of the non-membership contract. The abstract state is the map of the keys in the
  tree; the contract of \<^verbatim>\<open>contracts/asp-non-membership/src/lib.rs\<close> keeps the hash of
  the one trie with those entries. The tree hash is a parameter, so every statement names the
  tries on which it must not collide: those the history builds or removes.
\<close>

section \<open>Non-membership proofs\<close>

lemma root_loop_ok:
  assumes "host_ok perm" "length U \<le> 256" "n \<le> length U"
  shows "root_loop perm (split_bits k) (map (thash perm) U) [length U - n..<length U] (thash perm (plug n k (drop n U) x)) =
    Inr (thash perm (plug 0 k U x))"
  using assms(3)
proof (induction n)
  case (Suc n)
  then have n: "n < length U" "n < 256" using assms(2) by simp_all
  have loop: "[length U - Suc n..<length U] = (length U - Suc n) # [length U - n..<length U]"
    by (rule upt_tail [OF n(1)])
  have level: "length U - 1 - (length U - Suc n) = n" using n by simp
  have P: "plug n k (drop n U) x = join (bit k n) (U ! n) (plug (Suc n) k (drop (Suc n) U) x)"
    using n by (simp add: Cons_nth_drop_Suc [symmetric])
  have "(if bit k n then hash_internal perm (thash perm (U ! n)) (thash perm (plug (Suc n) k (drop (Suc n) U) x))
      else hash_internal perm (thash perm (plug (Suc n) k (drop (Suc n) U) x)) (thash perm (U ! n))) =
      Inr (thash perm (plug n k (drop n U) x))"
    unfolding P using assms(1) by (simp add: hash_internal_ok join_def)
  moreover have "vec_get (map (thash perm) U) n = Some (thash perm (U ! n))" using n by (simp add: vec_get_Some)
  ultimately show ?case using n level Suc.IH unfolding loop by (auto simp: Let_def split: if_splits)
qed simp

lemma compare_siblings_ok:
  "n + length xs = length found \<Longrightarrow>
    compare_siblings found (enumerate n xs) = (if xs = drop n found then Inr () else Inl (Fail Smt_InvalidProof))"
proof (induction xs arbitrary: n)
  case (Cons x xs)
  then have n: "n < length found" by simp
  then have "drop n found = found ! n # drop (Suc n) found" "vec_get found n = Some (found ! n)"
    by (simp_all add: Cons_nth_drop_Suc vec_get_Some)
  then show ?case using Cons by auto
qed simp

lemma plug_inj: "plug d k ss x = plug d k ss y \<Longrightarrow> x = y"
  by (induction ss arbitrary: d) (auto simp: join_def split: if_splits)

text \<open>What a proof has to contain to be accepted.\<close>

definition good_proof :: "permutation \<Rightarrow> smt \<Rightarrow> u256 \<Rightarrow> u256 list \<Rightarrow> u256 \<Rightarrow> u256 \<Rightarrow> bool" where
  "good_proof perm t k sibs nk nv \<longleftrightarrow> sibs = map (thash perm) (siblings 0 k t) \<and>
     (case end_of 0 k t of L k' v' \<Rightarrow> nk = k' \<and> nv = v' \<and> v' \<noteq> 0 | _ \<Rightarrow> nk = k \<and> nv = 0)"

lemma verify_non_membership_ok:
  assumes "host_ok perm" "smt_ok perm t st"
    and "no_collision perm (subtries t \<union> subtries (plug 0 k (siblings 0 k t) E))"
  shows "verify_non_membership perm k sibs nk nv st =
    (if k \<in> keys t then Inr False else if good_proof perm t k sibs nk nv then Inr True else Inl (Fail Smt_InvalidProof))"
proof -
  let ?h = "thash perm" and ?F = "siblings 0 k t" and ?fr = "find_spec perm k 0 t"
  have ok: "trie_wf 0 t" "fits t" "sm_root st = Some (?h t)" using assms(2) by (simp_all add: smt_ok_def)
  have find: "find_key_internal (sm_node st) k (split_bits k) (?h t) 0 = Inr ?fr"
    by (rule smt_find [OF assms(2,3)]) simp
  have fs: "fr_siblings ?fr = map ?h ?F" using end_of_cases [of 0 k t] by (auto simp: find_spec_def Let_def)
  have len: "length ?F \<le> 256" using length_siblings [OF ok(1), of k] by simp
  show ?thesis
  proof (cases "k \<in> keys t")
    case True
    then have "fr_found ?fr" using keys_end_of [OF ok(1)] by (auto simp: find_spec_found)
    then show ?thesis using True ok(3) find by (simp add: verify_non_membership_def)
  next
    case False
    then have nf: "\<not> fr_found ?fr" using keys_end_of [OF ok(1), of k] by (force simp: find_spec_found)
    show ?thesis
    proof (cases "sibs = map ?h ?F \<and> fr_not_found_key ?fr = nk \<and> fr_not_found_value ?fr = nv")
      case sibs: False
      then have "\<not> good_proof perm t k sibs nk nv"
        using end_of_cases [of 0 k t] nf by (auto simp: good_proof_def find_spec_def Let_def split: if_splits)
      then show ?thesis
        using sibs False ok(3) find nf fs compare_siblings_ok [of 0 sibs "map ?h ?F"]
        by (auto simp: verify_non_membership_def Let_def)
    next
      case sibs: True
      have loop: "root_loop perm (split_bits k) (map ?h ?F) [0..<length ?F] (?h x) = Inr (?h (plug 0 k ?F x))" for x
        using root_loop_ok [OF assms(1) len order.refl, of k x] by simp
      have end_t: "plug 0 k ?F (end_of 0 k t) = t" by (rule plug_siblings)
      consider (E) "end_of 0 k t = E" | (L) k' v' where "end_of 0 k t = L k' v'" "k' \<noteq> k"
        using end_of_cases [of 0 k t] nf by (auto simp: find_spec_found)
      then show ?thesis
      proof cases
        case E
        then have "nk = k" "nv = 0" "good_proof perm t k sibs nk nv" using sibs by (auto simp: good_proof_def find_spec_def)
        then show ?thesis
          using sibs False ok(3) find nf fs compare_siblings_ok [of 0 sibs "map ?h ?F"] loop [of E] end_t E
          by (simp add: verify_non_membership_def Let_def)
      next
        case (L k' v')
        then have n: "nk = k'" "nv = v'" using sibs by (auto simp: find_spec_def)
        have g: "good_proof perm t k sibs nk nv \<longleftrightarrow> v' \<noteq> 0" using L sibs n by (simp add: good_proof_def)
        have "(k', v') \<in> entries t"
          using L end_of_subtries [of 0 k t] subtries_entries [of "L k' v'" t] by auto
        then have "hash_leaf perm k' v' = Inr (?h (L k' v'))"
          using assms(1) ok(2) by (intro hash_leaf_ok) (auto simp: fits_def)
        moreover have "?h (plug 0 k ?F E) \<noteq> ?h t"
        proof
          assume "?h (plug 0 k ?F E) = ?h t"
          then have "plug 0 k ?F E = plug 0 k ?F (end_of 0 k t)"
            using thash_inj [of perm "plug 0 k ?F E" t] assms(3) end_t by (simp add: Un_commute)
          then show False using plug_inj L by force
        qed
        ultimately show ?thesis
          using sibs False ok(3) find nf fs compare_siblings_ok [of 0 sibs "map ?h ?F"] loop [of E] loop [of "L k' v'"]
            end_t L n g
          by (simp add: verify_non_membership_def Let_def del: thash.simps(2))
      qed
    qed
  qed
qed

section \<open>Histories\<close>

datatype smt_call = SmtInsert u256 u256 | SmtDelete u256 | SmtUpdateAdmin address

fun smt_step :: "permutation \<Rightarrow> auths \<Rightarrow> smt_call \<Rightarrow> smt_store \<Rightarrow> (smt_error, smt_store) outcome" where
  "smt_step perm auth (SmtInsert k v) st = andThen (insert_leaf perm auth k v st) (\<lambda>(_, st). Inr st)"
| "smt_step perm auth (SmtDelete k) st = andThen (delete_leaf perm auth k st) (\<lambda>(_, st). Inr st)"
| "smt_step perm auth (SmtUpdateAdmin a) st = smt_update_admin auth a st"

inductive smt_reach :: "permutation \<Rightarrow> smt_call list \<Rightarrow> smt_store \<Rightarrow> bool" for perm :: permutation where
  created: "smt_constructor admin smt_empty = Inr st \<Longrightarrow> smt_reach perm [] st"
| called: "smt_reach perm h st \<Longrightarrow> smt_step perm auth c st = Inr st' \<Longrightarrow> smt_reach perm (h @ [c]) st'"

text \<open>The map a history leaves, the trie it leaves, and all the tries whose hashes it handles.\<close>

fun map_step :: "smt_call \<Rightarrow> (u256 \<rightharpoonup> u256) \<Rightarrow> (u256 \<rightharpoonup> u256)" where
  "map_step (SmtInsert k v) m = m(k \<mapsto> v)"
| "map_step (SmtDelete k) m = m(k := None)"
| "map_step (SmtUpdateAdmin a) m = m"

definition listed :: "smt_call list \<Rightarrow> (u256 \<rightharpoonup> u256)" where
  "listed h = fold map_step h Map.empty"

fun trie_step :: "smt_call \<Rightarrow> smt \<Rightarrow> smt" where
  "trie_step (SmtInsert k v) t = tinsert 0 k v t"
| "trie_step (SmtDelete k) t = tdelete 0 k t"
| "trie_step (SmtUpdateAdmin a) t = t"

definition trie_of :: "smt_call list \<Rightarrow> smt" where
  "trie_of h = fold trie_step h E"

lemma snoc [simp]: "trie_of (h @ [c]) = trie_step c (trie_of h)" "listed (h @ [c]) = map_step c (listed h)"
  by (simp_all add: trie_of_def listed_def)

fun removed :: "smt_call \<Rightarrow> smt \<Rightarrow> smt set" where
  "removed (SmtDelete k) t = (case tfind 0 k t of Some v \<Rightarrow> subtries (removed_path k v t) | None \<Rightarrow> {})"
| "removed c t = {}"

fun touched :: "smt \<Rightarrow> smt_call list \<Rightarrow> smt set" where
  "touched t [] = subtries t"
| "touched t (c # cs) = subtries t \<union> removed c t \<union> touched (trie_step c t) cs"

lemma touched_start: "subtries t \<subseteq> touched t cs"
  by (cases cs) auto

lemma touched_append:
  "touched t (h @ [c]) = touched t h \<union> removed c (fold trie_step h t) \<union> subtries (trie_step c (fold trie_step h t))"
  by (induction h arbitrary: t) auto

lemma touched_end: "subtries (fold trie_step h t) \<subseteq> touched t h"
  by (induction h arbitrary: t) auto

lemma insert_leaf_fits: "insert_leaf perm auth k v st = Inr x \<Longrightarrow> fits (L k v)"
proof -
  assume "insert_leaf perm auth k v st = Inr x"
  then obtain rt where "hash_leaf perm k v = Inr rt"
    by (auto simp: insert_leaf_def Let_def andThen_Inr split: if_splits)
  then show "fits (L k v)" by (rule_tac ccontr) (simp add: hash_leaf_def leaf_hash_panic)
qed

lemma smt_step_admin: "smt_step perm auth c st = Inr st' \<Longrightarrow> \<exists>a. sm_admin st = Some a \<and> auth a"
  by (cases c) (auto simp: insert_leaf_def delete_leaf_def smt_update_admin_def andThen_Inr ok_or_Inr require_auth_Inr
      update_admin_Inr)

interpretation smt_gate: admin_gate sm_admin "smt_step perm" for perm
  by unfold_locales (rule smt_step_admin)

text \<open>What the storage represents after a history.\<close>

definition smt_inv :: "permutation \<Rightarrow> smt_call list \<Rightarrow> smt_store \<Rightarrow> bool" where
  "smt_inv perm h st \<longleftrightarrow> smt_ok perm (trie_of h) st \<and> entries (trie_of h) = {(k, v). listed h k = Some v} \<and>
     sm_admin st \<noteq> None"

lemma smt_inv_keys: "smt_inv perm h st \<Longrightarrow> k \<in> keys (trie_of h) \<longleftrightarrow> listed h k \<noteq> None"
  by (force simp: smt_inv_def)

text \<open>One call after a history.\<close>

lemma smt_step_ok:
  assumes "host_ok perm" "smt_inv perm h st" "no_collision perm (touched E (h @ [c]))"
    and "smt_step perm auth c st = Inr st'"
  shows "smt_inv perm (h @ [c]) st'"
proof -
  let ?t = "trie_of h"
  have ok: "smt_ok perm ?t st" "trie_wf 0 ?t" and ent: "entries ?t = {(k, v). listed h k = Some v}"
    using assms(2) by (auto simp: smt_inv_def smt_ok_def)
  obtain a where a: "sm_admin st = Some a" "auth a" using smt_step_admin [OF assms(4)] by blast
  have sub: "subtries ?t \<union> subtries (trie_step c ?t) \<union> removed c ?t \<subseteq> touched E (h @ [c])"
    using touched_end [of h E] by (auto simp: touched_append trie_of_def)
  then have nc: "no_collision perm (subtries ?t \<union> subtries (trie_step c ?t))" "no_collision perm (subtries ?t)"
    using no_collision_mono [OF assms(3)] by auto
  show ?thesis
  proof (cases c)
    case (SmtInsert k v)
    then obtain e where acc: "insert_leaf perm auth k v st = Inr (e, st')" using assms(4) by (auto simp: andThen_Inr)
    have new: "smt_ok perm (tinsert 0 k v ?t) st'" "k \<notin> keys ?t" "sm_admin st' = sm_admin st"
      using insert_leaf_ok [of perm ?t st k v a auth] assms(1) ok(1) a insert_leaf_fits [OF acc] nc(1) acc SmtInsert
      by (auto split: if_splits)
    have "listed h k = None" using new(2) smt_inv_keys [OF assms(2), of k] by simp
    then show ?thesis
      using new a entries_tinsert [OF ok(2) _ new(2), of v] ent SmtInsert by (auto simp: smt_inv_def split: if_splits)
  next
    case (SmtDelete k)
    then obtain e where acc: "delete_leaf perm auth k st = Inr (e, st')" using assms(4) by (auto simp: andThen_Inr)
    then have "k \<in> keys ?t" using delete_leaf_absent [of perm ?t st k a auth] ok(1) nc(2) a by fastforce
    then obtain v where v: "(k, v) \<in> entries ?t" by auto
    then have "tfind 0 k ?t = Some v" using tfind_entries [OF ok(2)] by simp
    then have "no_collision perm (subtries ?t \<union> subtries (tdelete 0 k ?t) \<union> subtries (removed_path k v ?t))"
      using no_collision_mono [OF assms(3) sub] SmtDelete by (simp add: Un_assoc)
    from delete_leaf_ok [where a = a and auth = auth, OF assms(1) ok(1) v this a] acc have "smt_ok perm (tdelete 0 k ?t) st'" "sm_admin st' = sm_admin st"
      by auto
    then show ?thesis
      using a entries_tdelete [OF ok(2), of k] ent SmtDelete by (auto simp: smt_inv_def split: if_splits)
  next
    case (SmtUpdateAdmin b)
    then show ?thesis using assms(2,4)
      by (auto simp: smt_inv_def smt_update_admin_def andThen_Inr update_admin_Inr smt_ok_def)
  qed
qed

lemma smt_created: "smt_constructor admin smt_empty = Inr st \<Longrightarrow> smt_inv perm [] st"
  by (auto simp: smt_constructor_def smt_inv_def smt_ok_def trie_of_def listed_def holds_def)

lemma smt_reach_ok:
  assumes "smt_reach perm h st" "host_ok perm" "no_collision perm (touched E h)"
  shows "smt_inv perm h st"
  using assms
proof (induction rule: smt_reach.induct)
  case (called h st auth c st')
  have "no_collision perm (touched E h)"
    by (rule no_collision_mono [OF called.prems(2)]) (auto simp: touched_append)
  then show ?case using smt_step_ok called by blast
qed (rule smt_created)

lemma smt_insert_ok:
  assumes "host_ok perm" "smt_reach perm h st" "no_collision perm (touched E (h @ [SmtInsert k v]))"
    and "sm_admin st = Some a" "auth a"
  shows "if listed h k \<noteq> None then insert_leaf perm auth k v st = Inl (Fail Smt_KeyAlreadyExists)
    else if k < bn256_modulus \<and> v < bn256_modulus
    then \<exists>st'. insert_leaf perm auth k v st = Inr (LeafInsertedEvent k v (thash perm (trie_of (h @ [SmtInsert k v]))), st') \<and>
      smt_get_root st' = Inr (thash perm (trie_of (h @ [SmtInsert k v]))) \<and> smt_reach perm (h @ [SmtInsert k v]) st'
    else insert_leaf perm auth k v st = Inl Panic"
proof -
  have sub: "touched E h \<union> subtries (tinsert 0 k v (trie_of h)) \<subseteq> touched E (h @ [SmtInsert k v])"
    by (auto simp: touched_append trie_of_def)
  have nc: "no_collision perm (subtries (trie_of h) \<union> subtries (tinsert 0 k v (trie_of h)))"
    using no_collision_mono [OF assms(3)] sub touched_end [of h E] by (simp add: trie_of_def subset_iff)
  have inv: "smt_inv perm h st"
    using smt_reach_ok [OF assms(2,1)] no_collision_mono [OF assms(3)] sub by auto
  then have ok: "smt_ok perm (trie_of h) st" by (simp add: smt_inv_def)
  have key: "k \<in> keys (trie_of h) \<longleftrightarrow> listed h k \<noteq> None" by (rule smt_inv_keys [OF inv])
  show ?thesis
  proof (cases "listed h k \<noteq> None \<or> \<not> fits (L k v)")
    case True
    then consider "k \<in> keys (trie_of h)" | "k \<notin> keys (trie_of h)" "\<not> fits (L k v)" using key by blast
    then show ?thesis
    proof cases
      case 1
      then have "insert_leaf perm auth k v st = Inl (Fail Smt_KeyAlreadyExists)"
        using smt_find [OF ok nc, of k] assms(4,5) ok keys_end_of [of "trie_of h" k]
        by (auto simp: insert_leaf_def Let_def smt_ok_def find_spec_found)
      then show ?thesis using 1 key by simp
    next
      case 2
      then show ?thesis
        using insert_leaf_panic [of perm "trie_of h" st k a auth v] assms(1,4,5) ok key no_collision_mono [OF nc] by auto
    qed
  next
    case False
    then obtain st' where st': "insert_leaf perm auth k v st =
        Inr (LeafInsertedEvent k v (thash perm (tinsert 0 k v (trie_of h))), st')" "smt_ok perm (tinsert 0 k v (trie_of h)) st'"
      using insert_leaf_ok [of perm "trie_of h" st k v a auth] assms(1,4,5) ok nc key by auto
    then have "smt_reach perm (h @ [SmtInsert k v]) st'" by (intro smt_reach.called [OF assms(2), of auth]) simp
    then show ?thesis using st' False by (auto simp: smt_get_root_def smt_ok_def)
  qed
qed

lemma smt_delete_ok:
  assumes "host_ok perm" "smt_reach perm h st" "no_collision perm (touched E (h @ [SmtDelete k]))"
    and "sm_admin st = Some a" "auth a"
  shows "if listed h k = None then delete_leaf perm auth k st = Inl (Fail Smt_KeyNotFound)
    else \<exists>st'. delete_leaf perm auth k st = Inr (LeafDeletedEvent k (thash perm (trie_of (h @ [SmtDelete k]))), st') \<and>
      smt_get_root st' = Inr (thash perm (trie_of (h @ [SmtDelete k]))) \<and> smt_reach perm (h @ [SmtDelete k]) st'"
proof -
  have sub: "touched E h \<union> (subtries (tdelete 0 k (trie_of h)) \<union> removed (SmtDelete k) (trie_of h)) \<subseteq> touched E (h @ [SmtDelete k])"
    by (auto simp: touched_append trie_of_def)
  have t: "subtries (trie_of h) \<subseteq> touched E h" using touched_end [of h E] by (simp add: trie_of_def)
  have nc: "no_collision perm (touched E h)" using no_collision_mono [OF assms(3)] sub by blast
  have inv: "smt_inv perm h st" by (rule smt_reach_ok [OF assms(2,1) nc])
  then have ok: "smt_ok perm (trie_of h) st" "trie_wf 0 (trie_of h)"
    and ent: "entries (trie_of h) = {(k, v). listed h k = Some v}"
    by (auto simp: smt_inv_def smt_ok_def)
  show ?thesis
  proof (cases "listed h k")
    case None
    then have "k \<notin> keys (trie_of h)" using smt_inv_keys [OF inv] by simp
    then show ?thesis
      using None delete_leaf_absent [of perm "trie_of h" st k a auth] ok(1) assms(4,5) no_collision_mono [OF nc t] by auto
  next
    case (Some v)
    then have v: "(k, v) \<in> entries (trie_of h)" using ent by simp
    then have "removed (SmtDelete k) (trie_of h) = subtries (removed_path k v (trie_of h))"
      using tfind_entries [OF ok(2), of k v] v by simp
    then have "no_collision perm (subtries (trie_of h) \<union> subtries (tdelete 0 k (trie_of h)) \<union> subtries (removed_path k v (trie_of h)))"
      by (intro no_collision_mono [OF assms(3)]) (use sub t in auto)
    from delete_leaf_ok [where a = a and auth = auth, OF assms(1) ok(1) v this assms(4,5)] obtain st' where
      st': "delete_leaf perm auth k st = Inr (LeafDeletedEvent k (thash perm (tdelete 0 k (trie_of h))), st')"
        "smt_ok perm (tdelete 0 k (trie_of h)) st'" by blast
    then have "smt_reach perm (h @ [SmtDelete k]) st'" by (intro smt_reach.called [OF assms(2), of auth]) simp
    then show ?thesis using st' Some by (auto simp: smt_get_root_def smt_ok_def)
  qed
qed

text \<open>A deletion that promotes the only sibling.\<close>

lemma smt_parent_stays:
  assumes "host_ok perm" "smt_reach perm h st" "no_collision perm (touched E (h @ [SmtDelete k]))"
    and "sm_admin st = Some a" "auth a" "trie_of h = N (L k' v') (L k v) \<or> trie_of h = N (L k v) (L k' v')"
  shows "\<exists>st'. delete_leaf perm auth k st = Inr (LeafDeletedEvent k (leaf_hash perm k' v'), st') \<and>
    sm_node st' (thash perm (trie_of h)) = Some (content perm (trie_of h))"
proof -
  let ?t = "trie_of h"
  have t: "subtries ?t \<subseteq> touched E h" using touched_end [of h E] by (simp add: trie_of_def)
  have nc: "no_collision perm (touched E h)"
    by (rule no_collision_mono [OF assms(3)]) (auto simp: touched_append)
  have inv: "smt_inv perm h st" by (rule smt_reach_ok [OF assms(2,1) nc])
  then have ok: "smt_ok perm ?t st" "trie_wf 0 ?t" "fits ?t" "sm_root st = Some (thash perm ?t)"
    "holds perm (sm_node st) (subtries ?t)" by (auto simp: smt_inv_def smt_ok_def)
  have nct: "no_collision perm (subtries ?t)" by (rule no_collision_mono [OF nc t])
  have hs: "thash perm ?t \<noteq> leaf_hash perm k v" "leaf_hash perm k' v' \<noteq> leaf_hash perm k v"
    using nct assms(6) ok(2) by (auto simp: no_collision_def)
  have path: "siblings 0 k ?t = [L k' v']" "end_of 0 k ?t = L k v"
    using assms(6) ok(2) by auto
  have hl: "hash_leaf perm k v = Inr (leaf_hash perm k v)"
    using hash_leaf_ok [OF assms(1), of k v] ok(3) assms(6) by auto
  have nodes: "sm_node st (leaf_hash perm k' v') = Some [1, k', v']" "sm_node st (thash perm ?t) = Some (content perm ?t)"
    using ok(5) assms(6) by (auto simp: holds_def)
  have "delete_leaf perm auth k st = Inr (LeafDeletedEvent k (leaf_hash perm k' v'),
      st\<lparr>sm_root := Some (leaf_hash perm k' v'), sm_node := (sm_node st)(leaf_hash perm k v := None)\<rparr>)"
    using assms(4,5) ok(4) smt_find [OF ok(1) nct order.refl, of k] path hl hs(2) nodes(1)
    by (simp add: delete_leaf_def find_spec_def Let_def vec_get_def)
  then show ?thesis using hs(1) nodes(2) by simp
qed

section \<open>Properties\<close>

text \<open>
  Property C27: after any sequence of successful calls the stored root is the hash of a
  well-formed trie whose entries are exactly the keys inserted and not deleted since, and a
  search finds exactly these with the value of the insertion.
\<close>

theorem smt_root_correct:
  assumes "host_ok perm" "smt_reach perm h st" "no_collision perm (touched E h)"
  shows "smt_get_root st = Inr (thash perm (trie_of h)) \<and> trie_wf 0 (trie_of h) \<and>
    entries (trie_of h) = {(k, v). listed h k = Some v} \<and>
    (\<exists>fr. find_key k st = Inr fr \<and> fr_siblings fr = map (thash perm) (siblings 0 k (trie_of h)) \<and>
      (if fr_found fr then Some (fr_found_value fr) else None) = listed h k)"
proof -
  have inv: "smt_inv perm h st" by (rule smt_reach_ok [OF assms(2,1,3)])
  then have ok: "smt_ok perm (trie_of h) st" "trie_wf 0 (trie_of h)" "sm_root st = Some (thash perm (trie_of h))"
    and ent: "entries (trie_of h) = {(k, v). listed h k = Some v}"
    by (auto simp: smt_inv_def smt_ok_def)
  have "find_key_internal (sm_node st) k (split_bits k) (thash perm (trie_of h)) 0 = Inr (find_spec perm k 0 (trie_of h))"
    by (rule smt_find [OF ok(1) assms(3)]) (use touched_end [of h E] in \<open>simp add: trie_of_def\<close>)
  moreover have "(if fr_found (find_spec perm k 0 (trie_of h)) then Some (fr_found_value (find_spec perm k 0 (trie_of h))) else None) = listed h k"
  proof -
    have l: "listed h k = Some v \<longleftrightarrow> end_of 0 k (trie_of h) = L k v" for v
      using keys_end_of [OF ok(2), of k v] ent by simp
    show ?thesis
    proof (cases "listed h k")
      case None
      then have "\<not> fr_found (find_spec perm k 0 (trie_of h))" using l by (simp add: find_spec_found)
      then show ?thesis using None by simp
    next
      case (Some v)
      then show ?thesis using l [of v] by (simp add: find_spec_def)
    qed
  qed
  moreover have "fr_siblings (find_spec perm k 0 (trie_of h)) = map (thash perm) (siblings 0 k (trie_of h))"
    by (auto simp: find_spec_def Let_def split: smt.split)
  ultimately show ?thesis using ok ent by (auto simp: smt_get_root_def find_key_def Let_def)
qed

text \<open>
  An authorized insertion fails on a key that is in the tree, traps on a key or value
  outside the field, and otherwise publishes the key, the value and the root of the new tree.
\<close>

theorem smt_insert_outcome:
  assumes "host_ok perm" "smt_reach perm h st" "no_collision perm (touched E (h @ [SmtInsert k v]))"
    and "sm_admin st = Some a" "auth a"
  shows "if listed h k \<noteq> None then insert_leaf perm auth k v st = Inl (Fail Smt_KeyAlreadyExists)
    else if k < bn256_modulus \<and> v < bn256_modulus
    then \<exists>st'. insert_leaf perm auth k v st = Inr (LeafInsertedEvent k v (thash perm (trie_of (h @ [SmtInsert k v]))), st') \<and>
      smt_get_root st' = Inr (thash perm (trie_of (h @ [SmtInsert k v]))) \<and> smt_reach perm (h @ [SmtInsert k v]) st'
    else insert_leaf perm auth k v st = Inl Panic"
  by (rule smt_insert_ok [where auth = auth, OF assms])

text \<open>
  An authorized deletion fails with \<open>KeyNotFound\<close> exactly on a key that is not in the
  tree, and otherwise publishes the key and the root of the tree without it.
\<close>

theorem smt_delete_outcome:
  assumes "host_ok perm" "smt_reach perm h st" "no_collision perm (touched E (h @ [SmtDelete k]))"
    and "sm_admin st = Some a" "auth a"
  shows "if listed h k = None then delete_leaf perm auth k st = Inl (Fail Smt_KeyNotFound)
    else \<exists>st'. delete_leaf perm auth k st = Inr (LeafDeletedEvent k (thash perm (trie_of (h @ [SmtDelete k]))), st') \<and>
      smt_get_root st' = Inr (thash perm (trie_of (h @ [SmtDelete k]))) \<and> smt_reach perm (h @ [SmtDelete k]) st'"
  by (rule smt_delete_ok [where auth = auth, OF assms])

text \<open>
  Property C29: the root depends on the listed keys and values only, not on the order of the calls or
  on keys deleted again; two histories that list something different have different roots.
\<close>

theorem smt_root_canonical:
  assumes "host_ok perm" "smt_reach perm h st" "smt_reach perm h' st'" "no_collision perm (touched E h \<union> touched E h')"
  shows "smt_get_root st = smt_get_root st' \<longleftrightarrow> listed h = listed h'"
proof -
  have inv: "smt_inv perm h st" "smt_inv perm h' st'"
    using smt_reach_ok [OF assms(2,1)] smt_reach_ok [OF assms(3,1)] no_collision_mono [OF assms(4)] by auto
  then have root: "smt_get_root st = Inr (thash perm (trie_of h))" "smt_get_root st' = Inr (thash perm (trie_of h'))"
    and wf: "trie_wf 0 (trie_of h)" "trie_wf 0 (trie_of h')"
    and ent: "entries (trie_of h) = {(k, v). listed h k = Some v}" "entries (trie_of h') = {(k, v). listed h' k = Some v}"
    by (simp_all add: smt_inv_def smt_ok_def smt_get_root_def)
  have "subtries (trie_of h) \<union> subtries (trie_of h') \<subseteq> touched E h \<union> touched E h'"
    using touched_end [of h E] touched_end [of h' E] by (auto simp: trie_of_def)
  then have "thash perm (trie_of h) = thash perm (trie_of h') \<longleftrightarrow> trie_of h = trie_of h'"
    using thash_inj no_collision_mono [OF assms(4)] by metis
  also have "\<dots> \<longleftrightarrow> entries (trie_of h) = entries (trie_of h')" using trie_unique [OF wf] by auto
  also have "\<dots> \<longleftrightarrow> (\<forall>k v. listed h k = Some v \<longleftrightarrow> listed h' k = Some v)" unfolding ent by auto
  also have "\<dots> \<longleftrightarrow> listed h = listed h'" by (metis ext option.exhaust)
  finally show ?thesis by (simp add: root)
qed

text \<open>
  Property C28: a proof of non-membership answers false for a listed key; for any other it is accepted
  exactly when it names the siblings on the path of the key and the leaf found at its end, and then
  only if that leaf does not have the value zero.
\<close>

theorem smt_non_membership:
  assumes "host_ok perm" "smt_reach perm h st"
    and "no_collision perm (touched E h \<union> subtries (plug 0 k (siblings 0 k (trie_of h)) E))"
  shows "verify_non_membership perm k sibs nk nv st =
    (if listed h k \<noteq> None then Inr False
     else if sibs = map (thash perm) (siblings 0 k (trie_of h)) \<and>
       (case end_of 0 k (trie_of h) of L k' v' \<Rightarrow> nk = k' \<and> nv = v' \<and> v' \<noteq> 0 | _ \<Rightarrow> nk = k \<and> nv = 0)
     then Inr True else Inl (Fail Smt_InvalidProof))"
proof -
  have inv: "smt_inv perm h st"
    using smt_reach_ok [OF assms(2,1)] no_collision_mono [OF assms(3)] by auto
  then have ok: "smt_ok perm (trie_of h) st" by (simp add: smt_inv_def)
  have "no_collision perm (subtries (trie_of h) \<union> subtries (plug 0 k (siblings 0 k (trie_of h)) E))"
    by (rule no_collision_mono [OF assms(3)]) (use touched_end [of h E] in \<open>auto simp: trie_of_def\<close>)
  from verify_non_membership_ok [OF assms(1) ok this] show ?thesis
    using smt_inv_keys [OF inv, of k] by (simp add: good_proof_def)
qed

text \<open>
  Without the authorization of the stored administrator every call that changes the tree
  or the administrator fails, and a sequence of them leaves the contract as it was.
\<close>

theorem smt_admin_only:
  assumes "sm_admin st = Some a" "\<forall>(auth, c) \<in> set cs. \<not> auth a"
  shows "attempts (smt_step perm) cs st = st \<and> (\<forall>(auth, c) \<in> set cs. \<exists>e. smt_step perm auth c st = Inl e)"
  using smt_gate.attempts_refused [OF assms] smt_gate.refused [OF assms(1)] assms(2) by fastforce

text \<open>
  A deletion next to a leaf promotes that leaf and removes the deleted leaf only: the node
  of the old parent stays in the storage although no trie of the history has it any more.
\<close>

theorem smt_delete_leaves_parent:
  assumes "host_ok perm" "smt_reach perm h st" "no_collision perm (touched E (h @ [SmtDelete k]))"
    and "sm_admin st = Some a" "auth a" "trie_of h = N (L k' v') (L k v) \<or> trie_of h = N (L k v) (L k' v')"
  shows "\<exists>st'. delete_leaf perm auth k st = Inr (LeafDeletedEvent k (leaf_hash perm k' v'), st') \<and>
    sm_node st' (thash perm (trie_of h)) = Some (content perm (trie_of h))"
  by (rule smt_parent_stays [where auth = auth, OF assms])

section \<open>A run\<close>

definition run_calls :: "smt_call list" where
  "run_calls = [SmtInsert 1 5, SmtInsert 2 7]"

lemma run_leaf: "leaf_hash run_perm k v = word_of_nat ((unat k + 5 * unat v + 24) mod bn_p)"
  by (simp add: leaf_hash_def run_perm_def add.commute)

lemma run_hashes [simp]:
  "leaf_hash run_perm 1 5 = 50" "leaf_hash run_perm 2 7 = 61" "leaf_hash run_perm 1 0 = 25" "hash_of run_perm 61 50 = 218"
  by (simp_all add: run_leaf hash_of_def run_perm_def split: option.split)

lemma run_split: "split 0 2 7 1 5 = N (L 2 7) (L 1 5)"
  by (subst split.simps) simp

lemma run_touched:
  "touched E (run_calls @ [SmtDelete 1]) = {L 1 5, L 2 7, N (L 2 7) (L 1 5)}"
  by (auto simp: run_calls_def run_split removed_path_def rebuilt_def)

lemma run_safe:
  "no_collision run_perm {L 1 5, L 2 7, N (L 2 7) (L 1 5)}" "no_collision run_perm {L 1 0}" "no_collision run_perm {}"
  by (simp_all add: no_collision_def)

lemma run_small: "(1 :: u256) < bn256_modulus" "(2 :: u256) < bn256_modulus" "(5 :: u256) < bn256_modulus"
  "(7 :: u256) < bn256_modulus" "(0 :: u256) < bn256_modulus"
  by (simp_all add: below_modulus)

lemma run_created: "\<exists>st. smt_reach run_perm [] st \<and> sm_admin st = Some (Address 1)"
  by (rule exI [of _ "smt_empty\<lparr>sm_admin := Some (Address 1), sm_root := Some 0\<rparr>"])
    (auto intro!: smt_reach.created [of "Address 1"] simp: smt_constructor_def)

text \<open>Insertions by the administrator, one after the other.\<close>

lemma smt_run_insert:
  assumes "smt_reach run_perm h st" "sm_admin st = Some (Address 1)" "no_collision run_perm (touched E (h @ [SmtInsert k v]))"
    and "listed h k = None" "k < bn256_modulus" "v < bn256_modulus"
  shows "\<exists>st'. smt_reach run_perm (h @ [SmtInsert k v]) st' \<and> sm_admin st' = Some (Address 1)"
proof -
  obtain e st' where st': "insert_leaf run_perm (\<lambda>a. a = Address 1) k v st = Inr (e, st')"
    "smt_reach run_perm (h @ [SmtInsert k v]) st'"
    using smt_insert_ok [of run_perm h st k v "Address 1" "\<lambda>a. a = Address 1"] assms run_perm_ok by auto
  then have "sm_admin st' = sm_admin st"
    by (auto simp: insert_leaf_def Let_def andThen_Inr split: if_splits)
  then show ?thesis using st' assms(2) by auto
qed

lemma run_one: "\<exists>st. smt_reach run_perm [SmtInsert 1 5] st \<and> sm_admin st = Some (Address 1)"
  using run_created smt_run_insert [of "[]" _ 1 5] no_collision_mono [OF run_safe(1)] run_small by (force simp: listed_def)

lemma run_two: "\<exists>st. smt_reach run_perm run_calls st \<and> sm_admin st = Some (Address 1)"
  using run_one smt_run_insert [of "[SmtInsert 1 5]" _ 2 7] no_collision_mono [OF run_safe(1)] run_small
  by (force simp: listed_def run_calls_def run_split)

lemma run_trie: "trie_of run_calls = N (L 2 7) (L 1 5)" "listed run_calls = [1 \<mapsto> 5, 2 \<mapsto> 7]"
  by (simp_all add: run_calls_def trie_of_def listed_def run_split)

lemma run_calls_safe:
  "no_collision run_perm (touched E run_calls)" "no_collision run_perm (touched E (run_calls @ [SmtDelete 1]))"
proof -
  show safe: "no_collision run_perm (touched E (run_calls @ [SmtDelete 1]))" unfolding run_touched by (rule run_safe)
  then show "no_collision run_perm (touched E run_calls)" by (rule no_collision_mono) (auto simp: touched_append)
qed

theorem smt_root_correct_witness:
  "\<exists>st fr. smt_reach run_perm run_calls st \<and> smt_get_root st = Inr 218 \<and> find_key 1 st = Inr fr \<and> fr_found fr \<and>
    fr_found_value fr = 5 \<and> fr_siblings fr = [61]"
proof -
  obtain st where st: "smt_reach run_perm run_calls st" using run_two by blast
  from smt_root_correct [OF run_perm_ok st run_calls_safe(1), of 1] show ?thesis
    using st by (auto simp: run_trie split: if_splits)
qed

theorem smt_insert_outcome_witness:
  "\<exists>st st'. smt_reach run_perm [SmtInsert 1 5] st \<and>
    insert_leaf run_perm (\<lambda>a. a = Address 1) 2 7 st = Inr (LeafInsertedEvent 2 7 218, st') \<and> smt_get_root st' = Inr 218"
proof -
  obtain st where st: "smt_reach run_perm [SmtInsert 1 5] st" "sm_admin st = Some (Address 1)" using run_one by blast
  have "[SmtInsert 1 5] @ [SmtInsert 2 7] = run_calls" by (simp add: run_calls_def)
  then show ?thesis
    using smt_insert_outcome [OF run_perm_ok st(1) _ st(2), of 2 7 "\<lambda>a. a = Address 1"] st(1) run_calls_safe(1) run_small
    by (auto simp: listed_def run_trie simp del: snoc)
qed

theorem smt_delete_outcome_witness:
  "\<exists>st st'. smt_reach run_perm run_calls st \<and>
    delete_leaf run_perm (\<lambda>a. a = Address 1) 1 st = Inr (LeafDeletedEvent 1 61, st') \<and> smt_get_root st' = Inr 61"
proof -
  obtain st where st: "smt_reach run_perm run_calls st" "sm_admin st = Some (Address 1)" using run_two by blast
  from smt_delete_outcome [OF run_perm_ok st(1) run_calls_safe(2) st(2), of "\<lambda>a. a = Address 1"] show ?thesis
    using st(1) by (auto simp: run_trie)
qed

theorem smt_root_canonical_witness:
  "\<exists>st st'. smt_reach run_perm [SmtInsert 1 5] st \<and> smt_reach run_perm run_calls st' \<and> smt_get_root st \<noteq> smt_get_root st'"
proof -
  obtain st st' where st: "smt_reach run_perm [SmtInsert 1 5] st" "smt_reach run_perm run_calls st'"
    using run_one run_two by blast
  have "no_collision run_perm (touched E [SmtInsert 1 5] \<union> touched E run_calls)"
    by (rule no_collision_mono [OF run_safe(1)]) (simp add: run_calls_def run_split)
  from smt_root_canonical [OF run_perm_ok st this] show ?thesis
    using st by (auto simp: run_trie) (auto simp: listed_def fun_eq_iff split: if_splits)
qed

text \<open>A leaf with value zero: a proof that names it is rejected, for a value other than zero it is accepted.\<close>

theorem smt_non_membership_witness:
  "(\<exists>st. smt_reach run_perm [SmtInsert 1 5] st \<and> verify_non_membership run_perm 3 [] 1 5 st = Inr True) \<and>
   (\<exists>st. smt_reach run_perm [SmtInsert 1 0] st \<and> verify_non_membership run_perm 3 [] 1 0 st = Inl (Fail Smt_InvalidProof))"
proof -
  obtain st where st: "smt_reach run_perm [SmtInsert 1 5] st" using run_one by blast
  have "no_collision run_perm (touched E [SmtInsert 1 5] \<union> subtries (plug 0 3 (siblings 0 3 (trie_of [SmtInsert 1 5])) E))"
    by (rule no_collision_mono [OF run_safe(1)]) (simp add: trie_of_def)
  from smt_non_membership [OF run_perm_ok st this] have 1: "verify_non_membership run_perm 3 [] 1 5 st = Inr True"
    by (simp add: listed_def trie_of_def)
  obtain st' where st': "smt_reach run_perm [SmtInsert 1 0] st'"
    using run_created smt_run_insert [of "[]" _ 1 0] no_collision_mono [OF run_safe(2)] run_small by (force simp: listed_def)
  have "no_collision run_perm (touched E [SmtInsert 1 0] \<union> subtries (plug 0 3 (siblings 0 3 (trie_of [SmtInsert 1 0])) E))"
    by (rule no_collision_mono [OF run_safe(2)]) (simp add: trie_of_def)
  from smt_non_membership [OF run_perm_ok st' this] have "verify_non_membership run_perm 3 [] 1 0 st' = Inl (Fail Smt_InvalidProof)"
    by (simp add: listed_def trie_of_def)
  then show ?thesis using 1 st st' by blast
qed

theorem smt_admin_only_witness:
  "\<exists>st. smt_reach run_perm run_calls st \<and>
    attempts (smt_step run_perm) [(\<lambda>a. a = Address 2, SmtDelete 1), (\<lambda>a. False, SmtInsert 3 4)] st = st"
proof -
  obtain st where st: "smt_reach run_perm run_calls st" "sm_admin st = Some (Address 1)" using run_two by blast
  have "\<forall>(auth, c) \<in> set [(\<lambda>a. a = Address 2, SmtDelete 1), (\<lambda>a. False, SmtInsert 3 4)]. \<not> auth (Address 1)" by simp
  from smt_admin_only [OF st(2) this, of run_perm] show ?thesis using st(1) by blast
qed

theorem smt_delete_leaves_parent_witness:
  "\<exists>st st'. smt_reach run_perm run_calls st \<and>
    delete_leaf run_perm (\<lambda>a. a = Address 1) 1 st = Inr (LeafDeletedEvent 1 61, st') \<and> sm_node st' 218 = Some [61, 50]"
proof -
  obtain st where st: "smt_reach run_perm run_calls st" "sm_admin st = Some (Address 1)" using run_two by blast
  from smt_delete_leaves_parent [OF run_perm_ok st(1) run_calls_safe(2) st(2), of "\<lambda>a. a = Address 1" 2 7 5] show ?thesis
    using st(1) by (auto simp: run_trie)
qed

end
