(* ===== verification/Serialization.thy ===== *)
theory Serialization imports Amounts begin

text \<open>
  Field elements as byte strings and hexadecimal strings, from
  \<^verbatim>\<open>app/crates/core/prover/src/serialization.rs\<close>. A scalar is a natural number below the
  modulus; a Rust string is its sequence of bytes (a \<open>char\<close> of HOL is one byte).
\<close>

section \<open>Errors\<close>

text \<open>The messages of the crate's \<open>anyhow\<close> errors, with the numbers they name.\<close>

datatype prover_error =
    ExpectedBytes nat
  | HexTooLong
  | InvalidHexCharacter
  | IndexOverflow
  | WitnessLength nat
  | WitnessInvalid
  | WitnessCount
  | ZeroLeafBytes
  | AspLeafBytes
  | DepthRange
  | DepthOverflow
  | LeafIndexOutOfRange nat nat
  | AmountError amount_error
  | SignatureLength
  | RandomFailed
  | RecipientKeyLength
  | PlaintextLength nat
  | EncryptionFailed
  | PrivateKeyLength
  | DataTooShort
  | ArrayLength nat
  | InvalidDecimal
  | TreeDepthZero
  | SmtDepthZero
  | MembershipLength nat nat
  | NonMembershipLength nat nat
  | TooManyOutputs nat
  | TooManyInputs nat
  | SumOverflow
  | BalanceOverflow
  | NegationOverflow
  | NotBalanced
  | PathLength nat nat nat
  | KeyPairing nat
  | InsufficientInput

section \<open>Bytes\<close>

definition FIELD_SIZE :: nat where "FIELD_SIZE = 32"

definition bytes_to_prime_field :: "byte list \<Rightarrow> (prover_error, nat) outcome" where
  "bytes_to_prime_field bytes =
     (if length bytes \<noteq> FIELD_SIZE then Inl (Fail (ExpectedBytes (length bytes)))
      else Inr (le_val bytes mod bn_p))"

definition prime_field_to_bytes :: "nat \<Rightarrow> ('e, byte list) outcome" where
  "prime_field_to_bytes f =
     (let src = le_bytes 32 f in
      if FIELD_SIZE < length src then Inl Panic
      else Inr (src @ drop (length src) (replicate FIELD_SIZE 0)))"

definition bytes_to_fr :: "byte list \<Rightarrow> (prover_error, nat) outcome" where
  "bytes_to_fr bytes = bytes_to_prime_field bytes"

definition fr_to_bytes :: "nat \<Rightarrow> ('e, byte list) outcome" where
  "fr_to_bytes fr = prime_field_to_bytes fr"

definition bytes_to_scalar :: "byte list \<Rightarrow> (prover_error, nat) outcome" where
  "bytes_to_scalar bytes = bytes_to_prime_field bytes"

definition scalar_to_bytes :: "nat \<Rightarrow> ('e, byte list) outcome" where
  "scalar_to_bytes scalar = prime_field_to_bytes scalar"

definition field_to_scalar :: "field \<Rightarrow> nat" where
  "field_to_scalar f = le_val (f_to_le_bytes f) mod bn_p"

definition scalar_to_field :: "nat \<Rightarrow> ('e, field) outcome" where
  "scalar_to_field scalar =
     andThen (scalar_to_bytes scalar) (\<lambda>le.
     andThen (if length le = 32 then Inr le else Inl Panic) (\<lambda>le.
     unwrap (f_try_from_le_bytes le)))"

section \<open>Hexadecimal strings\<close>

text \<open>The two digits \<open>{:02x}\<close> prints of a byte.\<close>

definition hex_digit :: "nat \<Rightarrow> char" where
  "hex_digit n = ''0123456789abcdef'' ! n"

definition hex_byte :: "byte \<Rightarrow> string" where
  "hex_byte b = [hex_digit (unat b div 16), hex_digit (unat b mod 16)]"

definition scalar_to_hex :: "nat \<Rightarrow> ('e, string) outcome" where
  "scalar_to_hex scalar = andThen (scalar_to_bytes scalar) (\<lambda>bytes. Inr (''0x'' @ concat (map hex_byte (rev bytes))))"

text \<open>
  \<open>from_str_radix\<close> on the one or two bytes of a chunk: it takes digits of either case and a
  leading plus sign before at least one digit.
\<close>

definition digit_value :: "char \<Rightarrow> nat option" where
  "digit_value c =
     (let n = of_char c :: nat in
      if 48 \<le> n \<and> n \<le> 57 then Some (n - 48)
      else if 97 \<le> n \<and> n \<le> 102 then Some (n - 87)
      else if 65 \<le> n \<and> n \<le> 70 then Some (n - 55)
      else None)"

fun parse_chunk :: "string \<Rightarrow> byte option" where
  "parse_chunk [c] = map_option word_of_nat (digit_value c)"
| "parse_chunk [c, d] =
     (if c = CHR ''+'' then map_option word_of_nat (digit_value d)
      else case (digit_value c, digit_value d) of
        (Some x, Some y) \<Rightarrow> Some (word_of_nat (16 * x + y)) | _ \<Rightarrow> None)"
| "parse_chunk _ = None"

fun chunks_2 :: "'a list \<Rightarrow> 'a list list" where
  "chunks_2 (x # y # rest) = [x, y] # chunks_2 rest"
| "chunks_2 [x] = [[x]]"
| "chunks_2 [] = []"

text \<open>
  A chunk that is no \<open>str\<close> fails before its index is computed, a chunk of other characters
  after it. Two bytes are a \<open>str\<close> if both are below 128, or if they are the two bytes of one
  character.
\<close>

definition chunk_is_str :: "string \<Rightarrow> bool" where
  "chunk_is_str c = ((\<forall>x \<in> set c. of_char x < (128 :: nat)) \<or>
     (case c of [x, y] \<Rightarrow> 194 \<le> (of_char x :: nat) \<and> (of_char x :: nat) \<le> 223 \<and> 128 \<le> (of_char y :: nat) \<and> (of_char y :: nat) \<le> 191
      | _ \<Rightarrow> False))"

fun hex_loop :: "(nat \<times> string) list \<Rightarrow> byte list \<Rightarrow> (prover_error, byte list) outcome" where
  "hex_loop [] bytes = Inr bytes"
| "hex_loop ((i, chunk) # rest) bytes =
     (if \<not> chunk_is_str chunk then Inl (Fail InvalidHexCharacter)
      else
        andThen (ok_or IndexOverflow (case usize_checked_sub FIELD_SIZE 1 of
            None \<Rightarrow> None | Some v \<Rightarrow> usize_checked_sub v i)) (\<lambda>idx.
        andThen (ok_or InvalidHexCharacter (parse_chunk chunk)) (\<lambda>b.
        hex_loop rest (bytes[idx := b]))))"

text \<open>Padding counts characters: the bytes that do not continue one.\<close>

definition char_count :: "string \<Rightarrow> nat" where
  "char_count s = length (filter (\<lambda>c. \<not> (128 \<le> (of_char c :: nat) \<and> (of_char c :: nat) \<le> 191)) s)"

definition hex_to_scalar :: "string \<Rightarrow> (prover_error, nat) outcome" where
  "hex_to_scalar hex =
     (let hex = (if take 2 hex = ''0x'' then drop 2 hex else hex) in
      if 64 < length hex then Inl (Fail HexTooLong)
      else
        let padded = replicate (64 - char_count hex) (CHR ''0'') @ hex in
        andThen (hex_loop (enumerate 0 (chunks_2 padded)) (replicate FIELD_SIZE 0)) (\<lambda>bytes.
        Inr (le_val bytes mod bn_p)))"

definition field_bytes_to_hex :: "byte list \<Rightarrow> (prover_error, string) outcome" where
  "field_bytes_to_hex bytes = andThen (bytes_to_scalar bytes) scalar_to_hex"

definition hex_to_field_bytes :: "string \<Rightarrow> (prover_error, byte list) outcome" where
  "hex_to_field_bytes hex = andThen (hex_to_scalar hex) scalar_to_bytes"

section \<open>Decimal strings\<close>

text \<open>The parser of \<open>u128\<close>: digits after an optional plus sign, at least one, no overflow.\<close>

fun digits_value :: "nat \<Rightarrow> string \<Rightarrow> nat option" where
  "digits_value acc [] = Some acc"
| "digits_value acc (c # cs) =
     (let n = of_char c :: nat in
      if 48 \<le> n \<and> n \<le> 57 \<and> acc * 10 + (n - 48) < 340282366920938463463374607431768211456
      then digits_value (acc * 10 + (n - 48)) cs else None)"

definition parse_u128 :: "string \<Rightarrow> nat option" where
  "parse_u128 s =
     (let digits = (case s of c # cs \<Rightarrow> if c = CHR ''+'' then cs else s | [] \<Rightarrow> s) in
      if digits = [] then None else digits_value 0 digits)"

definition decimal_to_field_bytes :: "string \<Rightarrow> (prover_error, byte list) outcome" where
  "decimal_to_field_bytes decimal =
     andThen (ok_or InvalidDecimal (parse_u128 decimal)) (\<lambda>v.
     let low = v mod 18446744073709551616; high = v div 18446744073709551616;
         base = 4294967296 mod bn_p;
         scalar = (low mod bn_p + (high mod bn_p) * (base * base mod bn_p) mod bn_p) mod bn_p in
     scalar_to_bytes scalar)"

section \<open>Witnesses\<close>

definition parse_witness :: "byte list \<Rightarrow> (prover_error, byte list) outcome" where
  "parse_witness witness_bytes =
     (if \<not> FIELD_SIZE dvd length witness_bytes then Inl (Fail (WitnessLength (length witness_bytes)))
      else Inr witness_bytes)"

definition witness_element_count :: "byte list \<Rightarrow> (prover_error, nat) outcome" where
  "witness_element_count witness_bytes =
     (if \<not> FIELD_SIZE dvd length witness_bytes then Inl (Fail WitnessInvalid)
      else
        let count = length witness_bytes div FIELD_SIZE in
        ok_or WitnessCount (nat_try_from 32 count))"

definition u64_to_field_bytes :: "u64 \<Rightarrow> ('e, byte list) outcome" where
  "u64_to_field_bytes v = (let scalar = unat v mod bn_p in scalar_to_bytes scalar)"

section \<open>Round trips\<close>

lemma prime_field_to_bytes_eq [simp]: "prime_field_to_bytes f = Inr (le_bytes 32 f)"
  by (simp add: prime_field_to_bytes_def FIELD_SIZE_def Let_def)

lemmas scalar_bytes_defs = bytes_to_scalar_def scalar_to_bytes_def bytes_to_fr_def fr_to_bytes_def bytes_to_prime_field_def FIELD_SIZE_def

lemma bn_p_less: "bn_p < 2 ^ 254"
  by simp

lemma le_val_le_bytes_p: "s < bn_p \<Longrightarrow> le_val (le_bytes 32 s) = s"
  by (simp add: le_val_le_bytes del: le_bytes.simps)

lemma bytes_to_scalar_to_bytes: "s < bn_p \<Longrightarrow> bytes_to_scalar (le_bytes 32 s) = Inr s"
  by (simp add: scalar_bytes_defs le_val_le_bytes_p del: le_bytes.simps)

lemma scalar_to_bytes_val: "scalar_to_bytes s = Inr (le_bytes 32 s)"
  by (simp add: scalar_to_bytes_def)

lemma bytes_to_scalar_Inr [res_simps]: "bytes_to_scalar bs = Inr s \<longleftrightarrow> length bs = 32 \<and> s = le_val bs mod bn_p"
  by (auto simp: scalar_bytes_defs)

lemma field_to_scalar_val: "f_canonical f \<Longrightarrow> field_to_scalar f = unat (f_val f)"
  by (simp add: field_to_scalar_def f_to_le_bytes_def to_le_le_bytes f_canonical_nat le_val_le_bytes_p del: le_bytes.simps)

lemma field_to_scalar_less: "field_to_scalar f < bn_p"
  by (simp add: field_to_scalar_def)

lemma scalar_to_field_val: "s < bn_p \<Longrightarrow> scalar_to_field s = Inr (Field (word_of_nat s))"
  by (simp add: scalar_to_field_def scalar_to_bytes_val f_try_from_le_bytes_def f_try_from_u256_def from_le_le_val
      le_val_le_bytes_p word_le_nat_alt unat_of_nat del: le_bytes.simps)

text \<open>Hexadecimal strings.\<close>

lemma hex_digits: "list_all (\<lambda>n. digit_value (hex_digit n) = Some n \<and> hex_digit n \<noteq> CHR ''+'' \<and> (of_char (hex_digit n) :: nat) < 128) [0, 1, 2, 3, 4, 5, 6, 7, 8, 9, 10, 11, 12, 13, 14, 15]"
  by (simp add: hex_digit_def digit_value_def)

lemma hex_digit_value: "n < 16 \<Longrightarrow> digit_value (hex_digit n) = Some n \<and> hex_digit n \<noteq> CHR ''+'' \<and> (of_char (hex_digit n) :: nat) < 128"
proof -
  assume "n < 16"
  then have "n \<in> set [0, 1, 2, 3, 4, 5, 6, 7, 8, 9, 10, 11, 12, 13, 14, 15]" by (simp, presburger)
  then show ?thesis using hex_digits unfolding list_all_iff by blast
qed

lemma hex_byte_parse: "parse_chunk (hex_byte b) = Some b" "chunk_is_str (hex_byte b)"
proof -
  have "unat b div 16 < 16" "unat b mod 16 < 16" using unsigned_less [of b, where ?'a = nat] by simp_all
  moreover have "word_of_nat (16 * (unat b div 16) + unat b mod 16) = b" by (subst mult_div_mod_eq) simp
  ultimately show "parse_chunk (hex_byte b) = Some b" "chunk_is_str (hex_byte b)"
    using hex_digit_value by (simp_all add: hex_byte_def chunk_is_str_def)
qed

lemma chunks_hex: "chunks_2 (concat (map hex_byte bs)) = map hex_byte bs"
  by (induction bs) (simp_all add: hex_byte_def)

lemma char_count_hex: "char_count (concat (map hex_byte bs)) = 2 * length bs"
proof (induction bs)
  case (Cons b bs)
  have "unat b div 16 < 16" "unat b mod 16 < 16" using unsigned_less [of b, where ?'a = nat] by simp_all
  then have "(of_char (hex_digit (unat b div 16)) :: nat) < 128" "(of_char (hex_digit (unat b mod 16)) :: nat) < 128"
    using hex_digit_value by blast+
  then show ?case using Cons by (simp add: char_count_def hex_byte_def)
qed (simp add: char_count_def)

lemma length_hex: "length (concat (map hex_byte bs)) = 2 * length bs"
  by (induction bs) (simp_all add: hex_byte_def)

lemma hex_loop_bytes:
  assumes "length bs = 32" "length acc = 32" "k \<le> 32" "\<forall>j < 32. 32 - k \<le> j \<longrightarrow> acc ! j = bs ! j"
  shows "hex_loop (enumerate k (map hex_byte (drop k (rev bs)))) acc = Inr bs"
  using assms
proof (induction "32 - k" arbitrary: k acc)
  case 0
  then have "acc = bs" by (intro nth_equalityI) simp_all
  then show ?case using 0 by simp
next
  case (Suc n)
  have k: "k < 32" using Suc.hyps(2) by simp
  then have dr: "drop k (rev bs) = bs ! (31 - k) # drop (Suc k) (rev bs)"
    using Suc.prems(1) by (simp add: rev_nth flip: Cons_nth_drop_Suc)
  have "hex_loop (enumerate (Suc k) (map hex_byte (drop (Suc k) (rev bs)))) (acc[31 - k := bs ! (31 - k)]) = Inr bs"
    using Suc.hyps(2) Suc.prems k by (intro Suc.hyps(1)) (auto simp: nth_list_update)
  then show ?case using k
    by (simp add: dr hex_byte_parse FIELD_SIZE_def usize_checked_sub_def)
qed

text \<open>
  A scalar printed as a hexadecimal string or as bytes is read back as the same scalar, the
  string has the prefix and sixty-four digits, and the bytes are thirty-two.
\<close>

theorem scalar_round_trip:
  assumes "s < bn_p"
  shows "\<exists>hex bytes. scalar_to_hex s = (Inr hex :: (prover_error, string) outcome) \<and> length hex = 66 \<and> hex_to_scalar hex = Inr s \<and>
    scalar_to_bytes s = (Inr bytes :: (prover_error, byte list) outcome) \<and> length bytes = 32 \<and> bytes_to_scalar bytes = Inr s"
proof (intro exI conjI)
  let ?b = "le_bytes 32 s" and ?h = "concat (map hex_byte (rev (le_bytes 32 s)))"
  show "(scalar_to_hex s :: (prover_error, string) outcome) = Inr (''0x'' @ ?h)"
    by (simp add: scalar_to_hex_def scalar_to_bytes_val)
  show "length (''0x'' @ ?h) = 66" by (simp add: length_hex del: le_bytes.simps)
  have "hex_loop (enumerate 0 (map hex_byte (drop 0 (rev ?b)))) (replicate 32 0) = Inr ?b"
    by (rule hex_loop_bytes) (simp_all del: le_bytes.simps)
  then show "hex_to_scalar (''0x'' @ ?h) = Inr s"
    using char_count_hex [of "rev ?b"] length_hex [of "rev ?b"] assms
    by (simp add: hex_to_scalar_def FIELD_SIZE_def chunks_hex le_val_le_bytes_p del: le_bytes.simps)
  show "(scalar_to_bytes s :: (prover_error, byte list) outcome) = Inr ?b" by (rule scalar_to_bytes_val)
  show "length ?b = 32" by (rule length_le_bytes)
  show "bytes_to_scalar ?b = Inr s" by (rule bytes_to_scalar_to_bytes [OF assms])
qed

theorem scalar_round_trip_witness:
  "\<exists>hex. scalar_to_hex 255 = (Inr hex :: (prover_error, string) outcome) \<and> hex_to_scalar hex = Inr 255"
  using scalar_round_trip [of 255] by auto

lemma field_bytes_to_hex_ok: "length bs = 32 \<Longrightarrow> \<exists>h. field_bytes_to_hex bs = Inr h"
  by (simp add: field_bytes_to_hex_def scalar_bytes_defs scalar_to_hex_def)

lemma digits_value_bound: "acc < 340282366920938463463374607431768211456 \<Longrightarrow> digits_value acc s = Some v \<Longrightarrow> v < 340282366920938463463374607431768211456"
  by (induction acc s rule: digits_value.induct) (auto simp: Let_def split: if_splits)

text \<open>The two halves of the number give the number itself.\<close>

lemma decimal_value:
  assumes "parse_u128 s = Some v"
  shows "decimal_to_field_bytes s = Inr (le_bytes 32 v)"
proof -
  have v: "v < 340282366920938463463374607431768211456"
    using assms digits_value_bound [of 0] by (auto simp: parse_u128_def Let_def split: if_splits list.splits)
  have "v mod 18446744073709551616 + v div 18446744073709551616 * 18446744073709551616 = v" by simp
  moreover have "v mod 18446744073709551616 < bn_p" "v div 18446744073709551616 < bn_p" "v < bn_p"
    "v div 18446744073709551616 * 18446744073709551616 < bn_p" using v by simp_all
  ultimately show ?thesis
    using assms by (simp add: decimal_to_field_bytes_def scalar_to_bytes_val Let_def del: le_bytes.simps)
qed

end
