(* ===== verification/Zkhash.thy ===== *)
theory Zkhash imports Poseidon begin

text \<open>
  The crate \<^verbatim>\<open>poseidon2\<close> the off-chain code hashes with: the permutation of
  \<^verbatim>\<open>poseidon2/src/poseidon2/poseidon2.rs\<close>, its parameters, the proof that it
  returns for well-formed parameters and that it is injective at the widths the program uses.
\<close>

section \<open>Arithmetic of a prime field\<close>

text \<open>
  The code is generic in a prime field; here its elements are the natural numbers below the
  modulus, which the parameters carry.
\<close>

definition s_add :: "nat \<Rightarrow> nat \<Rightarrow> nat \<Rightarrow> nat" where
  "s_add p a b = (a + b) mod p"

definition s_mul :: "nat \<Rightarrow> nat \<Rightarrow> nat \<Rightarrow> nat" where
  "s_mul p a b = (a * b) mod p"

definition s_double :: "nat \<Rightarrow> nat \<Rightarrow> nat" where
  "s_double p a = (2 * a) mod p"

definition s_square :: "nat \<Rightarrow> nat \<Rightarrow> nat" where
  "s_square p a = (a * a) mod p"

section \<open>Parameters\<close>

record p2_params =
  p2_modulus :: nat
  p2_t :: nat
  p2_d :: nat
  p2_rounds_f_div_2 :: nat
  p2_rounds_p :: nat
  p2_rounds :: nat
  p2_mat_internal_diag_m_1 :: "nat list"
  p2_mat_internal :: "nat list list"
  p2_round_constants :: "nat list list"

definition params_new ::
  "nat \<Rightarrow> nat \<Rightarrow> nat \<Rightarrow> nat \<Rightarrow> nat \<Rightarrow> nat list \<Rightarrow> nat list list \<Rightarrow> nat list list \<Rightarrow> ('e, p2_params) outcome" where
  "params_new p t d rounds_f rounds_p diag mat rcs =
     (if \<not> (d = 3 \<or> d = 5 \<or> d = 7 \<or> d = 11) then Inl Panic
      else if rounds_f mod 2 \<noteq> 0 then Inl Panic
      else
        let r = rounds_f div 2 in
        andThen (expect (usize_checked_add rounds_f rounds_p)) (\<lambda>rounds.
        Inr \<lparr>p2_modulus = p, p2_t = t, p2_d = d, p2_rounds_f_div_2 = r, p2_rounds_p = rounds_p, p2_rounds = rounds,
             p2_mat_internal_diag_m_1 = diag, p2_mat_internal = mat, p2_round_constants = rcs\<rparr>))"

text \<open>The product of a matrix and a vector, row by row.\<close>

fun row_product :: "nat \<Rightarrow> nat list \<Rightarrow> (nat \<times> nat) list \<Rightarrow> nat \<Rightarrow> ('e, nat) outcome" where
  "row_product p row [] out = Inr out"
| "row_product p row ((col, inp) # rest) out =
     andThen (vec_index row col) (\<lambda>m. row_product p row rest (s_add p out (s_mul p m inp)))"

definition mat_vec_mul :: "nat \<Rightarrow> nat list list \<Rightarrow> nat list \<Rightarrow> ('e, nat list) outcome" where
  "mat_vec_mul p mat input = traverse (\<lambda>row. row_product p row (enumerate 0 input) 0) mat"

section \<open>The permutation\<close>

definition sbox_p :: "p2_params \<Rightarrow> nat \<Rightarrow> ('e, nat) outcome" where
  "sbox_p ps input =
     (let p = p2_modulus ps; input2 = s_square p input in
      if p2_d ps = 3 then Inr (s_mul p input2 input)
      else if p2_d ps = 5 then Inr (s_mul p (s_square p input2) input)
      else if p2_d ps = 7 then Inr (s_mul p (s_mul p (s_square p input2) input2) input)
      else Inl Panic)"

definition sbox :: "p2_params \<Rightarrow> nat list \<Rightarrow> ('e, nat list) outcome" where
  "sbox ps input = traverse (sbox_p ps) input"

text \<open>The loop over blocks of four elements.\<close>

fun m4_loop :: "nat \<Rightarrow> nat list \<Rightarrow> nat list \<Rightarrow> ('e, nat list) outcome" where
  "m4_loop p [] input = Inr input"
| "m4_loop p (i # rest) input =
     (let start_index = i * 4 in
      andThen (vec_index input start_index) (\<lambda>x0.
      andThen (vec_index input (start_index + 1)) (\<lambda>x1.
      andThen (vec_index input (start_index + 2)) (\<lambda>x2.
      andThen (vec_index input (start_index + 3)) (\<lambda>x3.
      let t_0 = s_add p x0 x1;
          t_1 = s_add p x2 x3;
          t_2 = s_add p (s_double p x1) t_1;
          t_3 = s_add p (s_double p x3) t_0;
          t_4 = s_add p (s_double p (s_double p t_1)) t_3;
          t_5 = s_add p (s_double p (s_double p t_0)) t_2;
          t_6 = s_add p t_3 t_5;
          t_7 = s_add p t_2 t_4 in
      m4_loop p rest (input[start_index := t_6, start_index + 1 := t_5, start_index + 2 := t_7, start_index + 3 := t_4]))))))"

definition matmul_m4 :: "p2_params \<Rightarrow> nat list \<Rightarrow> ('e, nat list) outcome" where
  "matmul_m4 ps input = m4_loop (p2_modulus ps) [0..<p2_t ps div 4] input"

text \<open>The sum of the elements at some indices, added to a start value.\<close>

fun add_at :: "nat \<Rightarrow> nat list \<Rightarrow> nat list \<Rightarrow> nat \<Rightarrow> ('e, nat) outcome" where
  "add_at p input [] acc = Inr acc"
| "add_at p input (i # rest) acc = andThen (vec_index input i) (\<lambda>x. add_at p input rest (s_add p acc x))"

definition matmul_external :: "p2_params \<Rightarrow> nat list \<Rightarrow> ('e, nat list) outcome" where
  "matmul_external ps input =
     (let t = p2_t ps; p = p2_modulus ps in
      if t = 2 then
        andThen (vec_index input 0) (\<lambda>x0.
        andThen (vec_index input 1) (\<lambda>x1.
        let total = s_add p x0 x1 in
        Inr (input[0 := s_add p x0 total, 1 := s_add p x1 total])))
      else if t = 3 then
        andThen (vec_index input 0) (\<lambda>x0.
        andThen (vec_index input 1) (\<lambda>x1.
        andThen (vec_index input 2) (\<lambda>x2.
        let total = s_add p (s_add p x0 x1) x2 in
        Inr (input[0 := s_add p x0 total, 1 := s_add p x1 total, 2 := s_add p x2 total]))))
      else if t = 4 then matmul_m4 ps input
      else if t \<in> {8, 12, 16, 20, 24} then
        andThen (matmul_m4 ps input) (\<lambda>input.
        let t4 = t div 4 in
        andThen (traverse (\<lambda>l. andThen (vec_index input l) (\<lambda>x.
                   add_at p input (map (\<lambda>j. 4 * j + l) [1..<t4]) x)) [0..<4]) (\<lambda>stored.
        Inr (map (\<lambda>(i, x). s_add p x (stored ! (i mod 4))) (enumerate 0 input))))
      else Inl Panic)"

definition matmul_internal :: "p2_params \<Rightarrow> nat list \<Rightarrow> nat list \<Rightarrow> ('e, nat list) outcome" where
  "matmul_internal ps input diag =
     (let t = p2_t ps; p = p2_modulus ps in
      if t = 2 then
        andThen (vec_index input 0) (\<lambda>x0.
        andThen (vec_index input 1) (\<lambda>x1.
        let total = s_add p x0 x1 in
        Inr (input[0 := s_add p x0 total, 1 := s_add p (s_double p x1) total])))
      else if t = 3 then
        andThen (vec_index input 0) (\<lambda>x0.
        andThen (vec_index input 1) (\<lambda>x1.
        andThen (vec_index input 2) (\<lambda>x2.
        let total = s_add p (s_add p x0 x1) x2 in
        Inr (input[0 := s_add p x0 total, 1 := s_add p x1 total, 2 := s_add p (s_double p x2) total]))))
      else if t \<in> {4, 8, 12, 16, 20, 24} then
        andThen (vec_index input 0) (\<lambda>x0.
        let total = foldl (s_add p) x0 (take (t - 1) (tl input)) in
        traverse (\<lambda>(i, x). andThen (vec_index diag i) (\<lambda>m. Inr (s_add p (s_mul p x m) total))) (enumerate 0 input))
      else Inl Panic)"

text \<open>\<open>zip\<close> stops with the shorter list.\<close>

definition add_rc :: "p2_params \<Rightarrow> nat list \<Rightarrow> nat list \<Rightarrow> nat list" where
  "add_rc ps input rcs = map (\<lambda>(a, b). s_add (p2_modulus ps) a b) (zip input rcs)"

fun full_rounds :: "p2_params \<Rightarrow> nat list \<Rightarrow> nat list \<Rightarrow> ('e, nat list) outcome" where
  "full_rounds ps [] st = Inr st"
| "full_rounds ps (r # rs) st =
     andThen (vec_index (p2_round_constants ps) r) (\<lambda>rcs.
     andThen (sbox ps (add_rc ps st rcs)) (\<lambda>st.
     andThen (matmul_external ps st) (\<lambda>st.
     full_rounds ps rs st)))"

fun partial_rounds :: "p2_params \<Rightarrow> nat list \<Rightarrow> nat list \<Rightarrow> ('e, nat list) outcome" where
  "partial_rounds ps [] st = Inr st"
| "partial_rounds ps (r # rs) st =
     andThen (vec_index st 0) (\<lambda>x.
     andThen (vec_index (p2_round_constants ps) r) (\<lambda>rcs.
     andThen (vec_index rcs 0) (\<lambda>c.
     andThen (sbox_p ps (s_add (p2_modulus ps) x c)) (\<lambda>y.
     andThen (matmul_internal ps (st[0 := y]) (p2_mat_internal_diag_m_1 ps)) (\<lambda>st.
     partial_rounds ps rs st)))))"

definition p2_permutation :: "p2_params \<Rightarrow> nat list \<Rightarrow> ('e, nat list) outcome" where
  "p2_permutation ps input =
     (if length input \<noteq> p2_t ps then Inl Panic
      else
        andThen (matmul_external ps input) (\<lambda>st.
        andThen (full_rounds ps [0..<p2_rounds_f_div_2 ps] st) (\<lambda>st.
        let p_end = p2_rounds_f_div_2 ps + p2_rounds_p ps in
        andThen (partial_rounds ps [p2_rounds_f_div_2 ps..<p_end] st) (\<lambda>st.
        full_rounds ps [p_end..<p2_rounds ps] st))))"

section \<open>Field elements\<close>

abbreviation (input) in_field :: "nat \<Rightarrow> nat list \<Rightarrow> bool" where
  "in_field p st \<equiv> \<forall>x \<in> set st. x < p"

lemma s_less [simp]:
  "0 < p \<Longrightarrow> s_add p a b < p" "0 < p \<Longrightarrow> s_mul p a b < p" "0 < p \<Longrightarrow> s_double p a < p" "0 < p \<Longrightarrow> s_square p a < p"
  by (simp_all add: s_add_def s_mul_def s_double_def s_square_def)

lemmas s_defs = s_add_def s_mul_def s_double_def s_square_def

definition widths :: "nat set" where
  "widths = {2, 3, 4, 8, 12, 16, 20, 24}"

lemma m4_loop_ok: "(\<forall>i \<in> set idx. i * 4 + 3 < length input) \<Longrightarrow> \<exists>out. (m4_loop p idx input :: ('e, nat list) outcome) = Inr out \<and> length out = length input"
proof (induction idx arbitrary: input)
  case (Cons i rest)
  have "length new = length input \<Longrightarrow> \<exists>out. (m4_loop p rest new :: ('e, nat list) outcome) = Inr out \<and> length out = length input" for new
    using Cons.IH [of new] Cons.prems by simp
  then show ?case using Cons.prems by (simp add: Let_def)
qed simp

lemma m4_loop_Inr: "m4_loop p idx input = Inr out \<Longrightarrow> \<forall>i \<in> set idx. i * 4 + 3 < length input"
  by (induction idx arbitrary: input) (fastforce simp: Let_def andThen_Inr vec_index_Inr)+

lemma add_at_ok: "(\<forall>i \<in> set idx. i < length input) \<Longrightarrow> \<exists>s. add_at p input idx acc = Inr s"
  by (induction idx arbitrary: acc) auto

lemma list_2: "length xs = 2 \<Longrightarrow> \<exists>a b. xs = [a, b]"
  by (auto simp: length_Suc_conv numeral_2_eq_2)

lemma list_3: "length xs = 3 \<Longrightarrow> \<exists>a b c. xs = [a, b, c]"
  by (auto simp: length_Suc_conv numeral_3_eq_3)

lemma list_4: "length xs = 4 \<Longrightarrow> \<exists>a b c d. xs = [a, b, c, d]"
  by (auto simp: length_Suc_conv eval_nat_numeral)

lemma traverse_ex: "(\<And>x. x \<in> set xs \<Longrightarrow> \<exists>y. f x = Inr y \<and> P y) \<Longrightarrow> \<exists>ys. traverse f xs = Inr ys \<and> length ys = length xs \<and> (\<forall>y \<in> set ys. P y)"
proof (induction xs)
  case (Cons x xs)
  then obtain y ys where "f x = Inr y" "P y" "traverse f xs = Inr ys" "length ys = length xs" "\<forall>y \<in> set ys. P y"
    by fastforce
  then show ?case by (intro exI [of _ "y # ys"]) simp
qed simp

lemma wide_external_ok:
  assumes "t \<in> {8, 12, 16, 20, 24}" "length input = t" "0 < p"
  shows "\<exists>stored. traverse (\<lambda>l. andThen (vec_index input l) (\<lambda>x. add_at p input (map (\<lambda>j. 4 * j + l) [1..<t div 4]) x)) [0..<4] = Inr stored"
proof -
  have "\<exists>ys. traverse (\<lambda>l. andThen (vec_index input l) (\<lambda>x. add_at p input (map (\<lambda>j. 4 * j + l) [1..<t div 4]) x)) [0..<4] = Inr ys \<and>
      length ys = length [0..<4] \<and> (\<forall>y \<in> set ys. True)"
  proof (rule traverse_ex)
    fix l :: nat assume l: "l \<in> set [0..<4]"
    have "\<forall>i \<in> set (map (\<lambda>j. 4 * j + l) [1..<t div 4]). i < length input" using l assms(1,2) by auto
    then show "\<exists>y. andThen (vec_index input l) (\<lambda>x. add_at p input (map (\<lambda>j. 4 * j + l) [1..<t div 4]) x) = Inr y \<and> True"
      using add_at_ok [of "map (\<lambda>j. 4 * j + l) [1..<t div 4]" input p "input ! l"] l assms(1,2) by auto
  qed
  then show ?thesis by blast
qed

lemma matmul_external_ok:
  assumes "p2_t ps \<in> widths" "length st = p2_t ps" "0 < p2_modulus ps"
  shows "\<exists>out. (matmul_external ps st :: ('e, nat list) outcome) = Inr out \<and> length out = p2_t ps \<and> in_field (p2_modulus ps) out"
proof -
  consider "p2_t ps = 2" | "p2_t ps = 3" | "p2_t ps = 4" | "p2_t ps \<in> {8, 12, 16, 20, 24}"
    using assms(1) by (auto simp: widths_def)
  then show ?thesis
  proof cases
    case 1
    then obtain a b where "st = [a, b]" using list_2 assms(2) by metis
    then show ?thesis using 1 assms(3) by (simp add: matmul_external_def Let_def)
  next
    case 2
    then obtain a b c where "st = [a, b, c]" using list_3 assms(2) by metis
    then show ?thesis using 2 assms(3) by (simp add: matmul_external_def Let_def)
  next
    case 3
    then obtain a b c d where "st = [a, b, c, d]" using list_4 assms(2) by metis
    then show ?thesis using 3 assms(3) by (simp add: matmul_external_def matmul_m4_def Let_def)
  next
    case 4
    obtain m where m: "(matmul_m4 ps st :: ('e, nat list) outcome) = Inr m" "length m = p2_t ps"
      using m4_loop_ok [of "[0..<p2_t ps div 4]" st "p2_modulus ps"] assms(2) 4 by (auto simp: matmul_m4_def)
    obtain stored where "(traverse (\<lambda>l. andThen (vec_index m l) (\<lambda>x.
        add_at (p2_modulus ps) m (map (\<lambda>j. 4 * j + l) [1..<p2_t ps div 4]) x)) [0..<4] :: ('e, nat list) outcome) = Inr stored"
      using wide_external_ok [OF 4 m(2) assms(3)] by blast
    then have "(matmul_external ps st :: ('e, nat list) outcome) = Inr (map (\<lambda>(i, x). s_add (p2_modulus ps) x (stored ! (i mod 4))) (enumerate 0 m))"
      using 4 m(1) by (auto simp: matmul_external_def Let_def)
    then show ?thesis using m(2) assms(3) by auto
  qed
qed

lemma matmul_external_Inr:
  assumes "(matmul_external ps st :: ('e, nat list) outcome) = Inr out"
  shows "p2_t ps \<in> widths \<and> p2_t ps \<le> length st"
proof -
  have m4: "p2_t ps \<le> length st" if "(matmul_m4 ps st :: ('e, nat list) outcome) = Inr m" "p2_t ps \<in> {4, 8, 12, 16, 20, 24}" for m
  proof -
    have "\<forall>i \<in> set [0..<p2_t ps div 4]. i * 4 + 3 < length st"
      by (rule m4_loop_Inr [OF that(1) [unfolded matmul_m4_def]])
    moreover have "p2_t ps div 4 - 1 \<in> set [0..<p2_t ps div 4]" using that(2) by auto
    ultimately have "(p2_t ps div 4 - 1) * 4 + 3 < length st" by blast
    then show ?thesis using that(2) by auto
  qed
  show ?thesis using assms m4
    by (auto simp: matmul_external_def Let_def widths_def andThen_Inr vec_index_Inr split: if_splits)
qed

lemma matmul_internal_ok:
  assumes "p2_t ps \<in> widths" "length st = p2_t ps" "0 < p2_modulus ps" "p2_t ps \<le> length diag" "in_field (p2_modulus ps) st"
  shows "\<exists>out. (matmul_internal ps st diag :: ('e, nat list) outcome) = Inr out \<and> length out = p2_t ps \<and> in_field (p2_modulus ps) out"
proof -
  consider "p2_t ps = 2" | "p2_t ps = 3" | "p2_t ps \<in> {4, 8, 12, 16, 20, 24}"
    using assms(1) by (auto simp: widths_def)
  then show ?thesis
  proof cases
    case 1
    then obtain a b where "st = [a, b]" using list_2 assms(2) by metis
    then show ?thesis using 1 assms(3) by (simp add: matmul_internal_def Let_def)
  next
    case 2
    then obtain a b c where "st = [a, b, c]" using list_3 assms(2) by metis
    then show ?thesis using 2 assms(3) by (simp add: matmul_internal_def Let_def)
  next
    case 3
    let ?f = "\<lambda>total (i, x). andThen (vec_index diag i) (\<lambda>m. Inr (s_add (p2_modulus ps) (s_mul (p2_modulus ps) x m) total))"
    have "\<exists>ys. traverse (?f total) (enumerate 0 st) = Inr ys \<and> length ys = length (enumerate 0 st) \<and> (\<forall>y \<in> set ys. y < p2_modulus ps)" for total
      by (rule traverse_ex) (use assms(2,3,4) in \<open>auto simp: in_set_enumerate_eq\<close>)
    then show ?thesis using 3 assms(2) by (auto simp: matmul_internal_def Let_def)
  qed
qed

section \<open>The permutation returns\<close>

definition sbox_val :: "p2_params \<Rightarrow> nat \<Rightarrow> nat" where
  "sbox_val ps x = x ^ p2_d ps mod p2_modulus ps"

lemma sbox_p_ok: "p2_d ps \<in> {3, 5, 7} \<Longrightarrow> sbox_p ps x = Inr (sbox_val ps x)"
  by (auto simp: sbox_p_def sbox_val_def Let_def s_defs mod_simps power_numeral_reduce)
    (simp_all add: mod_simps mult.assoc)

lemma sbox_ok: "p2_d ps \<in> {3, 5, 7} \<Longrightarrow> sbox ps xs = Inr (map (sbox_val ps) xs)"
  by (simp add: sbox_def sbox_p_ok)

definition full_at :: "p2_params \<Rightarrow> nat \<Rightarrow> bool" where
  "full_at ps r \<longleftrightarrow> r < p2_rounds_f_div_2 ps \<or> p2_rounds_f_div_2 ps + p2_rounds_p ps \<le> r"

definition params_ok :: "p2_params \<Rightarrow> bool" where
  "params_ok ps \<longleftrightarrow> 0 < p2_modulus ps \<and> p2_t ps \<in> widths \<and> p2_d ps \<in> {3, 5, 7} \<and>
     p2_rounds_f_div_2 ps + p2_rounds_p ps \<le> p2_rounds ps \<and> p2_t ps \<le> length (p2_mat_internal_diag_m_1 ps) \<and>
     p2_rounds ps \<le> length (p2_round_constants ps) \<and>
     (\<forall>r < p2_rounds ps. p2_round_constants ps ! r \<noteq> [] \<and> (full_at ps r \<longrightarrow> p2_t ps \<le> length (p2_round_constants ps ! r)))"

lemma full_rounds_ok:
  assumes "params_ok ps" "\<forall>r \<in> set rs. r < p2_rounds ps \<and> full_at ps r" "length st = p2_t ps" "in_field (p2_modulus ps) st"
  shows "\<exists>out. (full_rounds ps rs st :: ('e, nat list) outcome) = Inr out \<and> length out = p2_t ps \<and> in_field (p2_modulus ps) out"
  using assms(2-)
proof (induction rs arbitrary: st)
  case (Cons r rs)
  let ?rc = "p2_round_constants ps ! r"
  have r: "r < length (p2_round_constants ps)" "p2_t ps \<le> length ?rc" using assms(1) Cons.prems(1) by (auto simp: params_ok_def)
  have d: "p2_d ps \<in> {3, 5, 7}" "p2_t ps \<in> widths" "0 < p2_modulus ps" using assms(1) by (simp_all add: params_ok_def)
  have len: "length (map (sbox_val ps) (add_rc ps st ?rc)) = p2_t ps" using r(2) Cons.prems(2) by (simp add: add_rc_def)
  obtain out where "(matmul_external ps (map (sbox_val ps) (add_rc ps st ?rc)) :: ('e, nat list) outcome) = Inr out" "length out = p2_t ps" "in_field (p2_modulus ps) out"
    using matmul_external_ok [OF d(2) len d(3)] by blast
  then show ?case using Cons.IH [of out] Cons.prems(1) r(1) by (simp add: sbox_ok [OF d(1)])
qed simp

lemma partial_rounds_ok:
  assumes "params_ok ps" "\<forall>r \<in> set rs. r < p2_rounds ps" "length st = p2_t ps" "in_field (p2_modulus ps) st"
  shows "\<exists>out. (partial_rounds ps rs st :: ('e, nat list) outcome) = Inr out \<and> length out = p2_t ps \<and> in_field (p2_modulus ps) out"
  using assms(2-)
proof (induction rs arbitrary: st)
  case (Cons r rs)
  let ?rc = "p2_round_constants ps ! r" and ?p = "p2_modulus ps"
  have r: "r < length (p2_round_constants ps)" "0 < length ?rc" using assms(1) Cons.prems(1) by (auto simp: params_ok_def)
  have d: "p2_d ps \<in> {3, 5, 7}" "p2_t ps \<in> widths" "0 < ?p" "p2_t ps \<le> length (p2_mat_internal_diag_m_1 ps)"
    using assms(1) by (simp_all add: params_ok_def)
  have t: "0 < length st" using d(2) Cons.prems(2) by (auto simp: widths_def)
  let ?st = "st[0 := sbox_val ps (s_add ?p (st ! 0) (?rc ! 0))]"
  have "set ?st \<subseteq> {..<?p}"
    by (rule set_update_subsetI) (use Cons.prems(3) d(3) in \<open>auto simp: sbox_val_def\<close>)
  then have len: "length ?st = p2_t ps" "in_field ?p ?st" using Cons.prems(2) by auto
  obtain out where "(matmul_internal ps ?st (p2_mat_internal_diag_m_1 ps) :: ('e, nat list) outcome) = Inr out" "length out = p2_t ps" "in_field ?p out"
    using matmul_internal_ok [OF d(2) len(1) d(3,4) len(2)] by blast
  then show ?case using Cons.IH [of out] Cons.prems(1) r t by (simp add: sbox_p_ok [OF d(1)])
qed simp

lemma p2_permutation_ok:
  assumes "params_ok ps" "length st = p2_t ps"
  shows "\<exists>out. (p2_permutation ps st :: ('e, nat list) outcome) = Inr out \<and> length out = p2_t ps \<and> in_field (p2_modulus ps) out"
proof -
  have d: "p2_t ps \<in> widths" "0 < p2_modulus ps" "p2_rounds_f_div_2 ps + p2_rounds_p ps \<le> p2_rounds ps"
    using assms(1) by (simp_all add: params_ok_def)
  obtain s1 where s1: "(matmul_external ps st :: ('e, nat list) outcome) = Inr s1" "length s1 = p2_t ps" "in_field (p2_modulus ps) s1"
    using matmul_external_ok [OF d(1) assms(2) d(2)] by blast
  obtain s2 where s2: "(full_rounds ps [0..<p2_rounds_f_div_2 ps] s1 :: ('e, nat list) outcome) = Inr s2" "length s2 = p2_t ps" "in_field (p2_modulus ps) s2"
    using full_rounds_ok [OF assms(1) _ s1(2,3), of "[0..<p2_rounds_f_div_2 ps]"] d(3) by (auto simp: full_at_def)
  obtain s3 where s3: "(partial_rounds ps [p2_rounds_f_div_2 ps..<p2_rounds_f_div_2 ps + p2_rounds_p ps] s2 :: ('e, nat list) outcome) = Inr s3"
    "length s3 = p2_t ps" "in_field (p2_modulus ps) s3"
    using partial_rounds_ok [OF assms(1) _ s2(2,3), of "[p2_rounds_f_div_2 ps..<p2_rounds_f_div_2 ps + p2_rounds_p ps]"] d(3) by auto
  obtain s4 where "(full_rounds ps [p2_rounds_f_div_2 ps + p2_rounds_p ps..<p2_rounds ps] s3 :: ('e, nat list) outcome) = Inr s4"
    "length s4 = p2_t ps" "in_field (p2_modulus ps) s4"
    using full_rounds_ok [OF assms(1) _ s3(2,3), of "[p2_rounds_f_div_2 ps + p2_rounds_p ps..<p2_rounds ps]"] by (auto simp: full_at_def)
  then show ?thesis using assms(2) s1(1) s2(1) s3(1) by (simp add: p2_permutation_def Let_def)
qed

lemma matmul_internal_Inr:
  assumes "(matmul_internal ps st diag :: ('e, nat list) outcome) = Inr out" "length st = p2_t ps" "0 < p2_modulus ps"
  shows "length out = p2_t ps \<and> in_field (p2_modulus ps) out"
proof -
  have *: "length ys = length xs \<and> in_field (p2_modulus ps) ys"
    if "(traverse (\<lambda>(i, x). andThen (vec_index diag i) (\<lambda>m. Inr (s_add (p2_modulus ps) (s_mul (p2_modulus ps) x m) total))) xs
      :: ('e, nat list) outcome) = Inr ys"
    for total xs ys
    using that
  proof (induction xs arbitrary: ys)
    case (Cons ix xs)
    obtain i x where ix: "ix = (i, x)" by (cases ix)
    then obtain m zs where "(traverse (\<lambda>(i, x). andThen (vec_index diag i)
        (\<lambda>m. Inr (s_add (p2_modulus ps) (s_mul (p2_modulus ps) x m) total))) xs :: ('e, nat list) outcome) = Inr zs"
      "ys = s_add (p2_modulus ps) (s_mul (p2_modulus ps) x m) total # zs"
      using Cons.prems by (auto simp: andThen_Inr)
    then show ?case using Cons.IH [of zs] assms(3) by simp
  qed simp
  consider "p2_t ps = 2" | "p2_t ps = 3" | "p2_t ps \<in> {4, 8, 12, 16, 20, 24}"
    using assms(1) by (auto simp: matmul_internal_def Let_def split: if_splits)
  then show ?thesis
  proof cases
    case 1
    then obtain a b where "st = [a, b]" using list_2 assms(2) by metis
    then show ?thesis using 1 assms by (auto simp: matmul_internal_def Let_def)
  next
    case 2
    then obtain a b c where "st = [a, b, c]" using list_3 assms(2) by metis
    then show ?thesis using 2 assms by (auto simp: matmul_internal_def Let_def)
  next
    case 3
    then obtain total where "(traverse (\<lambda>(i, x). andThen (vec_index diag i)
        (\<lambda>m. Inr (s_add (p2_modulus ps) (s_mul (p2_modulus ps) x m) total))) (enumerate 0 st) :: ('e, nat list) outcome) = Inr out"
      using assms(1) by (auto simp: matmul_internal_def Let_def andThen_Inr)
    from * [OF this] show ?thesis using assms(2) by simp
  qed
qed

lemma matmul_external_field:
  assumes "(matmul_external ps st :: ('e, nat list) outcome) = Inr out" "length st \<le> p2_t ps" "0 < p2_modulus ps"
  shows "length out = p2_t ps \<and> in_field (p2_modulus ps) out"
proof -
  have "p2_t ps \<in> widths" "length st = p2_t ps" using matmul_external_Inr [OF assms(1)] assms(2) by auto
  from matmul_external_ok [where 'e = 'e, OF this assms(3)] show ?thesis using assms(1) by (metis sum.inject(2))
qed

lemma full_rounds_Inr:
  "(full_rounds ps rs st :: ('e, nat list) outcome) = Inr out \<Longrightarrow> length st = p2_t ps \<Longrightarrow> in_field (p2_modulus ps) st \<Longrightarrow>
    0 < p2_modulus ps \<Longrightarrow> length out = p2_t ps \<and> in_field (p2_modulus ps) out"
proof (induction rs arbitrary: st)
  case (Cons r rs)
  obtain rcs s1 s2 where step: "(sbox ps (add_rc ps st rcs) :: ('e, nat list) outcome) = Inr s1"
    "(matmul_external ps s1 :: ('e, nat list) outcome) = Inr s2" "(full_rounds ps rs s2 :: ('e, nat list) outcome) = Inr out"
    using Cons.prems(1) by (auto simp: andThen_Inr)
  have "length s1 \<le> p2_t ps"
    using traverse_length [OF step(1) [unfolded sbox_def]] Cons.prems(2) by (simp add: add_rc_def)
  then show ?case using matmul_external_field [OF step(2)] Cons.IH [OF step(3)] Cons.prems(4) by blast
qed simp

lemma partial_rounds_Inr:
  "(partial_rounds ps rs st :: ('e, nat list) outcome) = Inr out \<Longrightarrow> length st = p2_t ps \<Longrightarrow> in_field (p2_modulus ps) st \<Longrightarrow>
    0 < p2_modulus ps \<Longrightarrow> length out = p2_t ps \<and> in_field (p2_modulus ps) out"
proof (induction rs arbitrary: st)
  case (Cons r rs)
  obtain y s2 where step: "(matmul_internal ps (st[0 := y]) (p2_mat_internal_diag_m_1 ps) :: ('e, nat list) outcome) = Inr s2"
    "(partial_rounds ps rs s2 :: ('e, nat list) outcome) = Inr out"
    using Cons.prems(1) by (auto simp: andThen_Inr)
  then show ?case using matmul_internal_Inr [OF step(1)] Cons.IH [OF step(2)] Cons.prems(2,4) by simp
qed simp

lemma p2_permutation_Inr:
  assumes "(p2_permutation ps st :: ('e, nat list) outcome) = Inr out" "0 < p2_modulus ps"
  shows "length out = p2_t ps \<and> in_field (p2_modulus ps) out"
proof -
  obtain s1 s2 s3 where s: "length st = p2_t ps" "(matmul_external ps st :: ('e, nat list) outcome) = Inr s1"
    "(full_rounds ps [0..<p2_rounds_f_div_2 ps] s1 :: ('e, nat list) outcome) = Inr s2"
    "(partial_rounds ps [p2_rounds_f_div_2 ps..<p2_rounds_f_div_2 ps + p2_rounds_p ps] s2 :: ('e, nat list) outcome) = Inr s3"
    "(full_rounds ps [p2_rounds_f_div_2 ps + p2_rounds_p ps..<p2_rounds ps] s3 :: ('e, nat list) outcome) = Inr out"
    using assms(1) by (auto simp: p2_permutation_def Let_def andThen_Inr split: if_splits)
  show ?thesis
    using matmul_external_field [OF s(2)] full_rounds_Inr [OF s(3)] partial_rounds_Inr [OF s(4)] full_rounds_Inr [OF s(5)]
      s(1) assms(2) by auto
qed

section \<open>The products\<close>

lemma mod_sum_eq: "(a :: nat) = b \<Longrightarrow> a mod p = b mod p"
  by simp

text \<open>The values of the products, for any modulus.\<close>

lemma products_2:
  assumes "p2_t ps = 2" "p2_modulus ps = p"
  shows "matmul_external ps [a, b] = Inr [(2 * a + b) mod p, (a + 2 * b) mod p]"
    "matmul_internal ps [a, b] diag = Inr [(2 * a + b) mod p, (a + 3 * b) mod p]"
  using assms by (simp_all add: matmul_external_def matmul_internal_def Let_def s_defs mod_simps)
    (auto intro!: mod_sum_eq)

lemma products_3:
  assumes "p2_t ps = 3" "p2_modulus ps = p"
  shows "matmul_external ps [a, b, c] = Inr [(2 * a + b + c) mod p, (a + 2 * b + c) mod p, (a + b + 2 * c) mod p]"
    "matmul_internal ps [a, b, c] diag = Inr [(2 * a + b + c) mod p, (a + 2 * b + c) mod p, (a + b + 3 * c) mod p]"
  using assms by (simp_all add: matmul_external_def matmul_internal_def Let_def s_defs mod_simps)
    (auto intro!: mod_sum_eq)

lemma row_4:
  "row_product p [m0, m1, m2, m3] (enumerate 0 [a, b, c, d]) 0 = Inr ((m0 * a + m1 * b + m2 * c + m3 * d) mod p)"
  by (simp add: s_defs mod_simps)

text \<open>The cheap block multiplies by the four by four matrix.\<close>

lemma m4_block:
  "m4_loop p [0] [a, b, c, d] = Inr [(5 * a + 7 * b + c + 3 * d) mod p, (4 * a + 6 * b + c + d) mod p,
    (a + 3 * b + 5 * c + 7 * d) mod p, (a + b + 4 * c + 6 * d) mod p]"
proof -
  have add: "s_add p (u mod p) (v mod p) = (u + v) mod p" "s_double p (u mod p) = (2 * u) mod p" for u v
    by (simp_all add: s_defs mod_simps)
  have t: "s_add p u v = (u + v) mod p" "s_double p u = (2 * u) mod p" for u v
    by (simp_all add: s_defs)
  let ?t0 = "s_add p a b" and ?t1 = "s_add p c d"
  have t2: "s_add p (s_double p b) ?t1 = (2 * b + c + d) mod p" unfolding t add by (simp add: mod_simps add.assoc)
  have t3: "s_add p (s_double p d) ?t0 = (a + b + 2 * d) mod p" unfolding t add by (simp add: mod_simps ac_simps)
  have t4: "s_add p (s_double p (s_double p ?t1)) (s_add p (s_double p d) ?t0) = (a + b + 4 * c + 6 * d) mod p"
    unfolding t3 unfolding t(1) [of c d] add by (rule mod_sum_eq) simp
  have t5: "s_add p (s_double p (s_double p ?t0)) (s_add p (s_double p b) ?t1) = (4 * a + 6 * b + c + d) mod p"
    unfolding t2 unfolding t(1) [of a b] add by (rule mod_sum_eq) simp
  have t6: "s_add p ((a + b + 2 * d) mod p) ((4 * a + 6 * b + c + d) mod p) = (5 * a + 7 * b + c + 3 * d) mod p"
    unfolding add by (rule mod_sum_eq) simp
  have t7: "s_add p ((2 * b + c + d) mod p) ((a + b + 4 * c + 6 * d) mod p) = (a + 3 * b + 5 * c + 7 * d) mod p"
    unfolding add by (rule mod_sum_eq) simp
  show ?thesis by (simp add: Let_def t4 t5) (simp add: t2 t3 t6 t7)
qed

lemma internal_block:
  assumes "p2_t ps = 4" "p2_modulus ps = p"
  shows "matmul_internal ps [a, b, c, d] [m0, m1, m2, m3] =
    Inr [((m0 + 1) * a + b + c + d) mod p, (a + (m1 + 1) * b + c + d) mod p,
         (a + b + (m2 + 1) * c + d) mod p, (a + b + c + (m3 + 1) * d) mod p]"
proof -
  have total: "foldl (s_add p) a (take 3 [b, c, d]) = (a + b + c + d) mod p" by (simp add: s_defs mod_simps)
  have el: "s_add p (s_mul p x m) ((a + b + c + d) mod p) = (m * x + (a + b + c + d)) mod p" for x m
    by (simp add: s_defs mod_simps mult.commute)
  show ?thesis using assms
    by (simp add: matmul_internal_def Let_def total [simplified] el) (auto intro!: mod_sum_eq)
qed

section \<open>The error type\<close>

text \<open>The permutation only panics, so that its error type does not matter.\<close>

lemma map_err_sbox_p [simp]: "map_err f (sbox_p ps x) = sbox_p ps x"
  by (simp add: sbox_p_def Let_def map_err_def)

lemma map_err_sbox [simp]: "map_err f (sbox ps xs) = sbox ps xs"
  by (simp add: sbox_def map_err_traverse)

lemma map_err_m4 [simp]: "map_err f (m4_loop p idx input) = m4_loop p idx input"
  by (induction idx arbitrary: input) (simp_all add: Let_def map_err_andThen)

lemma map_err_add_at [simp]: "map_err f (add_at p input idx acc) = add_at p input idx acc"
  by (induction idx arbitrary: acc) (simp_all add: map_err_andThen)

lemma map_err_external [simp]: "map_err f (matmul_external ps st) = matmul_external ps st"
  by (simp add: matmul_external_def matmul_m4_def Let_def map_err_andThen map_err_traverse)

lemma map_err_internal [simp]: "map_err f (matmul_internal ps st diag) = matmul_internal ps st diag"
  by (simp add: matmul_internal_def Let_def map_err_andThen map_err_traverse case_prod_unfold)

lemma map_err_full [simp]: "map_err f (full_rounds ps rs st) = full_rounds ps rs st"
  by (induction rs arbitrary: st) (simp_all add: map_err_andThen)

lemma map_err_partial [simp]: "map_err f (partial_rounds ps rs st) = partial_rounds ps rs st"
  by (induction rs arbitrary: st) (simp_all add: map_err_andThen)

lemma p2_permutation_err: "map_err f (p2_permutation ps st) = p2_permutation ps st"
  by (simp add: p2_permutation_def Let_def map_err_andThen)

lemma p2_permutation_any_error:
  "(p2_permutation ps st :: ('e, nat list) outcome) = Inr out \<Longrightarrow> (p2_permutation ps st :: ('f, nat list) outcome) = Inr out"
  by (metis map_err_simps(1) p2_permutation_err)

section \<open>The permutation is injective\<close>

lemma mod_eq_dvd: "x mod p = y mod p \<Longrightarrow> int p dvd int x - int y" for x y p :: nat
  by (metis mod_eq_dvd_iff of_nat_mod)

lemma dvd_close: "int p dvd int a - int a' \<Longrightarrow> a < p \<Longrightarrow> a' < p \<Longrightarrow> a = a'"
  using zdvd_imp_le [of "int p" "int a - int a'"] zdvd_imp_le [of "int p" "int a' - int a"] dvd_diff_commute [of "int p" "int a" "int a'"]
  by (cases "a < a'"; cases "a' < a") auto

lemma coprime_cancel: "coprime p 210 \<Longrightarrow> int p dvd k * x \<Longrightarrow> k dvd 210 \<Longrightarrow> int p dvd x"
  by (metis coprime_commute coprime_divisors coprime_dvd_mult_right_iff coprime_int_iff dvd_refl of_nat_numeral)

lemma dvd_lin2: "q dvd x \<Longrightarrow> q dvd y \<Longrightarrow> w = k * x + l * y \<Longrightarrow> q dvd w" for w :: int
  by simp

lemma dvd_lin3: "q dvd x \<Longrightarrow> q dvd y \<Longrightarrow> q dvd z \<Longrightarrow> w = k * x + l * y + m * z \<Longrightarrow> q dvd w" for w :: int
  by simp

lemma lin_2:
  fixes a b a' b' p :: nat
  assumes "coprime p 210" "a < p" "b < p" "a' < p" "b' < p" "(2 * a + b) mod p = (2 * a' + b') mod p"
  shows "(a + 2 * b) mod p = (a' + 2 * b') mod p \<Longrightarrow> a = a' \<and> b = b'"
    "(a + 3 * b) mod p = (a' + 3 * b') mod p \<Longrightarrow> a = a' \<and> b = b'"
proof -
  have e: "int p dvd int (2 * a + b) - int (2 * a' + b')" by (rule mod_eq_dvd [OF assms(6)])
  have close: "a = a' \<and> b = b'" if "int p dvd int a - int a'"
  proof -
    have "a = a'" using dvd_close [OF that assms(2,4)] .
    moreover have "int p dvd int b - int b'" using e \<open>a = a'\<close> by simp
    then have "b = b'" using dvd_close assms(3,5) by blast
    ultimately show ?thesis by simp
  qed
  {
    assume "(a + 2 * b) mod p = (a' + 2 * b') mod p"
    then have "int p dvd int (a + 2 * b) - int (a' + 2 * b')" by (rule mod_eq_dvd)
    from dvd_lin2 [OF e this, of "3 * (int a - int a')" 2 "- 1"] have "int p dvd 3 * (int a - int a')" by simp
    from coprime_cancel [OF assms(1) this] have "int p dvd int a - int a'" by simp
    then show "a = a' \<and> b = b'" by (rule close)
  next
    assume "(a + 3 * b) mod p = (a' + 3 * b') mod p"
    then have "int p dvd int (a + 3 * b) - int (a' + 3 * b')" by (rule mod_eq_dvd)
    from dvd_lin2 [OF e this, of "5 * (int a - int a')" 3 "- 1"] have "int p dvd 5 * (int a - int a')" by simp
    from coprime_cancel [OF assms(1) this] have "int p dvd int a - int a'" by simp
    then show "a = a' \<and> b = b'" by (rule close)
  }
qed

lemma lin_3:
  fixes a b c a' b' c' p :: nat
  assumes "coprime p 210" "a < p" "b < p" "c < p" "a' < p" "b' < p" "c' < p"
    and "(2 * a + b + c) mod p = (2 * a' + b' + c') mod p" "(a + 2 * b + c) mod p = (a' + 2 * b' + c') mod p"
  shows "(a + b + 2 * c) mod p = (a' + b' + 2 * c') mod p \<Longrightarrow> a = a' \<and> b = b' \<and> c = c'"
    "(a + b + 3 * c) mod p = (a' + b' + 3 * c') mod p \<Longrightarrow> a = a' \<and> b = b' \<and> c = c'"
proof -
  let ?s = "int a + int b + int c - int a' - int b' - int c'"
  have e: "int p dvd int (2 * a + b + c) - int (2 * a' + b' + c')" "int p dvd int (a + 2 * b + c) - int (a' + 2 * b' + c')"
    by (rule mod_eq_dvd [OF assms(8)]) (rule mod_eq_dvd [OF assms(9)])
  have close: "a = a' \<and> b = b' \<and> c = c'" if s: "int p dvd ?s"
  proof -
    have "int p dvd int a - int a'" by (rule dvd_lin2 [OF e(1) s, of _ 1 "- 1"]) simp
    moreover have "int p dvd int b - int b'" by (rule dvd_lin2 [OF e(2) s, of _ 1 "- 1"]) simp
    moreover have "int p dvd int c - int c'" by (rule dvd_lin3 [OF e s, of _ "- 1" "- 1" 3]) simp
    ultimately show ?thesis using dvd_close assms(2-7) by simp
  qed
  {
    assume "(a + b + 2 * c) mod p = (a' + b' + 2 * c') mod p"
    then have "int p dvd int (a + b + 2 * c) - int (a' + b' + 2 * c')" by (rule mod_eq_dvd)
    from dvd_lin3 [OF e this, of "2 * (2 * ?s)" 1 1 1] have "int p dvd 2 * (2 * ?s)" by simp
    from coprime_cancel [OF assms(1) coprime_cancel [OF assms(1) this]] have "int p dvd ?s" by simp
    then show "a = a' \<and> b = b' \<and> c = c'" by (rule close)
  next
    assume "(a + b + 3 * c) mod p = (a' + b' + 3 * c') mod p"
    then have "int p dvd int (a + b + 3 * c) - int (a' + b' + 3 * c')" by (rule mod_eq_dvd)
    from dvd_lin3 [OF e this, of "7 * ?s" 2 2 1] have "int p dvd 7 * ?s" by simp
    from coprime_cancel [OF assms(1) this] have "int p dvd ?s" by simp
    then show "a = a' \<and> b = b' \<and> c = c'" by (rule close)
  }
qed

lemma external_inj:
  assumes "p2_t ps \<in> {2, 3}" "coprime (p2_modulus ps) 210" "length st = p2_t ps" "length st' = p2_t ps"
    and "in_field (p2_modulus ps) st" "in_field (p2_modulus ps) st'"
    and "(matmul_external ps st :: ('e, nat list) outcome) = matmul_external ps st'"
  shows "st = st'"
proof -
  consider "p2_t ps = 2" | "p2_t ps = 3" using assms(1) by auto
  then show ?thesis
  proof cases
    case 1
    obtain a b a' b' where st: "st = [a, b]" "st' = [a', b']" using list_2 assms(3,4) 1 by metis
    have lt: "a < p2_modulus ps" "b < p2_modulus ps" "a' < p2_modulus ps" "b' < p2_modulus ps"
      using assms(5,6) by (simp_all add: st)
    from lin_2(1) [OF assms(2) lt] assms(7) [unfolded st products_2 [OF 1 refl]]
    show ?thesis by (simp add: st)
  next
    case 2
    obtain a b c a' b' c' where st: "st = [a, b, c]" "st' = [a', b', c']" using list_3 assms(3,4) 2 by metis
    have lt: "a < p2_modulus ps" "b < p2_modulus ps" "c < p2_modulus ps" "a' < p2_modulus ps" "b' < p2_modulus ps" "c' < p2_modulus ps"
      using assms(5,6) by (simp_all add: st)
    from lin_3(1) [OF assms(2) lt] assms(7) [unfolded st products_3 [OF 2 refl]]
    show ?thesis by (simp add: st)
  qed
qed

lemma internal_inj:
  assumes "p2_t ps \<in> {2, 3}" "coprime (p2_modulus ps) 210" "length st = p2_t ps" "length st' = p2_t ps"
    and "in_field (p2_modulus ps) st" "in_field (p2_modulus ps) st'"
    and "(matmul_internal ps st diag :: ('e, nat list) outcome) = matmul_internal ps st' diag"
  shows "st = st'"
proof -
  consider "p2_t ps = 2" | "p2_t ps = 3" using assms(1) by auto
  then show ?thesis
  proof cases
    case 1
    obtain a b a' b' where st: "st = [a, b]" "st' = [a', b']" using list_2 assms(3,4) 1 by metis
    have lt: "a < p2_modulus ps" "b < p2_modulus ps" "a' < p2_modulus ps" "b' < p2_modulus ps"
      using assms(5,6) by (simp_all add: st)
    from lin_2(2) [OF assms(2) lt] assms(7) [unfolded st products_2 [OF 1 refl]]
    show ?thesis by (simp add: st)
  next
    case 2
    obtain a b c a' b' c' where st: "st = [a, b, c]" "st' = [a', b', c']" using list_3 assms(3,4) 2 by metis
    have lt: "a < p2_modulus ps" "b < p2_modulus ps" "c < p2_modulus ps" "a' < p2_modulus ps" "b' < p2_modulus ps" "c' < p2_modulus ps"
      using assms(5,6) by (simp_all add: st)
    from lin_3(2) [OF assms(2) lt] assms(7) [unfolded st products_3 [OF 2 refl]]
    show ?thesis by (simp add: st)
  qed
qed

lemma add_const_inj: "x < p \<Longrightarrow> y < p \<Longrightarrow> s_add p x c = s_add p y c \<Longrightarrow> x = y"
  using mod_eq_dvd [of "x + c" p "y + c"] dvd_close [of p x y] by (simp add: s_add_def)

lemma zip_add_inj:
  assumes "length st = length st'" "length st \<le> length rcs" "in_field p st" "in_field p st'"
    and "map (\<lambda>(a, b). s_add p a b) (zip st rcs) = map (\<lambda>(a, b). s_add p a b) (zip st' rcs)"
  shows "st = st'"
  using assms
proof (induction st st' arbitrary: rcs rule: list_induct2)
  case (Cons x xs y ys)
  then show ?case by (cases rcs) (auto dest: add_const_inj)
qed simp

definition injective_params :: "p2_params \<Rightarrow> bool" where
  "injective_params ps \<longleftrightarrow> params_ok ps \<and> p2_t ps \<in> {2, 3} \<and> coprime (p2_modulus ps) 210 \<and>
     inj_on (sbox_val ps) {..<p2_modulus ps}"

lemma map_inj_field:
  "inj_on f {..<p} \<Longrightarrow> in_field p xs \<Longrightarrow> in_field p ys \<Longrightarrow> map f xs = map f ys \<Longrightarrow> xs = ys"
  by (rule map_inj_on) (auto intro: inj_on_subset)

lemma add_rc_field: "0 < p2_modulus ps \<Longrightarrow> in_field (p2_modulus ps) (add_rc ps st rcs)"
  by (auto simp: add_rc_def)

lemma full_rounds_inj:
  assumes "injective_params ps" "\<forall>r \<in> set rs. r < p2_rounds ps \<and> full_at ps r" "length st = p2_t ps" "length st' = p2_t ps"
    and "in_field (p2_modulus ps) st" "in_field (p2_modulus ps) st'"
    and "(full_rounds ps rs st :: ('e, nat list) outcome) = full_rounds ps rs st'"
  shows "st = st'"
  using assms(2-)
proof (induction rs arbitrary: st st')
  case (Cons r rs)
  have ok: "params_ok ps" "p2_t ps \<in> {2, 3}" "coprime (p2_modulus ps) 210" "inj_on (sbox_val ps) {..<p2_modulus ps}"
    and d: "p2_d ps \<in> {3, 5, 7}" "p2_t ps \<in> widths" "0 < p2_modulus ps"
    using assms(1) by (auto simp: injective_params_def params_ok_def)
  let ?rc = "p2_round_constants ps ! r" and ?s = "\<lambda>st. map (sbox_val ps) (add_rc ps st (p2_round_constants ps ! r))"
  have r: "r < length (p2_round_constants ps)" "p2_t ps \<le> length ?rc" using ok(1) Cons.prems(1) by (auto simp: params_ok_def)
  have len: "length (?s st) = p2_t ps" "length (?s st') = p2_t ps" using r(2) Cons.prems(2,3) by (simp_all add: add_rc_def)
  have fld: "in_field (p2_modulus ps) (?s u)" for u using d(3) by (auto simp: sbox_val_def)
  obtain o1 where o1: "(matmul_external ps (?s st) :: ('e, nat list) outcome) = Inr o1" "length o1 = p2_t ps" "in_field (p2_modulus ps) o1"
    using matmul_external_ok [OF d(2) len(1) d(3)] by blast
  obtain o2 where o2: "(matmul_external ps (?s st') :: ('e, nat list) outcome) = Inr o2" "length o2 = p2_t ps" "in_field (p2_modulus ps) o2"
    using matmul_external_ok [OF d(2) len(2) d(3)] by blast
  have "(full_rounds ps rs o1 :: ('e, nat list) outcome) = full_rounds ps rs o2"
    using Cons.prems(6) r(1) o1(1) o2(1) by (simp add: sbox_ok [OF d(1)])
  then have "o1 = o2" using Cons.IH Cons.prems(1) o1(2,3) o2(2,3) by simp
  then have "?s st = ?s st'"
    using external_inj [OF ok(2,3) len fld fld] o1(1) o2(1) by metis
  then have "add_rc ps st ?rc = add_rc ps st' ?rc"
    using map_inj_field [OF ok(4) add_rc_field [OF d(3)] add_rc_field [OF d(3)]] by blast
  then show ?case
    using zip_add_inj [of st st' ?rc "p2_modulus ps"] Cons.prems(2-5) r(2) by (simp add: add_rc_def)
qed simp

lemma partial_rounds_inj:
  assumes "injective_params ps" "\<forall>r \<in> set rs. r < p2_rounds ps" "length st = p2_t ps" "length st' = p2_t ps"
    and "in_field (p2_modulus ps) st" "in_field (p2_modulus ps) st'"
    and "(partial_rounds ps rs st :: ('e, nat list) outcome) = partial_rounds ps rs st'"
  shows "st = st'"
  using assms(2-)
proof (induction rs arbitrary: st st')
  case (Cons r rs)
  have ok: "params_ok ps" "p2_t ps \<in> {2, 3}" "coprime (p2_modulus ps) 210" "inj_on (sbox_val ps) {..<p2_modulus ps}"
    and d: "p2_d ps \<in> {3, 5, 7}" "p2_t ps \<in> widths" "0 < p2_modulus ps" "p2_t ps \<le> length (p2_mat_internal_diag_m_1 ps)"
    using assms(1) by (auto simp: injective_params_def params_ok_def)
  let ?rc = "p2_round_constants ps ! r" and ?p = "p2_modulus ps" and ?diag = "p2_mat_internal_diag_m_1 ps"
  let ?y = "\<lambda>st. sbox_val ps (s_add (p2_modulus ps) (st ! 0) (p2_round_constants ps ! r ! 0))"
  let ?s = "\<lambda>st. st[0 := ?y st]"
  have r: "r < length (p2_round_constants ps)" "0 < length ?rc" using ok(1) Cons.prems(1) by (auto simp: params_ok_def)
  have t: "0 < length st" "0 < length st'" using ok(2) Cons.prems(2,3) by auto
  have fld: "in_field ?p (?s u)" if "in_field ?p u" for u
  proof -
    have "set (?s u) \<subseteq> {..<?p}" by (rule set_update_subsetI) (use that d(3) in \<open>auto simp: sbox_val_def\<close>)
    then show ?thesis by auto
  qed
  have len: "length (?s st) = p2_t ps" "length (?s st') = p2_t ps" using Cons.prems(2,3) by simp_all
  obtain o1 where o1: "(matmul_internal ps (?s st) ?diag :: ('e, nat list) outcome) = Inr o1" "length o1 = p2_t ps" "in_field ?p o1"
    using matmul_internal_ok [OF d(2) len(1) d(3,4) fld] Cons.prems(4) by blast
  obtain o2 where o2: "(matmul_internal ps (?s st') ?diag :: ('e, nat list) outcome) = Inr o2" "length o2 = p2_t ps" "in_field ?p o2"
    using matmul_internal_ok [OF d(2) len(2) d(3,4) fld] Cons.prems(5) by blast
  have "(partial_rounds ps rs o1 :: ('e, nat list) outcome) = partial_rounds ps rs o2"
    using Cons.prems(6) r o1(1) o2(1) t by (simp add: sbox_p_ok [OF d(1)])
  then have "o1 = o2" using Cons.IH Cons.prems(1) o1(2,3) o2(2,3) by simp
  then have e: "?s st = ?s st'"
    using internal_inj [OF ok(2,3) len fld fld] Cons.prems(4,5) o1(1) o2(1) by metis
  then have "?y st = ?y st'" using t by (metis nth_list_update_eq)
  then have "s_add ?p (st ! 0) (?rc ! 0) = s_add ?p (st' ! 0) (?rc ! 0)"
    using ok(4) d(3) by (auto simp: inj_on_def)
  then have "st ! 0 = st' ! 0" using add_const_inj Cons.prems(4,5) t by (metis nth_mem)
  then have "st' = (?s st')[0 := st ! 0]" by (metis list_update_id list_update_overwrite)
  moreover have "st = (?s st)[0 := st ! 0]" by simp
  ultimately show ?case using e by metis
qed simp

lemma p2_permutation_inj:
  assumes "injective_params ps" "length st = p2_t ps" "length st' = p2_t ps"
    and "in_field (p2_modulus ps) st" "in_field (p2_modulus ps) st'"
    and "(p2_permutation ps st :: ('e, nat list) outcome) = p2_permutation ps st'"
  shows "st = st'"
proof -
  have ok: "params_ok ps" "p2_t ps \<in> {2, 3}" "coprime (p2_modulus ps) 210"
    and d: "p2_t ps \<in> widths" "0 < p2_modulus ps" "p2_rounds_f_div_2 ps + p2_rounds_p ps \<le> p2_rounds ps"
    using assms(1) by (auto simp: injective_params_def params_ok_def)
  let ?p = "p2_modulus ps" and ?a = "[0..<p2_rounds_f_div_2 ps]"
    and ?b = "[p2_rounds_f_div_2 ps..<p2_rounds_f_div_2 ps + p2_rounds_p ps]"
    and ?c = "[p2_rounds_f_div_2 ps + p2_rounds_p ps..<p2_rounds ps]"
  have rs: "\<forall>r \<in> set ?a. r < p2_rounds ps \<and> full_at ps r" "\<forall>r \<in> set ?b. r < p2_rounds ps"
    "\<forall>r \<in> set ?c. r < p2_rounds ps \<and> full_at ps r"
    using d(3) by (auto simp: full_at_def)
  have steps: "\<exists>s1 s2 s3. (matmul_external ps u :: ('e, nat list) outcome) = Inr s1 \<and> length s1 = p2_t ps \<and> in_field ?p s1 \<and>
      (full_rounds ps ?a s1 :: ('e, nat list) outcome) = Inr s2 \<and> length s2 = p2_t ps \<and> in_field ?p s2 \<and>
      (partial_rounds ps ?b s2 :: ('e, nat list) outcome) = Inr s3 \<and> length s3 = p2_t ps \<and> in_field ?p s3 \<and>
      (p2_permutation ps u :: ('e, nat list) outcome) = full_rounds ps ?c s3" if len: "length u = p2_t ps" for u
  proof -
    obtain s1 where s1: "(matmul_external ps u :: ('e, nat list) outcome) = Inr s1" "length s1 = p2_t ps" "in_field ?p s1"
      using matmul_external_ok [OF d(1) len d(2)] by blast
    obtain s2 where s2: "(full_rounds ps ?a s1 :: ('e, nat list) outcome) = Inr s2" "length s2 = p2_t ps" "in_field ?p s2"
      using full_rounds_ok [OF ok(1) rs(1) s1(2,3)] by blast
    obtain s3 where s3: "(partial_rounds ps ?b s2 :: ('e, nat list) outcome) = Inr s3" "length s3 = p2_t ps" "in_field ?p s3"
      using partial_rounds_ok [OF ok(1) rs(2) s2(2,3)] by blast
    have "(p2_permutation ps u :: ('e, nat list) outcome) = full_rounds ps ?c s3"
      using len s1(1) s2(1) s3(1) by (simp add: p2_permutation_def Let_def)
    then show ?thesis using s1 s2 s3 by blast
  qed
  obtain s1 s2 s3 where s: "(matmul_external ps st :: ('e, nat list) outcome) = Inr s1" "length s1 = p2_t ps" "in_field ?p s1"
    "(full_rounds ps ?a s1 :: ('e, nat list) outcome) = Inr s2" "length s2 = p2_t ps" "in_field ?p s2"
    "(partial_rounds ps ?b s2 :: ('e, nat list) outcome) = Inr s3" "length s3 = p2_t ps" "in_field ?p s3"
    "(p2_permutation ps st :: ('e, nat list) outcome) = full_rounds ps ?c s3"
    using steps [OF assms(2)] by blast
  obtain u1 u2 u3 where u: "(matmul_external ps st' :: ('e, nat list) outcome) = Inr u1" "length u1 = p2_t ps" "in_field ?p u1"
    "(full_rounds ps ?a u1 :: ('e, nat list) outcome) = Inr u2" "length u2 = p2_t ps" "in_field ?p u2"
    "(partial_rounds ps ?b u2 :: ('e, nat list) outcome) = Inr u3" "length u3 = p2_t ps" "in_field ?p u3"
    "(p2_permutation ps st' :: ('e, nat list) outcome) = full_rounds ps ?c u3"
    using steps [OF assms(3)] by blast
  have "s3 = u3" by (rule full_rounds_inj [where 'e = 'e, OF assms(1) rs(3) s(8) u(8) s(9) u(9)]) (use assms(6) s(10) u(10) in simp)
  then have "s2 = u2" using partial_rounds_inj [where 'e = 'e, OF assms(1) rs(2) s(5) u(5) s(6) u(6)] s(7) u(7) by simp
  then have "s1 = u1" using full_rounds_inj [where 'e = 'e, OF assms(1) rs(1) s(2) u(2) s(3) u(3)] s(4) u(4) by simp
  then show ?thesis using external_inj [where 'e = 'e, OF ok(2,3) assms(2-5)] s(1) u(1) by simp
qed

section \<open>Properties\<close>

text \<open>
  Property C33: for well-formed parameters of any width the code knows, the permutation panics on an input of
  another length, and otherwise returns as many elements as it got, all below the modulus.
\<close>

theorem p2_permutation_type:
  assumes "params_ok ps"
  shows "(if length st = p2_t ps
    then \<exists>out. p2_permutation ps st = (Inr out :: ('e, nat list) outcome) \<and> length out = p2_t ps \<and> (\<forall>x \<in> set out. x < p2_modulus ps)
    else p2_permutation ps st = (Inl Panic :: ('e, nat list) outcome))"
  using p2_permutation_ok [where 'e = 'e, OF assms, of st] by (simp add: p2_permutation_def)

definition small_params :: p2_params where
  "small_params =
     \<lparr>p2_modulus = 13, p2_t = 2, p2_d = 5, p2_rounds_f_div_2 = 1, p2_rounds_p = 1, p2_rounds = 3,
      p2_mat_internal_diag_m_1 = [1, 2], p2_mat_internal = [[2, 1], [1, 3]], p2_round_constants = [[1, 2], [3], [4, 5]]\<rparr>"

lemma small_params_ok: "injective_params small_params"
proof -
  have "inj_on (\<lambda>x. x ^ 5 mod 13) {..<13 :: nat}"
  proof -
    have set: "{..<13 :: nat} = set [0, 1, 2, 3, 4, 5, 6, 7, 8, 9, 10, 11, 12]" by (simp add: set_eq_iff, presburger)
    have "distinct (map (\<lambda>x :: nat. x ^ 5 mod 13) [0, 1, 2, 3, 4, 5, 6, 7, 8, 9, 10, 11, 12])" by simp
    then show ?thesis unfolding set by (simp only: distinct_map)
  qed
  moreover have "coprime (13 :: nat) 210" by (simp add: coprime_iff_gcd_eq_1 gcd_non_0_nat)
  ultimately show ?thesis
    by (simp add: injective_params_def params_ok_def small_params_def widths_def full_at_def sbox_val_def [abs_def] less_Suc_eq numeral_3_eq_3 lessThan_atLeast0)
qed

theorem p2_permutation_type_witness:
  "\<exists>out. p2_permutation small_params [7, 9] = (Inr out :: (unit, nat list) outcome) \<and> length out = 2"
  using p2_permutation_type [of small_params "[7, 9]", where 'e = unit] small_params_ok
  by (auto simp: injective_params_def) (auto simp: small_params_def)

text \<open>
  Property C34: with two or three elements, over a field whose characteristic is none of 2, 3, 5 and 7 and on which
  the power map of the S-box is injective, no two states are permuted to the same state.
\<close>

theorem p2_permutation_injective:
  assumes "params_ok ps" "p2_t ps \<in> {2, 3}" "coprime (p2_modulus ps) 210"
    and "inj_on (\<lambda>x. x ^ p2_d ps mod p2_modulus ps) {..<p2_modulus ps}"
    and "length st = p2_t ps" "length st' = p2_t ps" "\<forall>x \<in> set st. x < p2_modulus ps" "\<forall>x \<in> set st'. x < p2_modulus ps"
  shows "p2_permutation ps st = (p2_permutation ps st' :: ('e, nat list) outcome) \<longleftrightarrow> st = st'"
proof -
  have "injective_params ps" using assms(1-4) by (simp add: injective_params_def sbox_val_def [abs_def])
  then show ?thesis using p2_permutation_inj [where 'e = 'e] assms(5-) by blast
qed

theorem p2_permutation_injective_witness:
  "p2_permutation small_params [7, 9] \<noteq> (p2_permutation small_params [9, 7] :: (unit, nat list) outcome)"
proof -
  have "params_ok small_params" "p2_t small_params = 2" "coprime (p2_modulus small_params) 210" "p2_modulus small_params = 13"
    "inj_on (\<lambda>x. x ^ p2_d small_params mod p2_modulus small_params) {..<p2_modulus small_params}"
    using small_params_ok by (simp_all add: injective_params_def sbox_val_def [abs_def] small_params_def)
  then show ?thesis using p2_permutation_injective [of small_params "[7, 9]" "[9, 7]", where 'e = unit] by simp
qed

end
