(* ===== verification/ClientCrypto.thy ===== *)
theory ClientCrypto imports Serialization ZkhashBn256 begin

text \<open>
  The hashes of the off-chain code, from \<^verbatim>\<open>app/crates/core/prover/src/crypto.rs\<close>, over the
  permutations of the crate \<^verbatim>\<open>poseidon2\<close>: compression and hashing of scalars, public keys,
  commitments, signatures and nullifiers of byte strings, and the leaf of the membership tree.
  They are compared with the hashes of the contracts, whose host function is taken to compute the
  permutation of the crate (\<open>crate_perm\<close>).
\<close>

section \<open>Hashes of scalars\<close>

definition ZERO_LEAF_BYTES :: "byte list" where
  "ZERO_LEAF_BYTES =
     [37, 48, 34, 136, 219, 153, 53, 3, 68, 151, 65, 131, 206, 49, 13, 99, 181, 58, 187, 158, 240,
      248, 87, 87, 83, 238, 211, 110, 1, 24, 249, 206]"

definition poseidon2_hash2_internal :: "nat \<Rightarrow> nat \<Rightarrow> nat option \<Rightarrow> (prover_error, nat) outcome" where
  "poseidon2_hash2_internal a b domain =
     andThen POSEIDON2_BN256_PARAMS_3 (\<lambda>poseidon2.
     let input = (case domain of Some d \<Rightarrow> [a, b, d] | None \<Rightarrow> [a, b, 0]) in
     andThen (p2_permutation poseidon2 input) (\<lambda>perm.
     vec_index perm 0))"

definition poseidon2_hash3_internal :: "nat \<Rightarrow> nat \<Rightarrow> nat \<Rightarrow> nat option \<Rightarrow> (prover_error, nat) outcome" where
  "poseidon2_hash3_internal a b c domain =
     andThen POSEIDON2_BN256_PARAMS_4 (\<lambda>poseidon2.
     let input = (case domain of Some d \<Rightarrow> [a, b, c, d] | None \<Rightarrow> [a, b, c, 0]) in
     andThen (p2_permutation poseidon2 input) (\<lambda>perm.
     vec_index perm 0))"

definition poseidon2_compression :: "nat \<Rightarrow> nat \<Rightarrow> (prover_error, nat) outcome" where
  "poseidon2_compression left right =
     andThen POSEIDON2_BN256_PARAMS_2 (\<lambda>poseidon2.
     let input = [left, right] in
     andThen (p2_permutation poseidon2 input) (\<lambda>perm.
     andThen (vec_index perm 0) (\<lambda>x. Inr (s_add bn_p x left))))"

section \<open>Hashes of byte strings\<close>

definition client_hash2 :: "byte list \<Rightarrow> byte list \<Rightarrow> byte \<Rightarrow> (prover_error, byte list) outcome" where
  "client_hash2 input0 input1 domain_separation =
     andThen (bytes_to_scalar input0) (\<lambda>a.
     andThen (bytes_to_scalar input1) (\<lambda>b.
     let domain = unat domain_separation mod bn_p in
     andThen (poseidon2_hash2_internal a b (Some domain)) scalar_to_bytes))"

definition derive_public_key_internal :: "nat \<Rightarrow> (prover_error, nat) outcome" where
  "derive_public_key_internal private_key = poseidon2_hash2_internal private_key 0 (Some 3)"

definition derive_public_key :: "byte list \<Rightarrow> (prover_error, byte list) outcome" where
  "derive_public_key private_key =
     andThen (bytes_to_scalar private_key) (\<lambda>sk.
     andThen (derive_public_key_internal sk) scalar_to_bytes)"

definition compute_commitment :: "byte list \<Rightarrow> byte list \<Rightarrow> byte list \<Rightarrow> (prover_error, byte list) outcome" where
  "compute_commitment amount public_key blinding =
     andThen (bytes_to_scalar amount) (\<lambda>amt.
     andThen (bytes_to_scalar public_key) (\<lambda>pk.
     andThen (bytes_to_scalar blinding) (\<lambda>blind.
     andThen (poseidon2_hash3_internal amt pk blind (Some 1)) scalar_to_bytes)))"

definition compute_signature :: "byte list \<Rightarrow> byte list \<Rightarrow> byte list \<Rightarrow> (prover_error, byte list) outcome" where
  "compute_signature private_key commitment merkle_path =
     andThen (bytes_to_scalar private_key) (\<lambda>sk.
     andThen (bytes_to_scalar commitment) (\<lambda>comm.
     andThen (bytes_to_scalar merkle_path) (\<lambda>path.
     andThen (poseidon2_hash3_internal sk comm path (Some 4)) scalar_to_bytes)))"

definition compute_nullifier :: "byte list \<Rightarrow> byte list \<Rightarrow> byte list \<Rightarrow> (prover_error, byte list) outcome" where
  "compute_nullifier commitment path_indices signature =
     andThen (bytes_to_scalar commitment) (\<lambda>comm.
     andThen (bytes_to_scalar path_indices) (\<lambda>indices.
     andThen (bytes_to_scalar signature) (\<lambda>sig.
     andThen (poseidon2_hash3_internal comm indices sig (Some 2)) scalar_to_bytes)))"

definition client_zero_leaf :: "byte list" where
  "client_zero_leaf = ZERO_LEAF_BYTES"

definition asp_membership_leaf :: "byte list \<Rightarrow> field \<Rightarrow> (prover_error, field) outcome" where
  "asp_membership_leaf note_pubkey membership_blinding =
     andThen (client_hash2 note_pubkey (f_to_le_bytes membership_blinding) 1) (\<lambda>leaf_le.
     andThen (if length leaf_le = 32 then Inr leaf_le else Inl (Fail AspLeafBytes)) (\<lambda>leaf_le.
     map_err AmountError (f_try_from_le_bytes leaf_le)))"

section \<open>The hashes return\<close>

lemma permutation_head:
  assumes "params_ok ps" "length input = p2_t ps" "0 < p2_t ps"
  shows "\<exists>out. (p2_permutation ps input :: ('e, nat list) outcome) = Inr out \<and> length out = p2_t ps \<and>
    (vec_index out 0 :: ('f, nat) outcome) = Inr (out ! 0) \<and> out ! 0 < p2_modulus ps"
proof -
  obtain out where out: "(p2_permutation ps input :: ('e, nat list) outcome) = Inr out" "length out = p2_t ps"
    "\<forall>x \<in> set out. x < p2_modulus ps"
    using p2_permutation_ok [where 'e = 'e, OF assms(1,2)] by blast
  then show ?thesis using assms(3) by auto
qed

lemma hash3_ok: "\<exists>h. poseidon2_hash3_internal a b c domain = Inr h \<and> h < bn_p"
proof -
  let ?in = "case domain of Some d \<Rightarrow> [a, b, c, d] | None \<Rightarrow> [a, b, c, 0]"
  have "length ?in = 4" by (simp split: option.splits)
  then show ?thesis
    using permutation_head [OF bn_instances_ok(3), of ?in, where 'e = prover_error and 'f = prover_error]
    by (auto simp: poseidon2_hash3_internal_def bn_params)
qed

lemma hash2_ok: "\<exists>h. poseidon2_hash2_internal a b domain = Inr h \<and> h < bn_p"
proof -
  let ?in = "case domain of Some d \<Rightarrow> [a, b, d] | None \<Rightarrow> [a, b, 0]"
  have "length ?in = 3" by (simp split: option.splits)
  then show ?thesis
    using permutation_head [OF bn_instances_ok(2), of ?in, where 'e = prover_error and 'f = prover_error]
    by (auto simp: poseidon2_hash2_internal_def bn_params)
qed

text \<open>The bytes of a hash are those of a field element.\<close>

lemma scalar_bytes_field: "s < bn_p \<Longrightarrow> f_try_from_le_bytes (le_bytes 32 s) = Inr (Field (word_of_nat s))"
  by (simp add: f_try_from_le_bytes_def f_try_from_u256_def from_le_le_val le_val_le_bytes_p word_le_nat_alt unat_of_nat
      del: le_bytes.simps)

lemma hash3_bytes:
  "\<exists>s < bn_p. andThen (poseidon2_hash3_internal a b c d) scalar_to_bytes = Inr (le_bytes 32 s) \<and>
    f_try_from_le_bytes (le_bytes 32 s) = Inr (Field (word_of_nat s))"
  using hash3_ok [of a b c d] scalar_bytes_field by (auto simp: scalar_to_bytes_val simp del: le_bytes.simps)

lemma bytes_to_scalar_cases:
  "bytes_to_scalar bs = (if length bs = 32 then Inr (le_val bs mod bn_p) else Inl (Fail (ExpectedBytes (length bs))))"
  by (simp add: scalar_bytes_defs)

text \<open>
  The hashes of three byte strings (commitments, signatures, nullifiers) fail exactly when one of
  them is not thirty-two bytes long, naming the length of the first such one, and otherwise give the
  thirty-two bytes of an element of the field.
\<close>

theorem client_hash_outcome:
  shows "\<forall>f \<in> {compute_commitment, compute_signature, compute_nullifier}.
    (case filter (\<lambda>bs. length bs \<noteq> 32) [a, b, c] of
       bad # _ \<Rightarrow> f a b c = Inl (Fail (ExpectedBytes (length bad)))
     | [] \<Rightarrow> \<exists>s < bn_p. f a b c = Inr (le_bytes 32 s) \<and> f_try_from_le_bytes (le_bytes 32 s) = Inr (Field (word_of_nat s)))"
  using hash3_bytes by (auto simp: compute_commitment_def compute_signature_def compute_nullifier_def bytes_to_scalar_cases simp del: le_bytes.simps)

theorem client_hash_outcome_witness:
  "\<exists>s < bn_p. compute_commitment (replicate 32 1) (replicate 32 2) (replicate 32 3) = Inr (le_bytes 32 s)"
  using client_hash_outcome [of "replicate 32 1" "replicate 32 2" "replicate 32 3"] by auto

section \<open>The hashes of the contracts\<close>

lemma client_compression_hash_of:
  "poseidon2_compression (unat l) (unat r) = Inr (unat (hash_of crate_perm l r))"
proof -
  obtain out where out: "(p2_permutation (bn_instance 2 MAT_DIAG2_M_1 MAT_INTERNAL2 RC2) [unat l, unat r] :: (unit, nat list) outcome) = Inr out"
    "length out = 2" "\<forall>x \<in> set out. x < bn_p"
    using p2_permutation_ok [where 'e = unit, OF bn_instances_ok(1), of "[unat l, unat r]"] by auto
  then obtain x y where xy: "out = [x, y]" "x < bn_p" using list_2 by fastforce
  have "(p2_permutation (bn_instance 2 MAT_DIAG2_M_1 MAT_INTERNAL2 RC2) [unat l, unat r] :: (prover_error, nat list) outcome) = Inr [x, y]"
    using p2_permutation_any_error [OF out(1)] by (simp add: xy)
  then have "poseidon2_compression (unat l) (unat r) = Inr (s_add bn_p x (unat l))"
    by (simp add: poseidon2_compression_def bn_params)
  moreover have "hash_of crate_perm l r = word_of_nat ((x + unat l) mod bn_p)"
    using xy(2) by (simp add: hash_of_def crate_perm_two out(1) xy(1) Let_def unat_of_nat)
  ultimately show ?thesis by (simp add: s_add_def unat_of_nat)
qed

lemma client_hash2_contract:
  assumes "a < bn256_modulus" "b < bn256_modulus" "d < bn256_modulus"
  shows "\<exists>h < bn_p. poseidon2_hash2_internal (unat a) (unat b) (Some (unat d)) = Inr h \<and>
    poseidon2_hash2 crate_perm a b (Some d) = Inr (word_of_nat h)"
proof -
  obtain out where out: "(p2_permutation (bn_instance 3 MAT_DIAG3_M_1 MAT_INTERNAL3 RC3) [unat a, unat b, unat d] :: (unit, nat list) outcome) = Inr out"
    "length out = 3" "\<forall>x \<in> set out. x < bn_p"
    using p2_permutation_ok [where 'e = unit, OF bn_instances_ok(2), of "[unat a, unat b, unat d]"] by auto
  then obtain x y z where xy: "out = [x, y, z]" "x < bn_p" using list_3 by fastforce
  have "(p2_permutation (bn_instance 3 MAT_DIAG3_M_1 MAT_INTERNAL3 RC3) [unat a, unat b, unat d] :: (prover_error, nat list) outcome) = Inr [x, y, z]"
    using p2_permutation_any_error [OF out(1)] by (simp add: xy)
  then have "poseidon2_hash2_internal (unat a) (unat b) (Some (unat d)) = Inr x"
    by (simp add: poseidon2_hash2_internal_def bn_params)
  moreover have "poseidon2_hash2 crate_perm a b (Some d) = Inr (word_of_nat x)"
    using assms by (simp add: poseidon2_hash2_def crate_perm_three out(1) xy(1) not_le [symmetric] vec_get_def)
  ultimately show ?thesis using xy(2) by blast
qed

text \<open>
  Property C30: on field elements the off-chain compression and hash with a domain separator return, and they are
  the hashes the contracts compute from their own round constants with a host function that follows
  the crate; the tables of the contracts and of the crate differ (row 29 for two elements) only where
  the permutation does not look.
\<close>

theorem client_hashes_are_contract_hashes:
  assumes "l < bn256_modulus" "r < bn256_modulus" "d < bn256_modulus"
  shows "\<exists>c h. poseidon2_compression (unat l) (unat r) = Inr (unat c) \<and>
    poseidon2_compress crate_perm l r = (Inr c :: ('e, u256) outcome) \<and> c < bn256_modulus \<and>
    poseidon2_hash2_internal (unat l) (unat r) (Some (unat d)) = Inr (unat h) \<and>
    poseidon2_hash2 crate_perm l r (Some d) = (Inr h :: ('e, u256) outcome) \<and> h < bn256_modulus"
proof -
  obtain h where h: "h < bn_p" "poseidon2_hash2_internal (unat l) (unat r) (Some (unat d)) = Inr h"
    "(poseidon2_hash2 crate_perm l r (Some d) :: ('e, u256) outcome) = Inr (word_of_nat h)"
    using client_hash2_contract [OF assms] by blast
  have "poseidon2_compress crate_perm l r = (Inr (hash_of crate_perm l r) :: ('e, u256) outcome)"
    by (rule compress_ok [OF crate_perm_host_ok assms(1,2)])
  moreover have "unat (word_of_nat h :: u256) = h" using h(1) by (simp add: unat_of_nat)
  ultimately show ?thesis
    using client_compression_hash_of [of l r] hash_of_less [of crate_perm l r] h
    by (metis below_modulus)
qed

theorem client_hashes_are_contract_hashes_witness:
  "\<exists>c. poseidon2_compression 1 2 = Inr (unat c) \<and> poseidon2_compress crate_perm 1 2 = (Inr c :: (unit, u256) outcome)"
  using client_hashes_are_contract_hashes [of 1 2 3, where 'e = unit] by (auto simp: below_modulus)

text \<open>The empty leaf of the off-chain trees.\<close>

lemma client_zero_leaf_field:
  "f_try_from_le_bytes (rev client_zero_leaf) = Inr (Field (get_zeroes ! 0))" "length client_zero_leaf = 32"
  by (simp_all add: client_zero_leaf_def ZERO_LEAF_BYTES_def f_try_from_le_bytes_def f_try_from_u256_def
      bn254_modulus_u256_eq get_zeroes_def word_le_nat_alt)

text \<open>
  The membership leaf the client computes for a key and a blinding is the hash, with separator one,
  that the contract's hash function gives for the same two field elements.
\<close>

theorem asp_leaf_is_contract_hash:
  assumes "length pk = 32" "le_val pk < bn_p" "f_canonical blinding"
  shows "\<exists>leaf. asp_membership_leaf pk blinding = Inr (Field leaf) \<and>
    poseidon2_hash2 crate_perm (from_le pk) (f_val blinding) (Some 1) = (Inr leaf :: ('e, u256) outcome)"
proof -
  have pk: "unat (from_le pk :: u256) = le_val pk" using assms(2) by (simp add: from_le_le_val unat_of_nat)
  have bl: "f_val blinding < bn256_modulus" using assms(3) by (simp add: below_modulus f_canonical_nat)
  have pkm: "(from_le pk :: u256) < bn256_modulus" using assms(2) pk by (simp add: below_modulus)
  obtain h where h: "h < bn_p" "poseidon2_hash2_internal (le_val pk) (unat (f_val blinding)) (Some 1) = Inr h"
    "(poseidon2_hash2 crate_perm (from_le pk) (f_val blinding) (Some 1) :: ('e, u256) outcome) = Inr (word_of_nat h)"
    using client_hash2_contract [OF pkm bl, of 1] by (auto simp: pk below_modulus)
  have "bytes_to_scalar pk = Inr (le_val pk)" using assms(1,2) by (simp add: bytes_to_scalar_cases)
  moreover have "bytes_to_scalar (f_to_le_bytes blinding) = Inr (unat (f_val blinding))"
    using bytes_to_scalar_to_bytes [of "unat (f_val blinding)"] assms(3)
    by (simp add: f_to_le_bytes_def to_le_le_bytes f_canonical_nat)
  ultimately have "asp_membership_leaf pk blinding = Inr (Field (word_of_nat h))"
    using h(1,2) scalar_bytes_field [OF h(1)]
    by (simp add: asp_membership_leaf_def client_hash2_def scalar_to_bytes_val Let_def del: le_bytes.simps)
  then show ?thesis using h(3) by blast
qed

theorem asp_leaf_is_contract_hash_witness:
  "\<exists>leaf. asp_membership_leaf (le_bytes 32 7) F_ONE = Inr (Field leaf)"
proof -
  have "le_val (le_bytes 32 7) = 7" by (rule le_val_le_bytes_p) simp
  then show ?thesis
    using asp_leaf_is_contract_hash [of "le_bytes 32 7" F_ONE, where 'e = unit]
    by (auto simp: f_canonical_nat F_ONE_def simp del: le_bytes.simps)
qed

end
