(* ===== verification/ClientMerkle.thy ===== *)
theory ClientMerkle imports ClientCrypto Frontier begin

text \<open>
  The Merkle trees of the off-chain code: the prefix tree of
  \<^verbatim>\<open>app/crates/core/prover/src/merkle.rs\<close>, which pads its leaves with empty subtrees, and the
  functions on complete lists of leaves in \<^verbatim>\<open>circuits/src/core/merkle.rs\<close>. The root is compared
  with the tree of the contracts, and the path of a leaf is shown to lead to it.
\<close>

unbundle bit_operations_syntax

section \<open>Complete trees\<close>

fun pair_hashes :: "nat list \<Rightarrow> (prover_error, nat list) outcome" where
  "pair_hashes (x # y # rest) =
     andThen (poseidon2_compression x y) (\<lambda>h. andThen (pair_hashes rest) (\<lambda>next. Inr (h # next)))"
| "pair_hashes _ = Inr []"

definition is_power_of_two :: "nat \<Rightarrow> bool" where
  "is_power_of_two n = (\<exists>k \<in> set [0..<Suc n]. n = 2 ^ k)"

definition ilog2 :: "nat \<Rightarrow> nat" where
  "ilog2 n = length (takeWhile (\<lambda>k. 2 ^ Suc k \<le> n) [0..<n])"

lemma pair_hashes_length: "pair_hashes xs = Inr ys \<Longrightarrow> length ys = length xs div 2"
  by (induction xs arbitrary: ys rule: pair_hashes.induct) (auto simp: andThen_Inr)

function full_root_loop :: "nat list \<Rightarrow> (prover_error, nat) outcome" where
  "full_root_loop leaves =
     (if 1 < length leaves then andThen (pair_hashes leaves) full_root_loop else vec_index leaves 0)"
  by pat_completeness auto

termination by (relation "measure length") (auto dest: pair_hashes_length)

declare full_root_loop.simps [simp del]

definition merkle_root_of :: "nat list \<Rightarrow> (prover_error, nat) outcome" where
  "merkle_root_of leaves =
     (if leaves = [] then Inl Panic
      else if \<not> is_power_of_two (length leaves) then Inl Panic
      else full_root_loop leaves)"

fun full_proof_loop :: "nat \<Rightarrow> nat list \<Rightarrow> nat \<Rightarrow> nat list \<Rightarrow> nat list \<Rightarrow> (prover_error, nat list \<times> nat list) outcome" where
  "full_proof_loop 0 level_nodes index path_elems bits = Inr (path_elems, bits)"
| "full_proof_loop (Suc levels) level_nodes index path_elems bits =
     andThen (expect (if even index then usize_checked_add index 1 else usize_checked_sub index 1)) (\<lambda>sib_index.
     andThen (vec_index level_nodes sib_index) (\<lambda>sib.
     andThen (pair_hashes level_nodes) (\<lambda>next.
     full_proof_loop levels next (index div 2) (path_elems @ [sib]) (bits @ [index mod 2]))))"

text \<open>The bits, least significant first, as a \<open>u64\<close>.\<close>

definition pack_bits :: "nat list \<Rightarrow> u64" where
  "pack_bits bits = foldl (\<lambda>acc (i, b). acc OR push_bit i (word_of_nat b)) 0 (enumerate 0 bits)"

definition merkle_proof_of :: "nat list \<Rightarrow> nat \<Rightarrow> (prover_error, nat list \<times> u64 \<times> nat) outcome" where
  "merkle_proof_of leaves index =
     (if \<not> (leaves \<noteq> [] \<and> is_power_of_two (length leaves)) then Inl Panic
      else
        let levels = ilog2 (length leaves) in
        andThen (full_proof_loop levels leaves index [] []) (\<lambda>(path_elems, bits).
        Inr (path_elems, pack_bits bits, levels)))"

section \<open>Prefix trees\<close>

definition hash_pair :: "field \<Rightarrow> field \<Rightarrow> (prover_error, field) outcome" where
  "hash_pair left right =
     (let left_s = field_to_scalar left; right_s = field_to_scalar right in
      andThen (poseidon2_compression left_s right_s) scalar_to_field)"

record merkle_proof =
  mp_path_elements :: "field list"
  mp_path_indices :: field
  mp_root :: field
  mp_levels :: nat

record prefix_tree =
  pt_depth :: nat
  pt_leaves :: "field list"
  pt_empty :: "field list"

record built_tree =
  bt_depth :: nat
  bt_empty :: "field list"
  bt_levels :: "field list list"

fun empty_loop :: "nat list \<Rightarrow> field list \<Rightarrow> (prover_error, field list) outcome" where
  "empty_loop [] blank = Inr blank"
| "empty_loop (i # is) blank =
     andThen (vec_index blank i) (\<lambda>e.
     andThen (hash_pair e e) (\<lambda>h. empty_loop is (blank @ [h])))"

definition prefix_new :: "nat \<Rightarrow> field list \<Rightarrow> (prover_error, prefix_tree) outcome" where
  "prefix_new depth leaves =
     (if depth = 0 \<or> 32 < depth then Inl (Fail DepthRange)
      else
        let zero_leaf_be = rev client_zero_leaf in
        andThen (if length zero_leaf_be = 32 then Inr zero_leaf_be else Inl (Fail ZeroLeafBytes)) (\<lambda>zero_leaf_le.
        andThen (map_err AmountError (f_try_from_le_bytes zero_leaf_le)) (\<lambda>zero.
        andThen (ok_or DepthOverflow (usize_checked_add depth 1)) (\<lambda>_.
        andThen (empty_loop [0..<depth] [zero]) (\<lambda>blank.
        Inr \<lparr>pt_depth = depth, pt_leaves = leaves, pt_empty = blank\<rparr>)))))"

definition leaf_count :: "prefix_tree \<Rightarrow> nat" where
  "leaf_count t = length (pt_leaves t)"

definition usize_checked_mul :: "nat \<Rightarrow> nat \<Rightarrow> nat option" where
  "usize_checked_mul a b = (if int a * int b < 2 ^ 64 then Some (a * b) else None)"

text \<open>A node of a level, or the empty subtree where the level ends; the level above.\<close>

definition node_or :: "field list \<Rightarrow> field list \<Rightarrow> nat \<Rightarrow> nat \<Rightarrow> (prover_error, field) outcome" where
  "node_or nodes blank level i =
     (case vec_get nodes i of Some f \<Rightarrow> Inr f | None \<Rightarrow> vec_index blank level)"

definition next_level :: "field list \<Rightarrow> field list \<Rightarrow> nat \<Rightarrow> (prover_error, field list) outcome" where
  "next_level nodes blank level =
     (let next_len = (length nodes + 1) div 2 in
      traverse (\<lambda>i.
        andThen (expect (usize_checked_mul i 2)) (\<lambda>left_idx.
        andThen (expect (usize_checked_add left_idx 1)) (\<lambda>right_idx.
        andThen (node_or nodes blank level left_idx) (\<lambda>left.
        andThen (node_or nodes blank level right_idx) (\<lambda>right.
        hash_pair left right))))) [0..<next_len])"

fun build_loop :: "field list \<Rightarrow> nat list \<Rightarrow> field list list \<Rightarrow> (prover_error, field list list) outcome" where
  "build_loop blank [] levels = Inr levels"
| "build_loop blank (level # rest) levels =
     andThen (vec_index levels level) (\<lambda>nodes.
     andThen (if nodes = [] then andThen (vec_index blank level) (\<lambda>e. Inr [e]) else Inr nodes) (\<lambda>nodes.
     andThen (next_level nodes blank level) (\<lambda>next.
     build_loop blank rest (levels[level := nodes] @ [next]))))"

definition build_from_parts :: "nat \<Rightarrow> field list \<Rightarrow> field list \<Rightarrow> (prover_error, built_tree) outcome" where
  "build_from_parts depth leaves blank =
     andThen (expect (usize_checked_add depth 1)) (\<lambda>_.
     andThen (build_loop blank [0..<depth] [leaves]) (\<lambda>levels.
     Inr \<lparr>bt_depth = depth, bt_empty = blank, bt_levels = levels\<rparr>))"

definition prefix_build :: "prefix_tree \<Rightarrow> (prover_error, built_tree) outcome" where
  "prefix_build t = build_from_parts (pt_depth t) (pt_leaves t) (pt_empty t)"

fun prefix_root_loop :: "field list \<Rightarrow> nat list \<Rightarrow> field list \<Rightarrow> (prover_error, field list) outcome" where
  "prefix_root_loop blank [] nodes = Inr nodes"
| "prefix_root_loop blank (level # rest) nodes =
     andThen (if nodes = [] then andThen (vec_index blank level) (\<lambda>e. Inr [e]) else Inr nodes) (\<lambda>nodes.
     andThen (next_level nodes blank level) (\<lambda>next.
     prefix_root_loop blank rest next))"

definition prefix_root :: "prefix_tree \<Rightarrow> (prover_error, field) outcome" where
  "prefix_root t =
     andThen (prefix_root_loop (pt_empty t) [0..<pt_depth t] (pt_leaves t)) (\<lambda>nodes.
     case nodes of n # _ \<Rightarrow> Inr n | [] \<Rightarrow> vec_index (pt_empty t) (pt_depth t))"

definition built_leaf_count :: "built_tree \<Rightarrow> nat" where
  "built_leaf_count t = (case bt_levels t of v # _ \<Rightarrow> length v | [] \<Rightarrow> 0)"

definition built_root :: "built_tree \<Rightarrow> (prover_error, field) outcome" where
  "built_root t =
     (case vec_get (bt_levels t) (bt_depth t) of
        Some (n # _) \<Rightarrow> Inr n | _ \<Rightarrow> vec_index (bt_empty t) (bt_depth t))"

fun path_loop_of :: "built_tree \<Rightarrow> nat list \<Rightarrow> nat \<Rightarrow> field list \<Rightarrow> u64 \<Rightarrow> (prover_error, field list \<times> u64) outcome" where
  "path_loop_of t [] current_index elements bits = Inr (elements, bits)"
| "path_loop_of t (level # rest) current_index elements bits =
     (let sib_index = current_index XOR 1 in
      andThen (vec_index (bt_levels t) level) (\<lambda>nodes.
      andThen (node_or nodes (bt_empty t) level sib_index) (\<lambda>sib.
      path_loop_of t rest (current_index div 2) (elements @ [sib])
        (if odd current_index then bits OR push_bit level 1 else bits))))"

definition built_proof :: "built_tree \<Rightarrow> nat \<Rightarrow> (prover_error, merkle_proof) outcome" where
  "built_proof t index =
     (if built_leaf_count t \<le> index then Inl (Fail (LeafIndexOutOfRange index (built_leaf_count t)))
      else
        andThen (path_loop_of t [0..<bt_depth t] index [] 0) (\<lambda>(path_elements, path_indices_bits).
        let path_indices_le = to_le 8 path_indices_bits @ replicate 24 0 in
        andThen (map_err AmountError (f_try_from_le_bytes path_indices_le)) (\<lambda>path_indices.
        andThen (built_root t) (\<lambda>root.
        Inr \<lparr>mp_path_elements = path_elements, mp_path_indices = path_indices, mp_root = root, mp_levels = bt_depth t\<rparr>))))"

section \<open>Hashing fields\<close>

definition field_hash :: "field \<Rightarrow> field \<Rightarrow> field" where
  "field_hash a b = Field (hash_of crate_perm (f_val a) (f_val b))"

definition zero_field :: field where
  "zero_field = Field (get_zeroes ! 0)"

lemma field_hash_canonical [simp]: "f_canonical (field_hash a b)"
  using hash_of_less [of crate_perm "f_val a" "f_val b"] by (simp add: field_hash_def f_canonical_nat below_modulus)

lemma zero_field_canonical [simp]: "f_canonical zero_field"
  using get_zeroes_less [of 0] by (simp add: zero_field_def f_canonical_nat below_modulus)

lemma hash_pair_ok: "f_canonical a \<Longrightarrow> f_canonical b \<Longrightarrow> hash_pair a b = Inr (field_hash a b)"
  using hash_of_less [of crate_perm "f_val a" "f_val b"]
  by (simp add: hash_pair_def field_to_scalar_val client_compression_hash_of scalar_to_field_val field_hash_def below_modulus)

lemma node_canonical: "\<forall>f \<in> set ls. f_canonical f \<Longrightarrow> f_canonical (node field_hash zero_field ls l i)"
  by (rule node_pred [where P = f_canonical]) auto

lemma node_value: "f_val (node field_hash zero_field ls l i) = node (hash_of crate_perm) zero_leaf (map f_val ls) l i"
  by (induction l arbitrary: i) (simp_all add: zero_field_def field_hash_def)

text \<open>The empty subtrees.\<close>

lemma zero_at_canonical: "f_canonical (zero_at field_hash zero_field l)"
  by (cases l) simp_all

lemma empty_loop_ok:
  "k \<le> d \<Longrightarrow> empty_loop [k..<d] (map (zero_at field_hash zero_field) [0..<Suc k]) =
    Inr (map (zero_at field_hash zero_field) [0..<Suc d])"
proof (induction "d - k" arbitrary: k)
  case (Suc n)
  then have k: "k < d" by simp
  have "empty_loop [Suc k..<d] (map (zero_at field_hash zero_field) [0..<Suc (Suc k)]) = Inr (map (zero_at field_hash zero_field) [0..<Suc d])"
    using Suc k by (intro Suc.hyps(1)) simp_all
  moreover have "map (zero_at field_hash zero_field) [0..<Suc (Suc k)] =
      map (zero_at field_hash zero_field) [0..<Suc k] @ [field_hash (zero_at field_hash zero_field k) (zero_at field_hash zero_field k)]"
    by (simp only: upt_Suc_append [of 0 "Suc k"] map_append list.map zero_at.simps)
  moreover have "(vec_index (map (zero_at field_hash zero_field) [0..<Suc k]) k :: (prover_error, field) outcome) =
      Inr (zero_at field_hash zero_field k)"
    by (simp del: upt_Suc)
  ultimately show ?case using k
    by (simp only: upt_conv_Cons [OF k] empty_loop.simps andThen_simps hash_pair_ok [OF zero_at_canonical zero_at_canonical])
qed simp

abbreviation empties :: "nat \<Rightarrow> field list" where
  "empties d \<equiv> map (zero_at field_hash zero_field) [0..<Suc d]"

lemma prefix_new_ok:
  "prefix_new depth leaves = (if 1 \<le> depth \<and> depth \<le> 32
    then Inr \<lparr>pt_depth = depth, pt_leaves = leaves, pt_empty = empties depth\<rparr> else Inl (Fail DepthRange))"
proof (cases "1 \<le> depth \<and> depth \<le> 32")
  case True
  have "empty_loop [0..<depth] [zero_field] = Inr (empties depth)" using empty_loop_ok [of 0 depth] by simp
  moreover have "usize_checked_add depth 1 = Some (depth + 1)" using True by (simp add: usize_checked_add_def)
  ultimately show ?thesis using True client_zero_leaf_field
    by (simp add: prefix_new_def Let_def zero_field_def del: upt_Suc)
qed (auto simp: prefix_new_def)

section \<open>The levels of a prefix tree\<close>

text \<open>How many nodes a level has, and the nodes.\<close>

fun width :: "'a list \<Rightarrow> nat \<Rightarrow> nat" where
  "width ls 0 = max 1 (length ls)"
| "width ls (Suc l) = (width ls l + 1) div 2"

definition level_nodes :: "field list \<Rightarrow> nat \<Rightarrow> field list" where
  "level_nodes ls l = map (node field_hash zero_field ls l) [0..<width ls l]"

lemma width_pos [simp]: "0 < width ls l"
  by (induction l) auto

lemma width_covers: "length ls \<le> width ls l * 2 ^ l"
proof (induction l)
  case (Suc l)
  have "width ls l \<le> 2 * ((width ls l + 1) div 2)" by simp
  then have "width ls l * 2 ^ l \<le> 2 * ((width ls l + 1) div 2) * 2 ^ l" by (rule mult_le_mono1)
  from order_trans [OF Suc this] show ?case by (simp add: ac_simps)
qed simp

lemma width_le: "width ls l \<le> max 1 (length ls)"
  by (induction l) auto

lemma level_nodes_ne [simp]: "level_nodes ls l \<noteq> []"
  by (simp add: level_nodes_def)

lemma level_nodes_0: "level_nodes ls 0 = (if ls = [] then [zero_field] else ls)"
  by (auto simp: level_nodes_def max_def not_le map_nth intro!: nth_equalityI)

lemma node_or_ok:
  assumes "l \<le> d"
  shows "node_or (level_nodes ls l) (empties d) l i = Inr (node field_hash zero_field ls l i)"
proof (cases "i < width ls l")
  case False
  have "length ls \<le> width ls l * 2 ^ l" by (rule width_covers)
  also have "\<dots> \<le> i * 2 ^ l" using False by simp
  finally show ?thesis
    using False assms by (simp add: node_or_def level_nodes_def vec_get_def node_empty del: upt_Suc)
qed (simp add: node_or_def level_nodes_def vec_get_def)

lemma next_level_ok:
  assumes "l \<le> d" "\<forall>f \<in> set ls. f_canonical f" "length ls < 2 ^ 64"
  shows "next_level (level_nodes ls l) (empties d) l = Inr (level_nodes ls (Suc l))"
proof -
  have w: "width ls l < 2 ^ 64" using width_le [of ls l] assms(3) by (simp add: max_def split: if_splits)
  have idx: "usize_checked_mul i 2 = Some (2 * i)" "usize_checked_add (2 * i) 1 = Some (2 * i + 1)"
    if "i < (width ls l + 1) div 2" for i
    using that w by (simp_all add: usize_checked_mul_def usize_checked_add_def)
  have "next_level (level_nodes ls l) (empties d) l =
      traverse (\<lambda>i. andThen (expect (usize_checked_mul i 2)) (\<lambda>left_idx.
        andThen (expect (usize_checked_add left_idx 1)) (\<lambda>right_idx.
        andThen (node_or (level_nodes ls l) (empties d) l left_idx) (\<lambda>left.
        andThen (node_or (level_nodes ls l) (empties d) l right_idx) (\<lambda>right.
        hash_pair left right))))) [0..<(width ls l + 1) div 2]"
    by (simp add: next_level_def level_nodes_def del: upt_Suc)
  also have "\<dots> = Inr (map (node field_hash zero_field ls (Suc l)) [0..<(width ls l + 1) div 2])"
  proof (rule traverse_Inr)
    fix i assume "i \<in> set [0..<(width ls l + 1) div 2]"
    then show "andThen (expect (usize_checked_mul i 2)) (\<lambda>left_idx.
        andThen (expect (usize_checked_add left_idx 1)) (\<lambda>right_idx.
        andThen (node_or (level_nodes ls l) (empties d) l left_idx) (\<lambda>left.
        andThen (node_or (level_nodes ls l) (empties d) l right_idx) (\<lambda>right.
        hash_pair left right)))) = Inr (node field_hash zero_field ls (Suc l) i)"
      by (simp add: idx [simplified] node_or_ok [OF assms(1)] hash_pair_ok node_canonical [OF assms(2)] del: upt_Suc)
  qed
  finally show ?thesis by (simp add: level_nodes_def)
qed

lemma prefix_root_loop_levels:
  assumes "l \<le> d" "\<forall>f \<in> set ls. f_canonical f" "length ls < 2 ^ 64"
  shows "prefix_root_loop (empties d) [l..<d] (level_nodes ls l) = Inr (level_nodes ls d)"
  using assms(1)
proof (induction "d - l" arbitrary: l)
  case (Suc n)
  then have l: "l < d" by simp
  have "prefix_root_loop (empties d) [Suc l..<d] (level_nodes ls (Suc l)) = Inr (level_nodes ls d)"
    using Suc l by (intro Suc.hyps(1)) simp_all
  then show ?case using next_level_ok [OF less_imp_le [OF l] assms(2,3)]
    by (simp add: upt_conv_Cons [OF l] del: upt_Suc)
qed simp

lemma build_loop_levels:
  assumes "l \<le> d" "\<forall>f \<in> set ls. f_canonical f" "length ls < 2 ^ 64"
  shows "build_loop (empties d) [l..<d] (map (level_nodes ls) [0..<Suc l]) = Inr (map (level_nodes ls) [0..<Suc d])"
  using assms(1)
proof (induction "d - l" arbitrary: l)
  case (Suc n)
  then have l: "l < d" by simp
  have IH: "build_loop (empties d) [Suc l..<d] (map (level_nodes ls) [0..<Suc (Suc l)]) = Inr (map (level_nodes ls) [0..<Suc d])"
    using Suc l by (intro Suc.hyps(1)) simp_all
  have "(vec_index (map (level_nodes ls) [0..<Suc l]) l :: (prover_error, field list) outcome) = Inr (level_nodes ls l)"
    by (simp del: upt_Suc)
  moreover have "(map (level_nodes ls) [0..<Suc l])[l := level_nodes ls l] @ [level_nodes ls (Suc l)] = map (level_nodes ls) [0..<Suc (Suc l)]"
    by (simp add: list_update_append)
  ultimately show ?case using next_level_ok [OF less_imp_le [OF l] assms(2,3)] IH
    by (simp add: upt_conv_Cons [OF l] del: upt_Suc)
qed simp

text \<open>The first level is filled up when there are no leaves.\<close>

lemma first_level:
  assumes "0 < d"
  shows "prefix_root_loop (empties d) [0..<d] ls = prefix_root_loop (empties d) [0..<d] (level_nodes ls 0)"
    "build_loop (empties d) [0..<d] [ls] = build_loop (empties d) [0..<d] [level_nodes ls 0]"
  using assms by (simp_all add: upt_conv_Cons level_nodes_0 del: upt_Suc)

lemma level_nodes_first: "\<exists>rest. level_nodes ls l = node field_hash zero_field ls l 0 # rest"
  by (simp add: level_nodes_def upt_conv_Cons)

lemma prefix_root_ok:
  assumes "0 < d" "\<forall>f \<in> set ls. f_canonical f" "length ls < 2 ^ 64"
  shows "prefix_root \<lparr>pt_depth = d, pt_leaves = ls, pt_empty = empties d\<rparr> = Inr (node field_hash zero_field ls d 0)"
  using prefix_root_loop_levels [OF le0 assms(2,3), of d] level_nodes_first [of ls d]
  by (auto simp: prefix_root_def first_level(1) [OF assms(1), of ls] simp del: upt_Suc)

lemma prefix_build_ok:
  assumes "0 < d" "d \<le> 32" "\<forall>f \<in> set ls. f_canonical f" "length ls < 2 ^ 64"
  shows "prefix_build \<lparr>pt_depth = d, pt_leaves = ls, pt_empty = empties d\<rparr> =
    Inr \<lparr>bt_depth = d, bt_empty = empties d, bt_levels = map (level_nodes ls) [0..<Suc d]\<rparr>"
proof -
  have "build_loop (empties d) [0..<d] [ls] = Inr (map (level_nodes ls) [0..<Suc d])"
    using build_loop_levels [OF le0 assms(3,4), of d] first_level(2) [OF assms(1), of ls] by simp
  moreover have "usize_checked_add d 1 = Some (d + 1)" using assms(2) by (simp add: usize_checked_add_def)
  ultimately show ?thesis by (simp add: prefix_build_def build_from_parts_def del: upt_Suc)
qed

lemma built_root_ok:
  "built_root \<lparr>bt_depth = d, bt_empty = e, bt_levels = map (level_nodes ls) [0..<Suc d]\<rparr> = Inr (node field_hash zero_field ls d 0)"
  using level_nodes_first [of ls d] by (auto simp: built_root_def vec_get_def simp del: upt_Suc)

text \<open>
  Property C31: the prefix tree of canonical leaves is built for the depths 1 to 32 and for no other; its root, the
  root of its cached form and the root of the contracts' tree over the same leaves, hashed by a host that
  follows the crate, are one field element, whatever part of the tree the leaves fill.
\<close>

theorem prefix_root_is_contract_root:
  assumes "\<forall>f \<in> set leaves. f_canonical f" "length leaves < 2 ^ 64"
  shows "(if 1 \<le> depth \<and> depth \<le> 32
    then \<exists>t b. prefix_new depth leaves = Inr t \<and> prefix_build t = Inr b \<and>
      prefix_root t = Inr (Field (tree_root crate_perm (map f_val leaves) depth)) \<and>
      built_root b = Inr (Field (tree_root crate_perm (map f_val leaves) depth))
    else prefix_new depth leaves = Inl (Fail DepthRange))"
proof -
  have "Field (tree_root crate_perm (map f_val leaves) depth) = node field_hash zero_field leaves depth 0"
    by (rule field.expand) (simp add: node_value tree_root_def merkle_root_def)
  then show ?thesis
    using assms prefix_new_ok [of depth leaves] prefix_root_ok [of depth leaves] prefix_build_ok [of depth leaves] built_root_ok
    by (auto simp del: upt_Suc)
qed

theorem prefix_root_is_contract_root_witness:
  "\<exists>t. prefix_new 5 [F_ONE] = Inr t \<and> prefix_root t = Inr (Field (tree_root crate_perm [1] 5))"
  using prefix_root_is_contract_root [of "[F_ONE]" 5] by (auto simp: F_ONE_def f_canonical_nat)

section \<open>Paths\<close>

text \<open>Hashing up a path, with the bits of the index, as the circuit verifies it.\<close>

fun fold_path :: "('a \<Rightarrow> 'a \<Rightarrow> 'a) \<Rightarrow> 'a list \<Rightarrow> nat \<Rightarrow> 'a \<Rightarrow> 'a" where
  "fold_path H [] index current = current"
| "fold_path H (e # es) index current = fold_path H es (index div 2) (if odd index then H e current else H current e)"

definition sibling :: "nat \<Rightarrow> nat" where
  "sibling i = (i XOR 1)"

definition siblings :: "('a \<Rightarrow> 'a \<Rightarrow> 'a) \<Rightarrow> 'a \<Rightarrow> 'a list \<Rightarrow> nat \<Rightarrow> nat \<Rightarrow> 'a list" where
  "siblings H z ls d index = map (\<lambda>l. node H z ls l (sibling (index div 2 ^ l))) [0..<d]"

lemma sibling_index: "sibling i = (if odd i then i - 1 else i + 1)"
  using one_xor_eq [of i] by (simp add: sibling_def xor.commute)

lemma node_sibling:
  "(if odd i then H (node H z ls l (sibling i)) (node H z ls l i) else H (node H z ls l i) (node H z ls l (sibling i))) =
    node H z ls (Suc l) (i div 2)"
proof (cases "odd i")
  case True
  then have "2 * (i div 2) = i - 1" "2 * (i div 2) + 1 = i" by (simp_all add: odd_two_times_div_two_nat)
  then show ?thesis using True by (simp add: sibling_index)
next
  case False
  then have "2 * (i div 2) = i" by simp
  then show ?thesis using False by (simp add: sibling_index)
qed

lemma fold_siblings:
  "fold_path H (map (\<lambda>l. node H z ls l (sibling (index div 2 ^ l))) [l..<l + n]) (index div 2 ^ l) (node H z ls l (index div 2 ^ l)) =
    node H z ls (l + n) (index div 2 ^ (l + n))"
proof (induction n arbitrary: l)
  case (Suc n)
  have up: "index div 2 ^ l div 2 = index div 2 ^ Suc l" by (simp only: power_Suc2 div_mult2_eq)
  have "l < l + Suc n" by simp
  then show ?case using Suc [of "Suc l"]
    by (simp only: upt_conv_Cons list.map fold_path.simps node_sibling up add_Suc_right add_Suc)
qed simp

lemma fold_path_bits: "length es = d \<Longrightarrow> fold_path H es (index mod 2 ^ d) current = fold_path H es index current"
proof (induction es arbitrary: d index current)
  case (Cons e es)
  then obtain n where d: "d = Suc n" "length es = n" by (cases d) simp_all
  have "(index mod 2 ^ Suc n) div 2 = (index div 2) mod 2 ^ n" by (simp add: mod_mult2_eq div_add)
  moreover have "odd (index mod 2 ^ Suc n) = odd index" by (simp add: odd_iff_mod_2_eq_one mod_mod_cancel)
  ultimately show ?case using Cons.IH [OF d(2)] d by (simp del: power_Suc)
qed simp

lemma siblings_verify:
  "fold_path H (siblings H z ls d index) index (node H z ls 0 index) = node H z ls d (index div 2 ^ d)"
  using fold_siblings [of H z ls index 0 d] by (simp add: siblings_def)

text \<open>The loop collects the siblings and the bits of the index.\<close>

lemma add_index_bit:
  "(if odd (index div 2 ^ l) then word_of_nat (index mod 2 ^ l) OR push_bit l 1 else word_of_nat (index mod 2 ^ l)) =
    (word_of_nat (index mod 2 ^ Suc l) :: u64)"
  by (rule bit_word_eqI)
    (auto simp: bit_simps bit_iff_odd [of index l, symmetric] less_Suc_eq simp flip: take_bit_eq_mod simp del: power_Suc take_bit_Suc)

abbreviation built_of :: "field list \<Rightarrow> nat \<Rightarrow> built_tree" where
  "built_of ls d \<equiv> \<lparr>bt_depth = d, bt_empty = empties d, bt_levels = map (level_nodes ls) [0..<Suc d]\<rparr>"

lemma path_loop_ok:
  assumes "l + n \<le> d"
  shows "path_loop_of (built_of ls d) [l..<l + n] (index div 2 ^ l) es (word_of_nat (index mod 2 ^ l)) =
    Inr (es @ map (\<lambda>l. node field_hash zero_field ls l (sibling (index div 2 ^ l))) [l..<l + n], word_of_nat (index mod 2 ^ (l + n)))"
  using assms
proof (induction n arbitrary: l es)
  case (Suc n)
  have up: "index div 2 ^ l div 2 = index div 2 ^ Suc l" by (simp only: power_Suc2 div_mult2_eq)
  have "(vec_index (map (level_nodes ls) [0..<Suc d]) l :: (prover_error, field list) outcome) = Inr (level_nodes ls l)"
    using Suc.prems by (simp del: upt_Suc)
  moreover have "node_or (level_nodes ls l) (empties d) l (sibling (index div 2 ^ l)) =
      Inr (node field_hash zero_field ls l (sibling (index div 2 ^ l)))"
    using Suc.prems by (intro node_or_ok) simp
  moreover have "l < l + Suc n" by simp
  ultimately show ?case
    using Suc.IH [of "Suc l" "es @ [node field_hash zero_field ls l (sibling (index div 2 ^ l))]"] Suc.prems
    by (simp only: upt_conv_Cons list.map path_loop_of.simps Let_def sibling_def [symmetric] built_tree.select_convs andThen_simps
        add_index_bit up add_Suc_right add_Suc append_assoc append.simps Suc_leD)
qed simp

lemma le_val_zeros_only: "le_val (replicate n 0) = 0"
  by (induction n) simp_all

lemma le_val_zeros: "le_val (bs @ replicate n 0) = le_val bs"
  by (induction bs) (simp_all add: le_val_zeros_only)

lemma path_indices_ok:
  assumes "v < 2 ^ 64"
  shows "f_try_from_le_bytes (to_le 8 (word_of_nat v :: u64) @ replicate 24 0) = Inr (Field (word_of_nat v))"
proof -
  have val: "le_val (to_le 8 (word_of_nat v :: u64)) = v"
    using assms by (simp add: to_le_le_bytes le_val_le_bytes unat_of_nat del: le_bytes.simps)
  have "v < bn_p" using assms by simp
  then have "(word_of_nat v :: u256) < bn254_modulus_u256" by (simp add: word_less_nat_alt unat_of_nat)
  then show ?thesis
    by (simp add: f_try_from_le_bytes_def from_le_le_val le_val_zeros val res_simps del: to_le.simps replicate.simps)
qed

lemma built_proof_ok:
  assumes "index < length ls" "d \<le> 32"
  shows "built_proof (built_of ls d) index = Inr \<lparr>mp_path_elements = siblings field_hash zero_field ls d index,
    mp_path_indices = Field (word_of_nat (index mod 2 ^ d)), mp_root = node field_hash zero_field ls d 0, mp_levels = d\<rparr>"
proof -
  have loop: "path_loop_of (built_of ls d) [0..<d] index [] 0 =
      Inr (siblings field_hash zero_field ls d index, word_of_nat (index mod 2 ^ d))"
    using path_loop_ok [of 0 d d ls index "[]"] by (simp add: siblings_def del: upt_Suc)
  have count: "built_leaf_count (built_of ls d) = length ls"
    using assms(1) by (auto simp: built_leaf_count_def level_nodes_0 upt_conv_Cons simp del: upt_Suc)
  have "index mod 2 ^ d < 2 ^ d" by simp
  also have "(2 :: nat) ^ d \<le> 2 ^ 64" using assms(2) by (intro power_increasing) simp_all
  finally have small: "index mod 2 ^ d < 2 ^ 64" .
  show ?thesis
    using assms(1) by (simp add: built_proof_def count loop path_indices_ok [OF small] built_root_ok Let_def
        del: upt_Suc to_le.simps replicate.simps)
qed

text \<open>
  Property C32: for every leaf of the prefix that the tree has room for, the cached tree gives a proof with one
  element for each level, whose index is the leaf's and which hashes from the leaf up to the root; for an
  index past the leaves (at least one) it fails, naming the index and the count.
\<close>

theorem prefix_proof_verifies:
  assumes "\<forall>f \<in> set leaves. f_canonical f" "length leaves < 2 ^ 64" "1 \<le> depth" "depth \<le> 32" "leaves \<noteq> []"
  shows "\<exists>t b. prefix_new depth leaves = Inr t \<and> prefix_build t = Inr b \<and>
    (if index < length leaves
     then \<exists>p. built_proof b index = Inr p \<and> length (mp_path_elements p) = depth \<and> mp_levels p = depth \<and>
       prefix_root t = Inr (mp_root p) \<and>
       (index < 2 ^ depth \<longrightarrow> unat (f_val (mp_path_indices p)) = index \<and>
          fold_path field_hash (mp_path_elements p) (unat (f_val (mp_path_indices p))) (leaves ! index) = mp_root p)
     else built_proof b index = Inl (Fail (LeafIndexOutOfRange index (length leaves))))"
proof -
  let ?t = "\<lparr>pt_depth = depth, pt_leaves = leaves, pt_empty = empties depth\<rparr>"
  have new: "prefix_new depth leaves = Inr ?t" "prefix_build ?t = Inr (built_of leaves depth)"
    "prefix_root ?t = Inr (node field_hash zero_field leaves depth 0)"
    using prefix_new_ok [of depth leaves] prefix_build_ok [of depth leaves] prefix_root_ok [of depth leaves] assms
    by (simp_all del: upt_Suc)
  have "unat (word_of_nat (index mod 2 ^ depth) :: u256) = index \<and>
      fold_path field_hash (siblings field_hash zero_field leaves depth index) index (leaves ! index) =
        node field_hash zero_field leaves depth 0" if "index < 2 ^ depth" "index < length leaves"
  proof -
    have "(2 :: nat) ^ depth \<le> 2 ^ 32" using assms(4) by (intro power_increasing) simp_all
    then have "index < 2 ^ 32" using that(1) by simp
    then have "unat (word_of_nat index :: u256) = index" by (simp add: unat_of_nat)
    then show ?thesis
      using siblings_verify [of field_hash zero_field leaves depth index] that by simp
  qed
  moreover have "built_leaf_count (built_of leaves depth) = length leaves"
    using assms(5) by (auto simp: built_leaf_count_def level_nodes_0 upt_conv_Cons simp del: upt_Suc)
  moreover have "length (siblings field_hash zero_field leaves depth index) = depth" by (simp add: siblings_def)
  ultimately show ?thesis
    using new built_proof_ok [OF _ assms(4), of index leaves]
    by (auto simp: built_proof_def simp del: upt_Suc)
qed

theorem prefix_proof_verifies_witness:
  "\<exists>t b p. prefix_new 3 [F_ONE, F_ZERO, F_ONE] = Inr t \<and> prefix_build t = Inr b \<and> built_proof b 2 = Inr p \<and>
    fold_path field_hash (mp_path_elements p) 2 F_ONE = mp_root p"
  using prefix_proof_verifies [of "[F_ONE, F_ZERO, F_ONE]" 3 2] by (auto simp: F_ONE_def F_ZERO_def f_canonical_nat)

text \<open>The cached form of the empty prefix counts its padding as a leaf.\<close>

lemma built_empty_count: "0 < d \<Longrightarrow> built_leaf_count (built_of [] d) = 1"
  by (simp add: built_leaf_count_def level_nodes_0 upt_conv_Cons del: upt_Suc)

section \<open>Complete lists of leaves\<close>

definition scalar_hash :: "nat \<Rightarrow> nat \<Rightarrow> nat" where
  "scalar_hash a b = unat (hash_of crate_perm (word_of_nat a) (word_of_nat b))"

lemma scalar_hash_less [simp]: "scalar_hash a b < bn_p"
  using hash_of_less [of crate_perm "word_of_nat a" "word_of_nat b"] by (simp add: scalar_hash_def below_modulus)

lemma compression_scalar: "a < bn_p \<Longrightarrow> b < bn_p \<Longrightarrow> poseidon2_compression a b = Inr (scalar_hash a b)"
  using client_compression_hash_of [of "word_of_nat a" "word_of_nat b"] by (simp add: scalar_hash_def unat_of_nat)

abbreviation scalar_node :: "nat list \<Rightarrow> nat \<Rightarrow> nat \<Rightarrow> nat" where
  "scalar_node \<equiv> node scalar_hash (unat zero_leaf)"

lemma scalar_node_less: "\<forall>x \<in> set ls. x < bn_p \<Longrightarrow> scalar_node ls l i < bn_p"
  using get_zeroes_less [of 0] by (intro node_pred [where P = "\<lambda>x. x < bn_p"]) (simp_all add: below_modulus)

lemma scalar_node_value:
  "scalar_node (map unat us) l i = unat (node (hash_of crate_perm) zero_leaf us l i)"
  by (induction l arbitrary: i) (simp_all add: scalar_hash_def)

lemma pair_hashes_upt:
  "\<forall>i. f i < bn_p \<Longrightarrow> pair_hashes (map f [2 * a..<2 * (a + m)]) = Inr (map (\<lambda>i. scalar_hash (f (2 * i)) (f (2 * i + 1))) [a..<a + m])"
proof (induction m arbitrary: a)
  case (Suc m)
  have "[2 * a..<2 * (a + Suc m)] = 2 * a # (2 * a + 1) # [2 * Suc a..<2 * (Suc a + m)]"
    by (simp add: upt_conv_Cons)
  moreover have "[a..<a + Suc m] = a # [Suc a..<Suc a + m]" by (simp add: upt_conv_Cons del: upt_Suc)
  ultimately show ?case
    using Suc.IH [OF Suc.prems, of "Suc a"] Suc.prems by (simp only: list.map pair_hashes.simps compression_scalar andThen_simps)
qed simp

lemma pair_hashes_level:
  assumes "\<forall>x \<in> set ls. x < bn_p"
  shows "pair_hashes (map (scalar_node ls l) [0..<2 ^ Suc m]) = Inr (map (scalar_node ls (Suc l)) [0..<2 ^ m])"
  using pair_hashes_upt [of "scalar_node ls l" 0 "2 ^ m"] scalar_node_less [OF assms] by simp

lemma full_root_loop_ok:
  assumes "\<forall>x \<in> set ls. x < bn_p"
  shows "full_root_loop (map (scalar_node ls l) [0..<2 ^ m]) = Inr (scalar_node ls (l + m) 0)"
proof (induction m arbitrary: l)
  case 0
  then show ?case by (simp add: full_root_loop.simps)
next
  case (Suc m)
  have "1 < length (map (scalar_node ls l) [0..<2 ^ Suc m])"
    using one_less_power [of "2 :: nat" "Suc m"] by simp
  then show ?case
    using Suc [of "Suc l"] pair_hashes_level [OF assms, of l m] by (subst full_root_loop.simps) (simp del: node.simps)
qed

lemma full_proof_loop_ok:
  assumes "\<forall>x \<in> set ls. x < bn_p" "index div 2 ^ l < 2 ^ m" "m < 64"
  shows "full_proof_loop m (map (scalar_node ls l) [0..<2 ^ m]) (index div 2 ^ l) es bits =
    Inr (es @ map (\<lambda>l. scalar_node ls l (sibling (index div 2 ^ l))) [l..<l + m], bits @ map (\<lambda>l. index div 2 ^ l mod 2) [l..<l + m])"
  using assms(2,3)
proof (induction m arbitrary: l es bits)
  case (Suc m)
  have up: "index div 2 ^ l div 2 = index div 2 ^ Suc l" by (simp only: power_Suc2 div_mult2_eq)
  let ?i = "index div 2 ^ l"
  have sib: "sibling ?i < 2 ^ Suc m"
  proof (cases "odd ?i")
    case True then show ?thesis using Suc.prems(1) by (simp add: sibling_index)
  next
    case False
    have "sibling i < 2 * n" if "even i" "i < 2 * n" for i n using that by (auto simp: sibling_index elim!: evenE)
    then show ?thesis using Suc.prems(1) False by simp
  qed
  have "(2 :: nat) ^ Suc m \<le> 2 ^ 63" using Suc.prems(2) by (intro power_increasing) simp_all
  then have "sibling ?i < 2 ^ 64" using sib by simp
  then have s: "(if even ?i then usize_checked_add ?i 1 else usize_checked_sub ?i 1) = Some (sibling ?i)"
    by (auto simp: sibling_index usize_checked_add_def usize_checked_sub_def Suc_le_eq intro: odd_pos)
  have v: "(vec_index (map (scalar_node ls l) [0..<2 ^ Suc m]) (sibling ?i) :: (prover_error, nat) outcome) = Inr (scalar_node ls l (sibling ?i))"
    using sib by (simp del: power_Suc)
  have "index div 2 ^ Suc l < 2 ^ m" using Suc.prems(1) unfolding up [symmetric] by simp
  then have IH: "full_proof_loop m (map (scalar_node ls (Suc l)) [0..<2 ^ m]) (index div 2 ^ Suc l) (es @ [scalar_node ls l (sibling ?i)]) (bits @ [?i mod 2]) =
      Inr ((es @ [scalar_node ls l (sibling ?i)]) @ map (\<lambda>l. scalar_node ls l (sibling (index div 2 ^ l))) [Suc l..<Suc l + m],
        (bits @ [?i mod 2]) @ map (\<lambda>l. index div 2 ^ l mod 2) [Suc l..<Suc l + m])"
    using Suc.prems(2) by (intro Suc.IH) simp_all
  have "[l..<l + Suc m] = l # [Suc l..<Suc l + m]" by (simp add: upt_conv_Cons del: upt_Suc)
  then show ?case
    by (simp only: full_proof_loop.simps s expect_simps andThen_simps v pair_hashes_level [OF assms(1)] up IH list.map append_assoc append.simps)
qed simp

lemma pack_bits_ok: "k \<le> 64 \<Longrightarrow> pack_bits (map (\<lambda>l. index div 2 ^ l mod 2) [0..<k]) = word_of_nat (index mod 2 ^ k)"
proof (induction k)
  case (Suc k)
  have "push_bit k (word_of_nat (index div 2 ^ k mod 2) :: u64) = (if odd (index div 2 ^ k) then push_bit k 1 else 0)"
    by (simp add: mod_2_eq_odd)
  then show ?case using Suc add_index_bit [of index k]
    by (simp add: pack_bits_def enumerate_append_eq split: if_splits)
qed (simp add: pack_bits_def)

lemma ilog2_power: "ilog2 (2 ^ k) = k"
proof -
  let ?P = "\<lambda>j. (2 :: nat) ^ Suc j \<le> 2 ^ k"
  have split: "[0..<2 ^ k] = [0..<k] @ [k..<2 ^ k]"
    using less_exp [of k] by (metis le0 le_add_diff_inverse less_imp_le upt_add_eq_append)
  have "takeWhile ?P ([0..<k] @ [k..<2 ^ k]) = [0..<k] @ takeWhile ?P [k..<2 ^ k]"
    by (rule takeWhile_append2) (simp del: power_Suc)
  moreover have "takeWhile ?P [k..<2 ^ k] = []" using less_exp [of k] by (simp add: upt_conv_Cons del: power_Suc)
  ultimately show ?thesis unfolding ilog2_def split by (simp del: power_Suc power_increasing_iff)
qed

lemma is_power_of_two_iff: "is_power_of_two n \<longleftrightarrow> (\<exists>k. n = 2 ^ k)"
  using less_exp by (fastforce simp: is_power_of_two_def less_Suc_eq)

text \<open>
  On a complete list of scalars the root is the contracts' tree root over it, and the proof for
  every index is the index with one sibling for each level, which hashes from the leaf to that root;
  a list that is empty or whose length is no power of two is rejected by a panic.
\<close>

theorem full_tree_correct:
  assumes "\<forall>x \<in> set leaves. x < bn_p" "length leaves < 2 ^ 64"
  shows "(if \<exists>k. length leaves = 2 ^ k
    then \<exists>k. length leaves = 2 ^ k \<and> merkle_root_of leaves = Inr (unat (tree_root crate_perm (map word_of_nat leaves) k)) \<and>
      (\<forall>index < length leaves. \<exists>es. merkle_proof_of leaves index = Inr (es, word_of_nat index, k) \<and> length es = k \<and>
        fold_path scalar_hash es index (leaves ! index) = unat (tree_root crate_perm (map word_of_nat leaves) k))
    else merkle_root_of leaves = Inl Panic \<and> (\<forall>index. merkle_proof_of leaves index = Inl Panic))"
proof (cases "\<exists>k. length leaves = 2 ^ k")
  case True
  then obtain k where k: "length leaves = 2 ^ k" by blast
  then have "(2 :: nat) ^ k < 2 ^ 64" using assms(2) by simp
  then have k64: "k < 64" by (rule power_less_imp_less_exp [rotated]) simp
  have ls: "map (scalar_node leaves 0) [0..<2 ^ k] = leaves" using k by (intro nth_equalityI) simp_all
  have ne: "leaves \<noteq> []" using k by (metis length_0_conv power_not_zero zero_neq_numeral)
  have p2: "is_power_of_two (2 ^ k)" using is_power_of_two_iff by blast
  have "map unat (map word_of_nat leaves :: u256 list) = leaves"
    using assms(1) by (auto simp: unat_of_nat intro!: map_idI)
  then have top: "scalar_node leaves k 0 = unat (tree_root crate_perm (map word_of_nat leaves) k)"
    using scalar_node_value [of "map word_of_nat leaves" k 0] by (simp add: tree_root_def merkle_root_def)
  have root: "merkle_root_of leaves = Inr (unat (tree_root crate_perm (map word_of_nat leaves) k))"
    using full_root_loop_ok [OF assms(1), of 0 k] by (simp add: merkle_root_of_def ne k p2 ls top)
  have "merkle_proof_of leaves index = Inr (siblings scalar_hash (unat zero_leaf) leaves k index, word_of_nat index, k)"
    "fold_path scalar_hash (siblings scalar_hash (unat zero_leaf) leaves k index) index (leaves ! index) =
      unat (tree_root crate_perm (map word_of_nat leaves) k)" if "index < length leaves" for index
    using full_proof_loop_ok [OF assms(1), of index 0 k "[]" "[]"] pack_bits_ok [of k index] that k k64
      siblings_verify [of scalar_hash "unat zero_leaf" leaves k index] top
    by (simp_all add: merkle_proof_of_def ne p2 ls ilog2_power siblings_def)
  then show ?thesis using True k root by (auto simp: siblings_def)
next
  case False
  then show ?thesis using is_power_of_two_iff by (auto simp: merkle_root_of_def merkle_proof_of_def)
qed

theorem full_tree_correct_witness:
  "\<exists>k. length [1, 2, 3, 4 :: nat] = 2 ^ k \<and> merkle_root_of [1, 2, 3, 4] = Inr (unat (tree_root crate_perm (map word_of_nat [1, 2, 3, 4]) k))"
proof -
  have "\<exists>k. length [1, 2, 3, 4 :: nat] = 2 ^ k" by (rule exI [of _ 2]) simp
  then show ?thesis using full_tree_correct [of "[1, 2, 3, 4]"] by auto
qed

lemma node_pad: "node H z (ls @ replicate n z) l i = node H z ls l i"
  by (induction l arbitrary: i) (auto simp: nth_append)

text \<open>
  The prefix tree computes the root that the function on complete lists computes when the leaves
  are padded with the empty leaf.
\<close>

theorem prefix_root_is_full_root:
  assumes "\<forall>f \<in> set leaves. f_canonical f" "length leaves \<le> 2 ^ depth" "1 \<le> depth" "depth \<le> 32"
  shows "\<exists>t r. prefix_new depth leaves = Inr t \<and> prefix_root t = Inr r \<and>
    merkle_root_of (map field_to_scalar leaves @ replicate (2 ^ depth - length leaves) (unat zero_leaf)) = Inr (unat (f_val r))"
proof -
  let ?full = "map field_to_scalar leaves @ replicate (2 ^ depth - length leaves) (unat zero_leaf)"
  have len: "length ?full = 2 ^ depth" using assms(2) by simp
  have small: "\<forall>x \<in> set ?full. x < bn_p"
    using get_zeroes_less [of 0] field_to_scalar_less by (auto simp: below_modulus)
  have "(2 :: nat) ^ depth \<le> 2 ^ 32" using assms(4) by (intro power_increasing) simp_all
  then have len64: "length leaves < 2 ^ 64" using assms(2) by simp
  have ls: "map (scalar_node ?full 0) [0..<2 ^ depth] = ?full" using len by (intro nth_equalityI) simp_all
  have ne: "?full \<noteq> []" using len by (metis length_0_conv power_not_zero zero_neq_numeral)
  have p2: "is_power_of_two (2 ^ depth)" using is_power_of_two_iff by blast
  have "map field_to_scalar leaves = map unat (map f_val leaves)"
    using assms(1) by (simp add: field_to_scalar_val)
  then have "scalar_node ?full depth 0 = unat (node (hash_of crate_perm) zero_leaf (map f_val leaves) depth 0)"
    using scalar_node_value [of "map f_val leaves" depth 0] by (simp only: node_pad)
  also have "\<dots> = unat (f_val (node field_hash zero_field leaves depth 0))" by (simp only: node_value)
  finally have top: "scalar_node ?full depth 0 = unat (f_val (node field_hash zero_field leaves depth 0))" .
  have "merkle_root_of ?full = Inr (unat (f_val (node field_hash zero_field leaves depth 0)))"
    using full_root_loop_ok [OF small, of 0 depth] unfolding merkle_root_of_def len by (simp only: ne p2 ls top if_False not_True_eq_False add_0)
  then show ?thesis
    using prefix_new_ok [of depth leaves] prefix_root_ok [OF _ assms(1) len64, of depth] assms(3,4) by (simp del: upt_Suc)
qed

theorem prefix_root_is_full_root_witness:
  "\<exists>t r. prefix_new 1 [F_ONE] = Inr t \<and> prefix_root t = Inr r \<and> merkle_root_of ([field_to_scalar F_ONE] @ replicate 1 (unat zero_leaf)) = Inr (unat (f_val r))"
  using prefix_root_is_full_root [of "[F_ONE]" 1] by (auto simp: F_ONE_def f_canonical_nat)

end
