(* ===== verification/ClientSmt.thy ===== *)
theory ClientSmt imports ClientCrypto SmtLedger begin

text \<open>
  The sparse Merkle tree of the off-chain code, from
  \<^verbatim>\<open>app/crates/core/prover/src/sparse_merkle.rs\<close>: a map from the bytes of hashes to nodes,
  with search, insertion and update, and the byte interface over it. It refines the tries of the
  non-membership contract: after any operations its root is the hash of the trie of the keys it holds,
  so it agrees with the contract exactly when both hold the same keys and values, and the contract
  accepts the proofs it gives.
\<close>

section \<open>Nodes\<close>

datatype tree_error =
    TreeDepthExceeded
  | TreeLevelOverflow
  | TreeNodeMissing
  | TreeKeyExists
  | TreeKeyMissing
  | TreeExpectedBytes
  | TreeField amount_error
  | TreeCrypto prover_error

datatype tree_node = TreeEmpty | TreeLeaf field field | TreeInternal field field

record tree_found =
  tf_found :: bool
  tf_siblings :: "field list"
  tf_found_value :: field
  tf_not_found_key :: field
  tf_not_found_value :: field
  tf_is_old0 :: bool

record tree_result =
  tr_old_root :: field
  tr_new_root :: field
  tr_siblings :: "field list"
  tr_old_key :: field
  tr_old_value :: field
  tr_new_key :: field
  tr_new_value :: field
  tr_is_old0 :: bool

record client_tree =
  ct_db :: "byte list \<Rightarrow> tree_node option"
  ct_root :: field

definition poseidon2_hash_leaf :: "field \<Rightarrow> field \<Rightarrow> (tree_error, field) outcome" where
  "poseidon2_hash_leaf key value =
     (let key_s = field_to_scalar key; value_s = field_to_scalar value in
      andThen (map_err TreeCrypto (poseidon2_hash2_internal key_s value_s (Some 1))) scalar_to_field)"

definition smt_hash_pair_field :: "field \<Rightarrow> field \<Rightarrow> (tree_error, field) outcome" where
  "smt_hash_pair_field left right =
     (let left_s = field_to_scalar left; right_s = field_to_scalar right in
      andThen (map_err TreeCrypto (poseidon2_compression left_s right_s)) scalar_to_field)"

definition field_to_key :: "field \<Rightarrow> byte list" where
  "field_to_key f = f_to_le_bytes f"

text \<open>The four limbs of the scalar, least significant first, and the bits of each.\<close>

definition field_to_bits :: "field \<Rightarrow> bool list" where
  "field_to_bits f =
     (let scalar = field_to_scalar f;
          limbs = map (\<lambda>j. word_of_nat (scalar div 2 ^ (64 * j)) :: u64) [0..<4];
          bits = concat (map (\<lambda>limb. map (\<lambda>i. (limb div 2 ^ i) mod 2 = 1) [0..<64]) limbs) in
      take 256 bits)"

definition tree_new :: client_tree where
  "tree_new = \<lparr>ct_db = Map.empty, ct_root = F_ZERO\<rparr>"

definition get_node :: "client_tree \<Rightarrow> field \<Rightarrow> tree_node option" where
  "get_node tree hash = (if hash = F_ZERO then Some TreeEmpty else ct_db tree (field_to_key hash))"

definition put_node :: "field \<Rightarrow> tree_node \<Rightarrow> client_tree \<Rightarrow> client_tree" where
  "put_node hash n tree =
     (if hash \<noteq> F_ZERO then tree\<lparr>ct_db := (ct_db tree)(field_to_key hash \<mapsto> n)\<rparr> else tree)"

section \<open>Search\<close>

function find_internal :: "client_tree \<Rightarrow> field \<Rightarrow> bool list \<Rightarrow> field \<Rightarrow> nat \<Rightarrow> (tree_error, tree_found) outcome" where
  "find_internal tree key key_bits current_hash level =
     (if 256 \<le> level then Inl (Fail TreeDepthExceeded)
      else if current_hash = F_ZERO
      then Inr \<lparr>tf_found = False, tf_siblings = [], tf_found_value = F_ZERO, tf_not_found_key = key,
             tf_not_found_value = F_ZERO, tf_is_old0 = True\<rparr>
      else case get_node tree current_hash of
        Some (TreeLeaf leaf_key leaf_value) \<Rightarrow>
          (if leaf_key = key
           then Inr \<lparr>tf_found = True, tf_siblings = [], tf_found_value = leaf_value, tf_not_found_key = F_ZERO,
                  tf_not_found_value = F_ZERO, tf_is_old0 = False\<rparr>
           else Inr \<lparr>tf_found = False, tf_siblings = [], tf_found_value = F_ZERO, tf_not_found_key = leaf_key,
                  tf_not_found_value = leaf_value, tf_is_old0 = False\<rparr>)
      | Some (TreeInternal left right) \<Rightarrow>
          andThen (vec_index key_bits level) (\<lambda>b.
          let child = (if b then right else left); sibling = (if b then left else right) in
          andThen (ok_or TreeLevelOverflow (usize_checked_add level 1)) (\<lambda>next_level.
          andThen (find_internal tree key key_bits child next_level) (\<lambda>result.
          Inr (result\<lparr>tf_siblings := tf_siblings result @ [sibling]\<rparr>))))
      | Some TreeEmpty \<Rightarrow>
          Inr \<lparr>tf_found = False, tf_siblings = [], tf_found_value = F_ZERO, tf_not_found_key = key,
            tf_not_found_value = F_ZERO, tf_is_old0 = True\<rparr>
      | None \<Rightarrow> Inl (Fail TreeNodeMissing))"
  by pat_completeness auto
termination
  by (relation "measure (\<lambda>(tree, key, key_bits, current_hash, level). 256 - level)")
    (auto simp: ok_or_Inr usize_checked_add_def split: if_splits)

declare find_internal.simps [simp del]

definition tree_find :: "client_tree \<Rightarrow> field \<Rightarrow> (tree_error, tree_found) outcome" where
  "tree_find tree key =
     (let key_bits = field_to_bits key in
      andThen (find_internal tree key key_bits (ct_root tree) 0) (\<lambda>result.
      Inr (result\<lparr>tf_siblings := rev (tf_siblings result)\<rparr>)))"

section \<open>Insertion and update\<close>

text \<open>The loop that looks for the level where the keys part, with one zero sibling for each common bit.\<close>

function diverge_loop :: "bool list \<Rightarrow> bool list \<Rightarrow> nat \<Rightarrow> field list \<Rightarrow> (tree_error, field list) outcome" where
  "diverge_loop old_key_bits key_bits diverge_level sibs =
     andThen (if diverge_level < 256
              then andThen (vec_index old_key_bits diverge_level) (\<lambda>a.
                   andThen (vec_index key_bits diverge_level) (\<lambda>b. Inr (a = b)))
              else Inr False) (\<lambda>continue.
     if continue then diverge_loop old_key_bits key_bits (min (diverge_level + 1) (2 ^ 64 - 1)) (sibs @ [F_ZERO])
     else Inr sibs)"
  by pat_completeness auto
termination
  by (relation "measure (\<lambda>(old_key_bits, key_bits, diverge_level, sibs). 256 - diverge_level)")
    (auto split: if_splits)

declare diverge_loop.simps [simp del]

text \<open>The loop \<open>for (level, sibling) in siblings.iter().enumerate().rev()\<close>.\<close>

fun tree_path_loop :: "bool list \<Rightarrow> (nat \<times> field) list \<Rightarrow> field \<Rightarrow> client_tree \<Rightarrow> (tree_error, field \<times> client_tree) outcome" where
  "tree_path_loop key_bits [] current_hash tree = Inr (current_hash, tree)"
| "tree_path_loop key_bits ((level, sibling) # rest) current_hash tree =
     andThen (vec_index key_bits level) (\<lambda>b.
     let (left, right) = (if b then (sibling, current_hash) else (current_hash, sibling)) in
     andThen (smt_hash_pair_field left right) (\<lambda>current_hash.
     tree_path_loop key_bits rest current_hash (put_node current_hash (TreeInternal left right) tree)))"

text \<open>The loop that drops the zeros at the end.\<close>

function trim_zeros :: "field list \<Rightarrow> field list" where
  "trim_zeros sibs = (if sibs \<noteq> [] \<and> last sibs = F_ZERO then trim_zeros (butlast sibs) else sibs)"
  by pat_completeness auto
termination by (relation "measure length") auto

declare trim_zeros.simps [simp del]

definition tree_insert :: "client_tree \<Rightarrow> field \<Rightarrow> field \<Rightarrow> (tree_error, tree_result \<times> client_tree) outcome" where
  "tree_insert tree key value =
     andThen (tree_find tree key) (\<lambda>fr.
     if tf_found fr then Inl (Fail TreeKeyExists)
     else
       let old_root = ct_root tree; key_bits = field_to_bits key in
       andThen (poseidon2_hash_leaf key value) (\<lambda>new_leaf_hash.
       let tree = put_node new_leaf_hash (TreeLeaf key value) tree; sibs = tf_siblings fr in
       andThen (if \<not> tf_is_old0 fr
                then let old_key_bits = field_to_bits (tf_not_found_key fr) in
                     andThen (diverge_loop old_key_bits key_bits (length sibs) sibs) (\<lambda>sibs.
                     andThen (poseidon2_hash_leaf (tf_not_found_key fr) (tf_not_found_value fr)) (\<lambda>old_leaf_hash.
                     Inr (sibs @ [old_leaf_hash])))
                else Inr sibs) (\<lambda>sibs.
       andThen (tree_path_loop key_bits (rev (enumerate 0 sibs)) new_leaf_hash tree) (\<lambda>(current_hash, tree).
       let tree = tree\<lparr>ct_root := current_hash\<rparr>;
           result_siblings = trim_zeros sibs;
           result_siblings = (if \<not> tf_is_old0 fr \<and> result_siblings \<noteq> [] then butlast result_siblings else result_siblings) in
       Inr (\<lparr>tr_old_root = old_root, tr_new_root = ct_root tree, tr_siblings = result_siblings,
             tr_old_key = tf_not_found_key fr, tr_old_value = tf_not_found_value fr, tr_new_key = key,
             tr_new_value = value, tr_is_old0 = tf_is_old0 fr\<rparr>, tree)))))"

definition tree_update :: "client_tree \<Rightarrow> field \<Rightarrow> field \<Rightarrow> (tree_error, tree_result \<times> client_tree) outcome" where
  "tree_update tree key new_value =
     andThen (tree_find tree key) (\<lambda>fr.
     if \<not> tf_found fr then Inl (Fail TreeKeyMissing)
     else
       let old_root = ct_root tree; old_value = tf_found_value fr; key_bits = field_to_bits key in
       andThen (poseidon2_hash_leaf key new_value) (\<lambda>new_leaf_hash.
       let tree = put_node new_leaf_hash (TreeLeaf key new_value) tree in
       andThen (tree_path_loop key_bits (rev (enumerate 0 (tf_siblings fr))) new_leaf_hash tree) (\<lambda>(current_hash, tree).
       let tree = tree\<lparr>ct_root := current_hash\<rparr> in
       Inr (\<lparr>tr_old_root = old_root, tr_new_root = ct_root tree, tr_siblings = tf_siblings fr, tr_old_key = key,
             tr_old_value = old_value, tr_new_key = key, tr_new_value = new_value, tr_is_old0 = False\<rparr>, tree))))"

section \<open>The byte interface\<close>

record wasm_result =
  wr_old_root :: "byte list"
  wr_new_root :: "byte list"
  wr_siblings :: "byte list"
  wr_old_key :: "byte list"
  wr_old_value :: "byte list"
  wr_new_key :: "byte list"
  wr_new_value :: "byte list"
  wr_is_old0 :: bool
  wr_num_siblings :: nat

record wasm_find_result =
  wf_found :: bool
  wf_siblings :: "byte list"
  wf_found_value :: "byte list"
  wf_not_found_key :: "byte list"
  wf_not_found_value :: "byte list"
  wf_is_old0 :: bool
  wf_root :: "byte list"
  wf_num_siblings :: nat

record smt_proof =
  sp_found :: bool
  sp_siblings :: "byte list"
  sp_found_value :: "byte list"
  sp_not_found_key :: "byte list"
  sp_not_found_value :: "byte list"
  sp_is_old0 :: bool
  sp_root :: "byte list"
  sp_num_siblings :: nat

definition bytes_to_field :: "byte list \<Rightarrow> (tree_error, field) outcome" where
  "bytes_to_field bytes =
     (if length bytes = 32 then map_err TreeField (f_try_from_le_bytes bytes) else Inl (Fail TreeExpectedBytes))"

definition wasm_result_of :: "tree_result \<Rightarrow> wasm_result" where
  "wasm_result_of r =
     \<lparr>wr_old_root = f_to_le_bytes (tr_old_root r), wr_new_root = f_to_le_bytes (tr_new_root r),
      wr_siblings = concat (map f_to_le_bytes (tr_siblings r)), wr_old_key = f_to_le_bytes (tr_old_key r),
      wr_old_value = f_to_le_bytes (tr_old_value r), wr_new_key = f_to_le_bytes (tr_new_key r),
      wr_new_value = f_to_le_bytes (tr_new_value r), wr_is_old0 = tr_is_old0 r,
      wr_num_siblings = length (tr_siblings r)\<rparr>"

definition wasm_find_result_of :: "tree_found \<Rightarrow> field \<Rightarrow> wasm_find_result" where
  "wasm_find_result_of r root =
     \<lparr>wf_found = tf_found r, wf_siblings = concat (map f_to_le_bytes (tf_siblings r)),
      wf_found_value = f_to_le_bytes (tf_found_value r), wf_not_found_key = f_to_le_bytes (tf_not_found_key r),
      wf_not_found_value = f_to_le_bytes (tf_not_found_value r), wf_is_old0 = tf_is_old0 r,
      wf_root = f_to_le_bytes root, wf_num_siblings = length (tf_siblings r)\<rparr>"

definition wasm_root :: "client_tree \<Rightarrow> byte list" where
  "wasm_root tree = f_to_le_bytes (ct_root tree)"

definition wasm_insert :: "client_tree \<Rightarrow> byte list \<Rightarrow> byte list \<Rightarrow> (tree_error, wasm_result \<times> client_tree) outcome" where
  "wasm_insert tree key_bytes value_bytes =
     andThen (bytes_to_field key_bytes) (\<lambda>key.
     andThen (bytes_to_field value_bytes) (\<lambda>value.
     andThen (tree_insert tree key value) (\<lambda>(result, tree).
     Inr (wasm_result_of result, tree))))"

definition wasm_update :: "client_tree \<Rightarrow> byte list \<Rightarrow> byte list \<Rightarrow> (tree_error, wasm_result \<times> client_tree) outcome" where
  "wasm_update tree key_bytes new_value_bytes =
     andThen (bytes_to_field key_bytes) (\<lambda>key.
     andThen (bytes_to_field new_value_bytes) (\<lambda>new_value.
     andThen (tree_update tree key new_value) (\<lambda>(result, tree).
     Inr (wasm_result_of result, tree))))"

definition wasm_find :: "client_tree \<Rightarrow> byte list \<Rightarrow> (tree_error, wasm_find_result) outcome" where
  "wasm_find tree key_bytes =
     andThen (bytes_to_field key_bytes) (\<lambda>key.
     andThen (tree_find tree key) (\<lambda>result.
     Inr (wasm_find_result_of result (ct_root tree))))"

text \<open>The loop that pads the siblings with zeros.\<close>

function pad_siblings :: "nat \<Rightarrow> field list \<Rightarrow> field list" where
  "pad_siblings max_levels sibs = (if length sibs < max_levels then pad_siblings max_levels (sibs @ [F_ZERO]) else sibs)"
  by pat_completeness auto
termination by (relation "measure (\<lambda>(max_levels, sibs). max_levels - length sibs)") auto

declare pad_siblings.simps [simp del]

definition wasm_get_proof :: "client_tree \<Rightarrow> byte list \<Rightarrow> nat \<Rightarrow> (tree_error, smt_proof) outcome" where
  "wasm_get_proof tree key_bytes max_levels =
     andThen (bytes_to_field key_bytes) (\<lambda>key.
     andThen (tree_find tree key) (\<lambda>fr.
     let sibs = pad_siblings max_levels (tf_siblings fr) in
     Inr \<lparr>sp_found = tf_found fr, sp_siblings = concat (map f_to_le_bytes sibs),
          sp_found_value = f_to_le_bytes (tf_found_value fr), sp_not_found_key = f_to_le_bytes (tf_not_found_key fr),
          sp_not_found_value = f_to_le_bytes (tf_not_found_value fr), sp_is_old0 = tf_is_old0 fr,
          sp_root = f_to_le_bytes (ct_root tree), sp_num_siblings = length sibs\<rparr>))"

definition smt_hash_pair :: "byte list \<Rightarrow> byte list \<Rightarrow> (tree_error, byte list) outcome" where
  "smt_hash_pair left right =
     andThen (bytes_to_field left) (\<lambda>l.
     andThen (bytes_to_field right) (\<lambda>r.
     andThen (smt_hash_pair_field l r) (\<lambda>result. Inr (f_to_le_bytes result))))"

definition smt_hash_leaf :: "byte list \<Rightarrow> byte list \<Rightarrow> (tree_error, byte list) outcome" where
  "smt_hash_leaf key value =
     andThen (bytes_to_field key) (\<lambda>k.
     andThen (bytes_to_field value) (\<lambda>v.
     andThen (poseidon2_hash_leaf k v) (\<lambda>result. Inr (f_to_le_bytes result))))"

section \<open>Hashes and bits\<close>

text \<open>The hash of a trie as a field element, and the node stored under it.\<close>

abbreviation ch :: "smt \<Rightarrow> u256" where
  "ch t \<equiv> thash crate_perm t"

definition field_of :: "smt \<Rightarrow> field" where
  "field_of t = Field (ch t)"

fun node_of :: "smt \<Rightarrow> tree_node" where
  "node_of E = TreeEmpty"
| "node_of (L k v) = TreeLeaf (Field k) (Field v)"
| "node_of (N l r) = TreeInternal (field_of l) (field_of r)"

lemma field_of_canonical [simp]: "f_canonical (field_of t)"
  using thash_less [OF crate_perm_host_ok, of t] by (simp add: field_of_def f_canonical_nat below_modulus)

lemma field_of_E [simp]: "field_of E = F_ZERO"
  by (simp add: field_of_def F_ZERO_def)

lemma canonical_Field [simp]: "f_canonical (Field k) \<longleftrightarrow> k < bn256_modulus"
  by (simp add: f_canonical_nat below_modulus)

lemma field_scalar [simp]: "k < bn256_modulus \<Longrightarrow> field_to_scalar (Field k) = unat k"
  by (simp add: field_to_scalar_val)

lemma hash_leaf_field:
  assumes "k < bn256_modulus" "v < bn256_modulus"
  shows "poseidon2_hash_leaf (Field k) (Field v) = Inr (field_of (L k v))"
proof -
  obtain h where h: "h < bn_p" "poseidon2_hash2_internal (unat k) (unat v) (Some (unat (1 :: u256))) = Inr h"
    "(poseidon2_hash2 crate_perm k v (Some 1) :: (unit, u256) outcome) = Inr (word_of_nat h)"
    using client_hash2_contract [OF assms one_less_modulus(1)] by blast
  then have "leaf_hash crate_perm k v = word_of_nat h"
    using leaf_hash_ok [OF crate_perm_host_ok assms] by (metis sum.inject(2))
  then show ?thesis using h(1,2) assms by (simp add: poseidon2_hash_leaf_def scalar_to_field_val field_of_def)
qed

lemma hash_pair_field: "smt_hash_pair_field (field_of a) (field_of b) = Inr (field_of (N a b))"
proof -
  have less: "unat (hash_of crate_perm l r) < bn_p" for l r
    using hash_of_less [of crate_perm l r] by (simp add: below_modulus crate_perm_host_ok)
  have "field_to_scalar (field_of t) = unat (ch t)" for t
    using field_to_scalar_val [OF field_of_canonical, of t] by (simp only: field_of_def field.sel)
  then show ?thesis using less
    by (simp add: smt_hash_pair_field_def client_compression_hash_of scalar_to_field_val field_of_def)
qed

lemma key_inject: "f_canonical f \<Longrightarrow> f_canonical g \<Longrightarrow> field_to_key f = field_to_key g \<longleftrightarrow> f = g"
  using field_le.enc_inject by (auto simp: field_to_key_def)

lemma field_of_inject: "field_of s = field_of t \<longleftrightarrow> ch s = ch t"
  by (simp add: field_of_def)

lemma field_to_bits_length [simp]: "length (field_to_bits f) = 256"
  by (simp add: field_to_bits_def Let_def length_concat comp_def sum_list_triv upt_conv_Cons)

lemma nth_concat_map:
  "j < n \<Longrightarrow> i < w \<Longrightarrow> (\<And>x. length (f x) = w) \<Longrightarrow> concat (map f [0..<n]) ! (w * j + i) = f j ! i"
proof (induction n)
  case (Suc n)
  have len: "length (concat (map f [0..<n])) = w * n" using Suc.prems(3) by (simp add: length_concat comp_def sum_list_triv)
  show ?case
  proof (cases "j = n")
    case False
    then have "j < n" using Suc.prems(1) by simp
    moreover have "w * j + i < w * n"
    proof -
      have "w * j + i < w * Suc j" using Suc.prems(2) by simp
      also have "\<dots> \<le> w * n" using \<open>j < n\<close> by (intro mult_le_mono2) simp
      finally show ?thesis .
    qed
    ultimately show ?thesis using Suc len by (simp add: nth_append)
  qed (use Suc.prems(2) len in \<open>simp add: nth_append\<close>)
qed simp

lemma bit_unat: "bit (unat (w :: 'a::len word)) i = bit w i"
  using bit_imp_le_length [of w i] by (auto simp: bit_unsigned_iff)

lemma bit_limb: "i < 64 \<Longrightarrow> bit (word_of_nat n :: u64) i = bit n i"
proof -
  have "unat (word_of_nat n :: u64) = take_bit 64 n" by (simp add: unat_of_nat take_bit_eq_mod)
  then show "i < 64 \<Longrightarrow> bit (word_of_nat n :: u64) i = bit n i"
    by (simp flip: bit_unat add: bit_take_bit_iff)
qed

lemma field_to_bits_nth:
  assumes "k < bn256_modulus" "i < 256"
  shows "field_to_bits (Field k) ! i = bit k i"
proof -
  let ?f = "\<lambda>j. map (\<lambda>i. ((word_of_nat (unat k div 2 ^ (64 * j)) :: u64) div 2 ^ i) mod 2 = 1) [0..<64]"
  have i: "i = 64 * (i div 64) + i mod 64" "i div 64 < 4" "i mod 64 < 64" using assms(2) by auto
  have "field_to_bits (Field k) ! i = concat (map ?f [0..<4]) ! i"
    using assms by (simp add: field_to_bits_def Let_def comp_def)
  also have "\<dots> = ?f (i div 64) ! (i mod 64)"
    using nth_concat_map [OF i(2,3), of ?f] i(1) by simp
  also have "\<dots> = bit (word_of_nat (unat k div 2 ^ (64 * (i div 64))) :: u64) (i mod 64)"
    using i(3) by (simp add: bit_iff_odd odd_iff_mod_2_eq_one)
  also have "\<dots> = bit (unat k div 2 ^ (64 * (i div 64))) (i mod 64)"
    using i(3) by (rule bit_limb)
  also have "\<dots> = bit (unat k) (64 * (i div 64) + i mod 64)"
    by (simp only: bit_iff_odd power_add div_mult2_eq)
  also have "\<dots> = bit k i" using i(1) by (simp add: bit_unat)
  finally show ?thesis .
qed


section \<open>Search in a stored trie\<close>

text \<open>
  Keys are elements of the field, so two of them differ in one of the first 254 bits and no leaf
  is deeper: the search does not meet its limit of 256 levels.
\<close>

lemma small_bit: "k < bn256_modulus \<Longrightarrow> bit k i \<Longrightarrow> i < 254"
proof (rule ccontr)
  assume k: "k < bn256_modulus" "bit k i" "\<not> i < 254"
  have "unat k < 2 ^ 254" using k(1) bn_p_less by (simp add: below_modulus)
  also have "\<dots> \<le> (2 :: nat) ^ i" using k(3) by (intro power_increasing) simp_all
  finally have "\<not> bit (unat k) i" by (simp add: bit_iff_odd)
  then show False using k(2) by (simp add: bit_unat)
qed

lemma node_depth: "trie_wf d t \<Longrightarrow> fits t \<Longrightarrow> many t \<Longrightarrow> d < 254"
proof (induction t arbitrary: d)
  case (N l r)
  show ?case
  proof (cases "r = E")
    case True
    then show ?thesis using N.IH(1) [of "Suc d"] N.prems by auto
  next
    case False
    then obtain k v where "(k, v) \<in> entries r" using entries_not_E [of r "Suc d"] N.prems(1) by fastforce
    then have "bit k d" "k < bn256_modulus" using N.prems(1,2) by (force simp: fits_def)+
    then show ?thesis by (rule small_bit [rotated])
  qed
qed auto

definition tree_holds :: "client_tree \<Rightarrow> smt set \<Rightarrow> bool" where
  "tree_holds tree T \<longleftrightarrow> (\<forall>t \<in> T. ct_db tree (field_to_key (field_of t)) = Some (node_of t))"

definition found_in :: "field \<Rightarrow> nat \<Rightarrow> smt \<Rightarrow> tree_found" where
  "found_in key d t =
     (let sibs = map field_of (siblings d (f_val key) t) in
      case end_of d (f_val key) t of
        L k v \<Rightarrow>
          (if k = f_val key
           then \<lparr>tf_found = True, tf_siblings = sibs, tf_found_value = Field v, tf_not_found_key = F_ZERO,
                  tf_not_found_value = F_ZERO, tf_is_old0 = False\<rparr>
           else \<lparr>tf_found = False, tf_siblings = sibs, tf_found_value = F_ZERO, tf_not_found_key = Field k,
                  tf_not_found_value = Field v, tf_is_old0 = False\<rparr>)
      | _ \<Rightarrow> \<lparr>tf_found = False, tf_siblings = sibs, tf_found_value = F_ZERO, tf_not_found_key = key,
               tf_not_found_value = F_ZERO, tf_is_old0 = True\<rparr>)"

lemma found_in_N:
  "found_in key d (N l r) =
    (if bit (f_val key) d
     then (found_in key (Suc d) r)\<lparr>tf_siblings := field_of l # tf_siblings (found_in key (Suc d) r)\<rparr>
     else (found_in key (Suc d) l)\<lparr>tf_siblings := field_of r # tf_siblings (found_in key (Suc d) l)\<rparr>)"
  by (simp add: found_in_def Let_def split: smt.split)

lemma field_of_zero: "field_of t = F_ZERO \<longleftrightarrow> ch t = 0"
  by (simp add: field_of_def F_ZERO_def)

lemma find_internal_ok:
  assumes "trie_wf d t" "fits t" "tree_holds tree (subtries t)" "0 \<notin> ch ` subtries t" "f_canonical key" "d \<le> 254"
  shows "find_internal tree key (field_to_bits key) (field_of t) d =
    Inr ((found_in key d t)\<lparr>tf_siblings := rev (tf_siblings (found_in key d t))\<rparr>)"
  using assms
proof (induction t arbitrary: d)
  case E
  then show ?case by (subst find_internal.simps) (simp add: found_in_def)
next
  case (L k v)
  then have "field_of (L k v) \<noteq> F_ZERO" "get_node tree (field_of (L k v)) = Some (TreeLeaf (Field k) (Field v))"
    by (simp_all add: field_of_zero get_node_def tree_holds_def)
  then show ?case using L.prems(6)
    by (subst find_internal.simps, cases key) (auto simp: found_in_def)
next
  case (N l r)
  have node: "field_of (N l r) \<noteq> F_ZERO" "get_node tree (field_of (N l r)) = Some (TreeInternal (field_of l) (field_of r))"
    using N.prems(3,4) by (simp_all add: field_of_zero get_node_def tree_holds_def)
  have d: "d < 254" using node_depth [OF N.prems(1,2)] by simp
  have sub: "tree_holds tree (subtries l)" "tree_holds tree (subtries r)" using N.prems(3) by (auto simp: tree_holds_def)
  have nz: "0 \<notin> ch ` subtries l" "0 \<notin> ch ` subtries r" using N.prems(4) by auto
  have bits: "vec_index (field_to_bits key) d = Inr (bit (f_val key) d)"
    using d field_to_bits_nth [of "f_val key" d] N.prems(5) by (cases key) simp
  have lvl: "usize_checked_add d 1 = Some (Suc d)" using d by (simp add: usize_checked_add_def)
  have IH: "find_internal tree key (field_to_bits key) (field_of l) (Suc d) =
      Inr ((found_in key (Suc d) l)\<lparr>tf_siblings := rev (tf_siblings (found_in key (Suc d) l))\<rparr>)"
    "find_internal tree key (field_to_bits key) (field_of r) (Suc d) =
      Inr ((found_in key (Suc d) r)\<lparr>tf_siblings := rev (tf_siblings (found_in key (Suc d) r))\<rparr>)"
    using N.IH(1) [of "Suc d"] N.IH(2) [of "Suc d"] N.prems(1,2,5) sub nz d by simp_all
  show ?case
    using d node bits lvl IH by (subst find_internal.simps) (simp add: found_in_N)
qed


text \<open>The tree that represents a trie.\<close>

definition tree_ok :: "smt \<Rightarrow> client_tree \<Rightarrow> bool" where
  "tree_ok t tree \<longleftrightarrow> trie_wf 0 t \<and> fits t \<and> ct_root tree = field_of t \<and> tree_holds tree (subtries t)"

lemma tree_find_ok:
  assumes "tree_ok t tree" "0 \<notin> ch ` subtries t" "f_canonical key"
  shows "tree_find tree key = Inr (found_in key 0 t)"
  using find_internal_ok [of 0 t tree key] assms by (simp add: tree_find_def tree_ok_def)

lemma found_in_absent:
  assumes "trie_wf 0 t" "k \<notin> keys t"
  shows "\<not> tf_found (found_in (Field k) 0 t)" "tf_siblings (found_in (Field k) 0 t) = map field_of (siblings 0 k t)"
    "tf_is_old0 (found_in (Field k) 0 t) = (end_of 0 k t = E)"
  using assms keys_end_of [OF assms(1), of k] end_of_cases [of 0 k t] by (force simp: found_in_def Let_def)+

section \<open>Writing a path\<close>

lemma diverge_loop_ok:
  assumes "k < bn256_modulus" "k' < bn256_modulus"
  shows "i \<le> 256 \<Longrightarrow> diverge_loop (field_to_bits (Field k')) (field_to_bits (Field k)) i s =
    Inr (s @ replicate (common i k k') F_ZERO)"
proof (induction "256 - i" arbitrary: i s)
  case 0
  then have "i = 256" by simp
  then show ?case by (subst diverge_loop.simps, subst common.simps) simp
next
  case (Suc n)
  then have i: "i < 256" by simp
  note bits = field_to_bits_nth [OF assms(1) i] field_to_bits_nth [OF assms(2) i]
  show ?case
  proof (cases "bit k i = bit k' i")
    case True
    then show ?thesis using i bits Suc.hyps(1) [of "Suc i" "s @ [F_ZERO]"] Suc.hyps(2)
      by (subst diverge_loop.simps, subst common.simps) (simp add: min_def)
  next
    case False
    then show ?thesis using i bits by (subst diverge_loop.simps, subst common.simps) auto
  qed
qed

lemma put_node_root [simp]: "ct_root (put_node h n tree) = ct_root tree"
  by (simp add: put_node_def)

lemma put_node_ok:
  assumes "tree_holds tree X" "no_collision crate_perm T" "X \<subseteq> T" "s \<in> T"
  shows "tree_holds (put_node (field_of s) (node_of s) tree) (insert s X)"
proof -
  have "field_of s \<noteq> F_ZERO" using assms(2,4) by (auto simp: no_collision_def field_of_zero)
  moreover have "field_to_key (field_of u) = field_to_key (field_of s) \<longleftrightarrow> u = s" if "u \<in> X" for u
    using assms(2-4) that by (auto simp: key_inject field_of_inject no_collision_def inj_on_def)
  ultimately show ?thesis using assms(1) by (auto simp: tree_holds_def put_node_def)
qed

text \<open>The tries on the way from a leaf up to the trie with that leaf.\<close>

definition tails :: "u256 \<Rightarrow> smt list \<Rightarrow> smt \<Rightarrow> nat \<Rightarrow> smt set" where
  "tails k S x n = {plug j k (drop j S) x |j. n \<le> j \<and> j \<le> length S}"

lemma tails_step: "n < length S \<Longrightarrow> tails k S x n = insert (plug n k (drop n S) x) (tails k S x (Suc n))"
  unfolding tails_def by (auto simp: le_less Suc_le_eq)

lemma tree_path_loop_ok:
  assumes "no_collision crate_perm T" "X \<union> tails k S x 0 \<subseteq> T" "k < bn256_modulus" "length S \<le> 256"
  shows "n \<le> length S \<Longrightarrow> tree_holds tree (X \<union> tails k S x n) \<Longrightarrow>
    \<exists>tree'. tree_path_loop (field_to_bits (Field k)) (rev (enumerate 0 (take n (map field_of S)))) (field_of (plug n k (drop n S) x)) tree =
      Inr (field_of (plug 0 k S x), tree') \<and> tree_holds tree' (X \<union> tails k S x 0)"
proof (induction n arbitrary: tree)
  case (Suc n)
  then have n: "n < length S" by simp
  let ?p = "plug n k (drop n S) x" and ?q = "plug (Suc n) k (drop (Suc n) S) x"
  have p: "?p = join (bit k n) (S ! n) ?q" using n by (simp add: Cons_nth_drop_Suc [symmetric])
  have "?p \<in> tails k S x 0" "tails k S x (Suc n) \<subseteq> tails k S x 0" using n by (auto simp: tails_def)
  then have sub: "X \<union> tails k S x (Suc n) \<subseteq> T" "?p \<in> T" using assms(2) by blast+
  have "tree_holds (put_node (field_of ?p) (node_of ?p) tree) (X \<union> tails k S x n)"
    using put_node_ok [OF Suc.prems(2) assms(1) sub] by (simp add: tails_step [OF n])
  from Suc.IH [OF _ this] n obtain tree' where tree': "tree_path_loop (field_to_bits (Field k))
      (rev (enumerate 0 (take n (map field_of S)))) (field_of ?p) (put_node (field_of ?p) (node_of ?p) tree) =
      Inr (field_of (plug 0 k S x), tree')" "tree_holds tree' (X \<union> tails k S x 0)"
    by auto
  have bits: "vec_index (field_to_bits (Field k)) n = (Inr (bit k n) :: (tree_error, bool) outcome)"
    using n assms(4) field_to_bits_nth [OF assms(3), of n] by simp
  have "rev (enumerate 0 (take (Suc n) (map field_of S))) = (n, field_of (S ! n)) # rev (enumerate 0 (take n (map field_of S)))"
    using rev_enumerate_Suc [of n "map field_of S"] n by simp
  then show ?case using tree' bits unfolding p by (auto simp: join_def hash_pair_field)
qed simp

lemma write_path:
  assumes "tree_holds tree (subtries t)" "no_collision crate_perm (subtries t \<union> subtries t')" "t' = plug 0 k S (L k v)"
    and "length S \<le> 256" "k < bn256_modulus" "\<And>u. u \<in> set S \<Longrightarrow> subtries u \<subseteq> subtries t"
  shows "\<exists>tree'. tree_path_loop (field_to_bits (Field k)) (rev (enumerate 0 (map field_of S))) (field_of (L k v))
      (put_node (field_of (L k v)) (TreeLeaf (Field k) (Field v)) tree) = Inr (field_of t', tree') \<and>
    tree_holds tree' (subtries t')"
proof -
  let ?T = "subtries t \<union> subtries t'" and ?x = "L k v"
  have ne: "plug j k (drop j S) ?x \<noteq> E" for j by (cases "drop j S") (simp_all add: join_def)
  have tl: "tails k S ?x 0 \<subseteq> subtries t'"
    using plug_subtries [of _ S 0 k ?x] subtries_self [OF ne] assms(3) by (fastforce simp: tails_def)
  have last: "tails k S ?x (length S) = {?x}" by (auto simp: tails_def intro: exI [of _ "length S"])
  then have x: "?x \<in> ?T" using tl by (auto simp: tails_def intro: exI [of _ "length S"])
  have "tree_holds (put_node (field_of ?x) (TreeLeaf (Field k) (Field v)) tree) (subtries t \<union> tails k S ?x (length S))"
    using put_node_ok [OF assms(1,2) _ x] last by simp
  from tree_path_loop_ok [OF assms(2) _ assms(5,4) order.refl this] tl obtain tree' where tree':
    "tree_path_loop (field_to_bits (Field k)) (rev (enumerate 0 (map field_of S))) (field_of ?x)
      (put_node (field_of ?x) (TreeLeaf (Field k) (Field v)) tree) = Inr (field_of t', tree')"
    "tree_holds tree' (subtries t \<union> tails k S ?x 0)"
    using assms(3) by auto
  have "subtries t' \<subseteq> subtries t \<union> tails k S ?x 0"
  proof
    fix s assume "s \<in> subtries t'"
    then consider "s = ?x" | u where "u \<in> set S" "s \<in> subtries u" | j where "j < length S" "s = plug (0 + j) k (drop j S) ?x"
      using subtries_plug [of s 0 k S ?x] assms(3) by auto
    then show "s \<in> subtries t \<union> tails k S ?x 0"
    proof cases
      case 1
      then show ?thesis by (auto simp: tails_def intro: exI [of _ "length S"])
    next
      case 2
      then show ?thesis using assms(6) by blast
    next
      case 3
      then show ?thesis by (auto simp: tails_def)
    qed
  qed
  then show ?thesis using tree' by (auto simp: tree_holds_def)
qed


section \<open>Insertion and update of a stored trie\<close>

lemma trim_zeros_last: "sibs = [] \<or> last sibs \<noteq> F_ZERO \<Longrightarrow> trim_zeros sibs = sibs"
  by (subst trim_zeros.simps) auto

text \<open>The siblings an insertion starts its path from, and those it answers.\<close>

definition insert_siblings :: "u256 \<Rightarrow> smt \<Rightarrow> field list" where
  "insert_siblings k t = map field_of (siblings 0 k t) @ (case end_of 0 k t of
     L k' v' \<Rightarrow> replicate (common (length (siblings 0 k t)) k k') F_ZERO | _ \<Rightarrow> [])"

lemma insert_result_siblings:
  assumes "trie_wf 0 t" "0 \<notin> ch ` subtries t" "k \<notin> keys t"
  shows "(let rs = trim_zeros (map field_of (new_siblings 0 k t)) in
      if end_of 0 k t \<noteq> E \<and> rs \<noteq> [] then butlast rs else rs) = insert_siblings k t"
proof (cases "end_of 0 k t = E")
  case True
  have "last (map field_of (siblings 0 k t)) \<noteq> F_ZERO" if "siblings 0 k t \<noteq> []"
  proof -
    have "last (siblings 0 k t) \<noteq> E" using last_sibling(1) [OF assms(1) that] .
    then have "last (siblings 0 k t) \<in> subtries t"
      using siblings_subtries [of "last (siblings 0 k t)" 0 k t] subtries_self last_in_set [OF that] by blast
    then show ?thesis using assms(2) that by (force simp: last_map field_of_zero)
  qed
  then have "trim_zeros (map field_of (siblings 0 k t)) = map field_of (siblings 0 k t)"
    by (intro trim_zeros_last) auto
  then show ?thesis using True by (simp add: new_siblings_def insert_siblings_def Let_def)
next
  case False
  then obtain k' v' where L: "end_of 0 k t = L k' v'" using end_of_cases by blast
  then have "L k' v' \<in> subtries t" using end_of_subtries [of 0 k t] by auto
  then have "field_of (L k' v') \<noteq> F_ZERO" using assms(2) unfolding field_of_zero by (metis imageI)
  then show ?thesis using L
    by (simp add: new_siblings_def insert_siblings_def Let_def trim_zeros_last butlast_append del: thash.simps)
qed

lemma new_siblings_length: "trie_wf 0 t \<Longrightarrow> k \<notin> keys t \<Longrightarrow> length (new_siblings 0 k t) \<le> 256"
  by (rule length_new_siblings)

lemma tree_insert_ok:
  assumes "tree_ok t tree" "no_collision crate_perm (subtries t \<union> subtries (tinsert 0 k v t))"
    and "k < bn256_modulus" "v < bn256_modulus"
  shows "if k \<in> keys t then tree_insert tree (Field k) (Field v) = Inl (Fail TreeKeyExists)
    else \<exists>tree'. tree_insert tree (Field k) (Field v) =
        Inr (\<lparr>tr_old_root = field_of t, tr_new_root = field_of (tinsert 0 k v t), tr_siblings = insert_siblings k t,
              tr_old_key = (case end_of 0 k t of L k' v' \<Rightarrow> Field k' | _ \<Rightarrow> Field k),
              tr_old_value = (case end_of 0 k t of L k' v' \<Rightarrow> Field v' | _ \<Rightarrow> F_ZERO), tr_new_key = Field k,
              tr_new_value = Field v, tr_is_old0 = (end_of 0 k t = E)\<rparr>, tree') \<and>
      tree_ok (tinsert 0 k v t) tree'"
proof -
  have ok: "trie_wf 0 t" "fits t" "ct_root tree = field_of t" "tree_holds tree (subtries t)"
    using assms(1) by (simp_all add: tree_ok_def)
  have nz: "0 \<notin> ch ` subtries t" using assms(2) by (auto simp: no_collision_def)
  have find: "tree_find tree (Field k) = Inr (found_in (Field k) 0 t)"
    using tree_find_ok [OF assms(1) nz, of "Field k"] assms(3) by simp
  show ?thesis
  proof (cases "k \<in> keys t")
    case True
    then have "tf_found (found_in (Field k) 0 t)" using keys_end_of [OF ok(1)] by (force simp: found_in_def)
    then show ?thesis using True find by (simp add: tree_insert_def)
  next
    case False
    let ?fr = "found_in (Field k) 0 t" and ?F = "siblings 0 k t" and ?S = "new_siblings 0 k t" and ?t' = "tinsert 0 k v t"
    note nf = found_in_absent [OF ok(1) False]
    have t': "?t' = plug 0 k ?S (L k v)" using tinsert_plug [OF ok(1) _ False] by simp
    have S: "subtries u \<subseteq> subtries t" if "u \<in> set ?S" for u
      using that siblings_subtries [of u 0 k t] end_of_subtries [of 0 k t] end_of_cases [of 0 k t]
      by (auto simp: new_siblings_def split: smt.splits)
    obtain tree' where tree': "tree_path_loop (field_to_bits (Field k)) (rev (enumerate 0 (map field_of ?S))) (field_of (L k v))
        (put_node (field_of (L k v)) (TreeLeaf (Field k) (Field v)) tree) = Inr (field_of ?t', tree')"
      "tree_holds tree' (subtries ?t')"
      using write_path [OF ok(4) assms(2) t' new_siblings_length [OF ok(1) False] assms(3) S] by blast
    have len: "length ?F \<le> 256" using length_siblings [OF ok(1), of k] by simp
    have prep: "(if \<not> tf_is_old0 ?fr
        then let old_key_bits = field_to_bits (tf_not_found_key ?fr) in
             andThen (diverge_loop old_key_bits (field_to_bits (Field k)) (length (tf_siblings ?fr)) (tf_siblings ?fr)) (\<lambda>sibs.
             andThen (poseidon2_hash_leaf (tf_not_found_key ?fr) (tf_not_found_value ?fr)) (\<lambda>old_leaf_hash.
             Inr (sibs @ [old_leaf_hash])))
        else Inr (tf_siblings ?fr)) = Inr (map field_of ?S)"
    proof (cases "end_of 0 k t")
      case (L k' v')
      then have "(k', v') \<in> entries t" using end_of_subtries [of 0 k t] subtries_entries [of "L k' v'" t] by auto
      then have "k' < bn256_modulus" "v' < bn256_modulus" "k' \<noteq> k" using ok(2) False by (force simp: fits_def)+
      then show ?thesis using L len assms(3) nf
        by (simp add: found_in_def Let_def diverge_loop_ok hash_leaf_field new_siblings_def del: thash.simps)
    qed (use nf end_of_cases [of 0 k t] in \<open>auto simp: new_siblings_def\<close>)
    have keys: "tf_not_found_key ?fr = (case end_of 0 k t of L k' v' \<Rightarrow> Field k' | _ \<Rightarrow> Field k)"
      "tf_not_found_value ?fr = (case end_of 0 k t of L k' v' \<Rightarrow> Field v' | _ \<Rightarrow> F_ZERO)"
      using nf(1) by (auto simp: found_in_def Let_def split: smt.splits)
    have "tree_ok ?t' (tree'\<lparr>ct_root := field_of ?t'\<rparr>)"
      using trie_wf_tinsert [OF ok(1) _ False] fits_tinsert [OF ok(1) False ok(2)] assms(3,4) tree'(2)
      by (simp add: tree_ok_def tree_holds_def)
    then show ?thesis
      using False find nf(1) nf(3) prep tree'(1) hash_leaf_field [OF assms(3,4)] ok(3) keys
        insert_result_siblings [OF ok(1) nz False]
      by (simp add: tree_insert_def Let_def cong: if_cong)
  qed
qed


text \<open>The trie with the value of a key replaced.\<close>

fun tset :: "nat \<Rightarrow> u256 \<Rightarrow> u256 \<Rightarrow> smt \<Rightarrow> smt" where
  "tset d k v E = E"
| "tset d k v (L k' v') = (if k' = k then L k v else L k' v')"
| "tset d k v (N l r) = (if bit k d then N l (tset (Suc d) k v r) else N (tset (Suc d) k v l) r)"

lemma tset_plug: "end_of d k t = L k v0 \<Longrightarrow> tset d k v t = plug d k (siblings d k t) (L k v)"
  by (induction t arbitrary: d) (auto simp: join_def split: if_splits)

lemma tset_shape [simp]: "tset d k v t = E \<longleftrightarrow> t = E" "many (tset d k v t) = many t"
  by (cases t; simp)+

lemma keys_tset [simp]: "keys (tset d k v t) = keys t"
  by (induction t arbitrary: d) (auto simp: image_Un)

lemma trie_wf_tset: "trie_wf d t \<Longrightarrow> trie_wf d (tset d k v t)"
proof (induction t arbitrary: d)
  case (N l r)
  then show ?case
    by (cases "bit k d"; simp only: tset.simps trie_wf.simps if_True if_False keys_tset tset_shape simp_thms)
qed auto

lemma entries_tset:
  "trie_wf d t \<Longrightarrow> k \<in> keys t \<Longrightarrow> entries (tset d k v t) = insert (k, v) {e \<in> entries t. fst e \<noteq> k}"
proof (induction t arbitrary: d)
  case (N l r)
  have other: "bit k d \<Longrightarrow> k \<notin> keys l" "\<not> bit k d \<Longrightarrow> k \<notin> keys r" using N.prems(1) by auto
  show ?case
  proof (cases "bit k d")
    case True
    then have "{e \<in> entries l. fst e \<noteq> k} = entries l" using other(1) by auto
    then show ?thesis using True N.IH(2) [of "Suc d"] N.prems other by auto
  next
    case False
    then have "{e \<in> entries r. fst e \<noteq> k} = entries r" using other(2) by auto
    then show ?thesis using False N.IH(1) [of "Suc d"] N.prems other by auto
  qed
qed auto

lemma fits_tset: "fits t \<Longrightarrow> fits (L k v) \<Longrightarrow> fits (tset d k v t)"
  by (induction t arbitrary: d) auto

lemma tree_update_ok:
  assumes "tree_ok t tree" "no_collision crate_perm (subtries t \<union> subtries (tset 0 k v t))"
    and "k < bn256_modulus" "v < bn256_modulus"
  shows "case tfind 0 k t of None \<Rightarrow> tree_update tree (Field k) (Field v) = Inl (Fail TreeKeyMissing)
    | Some v0 \<Rightarrow> \<exists>tree'. tree_update tree (Field k) (Field v) =
        Inr (\<lparr>tr_old_root = field_of t, tr_new_root = field_of (tset 0 k v t),
              tr_siblings = map field_of (siblings 0 k t), tr_old_key = Field k, tr_old_value = Field v0,
              tr_new_key = Field k, tr_new_value = Field v, tr_is_old0 = False\<rparr>, tree') \<and>
      tree_ok (tset 0 k v t) tree'"
proof -
  have ok: "trie_wf 0 t" "fits t" "ct_root tree = field_of t" "tree_holds tree (subtries t)"
    using assms(1) by (simp_all add: tree_ok_def)
  have nz: "0 \<notin> ch ` subtries t" using assms(2) by (auto simp: no_collision_def)
  have find: "tree_find tree (Field k) = Inr (found_in (Field k) 0 t)"
    using tree_find_ok [OF assms(1) nz, of "Field k"] assms(3) by simp
  show ?thesis
  proof (cases "tfind 0 k t")
    case None
    then have "\<not> tf_found (found_in (Field k) 0 t)"
      using end_of_cases [of 0 k t] by (auto simp: found_in_def tfind_end Let_def split: if_splits)
    then show ?thesis using None find by (simp add: tree_update_def)
  next
    case (Some v0)
    then have e: "end_of 0 k t = L k v0" using end_of_cases [of 0 k t] by (auto simp: tfind_end split: if_splits)
    let ?F = "siblings 0 k t" and ?t' = "tset 0 k v t"
    have len: "length ?F \<le> 256" using length_siblings [OF ok(1), of k] by simp
    obtain tree' where tree': "tree_path_loop (field_to_bits (Field k)) (rev (enumerate 0 (map field_of ?F))) (field_of (L k v))
        (put_node (field_of (L k v)) (TreeLeaf (Field k) (Field v)) tree) = Inr (field_of ?t', tree')"
      "tree_holds tree' (subtries ?t')"
      using write_path [OF ok(4) assms(2) tset_plug [OF e] len assms(3) siblings_subtries [of _ 0 k t]] by blast
    have "tree_ok ?t' (tree'\<lparr>ct_root := field_of ?t'\<rparr>)"
      using trie_wf_tset [OF ok(1)] fits_tset [OF ok(2)] assms(3,4) tree'(2) by (simp add: tree_ok_def tree_holds_def)
    then show ?thesis
      using Some find e tree'(1) hash_leaf_field [OF assms(3,4)] ok(3)
      by (simp add: tree_update_def found_in_def Let_def)
  qed
qed


section \<open>Histories\<close>

text \<open>
  Calls through the byte interface, one after the other. A call that fails leaves the tree as it was:
  both operations search before they write.
\<close>

datatype tree_op = TreeInsert "byte list" "byte list" | TreeUpdate "byte list" "byte list"

fun tree_call :: "tree_op \<Rightarrow> client_tree \<Rightarrow> client_tree" where
  "tree_call (TreeInsert kb vb) tree = (case wasm_insert tree kb vb of Inr (_, tree') \<Rightarrow> tree' | Inl _ \<Rightarrow> tree)"
| "tree_call (TreeUpdate kb vb) tree = (case wasm_update tree kb vb of Inr (_, tree') \<Rightarrow> tree' | Inl _ \<Rightarrow> tree)"

definition tree_after :: "tree_op list \<Rightarrow> client_tree" where
  "tree_after ops = fold tree_call ops tree_new"

text \<open>The element of the field thirty-two bytes stand for.\<close>

definition element :: "byte list \<Rightarrow> u256 option" where
  "element bytes = (if length bytes = 32 \<and> (from_le bytes :: u256) < bn256_modulus then Some (from_le bytes) else None)"

fun op_trie :: "tree_op \<Rightarrow> smt \<Rightarrow> smt" where
  "op_trie (TreeInsert kb vb) t = (case (element kb, element vb) of
     (Some k, Some v) \<Rightarrow> if tfind 0 k t = None then tinsert 0 k v t else t | _ \<Rightarrow> t)"
| "op_trie (TreeUpdate kb vb) t = (case (element kb, element vb) of
     (Some k, Some v) \<Rightarrow> if tfind 0 k t = None then t else tset 0 k v t | _ \<Rightarrow> t)"

fun op_map :: "tree_op \<Rightarrow> (u256 \<rightharpoonup> u256) \<Rightarrow> (u256 \<rightharpoonup> u256)" where
  "op_map (TreeInsert kb vb) m = (case (element kb, element vb) of
     (Some k, Some v) \<Rightarrow> if m k = None then m(k \<mapsto> v) else m | _ \<Rightarrow> m)"
| "op_map (TreeUpdate kb vb) m = (case (element kb, element vb) of
     (Some k, Some v) \<Rightarrow> if m k = None then m else m(k \<mapsto> v) | _ \<Rightarrow> m)"

definition kept :: "tree_op list \<Rightarrow> (u256 \<rightharpoonup> u256)" where
  "kept ops = fold op_map ops Map.empty"

fun tries_met :: "smt \<Rightarrow> tree_op list \<Rightarrow> smt set" where
  "tries_met t [] = subtries t"
| "tries_met t (c # cs) = subtries t \<union> tries_met (op_trie c t) cs"

text \<open>Two different tries among those given with the same hash, or one with the hash of the empty trie.\<close>

definition hash_collision :: "smt set \<Rightarrow> bool" where
  "hash_collision T \<longleftrightarrow> (\<exists>s \<in> T. ch s = 0 \<or> (\<exists>t \<in> T. s \<noteq> t \<and> ch s = ch t))"

lemma no_hash_collision: "\<not> hash_collision T \<longleftrightarrow> no_collision crate_perm T"
  by (auto simp: hash_collision_def no_collision_def inj_on_def image_iff)

lemma bytes_to_field_Some: "element bs = Some k \<Longrightarrow> bytes_to_field bs = Inr (Field k)"
  by (auto simp: element_def bytes_to_field_def f_try_from_le_bytes_def f_try_from_u256_def below_modulus word_less_nat_alt
      word_le_nat_alt split: if_splits)

lemma bytes_to_field_None: "element bs = None \<Longrightarrow> \<exists>e. bytes_to_field bs = Inl e"
  by (auto simp: element_def bytes_to_field_def f_try_from_le_bytes_def f_try_from_u256_def below_modulus word_less_nat_alt
      word_le_nat_alt split: if_splits)

lemma element_less: "element bs = Some k \<Longrightarrow> k < bn256_modulus"
  by (auto simp: element_def split: if_splits)

lemma tfind_keys:
  assumes "trie_wf 0 t"
  shows "tfind 0 k t = None \<longleftrightarrow> k \<notin> keys t"
proof -
  have e: "tfind 0 k t = Some v \<longleftrightarrow> (k, v) \<in> entries t" for v using assms by (simp add: tfind_entries)
  show ?thesis
  proof (cases "tfind 0 k t")
    case None
    then have "(k, v) \<notin> entries t" for v using e by simp
    then show ?thesis using None by auto
  next
    case (Some v)
    then show ?thesis using e by force
  qed
qed

lemma tree_call_ok:
  assumes "tree_ok t tree" "no_collision crate_perm (subtries t \<union> subtries (op_trie c t))"
  shows "tree_ok (op_trie c t) (tree_call c tree)"
proof (cases c)
  case (TreeInsert kb vb)
  show ?thesis
  proof (cases "\<exists>k v. element kb = Some k \<and> element vb = Some v")
    case True
    then obtain k v where kv: "element kb = Some k" "element vb = Some v" by blast
    have wf: "trie_wf 0 t" using assms(1) by (simp add: tree_ok_def)
    show ?thesis
    proof (cases "k \<in> keys t")
      case True
      have "tree_find tree (Field k) = Inr (found_in (Field k) 0 t)"
        using tree_find_ok [OF assms(1), of "Field k"] assms(2) element_less [OF kv(1)] by (auto simp: no_collision_def)
      moreover have "tf_found (found_in (Field k) 0 t)" using True keys_end_of [OF wf] by (force simp: found_in_def)
      ultimately show ?thesis using True TreeInsert kv assms(1) tfind_keys [OF wf, of k]
        by (auto simp: wasm_insert_def bytes_to_field_Some tree_insert_def)
    next
      case False
      then have "op_trie c t = tinsert 0 k v t" using TreeInsert kv tfind_keys [OF wf, of k] by simp
      then show ?thesis
        using tree_insert_ok [of t tree k v] assms False element_less [OF kv(1)] element_less [OF kv(2)] TreeInsert kv
        by (auto simp: wasm_insert_def bytes_to_field_Some)
    qed
  next
    case False
    then show ?thesis using TreeInsert assms(1) bytes_to_field_None [of kb] bytes_to_field_None [of vb]
      by (cases "element kb"; cases "element vb") (auto simp: wasm_insert_def bytes_to_field_Some)
  qed
next
  case (TreeUpdate kb vb)
  show ?thesis
  proof (cases "\<exists>k v. element kb = Some k \<and> element vb = Some v")
    case True
    then obtain k v where kv: "element kb = Some k" "element vb = Some v" by blast
    show ?thesis
    proof (cases "tfind 0 k t")
      case None
      have "tree_find tree (Field k) = Inr (found_in (Field k) 0 t)"
        using tree_find_ok [OF assms(1), of "Field k"] assms(2) element_less [OF kv(1)] by (auto simp: no_collision_def)
      moreover have "\<not> tf_found (found_in (Field k) 0 t)"
        using None end_of_cases [of 0 k t] by (auto simp: found_in_def tfind_end Let_def split: if_splits)
      ultimately show ?thesis using None TreeUpdate kv assms(1)
        by (simp add: wasm_update_def bytes_to_field_Some tree_update_def)
    next
      case (Some v0)
      then have "op_trie c t = tset 0 k v t" using TreeUpdate kv by simp
      then show ?thesis
        using tree_update_ok [of t tree k v] assms Some element_less [OF kv(1)] element_less [OF kv(2)] TreeUpdate kv
        by (auto simp: wasm_update_def bytes_to_field_Some)
    qed
  next
    case False
    then show ?thesis using TreeUpdate assms(1) bytes_to_field_None [of kb] bytes_to_field_None [of vb]
      by (cases "element kb"; cases "element vb") (auto simp: wasm_update_def bytes_to_field_Some)
  qed
qed


lemma tree_after_snoc [simp]: "tree_after (ops @ [c]) = tree_call c (tree_after ops)" "kept (ops @ [c]) = op_map c (kept ops)"
  by (simp_all add: tree_after_def kept_def)

definition op_tries :: "tree_op list \<Rightarrow> smt" where
  "op_tries ops = fold op_trie ops E"

lemma op_tries_snoc [simp]: "op_tries (ops @ [c]) = op_trie c (op_tries ops)" "op_tries [] = E"
  by (simp_all add: op_tries_def)

lemma tries_met_append: "tries_met t (ops @ [c]) = tries_met t ops \<union> subtries (fold op_trie (ops @ [c]) t)"
  by (induction ops arbitrary: t) auto

lemma tries_met_end: "subtries (fold op_trie ops t) \<subseteq> tries_met t ops"
  by (induction ops arbitrary: t) auto

lemma op_entries:
  assumes "trie_wf 0 t" "entries t = {(k, v). m k = Some v}"
  shows "entries (op_trie c t) = {(k, v). op_map c m k = Some v}"
proof -
  have key: "tfind 0 k t = m k" for k
    using tfind_entries [OF assms(1), of k] assms(2) by (cases "m k"; cases "tfind 0 k t") auto
  then have absent: "m k = None \<Longrightarrow> k \<notin> keys t" for k using tfind_keys [OF assms(1), of k] by simp
  have present: "m k = Some v \<Longrightarrow> k \<in> keys t" for k v using tfind_keys [OF assms(1), of k] key by force
  show ?thesis
    by (cases c) (auto simp: key assms(2) entries_tinsert [OF assms(1) _ absent] entries_tset [OF assms(1) present]
        split: option.splits if_splits)
qed

lemma tree_after_ok:
  "no_collision crate_perm (tries_met E ops) \<Longrightarrow>
    tree_ok (op_tries ops) (tree_after ops) \<and> entries (op_tries ops) = {(k, v). kept ops k = Some v}"
proof (induction ops rule: rev_induct)
  case Nil
  then show ?case by (simp add: tree_ok_def tree_after_def tree_new_def tree_holds_def kept_def)
next
  case (snoc c ops)
  have sub: "subtries (op_tries ops) \<union> subtries (op_trie c (op_tries ops)) \<subseteq> tries_met E (ops @ [c])"
    "tries_met E ops \<subseteq> tries_met E (ops @ [c])"
    using tries_met_end [of ops E] by (auto simp: tries_met_append op_tries_def)
  have IH: "tree_ok (op_tries ops) (tree_after ops)" "entries (op_tries ops) = {(k, v). kept ops k = Some v}"
    using snoc.IH [OF no_collision_mono [OF snoc.prems sub(2)]] by simp_all
  show ?case
    using tree_call_ok [OF IH(1) no_collision_mono [OF snoc.prems sub(1)]] op_entries [OF _ IH(2)] IH(1)
    by (simp add: tree_ok_def)
qed

lemma pad_siblings_ok: "pad_siblings m sibs = sibs @ replicate (m - length sibs) F_ZERO"
proof (induction m sibs rule: pad_siblings.induct)
  case (1 m sibs)
  show ?case
  proof (cases "length sibs < m")
    case True
    then have "m - length sibs = Suc (m - length (sibs @ [F_ZERO]))" by simp
    then show ?thesis using 1 [OF True] True by (subst pad_siblings.simps) (simp del: replicate.simps add: replicate_Suc)
  qed (subst pad_siblings.simps, simp)
qed

text \<open>A proof for the circuit is the answer of the search with its siblings filled up to the depth asked for.\<close>

lemma wasm_get_proof_ok:
  assumes "tree_ok t tree" "0 \<notin> ch ` subtries t" "element kb = Some k"
  shows "\<exists>p. wasm_get_proof tree kb m = Inr p \<and> sp_root p = wasm_root tree \<and>
    sp_siblings p = concat (map f_to_le_bytes (map field_of (siblings 0 k t) @ replicate (m - length (siblings 0 k t)) F_ZERO)) \<and>
    sp_num_siblings p = max m (length (siblings 0 k t))"
proof -
  have "tree_find tree (Field k) = Inr (found_in (Field k) 0 t)"
    using tree_find_ok [OF assms(1,2), of "Field k"] element_less [OF assms(3)] by simp
  moreover have "tf_siblings (found_in (Field k) 0 t) = map field_of (siblings 0 k t)"
    by (simp add: found_in_def Let_def split: smt.split)
  ultimately show ?thesis
    using bytes_to_field_Some [OF assms(3)] by (simp add: wasm_get_proof_def wasm_root_def pad_siblings_ok Let_def)
qed

lemma byte_hashes:
  assumes "element a = Some k" "element b = Some v"
  shows "smt_hash_leaf a b = Inr (to_le 32 (ch (L k v)))" "smt_hash_pair a b = Inr (to_le 32 (hash_of crate_perm k v))"
proof -
  have less: "k < bn256_modulus" "v < bn256_modulus" using assms element_less by blast+
  show "smt_hash_leaf a b = Inr (to_le 32 (ch (L k v)))"
    using assms less by (simp add: smt_hash_leaf_def bytes_to_field_Some hash_leaf_field f_to_le_bytes_def field_of_def)
  have "unat (hash_of crate_perm k v) < bn_p"
    using hash_of_less [of crate_perm k v] by (simp add: below_modulus)
  then show "smt_hash_pair a b = Inr (to_le 32 (hash_of crate_perm k v))"
    using assms less by (simp add: smt_hash_pair_def bytes_to_field_Some smt_hash_pair_field_def
        client_compression_hash_of scalar_to_field_val f_to_le_bytes_def)
qed

section \<open>Properties\<close>

lemma found_in_kept:
  assumes "trie_wf 0 t" "entries t = {(k, v). m k = Some v}" "k < bn256_modulus"
  shows "tf_found (found_in (Field k) 0 t) = (m k \<noteq> None)"
    "m k = Some v \<Longrightarrow> tf_found_value (found_in (Field k) 0 t) = Field v"
proof -
  have l: "m k = Some v \<longleftrightarrow> end_of 0 k t = L k v" for v using keys_end_of [OF assms(1), of k v] assms(2) by simp
  show "tf_found (found_in (Field k) 0 t) = (m k \<noteq> None)"
  proof (cases "m k")
    case None
    then have "\<nexists>v. end_of 0 k t = L k v" using l by simp
    then show ?thesis using None end_of_cases [of 0 k t] by (auto simp: found_in_def Let_def split: if_splits)
  next
    case (Some v)
    then show ?thesis using l [of v] by (simp add: found_in_def)
  qed
  show "m k = Some v \<Longrightarrow> tf_found_value (found_in (Field k) 0 t) = Field v" using l by (simp add: found_in_def)
qed

text \<open>
  The tree of the client holds exactly the keys and values of the successful insertions and updates: unless
  two tries it met have the same hash, its root is the hash of the well-formed trie with these entries, and a
  search for any thirty-two bytes of a field element answers whether the key is there, with its value.
\<close>

theorem client_tree_correct:
  "hash_collision (tries_met E ops) \<or>
    (wasm_root (tree_after ops) = to_le 32 (ch (op_tries ops)) \<and> trie_wf 0 (op_tries ops) \<and>
     entries (op_tries ops) = {(k, v). kept ops k = Some v} \<and>
     (\<forall>kb. case element kb of None \<Rightarrow> \<exists>e. wasm_find (tree_after ops) kb = Inl e
       | Some k \<Rightarrow> \<exists>r. wasm_find (tree_after ops) kb = Inr r \<and> wf_root r = wasm_root (tree_after ops) \<and>
           (if wf_found r then Some (wf_found_value r) else None) = map_option (to_le 32) (kept ops k)))"
proof (cases "hash_collision (tries_met E ops)")
  case False
  then have nc: "no_collision crate_perm (tries_met E ops)" by (simp add: no_hash_collision)
  have ok: "tree_ok (op_tries ops) (tree_after ops)" and ent: "entries (op_tries ops) = {(k, v). kept ops k = Some v}"
    using tree_after_ok [OF nc] by simp_all
  then have wf: "trie_wf 0 (op_tries ops)" "ct_root (tree_after ops) = field_of (op_tries ops)"
    by (simp_all add: tree_ok_def)
  have nz: "0 \<notin> ch ` subtries (op_tries ops)"
    using nc tries_met_end [of ops E] by (auto simp: no_collision_def op_tries_def)
  have "case element kb of None \<Rightarrow> \<exists>e. wasm_find (tree_after ops) kb = Inl e
     | Some k \<Rightarrow> \<exists>r. wasm_find (tree_after ops) kb = Inr r \<and> wf_root r = wasm_root (tree_after ops) \<and>
         (if wf_found r then Some (wf_found_value r) else None) = map_option (to_le 32) (kept ops k)" for kb
  proof (cases "element kb")
    case None
    then show ?thesis using bytes_to_field_None [OF None] by (auto simp: wasm_find_def)
  next
    case (Some k)
    have "tree_find (tree_after ops) (Field k) = Inr (found_in (Field k) 0 (op_tries ops))"
      using tree_find_ok [OF ok nz, of "Field k"] element_less [OF Some] by simp
    then have "wasm_find (tree_after ops) kb =
        Inr (wasm_find_result_of (found_in (Field k) 0 (op_tries ops)) (ct_root (tree_after ops)))"
      using bytes_to_field_Some [OF Some] by (simp add: wasm_find_def)
    then show ?thesis
      using Some found_in_kept [OF wf(1) ent element_less [OF Some]]
      by (cases "kept ops k") (simp_all add: wasm_find_result_of_def wasm_root_def f_to_le_bytes_def)
  qed
  then show ?thesis using wf ent by (simp add: wasm_root_def f_to_le_bytes_def field_of_def)
qed simp


section \<open>The tree of the contract\<close>

lemma same_tries:
  assumes "smt_reach crate_perm h st" "no_collision crate_perm (tries_met E ops \<union> touched E h)"
  shows "smt_get_root st = Inr (ch (trie_of h))" "from_le (wasm_root (tree_after ops)) = ch (op_tries ops)"
    "trie_of h = op_tries ops \<longleftrightarrow> listed h = kept ops"
    "ch (trie_of h) = ch (op_tries ops) \<longleftrightarrow> trie_of h = op_tries ops"
proof -
  have nc: "no_collision crate_perm (tries_met E ops)" "no_collision crate_perm (touched E h)"
    using no_collision_mono [OF assms(2)] by auto
  have ok: "tree_ok (op_tries ops) (tree_after ops)" and ent: "entries (op_tries ops) = {(k, v). kept ops k = Some v}"
    using tree_after_ok [OF nc(1)] by simp_all
  have inv: "smt_inv crate_perm h st" by (rule smt_reach_ok [OF assms(1) crate_perm_host_ok nc(2)])
  then show "smt_get_root st = Inr (ch (trie_of h))" by (simp add: smt_inv_def smt_ok_def smt_get_root_def)
  show "from_le (wasm_root (tree_after ops)) = ch (op_tries ops)"
    using ok by (simp add: wasm_root_def f_to_le_bytes_def tree_ok_def field_of_def from_le_to_le)
  have wf: "trie_wf 0 (trie_of h)" "trie_wf 0 (op_tries ops)" and ent': "entries (trie_of h) = {(k, v). listed h k = Some v}"
    using inv ok by (simp_all add: smt_inv_def smt_ok_def tree_ok_def)
  have "trie_of h = op_tries ops \<longleftrightarrow> entries (trie_of h) = entries (op_tries ops)" using trie_unique [OF wf] by auto
  also have "\<dots> \<longleftrightarrow> (\<forall>k v. listed h k = Some v \<longleftrightarrow> kept ops k = Some v)" unfolding ent ent' by auto
  also have "\<dots> \<longleftrightarrow> listed h = kept ops" by (metis ext option.exhaust)
  finally show "trie_of h = op_tries ops \<longleftrightarrow> listed h = kept ops" .
  have "subtries (trie_of h) \<union> subtries (op_tries ops) \<subseteq> tries_met E ops \<union> touched E h"
    using touched_end [of h E] tries_met_end [of ops E] by (auto simp: trie_of_def op_tries_def)
  then show "ch (trie_of h) = ch (op_tries ops) \<longleftrightarrow> trie_of h = op_tries ops"
    using thash_inj no_collision_mono [OF assms(2)] by metis
qed

text \<open>
  The tree of the client and the tree of the contract have the same root exactly when they hold the same keys
  and values, whatever calls led to them, unless two tries either of them met have the same hash.
\<close>

theorem client_root_is_contract_root:
  assumes "smt_reach crate_perm h st"
  shows "hash_collision (tries_met E ops \<union> touched E h) \<or>
    (smt_get_root st = Inr (from_le (wasm_root (tree_after ops))) \<longleftrightarrow> listed h = kept ops)"
proof (cases "hash_collision (tries_met E ops \<union> touched E h)")
  case False
  then have "no_collision crate_perm (tries_met E ops \<union> touched E h)" by (simp add: no_hash_collision)
  from same_tries [OF assms this] show ?thesis by simp
qed simp

text \<open>The words of a string of bytes, thirty-two for each.\<close>

definition le_words :: "nat \<Rightarrow> byte list \<Rightarrow> u256 list" where
  "le_words n bs = map (\<lambda>i. from_le (take 32 (drop (32 * i) bs))) [0..<n]"

lemma le_words_fields: "le_words (length fs) (concat (map f_to_le_bytes fs)) = map f_val fs"
proof (induction fs)
  case (Cons f fs)
  have w: "length (f_to_le_bytes f) = 32" by (rule field_le.length_enc)
  have "le_words (length (f # fs)) (concat (map f_to_le_bytes (f # fs))) =
      from_le (f_to_le_bytes f) # le_words (length fs) (concat (map f_to_le_bytes fs))"
    using w by (simp add: le_words_def upt_conv_Cons map_Suc_upt [symmetric] del: upt_Suc)
  moreover have "from_le (f_to_le_bytes f) = f_val f" by (simp add: f_to_le_bytes_def from_le_to_le)
  ultimately show ?case using Cons.IH by simp
qed (simp add: le_words_def)

text \<open>
  The proof the client's search gives for a key that is not in the tree is accepted by the contract that
  holds the same keys and values, unless the search ended at a leaf with the value zero: that proof the
  contract rejects.
\<close>

theorem client_proof_accepted:
  assumes "smt_reach crate_perm h st" "listed h = kept ops" "element kb = Some k" "listed h k = None"
  shows "hash_collision (tries_met E ops \<union> touched E h \<union> subtries (plug 0 k (siblings 0 k (trie_of h)) E)) \<or>
    (\<exists>r. wasm_find (tree_after ops) kb = Inr r \<and> \<not> wf_found r \<and>
      verify_non_membership crate_perm k (le_words (wf_num_siblings r) (wf_siblings r))
        (from_le (wf_not_found_key r)) (from_le (wf_not_found_value r)) st =
      (if wf_is_old0 r \<or> (from_le (wf_not_found_value r) :: u256) \<noteq> 0 then Inr True else Inl (Fail Smt_InvalidProof)))"
proof (cases "hash_collision (tries_met E ops \<union> touched E h \<union> subtries (plug 0 k (siblings 0 k (trie_of h)) E))")
  case False
  let ?t = "trie_of h"
  have all: "no_collision crate_perm (tries_met E ops \<union> touched E h \<union> subtries (plug 0 k (siblings 0 k ?t) E))"
    using False by (simp add: no_hash_collision)
  then have nc: "no_collision crate_perm (tries_met E ops \<union> touched E h)" "no_collision crate_perm (tries_met E ops)"
    "no_collision crate_perm (touched E h \<union> subtries (plug 0 k (siblings 0 k ?t) E))"
    using no_collision_mono [OF all] by auto
  have same: "op_tries ops = ?t" using same_tries(3) [OF assms(1) nc(1)] assms(2) by simp
  have ok: "tree_ok ?t (tree_after ops)" and ent: "entries ?t = {(k, v). kept ops k = Some v}"
    using tree_after_ok [OF nc(2)] same by simp_all
  then have wf: "trie_wf 0 ?t" and absent: "k \<notin> keys ?t" using assms(2,4) by (auto simp: tree_ok_def)
  have "0 \<notin> ch ` subtries ?t"
    using nc(2) tries_met_end [of ops E] same by (auto simp: no_collision_def op_tries_def)
  then have find: "wasm_find (tree_after ops) kb =
      Inr (wasm_find_result_of (found_in (Field k) 0 ?t) (ct_root (tree_after ops)))"
    using tree_find_ok [OF ok, of "Field k"] element_less [OF assms(3)] bytes_to_field_Some [OF assms(3)]
    by (simp add: wasm_find_def)
  let ?r = "wasm_find_result_of (found_in (Field k) 0 ?t) (ct_root (tree_after ops))"
  note nf = found_in_absent [OF wf absent]
  have sibs: "le_words (wf_num_siblings ?r) (wf_siblings ?r) = map ch (siblings 0 k ?t)"
    using le_words_fields [of "map field_of (siblings 0 k ?t)"] nf(2)
    by (simp add: wasm_find_result_of_def field_of_def comp_def)
  have ends: "case end_of 0 k ?t of
      L k' v' \<Rightarrow> from_le (wf_not_found_key ?r) = k' \<and> from_le (wf_not_found_value ?r) = v' \<and> \<not> wf_is_old0 ?r
    | _ \<Rightarrow> from_le (wf_not_found_key ?r) = k \<and> from_le (wf_not_found_value ?r) = (0 :: u256) \<and> wf_is_old0 ?r"
    using nf(1,3) by (auto simp: wasm_find_result_of_def found_in_def Let_def f_to_le_bytes_def from_le_to_le F_ZERO_def
        split: smt.splits if_splits)
  have inv: "smt_inv crate_perm h st"
    using smt_reach_ok [OF assms(1) crate_perm_host_ok] no_collision_mono [OF nc(1)] by auto
  have "no_collision crate_perm (subtries ?t \<union> subtries (plug 0 k (siblings 0 k ?t) E))"
    by (rule no_collision_mono [OF nc(3)]) (use touched_end [of h E] in \<open>auto simp: trie_of_def\<close>)
  from verify_non_membership_ok [OF crate_perm_host_ok _ this] inv
  have "verify_non_membership crate_perm k (map ch (siblings 0 k ?t)) (from_le (wf_not_found_key ?r))
      (from_le (wf_not_found_value ?r)) st =
    (if good_proof crate_perm ?t k (map ch (siblings 0 k ?t)) (from_le (wf_not_found_key ?r)) (from_le (wf_not_found_value ?r))
     then Inr True else Inl (Fail Smt_InvalidProof))"
    using absent by (simp add: smt_inv_def)
  moreover have "good_proof crate_perm ?t k (map ch (siblings 0 k ?t)) (from_le (wf_not_found_key ?r)) (from_le (wf_not_found_value ?r))
      \<longleftrightarrow> wf_is_old0 ?r \<or> (from_le (wf_not_found_value ?r) :: u256) \<noteq> 0"
    using ends by (auto simp: good_proof_def split: smt.splits)
  ultimately show ?thesis
    using find nf(1) by (intro disjI2 exI [of _ ?r]) (simp add: sibs, simp add: wasm_find_result_of_def)
qed simp

section \<open>A run\<close>

definition le_elem :: "u256 \<Rightarrow> byte list" where
  "le_elem w = to_le 32 w"

lemma element_le_elem: "w < bn256_modulus \<Longrightarrow> element (le_elem w) = Some w"
  by (simp add: element_def le_elem_def from_le_to_le)

lemma crate_insert_run: "\<exists>st. smt_reach crate_perm [SmtInsert 1 5] st"
proof -
  let ?st = "smt_empty\<lparr>sm_admin := Some (Address 1), sm_root := Some 0\<rparr>"
  have start: "smt_reach crate_perm [] ?st" by (rule smt_reach.created [of "Address 1"]) (simp add: smt_constructor_def)
  have "hash_leaf crate_perm 1 5 = Inr (ch (L 1 5))" by (rule hash_leaf_ok [OF crate_perm_host_ok]) (simp add: run_small)
  then obtain st' where "smt_step crate_perm (\<lambda>a. a = Address 1) (SmtInsert 1 5) ?st = Inr st'"
    by (auto simp: insert_leaf_def find_key_internal.simps require_auth_def)
  from smt_reach.called [OF start this] show ?thesis by auto
qed

lemma run_kept: "kept [TreeInsert (le_elem 1) (le_elem 5)] = listed [SmtInsert 1 5]"
  by (simp add: kept_def listed_def element_le_elem run_small)

theorem client_root_is_contract_root_witness:
  "\<exists>st. smt_reach crate_perm [SmtInsert 1 5] st \<and>
    (hash_collision (tries_met E [TreeInsert (le_elem 1) (le_elem 5)] \<union> touched E [SmtInsert 1 5]) \<or>
     smt_get_root st = Inr (from_le (wasm_root (tree_after [TreeInsert (le_elem 1) (le_elem 5)]))))"
  using crate_insert_run client_root_is_contract_root [where ops = "[TreeInsert (le_elem 1) (le_elem 5)]"] run_kept by metis

theorem client_proof_accepted_witness:
  "\<exists>st. smt_reach crate_perm [SmtInsert 1 5] st \<and>
    (hash_collision (tries_met E [TreeInsert (le_elem 1) (le_elem 5)] \<union> touched E [SmtInsert 1 5] \<union>
       subtries (plug 0 3 (siblings 0 3 (trie_of [SmtInsert 1 5])) E)) \<or>
     (\<exists>r. wasm_find (tree_after [TreeInsert (le_elem 1) (le_elem 5)]) (le_elem 3) = Inr r \<and> \<not> wf_found r))"
proof -
  obtain st where st: "smt_reach crate_perm [SmtInsert 1 5] st" using crate_insert_run by blast
  have "element (le_elem 3) = Some 3" "listed [SmtInsert 1 5] 3 = None"
    by (simp_all add: element_le_elem below_modulus listed_def)
  from client_proof_accepted [OF st run_kept [symmetric] this] st show ?thesis by blast
qed


end
