(* ===== verification/Notes.thy ===== *)
theory Notes imports ClientCrypto begin

text \<open>
  Keys and notes of a wallet, from \<^verbatim>\<open>app/crates/core/prover/src/encryption.rs\<close> and
  \<^verbatim>\<open>notes.rs\<close>: deriving the keys from a signature, encrypting the amount and blinding of an
  output to its recipient, and recognizing an output on the chain as one's own.

  SHA-256, X25519 and XSalsa20-Poly1305 are not in the repository: they are the fields of
  \<open>crypto_env\<close>. The random bytes a call draws are a list of byte strings, one for each draw; a draw
  fails when the list has no string of the wanted length next.
\<close>

section \<open>The primitives\<close>

record crypto_env =
  ce_sha256 :: "byte list \<Rightarrow> byte list"
  ce_public :: "byte list \<Rightarrow> byte list"
  ce_diffie_hellman :: "byte list \<Rightarrow> byte list \<Rightarrow> byte list"
  ce_encrypt :: "byte list \<Rightarrow> byte list \<Rightarrow> byte list \<Rightarrow> byte list option"
  ce_decrypt :: "byte list \<Rightarrow> byte list \<Rightarrow> byte list \<Rightarrow> byte list option"

type_synonym rng = "byte list list"

definition getrandom :: "nat \<Rightarrow> rng \<Rightarrow> (prover_error, byte list \<times> rng) outcome" where
  "getrandom n rng = (case rng of d # rest \<Rightarrow> if length d = n then Inr (d, rest) else Inl (Fail RandomFailed)
     | [] \<Rightarrow> Inl (Fail RandomFailed))"

text \<open>What the documentation of the primitives promises.\<close>

definition crypto_ok :: "crypto_env \<Rightarrow> bool" where
  "crypto_ok env \<longleftrightarrow>
     (\<forall>a. length (ce_sha256 env a) = 32) \<and> (\<forall>a. length (ce_public env a) = 32) \<and>
     (\<forall>a b. ce_diffie_hellman env a (ce_public env b) = ce_diffie_hellman env b (ce_public env a)) \<and>
     (\<forall>k n p. \<exists>c. ce_encrypt env k n p = Some c \<and> length c = length p + 16 \<and> ce_decrypt env k n c = Some p) \<and>
     (\<forall>k n c p. ce_decrypt env k n c = Some p \<longrightarrow> length c = length p + 16)"

section \<open>Key derivation\<close>

record note_key_pair =
  nk_private :: note_private_key
  nk_public :: note_public_key

record encryption_key_pair =
  ek_private :: encryption_private_key
  ek_public :: encryption_public_key

definition str_bytes :: "string \<Rightarrow> byte list" where
  "str_bytes s = map (\<lambda>c. of_char c) s"

definition NOTE_KEY_DOMAIN :: "byte list" where
  "NOTE_KEY_DOMAIN = str_bytes ''privacy-pool/note-key/v1''"

definition ENCRYPTION_KEY_DOMAIN :: "byte list" where
  "ENCRYPTION_KEY_DOMAIN = str_bytes ''privacy-pool/encryption-key/v1''"

definition MEMBERSHIP_BLINDING_DOMAIN :: "byte list" where
  "MEMBERSHIP_BLINDING_DOMAIN = str_bytes ''privacy-pool/asp-secret/v1''"

definition hash_signature_with_domain :: "crypto_env \<Rightarrow> byte list \<Rightarrow> byte list \<Rightarrow> byte list" where
  "hash_signature_with_domain env signature domain = ce_sha256 env (domain @ signature)"

definition hash_signature_with_domain_and_context :: "crypto_env \<Rightarrow> byte list \<Rightarrow> byte list \<Rightarrow> byte list \<Rightarrow> byte list" where
  "hash_signature_with_domain_and_context env signature domain context' =
     ce_sha256 env (domain @ [0] @ context' @ [0] @ signature)"

definition derive_note_private_key :: "crypto_env \<Rightarrow> key_derivation_signature \<Rightarrow> (prover_error, note_private_key) outcome" where
  "derive_note_private_key env sig =
     (case sig of KeyDerivationSignature signature \<Rightarrow>
        if length signature \<noteq> 64 then Inl (Fail SignatureLength)
        else
          let key = hash_signature_with_domain env signature NOTE_KEY_DOMAIN;
              f = le_val key mod bn_p in
          Inr (NotePrivateKey (le_bytes 32 f)))"

definition derive_keypair_from_signature :: "crypto_env \<Rightarrow> key_derivation_signature \<Rightarrow> (prover_error, encryption_key_pair) outcome" where
  "derive_keypair_from_signature env sig =
     (case sig of KeyDerivationSignature signature \<Rightarrow>
        if length signature \<noteq> 64 then Inl (Fail SignatureLength)
        else
          let seed = hash_signature_with_domain env signature ENCRYPTION_KEY_DOMAIN in
          if length seed \<noteq> 32 then Inl Panic
          else Inr \<lparr>ek_private = EncryptionPrivateKey seed, ek_public = EncryptionPublicKey (ce_public env seed)\<rparr>)"

definition to_array_32 :: "byte list \<Rightarrow> (prover_error, byte list) outcome" where
  "to_array_32 bs = (if length bs = 32 then Inr bs else Inl (Fail (ArrayLength (length bs))))"

definition derive_encryption_and_note_keypairs ::
  "crypto_env \<Rightarrow> key_derivation_signature \<Rightarrow> (prover_error, note_key_pair \<times> encryption_key_pair) outcome" where
  "derive_encryption_and_note_keypairs env signature =
     andThen (derive_note_private_key env signature) (\<lambda>note_private_key.
     case note_private_key of NotePrivateKey sk \<Rightarrow>
     andThen (derive_public_key sk) (\<lambda>pubkey.
     andThen (to_array_32 pubkey) (\<lambda>pubkey.
     andThen (derive_keypair_from_signature env signature) (\<lambda>encryption_keypair.
     Inr (\<lparr>nk_private = note_private_key, nk_public = NotePublicKey pubkey\<rparr>, encryption_keypair)))))"

definition derive_membership_blinding :: "crypto_env \<Rightarrow> key_derivation_signature \<Rightarrow> string \<Rightarrow> (prover_error, field) outcome" where
  "derive_membership_blinding env sig network_context =
     (case sig of KeyDerivationSignature signature \<Rightarrow>
        if length signature \<noteq> 64 then Inl (Fail SignatureLength)
        else
          let key = hash_signature_with_domain_and_context env signature MEMBERSHIP_BLINDING_DOMAIN (str_bytes network_context);
              f = le_val key mod bn_p in
          map_err AmountError (f_try_from_le_bytes (le_bytes 32 f)))"

section \<open>Encryption of outputs\<close>

definition generate_random_blinding :: "rng \<Rightarrow> (prover_error, field \<times> rng) outcome" where
  "generate_random_blinding rng =
     andThen (getrandom 32 rng) (\<lambda>(random_bytes, rng).
     let scalar = le_val random_bytes mod bn_p; result = le_bytes 32 scalar in
     andThen (to_array_32 result) (\<lambda>le.
     andThen (map_err AmountError (f_try_from_le_bytes le)) (\<lambda>f. Inr (f, rng))))"

definition encrypt_note_data ::
  "crypto_env \<Rightarrow> byte list \<Rightarrow> byte list \<Rightarrow> rng \<Rightarrow> (prover_error, byte list \<times> rng) outcome" where
  "encrypt_note_data env recipient_pubkey_bytes plaintext rng =
     (if length recipient_pubkey_bytes \<noteq> 32 then Inl (Fail RecipientKeyLength)
      else if length plaintext \<noteq> 48 then Inl (Fail (PlaintextLength (length plaintext)))
      else
        andThen (getrandom 32 rng) (\<lambda>(ephemeral_secret, rng).
        let ephemeral_public = ce_public env ephemeral_secret;
            shared_secret = ce_diffie_hellman env ephemeral_secret recipient_pubkey_bytes in
        andThen (getrandom 24 rng) (\<lambda>(nonce_bytes, rng).
        andThen (ok_or EncryptionFailed (ce_encrypt env shared_secret nonce_bytes plaintext)) (\<lambda>ciphertext.
        andThen (expect (usize_checked_add (length ciphertext) 56)) (\<lambda>_.
        Inr (ephemeral_public @ nonce_bytes @ ciphertext, rng))))))"

definition encrypt_output_note ::
  "crypto_env \<Rightarrow> encryption_public_key \<Rightarrow> note_amount \<Rightarrow> field \<Rightarrow> rng \<Rightarrow> (prover_error, byte list \<times> rng) outcome" where
  "encrypt_output_note env recipient_pubkey amount blinding rng =
     (case recipient_pubkey of EncryptionPublicKey pk \<Rightarrow>
        encrypt_note_data env pk (na_to_le_bytes amount @ f_to_le_bytes blinding) rng)"

definition decrypt_note_data :: "crypto_env \<Rightarrow> byte list \<Rightarrow> byte list \<Rightarrow> (prover_error, byte list) outcome" where
  "decrypt_note_data env private_key_bytes encrypted_data =
     (if length private_key_bytes \<noteq> 32 then Inl (Fail PrivateKeyLength)
      else if length encrypted_data < 120 then Inl (Fail DataTooShort)
      else
        let ephemeral_pubkey = take 32 encrypted_data;
            nonce_bytes = take 24 (drop 32 encrypted_data);
            ciphertext_with_tag = drop 56 encrypted_data;
            shared_secret = ce_diffie_hellman env private_key_bytes ephemeral_pubkey in
        (case ce_decrypt env shared_secret nonce_bytes ciphertext_with_tag of
           Some plaintext \<Rightarrow> Inr plaintext | None \<Rightarrow> Inr []))"

definition decrypt_output_note ::
  "crypto_env \<Rightarrow> encryption_private_key \<Rightarrow> byte list \<Rightarrow> (prover_error, (note_amount \<times> field) option) outcome" where
  "decrypt_output_note env recipient_privkey encrypted_output =
     (case recipient_privkey of EncryptionPrivateKey sk \<Rightarrow>
        andThen (decrypt_note_data env sk encrypted_output) (\<lambda>plaintext.
        if plaintext = [] then Inr None
        else if length plaintext \<noteq> 48 then Inl (Fail (PlaintextLength (length plaintext)))
        else
          let amount = NoteAmount (from_le (take 16 plaintext)) in
          andThen (map_err AmountError (f_try_from_le_bytes (drop 16 plaintext))) (\<lambda>blinding.
          Inr (Some (amount, blinding)))))"

section \<open>Discovery\<close>

record derived_user_note =
  dn_amount :: note_amount
  dn_blinding :: field
  dn_expected_nullifier :: field

definition try_decrypt_and_derive_user_note ::
  "crypto_env \<Rightarrow> note_key_pair \<Rightarrow> encryption_private_key \<Rightarrow> field \<Rightarrow> u32 \<Rightarrow> byte list \<Rightarrow> (prover_error, derived_user_note option) outcome" where
  "try_decrypt_and_derive_user_note env note_keypair encryption_private_key commitment leaf_index encrypted_output =
     andThen (decrypt_output_note env encryption_private_key encrypted_output) (\<lambda>decrypted.
     case decrypted of None \<Rightarrow> Inr None
     | Some (amount, blinding) \<Rightarrow>
       if na_is_zero amount then Inr None
       else
         let amount_field_le = f_to_le_bytes (f_from_note amount) in
         case (nk_public note_keypair, nk_private note_keypair) of (NotePublicKey pk, NotePrivateKey sk) \<Rightarrow>
         andThen (compute_commitment amount_field_le pk (f_to_le_bytes blinding)) (\<lambda>computed.
         andThen (to_array_32 computed) (\<lambda>computed.
         if computed \<noteq> f_to_le_bytes commitment then Inr None
         else
           let commitment_le = f_to_le_bytes commitment;
               path_indices_le = to_le 8 (ucast leaf_index :: u64) @ replicate 24 0 in
           andThen (compute_signature sk commitment_le path_indices_le) (\<lambda>signature.
           andThen (compute_nullifier commitment_le path_indices_le signature) (\<lambda>expected_nullifier.
           andThen (to_array_32 expected_nullifier) (\<lambda>expected_nullifier.
           andThen (map_err AmountError (f_try_from_le_bytes expected_nullifier)) (\<lambda>expected_nullifier.
           Inr (Some \<lparr>dn_amount = amount, dn_blinding = blinding, dn_expected_nullifier = expected_nullifier\<rparr>))))))))"

section \<open>Lemmas\<close>

lemma f_to_le_bytes_nat: "f_to_le_bytes f = le_bytes 32 (unat (f_val f))"
  by (simp add: f_to_le_bytes_def to_le_le_bytes)

lemma length_f_to_le_bytes [simp]: "length (f_to_le_bytes f) = 32"
  by (simp add: f_to_le_bytes_def)

lemma length_na_to_le_bytes [simp]: "length (na_to_le_bytes a) = 16"
  by (simp add: na_to_le_bytes_def)

lemma na_from_le: "NoteAmount (from_le (na_to_le_bytes a)) = a"
  by (simp add: na_to_le_bytes_def from_le_to_le)

lemma f_try_from_to_le: "f_canonical f \<Longrightarrow> f_try_from_le_bytes (f_to_le_bytes f) = Inr f"
  by (simp add: field_le.dec_enc)

lemma to_array_32_eq [simp]: "length bs = 32 \<Longrightarrow> to_array_32 bs = Inr bs"
  by (simp add: to_array_32_def)

text \<open>The hashes of strings of the right length as field elements.\<close>

lemma hash_fields:
  assumes "length a = 32" "length b = 32" "length c = 32"
  shows "\<exists>f. f_canonical f \<and> compute_commitment a b c = Inr (f_to_le_bytes f)"
    "\<exists>f. f_canonical f \<and> compute_signature a b c = Inr (f_to_le_bytes f)"
    "\<exists>f. f_canonical f \<and> compute_nullifier a b c = Inr (f_to_le_bytes f)"
proof -
  have *: "\<exists>f. f_canonical f \<and> andThen (poseidon2_hash3_internal x y z d) scalar_to_bytes = Inr (f_to_le_bytes f)" for x y z d
  proof -
    obtain s where s: "s < bn_p" "andThen (poseidon2_hash3_internal x y z d) scalar_to_bytes = Inr (le_bytes 32 s)"
      using hash3_bytes [of x y z d] by blast
    have "unat (word_of_nat s :: u256) = s" using s(1) by (simp add: unat_of_nat)
    then show ?thesis
      using s by (intro exI [of _ "Field (word_of_nat s)"]) (simp add: f_canonical_nat f_to_le_bytes_nat)
  qed
  show "\<exists>f. f_canonical f \<and> compute_commitment a b c = Inr (f_to_le_bytes f)"
    "\<exists>f. f_canonical f \<and> compute_signature a b c = Inr (f_to_le_bytes f)"
    "\<exists>f. f_canonical f \<and> compute_nullifier a b c = Inr (f_to_le_bytes f)"
    using assms * by (simp_all add: compute_commitment_def compute_signature_def compute_nullifier_def bytes_to_scalar_cases)
qed

lemma derive_public_key_field:
  assumes "length sk = 32"
  shows "\<exists>f. f_canonical f \<and> derive_public_key sk = Inr (f_to_le_bytes f)"
proof -
  obtain h where h: "poseidon2_hash2_internal (le_val sk mod bn_p) 0 (Some 3) = Inr h" "h < bn_p"
    using hash2_ok [of "le_val sk mod bn_p" 0 "Some 3"] by blast
  have "unat (word_of_nat h :: u256) = h" using h(2) by (simp add: unat_of_nat)
  then show ?thesis using assms h
    by (intro exI [of _ "Field (word_of_nat h)"])
      (simp add: derive_public_key_def derive_public_key_internal_def bytes_to_scalar_cases f_canonical_nat f_to_le_bytes_nat scalar_to_bytes_val)
qed

lemma generate_random_blinding_ok:
  assumes "length d = 32"
  shows "generate_random_blinding (d # rng) = Inr (Field (word_of_nat (le_val d mod bn_p)), rng)"
  using assms scalar_bytes_field [of "le_val d mod bn_p"]
  by (simp add: generate_random_blinding_def getrandom_def del: le_bytes.simps)

section \<open>Properties\<close>

lemma encrypt_output_note_ok:
  assumes "crypto_ok env" "length pk = 32" "length d1 = 32" "length d2 = 24"
  shows "\<exists>c. ce_encrypt env (ce_diffie_hellman env d1 pk) d2 (na_to_le_bytes amount @ f_to_le_bytes blinding) = Some c \<and> length c = 64 \<and>
    encrypt_output_note env (EncryptionPublicKey pk) amount blinding (d1 # d2 # rng) = Inr (ce_public env d1 @ d2 @ c, rng)"
proof -
  obtain c where c: "ce_encrypt env (ce_diffie_hellman env d1 pk) d2 (na_to_le_bytes amount @ f_to_le_bytes blinding) = Some c"
    "length c = length (na_to_le_bytes amount @ f_to_le_bytes blinding) + 16"
    using assms(1) unfolding crypto_ok_def by blast
  then show ?thesis using assms
    by (simp add: encrypt_output_note_def encrypt_note_data_def getrandom_def usize_checked_add_def Let_def)
qed

lemma decrypt_packed:
  assumes "crypto_ok env" "length sk = 32" "length d2 = 24" "length c = 64"
    and "ce_decrypt env (ce_diffie_hellman env sk (ce_public env d1)) d2 c = Some (na_to_le_bytes amount @ f_to_le_bytes blinding)"
    and "f_canonical blinding"
  shows "decrypt_output_note env (EncryptionPrivateKey sk) (ce_public env d1 @ d2 @ c) = Inr (Some (amount, blinding))"
proof -
  have "length (ce_public env d1) = 32" using assms(1) by (simp add: crypto_ok_def)
  then have "decrypt_note_data env sk (ce_public env d1 @ d2 @ c) = Inr (na_to_le_bytes amount @ f_to_le_bytes blinding)"
    using assms(2-5) by (simp add: decrypt_note_data_def)
  moreover have "na_to_le_bytes amount \<noteq> []" by (metis length_na_to_le_bytes list.size(3) zero_neq_numeral)
  ultimately show ?thesis
    by (simp add: decrypt_output_note_def na_from_le f_try_from_to_le [OF assms(6)])
qed

text \<open>
  An output encrypted to a public key takes 120 bytes and is decrypted with the private key to the
  same amount and blinding, if the primitives behave as documented.
\<close>

theorem output_note_round_trip:
  assumes "crypto_ok env" "length sk = 32" "f_canonical blinding" "length d1 = 32" "length d2 = 24"
  shows "\<exists>c. encrypt_output_note env (EncryptionPublicKey (ce_public env sk)) amount blinding (d1 # d2 # rng) = Inr (c, rng) \<and>
    length c = 120 \<and> decrypt_output_note env (EncryptionPrivateKey sk) c = Inr (Some (amount, blinding))"
proof -
  have pk: "length (ce_public env sk) = 32" "length (ce_public env d1) = 32" using assms(1) by (simp_all add: crypto_ok_def)
  obtain c where c: "ce_encrypt env (ce_diffie_hellman env d1 (ce_public env sk)) d2 (na_to_le_bytes amount @ f_to_le_bytes blinding) = Some c"
    "length c = 64" "encrypt_output_note env (EncryptionPublicKey (ce_public env sk)) amount blinding (d1 # d2 # rng) =
      Inr (ce_public env d1 @ d2 @ c, rng)"
    using encrypt_output_note_ok [OF assms(1) pk(1) assms(4,5)] by blast
  have "ce_diffie_hellman env sk (ce_public env d1) = ce_diffie_hellman env d1 (ce_public env sk)"
    using assms(1) by (simp add: crypto_ok_def)
  moreover have "ce_decrypt env (ce_diffie_hellman env d1 (ce_public env sk)) d2 c = Some (na_to_le_bytes amount @ f_to_le_bytes blinding)"
    using assms(1) c(1) unfolding crypto_ok_def by (metis option.inject)
  ultimately show ?thesis using decrypt_packed [OF assms(1,2,5) c(2) _ assms(3)] c pk assms(5) by simp
qed

text \<open>An instance of the primitives, to show that the laws can hold together.\<close>

definition plain_env :: crypto_env where
  "plain_env = \<lparr>ce_sha256 = (\<lambda>a. take 32 (a @ replicate 32 0)), ce_public = (\<lambda>a. take 32 (a @ replicate 32 0)),
     ce_diffie_hellman = (\<lambda>a b. replicate 32 0), ce_encrypt = (\<lambda>k n p. Some (p @ replicate 16 7)),
     ce_decrypt = (\<lambda>k n c. if 16 \<le> length c \<and> drop (length c - 16) c = replicate 16 7 then Some (take (length c - 16) c) else None)\<rparr>"

lemma plain_env_ok: "crypto_ok plain_env"
  by (auto simp: crypto_ok_def plain_env_def)

theorem output_note_round_trip_witness:
  "\<exists>c. encrypt_output_note plain_env (EncryptionPublicKey (ce_public plain_env (replicate 32 1))) (NoteAmount 5) F_ONE
      [replicate 32 2, replicate 24 3] = Inr (c, []) \<and>
    decrypt_output_note plain_env (EncryptionPrivateKey (replicate 32 1)) c = Inr (Some (NoteAmount 5, F_ONE))"
  using output_note_round_trip [OF plain_env_ok, of "replicate 32 1" F_ONE "replicate 32 2" "replicate 24 3" "NoteAmount 5" "[]"]
  by (auto simp: f_canonical_nat F_ONE_def)

section \<open>Discovery of notes\<close>

lemma le_val_append_zeros: "le_val (bs @ replicate n 0) = le_val bs"
proof (induction bs)
  case Nil
  then show ?case by (induction n) simp_all
qed simp

lemma path_indices_bytes: "to_le 8 (ucast i :: u64) @ replicate 24 0 = f_to_le_bytes (Field (ucast (i :: u32)))"
proof -
  let ?bs = "to_le 8 (ucast i :: u64) @ replicate 24 (0 :: byte)"
  have i: "unat i < 2 ^ 32" using unsigned_less [of i, where ?'a = nat] by simp
  then have "unat (ucast i :: u64) = unat i" "unat (ucast i :: u256) = unat i" by (simp_all add: unsigned_ucast_eq take_bit_nat_eq_self)
  moreover have "le_val ?bs = unat (ucast i :: u64)"
    using i calculation(1) by (simp only: le_val_append_zeros to_le_le_bytes le_val_le_bytes) simp
  moreover have "le_bytes (length ?bs) (le_val ?bs) = ?bs" by (rule le_bytes_le_val)
  ultimately show ?thesis by (simp add: f_to_le_bytes_nat del: to_le.simps le_bytes.simps)
qed

text \<open>The nullifier of a commitment at a place of the tree, for the owner of a private key.\<close>

definition note_nullifier :: "byte list \<Rightarrow> field \<Rightarrow> field \<Rightarrow> field \<Rightarrow> bool" where
  "note_nullifier sk commitment path n \<longleftrightarrow> (\<exists>signature.
     compute_signature sk (f_to_le_bytes commitment) (f_to_le_bytes path) = Inr signature \<and>
     compute_nullifier (f_to_le_bytes commitment) (f_to_le_bytes path) signature = Inr (f_to_le_bytes n) \<and> f_canonical n)"

lemma note_nullifier_ex: "length sk = 32 \<Longrightarrow> \<exists>n. note_nullifier sk commitment path n"
proof -
  assume sk: "length sk = 32"
  obtain s where s: "compute_signature sk (f_to_le_bytes commitment) (f_to_le_bytes path) = Inr (f_to_le_bytes s)"
    using hash_fields(2) [OF sk] length_f_to_le_bytes by metis
  then show ?thesis
    using hash_fields(3) [of "f_to_le_bytes commitment" "f_to_le_bytes path" "f_to_le_bytes s"]
    by (auto simp: note_nullifier_def)
qed

lemma f_to_le_bytes_inject: "f_canonical a \<Longrightarrow> f_canonical b \<Longrightarrow> f_to_le_bytes a = f_to_le_bytes b \<Longrightarrow> a = b"
  by (rule field_le.enc_inject)

lemma derive_after_decrypt:
  assumes "decrypt_output_note env ek enc = Inr (Some (amount, blinding))" "nk_public keys = NotePublicKey pk"
    and "nk_private keys = NotePrivateKey sk" "length sk = 32" "length pk = 32" "\<not> na_is_zero amount"
    and "compute_commitment (f_to_le_bytes (f_from_note amount)) pk (f_to_le_bytes blinding) = Inr c"
  shows "if c = f_to_le_bytes commitment
    then \<exists>n. note_nullifier sk commitment (Field (ucast i)) n \<and> try_decrypt_and_derive_user_note env keys ek commitment i enc =
      Inr (Some \<lparr>dn_amount = amount, dn_blinding = blinding, dn_expected_nullifier = n\<rparr>)
    else try_decrypt_and_derive_user_note env keys ek commitment i enc = Inr None"
proof -
  have c: "length c = 32"
    using hash_fields(1) [of "f_to_le_bytes (f_from_note amount)" pk "f_to_le_bytes blinding"] assms(5,7) by auto
  obtain n where n: "note_nullifier sk commitment (Field (ucast i)) n" using note_nullifier_ex [OF assms(4)] by blast
  then obtain s where s: "compute_signature sk (f_to_le_bytes commitment) (f_to_le_bytes (Field (ucast i))) = Inr s"
    "compute_nullifier (f_to_le_bytes commitment) (f_to_le_bytes (Field (ucast i))) s = Inr (f_to_le_bytes n)" "f_canonical n"
    by (auto simp: note_nullifier_def)
  have step: "try_decrypt_and_derive_user_note env keys ek commitment i enc =
      (if c = f_to_le_bytes commitment
       then Inr (Some \<lparr>dn_amount = amount, dn_blinding = blinding, dn_expected_nullifier = n\<rparr>) else Inr None)"
    using assms(1-3,6,7) c s
    by (simp add: try_decrypt_and_derive_user_note_def path_indices_bytes f_try_from_to_le del: to_le.simps replicate.simps)
  then show ?thesis using n by auto
qed

text \<open>
  Property C39: an output of a positive amount that was encrypted to a wallet and committed to its note key is
  found by it, with its amount and blinding and the nullifier its owner computes for that commitment at
  its place in the tree.
\<close>

theorem own_note_is_found:
  assumes "crypto_ok env" "length esk = 32" "nk_public keys = NotePublicKey pk" "nk_private keys = NotePrivateKey sk"
    and "length sk = 32" "length pk = 32" "f_canonical blinding" "\<not> na_is_zero amount" "length d1 = 32" "length d2 = 24"
    and "compute_commitment (f_to_le_bytes (f_from_note amount)) pk (f_to_le_bytes blinding) = Inr (f_to_le_bytes commitment)"
    and "encrypt_output_note env (EncryptionPublicKey (ce_public env esk)) amount blinding (d1 # d2 # rng) = Inr (enc, rng)"
  shows "\<exists>n. note_nullifier sk commitment (Field (ucast i)) n \<and>
    try_decrypt_and_derive_user_note env keys (EncryptionPrivateKey esk) commitment i enc =
      Inr (Some \<lparr>dn_amount = amount, dn_blinding = blinding, dn_expected_nullifier = n\<rparr>)"
proof -
  have pkl: "length (ce_public env esk) = 32" "length (ce_public env d1) = 32" using assms(1) by (simp_all add: crypto_ok_def)
  obtain c where c: "ce_encrypt env (ce_diffie_hellman env d1 (ce_public env esk)) d2 (na_to_le_bytes amount @ f_to_le_bytes blinding) = Some c"
    "length c = 64" "enc = ce_public env d1 @ d2 @ c"
    using encrypt_output_note_ok [OF assms(1) pkl(1) assms(9,10), of amount blinding rng] assms(12) by auto
  have "ce_diffie_hellman env esk (ce_public env d1) = ce_diffie_hellman env d1 (ce_public env esk)"
    using assms(1) by (simp add: crypto_ok_def)
  moreover have "ce_decrypt env (ce_diffie_hellman env d1 (ce_public env esk)) d2 c = Some (na_to_le_bytes amount @ f_to_le_bytes blinding)"
    using assms(1) c(1) unfolding crypto_ok_def by (metis option.inject)
  ultimately have "decrypt_output_note env (EncryptionPrivateKey esk) enc = Inr (Some (amount, blinding))"
    using decrypt_packed [OF assms(1,2,10) c(2) _ assms(7)] c(3) by simp
  from derive_after_decrypt [OF this assms(3-6,8,11), of commitment i] show ?thesis by simp
qed

lemma found_note:
  assumes "nk_public keys = NotePublicKey pk" "nk_private keys = NotePrivateKey sk" "length sk = 32" "length pk = 32"
    and "try_decrypt_and_derive_user_note env keys ek commitment i enc = Inr (Some note)"
  shows "\<not> na_is_zero (dn_amount note) \<and> f_canonical (dn_blinding note) \<and>
    compute_commitment (f_to_le_bytes (f_from_note (dn_amount note))) pk (f_to_le_bytes (dn_blinding note)) = Inr (f_to_le_bytes commitment) \<and>
    note_nullifier sk commitment (Field (ucast i)) (dn_expected_nullifier note)"
proof -
  obtain amount blinding where dec: "decrypt_output_note env ek enc = Inr (Some (amount, blinding))" "\<not> na_is_zero amount"
    using assms(5) by (auto simp: try_decrypt_and_derive_user_note_def andThen_Inr split: option.splits if_splits)
  have bl: "f_canonical blinding"
    using dec(1) by (auto simp: decrypt_output_note_def andThen_Inr res_simps f_try_from_le_bytes_def f_canonical_def Let_def
        split: encryption_private_key.splits if_splits)
  obtain c where c: "compute_commitment (f_to_le_bytes (f_from_note amount)) pk (f_to_le_bytes blinding) = Inr c"
    using hash_fields(1) [of "f_to_le_bytes (f_from_note amount)" pk "f_to_le_bytes blinding"] assms(4) by auto
  show ?thesis
    using derive_after_decrypt [OF dec(1) assms(1-4) dec(2) c, of commitment i] assms(5) dec(2) bl c by (auto split: if_splits)
qed

text \<open>
  Property C40: a note a wallet reports is its own: the amount is positive and hashes with the wallet's note key and
  the blinding to the commitment on the chain, and the expected nullifier is the owner's.
\<close>

theorem found_note_is_own:
  assumes "nk_public keys = NotePublicKey pk" "nk_private keys = NotePrivateKey sk" "length sk = 32" "length pk = 32"
    and "try_decrypt_and_derive_user_note env keys ek commitment i enc = Inr (Some note)"
  shows "\<not> na_is_zero (dn_amount note) \<and> f_canonical (dn_blinding note) \<and>
    compute_commitment (f_to_le_bytes (f_from_note (dn_amount note))) pk (f_to_le_bytes (dn_blinding note)) = Inr (f_to_le_bytes commitment) \<and>
    note_nullifier sk commitment (Field (ucast i)) (dn_expected_nullifier note)"
  by (rule found_note [OF assms])

lemma run_commitment:
  "\<exists>commitment. compute_commitment (f_to_le_bytes (f_from_note (NoteAmount 5))) (replicate 32 4) (f_to_le_bytes F_ONE) =
    Inr (f_to_le_bytes commitment)"
  using hash_fields(1) [of "f_to_le_bytes (f_from_note (NoteAmount 5))" "replicate 32 4" "f_to_le_bytes F_ONE"] by auto

definition run_keys :: note_key_pair where
  "run_keys = \<lparr>nk_private = NotePrivateKey (replicate 32 6), nk_public = NotePublicKey (replicate 32 4)\<rparr>"

theorem own_note_is_found_witness:
  "\<exists>commitment enc note. try_decrypt_and_derive_user_note plain_env run_keys (EncryptionPrivateKey (replicate 32 1)) commitment 3 enc =
    Inr (Some note) \<and> dn_amount note = NoteAmount 5"
proof -
  obtain commitment where c: "compute_commitment (f_to_le_bytes (f_from_note (NoteAmount 5))) (replicate 32 4) (f_to_le_bytes F_ONE) =
    Inr (f_to_le_bytes commitment)" using run_commitment by blast
  obtain enc where "encrypt_output_note plain_env (EncryptionPublicKey (ce_public plain_env (replicate 32 1))) (NoteAmount 5) F_ONE
      (replicate 32 2 # replicate 24 3 # []) = Inr (enc, [])"
    using encrypt_output_note_ok [OF plain_env_ok, of "ce_public plain_env (replicate 32 1)" "replicate 32 2" "replicate 24 3" "NoteAmount 5" F_ONE "[]"]
      plain_env_ok by (auto simp: crypto_ok_def)
  from own_note_is_found [OF plain_env_ok _ _ _ _ _ _ _ _ _ c this, of run_keys "replicate 32 6" 3]
  have "\<exists>n. try_decrypt_and_derive_user_note plain_env run_keys (EncryptionPrivateKey (replicate 32 1)) commitment 3 enc =
      Inr (Some \<lparr>dn_amount = NoteAmount 5, dn_blinding = F_ONE, dn_expected_nullifier = n\<rparr>)"
    by (auto simp: run_keys_def f_canonical_nat F_ONE_def na_is_zero_def)
  then show ?thesis by (metis derived_user_note.select_convs(1))
qed

lemma run_found:
  assumes "length pk = 32"
  shows "\<exists>commitment enc n. try_decrypt_and_derive_user_note plain_env
      \<lparr>nk_private = NotePrivateKey (replicate 32 6), nk_public = NotePublicKey pk\<rparr> (EncryptionPrivateKey (replicate 32 1)) commitment 3 enc =
    Inr (Some \<lparr>dn_amount = NoteAmount 5, dn_blinding = F_ONE, dn_expected_nullifier = n\<rparr>)"
proof -
  obtain commitment where c: "compute_commitment (f_to_le_bytes (f_from_note (NoteAmount 5))) pk (f_to_le_bytes F_ONE) =
    Inr (f_to_le_bytes commitment)"
    using hash_fields(1) [OF length_f_to_le_bytes assms length_f_to_le_bytes] by metis
  let ?c = "(na_to_le_bytes (NoteAmount 5) @ f_to_le_bytes F_ONE) @ replicate 16 7"
  have "decrypt_output_note plain_env (EncryptionPrivateKey (replicate 32 1)) (ce_public plain_env [] @ replicate 24 3 @ ?c) =
      Inr (Some (NoteAmount 5, F_ONE))"
    by (rule decrypt_packed [OF plain_env_ok]) (simp_all add: plain_env_def f_canonical_nat F_ONE_def)
  from derive_after_decrypt [OF this _ _ _ assms _ c, of "\<lparr>nk_private = NotePrivateKey (replicate 32 6), nk_public = NotePublicKey pk\<rparr>"
      "replicate 32 6" commitment 3]
  show ?thesis by (fastforce simp: na_is_zero_def)
qed

theorem found_note_is_own_witness:
  "\<exists>commitment enc note. try_decrypt_and_derive_user_note plain_env run_keys (EncryptionPrivateKey (replicate 32 1)) commitment 3 enc =
    Inr (Some note) \<and> note_nullifier (replicate 32 6) commitment (Field 3) (dn_expected_nullifier note)"
proof -
  obtain commitment enc dn where "try_decrypt_and_derive_user_note plain_env run_keys (EncryptionPrivateKey (replicate 32 1)) commitment 3 enc = Inr (Some dn)"
    using run_found [of "replicate 32 4"] unfolding run_keys_def by fastforce
  from found_note_is_own [OF _ _ _ _ this, of "replicate 32 4" "replicate 32 6"] this show ?thesis
    by (auto simp: run_keys_def)
qed

text \<open>
  Outputs the contract accepts and the wallet cannot read without an error: a string that is too short, whatever
  the keys are.
\<close>

lemma short_output_fails:
  "length esk = 32 \<Longrightarrow> length enc < 120 \<Longrightarrow>
    try_decrypt_and_derive_user_note env keys (EncryptionPrivateKey esk) commitment i enc = Inl (Fail DataTooShort)"
  by (simp add: try_decrypt_and_derive_user_note_def decrypt_output_note_def decrypt_note_data_def)

text \<open>
  More exactly, scanning an output fails exactly if it has fewer than 120 bytes or decrypts to something that
  is not empty and not an amount of sixteen bytes with a canonical blinding.
\<close>

definition readable :: "crypto_env \<Rightarrow> encryption_private_key \<Rightarrow> byte list \<Rightarrow> bool" where
  "readable env key enc \<longleftrightarrow> (case key of EncryptionPrivateKey esk \<Rightarrow> 120 \<le> length enc \<and>
     (\<forall>p. ce_decrypt env (ce_diffie_hellman env esk (take 32 enc)) (take 24 (drop 32 enc)) (drop 56 enc) = Some p \<longrightarrow>
       p = [] \<or> length p = 48 \<and> f_canonical (Field (from_le (drop 16 p)))))"

lemma f_try_from_le_bytes_ok: "(\<exists>f. f_try_from_le_bytes bs = Inr f) \<longleftrightarrow> f_canonical (Field (from_le bs))"
  by (auto simp: f_try_from_le_bytes_def f_try_from_u256_def f_canonical_def not_le)

lemma decrypt_succeeds_iff:
  assumes "length esk = 32"
  shows "(\<exists>d. decrypt_output_note env (EncryptionPrivateKey esk) enc = Inr d) \<longleftrightarrow> readable env (EncryptionPrivateKey esk) enc"
proof (cases "ce_decrypt env (ce_diffie_hellman env esk (take 32 enc)) (take 24 (drop 32 enc)) (drop 56 enc)")
  case None
  then show ?thesis using assms by (simp add: decrypt_output_note_def decrypt_note_data_def readable_def)
next
  case (Some p)
  then show ?thesis using assms f_try_from_le_bytes_ok [of "drop 16 p"]
    by (auto simp: decrypt_output_note_def decrypt_note_data_def readable_def andThen_Inr map_err_Inr Let_def)
qed

lemma derive_succeeds_iff:
  assumes "nk_public keys = NotePublicKey pk" "nk_private keys = NotePrivateKey sk" "length sk = 32" "length pk = 32" "length esk = 32"
  shows "(\<exists>d. try_decrypt_and_derive_user_note env keys (EncryptionPrivateKey esk) commitment i enc = Inr d) \<longleftrightarrow>
    readable env (EncryptionPrivateKey esk) enc"
proof (cases "\<exists>d. decrypt_output_note env (EncryptionPrivateKey esk) enc = Inr d")
  case False
  then show ?thesis using decrypt_succeeds_iff [OF assms(5), of env enc] by (auto simp: try_decrypt_and_derive_user_note_def andThen_Inr)
next
  case True
  then obtain d where d: "decrypt_output_note env (EncryptionPrivateKey esk) enc = Inr d" by blast
  have "\<exists>x. try_decrypt_and_derive_user_note env keys (EncryptionPrivateKey esk) commitment i enc = Inr x"
  proof (cases "\<exists>amount blinding. d = Some (amount, blinding) \<and> \<not> na_is_zero amount")
    case False
    then show ?thesis using d by (cases d) (auto simp: try_decrypt_and_derive_user_note_def)
  next
    case True
    then obtain amount blinding where a: "d = Some (amount, blinding)" "\<not> na_is_zero amount" by blast
    obtain c where "compute_commitment (f_to_le_bytes (f_from_note amount)) pk (f_to_le_bytes blinding) = Inr c"
      using hash_fields(1) [of "f_to_le_bytes (f_from_note amount)" pk "f_to_le_bytes blinding"] assms(4) by auto
    from derive_after_decrypt [OF d [unfolded a(1)] assms(1-4) a(2) this, of commitment i] show ?thesis by (auto split: if_splits)
  qed
  then show ?thesis using decrypt_succeeds_iff [OF assms(5), of env enc] True by blast
qed

text \<open>Keys that were derived from a signature are of the right length.\<close>

lemma derived_key_sizes:
  assumes "derive_encryption_and_note_keypairs env sig = Inr (n, e)"
  shows "\<exists>sk pk esk. nk_private n = NotePrivateKey sk \<and> nk_public n = NotePublicKey pk \<and> ek_private e = EncryptionPrivateKey esk \<and>
    length sk = 32 \<and> length pk = 32 \<and> length esk = 32"
  using assms
  by (auto simp: derive_encryption_and_note_keypairs_def derive_note_private_key_def derive_keypair_from_signature_def to_array_32_def andThen_Inr Let_def
      simp del: le_bytes.simps split: key_derivation_signature.splits if_splits note_private_key.splits)

lemma derived_keys:
  assumes "crypto_ok env"
  shows "(if length sig = 64
    then \<exists>sk pk esk. derive_encryption_and_note_keypairs env (KeyDerivationSignature sig) =
        Inr (\<lparr>nk_private = NotePrivateKey (f_to_le_bytes sk), nk_public = NotePublicKey (f_to_le_bytes pk)\<rparr>,
             \<lparr>ek_private = EncryptionPrivateKey esk, ek_public = EncryptionPublicKey (ce_public env esk)\<rparr>) \<and>
      f_canonical sk \<and> f_canonical pk \<and> derive_public_key (f_to_le_bytes sk) = Inr (f_to_le_bytes pk) \<and> length esk = 32
    else derive_encryption_and_note_keypairs env (KeyDerivationSignature sig) = Inl (Fail SignatureLength))"
proof (cases "length sig = 64")
  case True
  let ?v = "le_val (hash_signature_with_domain env sig NOTE_KEY_DOMAIN) mod bn_p"
  let ?sk = "Field (word_of_nat ?v)"
  have v: "unat (word_of_nat ?v :: u256) = ?v" by (simp add: unat_of_nat)
  then have sk: "f_canonical ?sk" "le_bytes 32 ?v = f_to_le_bytes ?sk" by (simp_all add: f_canonical_nat f_to_le_bytes_nat)
  obtain pk where pk: "f_canonical pk" "derive_public_key (f_to_le_bytes ?sk) = Inr (f_to_le_bytes pk)"
    using derive_public_key_field [of "f_to_le_bytes ?sk"] by auto
  have "length (hash_signature_with_domain env sig ENCRYPTION_KEY_DOMAIN) = 32"
    using assms by (simp add: hash_signature_with_domain_def crypto_ok_def)
  then have "derive_encryption_and_note_keypairs env (KeyDerivationSignature sig) =
      Inr (\<lparr>nk_private = NotePrivateKey (f_to_le_bytes ?sk), nk_public = NotePublicKey (f_to_le_bytes pk)\<rparr>,
        \<lparr>ek_private = EncryptionPrivateKey (hash_signature_with_domain env sig ENCRYPTION_KEY_DOMAIN),
         ek_public = EncryptionPublicKey (ce_public env (hash_signature_with_domain env sig ENCRYPTION_KEY_DOMAIN))\<rparr>)"
    using True sk(2) pk(2)
    by (simp add: derive_encryption_and_note_keypairs_def derive_note_private_key_def derive_keypair_from_signature_def Let_def
        del: le_bytes.simps)
  then show ?thesis using True sk(1) pk \<open>length (hash_signature_with_domain env sig ENCRYPTION_KEY_DOMAIN) = 32\<close> by auto
qed (simp add: derive_encryption_and_note_keypairs_def derive_note_private_key_def)

text \<open>
  From a signature of sixty-four bytes the keys are derived without failure: the private note key is a
  field element, the public one its hash, and the encryption keys belong together; any other length is
  refused.
\<close>

theorem derived_keys_type:
  assumes "crypto_ok env"
  shows "(if length sig = 64
    then \<exists>sk pk esk. derive_encryption_and_note_keypairs env (KeyDerivationSignature sig) =
        Inr (\<lparr>nk_private = NotePrivateKey (f_to_le_bytes sk), nk_public = NotePublicKey (f_to_le_bytes pk)\<rparr>,
             \<lparr>ek_private = EncryptionPrivateKey esk, ek_public = EncryptionPublicKey (ce_public env esk)\<rparr>) \<and>
      f_canonical sk \<and> f_canonical pk \<and> derive_public_key (f_to_le_bytes sk) = Inr (f_to_le_bytes pk) \<and> length esk = 32
    else derive_encryption_and_note_keypairs env (KeyDerivationSignature sig) = Inl (Fail SignatureLength))"
  by (rule derived_keys [OF assms])

theorem derived_keys_type_witness:
  "\<exists>keys. derive_encryption_and_note_keypairs plain_env (KeyDerivationSignature (replicate 64 9)) = Inr keys"
  using derived_keys_type [OF plain_env_ok, of "replicate 64 9"] by auto

end
