(* ===== verification/Flows.thy ===== *)
theory Flows imports Notes begin

text \<open>
  The transaction flows of the client, from \<^verbatim>\<open>app/crates/core/prover/src/flows.rs\<close>: deposit,
  withdraw, transfer and the builder \<open>transact\<close> they share, which checks that the amounts
  balance, pads inputs and outputs to the two slots of the circuit, computes nullifiers and
  commitments, encrypts the outputs and lays the signals of the circuit out; and the signals of a
  selective disclosure. The hash of the external data is an argument of the flows in the source.
\<close>

section \<open>Types\<close>

definition N_INPUTS :: nat where "N_INPUTS = 2"
definition N_OUTPUTS :: nat where "N_OUTPUTS = 2"

datatype input_value = Single string | Array "string list"

type_synonym circuit_inputs = "string \<Rightarrow> input_value option"

definition set_single :: "string \<Rightarrow> string \<Rightarrow> circuit_inputs \<Rightarrow> circuit_inputs" where
  "set_single name v c = c(name \<mapsto> Single v)"

definition set_array :: "string \<Rightarrow> string list \<Rightarrow> circuit_inputs \<Rightarrow> circuit_inputs" where
  "set_array name vs c = c(name \<mapsto> Array vs)"

record transact_input =
  ti_amount :: note_amount
  ti_blinding :: field
  ti_path_elements :: "field list"
  ti_path_indices :: field

record transact_output =
  to_amount :: note_amount
  to_blinding :: field
  to_recipient_note_pubkey :: "note_public_key option"
  to_recipient_encryption_pubkey :: "encryption_public_key option"

record asp_membership_proof =
  am_leaf :: field
  am_blinding :: field
  am_path_elements :: "field list"
  am_path_indices :: field
  am_root :: field

record asp_non_membership_proof =
  an_key :: field
  an_old_key :: field
  an_old_value :: field
  an_is_old0 :: bool
  an_siblings :: "field list"
  an_root :: field

record client_ext_data =
  ce_recipient :: string
  ce_ext_amount :: ext_amount
  ce_encrypted_output0 :: "byte list"
  ce_encrypted_output1 :: "byte list"

record prepared_tx =
  pr_pool_root :: field
  pr_input_nullifiers :: "field list"
  pr_output_commitments :: "field list"
  pr_public_amount :: field
  pr_ext_data_hash_be :: "byte list"
  pr_asp_membership_root :: field
  pr_asp_non_membership_root :: field

record transact_artifacts =
  ta_circuit_inputs :: circuit_inputs
  ta_ext_data :: client_ext_data
  ta_prepared :: prepared_tx

record transact_params =
  tp_priv_key :: note_private_key
  tp_encryption_pubkey :: encryption_public_key
  tp_pool_root :: field
  tp_ext_recipient :: string
  tp_ext_amount :: ext_amount
  tp_inputs :: "transact_input list"
  tp_outputs :: "transact_output list"
  tp_membership :: asp_membership_proof
  tp_non_membership :: asp_non_membership_proof
  tp_tree_depth :: nat
  tp_smt_depth :: nat

type_synonym ext_hash = "client_ext_data \<Rightarrow> (prover_error, byte list) outcome"

section \<open>Helpers\<close>

fun sum_note_amounts_inputs :: "transact_input list \<Rightarrow> note_amount \<Rightarrow> (prover_error, note_amount) outcome" where
  "sum_note_amounts_inputs [] acc = Inr acc"
| "sum_note_amounts_inputs (n # ns) acc =
     andThen (ok_or SumOverflow (na_checked_add acc (ti_amount n))) (\<lambda>t. sum_note_amounts_inputs ns t)"

fun sum_note_amounts_outputs :: "transact_output list \<Rightarrow> note_amount \<Rightarrow> (prover_error, note_amount) outcome" where
  "sum_note_amounts_outputs [] acc = Inr acc"
| "sum_note_amounts_outputs (n # ns) acc =
     andThen (ok_or SumOverflow (na_checked_add acc (to_amount n))) (\<lambda>t. sum_note_amounts_outputs ns t)"

definition dummy_input :: "nat \<Rightarrow> rng \<Rightarrow> (prover_error, transact_input \<times> rng) outcome" where
  "dummy_input tree_depth rng =
     andThen (generate_random_blinding rng) (\<lambda>(blinding, rng).
     Inr (\<lparr>ti_amount = NA_ZERO, ti_blinding = blinding, ti_path_elements = replicate tree_depth F_ZERO,
           ti_path_indices = F_ZERO\<rparr>, rng))"

definition field_to_circuit_hex :: "field \<Rightarrow> (prover_error, string) outcome" where
  "field_to_circuit_hex f = field_bytes_to_hex (f_to_le_bytes f)"

definition ext_amount_to_circuit_hex :: "ext_amount \<Rightarrow> (prover_error, string) outcome" where
  "ext_amount_to_circuit_hex amount =
     andThen (map_err AmountError (f_try_from_ext amount)) field_to_circuit_hex"

definition be32_to_0x_hex :: "byte list \<Rightarrow> string" where
  "be32_to_0x_hex be = ''0x'' @ concat (map hex_byte be)"

section \<open>The balance\<close>

definition is_balanced :: "ext_amount \<Rightarrow> note_amount \<Rightarrow> note_amount \<Rightarrow> (prover_error, bool) outcome" where
  "is_balanced ext_amount inputs_sum outputs_sum =
     (if EA_ZERO \<le> ext_amount then
        andThen (map_err AmountError (na_try_from_ext ext_amount)) (\<lambda>public_note.
        andThen (ok_or BalanceOverflow (na_checked_add inputs_sum public_note)) (\<lambda>lhs.
        Inr (lhs = outputs_sum)))
      else
        andThen (ok_or NegationOverflow (ea_checked_neg ext_amount)) (\<lambda>neg.
        andThen (map_err AmountError (na_try_from_ext neg)) (\<lambda>public_note.
        andThen (ok_or BalanceOverflow (na_checked_add outputs_sum public_note)) (\<lambda>rhs.
        Inr (inputs_sum = rhs)))))"

section \<open>Padding\<close>

text \<open>The loops that fill the slots; the number is how many are missing.\<close>

fun pad_inputs :: "nat \<Rightarrow> nat \<Rightarrow> transact_input list \<Rightarrow> rng \<Rightarrow> (prover_error, transact_input list \<times> rng) outcome" where
  "pad_inputs depth 0 slots rng = Inr (slots, rng)"
| "pad_inputs depth (Suc k) slots rng =
     andThen (dummy_input depth rng) (\<lambda>(d, rng). pad_inputs depth k (slots @ [d]) rng)"

definition input_slots :: "nat \<Rightarrow> transact_input list \<Rightarrow> rng \<Rightarrow> (prover_error, transact_input list \<times> rng) outcome" where
  "input_slots depth inputs rng =
     (if inputs = [] then
        andThen (dummy_input depth rng) (\<lambda>(d0, rng).
        andThen (dummy_input depth rng) (\<lambda>(d1, rng). Inr ([d0, d1], rng)))
      else if N_INPUTS < length inputs then Inl (Fail (TooManyInputs (length inputs)))
      else pad_inputs depth (N_INPUTS - length inputs) inputs rng)"

fun check_paths :: "nat \<Rightarrow> nat \<Rightarrow> transact_input list \<Rightarrow> (prover_error, unit) outcome" where
  "check_paths depth i [] = Inr ()"
| "check_paths depth i (inp # rest) =
     andThen (guard (length (ti_path_elements inp) = depth) (PathLength i depth (length (ti_path_elements inp)))) (\<lambda>_.
     check_paths depth (Suc i) rest)"

fun pad_outputs :: "nat \<Rightarrow> transact_output list \<Rightarrow> rng \<Rightarrow> (prover_error, transact_output list \<times> rng) outcome" where
  "pad_outputs 0 slots rng = Inr (slots, rng)"
| "pad_outputs (Suc k) slots rng =
     andThen (generate_random_blinding rng) (\<lambda>(blinding, rng).
     pad_outputs k (slots @ [\<lparr>to_amount = NA_ZERO, to_blinding = blinding, to_recipient_note_pubkey = None,
       to_recipient_encryption_pubkey = None\<rparr>]) rng)"

fun check_pairing :: "nat \<Rightarrow> transact_output list \<Rightarrow> (prover_error, unit) outcome" where
  "check_pairing i [] = Inr ()"
| "check_pairing i (out # rest) =
     andThen (guard ((to_recipient_note_pubkey out \<noteq> None) = (to_recipient_encryption_pubkey out \<noteq> None)) (KeyPairing i)) (\<lambda>_.
     check_pairing (Suc i) rest)"

section \<open>One input, one output\<close>

record input_wires =
  iw_nullifier :: field
  iw_nullifier_hex :: string
  iw_amount_hex :: string
  iw_priv_hex :: string
  iw_blinding_hex :: string
  iw_indices_hex :: string
  iw_path_hexes :: "string list"

definition input_step :: "byte list \<Rightarrow> byte list \<Rightarrow> string \<Rightarrow> transact_input \<Rightarrow> (prover_error, input_wires) outcome" where
  "input_step priv_key sender_note_pubkey priv_key_hex inp =
     (let amount_field = f_from_note (ti_amount inp);
          amount_field_le = f_to_le_bytes amount_field;
          inp_blinding_le = f_to_le_bytes (ti_blinding inp);
          merkle_path_indices = f_to_le_bytes (ti_path_indices inp) in
      andThen (compute_commitment amount_field_le sender_note_pubkey inp_blinding_le) (\<lambda>commitment.
      andThen (compute_signature priv_key commitment merkle_path_indices) (\<lambda>signature.
      andThen (compute_nullifier commitment merkle_path_indices signature) (\<lambda>nullifier.
      andThen (to_array_32 nullifier) (\<lambda>nullifier_arr.
      andThen (map_err AmountError (f_try_from_le_bytes nullifier_arr)) (\<lambda>nullifier_field.
      andThen (field_to_circuit_hex nullifier_field) (\<lambda>nullifier_hex.
      andThen (field_to_circuit_hex amount_field) (\<lambda>amount_hex.
      andThen (field_bytes_to_hex inp_blinding_le) (\<lambda>blinding_hex.
      andThen (field_to_circuit_hex (ti_path_indices inp)) (\<lambda>indices_hex.
      andThen (traverse field_to_circuit_hex (ti_path_elements inp)) (\<lambda>path_hexes.
      Inr \<lparr>iw_nullifier = nullifier_field, iw_nullifier_hex = nullifier_hex, iw_amount_hex = amount_hex,
           iw_priv_hex = priv_key_hex, iw_blinding_hex = blinding_hex, iw_indices_hex = indices_hex,
           iw_path_hexes = path_hexes\<rparr>)))))))))))"

record output_wires =
  ow_commitment :: field
  ow_encrypted :: "byte list"
  ow_amount_hex :: string
  ow_pubkey_hex :: string
  ow_blinding_hex :: string
  ow_commitment_hex :: string

definition output_step ::
  "crypto_env \<Rightarrow> byte list \<Rightarrow> encryption_public_key \<Rightarrow> transact_output \<Rightarrow> rng \<Rightarrow> (prover_error, output_wires \<times> rng) outcome" where
  "output_step env sender_note_pubkey encryption_pubkey out rng =
     (let recipient_note_pubkey = (case to_recipient_note_pubkey out of Some (NotePublicKey k) \<Rightarrow> k | None \<Rightarrow> sender_note_pubkey);
          recipient_enc_pubkey = (case to_recipient_encryption_pubkey out of Some k \<Rightarrow> k | None \<Rightarrow> encryption_pubkey);
          amount_field = f_from_note (to_amount out);
          amount_field_le = f_to_le_bytes amount_field;
          out_blinding_le = f_to_le_bytes (to_blinding out) in
      andThen (compute_commitment amount_field_le recipient_note_pubkey out_blinding_le) (\<lambda>commitment.
      andThen (to_array_32 commitment) (\<lambda>commitment_arr.
      andThen (map_err AmountError (f_try_from_le_bytes commitment_arr)) (\<lambda>commitment_field.
      andThen (encrypt_output_note env recipient_enc_pubkey (to_amount out) (to_blinding out) rng) (\<lambda>(enc, rng).
      andThen (field_to_circuit_hex amount_field) (\<lambda>amount_hex.
      andThen (field_bytes_to_hex recipient_note_pubkey) (\<lambda>pubkey_hex.
      andThen (field_bytes_to_hex out_blinding_le) (\<lambda>blinding_hex.
      andThen (field_to_circuit_hex commitment_field) (\<lambda>commitment_hex.
      Inr (\<lparr>ow_commitment = commitment_field, ow_encrypted = enc, ow_amount_hex = amount_hex, ow_pubkey_hex = pubkey_hex,
            ow_blinding_hex = blinding_hex, ow_commitment_hex = commitment_hex\<rparr>, rng))))))))))"

fun output_loop ::
  "crypto_env \<Rightarrow> byte list \<Rightarrow> encryption_public_key \<Rightarrow> transact_output list \<Rightarrow> rng \<Rightarrow> (prover_error, output_wires list \<times> rng) outcome" where
  "output_loop env sender_note_pubkey encryption_pubkey [] rng = Inr ([], rng)"
| "output_loop env sender_note_pubkey encryption_pubkey (out # rest) rng =
     andThen (output_step env sender_note_pubkey encryption_pubkey out rng) (\<lambda>(w, rng).
     andThen (output_loop env sender_note_pubkey encryption_pubkey rest rng) (\<lambda>(ws, rng). Inr (w # ws, rng)))"

section \<open>The proofs of the association sets\<close>

fun asp_loop :: "asp_membership_proof \<Rightarrow> asp_non_membership_proof \<Rightarrow> nat list \<Rightarrow> circuit_inputs \<Rightarrow> (prover_error, circuit_inputs) outcome" where
  "asp_loop m n [] c = Inr c"
| "asp_loop m n (slot # slots) c =
     (let prefix_m = ''membershipProofs['' @ [hex_digit slot] @ ''][0].'';
          prefix_n = ''nonMembershipProofs['' @ [hex_digit slot] @ ''][0].'' in
      andThen (field_to_circuit_hex (am_leaf m)) (\<lambda>leaf.
      andThen (field_to_circuit_hex (am_blinding m)) (\<lambda>blinding.
      andThen (field_to_circuit_hex (am_path_indices m)) (\<lambda>path_indices.
      andThen (traverse field_to_circuit_hex (am_path_elements m)) (\<lambda>path_elements.
      andThen (field_to_circuit_hex (am_root m)) (\<lambda>m_root.
      andThen (field_to_circuit_hex (an_key n)) (\<lambda>key.
      andThen (field_to_circuit_hex (an_old_key n)) (\<lambda>old_key.
      andThen (field_to_circuit_hex (an_old_value n)) (\<lambda>old_value.
      andThen (field_to_circuit_hex (if an_is_old0 n then f_from_note NA_ONE else F_ZERO)) (\<lambda>is_old0.
      andThen (traverse field_to_circuit_hex (an_siblings n)) (\<lambda>siblings.
      andThen (field_to_circuit_hex (an_root n)) (\<lambda>n_root.
      asp_loop m n slots
        (set_single (prefix_n @ ''root'') n_root (set_array (prefix_n @ ''siblings'') siblings
        (set_single (prefix_n @ ''isOld0'') is_old0 (set_single (prefix_n @ ''oldValue'') old_value
        (set_single (prefix_n @ ''oldKey'') old_key (set_single (prefix_n @ ''key'') key
        (set_single (prefix_m @ ''root'') m_root (set_array (prefix_m @ ''pathElements'') path_elements
        (set_single (prefix_m @ ''pathIndices'') path_indices (set_single (prefix_m @ ''blinding'') blinding
        (set_single (prefix_m @ ''leaf'') leaf c)))))))))))))))))))))))"

section \<open>The builder\<close>

definition build_transact ::
  "crypto_env \<Rightarrow> transact_params \<Rightarrow> ext_hash \<Rightarrow> rng \<Rightarrow> (prover_error, transact_artifacts \<times> rng) outcome" where
  "build_transact env ps hash_ext_data rng =
     (case tp_priv_key ps of NotePrivateKey priv_key \<Rightarrow>
      let tree_depth = tp_tree_depth ps; smt_depth = tp_smt_depth ps; ext_amount = tp_ext_amount ps;
          inputs = tp_inputs ps; outputs = tp_outputs ps; m = tp_membership ps; n = tp_non_membership ps in
      andThen (guard (tree_depth \<noteq> 0) TreeDepthZero) (\<lambda>_.
      andThen (guard (smt_depth \<noteq> 0) SmtDepthZero) (\<lambda>_.
      andThen (guard (length (am_path_elements m) = tree_depth) (MembershipLength tree_depth (length (am_path_elements m)))) (\<lambda>_.
      andThen (guard (length (an_siblings n) = smt_depth) (NonMembershipLength smt_depth (length (an_siblings n)))) (\<lambda>_.
      andThen (guard (length outputs \<le> N_OUTPUTS) (TooManyOutputs (length outputs))) (\<lambda>_.
      andThen (sum_note_amounts_inputs inputs NA_ZERO) (\<lambda>inputs_sum.
      andThen (sum_note_amounts_outputs outputs NA_ZERO) (\<lambda>outputs_sum.
      andThen (is_balanced ext_amount inputs_sum outputs_sum) (\<lambda>balanced.
      andThen (guard balanced NotBalanced) (\<lambda>_.
      andThen (derive_public_key priv_key) (\<lambda>sender_note_pubkey_bytes.
      andThen (to_array_32 sender_note_pubkey_bytes) (\<lambda>sender_note_pubkey.
      andThen (input_slots tree_depth inputs rng) (\<lambda>(input_slots, rng).
      andThen (check_paths tree_depth 0 input_slots) (\<lambda>_.
      andThen (pad_outputs (N_OUTPUTS - length outputs) outputs rng) (\<lambda>(output_slots, rng).
      andThen (check_pairing 0 output_slots) (\<lambda>_.
      andThen (field_to_circuit_hex (tp_pool_root ps)) (\<lambda>root_hex.
      andThen (map_err AmountError (f_try_from_ext ext_amount)) (\<lambda>public_amount_field.
      andThen (ext_amount_to_circuit_hex ext_amount) (\<lambda>public_amount_hex.
      andThen (field_bytes_to_hex priv_key) (\<lambda>priv_key_hex.
      andThen (traverse (input_step priv_key sender_note_pubkey priv_key_hex) input_slots) (\<lambda>ins.
      andThen (output_loop env sender_note_pubkey (tp_encryption_pubkey ps) output_slots rng) (\<lambda>(outs, rng).
      andThen (field_to_circuit_hex (am_root m)) (\<lambda>membership_root_hex.
      andThen (field_to_circuit_hex (an_root n)) (\<lambda>non_membership_root_hex.
      let circuit =
        set_array ''nonMembershipRoots'' [non_membership_root_hex, non_membership_root_hex]
        (set_array ''membershipRoots'' [membership_root_hex, membership_root_hex]
        (set_array ''outBlinding'' (map ow_blinding_hex outs)
        (set_array ''outPubkey'' (map ow_pubkey_hex outs)
        (set_array ''outAmount'' (map ow_amount_hex outs)
        (set_array ''inPathElements'' (concat (map iw_path_hexes ins))
        (set_array ''inPathIndices'' (map iw_indices_hex ins)
        (set_array ''inBlinding'' (map iw_blinding_hex ins)
        (set_array ''inPrivateKey'' (map iw_priv_hex ins)
        (set_array ''inAmount'' (map iw_amount_hex ins)
        (set_array ''outputCommitment'' (map ow_commitment_hex outs)
        (set_array ''inputNullifier'' (map iw_nullifier_hex ins)
        (set_single ''publicAmount'' public_amount_hex
        (set_single ''root'' root_hex Map.empty))))))))))))) in
      andThen (asp_loop m n [0..<N_INPUTS] circuit) (\<lambda>circuit.
      andThen (vec_index (map ow_encrypted outs) 0) (\<lambda>enc0.
      andThen (vec_index (map ow_encrypted outs) 1) (\<lambda>enc1.
      let ext_data = \<lparr>ce_recipient = tp_ext_recipient ps, ce_ext_amount = ext_amount,
                      ce_encrypted_output0 = enc0, ce_encrypted_output1 = enc1\<rparr> in
      andThen (hash_ext_data ext_data) (\<lambda>ext_data_hash_be.
      Inr (\<lparr>ta_circuit_inputs = set_single ''extDataHash'' (be32_to_0x_hex ext_data_hash_be) circuit,
            ta_ext_data = ext_data,
            ta_prepared = \<lparr>pr_pool_root = tp_pool_root ps, pr_input_nullifiers = map iw_nullifier ins,
              pr_output_commitments = map ow_commitment outs, pr_public_amount = public_amount_field,
              pr_ext_data_hash_be = ext_data_hash_be, pr_asp_membership_root = am_root m,
              pr_asp_non_membership_root = an_root n\<rparr>\<rparr>, rng)))))))))))))))))))))))))))))"

section \<open>The flows\<close>

definition deposit ::
  "crypto_env \<Rightarrow> note_private_key \<Rightarrow> encryption_public_key \<Rightarrow> field \<Rightarrow> string \<Rightarrow> ext_amount \<Rightarrow> transact_output list \<Rightarrow>
    asp_membership_proof \<Rightarrow> asp_non_membership_proof \<Rightarrow> nat \<Rightarrow> nat \<Rightarrow> ext_hash \<Rightarrow> rng \<Rightarrow>
    (prover_error, transact_artifacts \<times> rng) outcome" where
  "deposit env priv_key encryption_pubkey pool_root pool_address amount outputs m n tree_depth smt_depth hash_ext_data rng =
     build_transact env \<lparr>tp_priv_key = priv_key, tp_encryption_pubkey = encryption_pubkey, tp_pool_root = pool_root,
       tp_ext_recipient = pool_address, tp_ext_amount = amount, tp_inputs = [], tp_outputs = outputs,
       tp_membership = m, tp_non_membership = n, tp_tree_depth = tree_depth, tp_smt_depth = smt_depth\<rparr> hash_ext_data rng"

definition withdraw_outputs ::
  "note_amount \<Rightarrow> transact_output list option \<Rightarrow> rng \<Rightarrow> (prover_error, transact_output list \<times> rng) outcome" where
  "withdraw_outputs change outputs rng =
     (case outputs of Some v \<Rightarrow> Inr (v, rng)
      | None \<Rightarrow>
        andThen (generate_random_blinding rng) (\<lambda>(change_blinding, rng).
        andThen (generate_random_blinding rng) (\<lambda>(dummy_blinding, rng).
        Inr ([\<lparr>to_amount = change, to_blinding = change_blinding, to_recipient_note_pubkey = None, to_recipient_encryption_pubkey = None\<rparr>,
              \<lparr>to_amount = NA_ZERO, to_blinding = dummy_blinding, to_recipient_note_pubkey = None, to_recipient_encryption_pubkey = None\<rparr>], rng))))"

definition withdraw ::
  "crypto_env \<Rightarrow> note_private_key \<Rightarrow> encryption_public_key \<Rightarrow> field \<Rightarrow> string \<Rightarrow> ext_amount \<Rightarrow> transact_input list \<Rightarrow>
    transact_output list option \<Rightarrow> asp_membership_proof \<Rightarrow> asp_non_membership_proof \<Rightarrow> nat \<Rightarrow> nat \<Rightarrow> ext_hash \<Rightarrow> rng \<Rightarrow>
    (prover_error, transact_artifacts \<times> rng) outcome" where
  "withdraw env priv_key encryption_pubkey pool_root recipient amount inputs outputs m n tree_depth smt_depth hash_ext_data rng =
     andThen (sum_note_amounts_inputs inputs NA_ZERO) (\<lambda>input_total.
     andThen (map_err AmountError (na_try_from_ext amount)) (\<lambda>withdraw_note_amount.
     andThen (guard (\<not> input_total < withdraw_note_amount) InsufficientInput) (\<lambda>_.
     andThen (ok_or InsufficientInput (na_checked_sub input_total withdraw_note_amount)) (\<lambda>change.
     andThen (withdraw_outputs change outputs rng) (\<lambda>(outputs, rng).
     andThen (ok_or NegationOverflow (ea_checked_neg amount)) (\<lambda>neg.
     build_transact env \<lparr>tp_priv_key = priv_key, tp_encryption_pubkey = encryption_pubkey, tp_pool_root = pool_root,
       tp_ext_recipient = recipient, tp_ext_amount = neg, tp_inputs = inputs, tp_outputs = outputs,
       tp_membership = m, tp_non_membership = n, tp_tree_depth = tree_depth, tp_smt_depth = smt_depth\<rparr> hash_ext_data rng))))))"

definition transfer ::
  "crypto_env \<Rightarrow> note_private_key \<Rightarrow> encryption_public_key \<Rightarrow> field \<Rightarrow> string \<Rightarrow> transact_input list \<Rightarrow> transact_output list \<Rightarrow>
    asp_membership_proof \<Rightarrow> asp_non_membership_proof \<Rightarrow> nat \<Rightarrow> nat \<Rightarrow> ext_hash \<Rightarrow> rng \<Rightarrow>
    (prover_error, transact_artifacts \<times> rng) outcome" where
  "transfer env priv_key encryption_pubkey pool_root pool_address inputs outputs m n tree_depth smt_depth hash_ext_data rng =
     build_transact env \<lparr>tp_priv_key = priv_key, tp_encryption_pubkey = encryption_pubkey, tp_pool_root = pool_root,
       tp_ext_recipient = pool_address, tp_ext_amount = EA_ZERO, tp_inputs = inputs, tp_outputs = outputs,
       tp_membership = m, tp_non_membership = n, tp_tree_depth = tree_depth, tp_smt_depth = smt_depth\<rparr> hash_ext_data rng"

section \<open>Selective disclosure\<close>

record disclosure_params =
  sd_root :: field
  sd_note_commitment :: field
  sd_note_amount :: note_amount
  sd_note_private_key :: note_private_key
  sd_note_blinding :: field
  sd_path_indices :: field
  sd_path_elements :: "field list"
  sd_ext_context_hash :: field

definition selective_disclosure_1 :: "disclosure_params \<Rightarrow> (prover_error, circuit_inputs \<times> field) outcome" where
  "selective_disclosure_1 ps =
     (case sd_note_private_key ps of NotePrivateKey sk \<Rightarrow>
      andThen (field_to_circuit_hex (sd_root ps)) (\<lambda>root.
      andThen (field_to_circuit_hex (sd_note_commitment ps)) (\<lambda>commitment.
      andThen (field_to_circuit_hex (sd_ext_context_hash ps)) (\<lambda>context'.
      andThen (field_to_circuit_hex (f_from_note (sd_note_amount ps))) (\<lambda>amount.
      andThen (field_bytes_to_hex sk) (\<lambda>priv_key_hex.
      andThen (field_bytes_to_hex (f_to_le_bytes (sd_note_blinding ps))) (\<lambda>blinding.
      andThen (field_to_circuit_hex (sd_path_indices ps)) (\<lambda>indices.
      andThen (traverse field_to_circuit_hex (sd_path_elements ps)) (\<lambda>path_elements.
      Inr (set_array ''inPathElements'' path_elements (set_array ''inPathIndices'' [indices]
        (set_array ''inBlinding'' [blinding] (set_array ''inPrivateKey'' [priv_key_hex] (set_array ''inAmount'' [amount]
        (set_single ''extContextHash'' context' (set_array ''noteCommitments'' [commitment]
        (set_array ''roots'' [root] Map.empty))))))), sd_ext_context_hash ps))))))))))"

section \<open>Sums and balance\<close>

abbreviation inputs_value :: "transact_input list \<Rightarrow> nat" where
  "inputs_value ns \<equiv> sum_list (map (\<lambda>n. amt (ti_amount n)) ns)"

abbreviation outputs_value :: "transact_output list \<Rightarrow> nat" where
  "outputs_value ns \<equiv> sum_list (map (\<lambda>n. amt (to_amount n)) ns)"

lemma sum_inputs_ok:
  "sum_note_amounts_inputs ns acc = Inr t \<longleftrightarrow> amt t = amt acc + inputs_value ns"
proof (induction ns arbitrary: acc)
  case Nil
  then show ?case using amt_inject by auto
next
  case (Cons n ns)
  show ?case
  proof (cases "na_checked_add acc (ti_amount n)")
    case None
    then have "2 ^ 128 \<le> amt acc + amt (ti_amount n)" by (simp add: na_checked_add_None)
    then show ?thesis using None amt_less [of t] by simp
  next
    case (Some s)
    then have "amt s = amt acc + amt (ti_amount n)" by (simp add: na_checked_add_Some)
    then show ?thesis using Some Cons [of s] by (simp add: add.assoc)
  qed
qed

lemma sum_outputs_ok:
  "sum_note_amounts_outputs ns acc = Inr t \<longleftrightarrow> amt t = amt acc + outputs_value ns"
proof (induction ns arbitrary: acc)
  case Nil
  then show ?case using amt_inject by auto
next
  case (Cons n ns)
  show ?case
  proof (cases "na_checked_add acc (to_amount n)")
    case None
    then have "2 ^ 128 \<le> amt acc + amt (to_amount n)" by (simp add: na_checked_add_None)
    then show ?thesis using None amt_less [of t] by simp
  next
    case (Some s)
    then have "amt s = amt acc + amt (to_amount n)" by (simp add: na_checked_add_Some)
    then show ?thesis using Some Cons [of s] by (simp add: add.assoc)
  qed
qed

lemma ex_amount: "(\<exists>t. amt t = v) \<longleftrightarrow> v < 2 ^ 128"
proof
  assume "v < 2 ^ 128"
  then have "amt (NoteAmount (word_of_nat v)) = v" by (simp add: unat_of_nat)
  then show "\<exists>t. amt t = v" by blast
qed (use amt_less in blast)

lemma balanced_iff:
  "is_balanced e i o' = Inr True \<longleftrightarrow> int (amt i) + sint (ea_val e) = int (amt o') \<and> sint (ea_val e) \<noteq> - (2 ^ 127)"
proof -
  let ?x = "sint (ea_val e)"
  have b: "- (2 ^ 127) \<le> ?x" "?x < 2 ^ 127" using sint_i128_bounds by blast+
  have lt: "amt i < 2 ^ 128" "amt o' < 2 ^ 128" using amt_less by blast+
  have word: "amt (NoteAmount (word_of_int y)) = nat y" if "0 \<le> y" "y < 2 ^ 128" for y
    using that by (simp add: unat_eq_nat_uint uint_word_of_int)
  show ?thesis
  proof (cases "0 \<le> ?x")
    case True
    then have e: "EA_ZERO \<le> e" by (simp add: EA_ZERO_def less_eq_ext_amount_def)
    let ?n = "NoteAmount (word_of_int ?x)"
    have n: "int (amt ?n) = ?x" using word [of ?x] True b by simp
    show ?thesis
    proof (cases "na_checked_add i ?n")
      case None
      then have "2 ^ 128 \<le> amt i + amt ?n" by (simp add: na_checked_add_None)
      then have "int (amt i) + ?x \<noteq> int (amt o')" using n lt(2) by linarith
      then show ?thesis using None True e by (simp add: is_balanced_def na_try_from_ext_def)
    next
      case (Some s)
      then have "int (amt s) = int (amt i) + ?x" using n by (simp add: na_checked_add_Some)
      then have "(s = o') = (int (amt i) + ?x = int (amt o'))" using amt_inject [of s o'] by linarith
      then show ?thesis using Some True e by (auto simp: is_balanced_def na_try_from_ext_def)
    qed
  next
    case False
    then have e: "\<not> EA_ZERO \<le> e" by (simp add: EA_ZERO_def less_eq_ext_amount_def)
    show ?thesis
    proof (cases "?x = - (2 ^ 127)")
      case True
      then show ?thesis using e by (simp add: is_balanced_def ea_checked_neg_def in_i128_def)
    next
      case min: False
      let ?m = "ExtAmount (- ea_val e)"
      have m: "ea_checked_neg e = Some ?m" "sint (- ea_val e) = - ?x"
        using False min b by (simp_all add: ea_checked_neg_def in_i128_def sint_word_ariths signed_take_bit_int_eq_self)
      let ?n = "NoteAmount (word_of_int (- ?x))"
      have n: "int (amt ?n) = - ?x" using word [of "- ?x"] False b by simp
      have tr: "na_try_from_ext ?m = Inr ?n" using m(2) False by (simp add: na_try_from_ext_def)
      show ?thesis
      proof (cases "na_checked_add o' ?n")
        case None
        then have "2 ^ 128 \<le> amt o' + amt ?n" by (simp add: na_checked_add_None)
        then have "int (amt i) + ?x \<noteq> int (amt o')" using n lt(1) by linarith
        then show ?thesis using None e m(1) tr by (simp add: is_balanced_def)
      next
        case (Some s)
        then have "int (amt s) = int (amt o') - ?x" using n by (simp add: na_checked_add_Some)
        then have "(i = s) = (int (amt i) + ?x = int (amt o'))" using amt_inject [of i s] by linarith
        then show ?thesis using Some e m(1) tr min by (auto simp: is_balanced_def)
      qed
    qed
  qed
qed

section \<open>The steps succeed\<close>

lemma field_to_circuit_hex_ok: "\<exists>h. field_to_circuit_hex f = Inr h"
  by (simp add: field_to_circuit_hex_def field_bytes_to_hex_ok)

text \<open>
  The string on the wire of the circuit: \<^verbatim>\<open>0x\<close> and the sixty-four digits of the number modulo the
  order of the field, the most significant first.
\<close>

definition wire_nat :: "nat \<Rightarrow> string" where
  "wire_nat v = ''0x'' @ concat (map hex_byte (rev (le_bytes 32 (v mod bn_p))))"

definition wire :: "field \<Rightarrow> string" where
  "wire f = wire_nat (unat (f_val f))"

lemma field_bytes_wire: "length bs = 32 \<Longrightarrow> field_bytes_to_hex bs = Inr (wire_nat (le_val bs))"
  by (simp add: field_bytes_to_hex_def scalar_bytes_defs scalar_to_hex_def wire_nat_def del: le_bytes.simps)

lemma field_to_circuit_hex_wire: "field_to_circuit_hex f = Inr (wire f)"
proof -
  have "unat (f_val f) < 256 ^ 32" using unsigned_less [of "f_val f", where ?'a = nat] by simp
  then have "le_val (f_to_le_bytes f) = unat (f_val f)" by (simp add: f_to_le_bytes_nat le_val_le_bytes del: le_bytes.simps)
  then show ?thesis by (simp add: field_to_circuit_hex_def field_bytes_wire wire_def)
qed

lemma field_le_bytes_wire: "field_bytes_to_hex (f_to_le_bytes f) = Inr (wire f)"
  using field_to_circuit_hex_wire [of f] by (simp add: field_to_circuit_hex_def)

lemma fields_wire: "traverse field_to_circuit_hex fs = Inr (map wire fs)"
  by (induction fs) (simp_all add: field_to_circuit_hex_wire)

definition dummy_of :: "nat \<Rightarrow> byte list \<Rightarrow> transact_input" where
  "dummy_of depth d = \<lparr>ti_amount = NA_ZERO, ti_blinding = Field (word_of_nat (le_val d mod bn_p)),
     ti_path_elements = replicate depth F_ZERO, ti_path_indices = F_ZERO\<rparr>"

definition dummy_output_of :: "byte list \<Rightarrow> transact_output" where
  "dummy_output_of d = \<lparr>to_amount = NA_ZERO, to_blinding = Field (word_of_nat (le_val d mod bn_p)),
     to_recipient_note_pubkey = None, to_recipient_encryption_pubkey = None\<rparr>"

lemma dummy_input_ok: "length d = 32 \<Longrightarrow> dummy_input depth (d # rng) = Inr (dummy_of depth d, rng)"
  by (simp add: dummy_input_def generate_random_blinding_ok dummy_of_def)

lemma pad_inputs_ok:
  "\<forall>d \<in> set ds. length d = 32 \<Longrightarrow> pad_inputs depth (length ds) slots (ds @ rng) = Inr (slots @ map (dummy_of depth) ds, rng)"
  by (induction ds arbitrary: slots) (simp_all add: dummy_input_ok)

lemma input_slots_ok:
  assumes "\<forall>d \<in> set ds. length d = 32" "length inputs + length ds = 2"
  shows "input_slots depth inputs (ds @ rng) = Inr (inputs @ map (dummy_of depth) ds, rng)"
proof (cases "inputs = []")
  case True
  then obtain d0 d1 where "ds = [d0, d1]" using assms(2) list_2 [of ds] by auto
  then show ?thesis using True assms(1) by (simp add: input_slots_def dummy_input_ok)
next
  case False
  then have "\<not> N_INPUTS < length inputs" "N_INPUTS - length inputs = length ds" using assms(2) by (auto simp: N_INPUTS_def)
  then show ?thesis using False pad_inputs_ok [OF assms(1)] by (simp add: input_slots_def)
qed

lemma input_slots_too_many: "2 < length inputs \<Longrightarrow> input_slots depth inputs rng = Inl (Fail (TooManyInputs (length inputs)))"
  by (auto simp: input_slots_def N_INPUTS_def)

lemma pad_outputs_ok:
  "\<forall>d \<in> set ds. length d = 32 \<Longrightarrow> pad_outputs (length ds) slots (ds @ rng) = Inr (slots @ map dummy_output_of ds, rng)"
  by (induction ds arbitrary: slots) (simp_all add: generate_random_blinding_ok dummy_output_of_def)

lemma check_paths_iff: "check_paths depth i slots = Inr () \<longleftrightarrow> (\<forall>inp \<in> set slots. length (ti_path_elements inp) = depth)"
  by (induction slots arbitrary: i) (auto simp: andThen_Inr guard_Inr)

definition paired :: "transact_output \<Rightarrow> bool" where
  "paired out \<longleftrightarrow> (to_recipient_note_pubkey out \<noteq> None) = (to_recipient_encryption_pubkey out \<noteq> None)"

lemma check_pairing_iff: "check_pairing i slots = Inr () \<longleftrightarrow> (\<forall>out \<in> set slots. paired out)"
  by (induction slots arbitrary: i) (auto simp: andThen_Inr guard_Inr paired_def)

text \<open>What an input and an output contribute.\<close>

definition spends :: "byte list \<Rightarrow> byte list \<Rightarrow> transact_input \<Rightarrow> field \<Rightarrow> bool" where
  "spends sk pk inp n \<longleftrightarrow> (\<exists>c. f_canonical c \<and>
     compute_commitment (f_to_le_bytes (f_from_note (ti_amount inp))) pk (f_to_le_bytes (ti_blinding inp)) = Inr (f_to_le_bytes c) \<and>
     note_nullifier sk c (ti_path_indices inp) n)"

definition recipient_key :: "byte list \<Rightarrow> transact_output \<Rightarrow> byte list" where
  "recipient_key pk out = (case to_recipient_note_pubkey out of Some (NotePublicKey k) \<Rightarrow> k | None \<Rightarrow> pk)"

definition creates :: "byte list \<Rightarrow> transact_output \<Rightarrow> field \<Rightarrow> bool" where
  "creates pk out c \<longleftrightarrow> f_canonical c \<and>
     compute_commitment (f_to_le_bytes (f_from_note (to_amount out))) (recipient_key pk out) (f_to_le_bytes (to_blinding out)) = Inr (f_to_le_bytes c)"

definition input_wires_of :: "string \<Rightarrow> transact_input \<Rightarrow> field \<Rightarrow> input_wires" where
  "input_wires_of h inp n = \<lparr>iw_nullifier = n, iw_nullifier_hex = wire n, iw_amount_hex = wire (f_from_note (ti_amount inp)),
     iw_priv_hex = h, iw_blinding_hex = wire (ti_blinding inp), iw_indices_hex = wire (ti_path_indices inp),
     iw_path_hexes = map wire (ti_path_elements inp)\<rparr>"

lemma input_step_ok:
  assumes "length sk = 32" "length pk = 32"
  shows "\<exists>w. input_step sk pk h inp = Inr w \<and> spends sk pk inp (iw_nullifier w) \<and> w = input_wires_of h inp (iw_nullifier w)"
proof -
  obtain c where c: "f_canonical c"
    "compute_commitment (f_to_le_bytes (f_from_note (ti_amount inp))) pk (f_to_le_bytes (ti_blinding inp)) = Inr (f_to_le_bytes c)"
    using hash_fields(1) [OF _ assms(2)] length_f_to_le_bytes by metis
  obtain n where n: "note_nullifier sk c (ti_path_indices inp) n" using note_nullifier_ex [OF assms(1)] by blast
  then obtain s where s: "compute_signature sk (f_to_le_bytes c) (f_to_le_bytes (ti_path_indices inp)) = Inr s"
    "compute_nullifier (f_to_le_bytes c) (f_to_le_bytes (ti_path_indices inp)) s = Inr (f_to_le_bytes n)" "f_canonical n"
    by (auto simp: note_nullifier_def)
  have "input_step sk pk h inp = Inr (input_wires_of h inp n)"
    using c(2) s by (simp add: input_step_def f_try_from_to_le field_to_circuit_hex_wire field_le_bytes_wire fields_wire input_wires_of_def)
  then show ?thesis using c n unfolding spends_def by (intro exI [of _ "input_wires_of h inp n"]) (auto simp: input_wires_of_def)
qed

text \<open>
  An output is sealed for its recipient, the caller by default: the bytes are the encryption of its amount
  and blinding under the recipient's key with the key and nonce drawn for it, and whoever holds the secret
  of that key decrypts them to this amount and blinding.
\<close>

definition recipient_encryption_key :: "encryption_public_key \<Rightarrow> transact_output \<Rightarrow> encryption_public_key" where
  "recipient_encryption_key epk out = (case to_recipient_encryption_pubkey out of Some k \<Rightarrow> k | None \<Rightarrow> epk)"

definition sealed :: "crypto_env \<Rightarrow> encryption_public_key \<Rightarrow> transact_output \<Rightarrow> byte list \<Rightarrow> byte list \<Rightarrow> byte list \<Rightarrow> bool" where
  "sealed env epk out d1 d2 enc \<longleftrightarrow>
     encrypt_output_note env (recipient_encryption_key epk out) (to_amount out) (to_blinding out) [d1, d2] = Inr (enc, []) \<and>
     length enc = 120 \<and>
     (\<forall>esk. length esk = 32 \<and> recipient_encryption_key epk out = EncryptionPublicKey (ce_public env esk) \<and> f_canonical (to_blinding out) \<longrightarrow>
        decrypt_output_note env (EncryptionPrivateKey esk) enc = Inr (Some (to_amount out, to_blinding out)))"

definition output_wires_of :: "byte list \<Rightarrow> transact_output \<Rightarrow> field \<Rightarrow> byte list \<Rightarrow> output_wires" where
  "output_wires_of pk out c enc = \<lparr>ow_commitment = c, ow_encrypted = enc, ow_amount_hex = wire (f_from_note (to_amount out)),
     ow_pubkey_hex = wire_nat (le_val (recipient_key pk out)), ow_blinding_hex = wire (to_blinding out), ow_commitment_hex = wire c\<rparr>"

lemma encrypt_output_sealed:
  assumes "crypto_ok env" "recipient_encryption_key epk out = EncryptionPublicKey k" "length k = 32" "length d1 = 32" "length d2 = 24"
  shows "\<exists>enc. encrypt_output_note env (EncryptionPublicKey k) (to_amount out) (to_blinding out) (d1 # d2 # rng) = Inr (enc, rng) \<and>
    sealed env epk out d1 d2 enc"
proof -
  obtain c where c: "ce_encrypt env (ce_diffie_hellman env d1 k) d2 (na_to_le_bytes (to_amount out) @ f_to_le_bytes (to_blinding out)) = Some c"
    "length c = 64" "encrypt_output_note env (EncryptionPublicKey k) (to_amount out) (to_blinding out) (d1 # d2 # rng) =
      Inr (ce_public env d1 @ d2 @ c, rng)"
    using encrypt_output_note_ok [OF assms(1,3,4,5)] by blast
  have one: "encrypt_output_note env (EncryptionPublicKey k) (to_amount out) (to_blinding out) [d1, d2] = Inr (ce_public env d1 @ d2 @ c, [])"
    using encrypt_output_note_ok [OF assms(1,3,4,5), of "to_amount out" "to_blinding out" "[]"] c(1) by auto
  have "length (ce_public env d1 @ d2 @ c) = 120" using assms(1,5) c(2) by (simp add: crypto_ok_def)
  moreover have "decrypt_output_note env (EncryptionPrivateKey esk) (ce_public env d1 @ d2 @ c) = Inr (Some (to_amount out, to_blinding out))"
    if "length esk = 32" "k = ce_public env esk" "f_canonical (to_blinding out)" for esk
    using output_note_round_trip [OF assms(1) that(1,3) assms(4,5), of "to_amount out" "[]"] one that(2) by auto
  ultimately show ?thesis using c(3) one unfolding sealed_def assms(2) by (metis encryption_public_key.inject)
qed

lemma input_wires:
  assumes "list_all2 (\<lambda>inp w. \<exists>n. w = input_wires_of h inp n) inps ws"
  shows "map iw_nullifier_hex ws = map wire (map iw_nullifier ws)" "map iw_priv_hex ws = map (\<lambda>_. h) inps"
    "map iw_amount_hex ws = map (\<lambda>inp. wire (f_from_note (ti_amount inp))) inps"
    "map iw_blinding_hex ws = map (\<lambda>inp. wire (ti_blinding inp)) inps"
    "map iw_indices_hex ws = map (\<lambda>inp. wire (ti_path_indices inp)) inps"
    "map iw_path_hexes ws = map (\<lambda>inp. map wire (ti_path_elements inp)) inps"
  using assms by (induction rule: list_all2_induct) (auto simp: input_wires_of_def)

lemma output_step_ok:
  assumes "crypto_ok env" "length pk = 32" "epk = EncryptionPublicKey ek" "length ek = 32" "length d1 = 32" "length d2 = 24"
    and "\<forall>k. to_recipient_note_pubkey out = Some (NotePublicKey k) \<longrightarrow> length k = 32"
    and "\<forall>k. to_recipient_encryption_pubkey out = Some (EncryptionPublicKey k) \<longrightarrow> length k = 32"
  shows "\<exists>c enc. output_step env pk epk out (d1 # d2 # rng) = Inr (output_wires_of pk out c enc, rng) \<and> creates pk out c \<and>
    sealed env epk out d1 d2 enc"
proof -
  have rk: "length (recipient_key pk out) = 32"
    using assms(2,7) by (auto simp: recipient_key_def split: option.splits note_public_key.splits)
  obtain c where c: "f_canonical c"
    "compute_commitment (f_to_le_bytes (f_from_note (to_amount out))) (recipient_key pk out) (f_to_le_bytes (to_blinding out)) = Inr (f_to_le_bytes c)"
    using hash_fields(1) [OF _ rk] length_f_to_le_bytes by metis
  obtain k where k: "recipient_encryption_key epk out = EncryptionPublicKey k" "length k = 32"
    using assms(3,4,8) unfolding recipient_encryption_key_def
    by (cases "to_recipient_encryption_pubkey out"; cases "the (to_recipient_encryption_pubkey out)") auto
  obtain enc where enc: "encrypt_output_note env (EncryptionPublicKey k) (to_amount out) (to_blinding out) (d1 # d2 # rng) = Inr (enc, rng)"
    "sealed env epk out d1 d2 enc" using encrypt_output_sealed [OF assms(1) k assms(5,6)] by blast
  have "output_step env pk epk out (d1 # d2 # rng) = Inr (output_wires_of pk out c enc, rng)"
    using c enc(1) k(1) by (simp add: output_step_def recipient_key_def [symmetric] recipient_encryption_key_def [symmetric] f_try_from_to_le
        field_to_circuit_hex_wire field_le_bytes_wire field_bytes_wire [OF rk] output_wires_of_def)
  then show ?thesis using c enc(2) unfolding creates_def by blast
qed

text \<open>The signals of the two proofs of the association sets, the last one set first.\<close>

definition asp_signals :: "asp_membership_proof \<Rightarrow> asp_non_membership_proof \<Rightarrow> char \<Rightarrow> (string \<times> input_value) list" where
  "asp_signals m n slot =
     [(''nonMembershipProofs['' @ slot # ''][0].root'', Single (wire (an_root n))),
      (''nonMembershipProofs['' @ slot # ''][0].siblings'', Array (map wire (an_siblings n))),
      (''nonMembershipProofs['' @ slot # ''][0].isOld0'', Single (wire (if an_is_old0 n then F_ONE else F_ZERO))),
      (''nonMembershipProofs['' @ slot # ''][0].oldValue'', Single (wire (an_old_value n))),
      (''nonMembershipProofs['' @ slot # ''][0].oldKey'', Single (wire (an_old_key n))),
      (''nonMembershipProofs['' @ slot # ''][0].key'', Single (wire (an_key n))),
      (''membershipProofs['' @ slot # ''][0].root'', Single (wire (am_root m))),
      (''membershipProofs['' @ slot # ''][0].pathElements'', Array (map wire (am_path_elements m))),
      (''membershipProofs['' @ slot # ''][0].pathIndices'', Single (wire (am_path_indices m))),
      (''membershipProofs['' @ slot # ''][0].blinding'', Single (wire (am_blinding m))),
      (''membershipProofs['' @ slot # ''][0].leaf'', Single (wire (am_leaf m)))]"

lemma asp_loop_ok:
  "asp_loop m n slots (map_of sigs) = Inr (map_of (concat (map (\<lambda>i. asp_signals m n (hex_digit i)) (rev slots)) @ sigs))"
proof (induction slots arbitrary: sigs)
  case (Cons slot slots)
  have one: "f_from_note NA_ONE = F_ONE" by (simp add: f_from_note_def NA_ONE_def F_ONE_def)
  have "asp_loop m n (slot # slots) (map_of sigs) = asp_loop m n slots (map_of (asp_signals m n (hex_digit slot) @ sigs))"
    unfolding asp_loop.simps Let_def field_to_circuit_hex_wire fields_wire andThen_simps one if_distrib [of f_from_note]
      asp_signals_def set_single_def set_array_def
    by simp
  also note Cons
  finally show ?case by simp
qed simp

text \<open>The signals of a transaction.\<close>

definition flow_signals ::
  "transact_params \<Rightarrow> byte list \<Rightarrow> byte list \<Rightarrow> transact_input list \<Rightarrow> transact_output list \<Rightarrow> prepared_tx \<Rightarrow> (string \<times> input_value) list" where
  "flow_signals ps sk pk ins outs p =
     [(''nonMembershipRoots'', Array (replicate 2 (wire (an_root (tp_non_membership ps))))),
      (''membershipRoots'', Array (replicate 2 (wire (am_root (tp_membership ps))))),
      (''outBlinding'', Array (map (\<lambda>out. wire (to_blinding out)) outs)),
      (''outPubkey'', Array (map (\<lambda>out. wire_nat (le_val (recipient_key pk out))) outs)),
      (''outAmount'', Array (map (\<lambda>out. wire (f_from_note (to_amount out))) outs)),
      (''inPathElements'', Array (concat (map (\<lambda>inp. map wire (ti_path_elements inp)) ins))),
      (''inPathIndices'', Array (map (\<lambda>inp. wire (ti_path_indices inp)) ins)),
      (''inBlinding'', Array (map (\<lambda>inp. wire (ti_blinding inp)) ins)),
      (''inPrivateKey'', Array (map (\<lambda>_. wire_nat (le_val sk)) ins)),
      (''inAmount'', Array (map (\<lambda>inp. wire (f_from_note (ti_amount inp))) ins)),
      (''outputCommitment'', Array (map wire (pr_output_commitments p))),
      (''inputNullifier'', Array (map wire (pr_input_nullifiers p))),
      (''publicAmount'', Single (wire (pr_public_amount p))),
      (''root'', Single (wire (pr_pool_root p)))]"

definition circuit_signals ::
  "transact_params \<Rightarrow> byte list \<Rightarrow> byte list \<Rightarrow> transact_input list \<Rightarrow> transact_output list \<Rightarrow> prepared_tx \<Rightarrow> (string \<times> input_value) list" where
  "circuit_signals ps sk pk ins outs p =
     (''extDataHash'', Single (''0x'' @ concat (map hex_byte (pr_ext_data_hash_be p)))) #
     asp_signals (tp_membership ps) (tp_non_membership ps) (CHR ''1'') @ asp_signals (tp_membership ps) (tp_non_membership ps) (CHR ''0'') @
     flow_signals ps sk pk ins outs p"

lemma flow_signal: "x \<in> set (flow_signals ps sk pk ins outs p) \<Longrightarrow> x \<in> set (circuit_signals ps sk pk ins outs p)"
  by (simp add: circuit_signals_def)

lemma signal_names: "distinct (map fst (circuit_signals ps sk pk ins outs p))"
  unfolding circuit_signals_def flow_signals_def asp_signals_def list.map fst_conv map_append append.simps distinct.simps
  by (simp only: list.set insert_iff empty_iff list.inject char.inject simp_thms rel_simps)

section \<open>The builder as a whole\<close>

text \<open>Keys are byte arrays of thirty-two bytes in the source.\<close>

definition keys_sized :: "transact_params \<Rightarrow> bool" where
  "keys_sized ps \<longleftrightarrow> (\<forall>k. tp_priv_key ps = NotePrivateKey k \<longrightarrow> length k = 32) \<and>
     (\<forall>k. tp_encryption_pubkey ps = EncryptionPublicKey k \<longrightarrow> length k = 32) \<and>
     (\<forall>out \<in> set (tp_outputs ps).
        (\<forall>k. to_recipient_note_pubkey out = Some (NotePublicKey k) \<longrightarrow> length k = 32) \<and>
        (\<forall>k. to_recipient_encryption_pubkey out = Some (EncryptionPublicKey k) \<longrightarrow> length k = 32))"

text \<open>The conditions the builder checks.\<close>

definition shapes_ok :: "transact_params \<Rightarrow> bool" where
  "shapes_ok ps \<longleftrightarrow> tp_tree_depth ps \<noteq> 0 \<and> tp_smt_depth ps \<noteq> 0 \<and>
     length (am_path_elements (tp_membership ps)) = tp_tree_depth ps \<and> length (an_siblings (tp_non_membership ps)) = tp_smt_depth ps \<and>
     length (tp_inputs ps) \<le> 2 \<and> length (tp_outputs ps) \<le> 2 \<and>
     (\<forall>inp \<in> set (tp_inputs ps). length (ti_path_elements inp) = tp_tree_depth ps) \<and> (\<forall>out \<in> set (tp_outputs ps). paired out)"

definition amounts_ok :: "transact_params \<Rightarrow> bool" where
  "amounts_ok ps \<longleftrightarrow> inputs_value (tp_inputs ps) < 2 ^ 128 \<and> outputs_value (tp_outputs ps) < 2 ^ 128 \<and>
     sint (ea_val (tp_ext_amount ps)) \<noteq> - (2 ^ 127) \<and>
     int (inputs_value (tp_inputs ps)) + sint (ea_val (tp_ext_amount ps)) = int (outputs_value (tp_outputs ps))"

lemma amounts_ok_iff:
  "amounts_ok ps \<longleftrightarrow> (\<exists>i out. sum_note_amounts_inputs (tp_inputs ps) NA_ZERO = Inr i \<and>
     sum_note_amounts_outputs (tp_outputs ps) NA_ZERO = Inr out \<and> is_balanced (tp_ext_amount ps) i out = Inr True)"
proof -
  have "(\<exists>i out. amt i = x \<and> amt out = y \<and> P x y) \<longleftrightarrow> x < 2 ^ 128 \<and> y < 2 ^ 128 \<and> P x y" for x y P
    using ex_amount [of x] ex_amount [of y] by blast
  from this [of "inputs_value (tp_inputs ps)" "outputs_value (tp_outputs ps)"
      "\<lambda>x y. int x + sint (ea_val (tp_ext_amount ps)) = int y \<and> sint (ea_val (tp_ext_amount ps)) \<noteq> - (2 ^ 127)"]
  show ?thesis
    unfolding amounts_ok_def sum_inputs_ok sum_outputs_ok balanced_iff amt_NA_ZERO add_0 by metis
qed

text \<open>The random strings a call draws: blindings for the missing slots, then a key and a nonce for each output.\<close>

definition draws :: "transact_params \<Rightarrow> rng \<Rightarrow> rng \<Rightarrow> rng \<Rightarrow> rng \<Rightarrow> bool" where
  "draws ps ds os rest rng \<longleftrightarrow> length (tp_inputs ps) + length ds = 2 \<and> length (tp_outputs ps) + length os = 2 \<and>
     (\<forall>d \<in> set (ds @ os). length d = 32) \<and>
     (\<exists>a1 b1 a2 b2. length a1 = 32 \<and> length b1 = 24 \<and> length a2 = 32 \<and> length b2 = 24 \<and> rng = ds @ os @ [a1, b1, a2, b2] @ rest)"

text \<open>
  What the artifacts hold: the nullifiers and commitments, the external data with the sealed outputs, the hash
  of exactly this data, and every signal of the circuit.
\<close>

definition artifacts_ok ::
  "crypto_env \<Rightarrow> transact_params \<Rightarrow> ext_hash \<Rightarrow> rng \<Rightarrow> rng \<Rightarrow> (byte list \<times> byte list) list \<Rightarrow> transact_artifacts \<Rightarrow> bool" where
  "artifacts_ok env ps hash_ext_data ds os es a \<longleftrightarrow>
     (let p = ta_prepared a; ext = ta_ext_data a; ins = tp_inputs ps @ map (dummy_of (tp_tree_depth ps)) ds;
          outs = tp_outputs ps @ map dummy_output_of os in
      (\<exists>sk pk. tp_priv_key ps = NotePrivateKey sk \<and> derive_public_key sk = Inr pk \<and>
         list_all2 (spends sk pk) ins (pr_input_nullifiers p) \<and> list_all2 (creates pk) outs (pr_output_commitments p) \<and>
         Map.graph (ta_circuit_inputs a) = set (circuit_signals ps sk pk ins outs p)) \<and>
      list_all2 (\<lambda>(out, d1, d2). sealed env (tp_encryption_pubkey ps) out d1 d2) (zip outs es)
        [ce_encrypted_output0 ext, ce_encrypted_output1 ext] \<and>
      f_try_from_ext (tp_ext_amount ps) = Inr (pr_public_amount p) \<and>
      pr_pool_root p = tp_pool_root ps \<and> pr_asp_membership_root p = am_root (tp_membership ps) \<and>
      pr_asp_non_membership_root p = an_root (tp_non_membership ps) \<and>
      ce_recipient ext = tp_ext_recipient ps \<and> ce_ext_amount ext = tp_ext_amount ps \<and>
      hash_ext_data ext = Inr (pr_ext_data_hash_be p))"

lemma build_transact_ok:
  assumes "crypto_ok env" "keys_sized ps" "shapes_ok ps" "amounts_ok ps" "draws ps ds os rest rng"
    and "\<forall>e. \<exists>h. hash_ext_data e = Inr h"
  shows "\<exists>a es. build_transact env ps hash_ext_data rng = Inr (a, rest) \<and> artifacts_ok env ps hash_ext_data ds os es a \<and>
    rng = ds @ os @ concat (map (\<lambda>(d1, d2). [d1, d2]) es) @ rest"
proof -
  obtain sk where sk: "tp_priv_key ps = NotePrivateKey sk" "length sk = 32"
    using assms(2) by (cases "tp_priv_key ps") (simp add: keys_sized_def)
  obtain ek where ek: "tp_encryption_pubkey ps = EncryptionPublicKey ek" "length ek = 32"
    using assms(2) by (cases "tp_encryption_pubkey ps") (simp add: keys_sized_def)
  obtain pk where pk: "derive_public_key sk = Inr pk" "length pk = 32"
    using derive_public_key_field [OF sk(2)] by auto
  obtain a1 b1 a2 b2 where draw: "length a1 = 32" "length b1 = 24" "length a2 = 32" "length b2 = 24"
    "rng = ds @ os @ [a1, b1, a2, b2] @ rest"
    using assms(5) by (auto simp: draws_def)
  have d32: "\<forall>d \<in> set ds. length d = 32" "\<forall>d \<in> set os. length d = 32" and len: "length (tp_inputs ps) + length ds = 2"
    "length (tp_outputs ps) + length os = 2" "N_OUTPUTS - length (tp_outputs ps) = length os"
    using assms(5) by (auto simp: draws_def N_OUTPUTS_def)
  let ?ins = "tp_inputs ps @ map (dummy_of (tp_tree_depth ps)) ds" and ?outs = "tp_outputs ps @ map dummy_output_of os"
  obtain i out where sums: "sum_note_amounts_inputs (tp_inputs ps) NA_ZERO = Inr i"
    "sum_note_amounts_outputs (tp_outputs ps) NA_ZERO = Inr out" "is_balanced (tp_ext_amount ps) i out = Inr True"
    using assms(4) amounts_ok_iff by blast
  have slots: "input_slots (tp_tree_depth ps) (tp_inputs ps) rng = Inr (?ins, os @ [a1, b1, a2, b2] @ rest)"
    "pad_outputs (length os) (tp_outputs ps) (os @ [a1, b1, a2, b2] @ rest) = Inr (?outs, [a1, b1, a2, b2] @ rest)"
    using input_slots_ok [OF d32(1) len(1)] pad_outputs_ok [OF d32(2)] by (simp_all only: draw(5))
  have checks: "check_paths (tp_tree_depth ps) 0 ?ins = Inr ()" "check_pairing 0 ?outs = Inr ()"
    using assms(3) by (auto simp: check_paths_iff check_pairing_iff shapes_ok_def dummy_of_def dummy_output_of_def paired_def)
  let ?h = "wire_nat (le_val sk)" and ?m = "tp_membership ps" and ?n = "tp_non_membership ps"
  obtain f where f: "f_try_from_ext (tp_ext_amount ps) = Inr f" using f_try_from_ext_value by blast
  then have fh: "ext_amount_to_circuit_hex (tp_ext_amount ps) = Inr (wire f)" by (simp add: ext_amount_to_circuit_hex_def field_to_circuit_hex_wire)
  let ?in_ok = "\<lambda>inp w. spends sk pk inp (iw_nullifier w) \<and> w = input_wires_of ?h inp (iw_nullifier w)"
  obtain ins where ins: "traverse (input_step sk pk ?h) ?ins = Inr ins" "list_all2 ?in_ok ?ins ins"
    using traverse_rel [of ?ins "input_step sk pk ?h" ?in_ok] input_step_ok [OF sk(2) pk(2)] by blast
  have "list_all2 (\<lambda>inp w. \<exists>n. w = input_wires_of ?h inp n) ?ins ins" using ins(2) by (rule list_all2_mono) blast
  note wires = input_wires [OF this]
  obtain o1 o2 where outs2: "?outs = [o1, o2]" using list_2 [of ?outs] len(2) by auto
  have keys: "\<forall>k. to_recipient_note_pubkey x = Some (NotePublicKey k) \<longrightarrow> length k = 32"
    "\<forall>k. to_recipient_encryption_pubkey x = Some (EncryptionPublicKey k) \<longrightarrow> length k = 32" if "x \<in> set ?outs" for x
    using that assms(2) by (auto simp: keys_sized_def dummy_output_of_def)
  have mem: "o1 \<in> set ?outs" "o2 \<in> set ?outs" unfolding outs2 by simp_all
  obtain c1 e1 where w1: "output_step env pk (tp_encryption_pubkey ps) o1 (a1 # b1 # [a2, b2] @ rest) = Inr (output_wires_of pk o1 c1 e1, [a2, b2] @ rest)"
    "creates pk o1 c1" "sealed env (tp_encryption_pubkey ps) o1 a1 b1 e1"
    using output_step_ok [OF assms(1) pk(2) ek(1,2) draw(1,2) keys [OF mem(1)]] by blast
  obtain c2 e2 where w2: "output_step env pk (tp_encryption_pubkey ps) o2 (a2 # b2 # rest) = Inr (output_wires_of pk o2 c2 e2, rest)"
    "creates pk o2 c2" "sealed env (tp_encryption_pubkey ps) o2 a2 b2 e2"
    using output_step_ok [OF assms(1) pk(2) ek(1,2) draw(3,4) keys [OF mem(2)]] by blast
  have loop: "output_loop env pk (tp_encryption_pubkey ps) ?outs ([a1, b1, a2, b2] @ rest) =
      Inr ([output_wires_of pk o1 c1 e1, output_wires_of pk o2 c2 e2], rest)"
    unfolding outs2 using w1(1) w2(1) by simp
  obtain h where h: "\<And>e. hash_ext_data e = Inr (h e)" using assms(6) by metis
  let ?e = "\<lparr>ce_recipient = tp_ext_recipient ps, ce_ext_amount = tp_ext_amount ps, ce_encrypted_output0 = e1, ce_encrypted_output1 = e2\<rparr>"
  let ?p = "\<lparr>pr_pool_root = tp_pool_root ps, pr_input_nullifiers = map iw_nullifier ins, pr_output_commitments = [c1, c2],
    pr_public_amount = f, pr_ext_data_hash_be = h ?e, pr_asp_membership_root = am_root ?m, pr_asp_non_membership_root = an_root ?n\<rparr>"
  let ?c = "map_of (circuit_signals ps sk pk ?ins ?outs ?p)" and ?ws = "[output_wires_of pk o1 c1 e1, output_wires_of pk o2 c2 e2]"
  let ?base = "set_array ''nonMembershipRoots'' [wire (an_root ?n), wire (an_root ?n)]
        (set_array ''membershipRoots'' [wire (am_root ?m), wire (am_root ?m)]
        (set_array ''outBlinding'' (map ow_blinding_hex ?ws) (set_array ''outPubkey'' (map ow_pubkey_hex ?ws)
        (set_array ''outAmount'' (map ow_amount_hex ?ws) (set_array ''inPathElements'' (concat (map iw_path_hexes ins))
        (set_array ''inPathIndices'' (map iw_indices_hex ins) (set_array ''inBlinding'' (map iw_blinding_hex ins)
        (set_array ''inPrivateKey'' (map iw_priv_hex ins) (set_array ''inAmount'' (map iw_amount_hex ins)
        (set_array ''outputCommitment'' (map ow_commitment_hex ?ws) (set_array ''inputNullifier'' (map iw_nullifier_hex ins)
        (set_single ''publicAmount'' (wire f) (set_single ''root'' (wire (tp_pool_root ps)) Map.empty)))))))))))))"
  have base: "?base = map_of (flow_signals ps sk pk ?ins ?outs ?p)"
    unfolding wires outs2 flow_signals_def set_array_def set_single_def by (simp add: output_wires_of_def numeral_2_eq_2)
  have asp: "asp_loop ?m ?n [0..<N_INPUTS] ?base =
      Inr (map_of (asp_signals ?m ?n (CHR ''1'') @ asp_signals ?m ?n (CHR ''0'') @ flow_signals ps sk pk ?ins ?outs ?p))"
    unfolding base asp_loop_ok by (simp add: N_INPUTS_def upt_rec hex_digit_def)
  have ext: "set_single ''extDataHash'' (be32_to_0x_hex (h ?e))
      (map_of (asp_signals ?m ?n (CHR ''1'') @ asp_signals ?m ?n (CHR ''0'') @ flow_signals ps sk pk ?ins ?outs ?p)) = ?c"
    by (simp add: circuit_signals_def set_single_def be32_to_0x_hex_def del: map_of_append)
  have build: "build_transact env ps hash_ext_data rng = Inr (\<lparr>ta_circuit_inputs = ?c, ta_ext_data = ?e, ta_prepared = ?p\<rparr>, rest)"
    using assms(3) sums slots checks f fh ins(1) loop sk(1) pk len asp ext
    by (simp add: build_transact_def shapes_ok_def N_OUTPUTS_def Let_def field_to_circuit_hex_wire field_bytes_wire [OF sk(2)]
        output_wires_of_def h)
  have graph: "Map.graph ?c = set (circuit_signals ps sk pk ?ins ?outs ?p)" by (rule graph_map_of_if_distinct_dom [OF signal_names])
  have "list_all2 (spends sk pk) ?ins (map iw_nullifier ins)" using ins(2) by (simp add: list_all2_conv_all_nth)
  moreover have "list_all2 (creates pk) ?outs [c1, c2]" unfolding outs2 using w1(2) w2(2) by simp
  moreover have "list_all2 (\<lambda>(out, d1, d2). sealed env (tp_encryption_pubkey ps) out d1 d2) (zip ?outs [(a1, b1), (a2, b2)]) [e1, e2]"
    unfolding outs2 using w1(3) w2(3) by simp
  ultimately have "artifacts_ok env ps hash_ext_data ds os [(a1, b1), (a2, b2)] \<lparr>ta_circuit_inputs = ?c, ta_ext_data = ?e, ta_prepared = ?p\<rparr>"
    unfolding artifacts_ok_def Let_def using sk(1) pk(1) f h graph by auto
  then show ?thesis using build draw(5) by (intro exI conjI) (assumption | simp)+
qed

text \<open>The conditions are needed.\<close>

lemma pad_inputs_keeps: "pad_inputs depth k slots rng = Inr (slots', rng') \<Longrightarrow> set slots \<subseteq> set slots'"
proof (induction k arbitrary: slots rng)
  case (Suc k)
  then obtain d r where "pad_inputs depth k (slots @ [d]) r = Inr (slots', rng')" by (auto simp: andThen_Inr)
  from Suc.IH [OF this] show ?case by auto
qed simp

lemma input_slots_keeps:
  "input_slots depth inputs rng = Inr (slots, rng') \<Longrightarrow> set inputs \<subseteq> set slots \<and> length inputs \<le> 2"
  using pad_inputs_keeps [of depth "N_INPUTS - length inputs" inputs rng slots rng']
  by (auto simp: input_slots_def N_INPUTS_def split: if_splits)

lemma pad_outputs_keeps: "pad_outputs k slots rng = Inr (slots', rng') \<Longrightarrow> set slots \<subseteq> set slots'"
proof (induction k arbitrary: slots rng)
  case (Suc k)
  then obtain d r where "pad_outputs k (slots @ [d]) r = Inr (slots', rng')" by (auto simp: andThen_Inr)
  from Suc.IH [OF this] show ?case by auto
qed simp

lemma build_transact_Inr:
  assumes "build_transact env ps hash_ext_data rng = Inr (a, rng')"
  shows "shapes_ok ps \<and> amounts_ok ps \<and> f_try_from_ext (tp_ext_amount ps) = Inr (pr_public_amount (ta_prepared a)) \<and>
    ce_ext_amount (ta_ext_data a) = tp_ext_amount ps"
proof (cases "tp_priv_key ps")
  case (NotePrivateKey sk)
  obtain i out islots oslots r1 r2 where st: "tp_tree_depth ps \<noteq> 0" "tp_smt_depth ps \<noteq> 0"
    "length (am_path_elements (tp_membership ps)) = tp_tree_depth ps" "length (an_siblings (tp_non_membership ps)) = tp_smt_depth ps"
    "length (tp_outputs ps) \<le> 2" "sum_note_amounts_inputs (tp_inputs ps) NA_ZERO = Inr i"
    "sum_note_amounts_outputs (tp_outputs ps) NA_ZERO = Inr out" "is_balanced (tp_ext_amount ps) i out = Inr True"
    "input_slots (tp_tree_depth ps) (tp_inputs ps) rng = Inr (islots, r1)" "check_paths (tp_tree_depth ps) 0 islots = Inr ()"
    "pad_outputs (N_OUTPUTS - length (tp_outputs ps)) (tp_outputs ps) r1 = Inr (oslots, r2)" "check_pairing 0 oslots = Inr ()"
    "f_try_from_ext (tp_ext_amount ps) = Inr (pr_public_amount (ta_prepared a))" "ce_ext_amount (ta_ext_data a) = tp_ext_amount ps"
    using assms NotePrivateKey
    by (auto simp: build_transact_def Let_def andThen_Inr guard_Inr map_err_Inr N_OUTPUTS_def)
  have "\<forall>inp \<in> set (tp_inputs ps). length (ti_path_elements inp) = tp_tree_depth ps" "length (tp_inputs ps) \<le> 2"
    using input_slots_keeps [OF st(9)] st(10) by (auto simp: check_paths_iff)
  moreover have "\<forall>out \<in> set (tp_outputs ps). paired out"
    using pad_outputs_keeps [OF st(11)] st(12) by (auto simp: check_pairing_iff)
  moreover have "amounts_ok ps" using st(6-8) amounts_ok_iff by blast
  ultimately show ?thesis using st(1-5,13,14) by (simp add: shapes_ok_def)
qed

section \<open>Properties\<close>

text \<open>
  Property C36: the builder succeeds exactly if the depths are positive, the proofs have the length of their trees,
  there are at most two inputs and two outputs, recipient keys come in pairs, neither sum overflows, and
  the inputs plus the external amount are the outputs; given randomness and an answer of the hash.
\<close>

theorem transact_succeeds_iff:
  assumes "crypto_ok env" "keys_sized ps" "\<forall>e. \<exists>h. hash_ext_data e = Inr h"
    and "length (tp_inputs ps) \<le> 2 \<and> length (tp_outputs ps) \<le> 2 \<Longrightarrow> draws ps ds os rest rng"
  shows "(\<exists>r. build_transact env ps hash_ext_data rng = Inr r) \<longleftrightarrow>
    (tp_tree_depth ps \<noteq> 0 \<and> tp_smt_depth ps \<noteq> 0 \<and> length (am_path_elements (tp_membership ps)) = tp_tree_depth ps \<and>
     length (an_siblings (tp_non_membership ps)) = tp_smt_depth ps \<and> length (tp_inputs ps) \<le> 2 \<and> length (tp_outputs ps) \<le> 2 \<and>
     (\<forall>inp \<in> set (tp_inputs ps). length (ti_path_elements inp) = tp_tree_depth ps) \<and> (\<forall>out \<in> set (tp_outputs ps). paired out)) \<and>
    inputs_value (tp_inputs ps) < 2 ^ 128 \<and> outputs_value (tp_outputs ps) < 2 ^ 128 \<and>
    sint (ea_val (tp_ext_amount ps)) \<noteq> - (2 ^ 127) \<and>
    int (inputs_value (tp_inputs ps)) + sint (ea_val (tp_ext_amount ps)) = int (outputs_value (tp_outputs ps))"
  unfolding shapes_ok_def [symmetric] amounts_ok_def [symmetric]
proof
  assume "\<exists>r. build_transact env ps hash_ext_data rng = Inr r"
  then show "shapes_ok ps \<and> amounts_ok ps" using build_transact_Inr by fast
next
  assume ok: "shapes_ok ps \<and> amounts_ok ps"
  then have "draws ps ds os rest rng" using assms(4) by (simp add: shapes_ok_def)
  with build_transact_ok [OF assms(1,2) _ _ _ assms(3)] ok show "\<exists>r. build_transact env ps hash_ext_data rng = Inr r" by blast
qed

text \<open>
  Property C37: what a successful call prepares: for each input, real or dummy, the nullifier of its commitment
  under the caller's key; for each output the commitment to its recipient, the caller by default, and
  its encryption under the recipient's key, of 120 bytes, which the owner of that key decrypts to the amount
  and blinding of the commitment; the field element of the external amount; the hash of exactly this external
  data; and the signals of the circuit: exactly the thirty-seven names of \<open>circuit_signals\<close>, each with the
  hexadecimal form of the value that belongs to it.
\<close>

theorem transact_artifacts_correct:
  assumes "crypto_ok env" "keys_sized ps" "\<forall>e. \<exists>h. hash_ext_data e = Inr h" "draws ps ds os rest rng"
    and "build_transact env ps hash_ext_data rng = Inr (a, rng')"
  shows "rng' = rest \<and> length (pr_input_nullifiers (ta_prepared a)) = 2 \<and> length (pr_output_commitments (ta_prepared a)) = 2 \<and>
    (\<exists>es. rng = ds @ os @ concat (map (\<lambda>(d1, d2). [d1, d2]) es) @ rest \<and>
      (let p = ta_prepared a; ext = ta_ext_data a; ins = tp_inputs ps @ map (dummy_of (tp_tree_depth ps)) ds;
           outs = tp_outputs ps @ map dummy_output_of os in
       (\<exists>sk pk. tp_priv_key ps = NotePrivateKey sk \<and> derive_public_key sk = Inr pk \<and>
          list_all2 (spends sk pk) ins (pr_input_nullifiers p) \<and> list_all2 (creates pk) outs (pr_output_commitments p) \<and>
          Map.graph (ta_circuit_inputs a) = set (circuit_signals ps sk pk ins outs p)) \<and>
       list_all2 (\<lambda>(out, d1, d2). sealed env (tp_encryption_pubkey ps) out d1 d2) (zip outs es)
         [ce_encrypted_output0 ext, ce_encrypted_output1 ext] \<and>
       f_try_from_ext (tp_ext_amount ps) = Inr (pr_public_amount p) \<and>
       pr_pool_root p = tp_pool_root ps \<and> pr_asp_membership_root p = am_root (tp_membership ps) \<and>
       pr_asp_non_membership_root p = an_root (tp_non_membership ps) \<and>
       ce_recipient ext = tp_ext_recipient ps \<and> ce_ext_amount ext = tp_ext_amount ps \<and>
       hash_ext_data ext = Inr (pr_ext_data_hash_be p)))"
  unfolding artifacts_ok_def [symmetric]
proof -
  obtain es where art: "rng' = rest" "artifacts_ok env ps hash_ext_data ds os es a" "rng = ds @ os @ concat (map (\<lambda>(d1, d2). [d1, d2]) es) @ rest"
    using build_transact_ok [OF assms(1,2) _ _ assms(4,3)] build_transact_Inr [OF assms(5)] assms(5) by auto
  have "length (tp_inputs ps) + length ds = 2" "length (tp_outputs ps) + length os = 2"
    using assms(4) by (simp_all add: draws_def)
  moreover obtain sk pk where "list_all2 (spends sk pk) (tp_inputs ps @ map (dummy_of (tp_tree_depth ps)) ds) (pr_input_nullifiers (ta_prepared a))"
    "list_all2 (creates pk) (tp_outputs ps @ map dummy_output_of os) (pr_output_commitments (ta_prepared a))"
    using art(2) unfolding artifacts_ok_def Let_def by blast
  ultimately have "length (pr_input_nullifiers (ta_prepared a)) = 2" "length (pr_output_commitments (ta_prepared a)) = 2"
    by (auto dest!: list_all2_lengthD)
  then show "rng' = rest \<and> length (pr_input_nullifiers (ta_prepared a)) = 2 \<and> length (pr_output_commitments (ta_prepared a)) = 2 \<and>
    (\<exists>es. rng = ds @ os @ concat (map (\<lambda>(d1, d2). [d1, d2]) es) @ rest \<and> artifacts_ok env ps hash_ext_data ds os es a)"
    using art by blast
qed

text \<open>
  Property C38: no call of the builder creates value: the outputs it was asked for are its inputs plus the external
  amount, and so are they in the field with the public amount it prepares.
\<close>

theorem transact_conserves_value:
  assumes "build_transact env ps hash_ext_data rng = Inr (a, rng')"
  shows "int (inputs_value (tp_inputs ps)) + sint (ea_val (ce_ext_amount (ta_ext_data a))) = int (outputs_value (tp_outputs ps)) \<and>
    (inputs_value (tp_inputs ps) + unat (f_val (pr_public_amount (ta_prepared a)))) mod bn_p = outputs_value (tp_outputs ps) mod bn_p"
proof -
  have ok: "amounts_ok ps" "f_try_from_ext (tp_ext_amount ps) = Inr (pr_public_amount (ta_prepared a))"
    "ce_ext_amount (ta_ext_data a) = tp_ext_amount ps"
    using build_transact_Inr [OF assms] by auto
  let ?x = "sint (ea_val (tp_ext_amount ps))"
  have bal: "int (inputs_value (tp_inputs ps)) + ?x = int (outputs_value (tp_outputs ps))"
    using ok(1) by (simp add: amounts_ok_def)
  have pub: "int (unat (f_val (pr_public_amount (ta_prepared a)))) = ?x mod int bn_p"
    using f_try_from_ext_value [of "tp_ext_amount ps"] ok(2) by auto
  have "int ((inputs_value (tp_inputs ps) + unat (f_val (pr_public_amount (ta_prepared a)))) mod bn_p) =
      (int (inputs_value (tp_inputs ps)) + ?x mod int bn_p) mod int bn_p"
    by (simp only: zmod_int of_nat_add pub)
  also have "\<dots> = int (outputs_value (tp_outputs ps) mod bn_p)" by (simp only: mod_add_right_eq bal zmod_int)
  finally show ?thesis using bal ok(3) by (simp only: of_nat_eq_iff simp_thms)
qed

lemma spend_publishes:
  assumes "crypto_ok env" "keys_sized ps" "\<forall>e. \<exists>h. hash_ext_data e = Inr h" "draws ps ds os rest rng"
    and "build_transact env ps hash_ext_data rng = Inr (a, rng')"
    and "tp_priv_key ps = NotePrivateKey sk" "derive_public_key sk = Inr pk"
    and "nk_private keys = NotePrivateKey sk" "nk_public keys = NotePublicKey pk"
    and "try_decrypt_and_derive_user_note env keys ek commitment i enc = Inr (Some note)"
    and "j < length (tp_inputs ps)" "ti_amount (tp_inputs ps ! j) = dn_amount note"
    and "ti_blinding (tp_inputs ps ! j) = dn_blinding note" "ti_path_indices (tp_inputs ps ! j) = Field (ucast i)"
  shows "pr_input_nullifiers (ta_prepared a) ! j = dn_expected_nullifier note"
proof -
  obtain es where art: "artifacts_ok env ps hash_ext_data ds os es a"
    using build_transact_ok [OF assms(1,2) _ _ assms(4,3)] build_transact_Inr [OF assms(5)] assms(5) by auto
  have len: "length sk = 32" "length pk = 32"
    using assms(2,6,7) derive_public_key_field [of sk] by (auto simp: keys_sized_def)
  let ?slots = "tp_inputs ps @ map (dummy_of (tp_tree_depth ps)) ds"
  have "list_all2 (spends sk pk) ?slots (pr_input_nullifiers (ta_prepared a))"
    using art assms(6,7) unfolding artifacts_ok_def Let_def by auto
  then have "spends sk pk (?slots ! j) (pr_input_nullifiers (ta_prepared a) ! j)"
    using assms(11) by (auto simp: list_all2_conv_all_nth)
  then obtain c where c: "compute_commitment (f_to_le_bytes (f_from_note (dn_amount note))) pk (f_to_le_bytes (dn_blinding note)) = Inr (f_to_le_bytes c)"
    "note_nullifier sk c (Field (ucast i)) (pr_input_nullifiers (ta_prepared a) ! j)"
    using assms(11-14) by (auto simp: spends_def nth_append)
  have own: "compute_commitment (f_to_le_bytes (f_from_note (dn_amount note))) pk (f_to_le_bytes (dn_blinding note)) = Inr (f_to_le_bytes commitment)"
    "note_nullifier sk commitment (Field (ucast i)) (dn_expected_nullifier note)"
    using found_note [OF assms(9,8) len assms(10)] by auto
  then have "f_to_le_bytes c = f_to_le_bytes commitment" using c(1) by simp
  then show ?thesis using c(2) own(2) f_to_le_bytes_inject by (auto simp: note_nullifier_def)
qed

text \<open>
  Spending a note a wallet has found, with the index of its leaf as path, publishes the nullifier the
  wallet expects for it.
\<close>

theorem spend_publishes_expected_nullifier:
  assumes "crypto_ok env" "keys_sized ps" "\<forall>e. \<exists>h. hash_ext_data e = Inr h" "draws ps ds os rest rng"
    and "build_transact env ps hash_ext_data rng = Inr (a, rng')"
    and "tp_priv_key ps = NotePrivateKey sk" "derive_public_key sk = Inr pk"
    and "nk_private keys = NotePrivateKey sk" "nk_public keys = NotePublicKey pk"
    and "try_decrypt_and_derive_user_note env keys ek commitment i enc = Inr (Some note)"
    and "j < length (tp_inputs ps)" "ti_amount (tp_inputs ps ! j) = dn_amount note"
    and "ti_blinding (tp_inputs ps ! j) = dn_blinding note" "ti_path_indices (tp_inputs ps ! j) = Field (ucast i)"
  shows "pr_input_nullifiers (ta_prepared a) ! j = dn_expected_nullifier note"
  by (rule spend_publishes [OF assms])

text \<open>Withdrawals.\<close>

lemma sum_inputs_overflow:
  "2 ^ 128 \<le> amt acc + inputs_value ns \<Longrightarrow> sum_note_amounts_inputs ns acc = Inl (Fail SumOverflow)"
proof (induction ns arbitrary: acc)
  case Nil
  then show ?case using amt_less [of acc] by simp
next
  case (Cons n ns)
  show ?case
  proof (cases "na_checked_add acc (ti_amount n)")
    case (Some s)
    then have "amt s = amt acc + amt (ti_amount n)" by (simp add: na_checked_add_Some)
    then show ?thesis using Some Cons.IH [of s] Cons.prems by simp
  qed simp
qed

abbreviation withdraw_request ::
  "note_private_key \<Rightarrow> encryption_public_key \<Rightarrow> field \<Rightarrow> string \<Rightarrow> ext_amount \<Rightarrow> transact_input list \<Rightarrow> note_amount \<Rightarrow> byte list \<Rightarrow> byte list \<Rightarrow>
    asp_membership_proof \<Rightarrow> asp_non_membership_proof \<Rightarrow> nat \<Rightarrow> nat \<Rightarrow> transact_params" where
  "withdraw_request sk epk root recipient neg inputs change c1 c2 m n td sd \<equiv>
     \<lparr>tp_priv_key = sk, tp_encryption_pubkey = epk, tp_pool_root = root, tp_ext_recipient = recipient, tp_ext_amount = neg,
      tp_inputs = inputs, tp_outputs = [(dummy_output_of c1)\<lparr>to_amount := change\<rparr>, dummy_output_of c2], tp_membership = m,
      tp_non_membership = n, tp_tree_depth = td, tp_smt_depth = sd\<rparr>"

lemma withdraw_outputs_default:
  "length c1 = 32 \<Longrightarrow> length c2 = 32 \<Longrightarrow>
    withdraw_outputs change None (c1 # c2 # rest) = Inr ([(dummy_output_of c1)\<lparr>to_amount := change\<rparr>, dummy_output_of c2], rest)"
  by (simp add: withdraw_outputs_def generate_random_blinding_ok dummy_output_of_def)

lemma withdraw_over:
  "2 ^ 128 \<le> inputs_value inputs \<Longrightarrow>
    withdraw env sk epk root recipient amount inputs outs m n td sd hash_ext_data rng = Inl (Fail SumOverflow)"
  unfolding withdraw_def using sum_inputs_overflow [of NA_ZERO inputs] by simp

lemma inputs_sum:
  assumes "inputs_value inputs < 2 ^ 128"
  obtains t where "sum_note_amounts_inputs inputs NA_ZERO = Inr t" "amt t = inputs_value inputs"
  using ex_amount [of "inputs_value inputs"] sum_inputs_ok [of inputs NA_ZERO] assms by auto

lemma withdraw_negative:
  assumes "inputs_value inputs < 2 ^ 128" "sint (ea_val amount) < 0"
  shows "withdraw env sk epk root recipient amount inputs outs m n td sd hash_ext_data rng = Inl (Fail (AmountError NoteAmountOutOfRange))"
proof -
  obtain t where t: "sum_note_amounts_inputs inputs NA_ZERO = Inr t" using assms(1) by (rule inputs_sum)
  have "na_try_from_ext amount = Inl (Fail NoteAmountOutOfRange)" using assms(2) by (simp add: na_try_from_ext_def)
  then show ?thesis unfolding withdraw_def t by simp
qed

lemma nonneg_ext_amount:
  assumes "0 \<le> sint (ea_val amount)"
  obtains a where "na_try_from_ext amount = Inr a" "int (amt a) = sint (ea_val amount)"
proof -
  let ?x = "sint (ea_val amount)"
  have "?x < 2 ^ LENGTH(128)" using sint_i128_bounds(2) [of "ea_val amount"] by simp
  then have "uint (word_of_int ?x :: u128) = ?x" using assms by (simp only: uint_word_of_int mod_pos_pos_trivial)
  then have "int (unat (word_of_int ?x :: u128)) = ?x" by (simp only: uint_nat)
  then have "int (amt (NoteAmount (word_of_int ?x))) = ?x" by (simp only: note_amount.sel)
  moreover have "na_try_from_ext amount = Inr (NoteAmount (word_of_int ?x))" using assms by (simp only: na_try_from_ext_def if_True)
  ultimately show thesis by (rule that [rotated])
qed

lemma withdraw_short:
  assumes "inputs_value inputs < 2 ^ 128" "0 \<le> sint (ea_val amount)" "int (inputs_value inputs) < sint (ea_val amount)"
  shows "withdraw env sk epk root recipient amount inputs outs m n td sd hash_ext_data rng = Inl (Fail InsufficientInput)"
proof -
  obtain t where t: "sum_note_amounts_inputs inputs NA_ZERO = Inr t" "amt t = inputs_value inputs"
    using assms(1) by (rule inputs_sum)
  obtain a where a: "na_try_from_ext amount = Inr a" "int (amt a) = sint (ea_val amount)"
    using assms(2) by (rule nonneg_ext_amount)
  have "amt t < amt a" using t(2) a(2) assms(3) by linarith
  then have "t < a" by (simp only: na_less_amt)
  then show ?thesis unfolding withdraw_def t(1) a(1) by simp
qed

lemma withdraw_covered:
  assumes "inputs_value inputs < 2 ^ 128" "0 \<le> sint (ea_val amount)" "sint (ea_val amount) \<le> int (inputs_value inputs)"
    and "length c1 = 32" "length c2 = 32"
  shows "\<exists>change neg. int (amt change) = int (inputs_value inputs) - sint (ea_val amount) \<and> sint (ea_val neg) = - sint (ea_val amount) \<and>
    withdraw env sk epk root recipient amount inputs None m n td sd hash_ext_data (c1 # c2 # rest) =
      build_transact env (withdraw_request sk epk root recipient neg inputs change c1 c2 m n td sd) hash_ext_data rest"
proof -
  obtain t where t: "sum_note_amounts_inputs inputs NA_ZERO = Inr t" "amt t = inputs_value inputs"
    using assms(1) by (rule inputs_sum)
  obtain a where a: "na_try_from_ext amount = Inr a" "int (amt a) = sint (ea_val amount)"
    using assms(2) by (rule nonneg_ext_amount)
  have "\<not> amt t < amt a" using t(2) a(2) assms(3) by linarith
  then have nl: "\<not> t < a" by (simp only: na_less_amt not_False_eq_True)
  then obtain change where c: "na_checked_sub t a = Some change"
    by (cases "na_checked_sub t a") (simp_all add: na_checked_sub_None na_less_amt)
  then have cv: "int (amt change) = int (inputs_value inputs) - sint (ea_val amount)" using a(2) t(2) by (simp add: na_checked_sub_Some)
  have b: "sint (ea_val amount) < 2 ^ 127" by (rule sint_i128_bounds)
  have neg: "ea_checked_neg amount = Some (ExtAmount (- ea_val amount))" "sint (- ea_val amount) = - sint (ea_val amount)"
    using assms(2) b by (simp_all add: ea_checked_neg_def in_i128_def sint_word_ariths signed_take_bit_int_eq_self)
  have "withdraw env sk epk root recipient amount inputs None m n td sd hash_ext_data (c1 # c2 # rest) =
      build_transact env (withdraw_request sk epk root recipient (ExtAmount (- ea_val amount)) inputs change c1 c2 m n td sd) hash_ext_data rest"
    unfolding withdraw_def t(1) a(1) using nl by (simp add: c neg(1) withdraw_outputs_default [OF assms(4,5)])
  then show ?thesis using cv neg(2) by (intro exI [of _ change] exI [of _ "ExtAmount (- ea_val amount)"]) simp
qed

lemma withdraw_request_balances:
  assumes "int (amt change) = int (inputs_value inputs) - sint (ea_val amount)" "sint (ea_val neg) = - sint (ea_val amount)"
    and "inputs_value inputs < 2 ^ 128"
  shows "amounts_ok (withdraw_request sk epk root recipient neg inputs change c1 c2 m n td sd)"
proof -
  have "sint (ea_val neg) \<noteq> - (2 ^ 127)" using sint_i128_bounds(2) [of "ea_val amount"] assms(2) by linarith
  moreover have "outputs_value [(dummy_output_of c1)\<lparr>to_amount := change\<rparr>, dummy_output_of c2] = amt change"
    by (simp add: dummy_output_of_def)
  ultimately show ?thesis using assms amt_less [of change] unfolding amounts_ok_def by simp
qed

text \<open>
  A withdrawal without explicit outputs fails on overflowing inputs, on a negative amount and on an
  amount above the inputs; otherwise it is the transaction with the negated amount whose outputs are the
  change and a zero note for the caller, and these amounts balance.
\<close>

theorem withdraw_outcome:
  assumes "length c1 = 32" "length c2 = 32"
    and "w = withdraw env sk epk root recipient amount inputs None m n td sd hash_ext_data (c1 # c2 # rest)"
  shows "if 2 ^ 128 \<le> inputs_value inputs then w = Inl (Fail SumOverflow)
    else if sint (ea_val amount) < 0 then w = Inl (Fail (AmountError NoteAmountOutOfRange))
    else if int (inputs_value inputs) < sint (ea_val amount) then w = Inl (Fail InsufficientInput)
    else \<exists>change neg. int (amt change) = int (inputs_value inputs) - sint (ea_val amount) \<and> sint (ea_val neg) = - sint (ea_val amount) \<and>
      w = build_transact env (withdraw_request sk epk root recipient neg inputs change c1 c2 m n td sd) hash_ext_data rest \<and>
      amounts_ok (withdraw_request sk epk root recipient neg inputs change c1 c2 m n td sd)"
proof -
  consider (over) "2 ^ 128 \<le> inputs_value inputs" | (neg) "inputs_value inputs < 2 ^ 128" "sint (ea_val amount) < 0"
    | (short) "inputs_value inputs < 2 ^ 128" "0 \<le> sint (ea_val amount)" "int (inputs_value inputs) < sint (ea_val amount)"
    | (ok) "inputs_value inputs < 2 ^ 128" "0 \<le> sint (ea_val amount)" "sint (ea_val amount) \<le> int (inputs_value inputs)" by linarith
  then show ?thesis
  proof cases
    case over then show ?thesis using assms(3) withdraw_over by simp
  next
    case neg then show ?thesis using assms(3) withdraw_negative by simp
  next
    case short then show ?thesis using assms(3) withdraw_short by simp
  next
    case ok
    then obtain change neg where w: "int (amt change) = int (inputs_value inputs) - sint (ea_val amount)"
      "sint (ea_val neg) = - sint (ea_val amount)"
      "w = build_transact env (withdraw_request sk epk root recipient neg inputs change c1 c2 m n td sd) hash_ext_data rest"
      using withdraw_covered [OF ok assms(1,2)] assms(3) by blast
    moreover have "amounts_ok (withdraw_request sk epk root recipient neg inputs change c1 c2 m n td sd)"
      using withdraw_request_balances [OF w(1,2) ok(1)] .
    moreover have "\<not> 2 ^ 128 \<le> inputs_value inputs" "\<not> sint (ea_val amount) < 0" "\<not> int (inputs_value inputs) < sint (ea_val amount)"
      using ok by linarith+
    ultimately show ?thesis by (simp only: if_False) blast
  qed
qed

section \<open>Witnesses\<close>

definition run_membership :: asp_membership_proof where
  "run_membership = \<lparr>am_leaf = F_ONE, am_blinding = F_ONE, am_path_elements = [F_ZERO], am_path_indices = F_ZERO, am_root = F_ONE\<rparr>"

definition run_non_membership :: asp_non_membership_proof where
  "run_non_membership = \<lparr>an_key = F_ONE, an_old_key = F_ZERO, an_old_value = F_ZERO, an_is_old0 = True, an_siblings = [F_ZERO], an_root = F_ONE\<rparr>"

definition run_params :: transact_params where
  "run_params = \<lparr>tp_priv_key = NotePrivateKey (replicate 32 6), tp_encryption_pubkey = EncryptionPublicKey (replicate 32 8),
     tp_pool_root = F_ONE, tp_ext_recipient = ''pool'', tp_ext_amount = EA_ZERO,
     tp_inputs = [\<lparr>ti_amount = NoteAmount 5, ti_blinding = F_ONE, ti_path_elements = [F_ZERO], ti_path_indices = Field (ucast (3 :: u32))\<rparr>],
     tp_outputs = [\<lparr>to_amount = NoteAmount 5, to_blinding = F_ONE, to_recipient_note_pubkey = None, to_recipient_encryption_pubkey = None\<rparr>],
     tp_membership = run_membership, tp_non_membership = run_non_membership, tp_tree_depth = 1, tp_smt_depth = 1\<rparr>"

abbreviation run_hash :: ext_hash where
  "run_hash \<equiv> \<lambda>e. Inr (replicate 32 0)"

abbreviation run_rng :: rng where
  "run_rng \<equiv> [replicate 32 1] @ [replicate 32 2] @ [replicate 32 3, replicate 24 4, replicate 32 5, replicate 24 6] @ []"

lemma run_params_ok:
  "keys_sized run_params" "shapes_ok run_params" "amounts_ok run_params" "draws run_params [replicate 32 1] [replicate 32 2] [] run_rng"
proof -
  show "draws run_params [replicate 32 1] [replicate 32 2] [] run_rng"
    unfolding draws_def
    by (intro conjI exI [of _ "replicate 32 3"] exI [of _ "replicate 24 4"] exI [of _ "replicate 32 5"] exI [of _ "replicate 24 6"])
      (simp_all add: run_params_def)
qed (simp_all add: keys_sized_def shapes_ok_def amounts_ok_def run_params_def run_membership_def run_non_membership_def paired_def EA_ZERO_def)

lemma run_build: "\<exists>a. build_transact plain_env run_params run_hash run_rng = Inr (a, [])"
  using build_transact_ok [OF plain_env_ok run_params_ok(1,2,3,4), of run_hash] by blast

theorem transact_succeeds_iff_witness:
  "\<exists>r. build_transact plain_env run_params run_hash run_rng = Inr r"
  using transact_succeeds_iff [OF plain_env_ok run_params_ok(1), of run_hash "[replicate 32 1]" "[replicate 32 2]" "[]" run_rng]
    run_params_ok(2-4) unfolding shapes_ok_def amounts_ok_def by blast

theorem transact_artifacts_correct_witness:
  "\<exists>a pk. build_transact plain_env run_params run_hash run_rng = Inr (a, []) \<and> derive_public_key (replicate 32 6) = Inr pk \<and>
    ta_circuit_inputs a ''outPubkey'' = Some (Array (replicate 2 (wire_nat (le_val pk)))) \<and>
    ta_circuit_inputs a ''inAmount'' = Some (Array [wire_nat 5, wire_nat 0]) \<and>
    sealed plain_env (EncryptionPublicKey (replicate 32 8)) (hd (tp_outputs run_params)) (replicate 32 3) (replicate 24 4)
      (ce_encrypted_output0 (ta_ext_data a))"
proof -
  obtain a where a: "build_transact plain_env run_params run_hash run_rng = Inr (a, [])" using run_build by blast
  obtain es sk pk where es: "run_rng = [replicate 32 1] @ [replicate 32 2] @ concat (map (\<lambda>(d1, d2). [d1, d2]) es) @ []"
    and sk: "tp_priv_key run_params = NotePrivateKey sk" and pk: "derive_public_key sk = Inr pk"
    and graph: "Map.graph (ta_circuit_inputs a) = set (circuit_signals run_params sk pk (tp_inputs run_params @ map (dummy_of 1) [replicate 32 1])
      (tp_outputs run_params @ map dummy_output_of [replicate 32 2]) (ta_prepared a))"
    and sealed: "list_all2 (\<lambda>(out, d1, d2). sealed plain_env (EncryptionPublicKey (replicate 32 8)) out d1 d2)
      (zip (tp_outputs run_params @ map dummy_output_of [replicate 32 2]) es) [ce_encrypted_output0 (ta_ext_data a), ce_encrypted_output1 (ta_ext_data a)]"
    using transact_artifacts_correct [OF plain_env_ok run_params_ok(1) _ run_params_ok(4) a]
    by (auto simp: Let_def run_params_def)
  have "sk = replicate 32 6" using sk by (simp add: run_params_def)
  have "wire (f_from_note (NoteAmount 5)) = wire_nat 5" "wire (f_from_note NA_ZERO) = wire_nat 0"
    by (simp_all add: wire_def f_from_note_def NA_ZERO_def)
  moreover have "recipient_key pk (dummy_output_of d) = pk" "ti_amount (dummy_of k d) = NA_ZERO" for k d
    by (simp_all add: dummy_output_of_def dummy_of_def recipient_key_def)
  moreover have "tp_outputs run_params = [\<lparr>to_amount = NoteAmount 5, to_blinding = F_ONE, to_recipient_note_pubkey = None,
      to_recipient_encryption_pubkey = None\<rparr>]" "map ti_amount (tp_inputs run_params) = [NoteAmount 5]"
    by (simp_all add: run_params_def)
  moreover have "replicate 2 x = [x, x]" for x :: string by (simp add: numeral_2_eq_2)
  ultimately have arrays: "map (\<lambda>out. wire_nat (le_val (recipient_key pk out))) (tp_outputs run_params @ map dummy_output_of [replicate 32 2]) =
      replicate 2 (wire_nat (le_val pk))"
    "map (\<lambda>inp. wire (f_from_note (ti_amount inp))) (tp_inputs run_params @ map (dummy_of 1) [replicate 32 1]) = [wire_nat 5, wire_nat 0]"
    by (auto simp: recipient_key_def map_eq_Cons_conv)
  have "(''outPubkey'', Array (replicate 2 (wire_nat (le_val pk)))) \<in> Map.graph (ta_circuit_inputs a)"
    "(''inAmount'', Array [wire_nat 5, wire_nat 0]) \<in> Map.graph (ta_circuit_inputs a)"
    unfolding graph arrays [symmetric] by (rule flow_signal; simp only: flow_signals_def list.set insert_iff simp_thms)+
  moreover obtain e1 e2 rest where "es = (e1, e2) # rest" using sealed by (cases es) auto
  then have "sealed plain_env (EncryptionPublicKey (replicate 32 8)) (hd (tp_outputs run_params)) (replicate 32 3) (replicate 24 4)
      (ce_encrypted_output0 (ta_ext_data a))" using sealed es by (simp add: run_params_def)
  ultimately show ?thesis using a pk \<open>sk = _\<close> by (intro exI [of _ a] exI [of _ pk]) (auto simp: Map.graph_def)
qed

theorem transact_conserves_value_witness:
  "\<exists>a. build_transact plain_env run_params run_hash run_rng = Inr (a, []) \<and>
    (5 + unat (f_val (pr_public_amount (ta_prepared a)))) mod bn_p = 5"
proof -
  obtain a where "build_transact plain_env run_params run_hash run_rng = Inr (a, [])" using run_build by blast
  with transact_conserves_value [OF this] show ?thesis by (auto simp: run_params_def)
qed

theorem spend_publishes_expected_nullifier_witness:
  "\<exists>pk commitment enc dn a. try_decrypt_and_derive_user_note plain_env \<lparr>nk_private = NotePrivateKey (replicate 32 6), nk_public = NotePublicKey pk\<rparr>
      (EncryptionPrivateKey (replicate 32 1)) commitment 3 enc = Inr (Some dn) \<and>
    build_transact plain_env run_params run_hash run_rng = Inr (a, []) \<and>
    pr_input_nullifiers (ta_prepared a) ! 0 = dn_expected_nullifier dn"
proof -
  obtain pk where pk: "derive_public_key (replicate 32 6) = Inr pk" "length pk = 32"
    using derive_public_key_field [of "replicate 32 6"] by auto
  obtain commitment enc n where f: "try_decrypt_and_derive_user_note plain_env
      \<lparr>nk_private = NotePrivateKey (replicate 32 6), nk_public = NotePublicKey pk\<rparr> (EncryptionPrivateKey (replicate 32 1)) commitment 3 enc =
    Inr (Some \<lparr>dn_amount = NoteAmount 5, dn_blinding = F_ONE, dn_expected_nullifier = n\<rparr>)" using run_found [OF pk(2)] by blast
  obtain a where a: "build_transact plain_env run_params run_hash run_rng = Inr (a, [])" using run_build by blast
  have "pr_input_nullifiers (ta_prepared a) ! 0 = dn_expected_nullifier \<lparr>dn_amount = NoteAmount 5, dn_blinding = F_ONE, dn_expected_nullifier = n\<rparr>"
    by (rule spend_publishes_expected_nullifier [OF plain_env_ok run_params_ok(1) _ run_params_ok(4) a _ pk(1) _ _ f])
      (simp_all add: run_params_def)
  then show ?thesis using f a by blast
qed

theorem withdraw_outcome_witness:
  "withdraw plain_env (NotePrivateKey []) (EncryptionPublicKey []) F_ONE ''you'' EA_ONE [] None run_membership run_non_membership 1 1 run_hash
    (replicate 32 1 # replicate 32 2 # []) = Inl (Fail InsufficientInput)"
  using withdraw_outcome [where ?c1.0 = "replicate 32 1" and ?c2.0 = "replicate 32 2" and env = plain_env and sk = "NotePrivateKey []"
      and epk = "EncryptionPublicKey []" and root = F_ONE and recipient = "''you''" and amount = EA_ONE and inputs = "[]"
      and m = run_membership and n = run_non_membership and td = 1 and sd = 1 and hash_ext_data = run_hash and rest = "[]", OF _ _ refl]
  by (simp add: EA_ONE_def)

end
