(* ===== verification/LocalStore.thy ===== *)
theory LocalStore imports Notes "HOL-Library.List_Lexorder" "HOL-Library.Char_ord" "HOL-Library.Product_Lexorder" begin

text \<open>
  The local database of the application, from \<^verbatim>\<open>app/crates/core/state/src/storage.rs\<close> and
  \<^verbatim>\<open>schema.sql\<close>: the tables, and every operation that reads or writes them but the two scans for
  notes, which are in the theory \<open>NoteScan\<close>.

  A table is the list of its rows in the order of their insertion. No statement of the program deletes
  a row, so an \<open>INTEGER PRIMARY KEY\<close> that SQLite chooses is one more than the largest one. A statement
  that violates a constraint fails and its transaction is rolled back: an operation of one transaction
  returns the new state only when it succeeds. Each \<open>UNIQUE\<close> constraint and each reference to an event
  that a statement can violate is checked in the definitions; the other references are to rows the
  same transaction has read. Columns hold the values that were written to them.
\<close>

section \<open>Tables\<close>

datatype store_error =
    UniqueViolation
  | ForeignKeyViolation
  | LeafGap u32 u32
  | LeafIndexOverflow
  | AheadOfTip u32 u32
  | AspRootMismatch u32
  | DisclaimerMismatch
  | PoolCount
  | NoteError prover_error

record event_row =
  er_id :: string
  er_ledger :: u32
  er_contract :: nat
  er_topics :: string
  er_value :: string

record sync_row =
  sr_contract :: nat
  sr_cursor :: "string option"
  sr_last_indexed :: u32
  sr_last_fully_indexed :: u32

record keypair_row =
  kr_id :: nat
  kr_note :: note_key_pair
  kr_encryption :: encryption_key_pair
  kr_membership_blinding :: field
  kr_account :: nat

record nullifier_row =
  nr_id :: nat
  nr_nullifier :: field
  nr_event :: string

record commitment_row =
  cr_id :: nat
  cr_commitment :: field
  cr_leaf_index :: u32
  cr_encrypted_output :: "byte list"
  cr_event :: string

record public_key_row =
  pr_owner :: string
  pr_encryption_key :: encryption_public_key
  pr_note_key :: note_public_key
  pr_event :: string

record leaf_row =
  lr_leaf_index :: u32
  lr_leaf :: field
  lr_root :: field
  lr_event :: string

record user_note_row =
  ur_id :: field
  ur_account :: nat
  ur_commitment_id :: nat
  ur_nullifier_id :: "nat option"
  ur_expected_nullifier :: field
  ur_blinding :: field
  ur_amount :: note_amount

record local_store =
  ls_contracts :: "(nat \<times> string) list"
  ls_indexing :: "sync_row list"
  ls_events :: "event_row list"
  ls_accounts :: "(nat \<times> string) list"
  ls_keypairs :: "keypair_row list"
  ls_nullifiers :: "nullifier_row list"
  ls_commitments :: "commitment_row list"
  ls_public_keys :: "public_key_row list"
  ls_asp_leaves :: "leaf_row list"
  ls_user_notes :: "user_note_row list"
  ls_commitment_scan :: "nat \<times> nat \<Rightarrow> nat option"
  ls_nullifier_scan :: "nat \<Rightarrow> nat option"
  ls_disclaimers :: "(nat \<times> string) list"
  ls_bootnode :: "bool \<times> string"

definition connect :: local_store where
  "connect = \<lparr>ls_contracts = [], ls_indexing = [], ls_events = [], ls_accounts = [], ls_keypairs = [],
     ls_nullifiers = [], ls_commitments = [], ls_public_keys = [], ls_asp_leaves = [], ls_user_notes = [],
     ls_commitment_scan = (\<lambda>_. None), ls_nullifier_scan = (\<lambda>_. None), ls_disclaimers = [], ls_bootnode = (False, '''')\<rparr>"

text \<open>The primary key SQLite gives a new row.\<close>

definition next_id :: "nat list \<Rightarrow> nat" where
  "next_id ids = Suc (foldr max ids 0)"

text \<open>The row of the event \<open>e\<close>, the contract that published it, and the id and the address of a contract.\<close>

definition event_of :: "local_store \<Rightarrow> string \<Rightarrow> event_row option" where
  "event_of s e = find (\<lambda>r. er_id r = e) (ls_events s)"

definition contract_of :: "local_store \<Rightarrow> string \<Rightarrow> nat option" where
  "contract_of s e = map_option er_contract (event_of s e)"

definition address_id :: "(nat \<times> string) list \<Rightarrow> string \<Rightarrow> nat option" where
  "address_id rows a = map_option fst (find (\<lambda>r. snd r = a) rows)"

definition id_address :: "(nat \<times> string) list \<Rightarrow> nat \<Rightarrow> string option" where
  "id_address rows i = map_option snd (find (\<lambda>r. fst r = i) rows)"

definition from_contract :: "local_store \<Rightarrow> string \<Rightarrow> string \<Rightarrow> bool" where
  "from_contract s a e = (case contract_of s e of Some c \<Rightarrow> id_address (ls_contracts s) c = Some a | None \<Rightarrow> False)"

section \<open>Accounts, contracts, events\<close>

record contract_event =
  cv_id :: string
  cv_ledger :: u32
  cv_contract_id :: string
  cv_topics :: "string list"
  cv_value :: string

record sync_metadata =
  sm_contract_id :: string
  sm_cursor :: string
  sm_last_indexed_ledger :: u32
  sm_last_fully_indexed_ledger :: u32

definition get_or_create_account :: "string \<Rightarrow> local_store \<Rightarrow> nat \<times> local_store" where
  "get_or_create_account address s =
     (case address_id (ls_accounts s) address of Some i \<Rightarrow> (i, s)
      | None \<Rightarrow> let i = next_id (map fst (ls_accounts s)) in (i, s\<lparr>ls_accounts := ls_accounts s @ [(i, address)]\<rparr>))"

definition get_or_create_contract_id :: "string \<Rightarrow> local_store \<Rightarrow> nat \<times> local_store" where
  "get_or_create_contract_id address s =
     (case address_id (ls_contracts s) address of Some i \<Rightarrow> (i, s)
      | None \<Rightarrow> let i = next_id (map fst (ls_contracts s)) in (i, s\<lparr>ls_contracts := ls_contracts s @ [(i, address)]\<rparr>))"

text \<open>\<open>topics.join(",")\<close> and \<open>topics_str.split(',')\<close>.\<close>

fun join_comma :: "string list \<Rightarrow> string" where
  "join_comma [] = ''''"
| "join_comma [t] = t"
| "join_comma (t # ts) = t @ '','' @ join_comma ts"

fun split_comma :: "string \<Rightarrow> string list" where
  "split_comma [] = ['''']"
| "split_comma (c # cs) = (if c = CHR '','' then '''' # split_comma cs
     else case split_comma cs of t # ts \<Rightarrow> (c # t) # ts | [] \<Rightarrow> [[c]])"

fun save_events_batch :: "contract_event list \<Rightarrow> local_store \<Rightarrow> local_store" where
  "save_events_batch [] s = s"
| "save_events_batch (e # es) s =
     (let (c, s) = get_or_create_contract_id (cv_contract_id e) s;
          s = (if cv_id e \<in> er_id ` set (ls_events s) then s
               else s\<lparr>ls_events := ls_events s @ [\<lparr>er_id = cv_id e, er_ledger = cv_ledger e, er_contract = c,
                 er_topics = join_comma (cv_topics e), er_value = cv_value e\<rparr>]\<rparr>) in
      save_events_batch es s)"

fun save_sync_progress :: "sync_metadata list \<Rightarrow> bool \<Rightarrow> local_store \<Rightarrow> local_store" where
  "save_sync_progress [] fully_indexed s = s"
| "save_sync_progress (m # ms) fully_indexed s =
     (let (c, s) = get_or_create_contract_id (sm_contract_id m) s;
          rows = (if c \<in> sr_contract ` set (ls_indexing s) then ls_indexing s
                  else ls_indexing s @ [\<lparr>sr_contract = c, sr_cursor = Some (sm_cursor m),
                    sr_last_indexed = sm_last_indexed_ledger m, sr_last_fully_indexed = 0\<rparr>]);
          update = (if fully_indexed
            then (\<lambda>r. r\<lparr>sr_cursor := Some (sm_cursor m), sr_last_indexed := sm_last_indexed_ledger m,
                        sr_last_fully_indexed := sm_last_indexed_ledger m\<rparr>)
            else (\<lambda>r. r\<lparr>sr_cursor := Some (sm_cursor m), sr_last_indexed := sm_last_indexed_ledger m\<rparr>)) in
      save_sync_progress ms fully_indexed
        (s\<lparr>ls_indexing := map (\<lambda>r. if sr_contract r = c then update r else r) rows\<rparr>))"

definition clear_indexing_cursors :: "local_store \<Rightarrow> local_store" where
  "clear_indexing_cursors s = s\<lparr>ls_indexing := map (\<lambda>r. r\<lparr>sr_cursor := None\<rparr>) (ls_indexing s)\<rparr>"

definition get_sync_metadata :: "local_store \<Rightarrow> sync_metadata list" where
  "get_sync_metadata s = concat (map (\<lambda>r. case id_address (ls_contracts s) (sr_contract r) of
       Some a \<Rightarrow> [\<lparr>sm_contract_id = a, sm_cursor = (case sr_cursor r of Some c \<Rightarrow> c | None \<Rightarrow> ''''),
                  sm_last_indexed_ledger = sr_last_indexed r, sm_last_fully_indexed_ledger = sr_last_fully_indexed r\<rparr>]
     | None \<Rightarrow> []) (sort_key sr_contract (ls_indexing s)))"

section \<open>Keys, disclaimer, bootnode\<close>

record stored_user_keys =
  su_note :: note_key_pair
  su_encryption :: encryption_key_pair
  su_membership_blinding :: field

definition latest_keypair :: "local_store \<Rightarrow> nat \<Rightarrow> keypair_row option" where
  "latest_keypair s account =
     (case rev (sort_key kr_id (filter (\<lambda>r. kr_account r = account) (ls_keypairs s))) of [] \<Rightarrow> None | r # _ \<Rightarrow> Some r)"

definition get_user_keys :: "string \<Rightarrow> local_store \<Rightarrow> stored_user_keys option" where
  "get_user_keys address s =
     (case address_id (ls_accounts s) address of None \<Rightarrow> None
      | Some account \<Rightarrow> map_option (\<lambda>r. \<lparr>su_note = kr_note r, su_encryption = kr_encryption r,
          su_membership_blinding = kr_membership_blinding r\<rparr>) (latest_keypair s account))"

definition save_encryption_and_note_keypairs ::
  "string \<Rightarrow> note_key_pair \<Rightarrow> encryption_key_pair \<Rightarrow> field \<Rightarrow> local_store \<Rightarrow> local_store" where
  "save_encryption_and_note_keypairs address note_keypair encryption_keypair membership_blinding s =
     (let (account, s) = get_or_create_account address s in
      s\<lparr>ls_keypairs := ls_keypairs s @ [\<lparr>kr_id = next_id (map kr_id (ls_keypairs s)), kr_note = note_keypair,
        kr_encryption = encryption_keypair, kr_membership_blinding = membership_blinding, kr_account = account\<rparr>]\<rparr>)"

text \<open>The hash of the current text is in a generated file: it is the argument \<open>current\<close>.\<close>

definition get_disclaimer_state :: "string \<Rightarrow> string \<Rightarrow> local_store \<Rightarrow> bool \<times> local_store" where
  "get_disclaimer_state current address s =
     (let (account, s) = get_or_create_account address s in ((account, current) \<in> set (ls_disclaimers s), s))"

definition accept_current_disclaimer :: "string \<Rightarrow> string \<Rightarrow> string \<Rightarrow> local_store \<Rightarrow> (store_error, local_store) outcome" where
  "accept_current_disclaimer current address disclaimer_hash s =
     andThen (guard (disclaimer_hash = current) DisclaimerMismatch) (\<lambda>_.
     let (account, s) = get_or_create_account address s in
     Inr (if (account, disclaimer_hash) \<in> set (ls_disclaimers s) then s
          else s\<lparr>ls_disclaimers := ls_disclaimers s @ [(account, disclaimer_hash)]\<rparr>))"

definition get_bootnode_config :: "local_store \<Rightarrow> bool \<times> string" where
  "get_bootnode_config s = ls_bootnode s"

definition set_bootnode_config :: "bool \<Rightarrow> string \<Rightarrow> local_store \<Rightarrow> local_store" where
  "set_bootnode_config enabled url s = s\<lparr>ls_bootnode := (enabled, url)\<rparr>"

section \<open>Chain events\<close>

record nullifier_event =
  ne_id :: string
  ne_nullifier :: field

record commitment_event =
  me_id :: string
  me_commitment :: field
  me_index :: u32
  me_encrypted_output :: "byte list"

record key_event =
  ke_id :: string
  ke_owner :: string
  ke_encryption_key :: encryption_public_key
  ke_note_key :: note_public_key

record leaf_event =
  le_id :: string
  le_leaf :: field
  le_index :: u32
  le_root :: field

definition references :: "string \<Rightarrow> string list \<Rightarrow> local_store \<Rightarrow> (store_error, unit) outcome" where
  "references e used s =
     andThen (guard (e \<notin> set used) UniqueViolation) (\<lambda>_.
     guard (event_of s e \<noteq> None) ForeignKeyViolation)"

fun save_nullifier_events_batch :: "nullifier_event list \<Rightarrow> local_store \<Rightarrow> (store_error, local_store) outcome" where
  "save_nullifier_events_batch [] s = Inr s"
| "save_nullifier_events_batch (e # es) s =
     (if ne_nullifier e \<in> nr_nullifier ` set (ls_nullifiers s) then save_nullifier_events_batch es s
      else andThen (references (ne_id e) (map nr_event (ls_nullifiers s)) s) (\<lambda>_.
        save_nullifier_events_batch es (s\<lparr>ls_nullifiers := ls_nullifiers s @
          [\<lparr>nr_id = next_id (map nr_id (ls_nullifiers s)), nr_nullifier = ne_nullifier e, nr_event = ne_id e\<rparr>]\<rparr>)))"

fun save_commitment_events_batch :: "commitment_event list \<Rightarrow> local_store \<Rightarrow> (store_error, local_store) outcome" where
  "save_commitment_events_batch [] s = Inr s"
| "save_commitment_events_batch (e # es) s =
     (if me_commitment e \<in> cr_commitment ` set (ls_commitments s) then save_commitment_events_batch es s
      else andThen (references (me_id e) (map cr_event (ls_commitments s)) s) (\<lambda>_.
        save_commitment_events_batch es (s\<lparr>ls_commitments := ls_commitments s @
          [\<lparr>cr_id = next_id (map cr_id (ls_commitments s)), cr_commitment = me_commitment e, cr_leaf_index = me_index e,
            cr_encrypted_output = me_encrypted_output e, cr_event = me_id e\<rparr>]\<rparr>)))"

fun save_public_key_events_batch :: "key_event list \<Rightarrow> local_store \<Rightarrow> (store_error, local_store) outcome" where
  "save_public_key_events_batch [] s = Inr s"
| "save_public_key_events_batch (e # es) s =
     (if ke_id e \<in> pr_event ` set (ls_public_keys s) then save_public_key_events_batch es s
      else andThen (references (ke_id e) [] s) (\<lambda>_.
        save_public_key_events_batch es (s\<lparr>ls_public_keys := ls_public_keys s @
          [\<lparr>pr_owner = ke_owner e, pr_encryption_key = ke_encryption_key e, pr_note_key = ke_note_key e, pr_event = ke_id e\<rparr>]\<rparr>)))"

fun save_leaf_added_events_batch :: "leaf_event list \<Rightarrow> local_store \<Rightarrow> (store_error, local_store) outcome" where
  "save_leaf_added_events_batch [] s = Inr s"
| "save_leaf_added_events_batch (e # es) s =
     (if le_index e \<in> lr_leaf_index ` set (ls_asp_leaves s) then save_leaf_added_events_batch es s
      else andThen (references (le_id e) (map lr_event (ls_asp_leaves s)) s) (\<lambda>_.
        save_leaf_added_events_batch es (s\<lparr>ls_asp_leaves := ls_asp_leaves s @
          [\<lparr>lr_leaf_index = le_index e, lr_leaf = le_leaf e, lr_root = le_root e, lr_event = le_id e\<rparr>]\<rparr>)))"

definition processed :: "local_store \<Rightarrow> string \<Rightarrow> bool" where
  "processed s e \<longleftrightarrow> e \<in> set (map cr_event (ls_commitments s) @ map pr_event (ls_public_keys s) @
     map nr_event (ls_nullifiers s) @ map lr_event (ls_asp_leaves s))"

definition get_unprocessed_events :: "nat \<Rightarrow> local_store \<Rightarrow> contract_event list" where
  "get_unprocessed_events limit s = take limit (concat (map (\<lambda>r. case id_address (ls_contracts s) (er_contract r) of
       Some a \<Rightarrow> [\<lparr>cv_id = er_id r, cv_ledger = er_ledger r, cv_contract_id = a, cv_topics = split_comma (er_topics r),
                  cv_value = er_value r\<rparr>]
     | None \<Rightarrow> []) (sort_key (\<lambda>r. (er_ledger r, er_id r)) (filter (\<lambda>r. \<not> processed s (er_id r)) (ls_events s)))))"

section \<open>Leaves\<close>

fun check_ordered :: "u32 \<Rightarrow> (u32 \<times> field) list \<Rightarrow> (store_error, field list) outcome" where
  "check_ordered expected_index [] = Inr []"
| "check_ordered expected_index ((idx, leaf) # rows) =
     andThen (guard (idx = expected_index) (LeafGap expected_index idx)) (\<lambda>_.
     andThen (ok_or LeafIndexOverflow (checked_add expected_index 1)) (\<lambda>expected_index.
     andThen (check_ordered expected_index rows) (\<lambda>leaves. Inr (leaf # leaves))))"

definition get_pool_commitment_leaves_ordered :: "string \<Rightarrow> local_store \<Rightarrow> (store_error, field list) outcome" where
  "get_pool_commitment_leaves_ordered pool s =
     check_ordered 0 (map (\<lambda>r. (cr_leaf_index r, cr_commitment r))
       (sort_key cr_leaf_index (filter (\<lambda>r. from_contract s pool (cr_event r)) (ls_commitments s))))"

definition get_all_asp_membership_leaves_ordered :: "string \<Rightarrow> local_store \<Rightarrow> (store_error, field list) outcome" where
  "get_all_asp_membership_leaves_ordered asp s =
     check_ordered 0 (map (\<lambda>r. (lr_leaf_index r, lr_leaf r))
       (sort_key lr_leaf_index (filter (\<lambda>r. from_contract s asp (lr_event r)) (ls_asp_leaves s))))"

datatype asp_membership_sync = SyncRequired "u32 option" | RegisterAtASP | UserIndex u32

definition check_asp_membership_precondition ::
  "string \<Rightarrow> field \<Rightarrow> field \<Rightarrow> u32 \<Rightarrow> local_store \<Rightarrow> (store_error, asp_membership_sync) outcome" where
  "check_asp_membership_precondition asp user_leaf current_root current_ledger s =
     (case find (\<lambda>m. sm_contract_id m = asp) (get_sync_metadata s) of
        None \<Rightarrow> Inr (SyncRequired (Some current_ledger))
      | Some sync_meta \<Rightarrow>
        if sm_last_fully_indexed_ledger sync_meta < current_ledger
        then Inr (SyncRequired (Some (current_ledger - sm_last_fully_indexed_ledger sync_meta)))
        else if current_ledger < sm_last_fully_indexed_ledger sync_meta
        then Inl (Fail (AheadOfTip (sm_last_fully_indexed_ledger sync_meta) current_ledger))
        else
          let leaves = filter (\<lambda>r. from_contract s asp (lr_event r)) (ls_asp_leaves s) in
          (case rev (sort_key lr_leaf_index leaves) of
             [] \<Rightarrow> Inr RegisterAtASP
           | newest # _ \<Rightarrow>
             let last_leaf_ledger = (case event_of s (lr_event newest) of Some e \<Rightarrow> er_ledger e | None \<Rightarrow> 0) in
             if current_root \<noteq> lr_root newest
             then if last_leaf_ledger < current_ledger
                  then Inr (SyncRequired (Some (current_ledger - last_leaf_ledger)))
                  else Inl (Fail (AspRootMismatch current_ledger))
             else (case find (\<lambda>r. lr_leaf r = user_leaf) leaves of
                     Some r \<Rightarrow> Inr (UserIndex (lr_leaf_index r))
                   | None \<Rightarrow> Inr RegisterAtASP)))"

section \<open>Listings\<close>

record user_note_summary =
  us_id :: field
  us_amount :: note_amount
  us_leaf_index :: u32
  us_created_at_ledger :: u32
  us_spent :: bool

definition summary_of :: "local_store \<Rightarrow> user_note_row \<Rightarrow> user_note_summary list" where
  "summary_of s n =
     (case find (\<lambda>c. cr_id c = ur_commitment_id n) (ls_commitments s) of None \<Rightarrow> []
      | Some c \<Rightarrow> (case event_of s (cr_event c) of None \<Rightarrow> []
        | Some r \<Rightarrow> [\<lparr>us_id = ur_id n, us_amount = ur_amount n, us_leaf_index = cr_leaf_index c,
            us_created_at_ledger = er_ledger r, us_spent = (ur_nullifier_id n \<noteq> None)\<rparr>]))"

definition newest_first :: "user_note_summary list \<Rightarrow> user_note_summary list" where
  "newest_first notes' = sort_key (\<lambda>n. - int (unat (us_created_at_ledger n))) notes'"

definition list_user_notes :: "string \<Rightarrow> nat \<Rightarrow> local_store \<Rightarrow> user_note_summary list" where
  "list_user_notes address limit s = take limit (newest_first (concat (map (summary_of s)
     (filter (\<lambda>n. id_address (ls_accounts s) (ur_account n) = Some address) (ls_user_notes s)))))"

definition note_contract :: "local_store \<Rightarrow> user_note_row \<Rightarrow> nat option" where
  "note_contract s n = (case find (\<lambda>c. cr_id c = ur_commitment_id n) (ls_commitments s) of
     None \<Rightarrow> None | Some c \<Rightarrow> contract_of s (cr_event c))"

definition in_pool :: "local_store \<Rightarrow> string \<Rightarrow> user_note_row \<Rightarrow> bool" where
  "in_pool s pool n = (case note_contract s n of None \<Rightarrow> False | Some c \<Rightarrow> id_address (ls_contracts s) c = Some pool)"

definition list_unspent_user_notes :: "string \<Rightarrow> string \<Rightarrow> local_store \<Rightarrow> user_note_summary list" where
  "list_unspent_user_notes pool address s = newest_first (concat (map (summary_of s)
     (filter (\<lambda>n. id_address (ls_accounts s) (ur_account n) = Some address \<and> in_pool s pool n \<and> ur_nullifier_id n = None)
       (ls_user_notes s))))"

definition get_unspent_user_note_by_commitment ::
  "string \<Rightarrow> string \<Rightarrow> field \<Rightarrow> local_store \<Rightarrow> (note_amount \<times> field \<times> u32) option" where
  "get_unspent_user_note_by_commitment pool address commitment s =
     (case concat (map (\<lambda>n. map (\<lambda>c. (ur_amount n, ur_blinding n, cr_leaf_index c))
          (filter (\<lambda>c. cr_id c = ur_commitment_id n \<and> cr_commitment c = commitment \<and> from_contract s pool (cr_event c))
             (ls_commitments s)))
        (filter (\<lambda>n. id_address (ls_accounts s) (ur_account n) = Some address \<and> ur_nullifier_id n = None) (ls_user_notes s))) of
        [] \<Rightarrow> None | r # _ \<Rightarrow> Some r)"

record pool_ledger_activity =
  pa_ledger :: u32
  pa_commitments :: nat
  pa_nullifiers :: nat

definition get_recent_pool_activity :: "nat \<Rightarrow> local_store \<Rightarrow> pool_ledger_activity list" where
  "get_recent_pool_activity limit s =
     (let ledgers_of = (\<lambda>es. concat (map (\<lambda>e. case event_of s e of Some r \<Rightarrow> [er_ledger r] | None \<Rightarrow> []) es));
          cs = ledgers_of (map cr_event (ls_commitments s)); ns = ledgers_of (map nr_event (ls_nullifiers s)) in
      map (\<lambda>l. \<lparr>pa_ledger = l, pa_commitments = length (filter (\<lambda>x. x = l) cs), pa_nullifiers = length (filter (\<lambda>x. x = l) ns)\<rparr>)
        (take limit (rev (sort (remdups (cs @ ns))))))"

record public_key_entry =
  pe_address :: string
  pe_encryption_key :: encryption_public_key
  pe_note_key :: note_public_key
  pe_ledger :: u32

definition map_public_key_entry :: "public_key_row \<times> u32 \<Rightarrow> public_key_entry" where
  "map_public_key_entry row = \<lparr>pe_address = pr_owner (fst row), pe_encryption_key = pr_encryption_key (fst row),
     pe_note_key = pr_note_key (fst row), pe_ledger = snd row\<rparr>"

fun newest_row :: "(public_key_row \<times> u32) \<Rightarrow> (public_key_row \<times> u32) list \<Rightarrow> public_key_row \<times> u32" where
  "newest_row r [] = r"
| "newest_row r (r' # rs) = newest_row (if snd r < snd r' then r' else r) rs"

definition get_recent_public_keys :: "nat \<Rightarrow> local_store \<Rightarrow> public_key_entry list" where
  "get_recent_public_keys limit s =
     (let rows = concat (map (\<lambda>p. case event_of s (pr_event p) of Some r \<Rightarrow> [(p, er_ledger r)] | None \<Rightarrow> []) (ls_public_keys s));
          newest = map (\<lambda>owner. case filter (\<lambda>r. pr_owner (fst r) = owner) rows of r # rs \<Rightarrow> newest_row r rs)
            (sort (remdups (map (pr_owner \<circ> fst) rows))) in
      take limit (map map_public_key_entry (sort_key (\<lambda>r. - int (unat (snd r))) newest)))"

section \<open>Keys\<close>

lemma max_below: "x \<in> set ids \<Longrightarrow> (x :: nat) \<le> foldr max ids 0"
  by (induction ids) (auto simp: le_max_iff_disj)

lemma next_id_greater: "x \<in> set ids \<Longrightarrow> x < next_id ids"
  using max_below by (fastforce simp: next_id_def)

lemma next_id_fresh: "next_id ids \<notin> set ids"
  using next_id_greater by blast

lemma sorted_next_id: "sorted_wrt (<) (ids :: nat list) \<Longrightarrow> sorted_wrt (<) (ids @ [next_id ids])"
  by (simp add: sorted_wrt_append next_id_greater)

lemma next_id_pos [simp]: "0 < next_id ids"
  by (simp add: next_id_def)

lemma find_Some_unique:
  assumes "distinct (map f xs)" "x \<in> set xs"
  shows "find (\<lambda>y. f y = f x) xs = Some x"
  using assms by (induction xs) auto

lemma find_key_Some: "find (\<lambda>y. f y = k) xs = Some x \<Longrightarrow> x \<in> set xs \<and> f x = k"
  by (induction xs) (auto split: if_splits)

lemma find_key_None: "find (\<lambda>y. f y = k) xs = None \<longleftrightarrow> k \<notin> f ` set xs"
  by (induction xs) auto

lemma find_append_Some: "find P xs = Some x \<Longrightarrow> find P (xs @ ys) = Some x"
  by (induction xs) (auto split: if_splits)

lemma address_id_Some: "address_id rows a = Some i \<Longrightarrow> (i, a) \<in> set rows"
  by (auto simp: address_id_def dest!: find_key_Some)

lemma address_id_None: "address_id rows a = None \<longleftrightarrow> a \<notin> snd ` set rows"
  by (simp add: address_id_def find_key_None)

lemma id_address_in: "distinct (map fst rows) \<Longrightarrow> (i, a) \<in> set rows \<Longrightarrow> id_address rows i = Some a"
  using find_Some_unique [of fst rows "(i, a)"] by (simp add: id_address_def)

lemma id_address_Some: "id_address rows i = Some a \<Longrightarrow> (i, a) \<in> set rows"
  by (auto simp: id_address_def dest!: find_key_Some)

section \<open>The invariant of the tables\<close>

definition names_ok :: "(nat \<times> string) list \<Rightarrow> bool" where
  "names_ok rows \<longleftrightarrow> distinct (map fst rows) \<and> distinct (map snd rows)"

definition events_ok :: "local_store \<Rightarrow> bool" where
  "events_ok s \<longleftrightarrow> names_ok (ls_contracts s) \<and> names_ok (ls_accounts s) \<and> distinct (map er_id (ls_events s)) \<and>
     er_contract ` set (ls_events s) \<subseteq> fst ` set (ls_contracts s) \<and>
     distinct (map sr_contract (ls_indexing s)) \<and> sr_contract ` set (ls_indexing s) \<subseteq> fst ` set (ls_contracts s) \<and>
     sorted_wrt (<) (map kr_id (ls_keypairs s)) \<and> kr_account ` set (ls_keypairs s) \<subseteq> fst ` set (ls_accounts s)"

definition known :: "local_store \<Rightarrow> string list \<Rightarrow> bool" where
  "known s es \<longleftrightarrow> set es \<subseteq> er_id ` set (ls_events s)"

definition chain_ok :: "local_store \<Rightarrow> bool" where
  "chain_ok s \<longleftrightarrow>
     sorted_wrt (<) (map nr_id (ls_nullifiers s)) \<and> distinct (map nr_nullifier (ls_nullifiers s)) \<and>
     distinct (map nr_event (ls_nullifiers s)) \<and> known s (map nr_event (ls_nullifiers s)) \<and>
     sorted_wrt (<) (map cr_id (ls_commitments s)) \<and> distinct (map cr_commitment (ls_commitments s)) \<and>
     distinct (map cr_event (ls_commitments s)) \<and> known s (map cr_event (ls_commitments s)) \<and>
     (\<forall>r \<in> set (ls_nullifiers s). 0 < nr_id r) \<and> (\<forall>r \<in> set (ls_commitments s). 0 < cr_id r) \<and>
     distinct (map pr_event (ls_public_keys s)) \<and> known s (map pr_event (ls_public_keys s)) \<and>
     distinct (map lr_leaf_index (ls_asp_leaves s)) \<and> distinct (map lr_event (ls_asp_leaves s)) \<and>
     known s (map lr_event (ls_asp_leaves s))"

lemma event_of_known: "event_of s e = None \<longleftrightarrow> e \<notin> er_id ` set (ls_events s)"
  by (simp add: event_of_def find_key_None)

lemma event_of_row: "events_ok s \<Longrightarrow> r \<in> set (ls_events s) \<Longrightarrow> event_of s (er_id r) = Some r"
  by (simp add: event_of_def events_ok_def find_Some_unique)

lemma names_ok_add: "names_ok rows \<Longrightarrow> a \<notin> snd ` set rows \<Longrightarrow> names_ok (rows @ [(next_id (map fst rows), a)])"
  using next_id_fresh [of "map fst rows"] by (auto simp: names_ok_def)

lemma events_ok_contracts:
  "events_ok s \<Longrightarrow> names_ok (ls_contracts s @ cs) \<Longrightarrow> events_ok (s\<lparr>ls_contracts := ls_contracts s @ cs\<rparr>)"
  unfolding events_ok_def by (simp add: image_Un le_supI1)

lemma events_ok_accounts:
  "events_ok s \<Longrightarrow> names_ok (ls_accounts s @ rows) \<Longrightarrow> events_ok (s\<lparr>ls_accounts := ls_accounts s @ rows\<rparr>)"
  unfolding events_ok_def by (simp add: image_Un le_supI1)

lemma get_or_create_contract_id_cases:
  assumes "get_or_create_contract_id a s = (i, s')"
  obtains "s' = s" "(i, a) \<in> set (ls_contracts s)"
    | "a \<notin> snd ` set (ls_contracts s)" "i = next_id (map fst (ls_contracts s))" "s' = s\<lparr>ls_contracts := ls_contracts s @ [(i, a)]\<rparr>"
proof (cases "address_id (ls_contracts s) a")
  case None
  then have "a \<notin> snd ` set (ls_contracts s)" by (rule iffD1 [OF address_id_None])
  then show thesis using assms that(2) None by (auto simp: get_or_create_contract_id_def Let_def)
next
  case (Some k)
  then show thesis using assms that(1) by (auto simp: get_or_create_contract_id_def dest: address_id_Some)
qed

lemma get_or_create_account_cases:
  assumes "get_or_create_account a s = (i, s')"
  obtains "s' = s" "(i, a) \<in> set (ls_accounts s)"
    | "a \<notin> snd ` set (ls_accounts s)" "i = next_id (map fst (ls_accounts s))" "s' = s\<lparr>ls_accounts := ls_accounts s @ [(i, a)]\<rparr>"
proof (cases "address_id (ls_accounts s) a")
  case None
  then have "a \<notin> snd ` set (ls_accounts s)" by (rule iffD1 [OF address_id_None])
  then show thesis using assms that(2) None by (auto simp: get_or_create_account_def Let_def)
next
  case (Some k)
  then show thesis using assms that(1) by (auto simp: get_or_create_account_def dest: address_id_Some)
qed

lemma get_or_create_contract_id_ok:
  assumes "events_ok s" "get_or_create_contract_id a s = (i, s')"
  shows "events_ok s' \<and> (i, a) \<in> set (ls_contracts s') \<and> (\<exists>more. s' = s\<lparr>ls_contracts := ls_contracts s @ more\<rparr>)"
  using assms(2)
proof (cases rule: get_or_create_contract_id_cases)
  case 1
  then show ?thesis using assms(1) by (auto intro: exI [of _ "[]"])
next
  case 2
  have "names_ok (ls_contracts s)" using assms(1) by (simp add: events_ok_def)
  then have "names_ok (ls_contracts s @ [(i, a)])" using 2 names_ok_add by blast
  then show ?thesis using 2 events_ok_contracts [OF assms(1)] by auto
qed

lemma get_or_create_account_ok:
  assumes "events_ok s" "get_or_create_account a s = (i, s')"
  shows "events_ok s' \<and> (i, a) \<in> set (ls_accounts s') \<and> (\<exists>more. s' = s\<lparr>ls_accounts := ls_accounts s @ more\<rparr>)"
  using assms(2)
proof (cases rule: get_or_create_account_cases)
  case 1
  then show ?thesis using assms(1) by (auto intro: exI [of _ "[]"])
next
  case 2
  have "names_ok (ls_accounts s)" using assms(1) by (simp add: events_ok_def)
  then have "names_ok (ls_accounts s @ [(i, a)])" using 2 names_ok_add by blast
  then show ?thesis using 2 events_ok_accounts [OF assms(1)] by auto
qed

text \<open>Saving events extends the tables of contracts and events and touches nothing else.\<close>

definition extends :: "local_store \<Rightarrow> local_store \<Rightarrow> bool" where
  "extends s s' \<longleftrightarrow> (\<exists>cs es. s' = s\<lparr>ls_contracts := ls_contracts s @ cs, ls_events := ls_events s @ es\<rparr>)"

lemma extends_refl: "extends s s"
  unfolding extends_def by (intro exI [of _ "[]"]) simp

lemma extends_trans:
  assumes "extends s t" "extends t u"
  shows "extends s u"
proof -
  obtain cs es cs' es' where "t = s\<lparr>ls_contracts := ls_contracts s @ cs, ls_events := ls_events s @ es\<rparr>"
    "u = t\<lparr>ls_contracts := ls_contracts t @ cs', ls_events := ls_events t @ es'\<rparr>" using assms unfolding extends_def by blast
  then have "u = s\<lparr>ls_contracts := ls_contracts s @ (cs @ cs'), ls_events := ls_events s @ (es @ es')\<rparr>" by simp
  then show ?thesis unfolding extends_def by blast
qed

lemma extends_contract: "extends s (s\<lparr>ls_contracts := ls_contracts s @ cs\<rparr>)"
  unfolding extends_def by (intro exI [of _ cs] exI [of _ "[]"]) simp

lemma extends_event: "extends s (s\<lparr>ls_events := ls_events s @ es\<rparr>)"
  unfolding extends_def by (intro exI [of _ "[]"] exI [of _ es]) simp

lemma extends_event_of: "extends s s' \<Longrightarrow> event_of s e = Some r \<Longrightarrow> event_of s' e = Some r"
  by (auto simp: extends_def event_of_def find_append_Some)

lemma save_event_ok:
  assumes "events_ok s" "get_or_create_contract_id (cv_contract_id e) s = (c, t)"
  defines "u \<equiv> (if cv_id e \<in> er_id ` set (ls_events t) then t
    else t\<lparr>ls_events := ls_events t @ [\<lparr>er_id = cv_id e, er_ledger = cv_ledger e, er_contract = c,
      er_topics = join_comma (cv_topics e), er_value = cv_value e\<rparr>]\<rparr>)"
  shows "events_ok u \<and> extends s u"
proof
  have t: "events_ok t" "(c, cv_contract_id e) \<in> set (ls_contracts t)" and st: "extends s t"
    using get_or_create_contract_id_ok [OF assms(1,2)] extends_contract by auto
  have "c \<in> fst ` set (ls_contracts t)" using t(2) by force
  then show "events_ok u" using t(1) unfolding u_def events_ok_def by simp
  show "extends s u" unfolding u_def using st extends_event extends_trans by auto
qed

lemma save_events_batch_Cons:
  "save_events_batch (e # es) s = (case get_or_create_contract_id (cv_contract_id e) s of (c, t) \<Rightarrow>
     save_events_batch es (if cv_id e \<in> er_id ` set (ls_events t) then t
       else t\<lparr>ls_events := ls_events t @ [\<lparr>er_id = cv_id e, er_ledger = cv_ledger e, er_contract = c,
         er_topics = join_comma (cv_topics e), er_value = cv_value e\<rparr>]\<rparr>))"
  by (simp add: Let_def split: prod.splits)

lemma save_events_batch_ok: "events_ok s \<Longrightarrow> events_ok (save_events_batch es s) \<and> extends s (save_events_batch es s)"
proof (induction es arbitrary: s)
  case Nil
  then show ?case by (simp add: extends_refl)
next
  case (Cons e es)
  obtain c t where t: "get_or_create_contract_id (cv_contract_id e) s = (c, t)" by fastforce
  show ?case unfolding save_events_batch_Cons t prod.case
    using save_event_ok [OF Cons.prems t] Cons.IH extends_trans by blast
qed

lemma known_extends: "known s es \<Longrightarrow> extends s s' \<Longrightarrow> known s' es"
  by (auto simp: known_def extends_def)

lemma extends_tables:
  assumes "extends s s'"
  shows "ls_nullifiers s' = ls_nullifiers s" "ls_commitments s' = ls_commitments s" "ls_public_keys s' = ls_public_keys s"
    "ls_asp_leaves s' = ls_asp_leaves s" "ls_user_notes s' = ls_user_notes s" "ls_commitment_scan s' = ls_commitment_scan s"
    "ls_nullifier_scan s' = ls_nullifier_scan s" "ls_accounts s' = ls_accounts s" "ls_keypairs s' = ls_keypairs s"
  using assms by (auto simp: extends_def)

lemma chain_ok_extends:
  assumes "chain_ok s" "extends s s'"
  shows "chain_ok s'"
proof -
  have "\<And>es. known s es \<Longrightarrow> known s' es" using known_extends assms(2) by blast
  then show ?thesis using assms(1) unfolding chain_ok_def extends_tables [OF assms(2)] by blast
qed

section \<open>Saving chain events\<close>

lemma references_Inr: "references e used s = Inr u \<longleftrightarrow> e \<notin> set used \<and> event_of s e \<noteq> None"
  by (auto simp: references_def andThen_Inr guard_Inr)

text \<open>Each batch appends rows with new keys and references to known events.\<close>

lemma save_nullifier_events_ok:
  assumes "chain_ok s" "save_nullifier_events_batch es s = Inr s'"
  shows "chain_ok s' \<and> (\<exists>rows. s' = s\<lparr>ls_nullifiers := ls_nullifiers s @ rows\<rparr> \<and>
    set rows \<subseteq> {r. \<exists>e \<in> set es. nr_nullifier r = ne_nullifier e \<and> nr_event r = ne_id e} \<and>
    (\<forall>r \<in> set rows. \<forall>r' \<in> set (ls_nullifiers s). nr_id r' < nr_id r) \<and>
    ne_nullifier ` set es \<subseteq> nr_nullifier ` set (ls_nullifiers s'))"
  using assms
proof (induction es arbitrary: s)
  case Nil
  then show ?case by (auto intro: exI [of _ "[]"])
next
  case (Cons e es)
  show ?case
  proof (cases "ne_nullifier e \<in> nr_nullifier ` set (ls_nullifiers s)")
    case True
    then have "save_nullifier_events_batch es s = Inr s'" using Cons.prems(2) by simp
    from Cons.IH [OF Cons.prems(1) this] show ?thesis using True by fastforce
  next
    case False
    let ?row = "\<lparr>nr_id = next_id (map nr_id (ls_nullifiers s)), nr_nullifier = ne_nullifier e, nr_event = ne_id e\<rparr>"
    let ?t = "s\<lparr>ls_nullifiers := ls_nullifiers s @ [?row]\<rparr>"
    have new: "ne_id e \<notin> set (map nr_event (ls_nullifiers s))" "event_of s (ne_id e) \<noteq> None"
      and run: "save_nullifier_events_batch es ?t = Inr s'"
      using Cons.prems(2) False by (auto simp: andThen_Inr references_Inr)
    have "chain_ok ?t" using Cons.prems(1) False new sorted_next_id [of "map nr_id (ls_nullifiers s)"]
      by (simp add: chain_ok_def known_def event_of_known)
    from Cons.IH [OF this run] obtain rows where r: "chain_ok s'" "s' = ?t\<lparr>ls_nullifiers := ls_nullifiers ?t @ rows\<rparr>"
      "set rows \<subseteq> {r. \<exists>e \<in> set es. nr_nullifier r = ne_nullifier e \<and> nr_event r = ne_id e}"
      "\<forall>r \<in> set rows. \<forall>r' \<in> set (ls_nullifiers ?t). nr_id r' < nr_id r" "ne_nullifier ` set es \<subseteq> nr_nullifier ` set (ls_nullifiers s')"
      by blast
    have "\<forall>r' \<in> set (ls_nullifiers s). nr_id r' < nr_id ?row" using next_id_greater [of _ "map nr_id (ls_nullifiers s)"] by simp
    then show ?thesis using r by (intro conjI exI [of _ "?row # rows"]) auto
  qed
qed

lemma save_commitment_events_ok:
  assumes "chain_ok s" "save_commitment_events_batch es s = Inr s'"
  shows "chain_ok s' \<and> (\<exists>rows. s' = s\<lparr>ls_commitments := ls_commitments s @ rows\<rparr> \<and>
    set rows \<subseteq> {r. \<exists>e \<in> set es. cr_commitment r = me_commitment e \<and> cr_leaf_index r = me_index e \<and>
      cr_encrypted_output r = me_encrypted_output e \<and> cr_event r = me_id e} \<and>
    (\<forall>r \<in> set rows. \<forall>r' \<in> set (ls_commitments s). cr_id r' < cr_id r) \<and>
    me_commitment ` set es \<subseteq> cr_commitment ` set (ls_commitments s'))"
  using assms
proof (induction es arbitrary: s)
  case Nil
  then show ?case by (auto intro: exI [of _ "[]"])
next
  case (Cons e es)
  show ?case
  proof (cases "me_commitment e \<in> cr_commitment ` set (ls_commitments s)")
    case True
    then have "save_commitment_events_batch es s = Inr s'" using Cons.prems(2) by simp
    from Cons.IH [OF Cons.prems(1) this] show ?thesis using True by fastforce
  next
    case False
    let ?row = "\<lparr>cr_id = next_id (map cr_id (ls_commitments s)), cr_commitment = me_commitment e, cr_leaf_index = me_index e,
      cr_encrypted_output = me_encrypted_output e, cr_event = me_id e\<rparr>"
    let ?t = "s\<lparr>ls_commitments := ls_commitments s @ [?row]\<rparr>"
    have new: "me_id e \<notin> set (map cr_event (ls_commitments s))" "event_of s (me_id e) \<noteq> None"
      and run: "save_commitment_events_batch es ?t = Inr s'"
      using Cons.prems(2) False by (auto simp: andThen_Inr references_Inr)
    have "chain_ok ?t" using Cons.prems(1) False new sorted_next_id [of "map cr_id (ls_commitments s)"]
      by (simp add: chain_ok_def known_def event_of_known)
    from Cons.IH [OF this run] obtain rows where r: "chain_ok s'" "s' = ?t\<lparr>ls_commitments := ls_commitments ?t @ rows\<rparr>"
      "set rows \<subseteq> {r. \<exists>e \<in> set es. cr_commitment r = me_commitment e \<and> cr_leaf_index r = me_index e \<and>
        cr_encrypted_output r = me_encrypted_output e \<and> cr_event r = me_id e}"
      "\<forall>r \<in> set rows. \<forall>r' \<in> set (ls_commitments ?t). cr_id r' < cr_id r" "me_commitment ` set es \<subseteq> cr_commitment ` set (ls_commitments s')"
      by blast
    have "\<forall>r' \<in> set (ls_commitments s). cr_id r' < cr_id ?row" using next_id_greater [of _ "map cr_id (ls_commitments s)"] by simp
    then show ?thesis using r by (intro conjI exI [of _ "?row # rows"]) auto
  qed
qed

lemma save_public_key_events_ok:
  assumes "chain_ok s" "save_public_key_events_batch es s = Inr s'"
  shows "chain_ok s' \<and> (\<exists>rows. s' = s\<lparr>ls_public_keys := ls_public_keys s @ rows\<rparr> \<and>
    set rows \<subseteq> {r. \<exists>e \<in> set es. pr_owner r = ke_owner e \<and> pr_encryption_key r = ke_encryption_key e \<and> pr_note_key r = ke_note_key e \<and> pr_event r = ke_id e})"
  using assms
proof (induction es arbitrary: s)
  case Nil
  then show ?case by (auto intro: exI [of _ "[]"])
next
  case (Cons e es)
  show ?case
  proof (cases "ke_id e \<in> pr_event ` set (ls_public_keys s)")
    case True
    then have "save_public_key_events_batch es s = Inr s'" using Cons.prems(2) by simp
    from Cons.IH [OF Cons.prems(1) this] show ?thesis by fastforce
  next
    case False
    let ?t = "s\<lparr>ls_public_keys := ls_public_keys s @
      [\<lparr>pr_owner = ke_owner e, pr_encryption_key = ke_encryption_key e, pr_note_key = ke_note_key e, pr_event = ke_id e\<rparr>]\<rparr>"
    have new: "event_of s (ke_id e) \<noteq> None" and run: "save_public_key_events_batch es ?t = Inr s'"
      using Cons.prems(2) False by (auto simp: andThen_Inr references_Inr)
    have "chain_ok ?t" using Cons.prems(1) False new by (simp add: chain_ok_def known_def event_of_known)
    from Cons.IH [OF this run] obtain rows where r: "chain_ok s'" "s' = ?t\<lparr>ls_public_keys := ls_public_keys ?t @ rows\<rparr>"
      "set rows \<subseteq> {r. \<exists>e \<in> set es. pr_owner r = ke_owner e \<and> pr_encryption_key r = ke_encryption_key e \<and> pr_note_key r = ke_note_key e \<and> pr_event r = ke_id e}" by blast
    then show ?thesis by (intro conjI exI [of _ "[\<lparr>pr_owner = ke_owner e, pr_encryption_key = ke_encryption_key e, pr_note_key = ke_note_key e, pr_event = ke_id e\<rparr>] @ rows"]) auto
  qed
qed

lemma save_leaf_added_events_ok:
  assumes "chain_ok s" "save_leaf_added_events_batch es s = Inr s'"
  shows "chain_ok s' \<and> (\<exists>rows. s' = s\<lparr>ls_asp_leaves := ls_asp_leaves s @ rows\<rparr> \<and>
    set rows \<subseteq> {r. \<exists>e \<in> set es. lr_leaf_index r = le_index e \<and> lr_leaf r = le_leaf e \<and> lr_root r = le_root e \<and> lr_event r = le_id e})"
  using assms
proof (induction es arbitrary: s)
  case Nil
  then show ?case by (auto intro: exI [of _ "[]"])
next
  case (Cons e es)
  show ?case
  proof (cases "le_index e \<in> lr_leaf_index ` set (ls_asp_leaves s)")
    case True
    then have "save_leaf_added_events_batch es s = Inr s'" using Cons.prems(2) by simp
    from Cons.IH [OF Cons.prems(1) this] show ?thesis by fastforce
  next
    case False
    let ?t = "s\<lparr>ls_asp_leaves := ls_asp_leaves s @
      [\<lparr>lr_leaf_index = le_index e, lr_leaf = le_leaf e, lr_root = le_root e, lr_event = le_id e\<rparr>]\<rparr>"
    have new: "le_id e \<notin> set (map lr_event (ls_asp_leaves s))" "event_of s (le_id e) \<noteq> None"
      and run: "save_leaf_added_events_batch es ?t = Inr s'"
      using Cons.prems(2) False by (auto simp: andThen_Inr references_Inr)
    have "chain_ok ?t" using Cons.prems(1) False new by (simp add: chain_ok_def known_def event_of_known)
    from Cons.IH [OF this run] obtain rows where r: "chain_ok s'" "s' = ?t\<lparr>ls_asp_leaves := ls_asp_leaves ?t @ rows\<rparr>"
      "set rows \<subseteq> {r. \<exists>e \<in> set es. lr_leaf_index r = le_index e \<and> lr_leaf r = le_leaf e \<and> lr_root r = le_root e \<and> lr_event r = le_id e}" by blast
    then show ?thesis by (intro conjI exI [of _ "[\<lparr>lr_leaf_index = le_index e, lr_leaf = le_leaf e, lr_root = le_root e, lr_event = le_id e\<rparr>] @ rows"]) auto
  qed
qed

section \<open>Leaves\<close>

fun index_seq :: "u32 \<Rightarrow> nat \<Rightarrow> u32 list" where
  "index_seq k 0 = []"
| "index_seq k (Suc n) = k # index_seq (k + 1) n"

lemma index_seq_nth: "i < n \<Longrightarrow> index_seq k n ! i = k + word_of_nat i"
  by (induction n arbitrary: k i) (auto simp: nth_Cons algebra_simps split: nat.splits)

lemma length_index_seq [simp]: "length (index_seq k n) = n"
  by (induction n arbitrary: k) simp_all

lemma index_seq_0: "index_seq 0 n = map word_of_nat [0..<n]"
  by (rule nth_equalityI) (simp_all add: index_seq_nth)

lemma check_ordered_Inr:
  "check_ordered k rows = Inr leaves \<longleftrightarrow>
    map fst rows = index_seq k (length rows) \<and> leaves = map snd rows \<and> unat k + length rows < 2 ^ 32"
proof (induction rows arbitrary: k leaves)
  case Nil
  then show ?case using unsigned_less [of k, where ?'a = nat] by auto
next
  case (Cons row rows)
  obtain idx leaf where row: "row = (idx, leaf)" by fastforce
  show ?case
  proof (cases "unat k + 1 < 2 ^ 32")
    case True
    then have k1: "checked_add k 1 = Some (k + 1)" "unat (k + 1) = Suc (unat k)"
      by (simp_all add: checked_add_unat unat_word_ariths)
    show ?thesis unfolding row check_ordered.simps k1(1) by (auto simp: andThen_Inr guard_Inr Cons.IH k1(2))
  next
    case False
    then have "checked_add k 1 = None" by (simp add: checked_add_unat)
    then show ?thesis using False unfolding row check_ordered.simps by (auto simp: andThen_Inr)
  qed
qed

lemma same_assoc:
  "map fst xs = map fst ys \<Longrightarrow> distinct (map fst xs) \<Longrightarrow> set xs = set ys \<Longrightarrow> xs = ys"
proof (induction xs arbitrary: ys)
  case (Cons x xs)
  then obtain y zs where ys: "ys = y # zs" "fst y = fst x" "map fst xs = map fst zs" by (cases ys) auto
  have eq: "fst ` set xs = fst ` set zs" using arg_cong [OF ys(3), of set] by (simp only: set_map)
  have out: "fst x \<notin> fst ` set xs" using Cons.prems(2) by simp
  then have out': "fst y \<notin> fst ` set zs" using eq ys(2) by metis
  have "x \<in> insert y (set zs)" using Cons.prems(3) ys(1) by auto
  then have "x = y" using out eq by auto
  moreover have "set xs = set zs" using Cons.prems(3) ys(1) out out' \<open>x = y\<close> by (auto simp: insert_ident)
  ultimately show ?case using Cons.IH [OF ys(3)] Cons.prems(2) ys(1) by simp
qed simp

definition indexed_leaves :: "field list \<Rightarrow> (u32 \<times> field) list" where
  "indexed_leaves leaves = map (\<lambda>i. (word_of_nat i, leaves ! i)) [0..<length leaves]"

lemma indexed_leaves_zip: "indexed_leaves leaves = zip (map word_of_nat [0..<length leaves]) leaves"
  by (rule nth_equalityI) (simp_all add: indexed_leaves_def)

lemma fst_indexed: "map fst (indexed_leaves leaves) = map word_of_nat [0..<length leaves]"
  by (simp add: indexed_leaves_def)

lemma length_indexed [simp]: "length (indexed_leaves leaves) = length leaves"
  by (simp add: indexed_leaves_def)

lemma snd_indexed [simp]: "map snd (indexed_leaves leaves) = leaves"
  by (simp add: indexed_leaves_def comp_def map_nth)

lemma distinct_words: "n \<le> 2 ^ 32 \<Longrightarrow> distinct (map (word_of_nat :: nat \<Rightarrow> u32) [0..<n])"
  by (auto simp: distinct_map inj_on_def word_unat_eq_iff unat_of_nat)

lemma sorted_words: "n \<le> 2 ^ 32 \<Longrightarrow> sorted (map (word_of_nat :: nat \<Rightarrow> u32) [0..<n])"
  by (auto simp: sorted_map sorted_wrt_iff_nth_less word_le_nat_alt unat_of_nat)

text \<open>Ordered leaves are returned exactly if the indices are those of a list of leaves.\<close>

lemma check_ordered_sorted:
  "check_ordered 0 (map f (sort_key (fst \<circ> f) rows)) = Inr leaves \<longleftrightarrow>
    mset (map f rows) = mset (indexed_leaves leaves) \<and> length leaves < 2 ^ 32"
proof -
  let ?p = "map f (sort_key (fst \<circ> f) rows)"
  have ms: "mset ?p = mset (map f rows)" by simp
  have srt: "sorted (map fst ?p)" by (simp add: comp_def [symmetric])
  show ?thesis
  proof
    assume "check_ordered 0 ?p = Inr leaves"
    then have p: "map fst ?p = map word_of_nat [0..<length ?p]" "leaves = map snd ?p" "length ?p < 2 ^ 32"
      by (simp_all add: check_ordered_Inr index_seq_0)
    have "zip (map fst ?p) (map snd ?p) = zip (map word_of_nat [0..<length ?p]) leaves" by (simp only: p(1,2))
    then have "?p = indexed_leaves leaves" unfolding zip_map_fst_snd p(2)
      by (simp only: indexed_leaves_zip) (simp only: p(2) length_map)
    then show "mset (map f rows) = mset (indexed_leaves leaves) \<and> length leaves < 2 ^ 32" using ms p(2,3) by simp
  next
    assume a: "mset (map f rows) = mset (indexed_leaves leaves) \<and> length leaves < 2 ^ 32"
    have eq: "mset ?p = mset (indexed_leaves leaves)" using ms a by simp
    have "mset (map fst ?p) = mset (map fst (indexed_leaves leaves))" using arg_cong [OF eq, of "image_mset fst"] by (simp only: mset_map)
    moreover have "sorted (map fst (indexed_leaves leaves))" "distinct (map fst (indexed_leaves leaves))"
      using a by (simp_all add: fst_indexed sorted_words distinct_words)
    ultimately have m: "map fst ?p = map fst (indexed_leaves leaves)"
      using srt by (metis properties_for_sort sorted_sort_id)
    then have "?p = indexed_leaves leaves"
      using same_assoc [of ?p "indexed_leaves leaves"] \<open>distinct _\<close> mset_eq_setD [OF eq] by simp
    then show "check_ordered 0 ?p = Inr leaves"
      using a by (simp add: check_ordered_Inr fst_indexed index_seq_0 length_indexed)
  qed
qed

definition pool_rows :: "local_store \<Rightarrow> string \<Rightarrow> commitment_row list" where
  "pool_rows s pool = filter (\<lambda>r. from_contract s pool (cr_event r)) (ls_commitments s)"

lemma pool_leaves_Inr:
  "get_pool_commitment_leaves_ordered pool s = Inr leaves \<longleftrightarrow>
    mset (map (\<lambda>r. (cr_leaf_index r, cr_commitment r)) (pool_rows s pool)) = mset (indexed_leaves leaves) \<and> length leaves < 2 ^ 32"
  unfolding get_pool_commitment_leaves_ordered_def pool_rows_def
  using check_ordered_sorted [of "\<lambda>r. (cr_leaf_index r, cr_commitment r)"] unfolding comp_def fst_conv by blast

lemma asp_leaves_Inr:
  "get_all_asp_membership_leaves_ordered asp s = Inr leaves \<longleftrightarrow>
    mset (map (\<lambda>r. (lr_leaf_index r, lr_leaf r)) (filter (\<lambda>r. from_contract s asp (lr_event r)) (ls_asp_leaves s))) =
      mset (indexed_leaves leaves) \<and> length leaves < 2 ^ 32"
  unfolding get_all_asp_membership_leaves_ordered_def
  using check_ordered_sorted [of "\<lambda>r. (lr_leaf_index r, lr_leaf r)"] unfolding comp_def fst_conv by blast

end
