(* ===== verification/Events.thy ===== *)
theory Events imports LocalStore Flows begin

text \<open>
  Values of the chain and how the application reads and writes them, from
  \<^verbatim>\<open>app/crates/core/stellar/src/conversions.rs\<close>, \<^verbatim>\<open>soroban_encode.rs\<close>, \<^verbatim>\<open>ext_data_hash.rs\<close> and
  \<^verbatim>\<open>app/crates/core/state/src/events_parsers.rs\<close>.

  \<open>scval\<close> has the variants of the library type \<open>ScVal\<close> the program uses; all others are \<open>SCOther\<close>.
  The serialization of values, the text form of addresses and the hash function are not in the
  repository: they are the fields of \<open>xdr_env\<close>.
\<close>

section \<open>Values\<close>

datatype sc_address = AccountAddress "byte list" | ContractAddress "byte list" | OtherAddress nat

datatype scval =
    SCBool bool
  | SCVoid
  | SCU32 u32
  | SCU64 u64
  | SCU256 u64 u64 u64 u64
  | SCI256 u64 u64 u64 u64
  | SCBytes "byte list"
  | SCSymbol string
  | SCVec "scval list option"
  | SCMap "(scval \<times> scval) list option"
  | SCAddress sc_address
  | SCOther nat

record xdr_env =
  xe_from_base64 :: "string \<Rightarrow> scval option"
  xe_to_xdr :: "scval \<Rightarrow> byte list option"
  xe_utf8 :: "string \<Rightarrow> string option"
  xe_account_string :: "byte list \<Rightarrow> string"
  xe_contract_string :: "byte list \<Rightarrow> string"
  xe_parse_address :: "string \<Rightarrow> sc_address option"
  xe_keccak256 :: "byte list \<Rightarrow> byte list"

datatype event_error =
    UnexpectedScVal
  | XdrError
  | MissingTopic
  | MissingValue string
  | UnhandledEvent string
  | FieldError amount_error
  | KeyLength nat
  | IndexTooLarge
  | BytesTooLong
  | BadAddress
  | ProofLength nat
  | KeyTooLong

section \<open>Conversions\<close>

definition scval_to_address_string :: "xdr_env \<Rightarrow> scval \<Rightarrow> (event_error, string) outcome" where
  "scval_to_address_string env v =
     (case v of SCAddress (AccountAddress bytes) \<Rightarrow> Inr (xe_account_string env bytes)
      | SCAddress (ContractAddress bytes) \<Rightarrow> Inr (xe_contract_string env bytes)
      | _ \<Rightarrow> Inl (Fail UnexpectedScVal))"

definition scval_to_bytes :: "scval \<Rightarrow> (event_error, byte list) outcome" where
  "scval_to_bytes v = (case v of SCBytes bs \<Rightarrow> Inr bs | _ \<Rightarrow> Inl (Fail UnexpectedScVal))"

definition field_to_scval_u256 :: "field \<Rightarrow> scval" where
  "field_to_scval_u256 v =
     (let be = f_to_be_bytes v in
      SCU256 (from_be (take 8 be)) (from_be (take 8 (drop 8 be))) (from_be (take 8 (drop 16 be))) (from_be (drop 24 be)))"

definition i128_to_i256_scval :: "i128 \<Rightarrow> scval" where
  "i128_to_i256_scval n =
     (let hi = (if sint n < 0 then - 1 else 0) :: u64; bytes = to_be 16 n in
      SCI256 hi hi (from_be (take 8 bytes)) (from_be (drop 8 bytes)))"

text \<open>A byte string of a value holds at most \<open>u32::MAX\<close> bytes.\<close>

definition bytes_to_scval :: "byte list \<Rightarrow> (event_error, scval) outcome" where
  "bytes_to_scval bs = andThen (guard (length bs < 2 ^ 32) BytesTooLong) (\<lambda>_. Inr (SCBytes bs))"

definition scval_to_u256 :: "scval \<Rightarrow> (event_error, u256) outcome" where
  "scval_to_u256 v =
     (case v of SCU256 hi_hi hi_lo lo_hi lo_lo \<Rightarrow>
        let out = push_bit 192 (ucast hi_hi) in
        andThen (ok_or UnexpectedScVal (checked_add out (push_bit 128 (ucast hi_lo)))) (\<lambda>out.
        andThen (ok_or UnexpectedScVal (checked_add out (push_bit 64 (ucast lo_hi)))) (\<lambda>out.
        ok_or UnexpectedScVal (checked_add out (ucast lo_lo))))
      | _ \<Rightarrow> Inl (Fail UnexpectedScVal))"

definition scval_to_u32 :: "scval \<Rightarrow> (event_error, u32) outcome" where
  "scval_to_u32 v = (case v of SCU32 n \<Rightarrow> Inr n | _ \<Rightarrow> Inl (Fail UnexpectedScVal))"

definition scval_to_u64 :: "scval \<Rightarrow> (event_error, u64) outcome" where
  "scval_to_u64 v = (case v of SCU64 n \<Rightarrow> Inr n | _ \<Rightarrow> Inl (Fail UnexpectedScVal))"

definition scval_to_bool :: "scval \<Rightarrow> (event_error, bool) outcome" where
  "scval_to_bool v = (case v of SCBool b \<Rightarrow> Inr b | _ \<Rightarrow> Inl (Fail UnexpectedScVal))"

section \<open>Reading events\<close>

record parsed_contract_event =
  pc_id :: string
  pc_ledger :: u32
  pc_contract_id :: string
  pc_name :: string
  pc_topics :: "scval list"
  pc_values :: "string \<Rightarrow> scval option"

definition symbol_string :: "xdr_env \<Rightarrow> scval \<Rightarrow> (event_error, string) outcome" where
  "symbol_string env v = (case v of SCSymbol symbol \<Rightarrow> ok_or XdrError (xe_utf8 env symbol) | _ \<Rightarrow> Inl (Fail UnexpectedScVal))"

fun insert_values :: "xdr_env \<Rightarrow> (scval \<times> scval) list \<Rightarrow> (string \<Rightarrow> scval option) \<Rightarrow> (event_error, string \<Rightarrow> scval option) outcome" where
  "insert_values env [] values' = Inr values'"
| "insert_values env ((key, val) # entries) values' =
     andThen (symbol_string env key) (\<lambda>field_name. insert_values env entries (values'(field_name \<mapsto> val)))"

definition parse_event_metadata :: "xdr_env \<Rightarrow> contract_event \<Rightarrow> (event_error, parsed_contract_event) outcome" where
  "parse_event_metadata env event =
     (case cv_topics event of [] \<Rightarrow> Inl (Fail XdrError)
      | first # rest \<Rightarrow>
        andThen (traverse (\<lambda>t. ok_or XdrError (xe_from_base64 env t)) rest) (\<lambda>topics.
        andThen (ok_or XdrError (xe_from_base64 env first)) (\<lambda>name.
        andThen (symbol_string env name) (\<lambda>name.
        andThen (ok_or XdrError (xe_from_base64 env (cv_value event))) (\<lambda>data.
        andThen (case data of SCMap (Some entries) \<Rightarrow> insert_values env entries (\<lambda>_. None)
                 | SCVoid \<Rightarrow> Inr (\<lambda>_. None)
                 | _ \<Rightarrow> Inl (Fail UnexpectedScVal)) (\<lambda>values'.
        Inr \<lparr>pc_id = cv_id event, pc_ledger = cv_ledger event, pc_contract_id = cv_contract_id event, pc_name = name,
             pc_topics = topics, pc_values = values'\<rparr>))))))"

definition first_topic :: "parsed_contract_event \<Rightarrow> (event_error, scval) outcome" where
  "first_topic p = (case pc_topics p of [] \<Rightarrow> Inl (Fail MissingTopic) | t # _ \<Rightarrow> Inr t)"

definition event_value :: "parsed_contract_event \<Rightarrow> string \<Rightarrow> (event_error, scval) outcome" where
  "event_value p name = ok_or (MissingValue name) (pc_values p name)"

definition scval_to_field :: "scval \<Rightarrow> (event_error, field) outcome" where
  "scval_to_field v = andThen (scval_to_u256 v) (\<lambda>u. map_err FieldError (f_try_from_u256 u))"

definition byte_wrapper :: "byte list \<Rightarrow> (event_error, byte list) outcome" where
  "byte_wrapper bs = andThen (guard (length bs = 32) (KeyLength (length bs))) (\<lambda>_. Inr bs)"

record leaf_inserted_event =
  li_id :: string
  li_key :: field
  li_value :: field
  li_root :: field

record leaf_updated_event =
  lu_id :: string
  lu_key :: field
  lu_old_value :: field
  lu_new_value :: field
  lu_root :: field

record leaf_deleted_event =
  ld_id :: string
  ld_key :: field
  ld_root :: field

datatype processed_event =
    Nullifier nullifier_event
  | Commitment commitment_event
  | PublicKey key_event
  | LeafAdded leaf_event
  | LeafInserted leaf_inserted_event
  | LeafUpdated leaf_updated_event
  | LeafDeleted leaf_deleted_event

definition parse_new_nullifier_event :: "parsed_contract_event \<Rightarrow> (event_error, nullifier_event) outcome" where
  "parse_new_nullifier_event p =
     andThen (first_topic p) (\<lambda>v. andThen (scval_to_field v) (\<lambda>nullifier.
     Inr \<lparr>ne_id = pc_id p, ne_nullifier = nullifier\<rparr>))"

definition parse_new_commitment_event :: "parsed_contract_event \<Rightarrow> (event_error, commitment_event) outcome" where
  "parse_new_commitment_event p =
     andThen (first_topic p) (\<lambda>v. andThen (scval_to_field v) (\<lambda>commitment.
     andThen (event_value p ''index'') (\<lambda>v. andThen (scval_to_u32 v) (\<lambda>index.
     andThen (event_value p ''encrypted_output'') (\<lambda>v. andThen (scval_to_bytes v) (\<lambda>encrypted_output.
     Inr \<lparr>me_id = pc_id p, me_commitment = commitment, me_index = index, me_encrypted_output = encrypted_output\<rparr>))))))"

definition parse_public_key_event :: "xdr_env \<Rightarrow> parsed_contract_event \<Rightarrow> (event_error, key_event) outcome" where
  "parse_public_key_event env p =
     andThen (first_topic p) (\<lambda>v. andThen (scval_to_address_string env v) (\<lambda>owner.
     andThen (event_value p ''encryption_key'') (\<lambda>v. andThen (scval_to_bytes v) (\<lambda>b. andThen (byte_wrapper b) (\<lambda>encryption_key.
     andThen (event_value p ''note_key'') (\<lambda>v. andThen (scval_to_bytes v) (\<lambda>b. andThen (byte_wrapper b) (\<lambda>note_key.
     Inr \<lparr>ke_id = pc_id p, ke_owner = owner, ke_encryption_key = EncryptionPublicKey encryption_key,
          ke_note_key = NotePublicKey note_key\<rparr>))))))))"

definition parse_leaf_added :: "parsed_contract_event \<Rightarrow> (event_error, leaf_event) outcome" where
  "parse_leaf_added p =
     andThen (event_value p ''leaf'') (\<lambda>v. andThen (scval_to_field v) (\<lambda>leaf.
     andThen (event_value p ''index'') (\<lambda>v. andThen (scval_to_u64 v) (\<lambda>index.
     andThen (guard (unat index < 2 ^ 32) IndexTooLarge) (\<lambda>_.
     andThen (event_value p ''root'') (\<lambda>v. andThen (scval_to_field v) (\<lambda>root.
     Inr \<lparr>le_id = pc_id p, le_leaf = leaf, le_index = ucast index, le_root = root\<rparr>)))))))"

definition parse_leaf_inserted :: "parsed_contract_event \<Rightarrow> (event_error, leaf_inserted_event) outcome" where
  "parse_leaf_inserted p =
     andThen (event_value p ''key'') (\<lambda>v. andThen (scval_to_field v) (\<lambda>key.
     andThen (event_value p ''value'') (\<lambda>v. andThen (scval_to_field v) (\<lambda>val.
     andThen (event_value p ''root'') (\<lambda>v. andThen (scval_to_field v) (\<lambda>root.
     Inr \<lparr>li_id = pc_id p, li_key = key, li_value = val, li_root = root\<rparr>))))))"

definition parse_leaf_updated :: "parsed_contract_event \<Rightarrow> (event_error, leaf_updated_event) outcome" where
  "parse_leaf_updated p =
     andThen (event_value p ''key'') (\<lambda>v. andThen (scval_to_field v) (\<lambda>key.
     andThen (event_value p ''old_value'') (\<lambda>v. andThen (scval_to_field v) (\<lambda>old_value.
     andThen (event_value p ''new_value'') (\<lambda>v. andThen (scval_to_field v) (\<lambda>new_value.
     andThen (event_value p ''root'') (\<lambda>v. andThen (scval_to_field v) (\<lambda>root.
     Inr \<lparr>lu_id = pc_id p, lu_key = key, lu_old_value = old_value, lu_new_value = new_value, lu_root = root\<rparr>))))))))"

definition parse_leaf_deleted :: "parsed_contract_event \<Rightarrow> (event_error, leaf_deleted_event) outcome" where
  "parse_leaf_deleted p =
     andThen (event_value p ''key'') (\<lambda>v. andThen (scval_to_field v) (\<lambda>key.
     andThen (event_value p ''root'') (\<lambda>v. andThen (scval_to_field v) (\<lambda>root.
     Inr \<lparr>ld_id = pc_id p, ld_key = key, ld_root = root\<rparr>))))"

definition map_ok :: "('a \<Rightarrow> 'b) \<Rightarrow> ('e, 'a) outcome \<Rightarrow> ('e, 'b) outcome" where
  "map_ok f m = andThen m (\<lambda>a. Inr (f a))"

definition parse_event :: "xdr_env \<Rightarrow> contract_event \<Rightarrow> (event_error, processed_event) outcome" where
  "parse_event env event =
     andThen (parse_event_metadata env event) (\<lambda>parsed.
     let name = pc_name parsed in
     if name \<in> {''new_nullifier_event'', ''NewNullifierEvent''} then map_ok Nullifier (parse_new_nullifier_event parsed)
     else if name \<in> {''new_commitment_event'', ''NewCommitmentEvent''} then map_ok Commitment (parse_new_commitment_event parsed)
     else if name \<in> {''public_key_event'', ''PublicKeyEvent''} then map_ok PublicKey (parse_public_key_event env parsed)
     else if name \<in> {''leaf_added'', ''LeafAdded''} then map_ok LeafAdded (parse_leaf_added parsed)
     else if name \<in> {''leaf_inserted'', ''LeafInserted''} then map_ok LeafInserted (parse_leaf_inserted parsed)
     else if name \<in> {''leaf_updated'', ''LeafUpdated''} then map_ok LeafUpdated (parse_leaf_updated parsed)
     else if name \<in> {''leaf_deleted'', ''LeafDeleted''} then map_ok LeafDeleted (parse_leaf_deleted parsed)
     else Inl (Fail (UnhandledEvent name)))"

section \<open>Processing\<close>

record batches =
  ba_nullifiers :: "nullifier_event list"
  ba_commitments :: "commitment_event list"
  ba_pubkeys :: "key_event list"
  ba_leaves :: "leaf_event list"

text \<open>The loop pops the last event first; an event that does not parse is left where it is.\<close>

fun sort_events :: "xdr_env \<Rightarrow> contract_event list \<Rightarrow> batches \<Rightarrow> batches" where
  "sort_events env [] b = b"
| "sort_events env (event # rest) b =
     sort_events env rest (case parse_event env event of Inl _ \<Rightarrow> b
       | Inr (Nullifier ev) \<Rightarrow> b\<lparr>ba_nullifiers := ba_nullifiers b @ [ev]\<rparr>
       | Inr (Commitment ev) \<Rightarrow> b\<lparr>ba_commitments := ba_commitments b @ [ev]\<rparr>
       | Inr (PublicKey ev) \<Rightarrow> b\<lparr>ba_pubkeys := ba_pubkeys b @ [ev]\<rparr>
       | Inr (LeafAdded ev) \<Rightarrow> b\<lparr>ba_leaves := ba_leaves b @ [ev]\<rparr>
       | Inr _ \<Rightarrow> b)"

text \<open>
  A call that runs several transactions returns the state it leaves and its result; a transaction that
  fails leaves the state it found.
\<close>

definition commit :: "(local_store \<Rightarrow> (store_error, local_store) outcome) \<Rightarrow>
    (local_store \<Rightarrow> local_store \<times> (store_error, 'a) outcome) \<Rightarrow> local_store \<Rightarrow> local_store \<times> (store_error, 'a) outcome" where
  "commit t k s = (case t s of Inl e \<Rightarrow> (s, Inl e) | Inr s' \<Rightarrow> k s')"

definition process_events :: "xdr_env \<Rightarrow> nat \<Rightarrow> local_store \<Rightarrow> local_store \<times> (store_error, bool) outcome" where
  "process_events env limit s =
     (let unprocessed = get_unprocessed_events limit s in
      if unprocessed = [] then (s, Inr False)
      else let b = sort_events env (rev unprocessed) \<lparr>ba_nullifiers = [], ba_commitments = [], ba_pubkeys = [], ba_leaves = []\<rparr> in
        commit (save_nullifier_events_batch (ba_nullifiers b))
        (commit (save_commitment_events_batch (ba_commitments b))
        (commit (save_public_key_events_batch (ba_pubkeys b))
        (commit (save_leaf_added_events_batch (ba_leaves b))
        (\<lambda>s. (s, Inr True))))) s)"

section \<open>Writing calls\<close>

text \<open>A symbol key has at most 32 bytes; a map has at most \<open>u32::MAX\<close> entries.\<close>

definition map_entry :: "string \<Rightarrow> scval \<Rightarrow> (event_error, scval \<times> scval) outcome" where
  "map_entry key val = andThen (guard (length key \<le> 32) KeyTooLong) (\<lambda>_. Inr (SCSymbol key, val))"

definition symbol_key :: "scval \<times> scval \<Rightarrow> string" where
  "symbol_key e = (case fst e of SCSymbol k \<Rightarrow> k | _ \<Rightarrow> '''')"

definition sorted_map :: "(scval \<times> scval) list \<Rightarrow> (event_error, scval) outcome" where
  "sorted_map entries = andThen (guard (length entries < 2 ^ 32) BytesTooLong) (\<lambda>_. Inr (SCMap (Some (sort_key symbol_key entries))))"

definition groth16_proof_to_scval :: "byte list \<Rightarrow> (event_error, scval) outcome" where
  "groth16_proof_to_scval proof_uncompressed =
     (if length proof_uncompressed \<noteq> 256 then Inl (Fail (ProofLength (length proof_uncompressed)))
      else
        andThen (bytes_to_scval (take 64 proof_uncompressed)) (\<lambda>a. andThen (map_entry ''a'' a) (\<lambda>a.
        andThen (bytes_to_scval (take 128 (drop 64 proof_uncompressed))) (\<lambda>b. andThen (map_entry ''b'' b) (\<lambda>b.
        andThen (bytes_to_scval (drop 192 proof_uncompressed)) (\<lambda>c. andThen (map_entry ''c'' c) (\<lambda>c.
        sorted_map [a, b, c])))))))"

definition pool_proof_to_scval ::
  "byte list \<Rightarrow> field \<Rightarrow> field list \<Rightarrow> field \<Rightarrow> field \<Rightarrow> field \<Rightarrow> byte list \<Rightarrow> field \<Rightarrow> field \<Rightarrow> (event_error, scval) outcome" where
  "pool_proof_to_scval proof_uncompressed root input_nullifiers output_commitment0 output_commitment1 public_amount
       ext_data_hash_be asp_membership_root asp_non_membership_root =
     andThen (guard (length input_nullifiers < 2 ^ 32) BytesTooLong) (\<lambda>_.
     let nullifiers = map field_to_scval_u256 input_nullifiers in
     andThen (map_entry ''asp_membership_root'' (field_to_scval_u256 asp_membership_root)) (\<lambda>e1.
     andThen (map_entry ''asp_non_membership_root'' (field_to_scval_u256 asp_non_membership_root)) (\<lambda>e2.
     andThen (bytes_to_scval ext_data_hash_be) (\<lambda>h. andThen (map_entry ''ext_data_hash'' h) (\<lambda>e3.
     andThen (map_entry ''input_nullifiers'' (SCVec (Some nullifiers))) (\<lambda>e4.
     andThen (map_entry ''output_commitment0'' (field_to_scval_u256 output_commitment0)) (\<lambda>e5.
     andThen (map_entry ''output_commitment1'' (field_to_scval_u256 output_commitment1)) (\<lambda>e6.
     andThen (groth16_proof_to_scval proof_uncompressed) (\<lambda>p. andThen (map_entry ''proof'' p) (\<lambda>e7.
     andThen (map_entry ''public_amount'' (field_to_scval_u256 public_amount)) (\<lambda>e8.
     andThen (map_entry ''root'' (field_to_scval_u256 root)) (\<lambda>e9.
     sorted_map [e1, e2, e3, e4, e5, e6, e7, e8, e9]))))))))))))"

definition pool_ext_data_to_scval :: "xdr_env \<Rightarrow> client_ext_data \<Rightarrow> (event_error, scval) outcome" where
  "pool_ext_data_to_scval env ext =
     andThen (bytes_to_scval (ce_encrypted_output0 ext)) (\<lambda>v. andThen (map_entry ''encrypted_output0'' v) (\<lambda>e1.
     andThen (bytes_to_scval (ce_encrypted_output1 ext)) (\<lambda>v. andThen (map_entry ''encrypted_output1'' v) (\<lambda>e2.
     andThen (map_entry ''ext_amount'' (i128_to_i256_scval (ea_val (ce_ext_amount ext)))) (\<lambda>e3.
     andThen (ok_or BadAddress (xe_parse_address env (ce_recipient ext))) (\<lambda>a. andThen (map_entry ''recipient'' (SCAddress a)) (\<lambda>e4.
     sorted_map [e1, e2, e3, e4])))))))"

definition register_account_to_scval :: "xdr_env \<Rightarrow> string \<Rightarrow> byte list \<Rightarrow> byte list \<Rightarrow> (event_error, scval) outcome" where
  "register_account_to_scval env owner encryption_key note_key =
     andThen (bytes_to_scval encryption_key) (\<lambda>v. andThen (map_entry ''encryption_key'' v) (\<lambda>e1.
     andThen (bytes_to_scval note_key) (\<lambda>v. andThen (map_entry ''note_key'' v) (\<lambda>e2.
     andThen (ok_or BadAddress (xe_parse_address env owner)) (\<lambda>a. andThen (map_entry ''owner'' (SCAddress a)) (\<lambda>e3.
     sorted_map [e1, e2, e3]))))))"

definition hash_ext_data_offchain :: "xdr_env \<Rightarrow> client_ext_data \<Rightarrow> (event_error, byte list) outcome" where
  "hash_ext_data_offchain env ext =
     andThen (bytes_to_scval (ce_encrypted_output0 ext)) (\<lambda>v0.
     andThen (bytes_to_scval (ce_encrypted_output1 ext)) (\<lambda>v1.
     andThen (ok_or BadAddress (xe_parse_address env (ce_recipient ext))) (\<lambda>a.
     let entries = sort_key fst [(''encrypted_output0'', v0), (''encrypted_output1'', v1),
           (''ext_amount'', i128_to_i256_scval (ea_val (ce_ext_amount ext))), (''recipient'', SCAddress a)] in
     andThen (traverse (\<lambda>(k, v). map_entry k v) entries) (\<lambda>map_entries.
     andThen (ok_or XdrError (xe_to_xdr env (SCMap (Some map_entries)))) (\<lambda>payload.
     let digest = xe_keccak256 env payload in
     if length digest \<noteq> 32 then Inl Panic
     else
       let digest_u256 = from_be digest; modulus = from_be BN254_MODULUS_BE; reduced = digest_u256 mod modulus :: u256 in
       Inr (to_be 32 reduced))))))"

section \<open>Reading events keeps their ids\<close>

lemma metadata_id: "parse_event_metadata env e = Inr p \<Longrightarrow> pc_id p = cv_id e"
  by (auto simp: parse_event_metadata_def andThen_Inr split: list.splits)

lemma map_ok_Inr: "map_ok f m = Inr y \<longleftrightarrow> (\<exists>x. m = Inr x \<and> y = f x)"
  by (auto simp: map_ok_def andThen_Inr)

fun processed_id :: "processed_event \<Rightarrow> string" where
  "processed_id (Nullifier ev) = ne_id ev"
| "processed_id (Commitment ev) = me_id ev"
| "processed_id (PublicKey ev) = ke_id ev"
| "processed_id (LeafAdded ev) = le_id ev"
| "processed_id (LeafInserted ev) = li_id ev"
| "processed_id (LeafUpdated ev) = lu_id ev"
| "processed_id (LeafDeleted ev) = ld_id ev"

lemma parse_event_id:
  assumes "parse_event env e = Inr ev"
  shows "processed_id ev = cv_id e"
proof -
  obtain p where p: "parse_event_metadata env e = Inr p" using assms by (auto simp: parse_event_def andThen_Inr)
  have ids: "\<And>x. parse_new_nullifier_event p = Inr x \<Longrightarrow> ne_id x = pc_id p" "\<And>x. parse_new_commitment_event p = Inr x \<Longrightarrow> me_id x = pc_id p"
    "\<And>x. parse_public_key_event env p = Inr x \<Longrightarrow> ke_id x = pc_id p" "\<And>x. parse_leaf_added p = Inr x \<Longrightarrow> le_id x = pc_id p"
    "\<And>x. parse_leaf_inserted p = Inr x \<Longrightarrow> li_id x = pc_id p" "\<And>x. parse_leaf_updated p = Inr x \<Longrightarrow> lu_id x = pc_id p"
    "\<And>x. parse_leaf_deleted p = Inr x \<Longrightarrow> ld_id x = pc_id p"
    by (auto simp: parse_new_nullifier_event_def parse_new_commitment_event_def parse_public_key_event_def parse_leaf_added_def
      parse_leaf_inserted_def parse_leaf_updated_def parse_leaf_deleted_def andThen_Inr)
  show ?thesis using assms p metadata_id [OF p] by (auto simp: parse_event_def Let_def map_ok_Inr ids split: if_splits)
qed

section \<open>Batches\<close>

definition nullifiers_in :: "xdr_env \<Rightarrow> contract_event list \<Rightarrow> nullifier_event list" where
  "nullifiers_in env es = concat (map (\<lambda>e. case parse_event env e of Inr (Nullifier ev) \<Rightarrow> [ev] | _ \<Rightarrow> []) es)"

definition commitments_in :: "xdr_env \<Rightarrow> contract_event list \<Rightarrow> commitment_event list" where
  "commitments_in env es = concat (map (\<lambda>e. case parse_event env e of Inr (Commitment ev) \<Rightarrow> [ev] | _ \<Rightarrow> []) es)"

definition public_keys_in :: "xdr_env \<Rightarrow> contract_event list \<Rightarrow> key_event list" where
  "public_keys_in env es = concat (map (\<lambda>e. case parse_event env e of Inr (PublicKey ev) \<Rightarrow> [ev] | _ \<Rightarrow> []) es)"

definition leaves_in :: "xdr_env \<Rightarrow> contract_event list \<Rightarrow> leaf_event list" where
  "leaves_in env es = concat (map (\<lambda>e. case parse_event env e of Inr (LeafAdded ev) \<Rightarrow> [ev] | _ \<Rightarrow> []) es)"

lemmas batches_in_defs = nullifiers_in_def commitments_in_def public_keys_in_def leaves_in_def

lemma sort_events_eq:
  "sort_events env es b = \<lparr>ba_nullifiers = ba_nullifiers b @ nullifiers_in env es, ba_commitments = ba_commitments b @ commitments_in env es,
     ba_pubkeys = ba_pubkeys b @ public_keys_in env es, ba_leaves = ba_leaves b @ leaves_in env es\<rparr>"
proof (induction es arbitrary: b)
  case (Cons e es)
  show ?case unfolding sort_events.simps Cons.IH
    by (cases "parse_event env e"; simp add: batches_in_defs; cases "projr (parse_event env e)"; simp)
qed (simp add: batches_in_defs)

lemma in_batches:
  "ev \<in> set (nullifiers_in env es) \<longleftrightarrow> (\<exists>e \<in> set es. parse_event env e = Inr (Nullifier ev))"
  "cm \<in> set (commitments_in env es) \<longleftrightarrow> (\<exists>e \<in> set es. parse_event env e = Inr (Commitment cm))"
  "pk \<in> set (public_keys_in env es) \<longleftrightarrow> (\<exists>e \<in> set es. parse_event env e = Inr (PublicKey pk))"
  "lf \<in> set (leaves_in env es) \<longleftrightarrow> (\<exists>e \<in> set es. parse_event env e = Inr (LeafAdded lf))"
  by (auto simp: batches_in_defs split: sum.splits processed_event.splits) metis+

lemma process_events_batches:
  "process_events env limit s = (let es = rev (get_unprocessed_events limit s) in
     if es = [] then (s, Inr False)
     else commit (save_nullifier_events_batch (nullifiers_in env es))
       (commit (save_commitment_events_batch (commitments_in env es))
       (commit (save_public_key_events_batch (public_keys_in env es))
       (commit (save_leaf_added_events_batch (leaves_in env es)) (\<lambda>s. (s, Inr True))))) s)"
  by (simp add: process_events_def sort_events_eq Let_def)

section \<open>Parsed fields are canonical\<close>

lemma scval_to_field_canonical: "scval_to_field v = Inr f \<Longrightarrow> f_canonical f"
  by (auto simp: scval_to_field_def andThen_Inr map_err_Inr f_try_from_u256_def f_canonical_def split: if_splits)

fun event_canonical :: "processed_event \<Rightarrow> bool" where
  "event_canonical (Nullifier n) = f_canonical (ne_nullifier n)"
| "event_canonical (Commitment c) = f_canonical (me_commitment c)"
| "event_canonical (LeafAdded l) = (f_canonical (le_leaf l) \<and> f_canonical (le_root l))"
| "event_canonical _ = True"

lemma parse_event_canonical:
  assumes "parse_event env e = Inr ev"
  shows "event_canonical ev"
proof -
  obtain p where p: "parse_event_metadata env e = Inr p" using assms by (auto simp: parse_event_def andThen_Inr)
  have c: "\<And>x. parse_new_nullifier_event p = Inr x \<Longrightarrow> f_canonical (ne_nullifier x)"
    "\<And>x. parse_new_commitment_event p = Inr x \<Longrightarrow> f_canonical (me_commitment x)"
    "\<And>x. parse_leaf_added p = Inr x \<Longrightarrow> f_canonical (le_leaf x) \<and> f_canonical (le_root x)"
    by (auto simp: parse_new_nullifier_event_def parse_new_commitment_event_def parse_leaf_added_def andThen_Inr dest: scval_to_field_canonical)
  show ?thesis using assms p by (auto simp: parse_event_def Let_def map_ok_Inr c split: if_splits)
qed

lemma parsed_canonical:
  "\<forall>n \<in> set (nullifiers_in env es). f_canonical (ne_nullifier n)"
  "\<forall>c \<in> set (commitments_in env es). f_canonical (me_commitment c)"
  "\<forall>l \<in> set (leaves_in env es). f_canonical (le_leaf l) \<and> f_canonical (le_root l)"
  by (auto simp: in_batches dest!: parse_event_canonical)

end
