(* ===== verification/NoteScan.thy ===== *)
theory NoteScan imports LocalStore begin

text \<open>
  The two scans that turn chain events into the notes of the local accounts, from
  \<^verbatim>\<open>app/crates/core/state/src/storage.rs\<close> (\<open>scan_commitments_for_user_notes\<close>,
  \<open>reconcile_nullifiers\<close>) and \<open>process_notes\<close> of \<^verbatim>\<open>processor.rs\<close>.

  The closure that decrypts an output is an argument, as in the source. A scan runs one transaction for
  each pool: when one fails, the transactions before it stay committed.
\<close>

section \<open>The scans\<close>

record account_keys =
  ak_account_id :: nat
  ak_note_keypair :: note_key_pair
  ak_encryption_keypair :: encryption_key_pair
  ak_membership_blinding :: field

type_synonym derive_fn = "account_keys \<Rightarrow> commitment_row \<Rightarrow> (prover_error, derived_user_note option) outcome"

definition get_accounts_with_latest_keypairs :: "local_store \<Rightarrow> account_keys list" where
  "get_accounts_with_latest_keypairs s = concat (map (\<lambda>a. case latest_keypair s a of None \<Rightarrow> []
     | Some k \<Rightarrow> [\<lparr>ak_account_id = a, ak_note_keypair = kr_note k, ak_encryption_keypair = kr_encryption k,
                  ak_membership_blinding = kr_membership_blinding k\<rparr>]) (sort (map fst (ls_accounts s))))"

text \<open>The distinct contracts, in ascending order, that published the events \<open>es\<close>.\<close>

definition pools_of :: "local_store \<Rightarrow> string list \<Rightarrow> nat list" where
  "pools_of s es = sort (remdups (concat (map (\<lambda>e. case contract_of s e of None \<Rightarrow> [] | Some c \<Rightarrow> [c]) es)))"

fun add_remainder :: "nat \<Rightarrow> nat \<Rightarrow> nat list \<Rightarrow> nat list" where
  "add_remainder 0 next_pool quotas = quotas"
| "add_remainder (Suc remainder) next_pool quotas =
     add_remainder remainder ((next_pool + 1) mod length quotas) (quotas[next_pool := quotas ! next_pool + 1])"

definition pool_quotas :: "nat \<Rightarrow> nat \<Rightarrow> nat list" where
  "pool_quotas total_limit pool_count =
     (let base_quota = (if pool_count = 0 then 0 else if pool_count \<le> total_limit then total_limit div pool_count else 1);
          assigned = min (base_quota * pool_count) (2 ^ 32 - 1) in
      add_remainder (total_limit - assigned) 0 (replicate pool_count base_quota))"

definition ACCOUNT_CHUNK :: nat where "ACCOUNT_CHUNK = 4"

text \<open>\<open>INSERT OR IGNORE INTO user_notes\<close>: a row that repeats a key is dropped.\<close>

definition insert_user_note :: "user_note_row \<Rightarrow> local_store \<Rightarrow> local_store" where
  "insert_user_note n s =
     (if ur_id n \<in> ur_id ` set (ls_user_notes s) \<or> ur_commitment_id n \<in> ur_commitment_id ` set (ls_user_notes s) \<or>
         (ur_nullifier_id n \<noteq> None \<and> ur_nullifier_id n \<in> ur_nullifier_id ` set (ls_user_notes s))
      then s else s\<lparr>ls_user_notes := ls_user_notes s @ [n]\<rparr>)"

definition find_nullifier :: "local_store \<Rightarrow> nat \<Rightarrow> field \<Rightarrow> nat option" where
  "find_nullifier s pool nullifier =
     map_option nr_id (find (\<lambda>r. contract_of s (nr_event r) = Some pool \<and> nr_nullifier r = nullifier) (ls_nullifiers s))"

fun scan_rows :: "derive_fn \<Rightarrow> nat \<Rightarrow> account_keys \<Rightarrow> commitment_row list \<Rightarrow> nat \<Rightarrow> local_store \<Rightarrow> (store_error, local_store \<times> nat) outcome" where
  "scan_rows derive pool account [] max_scanned_id s = Inr (s, max_scanned_id)"
| "scan_rows derive pool account (row # rows) max_scanned_id s =
     (let max_scanned_id = (if max_scanned_id < cr_id row then cr_id row else max_scanned_id) in
      andThen (map_err NoteError (derive account row)) (\<lambda>derived.
      case derived of None \<Rightarrow> scan_rows derive pool account rows max_scanned_id s
      | Some derived \<Rightarrow>
        scan_rows derive pool account rows max_scanned_id (insert_user_note
          \<lparr>ur_id = cr_commitment row, ur_account = ak_account_id account, ur_commitment_id = cr_id row,
           ur_nullifier_id = find_nullifier s pool (dn_expected_nullifier derived),
           ur_expected_nullifier = dn_expected_nullifier derived, ur_blinding = dn_blinding derived,
           ur_amount = dn_amount derived\<rparr> s)))"

definition unscanned :: "local_store \<Rightarrow> nat \<Rightarrow> nat \<Rightarrow> commitment_row list" where
  "unscanned s pool last_commitment_id =
     sort_key cr_id (filter (\<lambda>c. contract_of s (cr_event c) = Some pool \<and> last_commitment_id < cr_id c) (ls_commitments s))"

definition scan_mark :: "local_store \<Rightarrow> nat \<Rightarrow> nat \<Rightarrow> nat" where
  "scan_mark s pool account = (case ls_commitment_scan s (pool, account) of Some m \<Rightarrow> m | None \<Rightarrow> 0)"

text \<open>The rows one account reads in one turn, and one turn of every account; the result also says what is left of the quota
  and whether a row was read.\<close>

definition next_rows :: "local_store \<Rightarrow> nat \<Rightarrow> nat \<Rightarrow> nat \<Rightarrow> commitment_row list" where
  "next_rows s pool account pool_quota = take (min pool_quota ACCOUNT_CHUNK) (unscanned s pool (scan_mark s pool account))"

fun account_cycle :: "derive_fn \<Rightarrow> nat \<Rightarrow> account_keys list \<Rightarrow> nat \<Rightarrow> bool \<Rightarrow> local_store \<Rightarrow>
    (store_error, local_store \<times> nat \<times> bool) outcome" where
  "account_cycle derive pool [] pool_quota progressed s = Inr (s, pool_quota, progressed)"
| "account_cycle derive pool (account # accounts) pool_quota progressed s =
     (if pool_quota = 0 then Inr (s, pool_quota, progressed)
      else if next_rows s pool (ak_account_id account) pool_quota = [] then account_cycle derive pool accounts pool_quota progressed s
      else
        andThen (scan_rows derive pool account (next_rows s pool (ak_account_id account) pool_quota)
            (scan_mark s pool (ak_account_id account)) s) (\<lambda>r.
        account_cycle derive pool accounts (pool_quota - length (next_rows s pool (ak_account_id account) pool_quota)) True
          ((fst r)\<lparr>ls_commitment_scan := (ls_commitment_scan (fst r))((pool, ak_account_id account) \<mapsto> snd r)\<rparr>)))"

lemma account_cycle_quota:
  "account_cycle derive pool accounts q p s = Inr (s', q', p') \<Longrightarrow> q' \<le> q \<and> (p' \<longrightarrow> p \<or> q' < q)"
proof (induction accounts arbitrary: q p s)
  case (Cons account accounts)
  consider (out) "q = 0" | (none) "0 < q" "next_rows s pool (ak_account_id account) q = []"
    | (rows) "0 < q" "next_rows s pool (ak_account_id account) q \<noteq> []" by auto
  then show ?case
  proof cases
    case rows
    then obtain t where "account_cycle derive pool accounts (q - length (next_rows s pool (ak_account_id account) q)) True t = Inr (s', q', p')"
      using Cons.prems by (auto simp: andThen_Inr)
    from Cons.IH [OF this] have "q' \<le> q - length (next_rows s pool (ak_account_id account) q)" by blast
    moreover have "0 < length (next_rows s pool (ak_account_id account) q)" using rows(2) by simp
    ultimately show ?thesis using rows(1) by linarith
  qed (use Cons in auto)
qed auto

function pool_loop :: "derive_fn \<Rightarrow> nat \<Rightarrow> account_keys list \<Rightarrow> nat \<Rightarrow> bool \<Rightarrow> local_store \<Rightarrow> (store_error, local_store \<times> bool) outcome" where
  "pool_loop derive pool accounts pool_quota did_progress s =
     (if pool_quota = 0 then Inr (s, did_progress)
      else andThen (account_cycle derive pool accounts pool_quota False s) (\<lambda>r.
        if snd (snd r) then pool_loop derive pool accounts (fst (snd r)) True (fst r) else Inr (fst r, did_progress)))"
  by pat_completeness auto
termination
  by (relation "measure (\<lambda>(_, _, _, q, _, _). q)") (auto dest!: account_cycle_quota)

declare pool_loop.simps [simp del]

definition start_scan :: "nat \<Rightarrow> account_keys list \<Rightarrow> local_store \<Rightarrow> local_store" where
  "start_scan pool accounts s = s\<lparr>ls_commitment_scan := (\<lambda>k.
     if ls_commitment_scan s k = None \<and> fst k = pool \<and> snd k \<in> ak_account_id ` set accounts then Some 0 else ls_commitment_scan s k)\<rparr>"

fun scan_pools :: "derive_fn \<Rightarrow> account_keys list \<Rightarrow> (nat \<times> nat) list \<Rightarrow> bool \<Rightarrow> local_store \<Rightarrow> local_store \<times> (store_error, bool) outcome" where
  "scan_pools derive accounts [] did_any_progress s = (s, Inr did_any_progress)"
| "scan_pools derive accounts ((pool, pool_quota) # pools) did_any_progress s =
     (if pool_quota = 0 then scan_pools derive accounts pools did_any_progress s
      else case pool_loop derive pool accounts pool_quota False (start_scan pool accounts s) of
        Inl e \<Rightarrow> (s, Inl e)
      | Inr (s', did_progress) \<Rightarrow> scan_pools derive accounts pools (did_any_progress \<or> did_progress) s')"

definition scan_commitments_for_user_notes :: "derive_fn \<Rightarrow> nat \<Rightarrow> local_store \<Rightarrow> local_store \<times> (store_error, bool) outcome" where
  "scan_commitments_for_user_notes derive total_limit s =
     (let accounts = get_accounts_with_latest_keypairs s in
      if accounts = [] \<or> total_limit = 0 then (s, Inr False)
      else
        let pool_ids = pools_of s (map cr_event (ls_commitments s)) in
        if pool_ids = [] then (s, Inr False)
        else if 2 ^ 32 \<le> length pool_ids then (s, Inl (Fail PoolCount))
        else scan_pools derive accounts (zip pool_ids (pool_quotas total_limit (length pool_ids))) False s)"

text \<open>The update of the notes an on-chain nullifier spends; a second note with its id violates a key.\<close>

definition spends_note :: "local_store \<Rightarrow> nat \<Rightarrow> field \<Rightarrow> user_note_row \<Rightarrow> bool" where
  "spends_note s pool nullifier n \<longleftrightarrow>
     ur_nullifier_id n = None \<and> ur_expected_nullifier n = nullifier \<and> note_contract s n = Some pool"

definition mark_notes :: "nat \<Rightarrow> nat \<Rightarrow> field \<Rightarrow> local_store \<Rightarrow> (store_error, local_store) outcome" where
  "mark_notes pool nullifier_id nullifier s =
     (let hit = filter (spends_note s pool nullifier) (ls_user_notes s) in
      andThen (guard (hit = [] \<or> (length hit = 1 \<and> Some nullifier_id \<notin> ur_nullifier_id ` set (ls_user_notes s))) UniqueViolation) (\<lambda>_.
      Inr (s\<lparr>ls_user_notes := map (\<lambda>n. if spends_note s pool nullifier n then n\<lparr>ur_nullifier_id := Some nullifier_id\<rparr> else n) (ls_user_notes s)\<rparr>)))"

fun reconcile_rows :: "nat \<Rightarrow> nullifier_row list \<Rightarrow> nat \<Rightarrow> local_store \<Rightarrow> (store_error, local_store \<times> nat) outcome" where
  "reconcile_rows pool [] max_id s = Inr (s, max_id)"
| "reconcile_rows pool (r # rs) max_id s =
     (let max_id = (if max_id < nr_id r then nr_id r else max_id) in
      andThen (mark_notes pool (nr_id r) (nr_nullifier r) s) (\<lambda>s. reconcile_rows pool rs max_id s))"

definition nullifier_mark :: "local_store \<Rightarrow> nat \<Rightarrow> nat" where
  "nullifier_mark s pool = (case ls_nullifier_scan s pool of Some m \<Rightarrow> m | None \<Rightarrow> 0)"

definition pending :: "local_store \<Rightarrow> nat \<Rightarrow> nullifier_row list" where
  "pending s pool = sort_key nr_id (filter (\<lambda>n. contract_of s (nr_event n) = Some pool \<and> nullifier_mark s pool < nr_id n) (ls_nullifiers s))"

definition reconcile_pool :: "nat \<Rightarrow> nat \<Rightarrow> local_store \<Rightarrow> (store_error, local_store \<times> bool) outcome" where
  "reconcile_pool pool limit s =
     (let last_nullifier_id = nullifier_mark s pool; nullifiers = take limit (pending s pool);
          s = s\<lparr>ls_nullifier_scan := (ls_nullifier_scan s)(pool \<mapsto> last_nullifier_id)\<rparr> in
      andThen (reconcile_rows pool nullifiers last_nullifier_id s) (\<lambda>(s, max_id).
      Inr (if last_nullifier_id < max_id then s\<lparr>ls_nullifier_scan := (ls_nullifier_scan s)(pool \<mapsto> max_id)\<rparr> else s,
           nullifiers \<noteq> [])))"

fun reconcile_pools :: "nat \<Rightarrow> nat list \<Rightarrow> bool \<Rightarrow> local_store \<Rightarrow> local_store \<times> (store_error, bool) outcome" where
  "reconcile_pools limit [] did_any s = (s, Inr did_any)"
| "reconcile_pools limit (pool # pools) did_any s =
     (case reconcile_pool pool limit s of Inl e \<Rightarrow> (s, Inl e)
      | Inr (s', did) \<Rightarrow> reconcile_pools limit pools (did_any \<or> did) s')"

definition reconcile_nullifiers :: "nat \<Rightarrow> local_store \<Rightarrow> local_store \<times> (store_error, bool) outcome" where
  "reconcile_nullifiers limit s =
     (if limit = 0 then (s, Inr False)
      else reconcile_pools limit (pools_of s (map nr_event (ls_nullifiers s))) False s)"

definition process_notes :: "derive_fn \<Rightarrow> nat \<Rightarrow> local_store \<Rightarrow> local_store \<times> (store_error, bool) outcome" where
  "process_notes derive limit s =
     (case scan_commitments_for_user_notes derive limit s of (s, Inl e) \<Rightarrow> (s, Inl e)
      | (s, Inr did_scan) \<Rightarrow>
        (case reconcile_nullifiers limit s of (s, Inl e) \<Rightarrow> (s, Inl e)
         | (s, Inr did_reconcile) \<Rightarrow> (s, Inr (did_scan \<or> did_reconcile))))"

section \<open>What the scans read\<close>

text \<open>The scans change the notes and the marks only.\<close>

lemma scan_reads [simp]:
  "event_of (s\<lparr>ls_user_notes := x\<rparr>) = event_of s" "event_of (s\<lparr>ls_commitment_scan := y\<rparr>) = event_of s"
  "event_of (s\<lparr>ls_nullifier_scan := z\<rparr>) = event_of s"
  "contract_of (s\<lparr>ls_user_notes := x\<rparr>) = contract_of s" "contract_of (s\<lparr>ls_commitment_scan := y\<rparr>) = contract_of s"
  "contract_of (s\<lparr>ls_nullifier_scan := z\<rparr>) = contract_of s"
  "note_contract (s\<lparr>ls_user_notes := x\<rparr>) = note_contract s" "note_contract (s\<lparr>ls_commitment_scan := y\<rparr>) = note_contract s"
  "note_contract (s\<lparr>ls_nullifier_scan := z\<rparr>) = note_contract s"
  "find_nullifier (s\<lparr>ls_user_notes := x\<rparr>) = find_nullifier s" "find_nullifier (s\<lparr>ls_commitment_scan := y\<rparr>) = find_nullifier s"
  "unscanned (s\<lparr>ls_user_notes := x\<rparr>) = unscanned s" "unscanned (s\<lparr>ls_commitment_scan := y\<rparr>) = unscanned s"
  "unscanned (s\<lparr>ls_nullifier_scan := z\<rparr>) = unscanned s"
  "scan_mark (s\<lparr>ls_user_notes := x\<rparr>) = scan_mark s" "scan_mark (s\<lparr>ls_nullifier_scan := z\<rparr>) = scan_mark s"
  "nullifier_mark (s\<lparr>ls_user_notes := x\<rparr>) = nullifier_mark s" "nullifier_mark (s\<lparr>ls_commitment_scan := y\<rparr>) = nullifier_mark s"
  "pending (s\<lparr>ls_user_notes := x\<rparr>) = pending s" "pending (s\<lparr>ls_commitment_scan := y\<rparr>) = pending s"
  by (simp_all add: fun_eq_iff event_of_def contract_of_def note_contract_def find_nullifier_def unscanned_def scan_mark_def
    nullifier_mark_def pending_def cong: option.case_cong)

definition same_chain :: "local_store \<Rightarrow> local_store \<Rightarrow> bool" where
  "same_chain s s' \<longleftrightarrow> (\<exists>x y z. s' = s\<lparr>ls_user_notes := x, ls_commitment_scan := y, ls_nullifier_scan := z\<rparr>)"

lemma same_chain_refl: "same_chain s s"
  unfolding same_chain_def by (intro exI [of _ "ls_user_notes s"] exI [of _ "ls_commitment_scan s"] exI [of _ "ls_nullifier_scan s"]) simp

lemma same_chain_trans:
  assumes "same_chain s t" "same_chain t u"
  shows "same_chain s u"
proof -
  obtain x y z x' y' z' where "t = s\<lparr>ls_user_notes := x, ls_commitment_scan := y, ls_nullifier_scan := z\<rparr>"
    "u = t\<lparr>ls_user_notes := x', ls_commitment_scan := y', ls_nullifier_scan := z'\<rparr>" using assms unfolding same_chain_def by blast
  then have "u = s\<lparr>ls_user_notes := x', ls_commitment_scan := y', ls_nullifier_scan := z'\<rparr>" by simp
  then show ?thesis unfolding same_chain_def by blast
qed

lemma same_chain_notes [simp]: "same_chain s (s\<lparr>ls_user_notes := x\<rparr>)"
  unfolding same_chain_def by (rule exI [of _ x], rule exI [of _ "ls_commitment_scan s"], rule exI [of _ "ls_nullifier_scan s"], cases s, simp)

lemma same_chain_scan [simp]: "same_chain s (s\<lparr>ls_commitment_scan := y\<rparr>)"
  unfolding same_chain_def by (rule exI [of _ "ls_user_notes s"], rule exI [of _ y], rule exI [of _ "ls_nullifier_scan s"], cases s, simp)

lemma same_chain_nullifier_scan [simp]: "same_chain s (s\<lparr>ls_nullifier_scan := z\<rparr>)"
  unfolding same_chain_def by (rule exI [of _ "ls_user_notes s"], rule exI [of _ "ls_commitment_scan s"], rule exI [of _ z], cases s, simp)

lemma same_chain_reads:
  assumes "same_chain s s'"
  shows "ls_contracts s' = ls_contracts s" "ls_accounts s' = ls_accounts s" "ls_keypairs s' = ls_keypairs s" "ls_events s' = ls_events s"
    "ls_nullifiers s' = ls_nullifiers s" "ls_commitments s' = ls_commitments s" "event_of s' = event_of s" "contract_of s' = contract_of s"
    "note_contract s' = note_contract s" "find_nullifier s' = find_nullifier s" "unscanned s' = unscanned s"
    "ls_public_keys s' = ls_public_keys s" "ls_asp_leaves s' = ls_asp_leaves s" "ls_indexing s' = ls_indexing s"
proof -
  have f: "find_nullifier (s\<lparr>ls_nullifier_scan := z\<rparr>) = find_nullifier s" for z s by (simp add: fun_eq_iff find_nullifier_def)
  show "ls_contracts s' = ls_contracts s" "ls_accounts s' = ls_accounts s" "ls_keypairs s' = ls_keypairs s" "ls_events s' = ls_events s"
    "ls_nullifiers s' = ls_nullifiers s" "ls_commitments s' = ls_commitments s" "event_of s' = event_of s" "contract_of s' = contract_of s"
    "note_contract s' = note_contract s" "find_nullifier s' = find_nullifier s" "unscanned s' = unscanned s"
    "ls_public_keys s' = ls_public_keys s" "ls_asp_leaves s' = ls_asp_leaves s" "ls_indexing s' = ls_indexing s"
    using assms unfolding same_chain_def by (auto simp: f)
qed

lemma same_chain_ok: "same_chain s s' \<Longrightarrow> chain_ok s' = chain_ok s" "same_chain s s' \<Longrightarrow> events_ok s' = events_ok s"
  by (simp_all add: chain_ok_def events_ok_def known_def same_chain_reads)

lemma latest_keypair_same: "ls_keypairs s' = ls_keypairs s \<Longrightarrow> latest_keypair s' = latest_keypair s"
  by (simp add: fun_eq_iff latest_keypair_def)

lemma accounts_same:
  assumes "same_chain s s'"
  shows "get_accounts_with_latest_keypairs s' = get_accounts_with_latest_keypairs s"
  unfolding get_accounts_with_latest_keypairs_def same_chain_reads(2) [OF assms] latest_keypair_same [OF same_chain_reads(3) [OF assms]] ..

section \<open>The invariant of the notes\<close>

text \<open>
  A note belongs to a stored commitment. It counts as spent exactly by a stored nullifier of its pool that is
  its own, and it does so when reconciliation has passed that nullifier.
\<close>

definition note_ok :: "local_store \<Rightarrow> user_note_row \<Rightarrow> bool" where
  "note_ok s n \<longleftrightarrow>
     (\<exists>c \<in> set (ls_commitments s). cr_id c = ur_commitment_id n \<and> cr_commitment c = ur_id n) \<and>
     (\<forall>i. ur_nullifier_id n = Some i \<longrightarrow> (\<exists>r \<in> set (ls_nullifiers s). nr_id r = i \<and> nr_nullifier r = ur_expected_nullifier n \<and>
        contract_of s (nr_event r) = note_contract s n)) \<and>
     (\<forall>r \<in> set (ls_nullifiers s). \<forall>p. contract_of s (nr_event r) = Some p \<longrightarrow> note_contract s n = Some p \<longrightarrow>
        nr_nullifier r = ur_expected_nullifier n \<longrightarrow> nr_id r \<le> nullifier_mark s p \<longrightarrow> ur_nullifier_id n = Some (nr_id r))"

lemma note_ok_spent:
  "note_ok s n \<Longrightarrow> ur_nullifier_id n = Some i \<Longrightarrow>
    \<exists>r \<in> set (ls_nullifiers s). nr_id r = i \<and> nr_nullifier r = ur_expected_nullifier n \<and> contract_of s (nr_event r) = note_contract s n"
  by (simp add: note_ok_def)

definition spent_once :: "user_note_row list \<Rightarrow> bool" where
  "spent_once ns \<longleftrightarrow> (\<forall>i. length (filter (\<lambda>n. ur_nullifier_id n = Some i) ns) \<le> 1)"

definition notes_ok :: "local_store \<Rightarrow> bool" where
  "notes_ok s \<longleftrightarrow> (\<forall>n \<in> set (ls_user_notes s). note_ok s n) \<and>
     distinct (map ur_id (ls_user_notes s)) \<and> distinct (map ur_commitment_id (ls_user_notes s)) \<and> spent_once (ls_user_notes s)"

definition marks_ok :: "local_store \<Rightarrow> bool" where
  "marks_ok s \<longleftrightarrow> (\<forall>p m. ls_nullifier_scan s p = Some m \<longrightarrow> m < next_id (map nr_id (ls_nullifiers s))) \<and>
     (\<forall>k m. ls_commitment_scan s k = Some m \<longrightarrow> m < next_id (map cr_id (ls_commitments s)))"

text \<open>Every note is one the closure derived with stored keys of its account.\<close>

definition keyed :: "local_store \<Rightarrow> account_keys \<Rightarrow> bool" where
  "keyed s a \<longleftrightarrow> (\<exists>k \<in> set (ls_keypairs s). kr_account k = ak_account_id a \<and> kr_note k = ak_note_keypair a \<and>
     kr_encryption k = ak_encryption_keypair a)"

definition note_derived :: "derive_fn \<Rightarrow> local_store \<Rightarrow> user_note_row \<Rightarrow> bool" where
  "note_derived derive s n \<longleftrightarrow> (\<exists>a c d. keyed s a \<and> ak_account_id a = ur_account n \<and> c \<in> set (ls_commitments s) \<and> cr_id c = ur_commitment_id n \<and>
     derive a c = Inr (Some d) \<and> ur_amount n = dn_amount d \<and> ur_blinding n = dn_blinding d \<and> ur_expected_nullifier n = dn_expected_nullifier d)"

definition notes_derived :: "derive_fn \<Rightarrow> local_store \<Rightarrow> bool" where
  "notes_derived derive s \<longleftrightarrow> (\<forall>n \<in> set (ls_user_notes s). note_derived derive s n)"

lemma unscanned_set: "c \<in> set (unscanned s p m) \<longleftrightarrow> c \<in> set (ls_commitments s) \<and> contract_of s (cr_event c) = Some p \<and> m < cr_id c"
  by (auto simp: unscanned_def)

lemma pending_set: "r \<in> set (pending s p) \<longleftrightarrow> r \<in> set (ls_nullifiers s) \<and> contract_of s (nr_event r) = Some p \<and> nullifier_mark s p < nr_id r"
  by (auto simp: pending_def)

lemma commitment_id_unique: "chain_ok s \<Longrightarrow> c \<in> set (ls_commitments s) \<Longrightarrow> c' \<in> set (ls_commitments s) \<Longrightarrow> cr_id c = cr_id c' \<Longrightarrow> c = c'"
  by (auto simp: chain_ok_def strict_sorted_iff distinct_map dest: inj_onD)

lemma commitment_unique: "chain_ok s \<Longrightarrow> c \<in> set (ls_commitments s) \<Longrightarrow> c' \<in> set (ls_commitments s) \<Longrightarrow> cr_commitment c = cr_commitment c' \<Longrightarrow> c = c'"
  by (auto simp: chain_ok_def distinct_map dest: inj_onD)

lemma nullifier_id_unique: "chain_ok s \<Longrightarrow> r \<in> set (ls_nullifiers s) \<Longrightarrow> r' \<in> set (ls_nullifiers s) \<Longrightarrow> nr_id r = nr_id r' \<Longrightarrow> r = r'"
  by (auto simp: chain_ok_def strict_sorted_iff distinct_map dest: inj_onD)

lemma nullifier_unique: "chain_ok s \<Longrightarrow> r \<in> set (ls_nullifiers s) \<Longrightarrow> r' \<in> set (ls_nullifiers s) \<Longrightarrow> nr_nullifier r = nr_nullifier r' \<Longrightarrow> r = r'"
  by (auto simp: chain_ok_def distinct_map dest: inj_onD)

lemma note_contract_row:
  assumes "chain_ok s" "c \<in> set (ls_commitments s)" "ur_commitment_id n = cr_id c"
  shows "note_contract s n = contract_of s (cr_event c)"
proof -
  have "distinct (map cr_id (ls_commitments s))" using assms(1) by (simp add: chain_ok_def strict_sorted_iff)
  then show ?thesis using assms(2,3) by (simp add: note_contract_def find_Some_unique)
qed

lemma find_nullifier_Some:
  "find_nullifier s p x = Some i \<Longrightarrow> \<exists>r \<in> set (ls_nullifiers s). nr_id r = i \<and> nr_nullifier r = x \<and> contract_of s (nr_event r) = Some p"
  by (auto simp: find_nullifier_def find_Some_iff)

lemma find_nullifier_row:
  assumes "chain_ok s" "r \<in> set (ls_nullifiers s)" "contract_of s (nr_event r) = Some p"
  shows "find_nullifier s p (nr_nullifier r) = Some (nr_id r)"
proof -
  have "find (\<lambda>r'. contract_of s (nr_event r') = Some p \<and> nr_nullifier r' = nr_nullifier r) (ls_nullifiers s) \<noteq> None"
    using assms(2,3) by (auto simp: find_None_iff)
  then obtain i where i: "find_nullifier s p (nr_nullifier r) = Some i" by (auto simp: find_nullifier_def)
  then show ?thesis using find_nullifier_Some [OF i] nullifier_unique [OF assms(1) _ assms(2)] by auto
qed

text \<open>The new row of a note.\<close>

definition new_note :: "local_store \<Rightarrow> nat \<Rightarrow> account_keys \<Rightarrow> commitment_row \<Rightarrow> derived_user_note \<Rightarrow> user_note_row" where
  "new_note s pool account row derived =
     \<lparr>ur_id = cr_commitment row, ur_account = ak_account_id account, ur_commitment_id = cr_id row,
      ur_nullifier_id = find_nullifier s pool (dn_expected_nullifier derived),
      ur_expected_nullifier = dn_expected_nullifier derived, ur_blinding = dn_blinding derived, ur_amount = dn_amount derived\<rparr>"

lemma new_note_ok:
  assumes "chain_ok s" "row \<in> set (ls_commitments s)" "contract_of s (cr_event row) = Some pool"
  shows "note_ok s (new_note s pool account row d)"
proof -
  let ?n = "new_note s pool account row d"
  have nc: "note_contract s ?n = Some pool" using note_contract_row [OF assms(1,2)] assms(3) by (simp add: new_note_def)
  show ?thesis unfolding note_ok_def
  proof (intro conjI allI ballI impI)
    show "\<exists>c \<in> set (ls_commitments s). cr_id c = ur_commitment_id ?n \<and> cr_commitment c = ur_id ?n"
      using assms(2) by (auto simp: new_note_def)
    show "\<exists>r \<in> set (ls_nullifiers s). nr_id r = i \<and> nr_nullifier r = ur_expected_nullifier ?n \<and> contract_of s (nr_event r) = note_contract s ?n"
      if "ur_nullifier_id ?n = Some i" for i
      using that find_nullifier_Some [of s pool "dn_expected_nullifier d" i] unfolding nc by (simp add: new_note_def)
    show "ur_nullifier_id ?n = Some (nr_id r)"
      if "r \<in> set (ls_nullifiers s)" "contract_of s (nr_event r) = Some p" "note_contract s ?n = Some p" "nr_nullifier r = ur_expected_nullifier ?n" for r p
      using that find_nullifier_row [OF assms(1) that(1)] unfolding nc by (simp add: new_note_def)
  qed
qed

lemma note_ok_insert: "note_ok (s\<lparr>ls_user_notes := x\<rparr>) n = note_ok s n" "note_ok (s\<lparr>ls_commitment_scan := y\<rparr>) n = note_ok s n"
  by (simp_all add: note_ok_def)

lemma spent_once_snoc:
  assumes "spent_once ns" "ur_nullifier_id n = None \<or> ur_nullifier_id n \<notin> ur_nullifier_id ` set ns"
  shows "spent_once (ns @ [n])"
  unfolding spent_once_def
proof
  fix i
  show "length (filter (\<lambda>n. ur_nullifier_id n = Some i) (ns @ [n])) \<le> 1"
  proof (cases "ur_nullifier_id n = Some i")
    case True
    then have "filter (\<lambda>n. ur_nullifier_id n = Some i) ns = []" using assms(2) by (force simp: filter_empty_conv)
    then show ?thesis by simp
  qed (use assms(1) in \<open>simp add: spent_once_def\<close>)
qed

lemma insert_user_note_ok:
  assumes "notes_ok s" "note_ok s n"
  shows "notes_ok (insert_user_note n s)"
  using assms unfolding insert_user_note_def notes_ok_def
  by (auto simp: note_ok_insert intro!: spent_once_snoc)

lemma insert_user_note_cases:
  obtains (id) n' where "n' \<in> set (ls_user_notes s)" "ur_id n' = ur_id n"
    | (commitment) n' where "n' \<in> set (ls_user_notes s)" "ur_commitment_id n' = ur_commitment_id n"
    | (nullifier) n' i where "n' \<in> set (ls_user_notes s)" "ur_nullifier_id n' = Some i" "ur_nullifier_id n = Some i"
    | (fresh) "insert_user_note n s = s\<lparr>ls_user_notes := ls_user_notes s @ [n]\<rparr>"
proof (cases "ur_id n \<in> ur_id ` set (ls_user_notes s) \<or> ur_commitment_id n \<in> ur_commitment_id ` set (ls_user_notes s)")
  case True
  then show thesis using id commitment by (metis imageE)
next
  case keys: False
  show thesis
  proof (cases "ur_nullifier_id n \<noteq> None \<and> ur_nullifier_id n \<in> ur_nullifier_id ` set (ls_user_notes s)")
    case True
    then obtain i n' where "ur_nullifier_id n = Some i" "n' \<in> set (ls_user_notes s)" "ur_nullifier_id n' = Some i"
      by (metis imageE not_None_eq)
    then show thesis using nullifier by blast
  next
    case False
    then have "insert_user_note n s = s\<lparr>ls_user_notes := ls_user_notes s @ [n]\<rparr>" using keys by (auto simp: insert_user_note_def)
    then show thesis by (rule fresh)
  qed
qed

text \<open>An ignored note repeats the commitment or the nullifier of a note that is there.\<close>

lemma insert_user_note_covers:
  assumes "chain_ok s" "notes_ok s" "row \<in> set (ls_commitments s)"
  shows "\<exists>n \<in> set (ls_user_notes (insert_user_note (new_note s pool account row d) s)).
    ur_commitment_id n = cr_id row \<or> ur_expected_nullifier n = dn_expected_nullifier d"
proof -
  let ?n = "new_note s pool account row d"
  consider (id) n where "n \<in> set (ls_user_notes s)" "ur_id n = ur_id ?n"
    | (commitment) n where "n \<in> set (ls_user_notes s)" "ur_commitment_id n = ur_commitment_id ?n"
    | (nullifier) n i where "n \<in> set (ls_user_notes s)" "ur_nullifier_id n = Some i" "ur_nullifier_id ?n = Some i"
    | (fresh) "insert_user_note ?n s = s\<lparr>ls_user_notes := ls_user_notes s @ [?n]\<rparr>"
    by (rule insert_user_note_cases [where n = ?n and s = s])
  then show ?thesis
  proof cases
    case id
    then obtain c where c: "c \<in> set (ls_commitments s)" "cr_id c = ur_commitment_id n" "cr_commitment c = cr_commitment row"
      using assms(2) by (auto simp: notes_ok_def note_ok_def new_note_def)
    then have "ur_commitment_id n = cr_id row" using commitment_unique [OF assms(1) c(1) assms(3)] by simp
    then show ?thesis using id(1) by (auto simp: insert_user_note_def)
  next
    case commitment
    then show ?thesis by (auto simp: insert_user_note_def new_note_def)
  next
    case nullifier
    then obtain r where r: "r \<in> set (ls_nullifiers s)" "nr_id r = i" "nr_nullifier r = ur_expected_nullifier n"
      using assms(2) by (force simp: notes_ok_def note_ok_def)
    have "find_nullifier s pool (dn_expected_nullifier d) = Some i" using nullifier(3) by (simp add: new_note_def)
    then obtain r' where "r' \<in> set (ls_nullifiers s)" "nr_id r' = i" "nr_nullifier r' = dn_expected_nullifier d"
      using find_nullifier_Some by blast
    then have "ur_expected_nullifier n = dn_expected_nullifier d" using nullifier_id_unique [OF assms(1) r(1)] r by auto
    then show ?thesis using nullifier(1) by (auto simp: insert_user_note_def)
  next
    case fresh
    then show ?thesis by (auto simp: new_note_def)
  qed
qed

section \<open>One scan of a pool\<close>

lemma scan_rows_Cons:
  "scan_rows derive pool account (row # rows) m s =
     andThen (map_err NoteError (derive account row)) (\<lambda>derived.
       scan_rows derive pool account rows (max m (cr_id row))
         (case derived of None \<Rightarrow> s | Some d \<Rightarrow> insert_user_note (new_note s pool account row d) s))"
  by (auto simp: new_note_def Let_def max_def intro!: arg_cong2 [where f = andThen] split: option.splits)

text \<open>What a note is found by, and the notes an account is owed for a commitment.\<close>

definition note_keys :: "local_store \<Rightarrow> (nat \<times> field) set" where
  "note_keys s = (\<lambda>n. (ur_commitment_id n, ur_expected_nullifier n)) ` set (ls_user_notes s)"

definition covered :: "derive_fn \<Rightarrow> local_store \<Rightarrow> account_keys \<Rightarrow> commitment_row \<Rightarrow> bool" where
  "covered derive s account c \<longleftrightarrow> (\<forall>d. derive account c = Inr (Some d) \<longrightarrow>
     (\<exists>k \<in> note_keys s. fst k = cr_id c \<or> snd k = dn_expected_nullifier d))"

lemma covered_mono: "covered derive s a c \<Longrightarrow> note_keys s \<subseteq> note_keys s' \<Longrightarrow> covered derive s' a c"
  unfolding covered_def by blast

lemma note_keys_scan [simp]:
  "note_keys (s\<lparr>ls_commitment_scan := y\<rparr>) = note_keys s" "note_keys (s\<lparr>ls_nullifier_scan := z\<rparr>) = note_keys s"
  by (simp_all add: note_keys_def)

lemma note_keys_insert: "note_keys s \<subseteq> note_keys (insert_user_note n s)"
  by (auto simp: note_keys_def insert_user_note_def)

lemma insert_user_note_same: "\<exists>x. insert_user_note n s = s\<lparr>ls_user_notes := x\<rparr>"
proof (cases "insert_user_note n s = s")
  case True
  then show ?thesis by (intro exI [of _ "ls_user_notes s"]) simp
next
  case False
  then show ?thesis by (auto simp: insert_user_note_def split: if_splits)
qed

lemma insert_user_note_set: "set (ls_user_notes (insert_user_note n s)) \<subseteq> insert n (set (ls_user_notes s))"
  by (auto simp: insert_user_note_def)

lemma keyed_same: "same_chain s s' \<Longrightarrow> keyed s' a = keyed s a"
  by (simp add: keyed_def same_chain_reads)

lemma note_derived_same: "same_chain s s' \<Longrightarrow> note_derived derive s' n = note_derived derive s n"
  by (simp add: note_derived_def keyed_same same_chain_reads)

lemma chain_ok_notes [simp]: "chain_ok (s\<lparr>ls_user_notes := x\<rparr>) = chain_ok s"
  by (simp add: same_chain_ok(1) [OF same_chain_notes])

text \<open>The invariants of the notes, for the proofs about the scans.\<close>

definition scan_inv :: "derive_fn \<Rightarrow> local_store \<Rightarrow> bool" where
  "scan_inv derive s \<longleftrightarrow> chain_ok s \<and> notes_ok s \<and> notes_derived derive s"

lemma insert_derived_ok:
  assumes "scan_inv derive s" "row \<in> set (ls_commitments s)" "contract_of s (cr_event row) = Some pool" "derive account row = Inr (Some d)" "keyed s account"
  defines "t \<equiv> insert_user_note (new_note s pool account row d) s"
  shows "scan_inv derive t \<and> covered derive t account row"
proof -
  obtain x where x: "t = s\<lparr>ls_user_notes := x\<rparr>" unfolding t_def using insert_user_note_same by blast
  have c: "chain_ok s" "notes_ok s" "notes_derived derive s" using assms(1) by (simp_all add: scan_inv_def)
  have "note_derived derive s (new_note s pool account row d)"
    unfolding note_derived_def new_note_def using assms(2,4,5) by auto
  then have "notes_derived derive t"
    using c(3) insert_user_note_set [of "new_note s pool account row d" s]
    unfolding notes_derived_def t_def [symmetric] x note_derived_same [OF same_chain_notes] by auto
  moreover have "notes_ok t" unfolding t_def using insert_user_note_ok [OF c(2) new_note_ok [OF c(1) assms(2,3)]] .
  moreover have "chain_ok t" using c(1) by (simp add: x)
  moreover have "covered derive t account row"
    using insert_user_note_covers [OF c(1,2) assms(2), of pool account d] assms(4)
    unfolding covered_def note_keys_def t_def by auto
  ultimately show ?thesis by (simp add: scan_inv_def)
qed

lemma scan_rows_ok:
  assumes "scan_inv derive s" "set rows \<subseteq> {c \<in> set (ls_commitments s). contract_of s (cr_event c) = Some pool}"
    and "scan_rows derive pool account rows m s = Inr (s', m')" "keyed s account"
  shows "scan_inv derive s' \<and> (\<exists>x. s' = s\<lparr>ls_user_notes := x\<rparr>) \<and> note_keys s \<subseteq> note_keys s' \<and>
    (\<forall>c \<in> set rows. covered derive s' account c) \<and> m' = foldl max m (map cr_id rows)"
  using assms
proof (induction rows arbitrary: m s)
  case Nil
  then show ?case by (auto intro: exI [of _ "ls_user_notes s'"])
next
  case (Cons row rows)
  from Cons.prems(3) obtain derived where d: "derive account row = Inr derived"
    and run: "scan_rows derive pool account rows (max m (cr_id row))
      (case derived of None \<Rightarrow> s | Some d \<Rightarrow> insert_user_note (new_note s pool account row d) s) = Inr (s', m')"
    unfolding scan_rows_Cons by (auto simp: andThen_Inr map_err_Inr)
  let ?t = "case derived of None \<Rightarrow> s | Some d \<Rightarrow> insert_user_note (new_note s pool account row d) s"
  have row: "row \<in> set (ls_commitments s)" "contract_of s (cr_event row) = Some pool" using Cons.prems(2) by auto
  have t: "scan_inv derive ?t" "covered derive ?t account row"
  proof -
    show "scan_inv derive ?t" using Cons.prems(1) insert_derived_ok [OF Cons.prems(1) row _ Cons.prems(4)] d by (cases derived) auto
    show "covered derive ?t account row" using insert_derived_ok [OF Cons.prems(1) row _ Cons.prems(4)] d by (cases derived) (auto simp: covered_def)
  qed
  obtain x where x: "?t = s\<lparr>ls_user_notes := x\<rparr>"
  proof (cases derived)
    case None
    then show thesis using that [of "ls_user_notes s"] by simp
  next
    case (Some d)
    then show thesis using that insert_user_note_same by auto
  qed
  have keys: "note_keys s \<subseteq> note_keys ?t" using note_keys_insert by (cases derived) auto
  have rows: "set rows \<subseteq> {c \<in> set (ls_commitments ?t). contract_of ?t (cr_event c) = Some pool}" using Cons.prems(2) by (simp add: x)
  have keyed: "keyed ?t account" using Cons.prems(4) by (simp add: x keyed_same [OF same_chain_notes])
  from Cons.IH [OF t(1) rows run keyed] have ih: "scan_inv derive s'" "\<exists>y. s' = ?t\<lparr>ls_user_notes := y\<rparr>" "note_keys ?t \<subseteq> note_keys s'"
    "\<forall>c \<in> set rows. covered derive s' account c" "m' = foldl max (max m (cr_id row)) (map cr_id rows)" by blast+
  have "\<exists>y. s' = s\<lparr>ls_user_notes := y\<rparr>" using ih(2) by (auto simp: x)
  then show ?case using ih keys covered_mono [OF t(2) ih(3)] by auto
qed

lemma scan_rows_reads: "scan_rows derive pool a rows m s = Inr (t, k) \<Longrightarrow> same_chain s t"
proof (induction rows arbitrary: m s)
  case Nil
  then show ?case by (simp add: same_chain_refl)
next
  case (Cons row rows)
  then obtain derived where "scan_rows derive pool a rows (max m (cr_id row))
      (case derived of None \<Rightarrow> s | Some d \<Rightarrow> insert_user_note (new_note s pool a row d) s) = Inr (t, k)"
    unfolding scan_rows_Cons by (auto simp: andThen_Inr)
  from Cons.IH [OF this] have "same_chain (case derived of None \<Rightarrow> s | Some d \<Rightarrow> insert_user_note (new_note s pool a row d) s) t" .
  moreover have "same_chain s (insert_user_note n s)" for n using insert_user_note_same [of n s] same_chain_notes by metis
  ultimately show ?case using same_chain_trans by (cases derived) auto
qed

lemma foldl_max: "foldl max (m :: nat) xs = Max (insert m (set xs))"
proof (induction xs arbitrary: m)
  case (Cons x xs)
  have "Max (insert (max m x) (set xs)) = Max (insert m (insert x (set xs)))"
    by (cases "xs = []") (simp_all add: max.assoc)
  then show ?case using Cons by simp
qed simp

lemma take_below:
  assumes "sorted_wrt (<) (map f xs)" "x \<in> set xs" "y \<in> set (take k xs)" "f x \<le> (f y :: nat)"
  shows "x \<in> set (take k xs)"
proof (rule ccontr)
  assume "x \<notin> set (take k xs)"
  then have "x \<in> set (drop k xs)" using assms(2) by (metis Un_iff append_take_drop_id set_append)
  moreover have "sorted_wrt (<) (map f (take k xs) @ map f (drop k xs))" using assms(1) by (simp flip: map_append)
  ultimately have "f y < f x" using assms(3) by (auto simp: sorted_wrt_append)
  then show False using assms(4) by simp
qed

lemma strict_sorted_key:
  fixes f :: "'a \<Rightarrow> nat"
  assumes "sorted_wrt (<) (map f xs)"
  shows "sorted_wrt (<) (map f (sort_key f (filter P xs)))"
proof -
  have "distinct (map f (filter P xs))" using assms by (simp add: strict_sorted_iff distinct_map_filter)
  then show ?thesis by (simp add: strict_sorted_iff distinct_map)
qed

lemma unscanned_sorted: "chain_ok s \<Longrightarrow> sorted_wrt (<) (map cr_id (unscanned s p m))"
  unfolding unscanned_def chain_ok_def by (rule strict_sorted_key) simp

lemma pending_sorted: "chain_ok s \<Longrightarrow> sorted_wrt (<) (map nr_id (pending s p))"
  unfolding pending_def chain_ok_def by (rule strict_sorted_key) simp

section \<open>The loops of the scan\<close>

definition scanned :: "derive_fn \<Rightarrow> account_keys list \<Rightarrow> local_store \<Rightarrow> bool" where
  "scanned derive A s \<longleftrightarrow> (\<forall>a \<in> set A. \<forall>p. \<forall>c \<in> set (ls_commitments s). contract_of s (cr_event c) = Some p \<longrightarrow>
     cr_id c \<le> scan_mark s p (ak_account_id a) \<longrightarrow> covered derive s a c)"

definition loop_inv :: "derive_fn \<Rightarrow> account_keys list \<Rightarrow> local_store \<Rightarrow> bool" where
  "loop_inv derive A s \<longleftrightarrow> scan_inv derive s \<and> scanned derive A s \<and> marks_ok s \<and> (\<forall>a \<in> set A. keyed s a)"

definition backlog :: "local_store \<Rightarrow> nat \<Rightarrow> account_keys \<Rightarrow> nat" where
  "backlog s p a = length (unscanned s p (scan_mark s p (ak_account_id a)))"

lemma length_filter_mono: "(\<And>x. Q x \<Longrightarrow> P x) \<Longrightarrow> length (filter Q xs) \<le> length (filter P xs)"
  by (induction xs) (auto intro: le_SucI)

lemma length_filter_strict:
  assumes "\<And>x. Q x \<Longrightarrow> P x" "x \<in> set xs" "P x" "\<not> Q x"
  shows "length (filter Q xs) < length (filter P xs)"
proof -
  have "filter Q xs = filter Q (filter P xs)" using assms(1) by (auto intro: filter_cong)
  then show ?thesis using length_filter_less [of x "filter P xs" Q] assms(2-4) by simp
qed

lemma unscanned_less: "m \<le> m' \<Longrightarrow> c \<in> set (unscanned s p m) \<Longrightarrow> cr_id c \<le> m' \<Longrightarrow> length (unscanned s p m') < length (unscanned s p m)"
  unfolding unscanned_set unfolding unscanned_def length_sort by (rule length_filter_strict [where x = c]) auto

lemma next_id_above: "c \<in> set (ls_commitments s) \<Longrightarrow> cr_id c < next_id (map cr_id (ls_commitments s))"
  using next_id_greater [of "cr_id c" "map cr_id (ls_commitments s)"] by simp

text \<open>One turn of one account.\<close>

definition marked :: "local_store \<Rightarrow> nat \<Rightarrow> nat \<Rightarrow> nat \<Rightarrow> local_store" where
  "marked s pool account m = s\<lparr>ls_commitment_scan := (ls_commitment_scan s)((pool, account) \<mapsto> m)\<rparr>"

lemma scan_mark_marked: "scan_mark (marked s pool a m) p b = (if (p, b) = (pool, a) then m else scan_mark s p b)"
  by (auto simp: scan_mark_def marked_def)

lemma same_chain_marked [simp]: "same_chain s (marked s pool a m)"
  by (simp add: marked_def)

lemma note_ok_scan: "ls_user_notes s' = ls_user_notes s \<Longrightarrow> same_chain s s' \<Longrightarrow> nullifier_mark s' = nullifier_mark s \<Longrightarrow> notes_ok s' = notes_ok s"
  by (simp add: notes_ok_def note_ok_def same_chain_reads)

lemma marked_same: "ls_user_notes (marked s pool a m) = ls_user_notes s" "nullifier_mark (marked s pool a m) = nullifier_mark s"
  "ls_nullifier_scan (marked s pool a m) = ls_nullifier_scan s" "note_keys (marked s pool a m) = note_keys s"
  by (simp_all add: marked_def)

lemma scan_inv_marked: "scan_inv derive (marked s pool a m) = scan_inv derive s"
  using note_ok_scan [OF marked_same(1) same_chain_marked marked_same(2), of s pool a m]
  by (simp add: scan_inv_def same_chain_ok(1) [OF same_chain_marked] notes_derived_def marked_same note_derived_same [OF same_chain_marked])

lemma account_turn:
  assumes "loop_inv derive A s" "account \<in> set A" "inj_on ak_account_id (set A)" "next_rows s pool (ak_account_id account) q \<noteq> []"
    and "scan_rows derive pool account (next_rows s pool (ak_account_id account) q) (scan_mark s pool (ak_account_id account)) s = Inr (t, m)"
  defines "u \<equiv> marked t pool (ak_account_id account) m"
  shows "loop_inv derive A u" "same_chain s u" "note_keys s \<subseteq> note_keys u" "ls_nullifier_scan u = ls_nullifier_scan s"
    "backlog u pool account < backlog s pool account" "backlog u p a \<le> backlog s p a"
proof -
  let ?id = "ak_account_id account" and ?rows = "next_rows s pool (ak_account_id account) q"
  let ?m0 = "scan_mark s pool ?id"
  have s: "scan_inv derive s" "scanned derive A s" "marks_ok s" and ch: "chain_ok s" using assms(1) by (simp_all add: loop_inv_def scan_inv_def)
  have sub: "set ?rows \<subseteq> set (unscanned s pool ?m0)" unfolding next_rows_def by (rule set_take_subset)
  then have "set ?rows \<subseteq> {c \<in> set (ls_commitments s). contract_of s (cr_event c) = Some pool}" by (auto simp: unscanned_set)
  have keyed: "\<forall>a \<in> set A. keyed s a" using assms(1) by (simp add: loop_inv_def)
  from scan_rows_ok [OF s(1) \<open>set ?rows \<subseteq> {c \<in> set (ls_commitments s). contract_of s (cr_event c) = Some pool}\<close> assms(5)] keyed assms(2) obtain x where t: "scan_inv derive t" "t = s\<lparr>ls_user_notes := x\<rparr>"
    "note_keys s \<subseteq> note_keys t" "\<forall>c \<in> set ?rows. covered derive t account c" "m = foldl max ?m0 (map cr_id ?rows)" by blast
  have m: "m = Max (insert ?m0 (cr_id ` set ?rows))" unfolding t(5) foldl_max by simp
  have ge: "?m0 \<le> m" and rows_le: "\<forall>c \<in> set ?rows. cr_id c \<le> m" unfolding m by auto
  have "m \<in> insert ?m0 (cr_id ` set ?rows)" unfolding m by (rule Max_in) auto
  moreover obtain c0 where c0: "c0 \<in> set ?rows" using assms(4) by (cases ?rows) auto
  moreover have "?m0 < cr_id c0" using c0 sub by (auto simp: unscanned_set)
  moreover have "cr_id c0 \<le> m" using rows_le c0 by blast
  ultimately obtain cm where cm: "cm \<in> set ?rows" "cr_id cm = m" by force
  show sc: "same_chain s u" unfolding u_def t(2) using same_chain_trans same_chain_notes same_chain_marked by blast
  show keys: "note_keys s \<subseteq> note_keys u" using t(3) by (simp add: u_def marked_same)
  show "ls_nullifier_scan u = ls_nullifier_scan s" by (simp add: u_def t(2) marked_same)
  have mark: "scan_mark u p b = (if (p, b) = (pool, ?id) then m else scan_mark s p b)" for p b
    unfolding u_def scan_mark_marked t(2) by simp
  have un: "unscanned u = unscanned s" using same_chain_reads(11) [OF sc] .
  show less: "backlog u pool account < backlog s pool account"
    unfolding backlog_def un mark using unscanned_less [OF ge _ rows_le [rule_format, OF c0]] c0 sub by auto
  show "backlog u p a \<le> backlog s p a"
    using less unfolding backlog_def un mark by auto
  have "scanned derive A u" unfolding scanned_def same_chain_reads(6,8) [OF sc]
  proof (intro ballI allI impI)
    fix a p c assume h: "a \<in> set A" "c \<in> set (ls_commitments s)" "contract_of s (cr_event c) = Some p" "cr_id c \<le> scan_mark u p (ak_account_id a)"
    show "covered derive u a c"
    proof (cases "(p, ak_account_id a) = (pool, ?id) \<and> ?m0 < cr_id c")
      case False
      then have "cr_id c \<le> scan_mark s p (ak_account_id a)" using h(4) by (auto simp: mark split: if_splits)
      then have "covered derive s a c" using s(2) h(1-3) unfolding scanned_def by blast
      then show ?thesis using keys by (rule covered_mono)
    next
      case True
      then have a: "a = account" using assms(2,3) h(1) by (auto dest: inj_onD)
      have c: "c \<in> set (unscanned s pool ?m0)" using True h(2,3) by (auto simp: unscanned_set)
      have "cr_id c \<le> cr_id cm" using h(4) True cm(2) by (simp add: mark)
      then have "c \<in> set ?rows" using take_below [OF unscanned_sorted [OF ch] c] cm(1) unfolding next_rows_def by blast
      then have "covered derive t account c" using t(4) by blast
      then show ?thesis unfolding a using covered_mono [of derive t account c u] by (simp add: u_def marked_same)
    qed
  qed
  moreover have "marks_ok u"
  proof -
    have "m < next_id (map cr_id (ls_commitments s))" using cm sub next_id_above [of cm s] by (auto simp: unscanned_set)
    then show ?thesis using s(3) unfolding marks_ok_def same_chain_reads(5,6) [OF sc] by (auto simp: u_def marked_def t(2))
  qed
  moreover have "\<forall>a \<in> set A. keyed u a" using keyed by (simp add: keyed_same [OF sc])
  ultimately show "loop_inv derive A u" using t(1) by (simp add: loop_inv_def u_def scan_inv_marked)
qed

text \<open>What a run of turns keeps and brings about.\<close>

definition advances :: "derive_fn \<Rightarrow> account_keys list \<Rightarrow> local_store \<Rightarrow> local_store \<Rightarrow> bool" where
  "advances derive A s s' \<longleftrightarrow> loop_inv derive A s' \<and> same_chain s s' \<and> note_keys s \<subseteq> note_keys s' \<and>
     ls_nullifier_scan s' = ls_nullifier_scan s \<and> (\<forall>p a. backlog s' p a \<le> backlog s p a)"

lemma advances_refl: "loop_inv derive A s \<Longrightarrow> advances derive A s s"
  by (simp add: advances_def same_chain_refl)

lemma advances_trans: "advances derive A s t \<Longrightarrow> advances derive A t u \<Longrightarrow> advances derive A s u"
  unfolding advances_def using same_chain_trans le_trans by (metis subset_trans)

definition gains :: "account_keys list \<Rightarrow> nat \<Rightarrow> local_store \<Rightarrow> local_store \<Rightarrow> bool" where
  "gains A pool s s' \<longleftrightarrow> (\<exists>a \<in> set A. backlog s' pool a < backlog s pool a)"

lemma gains_advances: "gains A pool s t \<Longrightarrow> advances derive A t u \<Longrightarrow> gains A pool s u" "advances derive A s t \<Longrightarrow> gains A pool t u \<Longrightarrow> gains A pool s u"
  unfolding gains_def advances_def by (meson le_less_trans) (meson less_le_trans)

lemma next_rows_empty: "0 < q \<Longrightarrow> next_rows s pool a q = [] \<longleftrightarrow> unscanned s pool (scan_mark s pool a) = []"
  by (auto simp: next_rows_def ACCOUNT_CHUNK_def min_def)

lemma account_cycle_ok:
  assumes "inj_on ak_account_id (set A)"
  shows "loop_inv derive A s \<Longrightarrow> set accounts \<subseteq> set A \<Longrightarrow> account_cycle derive pool accounts q p s = Inr (s', q', p') \<Longrightarrow>
    advances derive A s s' \<and> (p' \<and> \<not> p \<longrightarrow> gains A pool s s') \<and> (p \<longrightarrow> p') \<and>
    (\<not> p' \<and> 0 < q \<longrightarrow> (\<forall>a \<in> set accounts. backlog s' pool a = 0) \<and> s' = s)"
proof (induction accounts arbitrary: q p s)
  case Nil
  then show ?case by (auto simp: advances_refl)
next
  case (Cons account accounts)
  let ?rows = "next_rows s pool (ak_account_id account) q"
  consider (out) "q = 0" | (none) "0 < q" "?rows = []" | (rows) "0 < q" "?rows \<noteq> []" by auto
  then show ?case
  proof cases
    case out
    then show ?thesis using Cons.prems by (auto simp: advances_refl)
  next
    case none
    then have run: "account_cycle derive pool accounts q p s = Inr (s', q', p')" using Cons.prems(3) by simp
    have "set accounts \<subseteq> set A" using Cons.prems(2) by simp
    note ih = Cons.IH [OF Cons.prems(1) this run]
    have "backlog s pool account = 0" using none by (simp add: backlog_def next_rows_empty)
    then show ?thesis using ih by (intro conjI impI) auto
  next
    case rows
    then obtain t m where turn: "scan_rows derive pool account ?rows (scan_mark s pool (ak_account_id account)) s = Inr (t, m)"
      and run: "account_cycle derive pool accounts (q - length ?rows) True (marked t pool (ak_account_id account) m) = Inr (s', q', p')"
      using Cons.prems(3) by (auto simp: andThen_Inr marked_def)
    let ?u = "marked t pool (ak_account_id account) m"
    have a: "account \<in> set A" "set accounts \<subseteq> set A" using Cons.prems(2) by auto
    note u = account_turn [OF Cons.prems(1) a(1) assms rows(2) turn]
    have su: "advances derive A s ?u" using u by (simp add: advances_def)
    have g: "gains A pool s ?u" using u(5) a(1) by (auto simp: gains_def)
    from Cons.IH [OF u(1) a(2) run] have "advances derive A ?u s'" "p'" by blast+
    then show ?thesis using su g advances_trans gains_advances(1) by blast
  qed
qed

lemma pool_loop_ok:
  "inj_on ak_account_id (set A) \<Longrightarrow> loop_inv derive A s \<Longrightarrow> pool_loop derive pool A q p s = Inr (s', p') \<Longrightarrow>
    advances derive A s s' \<and> (p' \<and> \<not> p \<longrightarrow> gains A pool s s') \<and> (p \<longrightarrow> p') \<and>
    (\<not> p' \<and> 0 < q \<longrightarrow> (\<forall>a \<in> set A. backlog s' pool a = 0) \<and> s' = s)"
proof (induction derive pool A q p s arbitrary: s' p' rule: pool_loop.induct)
  case (1 derive pool A q p s)
  show ?case
  proof (cases "q = 0")
    case True
    then show ?thesis using 1(3,4) pool_loop.simps [of derive pool A q p s] by (auto simp: advances_refl)
  next
    case False
    obtain r where cyc: "account_cycle derive pool A q False s = Inr r"
      and rest: "(if snd (snd r) then pool_loop derive pool A (fst (snd r)) True (fst r) else Inr (fst r, p)) = Inr (s', p')"
      using 1(4) False pool_loop.simps [of derive pool A q p s] by (auto simp: andThen_Inr)
    obtain t q' b where r: "r = (t, q', b)" by (cases r) auto
    note c = account_cycle_ok [OF 1(2) 1(3) subset_refl cyc [unfolded r]]
    show ?thesis
    proof (cases b)
      case True
      then have run: "pool_loop derive pool A q' True t = Inr (s', p')" using rest r by simp
      have "loop_inv derive A t" using c by (simp add: advances_def)
      from 1(1) [OF False cyc _ 1(2), unfolded r fst_conv snd_conv, OF True this run]
      have "advances derive A t s'" "p'" by blast+
      then show ?thesis using c True advances_trans gains_advances(1) by blast
    next
      case no: False
      then have "s' = t" "p' = p" using rest r by auto
      then show ?thesis using c no False by auto
    qed
  qed
qed

section \<open>The scan of all pools\<close>

lemma scan_mark_start [simp]: "scan_mark (start_scan pool A s) = scan_mark s"
  by (auto simp: fun_eq_iff scan_mark_def start_scan_def split: option.splits)

lemma start_scan_ok:
  assumes "loop_inv derive A s"
  shows "advances derive A s (start_scan pool A s)"
proof -
  let ?t = "start_scan pool A s"
  have sc: "same_chain s ?t" by (simp add: start_scan_def)
  have un: "ls_user_notes ?t = ls_user_notes s" "nullifier_mark ?t = nullifier_mark s" "ls_nullifier_scan ?t = ls_nullifier_scan s" "note_keys ?t = note_keys s"
    by (simp_all add: start_scan_def)
  have s: "scan_inv derive s" "scanned derive A s" "marks_ok s" using assms by (simp_all add: loop_inv_def)
  have "scan_inv derive ?t" using s(1) note_ok_scan [OF un(1) sc un(2)]
    by (simp add: scan_inv_def same_chain_ok(1) [OF sc] notes_derived_def un(1) note_derived_same [OF sc])
  moreover have "scanned derive A ?t" using s(2) unfolding scanned_def same_chain_reads(6,8) [OF sc] covered_def un(4) by simp
  moreover have "marks_ok ?t" using s(3) unfolding marks_ok_def same_chain_reads(5,6) [OF sc] un(3) by (auto simp: start_scan_def)
  moreover have "\<forall>a \<in> set A. keyed ?t a" using assms by (simp add: keyed_same [OF sc] loop_inv_def)
  ultimately show ?thesis using sc by (simp add: advances_def loop_inv_def un backlog_def same_chain_reads(11) [OF sc])
qed

lemma start_scan_gains: "gains A p (start_scan pool A s) s' = gains A p s s'"
proof -
  have "same_chain s (start_scan pool A s)" by (simp add: start_scan_def)
  then show ?thesis by (simp add: gains_def backlog_def same_chain_reads(11))
qed

lemma scan_pools_ok:
  assumes "inj_on ak_account_id (set A)"
  shows "loop_inv derive A s \<Longrightarrow> scan_pools derive A pools p s = (s', res) \<Longrightarrow>
    advances derive A s s' \<and> (\<forall>p'. res = Inr p' \<longrightarrow> (p' \<and> \<not> p \<longrightarrow> (\<exists>pool \<in> fst ` set pools. gains A pool s s')) \<and> (p \<longrightarrow> p') \<and>
      (\<not> p' \<longrightarrow> (\<forall>(pool, q) \<in> set pools. 0 < q \<longrightarrow> (\<forall>a \<in> set A. backlog s' pool a = 0))))"
proof (induction pools arbitrary: p s)
  case Nil
  then show ?case by (auto simp: advances_refl)
next
  case (Cons x pools)
  obtain pool q where x: "x = (pool, q)" by fastforce
  show ?case
  proof (cases "q = 0")
    case True
    then have "scan_pools derive A pools p s = (s', res)" using Cons.prems(2) x by simp
    from Cons.IH [OF Cons.prems(1) this] show ?thesis using True x by auto
  next
    case False
    have start: "advances derive A s (start_scan pool A s)" using Cons.prems(1) by (rule start_scan_ok)
    show ?thesis
    proof (cases "pool_loop derive pool A q False (start_scan pool A s)")
      case (Inl e)
      then show ?thesis using Cons.prems False x by (auto simp: advances_refl)
    next
      case (Inr r)
      obtain t b where r: "r = (t, b)" by fastforce
      have inv: "loop_inv derive A (start_scan pool A s)" using start by (simp add: advances_def)
      from pool_loop_ok [OF assms inv Inr [unfolded r]] have l: "advances derive A (start_scan pool A s) t"
        "b \<longrightarrow> gains A pool s t" "\<not> b \<longrightarrow> (\<forall>a \<in> set A. backlog t pool a = 0)"
        using False by (auto simp: start_scan_gains)
      have st: "advances derive A s t" using advances_trans [OF start l(1)] .
      have run: "scan_pools derive A pools (p \<or> b) t = (s', res)" using Cons.prems(2) False x Inr r by simp
      have "loop_inv derive A t" using st by (simp add: advances_def)
      note ih = Cons.IH [OF this run]
      have ts: "advances derive A t s'" using ih by blast
      have low: "backlog s' p2 a \<le> backlog t p2 a" for p2 a using ts by (simp add: advances_def)
      show ?thesis
      proof (intro conjI allI impI)
        show "advances derive A s s'" using advances_trans [OF st ts] .
        fix p' assume res: "res = Inr p'"
        show "p'" if "p" using ih res that by blast
        show "\<exists>pool \<in> fst ` set (x # pools). gains A pool s s'" if p': "p' \<and> \<not> p"
        proof (cases b)
          case True
          then have "gains A pool s s'" using l(2) gains_advances(1) ts by blast
          then show ?thesis using x by auto
        next
          case False
          then obtain p2 where "p2 \<in> fst ` set pools" "gains A p2 t s'" using ih res p' by auto
          then show ?thesis using gains_advances(2) [OF st] by auto
        qed
        show "\<forall>(pool, q) \<in> set (x # pools). 0 < q \<longrightarrow> (\<forall>a \<in> set A. backlog s' pool a = 0)" if "\<not> p'"
        proof -
          note i2 = ih [THEN conjunct2, THEN spec, THEN mp, OF res]
          have nb: "\<not> b" using i2 [THEN conjunct2, THEN conjunct1] that by blast
          note tail = i2 [THEN conjunct2, THEN conjunct2, THEN mp, OF that]
          have "\<forall>a \<in> set A. backlog s' pool a = 0" using l(3) nb low [of pool] by (metis le_zero_eq)
          then show ?thesis using tail unfolding x by simp
        qed
      qed
    qed
  qed
qed

text \<open>Every pool has a part of a positive limit.\<close>

lemma add_remainder_length [simp]: "length (add_remainder r i qs) = length qs"
  by (induction r i qs rule: add_remainder.induct) simp_all

lemma add_remainder_ge: "j < length qs \<Longrightarrow> qs ! j \<le> add_remainder r i qs ! j"
proof (induction r i qs rule: add_remainder.induct)
  case (2 r i qs)
  then have "qs[i := qs ! i + 1] ! j \<le> add_remainder (Suc r) i qs ! j" by simp
  moreover have "qs ! j \<le> qs[i := qs ! i + 1] ! j" using 2(2) by (cases "i = j") auto
  ultimately show ?case by (rule order_trans [rotated])
qed simp

lemma pool_quotas_length [simp]: "length (pool_quotas limit k) = k"
  by (simp add: pool_quotas_def Let_def)

lemma pool_quotas_pos: "0 < limit \<Longrightarrow> j < k \<Longrightarrow> 0 < pool_quotas limit k ! j"
proof -
  assume a: "0 < limit" "j < k"
  let ?b = "if k = 0 then 0 else if k \<le> limit then limit div k else 1"
  have "0 < ?b" using a by (auto simp: div_greater_zero_iff)
  moreover have "?b \<le> pool_quotas limit k ! j"
    using add_remainder_ge [of j "replicate k ?b"] a(2) by (simp add: pool_quotas_def Let_def)
  ultimately show ?thesis by linarith
qed

lemma account_keys_of:
  "a \<in> set (get_accounts_with_latest_keypairs s) \<Longrightarrow> \<exists>k. latest_keypair s (ak_account_id a) = Some k \<and>
     a = \<lparr>ak_account_id = ak_account_id a, ak_note_keypair = kr_note k, ak_encryption_keypair = kr_encryption k,
       ak_membership_blinding = kr_membership_blinding k\<rparr>"
proof -
  assume "a \<in> set (get_accounts_with_latest_keypairs s)"
  then obtain i where "a \<in> set (case latest_keypair s i of None \<Rightarrow> [] | Some k \<Rightarrow> [\<lparr>ak_account_id = i, ak_note_keypair = kr_note k,
      ak_encryption_keypair = kr_encryption k, ak_membership_blinding = kr_membership_blinding k\<rparr>])"
    unfolding get_accounts_with_latest_keypairs_def by auto
  then show ?thesis by (cases "latest_keypair s i") auto
qed

lemma account_ids_inj: "inj_on ak_account_id (set (get_accounts_with_latest_keypairs s))"
proof (rule inj_onI)
  fix a b assume ab: "a \<in> set (get_accounts_with_latest_keypairs s)" "b \<in> set (get_accounts_with_latest_keypairs s)" "ak_account_id a = ak_account_id b"
  from account_keys_of [OF ab(1)] account_keys_of [OF ab(2)] ab(3) show "a = b" by force
qed

lemma pools_of_set: "p \<in> set (pools_of s es) \<longleftrightarrow> (\<exists>e \<in> set es. contract_of s e = Some p)"
  by (force simp: pools_of_def split: option.splits)

lemma backlog_other: "p \<notin> set (pools_of s (map cr_event (ls_commitments s))) \<Longrightarrow> backlog s p a = 0"
  by (auto simp: backlog_def pools_of_set unscanned_def filter_empty_conv)

lemma pools_of_same: "same_chain s s' \<Longrightarrow> pools_of s' es = pools_of s es"
  by (simp add: pools_of_def same_chain_reads)

lemma scan_commitments_ok:
  assumes "loop_inv derive (get_accounts_with_latest_keypairs s) s" "scan_commitments_for_user_notes derive limit s = (s', res)"
  defines "A \<equiv> get_accounts_with_latest_keypairs s"
  shows "advances derive A s s' \<and> (res = Inr True \<longrightarrow> (\<exists>pool \<in> set (pools_of s (map cr_event (ls_commitments s))). gains A pool s s')) \<and>
    (res = Inr False \<longrightarrow> 0 < limit \<longrightarrow> (\<forall>p. \<forall>a \<in> set A. backlog s' p a = 0))"
proof -
  let ?ids = "pools_of s (map cr_event (ls_commitments s))"
  have inj: "inj_on ak_account_id (set A)" unfolding A_def by (rule account_ids_inj)
  consider (trivial) "A = [] \<or> limit = 0" | (empty) "A \<noteq> []" "0 < limit" "?ids = []" | (big) "A \<noteq> []" "0 < limit" "?ids \<noteq> []" "2 ^ 32 \<le> length ?ids"
    | (run) "A \<noteq> []" "0 < limit" "?ids \<noteq> []" "length ?ids < 2 ^ 32" by fastforce
  then show ?thesis
  proof cases
    case run
    then have s': "scan_pools derive A (zip ?ids (pool_quotas limit (length ?ids))) False s = (s', res)"
      using assms(2) by (simp add: scan_commitments_for_user_notes_def A_def [symmetric] Let_def)
    note ok = scan_pools_ok [OF inj assms(1) [folded A_def] s']
    have sc: "same_chain s s'" using ok by (simp add: advances_def)
    have pools: "fst ` set (zip ?ids (pool_quotas limit (length ?ids))) = set ?ids"
      by (metis list.set_map map_fst_zip pool_quotas_length)
    have "backlog s' p a = 0" if "res = Inr False" "a \<in> set A" for p a
    proof (cases "p \<in> set ?ids")
      case True
      then obtain j where j: "j < length ?ids" "?ids ! j = p" by (auto simp: in_set_conv_nth)
      then have mem: "(p, pool_quotas limit (length ?ids) ! j) \<in> set (zip ?ids (pool_quotas limit (length ?ids)))"
        by (auto simp: in_set_zip)
      have pos: "0 < pool_quotas limit (length ?ids) ! j" using pool_quotas_pos [OF run(2) j(1)] .
      note idle = ok [THEN conjunct2, THEN spec, THEN mp, OF that(1), THEN conjunct2, THEN conjunct2, THEN mp, OF not_False_eq_True [THEN iffD2, OF TrueI]]
      from bspec [OF idle mem] have "\<forall>a \<in> set A. backlog s' p a = 0" using pos by (simp only: prod.case simp_thms)
      then show ?thesis using that(2) by blast
    next
      case False
      then show ?thesis by (intro backlog_other) (simp only: same_chain_reads(6) [OF sc] pools_of_same [OF sc] not_False_eq_True)
    qed
    moreover have "\<exists>pool \<in> set ?ids. gains A pool s s'" if "res = Inr True"
      using ok [THEN conjunct2, THEN spec, THEN mp, OF that, THEN conjunct1] unfolding pools by simp
    ultimately show ?thesis using ok [THEN conjunct1] by blast
  next
    case empty
    then have "s' = s" "res = Inr False" using assms(2) by (simp_all add: scan_commitments_for_user_notes_def A_def [symmetric])
    then show ?thesis using assms(1) empty backlog_other [of _ s] by (simp add: advances_refl A_def)
  next
    case big
    then show ?thesis using assms(1,2) by (auto simp: scan_commitments_for_user_notes_def A_def [symmetric] advances_refl)
  next
    case trivial
    then show ?thesis using assms(1,2) by (auto simp: scan_commitments_for_user_notes_def A_def [symmetric] advances_refl)
  qed
qed

section \<open>Reconciliation\<close>

definition settled_row :: "local_store \<Rightarrow> nat \<Rightarrow> nullifier_row \<Rightarrow> bool" where
  "settled_row s pool r \<longleftrightarrow> (\<forall>n \<in> set (ls_user_notes s). note_contract s n = Some pool \<longrightarrow> ur_expected_nullifier n = nr_nullifier r \<longrightarrow>
     ur_nullifier_id n = Some (nr_id r))"

definition set_spent :: "local_store \<Rightarrow> nat \<Rightarrow> nullifier_row \<Rightarrow> user_note_row \<Rightarrow> user_note_row" where
  "set_spent s pool r n = (if spends_note s pool (nr_nullifier r) n then n\<lparr>ur_nullifier_id := Some (nr_id r)\<rparr> else n)"

lemma set_spent_fields [simp]:
  "ur_id (set_spent s pool r n) = ur_id n" "ur_commitment_id (set_spent s pool r n) = ur_commitment_id n"
  "ur_expected_nullifier (set_spent s pool r n) = ur_expected_nullifier n" "ur_amount (set_spent s pool r n) = ur_amount n"
  "ur_account (set_spent s pool r n) = ur_account n" "ur_blinding (set_spent s pool r n) = ur_blinding n"
  by (simp_all add: set_spent_def)

lemma note_contract_set_spent [simp]: "note_contract s' (set_spent s pool r n) = note_contract s' n"
  by (simp add: note_contract_def)

lemma note_derived_set_spent [simp]: "note_derived derive s' (set_spent s pool r n) = note_derived derive s' n"
  by (simp add: note_derived_def)

lemma mark_notes_Inr:
  assumes "mark_notes pool (nr_id r) (nr_nullifier r) s = Inr t"
  shows "t = s\<lparr>ls_user_notes := map (set_spent s pool r) (ls_user_notes s)\<rparr>"
    "filter (spends_note s pool (nr_nullifier r)) (ls_user_notes s) = [] \<or>
     length (filter (spends_note s pool (nr_nullifier r)) (ls_user_notes s)) = 1 \<and> Some (nr_id r) \<notin> ur_nullifier_id ` set (ls_user_notes s)"
  using assms by (simp_all add: mark_notes_def Let_def andThen_Inr guard_Inr set_spent_def [abs_def])

lemma set_spent_note_ok:
  assumes "chain_ok s" "note_ok s n" "r \<in> set (ls_nullifiers s)" "contract_of s (nr_event r) = Some pool"
  shows "note_ok s (set_spent s pool r n)"
proof (cases "spends_note s pool (nr_nullifier r) n")
  case False
  then show ?thesis using assms(2) by (simp add: set_spent_def)
next
  case True
  then have t: "ur_expected_nullifier n = nr_nullifier r" "note_contract s n = Some pool" by (simp_all add: spends_note_def)
  have id: "ur_nullifier_id (set_spent s pool r n) = Some (nr_id r)" using True by (simp add: set_spent_def)
  show ?thesis unfolding note_ok_def set_spent_fields note_contract_set_spent id
  proof (intro conjI allI impI ballI)
    show "\<exists>c \<in> set (ls_commitments s). cr_id c = ur_commitment_id n \<and> cr_commitment c = ur_id n" using assms(2) by (simp add: note_ok_def)
    show "\<exists>q \<in> set (ls_nullifiers s). nr_id q = i \<and> nr_nullifier q = ur_expected_nullifier n \<and> contract_of s (nr_event q) = note_contract s n"
      if "Some (nr_id r) = Some i" for i using that assms(3,4) t by auto
    show "Some (nr_id r) = Some (nr_id q)" if "q \<in> set (ls_nullifiers s)" "nr_nullifier q = ur_expected_nullifier n" for q
      using nullifier_unique [OF assms(1) that(1) assms(3)] that(2) t(1) by simp
  qed
qed

lemma note_ok_settles:
  assumes "chain_ok s" "note_ok s n" "r \<in> set (ls_nullifiers s)" "note_contract s n = Some pool" "ur_expected_nullifier n = nr_nullifier r"
  shows "ur_nullifier_id (set_spent s pool r n) = Some (nr_id r)"
proof (cases "ur_nullifier_id n")
  case None
  then show ?thesis using assms(4,5) by (simp add: set_spent_def spends_note_def)
next
  case (Some i)
  then obtain q where "q \<in> set (ls_nullifiers s)" "nr_id q = i" "nr_nullifier q = ur_expected_nullifier n"
    using assms(2) by (auto simp: note_ok_def)
  then have "i = nr_id r" using nullifier_unique [OF assms(1) _ assms(3), of q] assms(5) by auto
  then show ?thesis using Some by (simp add: set_spent_def spends_note_def)
qed

lemma spent_once_map:
  assumes "spent_once ns" "length (filter P ns) = 1 \<longrightarrow> Some i \<notin> ur_nullifier_id ` set ns" "length (filter P ns) \<le> 1"
    and "\<And>n. P n \<Longrightarrow> ur_nullifier_id n = None"
  shows "spent_once (map (\<lambda>n. if P n then n\<lparr>ur_nullifier_id := Some i\<rparr> else n) ns)"
proof (cases "filter P ns = []")
  case True
  then have "map (\<lambda>n. if P n then n\<lparr>ur_nullifier_id := Some i\<rparr> else n) ns = ns" by (intro map_idI) (auto simp: filter_empty_conv)
  then show ?thesis using assms(1) by simp
next
  case False
  then have "length (filter P ns) = 1" using assms(3) by (cases "filter P ns") auto
  then have new: "Some i \<notin> ur_nullifier_id ` set ns" using assms(2) by simp
  show ?thesis unfolding spent_once_def
  proof
    fix j
    let ?f = "\<lambda>n. if P n then n\<lparr>ur_nullifier_id := Some i\<rparr> else n"
    show "length (filter (\<lambda>n. ur_nullifier_id n = Some j) (map ?f ns)) \<le> 1"
    proof (cases "j = i")
      case True
      have "filter ((\<lambda>n. ur_nullifier_id n = Some j) \<circ> ?f) ns = filter P ns" using True new by (intro filter_cong) force+
      then show ?thesis using assms(3) by (simp add: filter_map)
    next
      case False
      have "filter ((\<lambda>n. ur_nullifier_id n = Some j) \<circ> ?f) ns = filter (\<lambda>n. ur_nullifier_id n = Some j) ns"
        using False assms(4) by (intro filter_cong) auto
      then show ?thesis using assms(1) by (simp add: filter_map spent_once_def)
    qed
  qed
qed

lemma mark_notes_ok:
  assumes "scan_inv derive s" "r \<in> set (ls_nullifiers s)" "contract_of s (nr_event r) = Some pool"
    and "mark_notes pool (nr_id r) (nr_nullifier r) s = Inr t"
  shows "scan_inv derive t \<and> t = s\<lparr>ls_user_notes := ls_user_notes t\<rparr> \<and> note_keys t = note_keys s \<and> settled_row t pool r \<and>
    (\<forall>q. settled_row s pool q \<longrightarrow> settled_row t pool q)"
proof -
  note t = mark_notes_Inr [OF assms(4)]
  have s: "chain_ok s" "notes_ok s" "notes_derived derive s" using assms(1) by (simp_all add: scan_inv_def)
  have un: "ls_user_notes t = map (set_spent s pool r) (ls_user_notes s)" by (simp add: t(1))
  have "spent_once (map (set_spent s pool r) (ls_user_notes s))"
    using spent_once_map [of "ls_user_notes s" "spends_note s pool (nr_nullifier r)" "nr_id r"] s(2) t(2)
    unfolding set_spent_def [abs_def] by (auto simp: notes_ok_def spends_note_def)
  moreover have "\<forall>n \<in> set (ls_user_notes t). note_ok t n"
    using s(2) set_spent_note_ok [OF s(1) _ assms(2,3)] unfolding un by (auto simp: t(1) note_ok_insert notes_ok_def)
  ultimately have "notes_ok t" using s(2) unfolding notes_ok_def un by (simp add: comp_def)
  moreover have "notes_derived derive t" using s(3) unfolding notes_derived_def un t(1) note_derived_same [OF same_chain_notes] by simp
  moreover have "chain_ok t" using s(1) by (simp add: t(1))
  moreover have "note_keys t = note_keys s" unfolding note_keys_def un by (simp add: image_image)
  moreover have "settled_row t pool r" unfolding settled_row_def un
    using note_ok_settles [OF s(1) _ assms(2)] s(2) by (auto simp: t(1) notes_ok_def)
  moreover have "settled_row t pool q" if "settled_row s pool q" for q
    using that unfolding settled_row_def un by (auto simp: t(1) set_spent_def spends_note_def)
  ultimately show ?thesis by (simp add: scan_inv_def t(1))
qed

lemma reconcile_rows_ok:
  assumes "scan_inv derive s" "set rows \<subseteq> {r \<in> set (ls_nullifiers s). contract_of s (nr_event r) = Some pool}"
    and "reconcile_rows pool rows m s = Inr (s', m')"
  shows "scan_inv derive s' \<and> s' = s\<lparr>ls_user_notes := ls_user_notes s'\<rparr> \<and> note_keys s' = note_keys s \<and>
    (\<forall>r \<in> set rows. settled_row s' pool r) \<and> (\<forall>q. settled_row s pool q \<longrightarrow> settled_row s' pool q) \<and> m' = foldl max m (map nr_id rows)"
  using assms
proof (induction rows arbitrary: m s)
  case (Cons r rows)
  from Cons.prems(3) obtain t where mark: "mark_notes pool (nr_id r) (nr_nullifier r) s = Inr t"
    and run: "reconcile_rows pool rows (max m (nr_id r)) t = Inr (s', m')"
    by (auto simp: andThen_Inr Let_def max_def split: if_splits)
  have r: "r \<in> set (ls_nullifiers s)" "contract_of s (nr_event r) = Some pool" using Cons.prems(2) by auto
  note t = mark_notes_ok [OF Cons.prems(1) r mark]
  obtain x where x: "t = s\<lparr>ls_user_notes := x\<rparr>" using t by blast
  have rows: "set rows \<subseteq> {r \<in> set (ls_nullifiers t). contract_of t (nr_event r) = Some pool}" using Cons.prems(2) by (simp add: x)
  from Cons.IH [OF t [THEN conjunct1] rows run] have ih: "scan_inv derive s'" "s' = t\<lparr>ls_user_notes := ls_user_notes s'\<rparr>" "note_keys s' = note_keys t"
    "\<forall>r \<in> set rows. settled_row s' pool r" "\<forall>q. settled_row t pool q \<longrightarrow> settled_row s' pool q" "m' = foldl max (max m (nr_id r)) (map nr_id rows)" by blast+
  have "s' = s\<lparr>ls_user_notes := ls_user_notes s'\<rparr>" using ih(2) unfolding x by simp
  then show ?case using ih t by auto
qed simp

definition steps :: "derive_fn \<Rightarrow> account_keys list \<Rightarrow> local_store \<Rightarrow> local_store \<Rightarrow> bool" where
  "steps derive A s s' \<longleftrightarrow> loop_inv derive A s' \<and> same_chain s s' \<and> note_keys s \<subseteq> note_keys s' \<and>
     (\<forall>p a. backlog s' p a \<le> backlog s p a) \<and> (\<forall>p. length (pending s' p) \<le> length (pending s p))"

lemma steps_refl: "loop_inv derive A s \<Longrightarrow> steps derive A s s"
  by (simp add: steps_def same_chain_refl)

lemma steps_trans: "steps derive A s t \<Longrightarrow> steps derive A t u \<Longrightarrow> steps derive A s u"
  unfolding steps_def using same_chain_trans le_trans by (metis subset_trans)

lemma pending_advances:
  assumes "advances derive A s s'"
  shows "pending s' = pending s"
proof -
  have sc: "same_chain s s'" and m: "ls_nullifier_scan s' = ls_nullifier_scan s" using assms by (simp_all add: advances_def)
  show ?thesis by (rule ext) (simp add: pending_def nullifier_mark_def m same_chain_reads(5,8) [OF sc])
qed

lemma advances_steps: "advances derive A s s' \<Longrightarrow> steps derive A s s'"
  using pending_advances [of derive A s s'] by (simp add: steps_def advances_def)

lemma nullifier_mark_upd: "nullifier_mark (s\<lparr>ls_nullifier_scan := (ls_nullifier_scan s)(pool \<mapsto> m)\<rparr>) p = (if p = pool then m else nullifier_mark s p)"
  by (simp add: nullifier_mark_def)

lemma reconcile_pool_Inr:
  assumes "reconcile_pool pool limit s = Inr (s', did)"
  defines "t \<equiv> s\<lparr>ls_nullifier_scan := (ls_nullifier_scan s)(pool \<mapsto> nullifier_mark s pool)\<rparr>"
  obtains u m where "reconcile_rows pool (take limit (pending s pool)) (nullifier_mark s pool) t = Inr (u, m)"
    "s' = (if nullifier_mark s pool < m then u\<lparr>ls_nullifier_scan := (ls_nullifier_scan u)(pool \<mapsto> m)\<rparr> else u)"
    "did \<longleftrightarrow> take limit (pending s pool) \<noteq> []"
  using assms by (auto simp: reconcile_pool_def Let_def andThen_Inr)

lemma pending_less:
  assumes "m \<le> m'" "m < nr_id r" "nr_id r \<le> m'" "P r" "r \<in> set xs"
  shows "length (filter (\<lambda>n. P n \<and> m' < nr_id n) xs) < length (filter (\<lambda>n. P n \<and> m < nr_id n) xs)"
  using assms by (intro length_filter_strict [where x = r]) auto

lemma reconcile_pool_ok:
  assumes "loop_inv derive A s" "0 < limit" "reconcile_pool pool limit s = Inr (s', did)"
  shows "steps derive A s s' \<and> (did \<longrightarrow> length (pending s' pool) < length (pending s pool)) \<and> (\<not> did \<longrightarrow> pending s' pool = [])"
proof -
  let ?m0 = "nullifier_mark s pool" and ?rows = "take limit (pending s pool)"
  let ?t = "s\<lparr>ls_nullifier_scan := (ls_nullifier_scan s)(pool \<mapsto> ?m0)\<rparr>"
  obtain u m where run: "reconcile_rows pool ?rows ?m0 ?t = Inr (u, m)"
    and s': "s' = (if ?m0 < m then u\<lparr>ls_nullifier_scan := (ls_nullifier_scan u)(pool \<mapsto> m)\<rparr> else u)" and did: "did \<longleftrightarrow> ?rows \<noteq> []"
    using assms(3) by (rule reconcile_pool_Inr)
  have s: "chain_ok s" "notes_ok s" "notes_derived derive s" "scanned derive A s" "marks_ok s" using assms(1) by (simp_all add: loop_inv_def scan_inv_def)
  have mt: "nullifier_mark ?t = nullifier_mark s" by (rule ext) (simp add: nullifier_mark_upd)
  have "notes_ok ?t" using s(2) note_ok_scan [of ?t s, OF _ same_chain_nullifier_scan mt] by simp
  moreover have "notes_derived derive ?t" using s(3) unfolding notes_derived_def note_derived_same [OF same_chain_nullifier_scan] by simp
  moreover have "chain_ok ?t" using s(1) same_chain_ok(1) [OF same_chain_nullifier_scan] by simp
  ultimately have t: "scan_inv derive ?t" by (simp add: scan_inv_def)
  have sub: "set ?rows \<subseteq> set (pending s pool)" by (rule set_take_subset)
  then have "set ?rows \<subseteq> {r \<in> set (ls_nullifiers ?t). contract_of ?t (nr_event r) = Some pool}" by (auto simp: pending_set)
  note u = reconcile_rows_ok [OF t this run]
  have ut: "u = ?t\<lparr>ls_user_notes := ls_user_notes u\<rparr>" and settles: "\<forall>r \<in> set ?rows. settled_row u pool r" and u_inv: "scan_inv derive u"
    and keys: "note_keys u = note_keys s" using u by auto
  have m: "m = Max (insert ?m0 (nr_id ` set ?rows))" using u by (simp add: foldl_max)
  have ge: "?m0 \<le> m" unfolding m by simp
  have m_in: "m \<in> insert ?m0 (nr_id ` set ?rows)" unfolding m by (rule Max_in) auto
  have above: "\<forall>r \<in> set ?rows. ?m0 < nr_id r \<and> nr_id r \<le> m" using sub unfolding m by (auto simp: pending_set)
  have sc_u: "same_chain s u"
    by (subst ut) (rule same_chain_trans [OF same_chain_nullifier_scan same_chain_notes])
  have sc: "same_chain s s'" using sc_u same_chain_trans same_chain_nullifier_scan by (auto simp: s')
  have un: "ls_user_notes s' = ls_user_notes u" by (simp add: s')
  have mark_u: "nullifier_mark u = nullifier_mark s" by (subst ut) (simp add: mt)
  have mark: "nullifier_mark s' p = (if p = pool then m else nullifier_mark s p)" for p
    using ge by (auto simp: s' nullifier_mark_upd mark_u)
  have cs: "ls_commitment_scan s' = ls_commitment_scan s" unfolding s' by (subst (1 2) ut) simp
  then have smark: "scan_mark s' = scan_mark s" by (simp add: fun_eq_iff scan_mark_def)
  have keeps: "note_ok s' n" if n: "note_ok u n" "n \<in> set (ls_user_notes u)" for n
    unfolding note_ok_def same_chain_reads(5,6,8,9) [OF sc]
  proof (intro conjI allI ballI impI)
    show "\<exists>c \<in> set (ls_commitments s). cr_id c = ur_commitment_id n \<and> cr_commitment c = ur_id n"
      using n(1) by (simp add: note_ok_def same_chain_reads [OF sc_u])
    show "\<exists>r \<in> set (ls_nullifiers s). nr_id r = i \<and> nr_nullifier r = ur_expected_nullifier n \<and> contract_of s (nr_event r) = note_contract s n"
      if "ur_nullifier_id n = Some i" for i using n(1) that by (simp add: note_ok_def same_chain_reads [OF sc_u])
    fix r p assume r: "r \<in> set (ls_nullifiers s)" "contract_of s (nr_event r) = Some p" "note_contract s n = Some p"
      "nr_nullifier r = ur_expected_nullifier n" "nr_id r \<le> nullifier_mark s' p"
    show "ur_nullifier_id n = Some (nr_id r)"
    proof (cases "p = pool \<and> ?m0 < nr_id r")
      case False
      then have "nr_id r \<le> nullifier_mark u p" using r(5) by (auto simp: mark mark_u split: if_splits)
      then show ?thesis using n(1) r(1-4) by (simp add: note_ok_def same_chain_reads [OF sc_u])
    next
      case True
      then have pend: "r \<in> set (pending s pool)" using r(1,2) by (simp add: pending_set)
      have le: "nr_id r \<le> m" using r(5) True by (simp add: mark)
      then obtain q where "q \<in> set ?rows" "nr_id q = m" using True m_in by auto
      then have "r \<in> set ?rows" using take_below [OF pending_sorted [OF s(1)] pend] le by blast
      then show ?thesis using settles n(2) r(3,4) True by (simp add: settled_row_def same_chain_reads [OF sc_u])
    qed
  qed
  have u_ok: "notes_ok u" "notes_derived derive u" using u_inv by (simp_all add: scan_inv_def)
  have "notes_ok s'" using u_ok(1) keeps unfolding notes_ok_def un by blast
  moreover have "notes_derived derive s'" using u_ok(2) unfolding notes_derived_def un note_derived_same [OF sc] note_derived_same [OF sc_u] .
  moreover have "chain_ok s'" using s(1) same_chain_ok(1) [OF sc] by simp
  moreover have nk: "note_keys s' = note_keys s" using keys by (simp add: s')
  moreover have "scanned derive A s'" using s(4) unfolding scanned_def same_chain_reads(6,8) [OF sc] smark covered_def nk .
  moreover have "marks_ok s'"
  proof -
    have lt: "?m0 < next_id (map nr_id (ls_nullifiers s))"
      using s(5) by (cases "ls_nullifier_scan s pool") (auto simp: marks_ok_def nullifier_mark_def)
    have "m < next_id (map nr_id (ls_nullifiers s))"
    proof (cases "m = ?m0")
      case False
      then obtain r where "r \<in> set ?rows" "nr_id r = m" using m_in by auto
      then show ?thesis using sub next_id_greater [of "nr_id r" "map nr_id (ls_nullifiers s)"] by (auto simp: pending_set)
    qed (use lt in simp)
    moreover have "ls_nullifier_scan s' p \<in> {ls_nullifier_scan s p, Some ?m0, Some m}" for p
      unfolding s' by (subst (1 2) ut) auto
    moreover have "\<And>p k. ls_nullifier_scan s p = Some k \<Longrightarrow> k < next_id (map nr_id (ls_nullifiers s))" using s(5) by (simp add: marks_ok_def)
    ultimately have "k < next_id (map nr_id (ls_nullifiers s))" if "ls_nullifier_scan s' p = Some k" for p k
      using that lt by (metis insertE option.inject singletonD)
    then show ?thesis using s(5) unfolding marks_ok_def same_chain_reads(5,6) [OF sc] cs by blast
  qed
  moreover have "\<forall>a \<in> set A. keyed s' a" using assms(1) by (simp add: loop_inv_def keyed_same [OF sc])
  ultimately have inv: "loop_inv derive A s'" by (simp add: loop_inv_def scan_inv_def)
  have pend: "length (pending s' p) = length (filter (\<lambda>n. contract_of s (nr_event n) = Some p \<and> nullifier_mark s' p < nr_id n) (ls_nullifiers s))" for p
    by (simp add: pending_def same_chain_reads [OF sc])
  have "length (pending s' p) \<le> length (pending s p)" for p
    unfolding pend unfolding pending_def length_sort using ge by (intro length_filter_mono) (auto simp: mark split: if_splits)
  moreover have "length (pending s' pool) < length (pending s pool)" if d: did
  proof -
    have "?rows \<noteq> []" using d did by blast
    then obtain r where r: "r \<in> set ?rows" by (meson last_in_set)
    then have "r \<in> set (ls_nullifiers s)" "contract_of s (nr_event r) = Some pool" "?m0 < nr_id r" "nr_id r \<le> m"
      using sub above by (auto simp: pending_set)
    from pending_less [where P = "\<lambda>n. contract_of s (nr_event n) = Some pool", OF ge this(3,4) this(2,1)] show ?thesis
      unfolding pend unfolding pending_def length_sort mark if_P [OF refl] .
  qed
  moreover have "pending s' pool = []" if "\<not> did"
  proof -
    have "pending s pool = []" using that did assms(2) by auto
    then show ?thesis using \<open>length (pending s' pool) \<le> length (pending s pool)\<close> by simp
  qed
  ultimately show ?thesis using inv sc nk by (simp add: steps_def backlog_def smark same_chain_reads(11) [OF sc])
qed

lemma reconcile_pools_ok:
  assumes "0 < limit"
  shows "loop_inv derive A s \<Longrightarrow> reconcile_pools limit pools b s = (s', res) \<Longrightarrow>
    steps derive A s s' \<and> (\<forall>b'. res = Inr b' \<longrightarrow>
      (b' \<and> \<not> b \<longrightarrow> (\<exists>p \<in> set pools. length (pending s' p) < length (pending s p))) \<and> (b \<longrightarrow> b') \<and>
      (\<not> b' \<longrightarrow> (\<forall>p \<in> set pools. pending s' p = [])))"
proof (induction pools arbitrary: b s)
  case Nil
  then show ?case by (auto simp: steps_refl)
next
  case (Cons pool pools)
  show ?case
  proof (cases "reconcile_pool pool limit s")
    case (Inl e)
    then show ?thesis using Cons.prems by (auto simp: steps_refl)
  next
    case (Inr r)
    obtain t did where r: "r = (t, did)" by fastforce
    have t: "steps derive A s t" and less: "did \<longrightarrow> length (pending t pool) < length (pending s pool)"
      and out: "\<not> did \<longrightarrow> pending t pool = []"
      using reconcile_pool_ok [OF Cons.prems(1) assms Inr [unfolded r]] by blast+
    have run: "reconcile_pools limit pools (b \<or> did) t = (s', res)" using Cons.prems(2) Inr r by simp
    have "loop_inv derive A t" using t by (simp add: steps_def)
    note ih = Cons.IH [OF this run]
    have ts: "steps derive A t s'" using ih by (rule conjunct1)
    have low: "length (pending s' p) \<le> length (pending t p)" "length (pending t p) \<le> length (pending s p)" for p
      using t ts by (simp_all add: steps_def)
    show ?thesis
    proof (intro conjI allI impI)
      show "steps derive A s s'" using steps_trans [OF t ts] .
      fix b' assume res: "res = Inr b'"
      note i = ih [THEN conjunct2, THEN spec, THEN mp, OF res]
      show "b'" if "b" using i [THEN conjunct2, THEN conjunct1] that by blast
      show "\<exists>p \<in> set (pool # pools). length (pending s' p) < length (pending s p)" if g: "b' \<and> \<not> b"
      proof (cases did)
        case True
        then have "length (pending s' pool) < length (pending s pool)" using less low(1) [of pool] by linarith
        then show ?thesis by simp
      next
        case False
        then obtain p where "p \<in> set pools" "length (pending s' p) < length (pending t p)" using i [THEN conjunct1] g by blast
        then show ?thesis using low(2) [of p] by (intro bexI [of _ p]) auto
      qed
      show "\<forall>p \<in> set (pool # pools). pending s' p = []" if n: "\<not> b'"
      proof -
        have "\<not> did" using i [THEN conjunct2, THEN conjunct1] n by blast
        then have "pending s' pool = []" using out low(1) [of pool] by simp
        then show ?thesis using i [THEN conjunct2, THEN conjunct2, THEN mp, OF n] by simp
      qed
    qed
  qed
qed

lemma pending_other: "p \<notin> set (pools_of s (map nr_event (ls_nullifiers s))) \<Longrightarrow> pending s p = []"
  using pending_set [of _ s p] by (cases "pending s p") (fastforce simp: pools_of_set)+

lemma reconcile_nullifiers_ok:
  assumes "loop_inv derive A s" "0 < limit" "reconcile_nullifiers limit s = (s', res)"
  shows "steps derive A s s' \<and> (res = Inr True \<longrightarrow> (\<exists>p \<in> set (pools_of s (map nr_event (ls_nullifiers s))). length (pending s' p) < length (pending s p))) \<and>
    (res = Inr False \<longrightarrow> (\<forall>p. pending s' p = []))"
proof -
  let ?ids = "pools_of s (map nr_event (ls_nullifiers s))"
  have run: "reconcile_pools limit ?ids False s = (s', res)" using assms(2,3) by (simp add: reconcile_nullifiers_def)
  note ok = reconcile_pools_ok [OF assms(2,1) run]
  have sc: "same_chain s s'" using ok [THEN conjunct1] by (simp add: steps_def)
  show ?thesis
  proof (intro conjI impI allI)
    show "steps derive A s s'" using ok by (rule conjunct1)
    show "\<exists>p \<in> set ?ids. length (pending s' p) < length (pending s p)" if "res = Inr True"
      using ok [THEN conjunct2, THEN spec, THEN mp, OF that, THEN conjunct1] by simp
    fix p assume "res = Inr False"
    note all = ok [THEN conjunct2, THEN spec, THEN mp, OF this, THEN conjunct2, THEN conjunct2]
    show "pending s' p = []"
    proof (cases "p \<in> set ?ids")
      case True
      then show ?thesis using all by blast
    next
      case False
      then show ?thesis by (intro pending_other) (simp only: same_chain_reads(5) [OF sc] pools_of_same [OF sc] not_False_eq_True)
    qed
  qed
qed

section \<open>Progress\<close>

text \<open>The rows the scans have still to read.\<close>

definition work :: "account_keys list \<Rightarrow> local_store \<Rightarrow> nat" where
  "work A s = (\<Sum>p \<in> set (pools_of s (map cr_event (ls_commitments s))). \<Sum>a \<in> set A. backlog s p a) +
     (\<Sum>p \<in> set (pools_of s (map nr_event (ls_nullifiers s))). length (pending s p))"

lemma sum_less:
  fixes f g :: "'a \<Rightarrow> nat"
  assumes "finite S" "x \<in> S" "f x < g x" "\<And>y. y \<in> S \<Longrightarrow> f y \<le> g y"
  shows "sum f S < sum g S"
  using sum_strict_mono_ex1 [of S f g] assms by blast

lemma work_steps:
  assumes "steps derive A s s'"
  shows "work A s' \<le> work A s"
    and "\<exists>p \<in> set (pools_of s (map cr_event (ls_commitments s))). gains A p s s' \<Longrightarrow> work A s' < work A s"
    and "\<exists>p \<in> set (pools_of s (map nr_event (ls_nullifiers s))). length (pending s' p) < length (pending s p) \<Longrightarrow> work A s' < work A s"
proof -
  let ?C = "set (pools_of s (map cr_event (ls_commitments s)))" and ?N = "set (pools_of s (map nr_event (ls_nullifiers s)))"
  have sc: "same_chain s s'" and b: "\<And>p a. backlog s' p a \<le> backlog s p a" and n: "\<And>p. length (pending s' p) \<le> length (pending s p)"
    using assms by (simp_all add: steps_def)
  have w: "work A s' = (\<Sum>p \<in> ?C. \<Sum>a \<in> set A. backlog s' p a) + (\<Sum>p \<in> ?N. length (pending s' p))"
    by (simp only: work_def same_chain_reads(5,6) [OF sc] pools_of_same [OF sc])
  have c: "(\<Sum>p \<in> ?C. \<Sum>a \<in> set A. backlog s' p a) \<le> (\<Sum>p \<in> ?C. \<Sum>a \<in> set A. backlog s p a)" by (intro sum_mono b)
  have m: "(\<Sum>p \<in> ?N. length (pending s' p)) \<le> (\<Sum>p \<in> ?N. length (pending s p))" by (intro sum_mono n)
  show "work A s' \<le> work A s" unfolding w unfolding work_def using c m by linarith
  show "work A s' < work A s" if g: "\<exists>p \<in> ?C. gains A p s s'"
  proof -
    obtain p a where p: "p \<in> ?C" "a \<in> set A" "backlog s' p a < backlog s p a" using g unfolding gains_def by blast
    have "(\<Sum>a \<in> set A. backlog s' p a) < (\<Sum>a \<in> set A. backlog s p a)" by (intro sum_less [OF _ p(2)]) (simp_all add: p(3) b)
    then have "(\<Sum>p \<in> ?C. \<Sum>a \<in> set A. backlog s' p a) < (\<Sum>p \<in> ?C. \<Sum>a \<in> set A. backlog s p a)"
      by (intro sum_less [OF _ p(1)]) (simp_all add: sum_mono b)
    then show ?thesis unfolding w unfolding work_def using m by linarith
  qed
  show "work A s' < work A s" if g: "\<exists>p \<in> ?N. length (pending s' p) < length (pending s p)"
  proof -
    obtain p where p: "p \<in> ?N" "length (pending s' p) < length (pending s p)" using g by blast
    have "(\<Sum>p \<in> ?N. length (pending s' p)) < (\<Sum>p \<in> ?N. length (pending s p))" by (intro sum_less [OF _ p(1)]) (simp_all add: p(2) n)
    then show ?thesis unfolding w unfolding work_def using c by linarith
  qed
qed

text \<open>A call keeps the invariants; it reports work exactly if it read a row.\<close>

lemma process_notes_ok:
  assumes "loop_inv derive (get_accounts_with_latest_keypairs s) s" "0 < limit" "process_notes derive limit s = (s', res)"
  defines "A \<equiv> get_accounts_with_latest_keypairs s"
  shows "steps derive A s s' \<and> (res = Inr True \<longrightarrow> work A s' < work A s) \<and>
    (res = Inr False \<longrightarrow> (\<forall>p. \<forall>a \<in> set A. backlog s' p a = 0) \<and> (\<forall>p. pending s' p = []))"
proof -
  obtain t r where scan: "scan_commitments_for_user_notes derive limit s = (t, r)" by fastforce
  note sc_ok = scan_commitments_ok [OF assms(1) scan, folded A_def]
  have st: "steps derive A s t" using advances_steps sc_ok by blast
  show ?thesis
  proof (cases r)
    case (Inl e)
    then have "s' = t" "res = Inl e" using assms(3) scan by (simp_all add: process_notes_def)
    then show ?thesis using st by simp
  next
    case (Inr b)
    obtain u r' where rec: "reconcile_nullifiers limit t = (u, r')" by fastforce
    have inv: "loop_inv derive A t" using st by (simp add: steps_def)
    note rec_ok = reconcile_nullifiers_ok [OF inv assms(2) rec]
    have tu: "steps derive A t u" using rec_ok by blast
    have su: "steps derive A s u" using steps_trans [OF st tu] .
    have low: "backlog u p a \<le> backlog t p a" for p a using tu by (simp add: steps_def)
    have s': "s' = u" using assms(3) scan Inr rec by (simp add: process_notes_def split: sum.splits)
    show ?thesis
    proof (intro conjI impI allI ballI)
      show "steps derive A s s'" using su s' by simp
      show "work A s' < work A s" if "res = Inr True"
      proof -
        from that consider "b" | "r' = Inr True" using assms(3) scan Inr rec by (auto simp: process_notes_def split: sum.splits)
        then show ?thesis
        proof cases
          case 1
          then have "work A t < work A s" using sc_ok Inr work_steps(2) [OF st] by simp
          then show ?thesis using work_steps(1) [OF tu] unfolding s' by (rule le_less_trans [rotated])
        next
          case 2
          then have "work A u < work A t" using rec_ok work_steps(3) [OF tu] by simp
          then show ?thesis using work_steps(1) [OF st] unfolding s' by (rule less_le_trans)
        qed
      qed
      assume "res = Inr False"
      then have out: "\<not> b" "r' = Inr False" using assms(3) scan Inr rec by (auto simp: process_notes_def split: sum.splits)
      show "pending s' p = []" for p using rec_ok out(2) s' by simp
      show "backlog s' p a = 0" if "a \<in> set A" for p a
        using sc_ok Inr out(1) assms(2) that low [of p a] s' by auto
    qed
  qed
qed

section \<open>Scans that do not fail\<close>

definition derive_total :: "derive_fn \<Rightarrow> local_store \<Rightarrow> bool" where
  "derive_total derive s \<longleftrightarrow> (\<forall>a \<in> set (get_accounts_with_latest_keypairs s). \<forall>c \<in> set (ls_commitments s). \<exists>d. derive a c = Inr d)"

text \<open>A nullifier belongs to one commitment, among those the stored keys can decrypt.\<close>

definition derive_unique :: "derive_fn \<Rightarrow> local_store \<Rightarrow> bool" where
  "derive_unique derive s \<longleftrightarrow> (\<forall>a c d a' c' d'. keyed s a \<longrightarrow> keyed s a' \<longrightarrow> c \<in> set (ls_commitments s) \<longrightarrow> c' \<in> set (ls_commitments s) \<longrightarrow>
     derive a c = Inr (Some d) \<longrightarrow> derive a' c' = Inr (Some d') \<longrightarrow> dn_expected_nullifier d = dn_expected_nullifier d' \<longrightarrow> c = c')"

lemma derive_same:
  "same_chain s s' \<Longrightarrow> derive_total derive s' = derive_total derive s" "same_chain s s' \<Longrightarrow> derive_unique derive s' = derive_unique derive s"
  by (simp_all add: derive_total_def derive_unique_def keyed_def same_chain_reads(3,6) accounts_same)

lemma scan_rows_total: "(\<forall>c \<in> set rows. \<exists>d. derive a c = Inr d) \<Longrightarrow> \<exists>r. scan_rows derive pool a rows m s = Inr r"
proof (induction rows arbitrary: m s)
  case (Cons row rows)
  then obtain d where "derive a row = Inr d" by auto
  then show ?case using Cons unfolding scan_rows_Cons by simp
qed simp

lemma account_cycle_total:
  "(\<forall>a \<in> set accounts. \<forall>c \<in> set (ls_commitments s). \<exists>d. derive a c = Inr d) \<Longrightarrow>
    \<exists>t q' p'. account_cycle derive pool accounts q p s = Inr (t, q', p') \<and> ls_commitments t = ls_commitments s"
proof (induction accounts arbitrary: q p s)
  case (Cons a accounts)
  let ?rows = "next_rows s pool (ak_account_id a) q"
  consider (out) "q = 0" | (none) "0 < q" "?rows = []" | (rows) "0 < q" "?rows \<noteq> []" by auto
  then show ?case
  proof cases
    case rows
    have "set ?rows \<subseteq> set (ls_commitments s)"
      unfolding next_rows_def by (rule subset_trans [OF set_take_subset]) (auto simp: unscanned_set)
    then have "\<forall>c \<in> set ?rows. \<exists>d. derive a c = Inr d" using Cons.prems by auto
    then obtain t m where tm: "scan_rows derive pool a ?rows (scan_mark s pool (ak_account_id a)) s = Inr (t, m)"
      using scan_rows_total [of ?rows derive a pool] by (metis surj_pair)
    have tc: "ls_commitments t = ls_commitments s" using same_chain_reads(6) [OF scan_rows_reads [OF tm]] .
    let ?u = "marked t pool (ak_account_id a) m"
    have uc: "ls_commitments ?u = ls_commitments s" using tc by (simp add: marked_def)
    then have "\<forall>a \<in> set accounts. \<forall>c \<in> set (ls_commitments ?u). \<exists>d. derive a c = Inr d" using Cons.prems by simp
    from Cons.IH [OF this, of "q - length ?rows" True] show ?thesis using rows tm uc by (simp add: marked_def)
  qed (use Cons in auto)
qed simp

lemma pool_loop_total:
  "(\<forall>a \<in> set A. \<forall>c \<in> set (ls_commitments s). \<exists>d. derive a c = Inr d) \<Longrightarrow>
    \<exists>t b. pool_loop derive pool A q p s = Inr (t, b) \<and> ls_commitments t = ls_commitments s"
proof (induction derive pool A q p s rule: pool_loop.induct)
  case (1 derive pool A q p s)
  obtain t q' b where cyc: "account_cycle derive pool A q False s = Inr (t, q', b)" and c: "ls_commitments t = ls_commitments s"
    using account_cycle_total [OF 1(2)] by blast
  show ?case
  proof (cases "q = 0 \<or> \<not> b")
    case True
    then show ?thesis using pool_loop.simps [of derive pool A q p s] cyc c by auto
  next
    case False
    have "\<forall>a \<in> set A. \<forall>c \<in> set (ls_commitments t). \<exists>d. derive a c = Inr d" using 1(2) c by simp
    then have "\<exists>u b'. pool_loop derive pool A q' True t = Inr (u, b') \<and> ls_commitments u = ls_commitments t"
      using 1(1) [OF _ cyc] False by simp
    then show ?thesis using pool_loop.simps [of derive pool A q p s] cyc c False by simp
  qed
qed

lemma scan_pools_total:
  "(\<forall>a \<in> set A. \<forall>c \<in> set (ls_commitments s). \<exists>d. derive a c = Inr d) \<Longrightarrow> \<exists>t b. scan_pools derive A pools p s = (t, Inr b)"
proof (induction pools arbitrary: p s)
  case (Cons x pools)
  obtain pool q where x: "x = (pool, q)" by fastforce
  have "ls_commitments (start_scan pool A s) = ls_commitments s" by (simp add: start_scan_def)
  then obtain t b where "pool_loop derive pool A q False (start_scan pool A s) = Inr (t, b)" "ls_commitments t = ls_commitments s"
    using pool_loop_total [of A "start_scan pool A s" derive pool q False] Cons.prems by auto
  then show ?case using Cons x by auto
qed simp

lemma scan_commitments_total:
  assumes "derive_total derive s" "length (pools_of s (map cr_event (ls_commitments s))) < 2 ^ 32"
  shows "\<exists>t b. scan_commitments_for_user_notes derive limit s = (t, Inr b)"
  using assms(2) scan_pools_total [of "get_accounts_with_latest_keypairs s" s derive] assms(1)
  by (auto simp: scan_commitments_for_user_notes_def Let_def derive_total_def)

lemma filter_at_most_one:
  assumes "distinct (map f xs)" "\<And>x y. x \<in> set xs \<Longrightarrow> y \<in> set xs \<Longrightarrow> P x \<Longrightarrow> P y \<Longrightarrow> f x = f y"
  shows "length (filter P xs) \<le> 1"
  using assms
proof (induction xs)
  case (Cons x xs)
  show ?case
  proof (cases "P x")
    case True
    have "\<not> P y" if "y \<in> set xs" for y
    proof
      assume "P y"
      then have "f y = f x" using Cons.prems(2) [of y x] True that by simp
      then have "f x \<in> f ` set xs" using that by (metis imageI)
      then show False using Cons.prems(1) by simp
    qed
    then have "filter P xs = []" by (simp add: filter_empty_conv)
    then show ?thesis by simp
  qed (use Cons in auto)
qed simp

lemma derived_same_commitment:
  assumes "derive_unique derive s" "note_derived derive s n" "note_derived derive s n'" "ur_expected_nullifier n = ur_expected_nullifier n'"
  shows "ur_commitment_id n = ur_commitment_id n'"
proof -
  obtain a c d a' c' d' where "keyed s a" "keyed s a'" "c \<in> set (ls_commitments s)" "cr_id c = ur_commitment_id n" "derive a c = Inr (Some d)"
    "ur_expected_nullifier n = dn_expected_nullifier d" "c' \<in> set (ls_commitments s)" "cr_id c' = ur_commitment_id n'"
    "derive a' c' = Inr (Some d')" "ur_expected_nullifier n' = dn_expected_nullifier d'"
    using assms(2,3) unfolding note_derived_def by blast
  moreover from this have "c = c'" using assms(1,4) unfolding derive_unique_def by metis
  ultimately show ?thesis by simp
qed

lemma mark_notes_total:
  assumes "scan_inv derive s" "derive_unique derive s" "r \<in> set (ls_nullifiers s)"
  shows "\<exists>t. mark_notes pool (nr_id r) (nr_nullifier r) s = Inr t"
proof -
  let ?P = "spends_note s pool (nr_nullifier r)"
  have s: "chain_ok s" "notes_ok s" "notes_derived derive s" using assms(1) by (simp_all add: scan_inv_def)
  have same: "ur_commitment_id n = ur_commitment_id n'"
    if "n \<in> set (ls_user_notes s)" "n' \<in> set (ls_user_notes s)" "ur_expected_nullifier n = ur_expected_nullifier n'" for n n'
    using derived_same_commitment [OF assms(2) _ _ that(3)] s(3) that(1,2) by (simp add: notes_derived_def)
  have dist: "distinct (map ur_commitment_id (ls_user_notes s))" using s(2) by (simp add: notes_ok_def)
  have "length (filter ?P (ls_user_notes s)) \<le> 1"
  proof (rule filter_at_most_one [OF dist])
    fix x y assume "x \<in> set (ls_user_notes s)" "y \<in> set (ls_user_notes s)" "?P x" "?P y"
    then show "ur_commitment_id x = ur_commitment_id y" by (intro same) (simp_all add: spends_note_def)
  qed
  moreover have "Some (nr_id r) \<notin> ur_nullifier_id ` set (ls_user_notes s)" if hit: "filter ?P (ls_user_notes s) \<noteq> []"
  proof
    obtain n where n: "n \<in> set (ls_user_notes s)" "?P n" using hit by (auto simp: filter_empty_conv)
    assume "Some (nr_id r) \<in> ur_nullifier_id ` set (ls_user_notes s)"
    then obtain n' where n': "n' \<in> set (ls_user_notes s)" "ur_nullifier_id n' = Some (nr_id r)" by force
    then obtain q where "q \<in> set (ls_nullifiers s)" "nr_id q = nr_id r" "nr_nullifier q = ur_expected_nullifier n'"
      using s(2) note_ok_spent unfolding notes_ok_def by blast
    then have "ur_expected_nullifier n' = nr_nullifier r" using nullifier_id_unique [OF s(1) _ assms(3)] by force
    then have "ur_commitment_id n' = ur_commitment_id n" using same [OF n'(1) n(1)] n(2) by (simp add: spends_note_def)
    then have "n' = n" using dist n'(1) n(1) by (auto simp: distinct_map dest: inj_onD)
    then show False using n'(2) n(2) by (simp add: spends_note_def)
  qed
  ultimately show ?thesis by (cases "filter ?P (ls_user_notes s)") (auto simp: mark_notes_def Let_def)
qed

lemma reconcile_rows_total:
  "scan_inv derive s \<Longrightarrow> derive_unique derive s \<Longrightarrow> set rows \<subseteq> {r \<in> set (ls_nullifiers s). contract_of s (nr_event r) = Some pool} \<Longrightarrow>
    \<exists>r. reconcile_rows pool rows m s = Inr r"
proof (induction rows arbitrary: m s)
  case (Cons r rows)
  have r: "r \<in> set (ls_nullifiers s)" "contract_of s (nr_event r) = Some pool" using Cons.prems(3) by auto
  obtain t where mark: "mark_notes pool (nr_id r) (nr_nullifier r) s = Inr t" using mark_notes_total [OF Cons.prems(1,2) r(1)] by blast
  note t = mark_notes_ok [OF Cons.prems(1) r mark]
  obtain x where x: "t = s\<lparr>ls_user_notes := x\<rparr>" using t by blast
  have "derive_unique derive t" using Cons.prems(2) unfolding x by (simp add: derive_same(2) [OF same_chain_notes])
  moreover have "set rows \<subseteq> {r \<in> set (ls_nullifiers t). contract_of t (nr_event r) = Some pool}" using Cons.prems(3) by (simp add: x)
  ultimately show ?case using Cons.IH [OF t [THEN conjunct1]] mark by (simp add: Let_def)
qed simp

lemma reconcile_pool_total:
  assumes "loop_inv derive A s" "derive_unique derive s"
  shows "\<exists>t b. reconcile_pool pool limit s = Inr (t, b)"
proof -
  let ?t = "s\<lparr>ls_nullifier_scan := (ls_nullifier_scan s)(pool \<mapsto> nullifier_mark s pool)\<rparr>"
  have mt: "nullifier_mark ?t = nullifier_mark s" by (rule ext) (simp add: nullifier_mark_upd)
  have s: "chain_ok s" "notes_ok s" "notes_derived derive s" using assms(1) by (simp_all add: loop_inv_def scan_inv_def)
  have "notes_ok ?t" using s(2) note_ok_scan [of ?t s, OF _ same_chain_nullifier_scan mt] by simp
  moreover have "notes_derived derive ?t" using s(3) unfolding notes_derived_def note_derived_same [OF same_chain_nullifier_scan] by simp
  moreover have "chain_ok ?t" using s(1) same_chain_ok(1) [OF same_chain_nullifier_scan] by simp
  ultimately have t: "scan_inv derive ?t" by (simp add: scan_inv_def)
  have u: "derive_unique derive ?t" using assms(2) by (simp add: derive_same(2) [OF same_chain_nullifier_scan])
  have "set (take limit (pending s pool)) \<subseteq> set (pending s pool)" by (rule set_take_subset)
  then have "set (take limit (pending s pool)) \<subseteq> {r \<in> set (ls_nullifiers ?t). contract_of ?t (nr_event r) = Some pool}" by (auto simp: pending_set)
  from reconcile_rows_total [OF t u this, of "nullifier_mark s pool"] show ?thesis
    by (auto simp: reconcile_pool_def Let_def)
qed

lemma reconcile_pools_total:
  assumes "0 < limit"
  shows "loop_inv derive A s \<Longrightarrow> derive_unique derive s \<Longrightarrow> \<exists>t b'. reconcile_pools limit pools b s = (t, Inr b')"
proof (induction pools arbitrary: b s)
  case (Cons pool pools)
  obtain t did where run: "reconcile_pool pool limit s = Inr (t, did)" using reconcile_pool_total [OF Cons.prems] by blast
  have st: "steps derive A s t" using reconcile_pool_ok [OF Cons.prems(1) assms run] by blast
  then have "loop_inv derive A t" "derive_unique derive t" using Cons.prems(2) derive_same(2) by (auto simp: steps_def)
  then show ?case using Cons.IH run by simp
qed simp

lemma process_notes_total:
  assumes "loop_inv derive (get_accounts_with_latest_keypairs s) s" "0 < limit" "derive_total derive s" "derive_unique derive s"
    and "length (pools_of s (map cr_event (ls_commitments s))) < 2 ^ 32"
  shows "\<exists>t b. process_notes derive limit s = (t, Inr b)"
proof -
  obtain t b where scan: "scan_commitments_for_user_notes derive limit s = (t, Inr b)" using scan_commitments_total [OF assms(3,5)] by blast
  have st: "steps derive (get_accounts_with_latest_keypairs s) s t" using advances_steps scan_commitments_ok [OF assms(1) scan] by blast
  then have inv: "loop_inv derive (get_accounts_with_latest_keypairs s) t" and u: "derive_unique derive t"
    using assms(4) derive_same(2) by (auto simp: steps_def)
  obtain t' b' where "reconcile_nullifiers limit t = (t', Inr b')"
    using reconcile_pools_total [OF assms(2) inv u] assms(2) unfolding reconcile_nullifiers_def by force
  then show ?thesis using scan by (simp add: process_notes_def)
qed

end
