(* ===== verification/StorageWorker.thy ===== *)
theory StorageWorker imports Events NoteScan ClientMerkle begin

text \<open>
  The worker that owns the local database, from \<^verbatim>\<open>app/crates/platforms/web/src/workers/storage.rs\<close>
  and the request and response types of \<^verbatim>\<open>protocol.rs\<close>: its router, the trees it builds from stored
  leaves, and the loop that processes events and notes.

  The worker is one thread. A request runs to its end without a pause; the processing loop pauses after
  every turn. A step of the worker is therefore one request, the start of the loop, or one turn of it.
  The model starts with the worker initialized (\<open>InitState::Ready\<close>).
\<close>

section \<open>Requests\<close>

record worker_env =
  we_crypto :: crypto_env
  we_xdr :: xdr_env
  we_disclaimer :: string

datatype worker_error =
    StoreError store_error
  | ProverError prover_error
  | NoUserKeys string
  | MissingPoolRoot
  | PoolRootMismatch
  | UnspentNoteNotFound field

record disclosure_inputs_request =
  dq_user_address :: string
  dq_pool_address :: string
  dq_selected_commitment :: field
  dq_pool_root :: "field option"
  dq_pool_next_index :: u32
  dq_tree_depth :: u32

record disclosure_inputs =
  di_root :: field
  di_note_commitment :: field
  di_note_amount :: note_amount
  di_note_private_key :: note_private_key
  di_note_blinding :: field
  di_merkle_path_indices :: field
  di_merkle_path_elements :: "field list"

record transact_request =
  tq_user_address :: string
  tq_pool_root :: "field option"
  tq_pool_next_index :: u32
  tq_pool_address :: string
  tq_ext_recipient :: string
  tq_ext_amount :: ext_amount
  tq_aspmem_root :: field
  tq_aspmem_contract_id :: string
  tq_aspmem_ledger :: u32
  tq_input_commitments :: "field list"
  tq_output_amounts :: "note_amount \<times> note_amount"
  tq_out_note_pubkeys :: "note_public_key option \<times> note_public_key option"
  tq_out_encryption_pubkeys :: "encryption_public_key option \<times> encryption_public_key option"
  tq_smt_depth :: u32
  tq_tree_depth :: u32
  tq_non_membership_proof :: asp_non_membership_proof

datatype storage_request =
    Ping
  | SyncState
  | SaveEvents "contract_event list"
  | SaveSyncProgress "sync_metadata list" bool
  | ClearIndexingCursors
  | DeriveSaveUserKeys string key_derivation_signature string
  | DisclaimerState string
  | AcceptDisclaimer string string
  | BootnodeConfig
  | SetBootnodeConfig bool string
  | UserKeys string
  | AspSecret string
  | UserNotes string nat
  | UnspentUserNotes string string
  | RecentPoolActivity nat
  | RecentPubKeys nat
  | DisclosureInputs disclosure_inputs_request
  | Transact transact_request
  | DeriveASPleaf field note_public_key

datatype response_message = TooManyInputCommitments | UnpairedRecipient nat

datatype storage_response =
    Pong
  | SyncStateIs "sync_metadata list"
  | Saved
  | Error response_message
  | DisclaimerStateIs string bool
  | BootnodeConfigIs bool string
  | UserKeysAre "(note_public_key \<times> encryption_public_key) option"
  | AspSecretIs "field option"
  | UserNotesAre "user_note_summary list"
  | RecentPoolActivityIs "pool_ledger_activity list"
  | PubKeysAre "public_key_entry list"
  | AspMembershipSync asp_membership_sync
  | DisclosureInputsAre disclosure_inputs
  | TransactParamsAre transact_params
  | ASPleafIs field

section \<open>Inputs of proofs\<close>

definition load_user_key_material ::
  "string \<Rightarrow> local_store \<Rightarrow> (worker_error, note_private_key \<times> note_public_key \<times> encryption_public_key \<times> field) outcome" where
  "load_user_key_material user_address s =
     (case get_user_keys user_address s of
        Some k \<Rightarrow> Inr (nk_private (su_note k), nk_public (su_note k), ek_public (su_encryption k), su_membership_blinding k)
      | None \<Rightarrow> Inl (Fail (NoUserKeys user_address)))"

definition note_public_bytes :: "note_public_key \<Rightarrow> byte list" where
  "note_public_bytes k = (case k of NotePublicKey bs \<Rightarrow> bs)"

text \<open>The result is the proof, or the status that says what has to be synchronized first.\<close>

definition build_membership_proof ::
  "string \<Rightarrow> note_public_key \<Rightarrow> field \<Rightarrow> field \<Rightarrow> u32 \<Rightarrow> u32 \<Rightarrow> local_store \<Rightarrow>
    (worker_error, asp_membership_proof + asp_membership_sync) outcome" where
  "build_membership_proof aspmem_contract_id note_pubkey membership_blinding aspmem_root aspmem_ledger tree_depth s =
     andThen (map_err ProverError (asp_membership_leaf (note_public_bytes note_pubkey) membership_blinding)) (\<lambda>user_leaf.
     andThen (map_err StoreError (check_asp_membership_precondition aspmem_contract_id user_leaf aspmem_root aspmem_ledger s)) (\<lambda>status.
     case status of
       UserIndex user_leaf_index \<Rightarrow>
         andThen (map_err StoreError (get_all_asp_membership_leaves_ordered aspmem_contract_id s)) (\<lambda>leaves.
         andThen (map_err ProverError (prefix_new (unat tree_depth) leaves)) (\<lambda>t.
         andThen (map_err ProverError (prefix_build t)) (\<lambda>tree.
         andThen (map_err ProverError (built_proof tree (unat user_leaf_index))) (\<lambda>p.
         Inr (Inl \<lparr>am_leaf = user_leaf, am_blinding = membership_blinding, am_path_elements = mp_path_elements p,
                am_path_indices = mp_path_indices p, am_root = mp_root p\<rparr>)))))
     | _ \<Rightarrow> Inr (Inr status)))"

definition build_validated_pool_tree ::
  "string \<Rightarrow> u32 \<Rightarrow> u32 \<Rightarrow> field \<Rightarrow> local_store \<Rightarrow> (worker_error, built_tree + asp_membership_sync) outcome" where
  "build_validated_pool_tree pool_address pool_next_index tree_depth expected_pool_root s =
     andThen (map_err StoreError (get_pool_commitment_leaves_ordered pool_address s)) (\<lambda>leaves.
     if length leaves \<noteq> unat pool_next_index then Inr (Inr (SyncRequired None))
     else
       andThen (map_err ProverError (prefix_new (unat tree_depth) leaves)) (\<lambda>t.
       andThen (map_err ProverError (prefix_build t)) (\<lambda>tree.
       andThen (map_err ProverError (built_root tree)) (\<lambda>computed_root.
       if computed_root \<noteq> expected_pool_root then Inl (Fail PoolRootMismatch)
       else Inr (Inl tree)))))"

definition build_pool_input_note :: "note_amount \<Rightarrow> field \<Rightarrow> u32 \<Rightarrow> built_tree \<Rightarrow> (worker_error, transact_input) outcome" where
  "build_pool_input_note amount blinding leaf_index tree =
     andThen (map_err ProverError (built_proof tree (unat leaf_index))) (\<lambda>p.
     Inr \<lparr>ti_amount = amount, ti_blinding = blinding, ti_path_elements = mp_path_elements p, ti_path_indices = mp_path_indices p\<rparr>)"

fun pool_inputs_loop ::
  "string \<Rightarrow> string \<Rightarrow> built_tree \<Rightarrow> field list \<Rightarrow> local_store \<Rightarrow> (worker_error, transact_input list + asp_membership_sync) outcome" where
  "pool_inputs_loop user_address pool_address tree [] s = Inr (Inl [])"
| "pool_inputs_loop user_address pool_address tree (commitment # rest) s =
     (case get_unspent_user_note_by_commitment pool_address user_address commitment s of
        None \<Rightarrow> Inr (Inr (SyncRequired None))
      | Some (amount, blinding, leaf_index) \<Rightarrow>
        andThen (build_pool_input_note amount blinding leaf_index tree) (\<lambda>input.
        andThen (pool_inputs_loop user_address pool_address tree rest s) (\<lambda>out.
        Inr (case out of Inl inputs \<Rightarrow> Inl (input # inputs) | Inr status \<Rightarrow> Inr status))))"

definition build_pool_inputs ::
  "string \<Rightarrow> string \<Rightarrow> u32 \<Rightarrow> u32 \<Rightarrow> field \<Rightarrow> field list \<Rightarrow> local_store \<Rightarrow>
    (worker_error, transact_input list + asp_membership_sync) outcome" where
  "build_pool_inputs user_address pool_address pool_next_index tree_depth expected_pool_root input_commitments s =
     (if input_commitments = [] then Inr (Inl [])
      else andThen (build_validated_pool_tree pool_address pool_next_index tree_depth expected_pool_root s) (\<lambda>r.
        case r of Inr status \<Rightarrow> Inr (Inr status)
        | Inl tree \<Rightarrow> pool_inputs_loop user_address pool_address tree input_commitments s))"

section \<open>The router\<close>

definition output_note ::
  "nat \<Rightarrow> note_amount \<Rightarrow> note_public_key option \<Rightarrow> encryption_public_key option \<Rightarrow> rng \<Rightarrow>
    (worker_error, (transact_output \<times> rng) + response_message) outcome" where
  "output_note i amount note_pk enc_pk rng =
     (if (note_pk = None) \<noteq> (enc_pk = None) then Inr (Inr (UnpairedRecipient i))
      else andThen (map_err ProverError (generate_random_blinding rng)) (\<lambda>(blinding, rng).
        Inr (Inl (\<lparr>to_amount = amount, to_blinding = blinding, to_recipient_note_pubkey = note_pk,
          to_recipient_encryption_pubkey = enc_pk\<rparr>, rng))))"

definition output_notes :: "transact_request \<Rightarrow> rng \<Rightarrow> (worker_error, (transact_output list \<times> rng) + response_message) outcome" where
  "output_notes req rng =
     andThen (output_note 0 (fst (tq_output_amounts req)) (fst (tq_out_note_pubkeys req)) (fst (tq_out_encryption_pubkeys req)) rng) (\<lambda>r0.
     case r0 of Inr msg \<Rightarrow> Inr (Inr msg)
     | Inl (o0, rng) \<Rightarrow>
       andThen (output_note 1 (snd (tq_output_amounts req)) (snd (tq_out_note_pubkeys req)) (snd (tq_out_encryption_pubkeys req)) rng) (\<lambda>r1.
       case r1 of Inr msg \<Rightarrow> Inr (Inr msg) | Inl (o1, rng) \<Rightarrow> Inr (Inl ([o0, o1], rng))))"

definition transact_response :: "transact_request \<Rightarrow> rng \<Rightarrow> local_store \<Rightarrow> (worker_error, storage_response \<times> rng) outcome" where
  "transact_response req rng s =
     (if 2 < length (tq_input_commitments req) then Inr (Error TooManyInputCommitments, rng)
      else
        andThen (load_user_key_material (tq_user_address req) s) (\<lambda>(note_privkey, note_pubkey, encryption_pubkey, membership_blinding).
        andThen (build_membership_proof (tq_aspmem_contract_id req) note_pubkey membership_blinding (tq_aspmem_root req)
          (tq_aspmem_ledger req) (tq_tree_depth req) s) (\<lambda>m.
        case m of Inr status \<Rightarrow> Inr (AspMembershipSync status, rng)
        | Inl membership_proof \<Rightarrow>
          andThen (ok_or MissingPoolRoot (tq_pool_root req)) (\<lambda>pool_root.
          andThen (build_pool_inputs (tq_user_address req) (tq_pool_address req) (tq_pool_next_index req) (tq_tree_depth req)
            pool_root (tq_input_commitments req) s) (\<lambda>i.
          case i of Inr status \<Rightarrow> Inr (AspMembershipSync status, rng)
          | Inl inputs \<Rightarrow>
            andThen (output_notes req rng) (\<lambda>outs.
            case outs of Inr msg \<Rightarrow> Inr (Error msg, rng)
            | Inl (outputs, rng) \<Rightarrow>
              Inr (TransactParamsAre \<lparr>tp_priv_key = note_privkey, tp_encryption_pubkey = encryption_pubkey, tp_pool_root = pool_root,
                tp_ext_recipient = tq_ext_recipient req, tp_ext_amount = tq_ext_amount req, tp_inputs = inputs, tp_outputs = outputs,
                tp_membership = membership_proof, tp_non_membership = tq_non_membership_proof req,
                tp_tree_depth = unat (tq_tree_depth req), tp_smt_depth = unat (tq_smt_depth req)\<rparr>, rng)))))))"

definition disclosure_response :: "disclosure_inputs_request \<Rightarrow> local_store \<Rightarrow> (worker_error, storage_response) outcome" where
  "disclosure_response req s =
     andThen (ok_or MissingPoolRoot (dq_pool_root req)) (\<lambda>pool_root.
     andThen (load_user_key_material (dq_user_address req) s) (\<lambda>(note_privkey, _, _, _).
     andThen (build_validated_pool_tree (dq_pool_address req) (dq_pool_next_index req) (dq_tree_depth req) pool_root s) (\<lambda>r.
     case r of Inr status \<Rightarrow> Inr (AspMembershipSync status)
     | Inl tree \<Rightarrow>
       andThen (ok_or (UnspentNoteNotFound (dq_selected_commitment req))
         (get_unspent_user_note_by_commitment (dq_pool_address req) (dq_user_address req) (dq_selected_commitment req) s))
         (\<lambda>(amount, blinding, leaf_index).
       andThen (map_err ProverError (built_proof tree (unat leaf_index))) (\<lambda>p.
       Inr (DisclosureInputsAre \<lparr>di_root = mp_root p, di_note_commitment = dq_selected_commitment req, di_note_amount = amount,
         di_note_private_key = note_privkey, di_note_blinding = blinding, di_merkle_path_indices = mp_path_indices p,
         di_merkle_path_elements = mp_path_elements p\<rparr>))))))"

text \<open>The state of the worker: the database, the signals waiting for the loop, whether the loop is between two turns,
  and whether its last run failed, which is what it logs.\<close>

record worker =
  wk_store :: local_store
  wk_signals :: nat
  wk_running :: bool
  wk_failed :: bool

text \<open>A channel with a buffer of one and one sender takes two signals; \<open>try_send\<close> drops the signals it has no room for.\<close>

definition kick_processor :: "worker \<Rightarrow> worker" where
  "kick_processor w = (if wk_signals w < 2 then w\<lparr>wk_signals := wk_signals w + 1\<rparr> else w)"

definition router :: "worker_env \<Rightarrow> storage_request \<Rightarrow> rng \<Rightarrow> worker \<Rightarrow> worker \<times> (worker_error, storage_response \<times> rng) outcome" where
  "router env req rng w =
     (let s = wk_store w; reply = (\<lambda>r. (w, Inr (r, rng))); store = (\<lambda>s r. (w\<lparr>wk_store := s\<rparr>, Inr (r, rng))) in
      case req of
        Ping \<Rightarrow> (kick_processor w, Inr (Pong, rng))
      | SyncState \<Rightarrow> reply (SyncStateIs (get_sync_metadata s))
      | SaveEvents events \<Rightarrow> (kick_processor (w\<lparr>wk_store := save_events_batch events s\<rparr>), Inr (Saved, rng))
      | SaveSyncProgress metadata fully_indexed \<Rightarrow> store (save_sync_progress metadata fully_indexed s) Saved
      | ClearIndexingCursors \<Rightarrow> store (clear_indexing_cursors s) Saved
      | DeriveSaveUserKeys address signature network_context \<Rightarrow>
          (case andThen (derive_encryption_and_note_keypairs (we_crypto env) signature) (\<lambda>keys.
              andThen (derive_membership_blinding (we_crypto env) signature network_context) (\<lambda>blinding. Inr (keys, blinding))) of
             Inl e \<Rightarrow> (w, Inl (map_fault ProverError e))
           | Inr ((note_keypair, encryption_keypair), blinding) \<Rightarrow>
               (kick_processor (w\<lparr>wk_store := save_encryption_and_note_keypairs address note_keypair encryption_keypair blinding s\<rparr>),
                Inr (Saved, rng)))
      | DisclaimerState address \<Rightarrow>
          (let (accepted, s) = get_disclaimer_state (we_disclaimer env) address s in
           store s (DisclaimerStateIs (we_disclaimer env) accepted))
      | AcceptDisclaimer address disclaimer_hash \<Rightarrow>
          (case accept_current_disclaimer (we_disclaimer env) address disclaimer_hash s of
             Inl e \<Rightarrow> (w, Inl (map_fault StoreError e))
           | Inr s \<Rightarrow> store s Saved)
      | BootnodeConfig \<Rightarrow> reply (BootnodeConfigIs (fst (get_bootnode_config s)) (snd (get_bootnode_config s)))
      | SetBootnodeConfig enabled url \<Rightarrow> store (set_bootnode_config enabled url s) Saved
      | UserKeys address \<Rightarrow>
          reply (UserKeysAre (map_option (\<lambda>k. (nk_public (su_note k), ek_public (su_encryption k))) (get_user_keys address s)))
      | AspSecret address \<Rightarrow> reply (AspSecretIs (map_option su_membership_blinding (get_user_keys address s)))
      | UserNotes address limit \<Rightarrow> reply (UserNotesAre (list_user_notes address limit s))
      | UnspentUserNotes user_address pool_contract_id \<Rightarrow> reply (UserNotesAre (list_unspent_user_notes pool_contract_id user_address s))
      | RecentPoolActivity limit \<Rightarrow> reply (RecentPoolActivityIs (get_recent_pool_activity limit s))
      | RecentPubKeys limit \<Rightarrow> reply (PubKeysAre (get_recent_public_keys limit s))
      | DisclosureInputs req \<Rightarrow> (w, andThen (disclosure_response req s) (\<lambda>r. Inr (r, rng)))
      | Transact req \<Rightarrow> (w, transact_response req rng s)
      | DeriveASPleaf membership_blinding pubkey \<Rightarrow>
          (w, map_err ProverError (andThen (asp_membership_leaf (note_public_bytes pubkey) membership_blinding) (\<lambda>l. Inr (ASPleafIs l, rng)))))"

section \<open>The processing loop\<close>

definition FETCH_LIMIT :: nat where "FETCH_LIMIT = 50"

definition worker_derive :: "crypto_env \<Rightarrow> derive_fn" where
  "worker_derive crypto account row =
     try_decrypt_and_derive_user_note crypto (ak_note_keypair account) (ek_private (ak_encryption_keypair account))
       (cr_commitment row) (cr_leaf_index row) (cr_encrypted_output row)"

text \<open>One turn of the loop of \<open>process_until_empty\<close>; \<open>False\<close> ends the loop.\<close>

definition process_turn :: "worker_env \<Rightarrow> local_store \<Rightarrow> local_store \<times> (store_error, bool) outcome" where
  "process_turn env s =
     (case process_events (we_xdr env) FETCH_LIMIT s of (s, Inl e) \<Rightarrow> (s, Inl e)
      | (s, Inr did_raw) \<Rightarrow>
        (case process_notes (worker_derive (we_crypto env)) FETCH_LIMIT s of (s, Inl e) \<Rightarrow> (s, Inl e)
         | (s, Inr did_notes) \<Rightarrow> (s, Inr (did_raw \<or> did_notes))))"

partial_function (option) process_until_empty :: "worker_env \<Rightarrow> local_store \<Rightarrow> (local_store \<times> (store_error, unit) outcome) option" where
  "process_until_empty env s =
     (case process_turn env s of (s', Inl e) \<Rightarrow> Some (s', Inl e)
      | (s', Inr did_work) \<Rightarrow> if did_work then process_until_empty env s' else Some (s', Inr ()))"

text \<open>The steps of the worker: requests with the signatures \<open>W\<close>, a signal the loop takes, and a turn of the loop.\<close>

inductive worker_step :: "worker_env \<Rightarrow> (string \<times> key_derivation_signature) set \<Rightarrow> worker \<Rightarrow> worker \<Rightarrow> bool" for env W where
  request: "(\<And>a sig n. req = DeriveSaveUserKeys a sig n \<Longrightarrow> (a, sig) \<in> W) \<Longrightarrow> router env req rng w = (w', r) \<Longrightarrow> worker_step env W w w'"
| start: "\<not> wk_running w \<Longrightarrow> 0 < wk_signals w \<Longrightarrow>
    worker_step env W w (w\<lparr>wk_signals := wk_signals w - 1, wk_running := True, wk_failed := False\<rparr>)"
| turn: "wk_running w \<Longrightarrow> process_turn env (wk_store w) = (s', r) \<Longrightarrow>
    worker_step env W w (w\<lparr>wk_store := s', wk_running := (r = Inr True), wk_failed := (\<exists>e. r = Inl e)\<rparr>)"

definition worker_init :: worker where
  "worker_init = \<lparr>wk_store = connect, wk_signals = 0, wk_running = False, wk_failed = False\<rparr>"

definition worker_reachable :: "worker_env \<Rightarrow> (string \<times> key_derivation_signature) set \<Rightarrow> worker \<Rightarrow> bool" where
  "worker_reachable env W = (worker_step env W)\<^sup>*\<^sup>* worker_init"

section \<open>Growing tables keep the notes\<close>

lemma next_id_le: "\<lbrakk>\<And>i. i \<in> set ids \<Longrightarrow> i < k; 0 < k\<rbrakk> \<Longrightarrow> next_id ids \<le> (k :: nat)"
proof -
  assume a: "\<And>i. i \<in> set ids \<Longrightarrow> i < k" "0 < k"
  then have "foldr max ids 0 < k" by (induction ids) auto
  then show ?thesis by (simp add: next_id_def)
qed

lemma next_id_mono: "set ids \<subseteq> set ids' \<Longrightarrow> next_id ids \<le> next_id ids'"
  by (rule next_id_le) (auto dest: next_id_greater)

definition grows :: "local_store \<Rightarrow> local_store \<Rightarrow> bool" where
  "grows s s' \<longleftrightarrow> (\<exists>cs ns. ls_commitments s' = ls_commitments s @ cs \<and> ls_nullifiers s' = ls_nullifiers s @ ns \<and>
     (\<forall>c \<in> set cs. \<forall>c' \<in> set (ls_commitments s). cr_id c' < cr_id c) \<and>
     (\<forall>n \<in> set ns. \<forall>n' \<in> set (ls_nullifiers s). nr_id n' < nr_id n)) \<and>
   (\<forall>e r. event_of s e = Some r \<longrightarrow> event_of s' e = Some r) \<and> set (ls_keypairs s) \<subseteq> set (ls_keypairs s') \<and> ls_user_notes s' = ls_user_notes s \<and>
   ls_commitment_scan s' = ls_commitment_scan s \<and> ls_nullifier_scan s' = ls_nullifier_scan s"

lemma grows_contract:
  assumes "grows s s'" "event_of s e \<noteq> None"
  shows "contract_of s' e = contract_of s e"
  using assms by (auto simp: grows_def contract_of_def)

lemma commitment_known: "chain_ok s \<Longrightarrow> c \<in> set (ls_commitments s) \<Longrightarrow> event_of s (cr_event c) \<noteq> None"
  by (auto simp: chain_ok_def known_def event_of_known)

lemma nullifier_known: "chain_ok s \<Longrightarrow> r \<in> set (ls_nullifiers s) \<Longrightarrow> event_of s (nr_event r) \<noteq> None"
  by (auto simp: chain_ok_def known_def event_of_known)

lemma grows_note_contract:
  assumes "grows s s'" "chain_ok s" "chain_ok s'" "note_ok s n"
  shows "note_contract s' n = note_contract s n"
proof -
  obtain c where c: "c \<in> set (ls_commitments s)" "ur_commitment_id n = cr_id c" using assms(4) unfolding note_ok_def by metis
  moreover have "c \<in> set (ls_commitments s')" using assms(1) c(1) by (auto simp: grows_def)
  ultimately show ?thesis
    using note_contract_row [OF assms(2)] note_contract_row [OF assms(3)] grows_contract [OF assms(1) commitment_known [OF assms(2) c(1)]] by metis
qed

lemma grows_mark: "grows s s' \<Longrightarrow> nullifier_mark s' = nullifier_mark s" "grows s s' \<Longrightarrow> scan_mark s' = scan_mark s"
  "grows s s' \<Longrightarrow> note_keys s' = note_keys s"
  by (auto simp: grows_def nullifier_mark_def scan_mark_def note_keys_def fun_eq_iff)

lemma new_above_mark:
  assumes "marks_ok s" "chain_ok s'" "grows s s'"
  shows "\<And>r. r \<in> set (ls_nullifiers s') \<Longrightarrow> r \<notin> set (ls_nullifiers s) \<Longrightarrow> nullifier_mark s p < nr_id r"
    and "\<And>c. c \<in> set (ls_commitments s') \<Longrightarrow> c \<notin> set (ls_commitments s) \<Longrightarrow> scan_mark s p a < cr_id c"
proof -
  fix r assume r: "r \<in> set (ls_nullifiers s')" "r \<notin> set (ls_nullifiers s)"
  then have "0 < nr_id r" "\<forall>n' \<in> set (ls_nullifiers s). nr_id n' < nr_id r" using assms(2,3) by (auto simp: chain_ok_def grows_def)
  then have "next_id (map nr_id (ls_nullifiers s)) \<le> nr_id r" by (intro next_id_le) auto
  then show "nullifier_mark s p < nr_id r" using assms(1) \<open>0 < nr_id r\<close>
    by (fastforce simp: marks_ok_def nullifier_mark_def split: option.splits)
next
  fix c assume c: "c \<in> set (ls_commitments s')" "c \<notin> set (ls_commitments s)"
  then have "0 < cr_id c" "\<forall>c' \<in> set (ls_commitments s). cr_id c' < cr_id c" using assms(2,3) by (auto simp: chain_ok_def grows_def)
  then have "next_id (map cr_id (ls_commitments s)) \<le> cr_id c" by (intro next_id_le) auto
  then show "scan_mark s p a < cr_id c" using assms(1) \<open>0 < cr_id c\<close>
    by (fastforce simp: marks_ok_def scan_mark_def split: option.splits)
qed

lemma grows_note_ok:
  assumes "grows s s'" "chain_ok s" "chain_ok s'" "marks_ok s" "note_ok s n"
  shows "note_ok s' n"
proof -
  have nc: "note_contract s' n = note_contract s n" using grows_note_contract assms by blast
  have sub: "set (ls_commitments s) \<subseteq> set (ls_commitments s')" "set (ls_nullifiers s) \<subseteq> set (ls_nullifiers s')"
    using assms(1) by (auto simp: grows_def)
  show ?thesis unfolding note_ok_def nc
  proof (intro conjI allI ballI impI)
    show "\<exists>c \<in> set (ls_commitments s'). cr_id c = ur_commitment_id n \<and> cr_commitment c = ur_id n"
      using assms(5) sub(1) unfolding note_ok_def by blast
  next
    fix i assume "ur_nullifier_id n = Some i"
    then obtain r where r: "r \<in> set (ls_nullifiers s)" "nr_id r = i" "nr_nullifier r = ur_expected_nullifier n"
      "contract_of s (nr_event r) = note_contract s n" using note_ok_spent [OF assms(5)] by blast
    then show "\<exists>r \<in> set (ls_nullifiers s'). nr_id r = i \<and> nr_nullifier r = ur_expected_nullifier n \<and> contract_of s' (nr_event r) = note_contract s n"
      using sub(2) grows_contract [OF assms(1) nullifier_known [OF assms(2) r(1)]] by (intro bexI [of _ r]) auto
  next
    fix r p assume r: "r \<in> set (ls_nullifiers s')" "contract_of s' (nr_event r) = Some p" "note_contract s n = Some p"
      "nr_nullifier r = ur_expected_nullifier n" "nr_id r \<le> nullifier_mark s' p"
    have "r \<in> set (ls_nullifiers s)"
      using new_above_mark(1) [OF assms(4,3,1) r(1), of p] r(5) grows_mark(1) [OF assms(1)] by force
    then show "ur_nullifier_id n = Some (nr_id r)"
      using assms(5) r grows_contract [OF assms(1) nullifier_known [OF assms(2)]] grows_mark(1) [OF assms(1)] unfolding note_ok_def by force
  qed
qed

lemma grows_loop_inv:
  assumes "grows s s'" "chain_ok s'" "loop_inv derive A s"
  shows "loop_inv derive A s'"
proof -
  have s: "chain_ok s" "notes_ok s" "notes_derived derive s" "scanned derive A s" "marks_ok s"
    using assms(3) by (simp_all add: loop_inv_def scan_inv_def)
  have same: "ls_user_notes s' = ls_user_notes s" "ls_commitment_scan s' = ls_commitment_scan s" "ls_nullifier_scan s' = ls_nullifier_scan s"
    and sub: "set (ls_commitments s) \<subseteq> set (ls_commitments s')" "set (ls_nullifiers s) \<subseteq> set (ls_nullifiers s')"
    using assms(1) by (auto simp: grows_def)
  have keyed: "keyed s' a" if "keyed s a" for a using assms(1) that unfolding keyed_def grows_def by blast
  have "notes_ok s'" using s(2) grows_note_ok [OF assms(1) s(1) assms(2) s(5)] by (simp add: notes_ok_def same)
  moreover have "notes_derived derive s'"
    unfolding notes_derived_def same
  proof
    fix n assume "n \<in> set (ls_user_notes s)"
    then have "note_derived derive s n" using s(3) by (simp add: notes_derived_def)
    then show "note_derived derive s' n" using sub(1) keyed unfolding note_derived_def by blast
  qed
  moreover have "scanned derive A s'"
    unfolding scanned_def
  proof (intro ballI allI impI)
    fix a p c assume c: "a \<in> set A" "c \<in> set (ls_commitments s')" "contract_of s' (cr_event c) = Some p" "cr_id c \<le> scan_mark s' p (ak_account_id a)"
    have "c \<in> set (ls_commitments s)"
      using new_above_mark(2) [OF s(5) assms(2,1) c(2), of p "ak_account_id a"] c(4) grows_mark(2) [OF assms(1)] by force
    then have "covered derive s a c"
      using c s(4) grows_contract [OF assms(1) commitment_known [OF s(1)]] grows_mark(2) [OF assms(1)] unfolding scanned_def by metis
    then show "covered derive s' a c" by (simp add: covered_def grows_mark(3) [OF assms(1)])
  qed
  moreover have "marks_ok s'"
  proof -
    have "next_id (map nr_id (ls_nullifiers s)) \<le> next_id (map nr_id (ls_nullifiers s'))"
      "next_id (map cr_id (ls_commitments s)) \<le> next_id (map cr_id (ls_commitments s'))"
      using sub by (intro next_id_mono, simp add: image_mono)+
    then show ?thesis using s(5) unfolding marks_ok_def same by (meson less_le_trans)
  qed
  moreover have "\<forall>a \<in> set A. keyed s' a" using assms(3) keyed by (simp add: loop_inv_def)
  ultimately show ?thesis using assms(2) by (simp add: loop_inv_def scan_inv_def)
qed

section \<open>Processing events\<close>

definition same_base :: "local_store \<Rightarrow> local_store \<Rightarrow> bool" where
  "same_base s s' \<longleftrightarrow> ls_contracts s' = ls_contracts s \<and> ls_indexing s' = ls_indexing s \<and> ls_events s' = ls_events s \<and>
     ls_accounts s' = ls_accounts s \<and> ls_keypairs s' = ls_keypairs s"

lemma same_base_events: "same_base s s' \<Longrightarrow> events_ok s' = events_ok s" "same_base s s' \<Longrightarrow> event_of s' = event_of s"
  by (simp_all add: same_base_def events_ok_def event_of_def fun_eq_iff)

lemma same_base_accounts: "same_base s s' \<Longrightarrow> get_accounts_with_latest_keypairs s' = get_accounts_with_latest_keypairs s"
  unfolding get_accounts_with_latest_keypairs_def same_base_def using latest_keypair_same [of s' s] by (elim conjE) (simp only:)

text \<open>The fields of the chain tables are canonical.\<close>

definition canonical :: "local_store \<Rightarrow> bool" where
  "canonical s \<longleftrightarrow> (\<forall>r \<in> set (ls_nullifiers s). f_canonical (nr_nullifier r)) \<and> (\<forall>r \<in> set (ls_commitments s). f_canonical (cr_commitment r)) \<and>
     (\<forall>r \<in> set (ls_asp_leaves s). f_canonical (lr_leaf r) \<and> f_canonical (lr_root r))"

lemma canonical_frame:
  "canonical s \<Longrightarrow> ls_nullifiers s' = ls_nullifiers s \<Longrightarrow> ls_commitments s' = ls_commitments s \<Longrightarrow> ls_asp_leaves s' = ls_asp_leaves s \<Longrightarrow>
    canonical s'"
  by (simp add: canonical_def)

text \<open>What saving chain events does to the tables.\<close>

definition saves :: "local_store \<Rightarrow> local_store \<Rightarrow> bool" where
  "saves s s' \<longleftrightarrow> chain_ok s' \<and> grows s s' \<and> same_base s s' \<and> (canonical s \<longrightarrow> canonical s')"

lemma saves_refl: "chain_ok s \<Longrightarrow> saves s s"
  by (simp add: saves_def grows_def same_base_def)

lemma grows_trans:
  assumes "grows s t" "grows t u"
  shows "grows s u"
proof -
  obtain cs ns where t: "ls_commitments t = ls_commitments s @ cs" "ls_nullifiers t = ls_nullifiers s @ ns"
    "\<forall>c \<in> set cs. \<forall>c' \<in> set (ls_commitments s). cr_id c' < cr_id c" "\<forall>n \<in> set ns. \<forall>n' \<in> set (ls_nullifiers s). nr_id n' < nr_id n"
    using assms(1) unfolding grows_def by blast
  obtain cs' ns' where u: "ls_commitments u = ls_commitments t @ cs'" "ls_nullifiers u = ls_nullifiers t @ ns'"
    "\<forall>c \<in> set cs'. \<forall>c' \<in> set (ls_commitments t). cr_id c' < cr_id c" "\<forall>n \<in> set ns'. \<forall>n' \<in> set (ls_nullifiers t). nr_id n' < nr_id n"
    using assms(2) unfolding grows_def by blast
  have "ls_commitments u = ls_commitments s @ (cs @ cs')" "ls_nullifiers u = ls_nullifiers s @ (ns @ ns')" using t u by simp_all
  moreover have "\<forall>c \<in> set (cs @ cs'). \<forall>c' \<in> set (ls_commitments s). cr_id c' < cr_id c"
    "\<forall>n \<in> set (ns @ ns'). \<forall>n' \<in> set (ls_nullifiers s). nr_id n' < nr_id n" using t u by auto
  ultimately have "\<exists>cs ns. ls_commitments u = ls_commitments s @ cs \<and> ls_nullifiers u = ls_nullifiers s @ ns \<and>
     (\<forall>c \<in> set cs. \<forall>c' \<in> set (ls_commitments s). cr_id c' < cr_id c) \<and> (\<forall>n \<in> set ns. \<forall>n' \<in> set (ls_nullifiers s). nr_id n' < nr_id n)"
    by (intro exI conjI)
  moreover have "\<forall>e r. event_of s e = Some r \<longrightarrow> event_of u e = Some r" "set (ls_keypairs s) \<subseteq> set (ls_keypairs u)" "ls_user_notes u = ls_user_notes s"
    "ls_commitment_scan u = ls_commitment_scan s" "ls_nullifier_scan u = ls_nullifier_scan s"
    using assms unfolding grows_def by auto
  ultimately show ?thesis unfolding grows_def by (intro conjI)
qed

lemma saves_trans: "saves s t \<Longrightarrow> saves t u \<Longrightarrow> saves s u"
  unfolding saves_def same_base_def using grows_trans [of s t u] by simp

lemma saves_nullifiers:
  assumes "chain_ok s" "save_nullifier_events_batch es s = Inr s'" "\<forall>e \<in> set es. f_canonical (ne_nullifier e)"
  shows "saves s s'"
  using save_nullifier_events_ok [OF assms(1,2)] assms(3) by (force simp: saves_def grows_def same_base_def event_of_def canonical_def)

lemma saves_commitments:
  assumes "chain_ok s" "save_commitment_events_batch es s = Inr s'" "\<forall>e \<in> set es. f_canonical (me_commitment e)"
  shows "saves s s'"
  using save_commitment_events_ok [OF assms(1,2)] assms(3) by (force simp: saves_def grows_def same_base_def event_of_def canonical_def)

lemma saves_public_keys:
  assumes "chain_ok s" "save_public_key_events_batch es s = Inr s'"
  shows "saves s s'"
  using save_public_key_events_ok [OF assms] by (auto simp: saves_def grows_def same_base_def event_of_def canonical_def)

lemma saves_leaves:
  assumes "chain_ok s" "save_leaf_added_events_batch es s = Inr s'" "\<forall>e \<in> set es. f_canonical (le_leaf e) \<and> f_canonical (le_root e)"
  shows "saves s s'"
  using save_leaf_added_events_ok [OF assms(1,2)] assms(3) by (force simp: saves_def grows_def same_base_def event_of_def canonical_def)

lemma saves_commit:
  assumes "chain_ok s" "commit t k s = (s', r)" "\<And>u. t s = Inr u \<Longrightarrow> saves s u" "\<And>u. chain_ok u \<Longrightarrow> k u = (s', r) \<Longrightarrow> saves u s'"
  shows "saves s s'"
proof (cases "t s")
  case (Inl e)
  then show ?thesis using assms(1,2) by (simp add: commit_def saves_refl)
next
  case (Inr u)
  then have "saves s u" "k u = (s', r)" using assms(2,3) by (simp_all add: commit_def)
  moreover from this have "chain_ok u" by (simp add: saves_def)
  ultimately show ?thesis using assms(4) [of u] saves_trans [of s u s'] by simp
qed

lemma commit_False:
  assumes "commit t k s = (s', r)" "\<And>u s' r. k u = (s', r) \<Longrightarrow> r \<noteq> Inr False"
  shows "r \<noteq> Inr False"
  using assms by (auto simp: commit_def split: sum.splits)

lemma process_events_ok:
  assumes "chain_ok s" "process_events xdr limit s = (s', r)"
  shows "saves s s' \<and> (r = Inr False \<longrightarrow> s' = s \<and> get_unprocessed_events limit s = [])"
proof (cases "get_unprocessed_events limit s = []")
  case True
  then show ?thesis using assms by (auto simp: process_events_def saves_refl)
next
  case False
  let ?es = "rev (get_unprocessed_events limit s)"
  have run: "commit (save_nullifier_events_batch (nullifiers_in xdr ?es)) (commit (save_commitment_events_batch (commitments_in xdr ?es))
    (commit (save_public_key_events_batch (public_keys_in xdr ?es)) (commit (save_leaf_added_events_batch (leaves_in xdr ?es)) (\<lambda>s. (s, Inr True))))) s = (s', r)"
    using assms(2) False by (simp add: process_events_batches Let_def)
  have "saves s s'"
    using assms(1) run saves_nullifiers [OF assms(1) _ parsed_canonical(1)]
  proof (rule saves_commit)
    fix u assume u: "chain_ok u" and run: "commit (save_commitment_events_batch (commitments_in xdr ?es))
      (commit (save_public_key_events_batch (public_keys_in xdr ?es)) (commit (save_leaf_added_events_batch (leaves_in xdr ?es)) (\<lambda>s. (s, Inr True)))) u = (s', r)"
    show "saves u s'"
      using u run saves_commitments [OF u _ parsed_canonical(2)]
    proof (rule saves_commit)
      fix v assume v: "chain_ok v" and run: "commit (save_public_key_events_batch (public_keys_in xdr ?es))
        (commit (save_leaf_added_events_batch (leaves_in xdr ?es)) (\<lambda>s. (s, Inr True))) v = (s', r)"
      show "saves v s'"
        using v run saves_public_keys [OF v]
      proof (rule saves_commit)
        fix w assume w: "chain_ok w" and run: "commit (save_leaf_added_events_batch (leaves_in xdr ?es)) (\<lambda>s. (s, Inr True)) w = (s', r)"
        show "saves w s'" using w run saves_leaves [OF w _ parsed_canonical(3)] by (rule saves_commit) (auto intro: saves_refl)
      qed
    qed
  qed
  moreover have "r \<noteq> Inr False" using run by (rule commit_False, elim commit_False) simp
  ultimately show ?thesis by simp
qed

section \<open>Saving keys\<close>

lemma sorted_filter_key: "sorted_wrt (<) (map f xs) \<Longrightarrow> sort_key (f :: 'a \<Rightarrow> nat) (filter P xs) = filter P xs"
  by (intro sort_key_id_if_sorted sorted_filter) (simp add: strict_sorted_iff)

lemma latest_keypair_last:
  assumes "events_ok s"
  shows "latest_keypair s a = (if filter (\<lambda>r. kr_account r = a) (ls_keypairs s) = [] then None
    else Some (last (filter (\<lambda>r. kr_account r = a) (ls_keypairs s))))"
proof -
  have "sorted_wrt (<) (map kr_id (ls_keypairs s))" using assms by (simp add: events_ok_def)
  then show ?thesis unfolding latest_keypair_def by (simp only: sorted_filter_key)
    (cases "filter (\<lambda>r. kr_account r = a) (ls_keypairs s)" rule: rev_cases; simp)
qed

lemma latest_keypair_Some: "events_ok s \<Longrightarrow> latest_keypair s a = Some k \<Longrightarrow> k \<in> set (ls_keypairs s) \<and> kr_account k = a"
  using last_in_set [of "filter (\<lambda>r. kr_account r = a) (ls_keypairs s)"] by (auto simp: latest_keypair_last split: if_splits)

lemma latest_keypair_None: "events_ok s \<Longrightarrow> latest_keypair s a = None \<longleftrightarrow> a \<notin> kr_account ` set (ls_keypairs s)"
  by (auto simp: latest_keypair_last filter_empty_conv)

lemma latest_keypair_snoc:
  assumes "events_ok s" "events_ok s'" "ls_keypairs s' = ls_keypairs s @ [k]"
  shows "latest_keypair s' a = (if a = kr_account k then Some k else latest_keypair s a)"
  using assms by (simp add: latest_keypair_last)

lemma account_in:
  "a \<in> set (get_accounts_with_latest_keypairs s) \<longleftrightarrow> (\<exists>k. ak_account_id a \<in> fst ` set (ls_accounts s) \<and> latest_keypair s (ak_account_id a) = Some k \<and>
     a = \<lparr>ak_account_id = ak_account_id a, ak_note_keypair = kr_note k, ak_encryption_keypair = kr_encryption k,
       ak_membership_blinding = kr_membership_blinding k\<rparr>)"
proof -
  have "a \<in> set (get_accounts_with_latest_keypairs s) \<longleftrightarrow> (\<exists>i \<in> fst ` set (ls_accounts s). \<exists>k. latest_keypair s i = Some k \<and>
    a = \<lparr>ak_account_id = i, ak_note_keypair = kr_note k, ak_encryption_keypair = kr_encryption k, ak_membership_blinding = kr_membership_blinding k\<rparr>)"
    unfolding get_accounts_with_latest_keypairs_def by (auto split: option.splits simp: image_iff) (force)+
  also have "\<dots> \<longleftrightarrow> (\<exists>k. ak_account_id a \<in> fst ` set (ls_accounts s) \<and> latest_keypair s (ak_account_id a) = Some k \<and>
     a = \<lparr>ak_account_id = ak_account_id a, ak_note_keypair = kr_note k, ak_encryption_keypair = kr_encryption k,
       ak_membership_blinding = kr_membership_blinding k\<rparr>)" by (metis account_keys.select_convs(1))
  finally show ?thesis .
qed

lemma accounts_keyed: "events_ok s \<Longrightarrow> a \<in> set (get_accounts_with_latest_keypairs s) \<Longrightarrow> keyed s a"
proof -
  assume ev: "events_ok s" and "a \<in> set (get_accounts_with_latest_keypairs s)"
  then obtain k where k: "latest_keypair s (ak_account_id a) = Some k" "a = \<lparr>ak_account_id = ak_account_id a, ak_note_keypair = kr_note k,
      ak_encryption_keypair = kr_encryption k, ak_membership_blinding = kr_membership_blinding k\<rparr>" unfolding account_in by blast
  have "ak_note_keypair a = kr_note k" "ak_encryption_keypair a = kr_encryption k"
    using arg_cong [OF k(2), of ak_note_keypair] arg_cong [OF k(2), of ak_encryption_keypair] by simp_all
  then show "keyed s a" using latest_keypair_Some [OF ev k(1)] unfolding keyed_def by auto
qed

text \<open>An account derives notes with its keys; the blinding of its membership does not matter.\<close>

lemma worker_derive_same:
  "ak_note_keypair a = ak_note_keypair b \<Longrightarrow> ak_encryption_keypair a = ak_encryption_keypair b \<Longrightarrow> worker_derive c a = worker_derive c b"
  by (simp add: worker_derive_def fun_eq_iff)

lemma covered_same: "derive a = derive b \<Longrightarrow> covered derive s a c = covered derive s b c"
  by (simp add: covered_def)

definition keys_of :: "crypto_env \<Rightarrow> (string \<times> key_derivation_signature) set \<Rightarrow> local_store \<Rightarrow> bool" where
  "keys_of crypto W s \<longleftrightarrow> (\<forall>k \<in> set (ls_keypairs s). \<exists>a sig. (kr_account k, a) \<in> set (ls_accounts s) \<and> (a, sig) \<in> W \<and>
     derive_encryption_and_note_keypairs crypto sig = Inr (kr_note k, kr_encryption k))"

definition marks_keyed :: "local_store \<Rightarrow> bool" where
  "marks_keyed s \<longleftrightarrow> (\<forall>p a. ls_commitment_scan s (p, a) \<noteq> None \<longrightarrow> a \<in> kr_account ` set (ls_keypairs s))"

definition store_inv :: "worker_env \<Rightarrow> (string \<times> key_derivation_signature) set \<Rightarrow> local_store \<Rightarrow> bool" where
  "store_inv env W s \<longleftrightarrow> events_ok s \<and> loop_inv (worker_derive (we_crypto env)) (get_accounts_with_latest_keypairs s) s \<and>
     keys_of (we_crypto env) W s \<and> marks_keyed s \<and> canonical s"

text \<open>The wallet of an address gives one signature.\<close>

definition one_signature :: "(string \<times> key_derivation_signature) set \<Rightarrow> bool" where
  "one_signature W \<longleftrightarrow> (\<forall>a x y. (a, x) \<in> W \<longrightarrow> (a, y) \<in> W \<longrightarrow> x = y)"

lemma save_keys_ok:
  fixes blinding :: field
  assumes "store_inv env W s" "one_signature W" "(address, sig) \<in> W"
    and "derive_encryption_and_note_keypairs (we_crypto env) sig = Inr (note_keys', enc_keys)"
  defines "s' \<equiv> save_encryption_and_note_keypairs address note_keys' enc_keys blinding s"
  shows "store_inv env W s'"
proof -
  let ?D = "worker_derive (we_crypto env)" and ?A = "get_accounts_with_latest_keypairs"
  have inv: "events_ok s" "loop_inv ?D (?A s) s" "keys_of (we_crypto env) W s" "marks_keyed s" using assms(1) by (simp_all add: store_inv_def)
  have chain: "chain_ok s" using inv(2) by (simp add: loop_inv_def scan_inv_def)
  obtain acc t where t: "get_or_create_account address s = (acc, t)" by fastforce
  obtain more where tm: "events_ok t" "(acc, address) \<in> set (ls_accounts t)" "t = s\<lparr>ls_accounts := ls_accounts s @ more\<rparr>"
    using get_or_create_account_ok [OF inv(1) t] by blast
  let ?k = "\<lparr>kr_id = next_id (map kr_id (ls_keypairs t)), kr_note = note_keys', kr_encryption = enc_keys,
    kr_membership_blinding = blinding, kr_account = acc\<rparr>"
  have s': "s' = t\<lparr>ls_keypairs := ls_keypairs t @ [?k]\<rparr>" by (simp add: s'_def save_encryption_and_note_keypairs_def t)
  have acc: "acc \<in> fst ` set (ls_accounts t)" using tm(2) by force
  have ev: "events_ok s'"
    using tm(1) acc sorted_next_id [of "map kr_id (ls_keypairs t)"] by (simp add: s' events_ok_def)
  have kp: "ls_keypairs s' = ls_keypairs s @ [?k]" by (simp add: s' tm(3))
  have latest: "latest_keypair s' a = (if a = acc then Some ?k else latest_keypair s a)" for a
    using latest_keypair_snoc [OF inv(1) ev kp] by simp
  have ch: "chain_ok s'" using chain by (simp add: s' tm(3) chain_ok_def known_def)
  have gr: "grows s s'" by (auto simp: grows_def s' tm(3) event_of_def)
  have li: "loop_inv ?D (?A s) s'" using grows_loop_inv [OF gr ch inv(2)] .
  have own: "\<exists>b \<in> set (?A s). ak_account_id b = acc \<and> ?D b = ?D a" if g: "acc \<in> kr_account ` set (ls_keypairs s)"
    "ak_account_id a = acc" "ak_note_keypair a = note_keys'" "ak_encryption_keypair a = enc_keys" for a
  proof -
    obtain k where k: "latest_keypair s acc = Some k" using g(1) latest_keypair_None [OF inv(1), of acc] by (cases "latest_keypair s acc") simp_all
    have kin: "k \<in> set (ls_keypairs s)" "kr_account k = acc" using latest_keypair_Some [OF inv(1) k] by auto
    obtain a' sig' where d: "(acc, a') \<in> set (ls_accounts s)" "(a', sig') \<in> W" "derive_encryption_and_note_keypairs (we_crypto env) sig' = Inr (kr_note k, kr_encryption k)"
      using inv(3) kin unfolding keys_of_def by metis
    have "(acc, a') \<in> set (ls_accounts t)" "names_ok (ls_accounts t)" using d(1) tm(1,3) by (auto simp: events_ok_def)
    then have "Some a' = Some address" using id_address_in tm(2) unfolding names_ok_def by metis
    then have "a' = address" by simp
    then have "sig' = sig" using d(2) assms(2,3) unfolding one_signature_def by metis
    then have "kr_note k = note_keys'" "kr_encryption k = enc_keys" using d(3) assms(4) by simp_all
    moreover have "acc \<in> fst ` set (ls_accounts s)" using d(1) by force
    ultimately show ?thesis using k g
      by (intro bexI [of _ "\<lparr>ak_account_id = acc, ak_note_keypair = kr_note k, ak_encryption_keypair = kr_encryption k,
        ak_membership_blinding = kr_membership_blinding k\<rparr>"]) (auto simp: account_in intro: worker_derive_same)
  qed
  have "scanned ?D (?A s') s'"
    unfolding scanned_def
  proof (intro ballI allI impI)
    fix a p c assume c: "a \<in> set (?A s')" "c \<in> set (ls_commitments s')" "contract_of s' (cr_event c) = Some p" "cr_id c \<le> scan_mark s' p (ak_account_id a)"
    obtain k where k: "ak_account_id a \<in> fst ` set (ls_accounts s')" "latest_keypair s' (ak_account_id a) = Some k"
      "a = \<lparr>ak_account_id = ak_account_id a, ak_note_keypair = kr_note k, ak_encryption_keypair = kr_encryption k, ak_membership_blinding = kr_membership_blinding k\<rparr>"
      using c(1) unfolding account_in by blast
    have old: "covered ?D s' b c" if "b \<in> set (?A s)" "ak_account_id b = ak_account_id a" for b
      using li that c(2-4) unfolding loop_inv_def scanned_def by metis
    consider (other) "ak_account_id a \<noteq> acc" | (known) "ak_account_id a = acc" "acc \<in> kr_account ` set (ls_keypairs s)"
      | (new) "ak_account_id a = acc" "acc \<notin> kr_account ` set (ls_keypairs s)" by blast
    then show "covered ?D s' a c"
    proof cases
      case other
      then have lk: "latest_keypair s (ak_account_id a) = Some k" using k(2) latest by simp
      then have "k \<in> set (ls_keypairs s)" "kr_account k = ak_account_id a" using latest_keypair_Some [OF inv(1)] by auto
      then have "ak_account_id a \<in> fst ` set (ls_accounts s)" using inv(1) unfolding events_ok_def by (metis image_eqI subsetD)
      then have "a \<in> set (?A s)" unfolding account_in using lk k(3) by blast
      then show ?thesis using old by blast
    next
      case known
      then have "k = ?k" using k(2) latest by simp
      then have "ak_note_keypair a = note_keys'" "ak_encryption_keypair a = enc_keys"
        using arg_cong [OF k(3), of ak_note_keypair] arg_cong [OF k(3), of ak_encryption_keypair] by simp_all
      then obtain b where "b \<in> set (?A s)" "ak_account_id b = acc" "?D b = ?D a" using own known by blast
      then show ?thesis using old covered_same [of ?D b a] known(1) by metis
    next
      case new
      have "ls_commitment_scan s (p, acc) = None" using inv(4) new(2) unfolding marks_keyed_def by metis
      then have "ls_commitment_scan s' (p, acc) = None" by (simp add: s' tm(3))
      then have "cr_id c \<le> 0" using c(4) new(1) by (simp add: scan_mark_def)
      then show ?thesis using ch c(2) by (auto simp: chain_ok_def)
    qed
  qed
  then have "loop_inv ?D (?A s') s'" using li accounts_keyed [OF ev] by (simp add: loop_inv_def)
  moreover have "keys_of (we_crypto env) W s'"
    using inv(3) tm(2) assms(3,4) unfolding keys_of_def kp by (auto simp: s' tm(3)) (metis UnI1 set_append)+
  moreover have "marks_keyed s'" using inv(4) unfolding marks_keyed_def kp by (auto simp: s' tm(3))
  moreover have "canonical s'" using assms(1) by (simp add: store_inv_def canonical_def s' tm(3))
  ultimately show ?thesis using ev by (simp add: store_inv_def)
qed

section \<open>Requests keep the invariant\<close>

lemma accounts_grow:
  assumes "events_ok s" "ls_keypairs s' = ls_keypairs s" "set (ls_accounts s) \<subseteq> set (ls_accounts s')"
  shows "set (get_accounts_with_latest_keypairs s') = set (get_accounts_with_latest_keypairs s)"
proof -
  have l: "latest_keypair s' = latest_keypair s" by (rule latest_keypair_same [OF assms(2)])
  have "ak_account_id a \<in> fst ` set (ls_accounts s)" if "latest_keypair s (ak_account_id a) = Some k" for a k
    using latest_keypair_Some [OF assms(1) that] assms(1) unfolding events_ok_def by (metis image_eqI subsetD)
  moreover have "fst ` set (ls_accounts s) \<subseteq> fst ` set (ls_accounts s')" using assms(3) by (rule image_mono)
  ultimately show ?thesis unfolding set_eq_iff account_in l by blast
qed

lemma loop_inv_set: "set A = set B \<Longrightarrow> loop_inv derive A s = loop_inv derive B s"
  by (simp add: loop_inv_def scanned_def)

lemma store_inv_frame:
  assumes "store_inv env W s" "events_ok s'" "chain_ok s'" "grows s s'" "ls_keypairs s' = ls_keypairs s" "set (ls_accounts s) \<subseteq> set (ls_accounts s')"
    "canonical s'"
  shows "store_inv env W s'"
proof -
  have inv: "events_ok s" "loop_inv (worker_derive (we_crypto env)) (get_accounts_with_latest_keypairs s) s" "keys_of (we_crypto env) W s" "marks_keyed s"
    using assms(1) by (simp_all add: store_inv_def)
  have "loop_inv (worker_derive (we_crypto env)) (get_accounts_with_latest_keypairs s') s'"
    using grows_loop_inv [OF assms(4,3) inv(2)] loop_inv_set [OF accounts_grow [OF inv(1) assms(5,6)]] by blast
  moreover have "keys_of (we_crypto env) W s'" using inv(3) assms(6) unfolding keys_of_def assms(5) by blast
  moreover have "marks_keyed s'" using inv(4) assms(4) by (simp add: marks_keyed_def assms(5) grows_def)
  ultimately show ?thesis using assms(2,7) by (simp add: store_inv_def)
qed

lemma chain_ok_frame:
  assumes "chain_ok s" "ls_nullifiers s' = ls_nullifiers s" "ls_commitments s' = ls_commitments s" "ls_public_keys s' = ls_public_keys s"
    "ls_asp_leaves s' = ls_asp_leaves s" "ls_events s' = ls_events s"
  shows "chain_ok s'"
  using assms by (simp add: chain_ok_def known_def)

lemma save_sync_progress_ok:
  "events_ok s \<Longrightarrow> events_ok (save_sync_progress ms full s) \<and>
    (\<exists>cs ix. save_sync_progress ms full s = s\<lparr>ls_contracts := ls_contracts s @ cs, ls_indexing := ix\<rparr>)"
proof (induction ms arbitrary: s)
  case Nil
  then show ?case by (auto intro!: exI [of _ "[]"] exI [of _ "ls_indexing s"])
next
  case (Cons m ms)
  obtain c t where t: "get_or_create_contract_id (sm_contract_id m) s = (c, t)" by fastforce
  obtain cs where tc: "events_ok t" "(c, sm_contract_id m) \<in> set (ls_contracts t)" "t = s\<lparr>ls_contracts := ls_contracts s @ cs\<rparr>"
    using get_or_create_contract_id_ok [OF Cons.prems t] by blast
  define rows where "rows = (if c \<in> sr_contract ` set (ls_indexing t) then ls_indexing t
    else ls_indexing t @ [\<lparr>sr_contract = c, sr_cursor = Some (sm_cursor m), sr_last_indexed = sm_last_indexed_ledger m, sr_last_fully_indexed = 0\<rparr>])"
  define upd :: "sync_row \<Rightarrow> sync_row" where "upd = (if full
    then (\<lambda>r. r\<lparr>sr_cursor := Some (sm_cursor m), sr_last_indexed := sm_last_indexed_ledger m, sr_last_fully_indexed := sm_last_indexed_ledger m\<rparr>)
    else (\<lambda>r. r\<lparr>sr_cursor := Some (sm_cursor m), sr_last_indexed := sm_last_indexed_ledger m\<rparr>))"
  let ?ix = "map (\<lambda>r. if sr_contract r = c then upd r else r) rows"
  have run: "save_sync_progress (m # ms) full s = save_sync_progress ms full (t\<lparr>ls_indexing := ?ix\<rparr>)"
    unfolding rows_def upd_def by (simp only: save_sync_progress.simps t prod.case Let_def)
  have keep: "sr_contract (upd r) = sr_contract r" for r by (simp add: upd_def)
  have ids: "map sr_contract ?ix = map sr_contract rows" by (simp add: keep)
  have ids': "sr_contract ` set ?ix = sr_contract ` set rows" using arg_cong [OF ids, of set] by (simp only: set_map)
  have "c \<in> fst ` set (ls_contracts t)" using tc(2) by force
  then have "distinct (map sr_contract rows)" "sr_contract ` set rows \<subseteq> fst ` set (ls_contracts t)"
    using tc(1) by (auto simp: rows_def events_ok_def)
  then have "events_ok (t\<lparr>ls_indexing := ?ix\<rparr>)" using tc(1) ids ids' by (simp add: events_ok_def del: map_map set_map)
  from Cons.IH [OF this] obtain cs' ix where "events_ok (save_sync_progress (m # ms) full s)"
    "save_sync_progress (m # ms) full s = s\<lparr>ls_contracts := ls_contracts s @ (cs @ cs'), ls_indexing := ix\<rparr>"
    unfolding run tc(3) by auto
  then show ?case by blast
qed

lemma clear_cursors_ok: "events_ok s \<Longrightarrow> events_ok (clear_indexing_cursors s)"
  by (simp add: events_ok_def clear_indexing_cursors_def comp_def image_image)

text \<open>Requests that signal the loop aside, a request leaves what the notes depend on.\<close>

definition quiet :: "local_store \<Rightarrow> local_store \<Rightarrow> bool" where
  "quiet s s' \<longleftrightarrow> (\<exists>cs ix accs d b. s' = s\<lparr>ls_contracts := ls_contracts s @ cs, ls_indexing := ix, ls_accounts := ls_accounts s @ accs,
     ls_disclaimers := d, ls_bootnode := b\<rparr>)"

lemma quiet_refl: "quiet s s"
  unfolding quiet_def by (rule exI [of _ "[]"], rule exI [of _ "ls_indexing s"], rule exI [of _ "[]"], rule exI [of _ "ls_disclaimers s"],
    rule exI [of _ "ls_bootnode s"]) simp

lemma store_inv_quiet:
  assumes "store_inv env W s" "quiet s s'" "events_ok s'"
  shows "store_inv env W s'"
proof -
  obtain cs ix accs d b where s': "s' = s\<lparr>ls_contracts := ls_contracts s @ cs, ls_indexing := ix, ls_accounts := ls_accounts s @ accs,
     ls_disclaimers := d, ls_bootnode := b\<rparr>" using assms(2) unfolding quiet_def by blast
  have "chain_ok s" using assms(1) by (simp add: store_inv_def loop_inv_def scan_inv_def)
  then have "chain_ok s'" by (rule chain_ok_frame) (simp_all add: s')
  moreover have "grows s s'" by (simp add: grows_def s' event_of_def)
  moreover have "canonical s'" using assms(1) by (simp add: store_inv_def canonical_def s')
  ultimately show ?thesis using assms(1,3) by (intro store_inv_frame [of env W s s']) (simp_all add: s')
qed

lemma quiet_sync: "events_ok s \<Longrightarrow> quiet s (save_sync_progress ms full s)"
proof -
  assume "events_ok s"
  then obtain cs ix where "save_sync_progress ms full s = s\<lparr>ls_contracts := ls_contracts s @ cs, ls_indexing := ix\<rparr>"
    using save_sync_progress_ok by blast
  then show ?thesis unfolding quiet_def by (intro exI [of _ cs] exI [of _ ix] exI [of _ "[]"] exI [of _ "ls_disclaimers s"] exI [of _ "ls_bootnode s"]) simp
qed

lemma quiet_account:
  assumes "events_ok s" "get_or_create_account a s = (i, t)"
  shows "events_ok (t\<lparr>ls_disclaimers := d\<rparr>) \<and> quiet s (t\<lparr>ls_disclaimers := d\<rparr>)"
proof -
  obtain accs where t: "events_ok t" "t = s\<lparr>ls_accounts := ls_accounts s @ accs\<rparr>" using get_or_create_account_ok [OF assms] by blast
  have "quiet s (t\<lparr>ls_disclaimers := d\<rparr>)" unfolding quiet_def t(2)
    by (intro exI [of _ "[]"] exI [of _ "ls_indexing s"] exI [of _ accs] exI [of _ d] exI [of _ "ls_bootnode s"]) simp
  then show ?thesis using t(1) by (simp add: events_ok_def)
qed

lemma store_inv_events:
  assumes "store_inv env W s"
  shows "store_inv env W (save_events_batch es s)"
proof -
  have ev: "events_ok s" and ch: "chain_ok s" using assms by (simp_all add: store_inv_def loop_inv_def scan_inv_def)
  let ?t = "save_events_batch es s"
  have t: "events_ok ?t" "extends s ?t" using save_events_batch_ok [OF ev] by auto
  have "grows s ?t" using extends_tables [OF t(2)] extends_event_of [OF t(2)] by (simp add: grows_def)
  moreover have "canonical ?t" using assms extends_tables [OF t(2)] by (simp add: store_inv_def canonical_def)
  ultimately show ?thesis
    using store_inv_frame [OF assms t(1) chain_ok_extends [OF ch t(2)]] extends_tables [OF t(2)] by simp
qed

section \<open>Turns keep the invariant\<close>

lemma scan_rows_marks: "scan_rows derive pool a rows m s = Inr (t, k) \<Longrightarrow> ls_commitment_scan t = ls_commitment_scan s"
proof (induction rows arbitrary: m s)
  case (Cons row rows)
  have keep: "ls_commitment_scan (insert_user_note n s) = ls_commitment_scan s" for n by (simp add: insert_user_note_def)
  from Cons.prems obtain d where d: "derive a row = Inr d" by (auto simp: andThen_Inr map_err_def split: sum.splits)
  show ?case using Cons.prems Cons.IH by (cases d) (auto simp: d map_err_def keep Let_def)
qed simp

lemma account_cycle_marks:
  "account_cycle derive pool A q b s = Inr (t, q', b') \<Longrightarrow>
    dom (ls_commitment_scan t) \<subseteq> dom (ls_commitment_scan s) \<union> UNIV \<times> ak_account_id ` set A"
proof (induction A arbitrary: q b s)
  case (Cons a A)
  consider (out) "q = 0" | (none) "0 < q" "next_rows s pool (ak_account_id a) q = []" | (rows) "0 < q" "next_rows s pool (ak_account_id a) q \<noteq> []" by auto
  then show ?case
  proof cases
    case rows
    then obtain u m where u: "scan_rows derive pool a (next_rows s pool (ak_account_id a) q) (scan_mark s pool (ak_account_id a)) s = Inr (u, m)"
      and run: "account_cycle derive pool A (q - length (next_rows s pool (ak_account_id a) q)) True
        (u\<lparr>ls_commitment_scan := (ls_commitment_scan u)((pool, ak_account_id a) \<mapsto> m)\<rparr>) = Inr (t, q', b')"
      using Cons.prems by (auto simp: andThen_Inr)
    show ?thesis using Cons.IH [OF run] scan_rows_marks [OF u] by (fastforce simp: subset_iff)
  next
    case none
    then have "account_cycle derive pool A q b s = Inr (t, q', b')" using Cons.prems by simp
    from Cons.IH [OF this] show ?thesis by auto
  qed (use Cons in auto)
qed auto

lemma pool_loop_marks:
  "pool_loop derive pool A q b s = Inr (t, b') \<Longrightarrow>
    dom (ls_commitment_scan t) \<subseteq> dom (ls_commitment_scan s) \<union> UNIV \<times> ak_account_id ` set A"
proof (induction q arbitrary: b s rule: less_induct)
  case (less q)
  show ?case
  proof (cases "q = 0")
    case True
    then show ?thesis using less.prems by (simp add: pool_loop.simps)
  next
    case False
    then obtain v where c: "account_cycle derive pool A q False s = Inr v"
      and run: "(if snd (snd v) then pool_loop derive pool A (fst (snd v)) True (fst v) else Inr (fst v, b)) = Inr (t, b')"
      using less.prems unfolding pool_loop.simps [of derive pool A q b s] by (auto simp only: andThen_Inr if_False)
    obtain u q' b1 where v: "v = (u, q', b1)" by (cases v)
    note m = account_cycle_marks [OF c [unfolded v]]
    show ?thesis
    proof (cases b1)
      case True
      then have "q' < q" "pool_loop derive pool A q' True u = Inr (t, b')" using account_cycle_quota [OF c [unfolded v]] run v by simp_all
      then show ?thesis using less.IH [of q' True u] m by blast
    next
      case False
      then have "t = u" using run v by simp
      then show ?thesis using m by simp
    qed
  qed
qed

lemma scan_pools_marks:
  "scan_pools derive A pools b s = (t, r) \<Longrightarrow> dom (ls_commitment_scan t) \<subseteq> dom (ls_commitment_scan s) \<union> UNIV \<times> ak_account_id ` set A"
proof (induction pools arbitrary: b s)
  case (Cons pq pools)
  obtain pool q where pq: "pq = (pool, q)" by fastforce
  consider (zero) "q = 0" | (fail) e where "0 < q" "pool_loop derive pool A q False (start_scan pool A s) = Inl e"
    | (go) u d where "0 < q" "pool_loop derive pool A q False (start_scan pool A s) = Inr (u, d)"
    by (cases "q = 0"; cases "pool_loop derive pool A q False (start_scan pool A s)") auto
  then show ?case
  proof cases
    case go
    have "dom (ls_commitment_scan (start_scan pool A s)) \<subseteq> dom (ls_commitment_scan s) \<union> UNIV \<times> ak_account_id ` set A"
      by (auto simp: start_scan_def split: if_splits)
    then have "dom (ls_commitment_scan u) \<subseteq> dom (ls_commitment_scan s) \<union> UNIV \<times> ak_account_id ` set A"
      using pool_loop_marks [OF go(2)] by blast
    moreover have "scan_pools derive A pools (b \<or> d) u = (t, r)" using Cons.prems go by (simp add: pq)
    ultimately show ?thesis using Cons.IH [of "b \<or> d" u] by blast
  next
    case zero
    then have "scan_pools derive A pools b s = (t, r)" using Cons.prems by (simp add: pq)
    then show ?thesis by (rule Cons.IH)
  next
    case fail
    then have "t = s" using Cons.prems by (simp add: pq)
    then show ?thesis by simp
  qed
qed auto

lemma scan_commitments_marks:
  assumes "scan_commitments_for_user_notes derive limit s = (t, r)"
  shows "dom (ls_commitment_scan t) \<subseteq> dom (ls_commitment_scan s) \<union> UNIV \<times> ak_account_id ` set (get_accounts_with_latest_keypairs s)"
proof -
  from assms consider "t = s" | pools where "scan_pools derive (get_accounts_with_latest_keypairs s) pools False s = (t, r)"
    by (auto simp: scan_commitments_for_user_notes_def Let_def split: if_splits)
  then show ?thesis by cases (use scan_pools_marks in auto)
qed

lemma reconcile_rows_marks: "reconcile_rows pool rs m s = Inr (t, k) \<Longrightarrow> ls_commitment_scan t = ls_commitment_scan s"
proof (induction rs arbitrary: m s)
  case (Cons r rs)
  obtain u where u: "mark_notes pool (nr_id r) (nr_nullifier r) s = Inr u" and "\<exists>m'. reconcile_rows pool rs m' u = Inr (t, k)"
    using Cons.prems by (auto simp: andThen_Inr Let_def)
  moreover have "ls_commitment_scan u = ls_commitment_scan s" using u by (auto simp: mark_notes_def andThen_Inr guard_Inr Let_def)
  ultimately show ?case using Cons.IH by metis
qed simp

lemma reconcile_pool_marks:
  assumes "reconcile_pool pool limit s = Inr (t, d)"
  shows "ls_commitment_scan t = ls_commitment_scan s"
proof -
  obtain u m where u: "reconcile_rows pool (take limit (pending s pool)) (nullifier_mark s pool)
      (s\<lparr>ls_nullifier_scan := (ls_nullifier_scan s)(pool \<mapsto> nullifier_mark s pool)\<rparr>) = Inr (u, m)"
    "t = (if nullifier_mark s pool < m then u\<lparr>ls_nullifier_scan := (ls_nullifier_scan u)(pool \<mapsto> m)\<rparr> else u)"
    using reconcile_pool_Inr [OF assms] by blast
  have "ls_commitment_scan u = ls_commitment_scan s" using reconcile_rows_marks [OF u(1)] by simp
  then show ?thesis by (simp add: u(2))
qed

lemma reconcile_pools_marks: "reconcile_pools limit pools b s = (t, r) \<Longrightarrow> ls_commitment_scan t = ls_commitment_scan s"
proof (induction pools arbitrary: b s)
  case (Cons pool pools)
  show ?case
  proof (cases "reconcile_pool pool limit s")
    case (Inr ud)
    obtain u d where ud: "ud = (u, d)" by fastforce
    have "ls_commitment_scan u = ls_commitment_scan s" using reconcile_pool_marks Inr ud by simp
    then show ?thesis using Cons Inr ud by simp
  qed (use Cons in simp)
qed simp

lemma reconcile_nullifiers_marks: "reconcile_nullifiers limit s = (t, r) \<Longrightarrow> ls_commitment_scan t = ls_commitment_scan s"
  by (auto simp: reconcile_nullifiers_def dest: reconcile_pools_marks split: if_splits)

lemma process_notes_marks:
  assumes "process_notes derive limit s = (t, r)"
  shows "dom (ls_commitment_scan t) \<subseteq> dom (ls_commitment_scan s) \<union> UNIV \<times> ak_account_id ` set (get_accounts_with_latest_keypairs s)"
proof -
  obtain u r1 where u: "scan_commitments_for_user_notes derive limit s = (u, r1)" by fastforce
  obtain v r2 where v: "reconcile_nullifiers limit u = (v, r2)" by fastforce
  have "t = u \<or> t = v" using assms by (cases r1; cases r2) (simp_all add: process_notes_def u v)
  then have "ls_commitment_scan t = ls_commitment_scan u" using reconcile_nullifiers_marks [OF v] by (elim disjE) simp_all
  then show ?thesis using scan_commitments_marks [OF u] by simp
qed

lemma store_inv_notes:
  assumes "store_inv env W s" "process_notes (worker_derive (we_crypto env)) limit s = (t, r)" "0 < limit"
  shows "store_inv env W t"
proof -
  let ?A = "get_accounts_with_latest_keypairs s"
  have inv: "events_ok s" "loop_inv (worker_derive (we_crypto env)) ?A s" "keys_of (we_crypto env) W s" "marks_keyed s"
    using assms(1) by (simp_all add: store_inv_def)
  have st: "loop_inv (worker_derive (we_crypto env)) ?A t" and sc: "same_chain s t"
    using process_notes_ok [OF inv(2) assms(3,2)] by (simp_all add: steps_def)
  have acc: "get_accounts_with_latest_keypairs t = ?A" by (rule accounts_same [OF sc])
  have "ak_account_id ` set ?A \<subseteq> kr_account ` set (ls_keypairs s)"
    using latest_keypair_Some [OF inv(1)] by (fastforce simp: account_in)
  then have "marks_keyed t"
    using inv(4) process_notes_marks [OF assms(2)] unfolding marks_keyed_def same_chain_reads(3) [OF sc] by (fastforce simp: dom_def subset_iff)
  moreover have "keys_of (we_crypto env) W t" using inv(3) by (simp add: keys_of_def same_chain_reads(2,3) [OF sc])
  moreover have "events_ok t" using inv(1) same_chain_ok(2) [OF sc] by simp
  moreover have "canonical t" using assms(1) by (simp add: store_inv_def canonical_def same_chain_reads [OF sc])
  ultimately show ?thesis using st by (simp add: store_inv_def acc)
qed

lemma store_inv_process_events:
  assumes "store_inv env W s" "process_events xdr limit s = (t, r)"
  shows "store_inv env W t"
proof -
  have ev: "events_ok s" and ch: "chain_ok s" using assms(1) by (simp_all add: store_inv_def loop_inv_def scan_inv_def)
  have sv: "chain_ok t" "grows s t" "same_base s t" "canonical t"
    using process_events_ok [OF ch assms(2)] assms(1) by (simp_all add: saves_def store_inv_def)
  then have "ls_keypairs t = ls_keypairs s" "ls_accounts t = ls_accounts s" by (simp_all add: same_base_def)
  then show ?thesis using store_inv_frame [OF assms(1) _ sv(1,2)] same_base_events(1) [OF sv(3)] ev sv(4) by simp
qed

text \<open>A store in which nothing is left to do.\<close>

definition settled :: "local_store \<Rightarrow> bool" where
  "settled s \<longleftrightarrow> (\<forall>r \<in> set (ls_events s). processed s (er_id r)) \<and>
     (\<forall>p. \<forall>a \<in> set (get_accounts_with_latest_keypairs s). backlog s p a = 0) \<and> (\<forall>p. pending s p = [])"

lemma unprocessed_empty:
  assumes "events_ok s" "0 < limit" "get_unprocessed_events limit s = []"
  shows "\<forall>r \<in> set (ls_events s). processed s (er_id r)"
proof (rule ballI, rule ccontr)
  fix r assume r: "r \<in> set (ls_events s)" "\<not> processed s (er_id r)"
  have "er_contract r \<in> fst ` set (ls_contracts s)" using assms(1) r(1) by (auto simp: events_ok_def)
  then obtain a where "(er_contract r, a) \<in> set (ls_contracts s)" by force
  then have "id_address (ls_contracts s) (er_contract r) = Some a" using assms(1) id_address_in by (auto simp: events_ok_def names_ok_def)
  then show False using assms(2,3) r by (force simp: get_unprocessed_events_def)
qed

lemma process_turn_ok:
  assumes "store_inv env W s" "process_turn env s = (t, r)"
  shows "store_inv env W t \<and> (r = Inr False \<longrightarrow> settled t)"
proof -
  obtain u r1 where u: "process_events (we_xdr env) FETCH_LIMIT s = (u, r1)" by fastforce
  obtain v r2 where v: "process_notes (worker_derive (we_crypto env)) FETCH_LIMIT u = (v, r2)" by fastforce
  have iu: "store_inv env W u" using store_inv_process_events [OF assms(1) u] .
  have pos: "0 < FETCH_LIMIT" by (simp add: FETCH_LIMIT_def)
  have iv: "store_inv env W v" using store_inv_notes [OF iu v pos] .
  have turn: "process_turn env s = (case r1 of Inl e \<Rightarrow> (u, Inl e) | Inr b1 \<Rightarrow>
      (case r2 of Inl e \<Rightarrow> (v, Inl e) | Inr b2 \<Rightarrow> (v, Inr (b1 \<or> b2))))"
    unfolding process_turn_def u prod.case v by (simp split: sum.split)
  have t: "t = (case r1 of Inl e \<Rightarrow> u | Inr b \<Rightarrow> v)" using assms(2) unfolding turn by (auto split: sum.splits)
  have inv: "store_inv env W t" using iu iv by (cases r1) (simp_all add: t)
  have "settled t" if ended: "r = Inr False"
  proof -
    have r: "r1 = Inr False" "r2 = Inr False" "t = v" using assms(2) ended unfolding turn by (auto split: sum.splits)
    have ch: "chain_ok s" and ev: "events_ok u" using assms(1) iu by (simp_all add: store_inv_def loop_inv_def scan_inv_def)
    have us: "u = s" "get_unprocessed_events FETCH_LIMIT s = []" using process_events_ok [OF ch u] r(1) by auto
    have li: "loop_inv (worker_derive (we_crypto env)) (get_accounts_with_latest_keypairs u) u" using iu by (simp add: store_inv_def)
    have n: "steps (worker_derive (we_crypto env)) (get_accounts_with_latest_keypairs u) u v"
      "\<forall>p. \<forall>a \<in> set (get_accounts_with_latest_keypairs u). backlog v p a = 0" "\<forall>p. pending v p = []"
      using process_notes_ok [OF li pos v] r(2) by auto
    have sc: "same_chain u v" using n(1) by (simp add: steps_def)
    have "\<forall>r \<in> set (ls_events v). processed v (er_id r)"
      using unprocessed_empty [OF ev pos] us by (simp add: processed_def same_chain_reads [OF sc])
    then show ?thesis using n accounts_same [OF sc] by (simp add: settled_def r(3))
  qed
  then show ?thesis using inv by blast
qed

section \<open>The steps of the worker\<close>

definition worker_inv :: "worker_env \<Rightarrow> (string \<times> key_derivation_signature) set \<Rightarrow> worker \<Rightarrow> bool" where
  "worker_inv env W w \<longleftrightarrow> store_inv env W (wk_store w) \<and>
     (\<not> wk_running w \<longrightarrow> wk_signals w = 0 \<longrightarrow> \<not> wk_failed w \<longrightarrow> settled (wk_store w))"

lemma worker_inv_kick: "store_inv env W s \<Longrightarrow> worker_inv env W (kick_processor (w\<lparr>wk_store := s\<rparr>))"
  by (simp add: worker_inv_def kick_processor_def)

lemma settled_quiet:
  assumes "settled s" "quiet s s'" "events_ok s"
  shows "settled s'"
proof -
  obtain cs ix accs d b where s': "s' = s\<lparr>ls_contracts := ls_contracts s @ cs, ls_indexing := ix, ls_accounts := ls_accounts s @ accs,
     ls_disclaimers := d, ls_bootnode := b\<rparr>" using assms(2) unfolding quiet_def by blast
  have "set (get_accounts_with_latest_keypairs s') = set (get_accounts_with_latest_keypairs s)"
    by (rule accounts_grow [OF assms(3)]) (simp_all add: s')
  moreover have c: "contract_of s' = contract_of s" by (simp add: s' fun_eq_iff contract_of_def event_of_def)
  moreover have t: "ls_commitments s' = ls_commitments s" "ls_nullifiers s' = ls_nullifiers s" "ls_events s' = ls_events s"
    "ls_public_keys s' = ls_public_keys s" "ls_asp_leaves s' = ls_asp_leaves s" "ls_commitment_scan s' = ls_commitment_scan s"
    "ls_nullifier_scan s' = ls_nullifier_scan s" by (simp_all add: s')
  moreover have "backlog s' p a = backlog s p a" "pending s' p = pending s p" for p a
    by (simp_all only: backlog_def unscanned_def scan_mark_def pending_def nullifier_mark_def c t)
  ultimately show ?thesis using assms(1) by (simp add: settled_def processed_def)
qed

lemma worker_inv_quiet:
  assumes "worker_inv env W w" "quiet (wk_store w) s" "events_ok s"
  shows "worker_inv env W (w\<lparr>wk_store := s\<rparr>)"
proof -
  have inv: "store_inv env W (wk_store w)" using assms(1) by (simp add: worker_inv_def)
  then have "events_ok (wk_store w)" by (simp add: store_inv_def)
  then show ?thesis using assms(1) settled_quiet [OF _ assms(2)] store_inv_quiet [OF inv assms(2,3)] by (simp add: worker_inv_def)
qed

text \<open>A request leaves the worker, changes what no note depends on, or signals the loop.\<close>

lemma router_cases:
  assumes "worker_inv env W w" "one_signature W" "router env req rng w = (w', r)"
    and "\<And>a sig n. req = DeriveSaveUserKeys a sig n \<Longrightarrow> (a, sig) \<in> W"
  shows "w' = w \<or> (\<exists>s. quiet (wk_store w) s \<and> events_ok s \<and> w' = w\<lparr>wk_store := s\<rparr>) \<or>
    (\<exists>s. store_inv env W s \<and> w' = kick_processor (w\<lparr>wk_store := s\<rparr>))"
proof -
  let ?s = "wk_store w"
  have inv: "store_inv env W ?s" and ev: "events_ok ?s" using assms(1) by (simp_all add: worker_inv_def store_inv_def)
  show ?thesis
  proof (cases req)
    case Ping
    then have "w' = kick_processor (w\<lparr>wk_store := ?s\<rparr>)" using assms(3) by (simp add: router_def)
    then show ?thesis using inv by blast
  next
    case (SaveEvents es)
    then have "w' = kick_processor (w\<lparr>wk_store := save_events_batch es ?s\<rparr>)" using assms(3) by (simp add: router_def)
    then show ?thesis using store_inv_events [OF inv] by blast
  next
    case (SaveSyncProgress ms full)
    then have "w' = w\<lparr>wk_store := save_sync_progress ms full ?s\<rparr>" using assms(3) by (simp add: router_def)
    then show ?thesis using quiet_sync [OF ev] save_sync_progress_ok [OF ev] by blast
  next
    case ClearIndexingCursors
    have "quiet ?s (clear_indexing_cursors ?s)" unfolding quiet_def clear_indexing_cursors_def
      by (rule exI [of _ "[]"], rule exI, rule exI [of _ "[]"], rule exI [of _ "ls_disclaimers ?s"], rule exI [of _ "ls_bootnode ?s"]) simp
    then show ?thesis using ClearIndexingCursors assms(3) clear_cursors_ok [OF ev] by (auto simp: router_def)
  next
    case (DeriveSaveUserKeys a sig n)
    show ?thesis
    proof (cases "derive_encryption_and_note_keypairs (we_crypto env) sig")
      case (Inr keys)
      obtain nk ek where k: "keys = (nk, ek)" by fastforce
      show ?thesis
      proof (cases "derive_membership_blinding (we_crypto env) sig n")
        case (Inr blinding)
        then have "w' = kick_processor (w\<lparr>wk_store := save_encryption_and_note_keypairs a nk ek blinding ?s\<rparr>)"
          using assms(3) DeriveSaveUserKeys \<open>derive_encryption_and_note_keypairs (we_crypto env) sig = Inr keys\<close> k by (simp add: router_def)
        moreover have "store_inv env W (save_encryption_and_note_keypairs a nk ek blinding ?s)"
          using save_keys_ok [OF inv assms(2) assms(4) [OF DeriveSaveUserKeys]] \<open>derive_encryption_and_note_keypairs (we_crypto env) sig = Inr keys\<close> k by simp
        ultimately show ?thesis by blast
      qed (use assms(3) DeriveSaveUserKeys Inr in \<open>simp add: router_def\<close>)
    qed (use assms(3) DeriveSaveUserKeys in \<open>simp add: router_def\<close>)
  next
    case (DisclaimerState a)
    obtain i t where t: "get_or_create_account a ?s = (i, t)" by fastforce
    then have "w' = w\<lparr>wk_store := t\<lparr>ls_disclaimers := ls_disclaimers t\<rparr>\<rparr>"
      using assms(3) DisclaimerState by (simp add: router_def get_disclaimer_state_def)
    then show ?thesis using quiet_account [OF ev t] by blast
  next
    case (AcceptDisclaimer a h)
    obtain i t where t: "get_or_create_account a ?s = (i, t)" by fastforce
    have "w' = w \<or> w' = w\<lparr>wk_store := t\<lparr>ls_disclaimers := ls_disclaimers t\<rparr>\<rparr> \<or>
        w' = w\<lparr>wk_store := t\<lparr>ls_disclaimers := ls_disclaimers t @ [(i, h)]\<rparr>\<rparr>"
      using assms(3) AcceptDisclaimer t by (cases "h = we_disclaimer env")
        (auto simp: router_def accept_current_disclaimer_def guard_def split: if_splits)
    then show ?thesis using quiet_account [OF ev t] by blast
  next
    case (SetBootnodeConfig enabled url)
    have "quiet ?s (set_bootnode_config enabled url ?s)" unfolding quiet_def set_bootnode_config_def
      by (rule exI [of _ "[]"], rule exI [of _ "ls_indexing ?s"], rule exI [of _ "[]"], rule exI [of _ "ls_disclaimers ?s"],
        rule exI [of _ "(enabled, url)"]) simp
    moreover have "events_ok (set_bootnode_config enabled url ?s)" using ev by (simp add: events_ok_def set_bootnode_config_def)
    ultimately show ?thesis using SetBootnodeConfig assms(3) by (auto simp: router_def)
  qed (use assms(3) in \<open>auto simp: router_def Let_def\<close>)
qed

lemma worker_step_inv:
  assumes "worker_step env W w w'" "one_signature W" "worker_inv env W w"
  shows "worker_inv env W w'"
  using assms(1)
proof cases
  case (request req rng r)
  from router_cases [OF assms(3,2) request(2)] request(1) consider "w' = w" | s where "quiet (wk_store w) s" "events_ok s" "w' = w\<lparr>wk_store := s\<rparr>"
    | s where "store_inv env W s" "w' = kick_processor (w\<lparr>wk_store := s\<rparr>)" by blast
  then show ?thesis by cases (use assms(3) worker_inv_quiet worker_inv_kick in auto)
next
  case start
  then show ?thesis using assms(3) by (simp add: worker_inv_def)
next
  case (turn s' r)
  have "store_inv env W (wk_store w)" using assms(3) by (simp add: worker_inv_def)
  from process_turn_ok [OF this turn(3)] show ?thesis
    by (cases r) (auto simp: worker_inv_def turn(1))
qed

lemma store_inv_connect: "store_inv env W connect"
  by (simp add: store_inv_def connect_def events_ok_def names_ok_def loop_inv_def scan_inv_def chain_ok_def known_def notes_ok_def spent_once_def
    notes_derived_def scanned_def marks_ok_def keys_of_def marks_keyed_def canonical_def get_accounts_with_latest_keypairs_def)

lemma settled_connect: "settled connect"
  by (simp add: settled_def connect_def backlog_def unscanned_def pending_def)

lemma worker_reachable_inv: "worker_reachable env W w \<Longrightarrow> one_signature W \<Longrightarrow> worker_inv env W w"
  unfolding worker_reachable_def
proof (induction rule: rtranclp_induct)
  case base
  then show ?case by (simp add: worker_inv_def worker_init_def store_inv_connect settled_connect)
next
  case (step w w')
  then show ?case using worker_step_inv by blast
qed

end
