(* ===== verification/Progress.thy ===== *)
theory Progress imports StorageWorker begin

text \<open>
  What becomes of the events in the database: which events the processing loop saves, which it leaves
  behind, and when the loop comes to an end.
\<close>

section \<open>Unprocessed events\<close>

definition view :: "local_store \<Rightarrow> event_row \<Rightarrow> contract_event" where
  "view s r = \<lparr>cv_id = er_id r, cv_ledger = er_ledger r,
     cv_contract_id = (case id_address (ls_contracts s) (er_contract r) of Some a \<Rightarrow> a | None \<Rightarrow> ''''),
     cv_topics = split_comma (er_topics r), cv_value = er_value r\<rparr>"

definition unprocessed :: "local_store \<Rightarrow> event_row list" where
  "unprocessed s = filter (\<lambda>r. \<not> processed s (er_id r)) (ls_events s)"

definition next_events :: "nat \<Rightarrow> local_store \<Rightarrow> event_row list" where
  "next_events limit s = take limit (sort_key (\<lambda>r. (er_ledger r, er_id r)) (unprocessed s))"

lemma event_address:
  assumes "events_ok s" "r \<in> set (ls_events s)"
  shows "\<exists>a. id_address (ls_contracts s) (er_contract r) = Some a"
proof -
  have "er_contract r \<in> fst ` set (ls_contracts s)" using assms by (auto simp: events_ok_def)
  then obtain a where "(er_contract r, a) \<in> set (ls_contracts s)" by force
  then show ?thesis using assms(1) id_address_in by (auto simp: events_ok_def names_ok_def)
qed

lemma get_unprocessed_view:
  assumes "events_ok s"
  shows "get_unprocessed_events limit s = map (view s) (next_events limit s)"
proof -
  have "concat (map (\<lambda>r. case id_address (ls_contracts s) (er_contract r) of
       Some a \<Rightarrow> [\<lparr>cv_id = er_id r, cv_ledger = er_ledger r, cv_contract_id = a, cv_topics = split_comma (er_topics r),
                  cv_value = er_value r\<rparr>]
     | None \<Rightarrow> []) rs) = map (view s) rs" if "set rs \<subseteq> set (ls_events s)" for rs
    using that
  proof (induction rs)
    case (Cons r rs)
    then obtain a where "id_address (ls_contracts s) (er_contract r) = Some a" using event_address [OF assms] by auto
    then show ?case using Cons by (simp add: view_def)
  qed simp
  then show ?thesis by (auto simp: get_unprocessed_events_def next_events_def unprocessed_def take_map)
qed

lemma set_next_events: "set (next_events limit s) \<subseteq> set (unprocessed s)"
  unfolding next_events_def using set_take_subset by fastforce

section \<open>Keys of tables\<close>

text \<open>The rows of the tables an event is saved in, by their keys.\<close>

datatype table_key = NullifierKey field | CommitmentKey field | EventKey string | LeafKey u32

definition table_key_of :: "xdr_env \<Rightarrow> contract_event \<Rightarrow> table_key option" where
  "table_key_of env e = (case parse_event env e of Inl _ \<Rightarrow> None
     | Inr (Nullifier ev) \<Rightarrow> Some (NullifierKey (ne_nullifier ev))
     | Inr (Commitment ev) \<Rightarrow> Some (CommitmentKey (me_commitment ev))
     | Inr (PublicKey ev) \<Rightarrow> Some (EventKey (ke_id ev))
     | Inr (LeafAdded ev) \<Rightarrow> Some (LeafKey (le_index ev))
     | Inr _ \<Rightarrow> None)"

fun taken :: "local_store \<Rightarrow> table_key \<Rightarrow> bool" where
  "taken s (NullifierKey f) \<longleftrightarrow> f \<in> nr_nullifier ` set (ls_nullifiers s)"
| "taken s (CommitmentKey f) \<longleftrightarrow> f \<in> cr_commitment ` set (ls_commitments s)"
| "taken s (EventKey e) \<longleftrightarrow> e \<in> pr_event ` set (ls_public_keys s)"
| "taken s (LeafKey i) \<longleftrightarrow> i \<in> lr_leaf_index ` set (ls_asp_leaves s)"

text \<open>An event nothing will ever save: it does not parse, has no table, or repeats a key.\<close>

definition blocked :: "xdr_env \<Rightarrow> local_store \<Rightarrow> event_row \<Rightarrow> bool" where
  "blocked env s r \<longleftrightarrow> r \<in> set (unprocessed s) \<and> (case table_key_of env (view s r) of None \<Rightarrow> True | Some k \<Rightarrow> taken s k)"

section \<open>Blocked events stay\<close>

text \<open>What saving the events \<open>es\<close> can bring about.\<close>

definition feeds :: "xdr_env \<Rightarrow> contract_event list \<Rightarrow> local_store \<Rightarrow> local_store \<Rightarrow> bool" where
  "feeds env es s u \<longleftrightarrow> saves s u \<and> (\<forall>k. taken s k \<longrightarrow> taken u k) \<and>
     (\<forall>e. processed u e \<longrightarrow> processed s e \<or> (\<exists>e' \<in> set es. cv_id e' = e \<and> (\<exists>k. table_key_of env e' = Some k \<and> \<not> taken s k)))"

lemma feeds_refl: "chain_ok s \<Longrightarrow> feeds env es s s"
  by (simp add: feeds_def saves_refl)

lemma feeds_trans: "feeds env es s u \<Longrightarrow> feeds env es u v \<Longrightarrow> feeds env es s v"
  unfolding feeds_def using saves_trans [of s u v] by blast

lemma taken_grows:
  assumes "set (ls_nullifiers s) \<subseteq> set (ls_nullifiers u)" "set (ls_commitments s) \<subseteq> set (ls_commitments u)"
    "set (ls_public_keys s) \<subseteq> set (ls_public_keys u)" "set (ls_asp_leaves s) \<subseteq> set (ls_asp_leaves u)" "taken s k"
  shows "taken u k"
  using assms(5) by (cases k) (use assms in auto)

lemma table_key_simps:
  "parse_event env e = Inr (Nullifier n) \<Longrightarrow> table_key_of env e = Some (NullifierKey (ne_nullifier n))"
  "parse_event env e = Inr (Commitment c) \<Longrightarrow> table_key_of env e = Some (CommitmentKey (me_commitment c))"
  "parse_event env e = Inr (PublicKey p) \<Longrightarrow> table_key_of env e = Some (EventKey (ke_id p))"
  "parse_event env e = Inr (LeafAdded l) \<Longrightarrow> table_key_of env e = Some (LeafKey (le_index l))"
  by (simp_all add: table_key_of_def)

lemma feeds_nullifiers:
  assumes "chain_ok s" "save_nullifier_events_batch (nullifiers_in env es) s = Inr u"
  shows "feeds env es s u"
proof -
  obtain rows where r: "chain_ok u" "u = s\<lparr>ls_nullifiers := ls_nullifiers s @ rows\<rparr>"
    "set rows \<subseteq> {r. \<exists>e \<in> set (nullifiers_in env es). nr_nullifier r = ne_nullifier e \<and> nr_event r = ne_id e}"
    using save_nullifier_events_ok [OF assms] by blast
  have "\<exists>e' \<in> set es. cv_id e' = e \<and> (\<exists>k. table_key_of env e' = Some k \<and> \<not> taken s k)" if pr: "processed u e" "\<not> processed s e" for e
  proof -
    obtain row where row: "row \<in> set rows" "nr_event row = e" using pr by (auto simp: processed_def r(2))
    then obtain ev where ev: "ev \<in> set (nullifiers_in env es)" "nr_nullifier row = ne_nullifier ev" "ne_id ev = e" using subsetD [OF r(3) row(1)] by auto
    then obtain e' where e': "e' \<in> set es" "parse_event env e' = Inr (Nullifier ev)" unfolding in_batches by blast
    have "nr_nullifier row \<notin> nr_nullifier ` set (ls_nullifiers s)" using r(1,2) row(1) by (auto simp: chain_ok_def)
    then show ?thesis using e' ev parse_event_id [OF e'(2)] table_key_simps(1) [OF e'(2)] by (intro bexI [of _ e']) auto
  qed
  moreover have "taken u k" if "taken s k" for k using taken_grows [OF _ _ _ _ that] by (simp add: r(2))
  ultimately show ?thesis using saves_nullifiers [OF assms parsed_canonical(1)] unfolding feeds_def by blast
qed

lemma feeds_commitments:
  assumes "chain_ok s" "save_commitment_events_batch (commitments_in env es) s = Inr u"
  shows "feeds env es s u"
proof -
  obtain rows where r: "chain_ok u" "u = s\<lparr>ls_commitments := ls_commitments s @ rows\<rparr>"
    "set rows \<subseteq> {r. \<exists>e \<in> set (commitments_in env es). cr_commitment r = me_commitment e \<and> cr_leaf_index r = me_index e \<and>
      cr_encrypted_output r = me_encrypted_output e \<and> cr_event r = me_id e}"
    using save_commitment_events_ok [OF assms] by blast
  have "\<exists>e' \<in> set es. cv_id e' = e \<and> (\<exists>k. table_key_of env e' = Some k \<and> \<not> taken s k)" if pr: "processed u e" "\<not> processed s e" for e
  proof -
    obtain row where row: "row \<in> set rows" "cr_event row = e" using pr by (auto simp: processed_def r(2))
    then obtain ev where ev: "ev \<in> set (commitments_in env es)" "cr_commitment row = me_commitment ev" "me_id ev = e" using subsetD [OF r(3) row(1)] by auto
    then obtain e' where e': "e' \<in> set es" "parse_event env e' = Inr (Commitment ev)" unfolding in_batches by blast
    have "cr_commitment row \<notin> cr_commitment ` set (ls_commitments s)" using r(1,2) row(1) by (auto simp: chain_ok_def)
    then show ?thesis using e' ev parse_event_id [OF e'(2)] table_key_simps(2) [OF e'(2)] by (intro bexI [of _ e']) auto
  qed
  moreover have "taken u k" if "taken s k" for k using taken_grows [OF _ _ _ _ that] by (simp add: r(2))
  ultimately show ?thesis using saves_commitments [OF assms parsed_canonical(2)] unfolding feeds_def by blast
qed

lemma feeds_public_keys:
  assumes "chain_ok s" "save_public_key_events_batch (public_keys_in env es) s = Inr u"
  shows "feeds env es s u"
proof -
  obtain rows where r: "chain_ok u" "u = s\<lparr>ls_public_keys := ls_public_keys s @ rows\<rparr>"
    "set rows \<subseteq> {r. \<exists>e \<in> set (public_keys_in env es). pr_owner r = ke_owner e \<and> pr_encryption_key r = ke_encryption_key e \<and>
      pr_note_key r = ke_note_key e \<and> pr_event r = ke_id e}"
    using save_public_key_events_ok [OF assms] by blast
  have "\<exists>e' \<in> set es. cv_id e' = e \<and> (\<exists>k. table_key_of env e' = Some k \<and> \<not> taken s k)" if pr: "processed u e" "\<not> processed s e" for e
  proof -
    obtain row where row: "row \<in> set rows" "pr_event row = e" using pr by (auto simp: processed_def r(2))
    then obtain ev where ev: "ev \<in> set (public_keys_in env es)" "ke_id ev = e" using subsetD [OF r(3) row(1)] by auto
    then obtain e' where e': "e' \<in> set es" "parse_event env e' = Inr (PublicKey ev)" unfolding in_batches by blast
    have "pr_event row \<notin> pr_event ` set (ls_public_keys s)" using r(1,2) row(1) by (auto simp: chain_ok_def)
    then show ?thesis using e' ev row(2) parse_event_id [OF e'(2)] table_key_simps(3) [OF e'(2)] by (intro bexI [of _ e']) auto
  qed
  moreover have "taken u k" if "taken s k" for k using taken_grows [OF _ _ _ _ that] by (simp add: r(2))
  ultimately show ?thesis using saves_public_keys [OF assms] unfolding feeds_def by blast
qed

lemma feeds_leaves:
  assumes "chain_ok s" "save_leaf_added_events_batch (leaves_in env es) s = Inr u"
  shows "feeds env es s u"
proof -
  obtain rows where r: "chain_ok u" "u = s\<lparr>ls_asp_leaves := ls_asp_leaves s @ rows\<rparr>"
    "set rows \<subseteq> {r. \<exists>e \<in> set (leaves_in env es). lr_leaf_index r = le_index e \<and> lr_event r = le_id e}"
    using save_leaf_added_events_ok [OF assms] by blast
  have "\<exists>e' \<in> set es. cv_id e' = e \<and> (\<exists>k. table_key_of env e' = Some k \<and> \<not> taken s k)" if pr: "processed u e" "\<not> processed s e" for e
  proof -
    obtain row where row: "row \<in> set rows" "lr_event row = e" using pr by (auto simp: processed_def r(2))
    then obtain ev where ev: "ev \<in> set (leaves_in env es)" "lr_leaf_index row = le_index ev" "le_id ev = e" using subsetD [OF r(3) row(1)] by auto
    then obtain e' where e': "e' \<in> set es" "parse_event env e' = Inr (LeafAdded ev)" unfolding in_batches by blast
    have "lr_leaf_index row \<notin> lr_leaf_index ` set (ls_asp_leaves s)" using r(1,2) row(1) by (auto simp: chain_ok_def)
    then show ?thesis using e' ev parse_event_id [OF e'(2)] table_key_simps(4) [OF e'(2)] by (intro bexI [of _ e']) auto
  qed
  moreover have "taken u k" if "taken s k" for k using taken_grows [OF _ _ _ _ that] by (simp add: r(2))
  ultimately show ?thesis using saves_leaves [OF assms parsed_canonical(3)] unfolding feeds_def by blast
qed

lemma feeds_commit:
  assumes "chain_ok s" "commit t k s = (v, r)" "\<And>u. t s = Inr u \<Longrightarrow> feeds env es s u" "\<And>u. chain_ok u \<Longrightarrow> k u = (v, r) \<Longrightarrow> feeds env es u v"
  shows "feeds env es s v"
proof (cases "t s")
  case (Inl e)
  then show ?thesis using assms(1,2) by (simp add: commit_def feeds_refl)
next
  case (Inr u)
  then have "feeds env es s u" "k u = (v, r)" using assms(2,3) by (simp_all add: commit_def)
  moreover from this have "chain_ok u" by (simp add: feeds_def saves_def)
  ultimately show ?thesis using assms(4) [of u] feeds_trans [of env es s u v] by simp
qed

lemma process_events_feeds:
  assumes "chain_ok s" "process_events env limit s = (v, r)"
  shows "feeds env (rev (get_unprocessed_events limit s)) s v"
proof (cases "get_unprocessed_events limit s = []")
  case True
  then show ?thesis using assms by (simp add: process_events_batches feeds_refl)
next
  case False
  let ?es = "rev (get_unprocessed_events limit s)"
  have run: "commit (save_nullifier_events_batch (nullifiers_in env ?es)) (commit (save_commitment_events_batch (commitments_in env ?es))
    (commit (save_public_key_events_batch (public_keys_in env ?es)) (commit (save_leaf_added_events_batch (leaves_in env ?es)) (\<lambda>s. (s, Inr True))))) s = (v, r)"
    using assms(2) False by (simp add: process_events_batches Let_def)
  show ?thesis
    using assms(1) run feeds_nullifiers [OF assms(1)]
  proof (rule feeds_commit)
    fix u assume u: "chain_ok u" and run: "commit (save_commitment_events_batch (commitments_in env ?es))
      (commit (save_public_key_events_batch (public_keys_in env ?es)) (commit (save_leaf_added_events_batch (leaves_in env ?es)) (\<lambda>s. (s, Inr True)))) u = (v, r)"
    show "feeds env ?es u v"
      using u run feeds_commitments [OF u]
    proof (rule feeds_commit)
      fix x assume x: "chain_ok x" and run: "commit (save_public_key_events_batch (public_keys_in env ?es))
        (commit (save_leaf_added_events_batch (leaves_in env ?es)) (\<lambda>s. (s, Inr True))) x = (v, r)"
      show "feeds env ?es x v"
        using x run feeds_public_keys [OF x]
      proof (rule feeds_commit)
        fix y assume y: "chain_ok y" and run: "commit (save_leaf_added_events_batch (leaves_in env ?es)) (\<lambda>s. (s, Inr True)) y = (v, r)"
        show "feeds env ?es y v" using y run feeds_leaves [OF y] by (rule feeds_commit) (auto intro: feeds_refl)
      qed
    qed
  qed
qed

lemma blocked_stays:
  assumes "events_ok s" "chain_ok s" "process_events env limit s = (t, res)" "blocked env s r"
  shows "blocked env t r"
proof -
  have f: "feeds env (rev (get_unprocessed_events limit s)) s t" using process_events_feeds assms(2,3) .
  then have base: "same_base s t" by (simp add: feeds_def saves_def)
  have r: "r \<in> set (ls_events s)" "\<not> processed s (er_id r)" using assms(4) by (simp_all add: blocked_def unprocessed_def)
  have vw: "view t r = view s r" using base by (simp add: view_def same_base_def)
  have "\<not> processed t (er_id r)"
  proof
    assume "processed t (er_id r)"
    then obtain e' k where e': "e' \<in> set (get_unprocessed_events limit s)" "cv_id e' = er_id r" "table_key_of env e' = Some k" "\<not> taken s k"
      using f r(2) by (auto simp: feeds_def)
    then obtain r' where r': "r' \<in> set (unprocessed s)" "e' = view s r'"
      using get_unprocessed_view [OF assms(1)] set_next_events by fastforce
    have "er_id r' = er_id r" "r' \<in> set (ls_events s)" using r' e'(2) by (simp_all add: view_def unprocessed_def)
    then have "r' = r" using r(1) assms(1) by (auto simp: events_ok_def distinct_map dest: inj_onD)
    then show False using assms(4) e'(3,4) r'(2) by (simp add: blocked_def)
  qed
  then have "r \<in> set (unprocessed t)" using r(1) base by (simp add: unprocessed_def same_base_def)
  then show ?thesis using assms(4) f by (auto simp: blocked_def vw feeds_def split: option.splits)
qed

lemma sort_key_empty [simp]: "sort_key f xs = [] \<longleftrightarrow> xs = []"
  using length_sort [of f xs] by (cases xs) auto

lemma store_inv_ok: "store_inv env W s \<Longrightarrow> events_ok s \<and> chain_ok s"
  by (simp add: store_inv_def loop_inv_def scan_inv_def)

lemma taken_same: "same_chain s t \<Longrightarrow> taken t k = taken s k"
  by (cases k) (simp_all add: same_chain_reads)

lemma same_chain_blocked:
  assumes "same_chain s t"
  shows "blocked env t r = blocked env s r" "unprocessed t = unprocessed s" "view t = view s"
proof -
  show v: "view t = view s" by (simp add: view_def same_chain_reads [OF assms] fun_eq_iff)
  show u: "unprocessed t = unprocessed s" by (simp add: unprocessed_def processed_def same_chain_reads [OF assms])
  have "taken t k = taken s k" for k by (rule taken_same [OF assms])
  then show "blocked env t r = blocked env s r" by (simp add: blocked_def u v cong: option.case_cong)
qed

text \<open>The parts of a turn.\<close>

lemma process_turn_parts:
  assumes "store_inv env W s"
  obtains u r1 v r2 where "process_events (we_xdr env) FETCH_LIMIT s = (u, r1)" "store_inv env W u"
    "process_notes (worker_derive (we_crypto env)) FETCH_LIMIT u = (v, r2)" "store_inv env W v" "same_chain u v"
    "process_turn env s = (case r1 of Inl e \<Rightarrow> (u, Inl e) | Inr b1 \<Rightarrow>
      (case r2 of Inl e \<Rightarrow> (v, Inl e) | Inr b2 \<Rightarrow> (v, Inr (b1 \<or> b2))))"
proof -
  obtain u r1 where u: "process_events (we_xdr env) FETCH_LIMIT s = (u, r1)" by fastforce
  obtain v r2 where v: "process_notes (worker_derive (we_crypto env)) FETCH_LIMIT u = (v, r2)" by fastforce
  have pos: "0 < FETCH_LIMIT" by (simp add: FETCH_LIMIT_def)
  have iu: "store_inv env W u" using store_inv_process_events [OF assms u] .
  then have "loop_inv (worker_derive (we_crypto env)) (get_accounts_with_latest_keypairs u) u" by (simp add: store_inv_def)
  from process_notes_ok [OF this pos v] have "same_chain u v" by (simp add: steps_def)
  moreover have "process_turn env s = (case r1 of Inl e \<Rightarrow> (u, Inl e) | Inr b1 \<Rightarrow>
      (case r2 of Inl e \<Rightarrow> (v, Inl e) | Inr b2 \<Rightarrow> (v, Inr (b1 \<or> b2))))"
    unfolding process_turn_def u prod.case v by (simp split: sum.split)
  ultimately show thesis using that [OF u iu v store_inv_notes [OF iu v pos]] by blast
qed

lemma blocked_turn:
  assumes "store_inv env W s" "process_turn env s = (t, r)" "blocked (we_xdr env) s row"
  shows "store_inv env W t \<and> blocked (we_xdr env) t row \<and> r \<noteq> Inr False"
proof -
  obtain u r1 v r2 where p: "process_events (we_xdr env) FETCH_LIMIT s = (u, r1)" "store_inv env W u"
    "process_notes (worker_derive (we_crypto env)) FETCH_LIMIT u = (v, r2)" "store_inv env W v" "same_chain u v"
    "process_turn env s = (case r1 of Inl e \<Rightarrow> (u, Inl e) | Inr b1 \<Rightarrow>
      (case r2 of Inl e \<Rightarrow> (v, Inl e) | Inr b2 \<Rightarrow> (v, Inr (b1 \<or> b2))))"
    by (rule process_turn_parts [OF assms(1)])
  have ok: "events_ok s" "chain_ok s" using store_inv_ok [OF assms(1)] by auto
  have bu: "blocked (we_xdr env) u row" using blocked_stays [OF ok p(1) assms(3)] .
  then have bv: "blocked (we_xdr env) v row" using same_chain_blocked(1) [OF p(5)] by simp
  have "get_unprocessed_events FETCH_LIMIT s \<noteq> []"
    using assms(3) by (auto simp: get_unprocessed_view [OF ok(1)] next_events_def blocked_def FETCH_LIMIT_def)
  then have "r1 \<noteq> Inr False" using process_events_ok [OF ok(2) p(1)] by blast
  then show ?thesis using assms(2) p(2,4) bu bv unfolding p(6) by (auto split: sum.splits)
qed

lemma blocked_run:
  assumes "process_until_empty env s = Some y"
  shows "store_inv env W s \<longrightarrow> blocked (we_xdr env) s row \<longrightarrow> (\<exists>e. snd y = Inl e)"
proof (rule process_until_empty.raw_induct [OF _ assms, where P = "\<lambda>env s y. store_inv env W s \<longrightarrow> blocked (we_xdr env) s row \<longrightarrow> (\<exists>e. snd y = Inl e)"], intro impI)
  fix run env s y
  assume ih: "\<And>env s y. run env s = Some y \<Longrightarrow> store_inv env W s \<longrightarrow> blocked (we_xdr env) s row \<longrightarrow> (\<exists>e. snd y = Inl e)"
    and body: "(case process_turn env s of (s', Inl e) \<Rightarrow> Some (s', Inl e)
      | (s', Inr did_work) \<Rightarrow> if did_work then run env s' else Some (s', Inr ())) = Some y"
    and s: "store_inv env W s" "blocked (we_xdr env) s row"
  obtain t r where t: "process_turn env s = (t, r)" by fastforce
  note b = blocked_turn [OF s(1) t s(2)]
  show "\<exists>e. snd y = Inl e"
  proof (cases r)
    case (Inl e)
    then show ?thesis using body t by auto
  next
    case (Inr did)
    then have did using b by auto
    then have "run env t = Some y" using body t Inr by simp
    then show ?thesis using ih b by blast
  qed
qed

section \<open>Honest events are saved\<close>

lemma save_nullifiers_all:
  assumes "distinct (map ne_nullifier es)" "distinct (map ne_id es)"
    and "\<forall>e \<in> set es. ne_nullifier e \<notin> nr_nullifier ` set (ls_nullifiers s) \<and> ne_id e \<notin> nr_event ` set (ls_nullifiers s) \<and> event_of s (ne_id e) \<noteq> None"
  shows "\<exists>rows. save_nullifier_events_batch es s = Inr (s\<lparr>ls_nullifiers := ls_nullifiers s @ rows\<rparr>) \<and>
    map nr_event rows = map ne_id es \<and> map nr_nullifier rows = map ne_nullifier es"
  using assms
proof (induction es arbitrary: s)
  case (Cons e es)
  let ?row = "\<lparr>nr_id = next_id (map nr_id (ls_nullifiers s)), nr_nullifier = ne_nullifier e, nr_event = ne_id e\<rparr>"
  let ?t = "s\<lparr>ls_nullifiers := ls_nullifiers s @ [?row]\<rparr>"
  have "references (ne_id e) (map nr_event (ls_nullifiers s)) s = Inr ()" using Cons.prems(3) by (simp add: references_Inr)
  then have run: "save_nullifier_events_batch (e # es) s = save_nullifier_events_batch es ?t"
    using Cons.prems(3) by simp
  have "\<exists>rows. save_nullifier_events_batch es ?t = Inr (?t\<lparr>ls_nullifiers := ls_nullifiers ?t @ rows\<rparr>) \<and>
    map nr_event rows = map ne_id es \<and> map nr_nullifier rows = map ne_nullifier es"
    using Cons.prems by (intro Cons.IH) (auto simp: event_of_def, (metis imageI)+)
  then obtain rows where r: "save_nullifier_events_batch es ?t = Inr (?t\<lparr>ls_nullifiers := ls_nullifiers ?t @ rows\<rparr>)"
    "map nr_event rows = map ne_id es" "map nr_nullifier rows = map ne_nullifier es" by blast
  show ?case unfolding run by (rule exI [of _ "?row # rows"]) (simp add: r)
next
  case Nil
  show ?case by (rule exI [of _ "[]"]) simp
qed

lemma save_commitments_all:
  assumes "distinct (map me_commitment es)" "distinct (map me_id es)"
    and "\<forall>e \<in> set es. me_commitment e \<notin> cr_commitment ` set (ls_commitments s) \<and> me_id e \<notin> cr_event ` set (ls_commitments s) \<and> event_of s (me_id e) \<noteq> None"
  shows "\<exists>rows. save_commitment_events_batch es s = Inr (s\<lparr>ls_commitments := ls_commitments s @ rows\<rparr>) \<and>
    map cr_event rows = map me_id es \<and> map cr_commitment rows = map me_commitment es"
  using assms
proof (induction es arbitrary: s)
  case (Cons e es)
  let ?row = "\<lparr>cr_id = next_id (map cr_id (ls_commitments s)), cr_commitment = me_commitment e, cr_leaf_index = me_index e,
    cr_encrypted_output = me_encrypted_output e, cr_event = me_id e\<rparr>"
  let ?t = "s\<lparr>ls_commitments := ls_commitments s @ [?row]\<rparr>"
  have "references (me_id e) (map cr_event (ls_commitments s)) s = Inr ()" using Cons.prems(3) by (simp add: references_Inr)
  then have run: "save_commitment_events_batch (e # es) s = save_commitment_events_batch es ?t"
    using Cons.prems(3) by simp
  have "\<exists>rows. save_commitment_events_batch es ?t = Inr (?t\<lparr>ls_commitments := ls_commitments ?t @ rows\<rparr>) \<and>
    map cr_event rows = map me_id es \<and> map cr_commitment rows = map me_commitment es"
    using Cons.prems by (intro Cons.IH) (auto simp: event_of_def, (metis imageI)+)
  then obtain rows where r: "save_commitment_events_batch es ?t = Inr (?t\<lparr>ls_commitments := ls_commitments ?t @ rows\<rparr>)"
    "map cr_event rows = map me_id es" "map cr_commitment rows = map me_commitment es" by blast
  show ?case unfolding run by (rule exI [of _ "?row # rows"]) (simp add: r)
next
  case Nil
  show ?case by (rule exI [of _ "[]"]) simp
qed

lemma save_public_keys_all:
  assumes "distinct (map ke_id es)" "distinct (map ke_id es)"
    and "\<forall>e \<in> set es. ke_id e \<notin> pr_event ` set (ls_public_keys s) \<and> ke_id e \<notin> pr_event ` set (ls_public_keys s) \<and> event_of s (ke_id e) \<noteq> None"
  shows "\<exists>rows. save_public_key_events_batch es s = Inr (s\<lparr>ls_public_keys := ls_public_keys s @ rows\<rparr>) \<and>
    map pr_event rows = map ke_id es"
  using assms
proof (induction es arbitrary: s)
  case (Cons e es)
  let ?row = "\<lparr>pr_owner = ke_owner e, pr_encryption_key = ke_encryption_key e, pr_note_key = ke_note_key e, pr_event = ke_id e\<rparr>"
  let ?t = "s\<lparr>ls_public_keys := ls_public_keys s @ [?row]\<rparr>"
  have "references (ke_id e) [] s = Inr ()" using Cons.prems(3) by (simp add: references_Inr)
  then have run: "save_public_key_events_batch (e # es) s = save_public_key_events_batch es ?t"
    using Cons.prems(3) by simp
  have "\<exists>rows. save_public_key_events_batch es ?t = Inr (?t\<lparr>ls_public_keys := ls_public_keys ?t @ rows\<rparr>) \<and>
    map pr_event rows = map ke_id es"
    using Cons.prems by (intro Cons.IH) (auto simp: event_of_def, (metis imageI)+)
  then obtain rows where r: "save_public_key_events_batch es ?t = Inr (?t\<lparr>ls_public_keys := ls_public_keys ?t @ rows\<rparr>)"
    "map pr_event rows = map ke_id es" by blast
  show ?case unfolding run by (rule exI [of _ "?row # rows"]) (simp add: r)
next
  case Nil
  show ?case by (rule exI [of _ "[]"]) simp
qed

lemma save_leaves_all:
  assumes "distinct (map le_index es)" "distinct (map le_id es)"
    and "\<forall>e \<in> set es. le_index e \<notin> lr_leaf_index ` set (ls_asp_leaves s) \<and> le_id e \<notin> lr_event ` set (ls_asp_leaves s) \<and> event_of s (le_id e) \<noteq> None"
  shows "\<exists>rows. save_leaf_added_events_batch es s = Inr (s\<lparr>ls_asp_leaves := ls_asp_leaves s @ rows\<rparr>) \<and>
    map lr_event rows = map le_id es \<and> map lr_leaf_index rows = map le_index es"
  using assms
proof (induction es arbitrary: s)
  case (Cons e es)
  let ?row = "\<lparr>lr_leaf_index = le_index e, lr_leaf = le_leaf e, lr_root = le_root e, lr_event = le_id e\<rparr>"
  let ?t = "s\<lparr>ls_asp_leaves := ls_asp_leaves s @ [?row]\<rparr>"
  have "references (le_id e) (map lr_event (ls_asp_leaves s)) s = Inr ()" using Cons.prems(3) by (simp add: references_Inr)
  then have run: "save_leaf_added_events_batch (e # es) s = save_leaf_added_events_batch es ?t"
    using Cons.prems(3) by simp
  have "\<exists>rows. save_leaf_added_events_batch es ?t = Inr (?t\<lparr>ls_asp_leaves := ls_asp_leaves ?t @ rows\<rparr>) \<and>
    map lr_event rows = map le_id es \<and> map lr_leaf_index rows = map le_index es"
    using Cons.prems by (intro Cons.IH) (auto simp: event_of_def, (metis imageI)+)
  then obtain rows where r: "save_leaf_added_events_batch es ?t = Inr (?t\<lparr>ls_asp_leaves := ls_asp_leaves ?t @ rows\<rparr>)"
    "map lr_event rows = map le_id es" "map lr_leaf_index rows = map le_index es" by blast
  show ?case unfolding run by (rule exI [of _ "?row # rows"]) (simp add: r)
next
  case Nil
  show ?case by (rule exI [of _ "[]"]) simp
qed

text \<open>The events that are still to be saved have a table, with keys that are new and different.\<close>

definition honest :: "xdr_env \<Rightarrow> local_store \<Rightarrow> bool" where
  "honest env s \<longleftrightarrow> (\<forall>r \<in> set (unprocessed s). \<exists>k. table_key_of env (view s r) = Some k \<and> \<not> taken s k) \<and>
     (\<forall>r \<in> set (unprocessed s). \<forall>r' \<in> set (unprocessed s). table_key_of env (view s r) = table_key_of env (view s r') \<longrightarrow> r = r')"

lemma distinct_concat_keys:
  assumes "distinct es" "\<And>e. e \<in> set es \<Longrightarrow> length (f e) \<le> 1"
    and "\<And>e e' x x'. e \<in> set es \<Longrightarrow> e' \<in> set es \<Longrightarrow> x \<in> set (f e) \<Longrightarrow> x' \<in> set (f e') \<Longrightarrow> key x = key x' \<Longrightarrow> e = e'"
  shows "distinct (map key (concat (map f es)))"
  using assms
proof (induction es)
  case (Cons e es)
  have ih: "distinct (map key (concat (map f es)))" using Cons.prems by (intro Cons.IH) auto
  consider "f e = []" | x where "f e = [x]" using Cons.prems(2) [of e] by (cases "f e") auto
  then show ?case
  proof cases
    case 2
    have "key x \<notin> key ` set (concat (map f es))"
    proof
      assume "key x \<in> key ` set (concat (map f es))"
      then obtain e' x' where "e' \<in> set es" "x' \<in> set (f e')" "key x = key x'" by auto
      then have "e = e'" using Cons.prems(3) [of e e' x x'] 2 by simp
      then show False using Cons.prems(1) \<open>e' \<in> set es\<close> by simp
    qed
    then show ?thesis using ih 2 by simp
  qed (use ih in simp)
qed simp

lemma variant_mem:
  "n \<in> set (case v of Inl a \<Rightarrow> [] | Inr (Nullifier ev) \<Rightarrow> [ev] | Inr _ \<Rightarrow> []) \<longleftrightarrow> v = Inr (Nullifier n)"
  "c \<in> set (case v of Inl a \<Rightarrow> [] | Inr (Commitment ev) \<Rightarrow> [ev] | Inr _ \<Rightarrow> []) \<longleftrightarrow> v = Inr (Commitment c)"
  "k \<in> set (case v of Inl a \<Rightarrow> [] | Inr (PublicKey ev) \<Rightarrow> [ev] | Inr _ \<Rightarrow> []) \<longleftrightarrow> v = Inr (PublicKey k)"
  "l \<in> set (case v of Inl a \<Rightarrow> [] | Inr (LeafAdded ev) \<Rightarrow> [ev] | Inr _ \<Rightarrow> []) \<longleftrightarrow> v = Inr (LeafAdded l)"
  by (auto split: sum.splits processed_event.splits)

lemma distinct_variant:
  assumes "distinct es" "\<And>e. length (f (parse_event env e)) \<le> 1" "\<And>v x. x \<in> set (f v) \<longleftrightarrow> v = Inr (C x)"
    and "\<And>e e' x x'. e \<in> set es \<Longrightarrow> e' \<in> set es \<Longrightarrow> parse_event env e = Inr (C x) \<Longrightarrow> parse_event env e' = Inr (C x') \<Longrightarrow> key x = key x' \<Longrightarrow> e = e'"
  shows "distinct (map key (concat (map (\<lambda>e. f (parse_event env e)) es)))"
  using assms by (intro distinct_concat_keys) auto

lemma variant_len:
  "length (case v of Inl a \<Rightarrow> [] | Inr (Nullifier ev) \<Rightarrow> [ev] | Inr _ \<Rightarrow> []) \<le> 1"
  "length (case v of Inl a \<Rightarrow> [] | Inr (Commitment ev) \<Rightarrow> [ev] | Inr _ \<Rightarrow> []) \<le> 1"
  "length (case v of Inl a \<Rightarrow> [] | Inr (PublicKey ev) \<Rightarrow> [ev] | Inr _ \<Rightarrow> []) \<le> 1"
  "length (case v of Inl a \<Rightarrow> [] | Inr (LeafAdded ev) \<Rightarrow> [ev] | Inr _ \<Rightarrow> []) \<le> 1"
  by (simp_all split: sum.splits processed_event.splits)

lemma distinct_batches:
  assumes "distinct es" "\<And>e e'. e \<in> set es \<Longrightarrow> e' \<in> set es \<Longrightarrow> cv_id e = cv_id e' \<Longrightarrow> e = e'"
    and "\<And>e e'. e \<in> set es \<Longrightarrow> e' \<in> set es \<Longrightarrow> table_key_of env e = table_key_of env e' \<Longrightarrow> e = e'"
  shows "distinct (map ne_nullifier (nullifiers_in env es))" "distinct (map ne_id (nullifiers_in env es))"
    "distinct (map me_commitment (commitments_in env es))" "distinct (map me_id (commitments_in env es))"
    "distinct (map ke_id (public_keys_in env es))" "distinct (map le_index (leaves_in env es))" "distinct (map le_id (leaves_in env es))"
  unfolding batches_in_defs
proof -
  note key = assms(3) [unfolded table_key_of_def]
  show "distinct (map ne_nullifier (concat (map (\<lambda>e. case parse_event env e of Inl a \<Rightarrow> [] | Inr (Nullifier ev) \<Rightarrow> [ev] | Inr _ \<Rightarrow> []) es)))"
    by (rule distinct_variant [where C = Nullifier and env = env, OF assms(1) variant_len(1) variant_mem(1)]) (simp add: key)
  show "distinct (map me_commitment (concat (map (\<lambda>e. case parse_event env e of Inl a \<Rightarrow> [] | Inr (Commitment ev) \<Rightarrow> [ev] | Inr _ \<Rightarrow> []) es)))"
    by (rule distinct_variant [where C = Commitment and env = env, OF assms(1) variant_len(2) variant_mem(2)]) (simp add: key)
  show "distinct (map le_index (concat (map (\<lambda>e. case parse_event env e of Inl a \<Rightarrow> [] | Inr (LeafAdded ev) \<Rightarrow> [ev] | Inr _ \<Rightarrow> []) es)))"
    by (rule distinct_variant [where C = LeafAdded and env = env, OF assms(1) variant_len(4) variant_mem(4)]) (simp add: key)
  have id: "e = e'" if "e \<in> set es" "e' \<in> set es" "parse_event env e = Inr x" "parse_event env e' = Inr x'" "processed_id x = processed_id x'" for e e' x x'
    using that assms(2) parse_event_id by metis
  show "distinct (map ne_id (concat (map (\<lambda>e. case parse_event env e of Inl a \<Rightarrow> [] | Inr (Nullifier ev) \<Rightarrow> [ev] | Inr _ \<Rightarrow> []) es)))"
    by (rule distinct_variant [where C = Nullifier and env = env, OF assms(1) variant_len(1) variant_mem(1)]) (erule (3) id, simp)
  show "distinct (map me_id (concat (map (\<lambda>e. case parse_event env e of Inl a \<Rightarrow> [] | Inr (Commitment ev) \<Rightarrow> [ev] | Inr _ \<Rightarrow> []) es)))"
    by (rule distinct_variant [where C = Commitment and env = env, OF assms(1) variant_len(2) variant_mem(2)]) (erule (3) id, simp)
  show "distinct (map ke_id (concat (map (\<lambda>e. case parse_event env e of Inl a \<Rightarrow> [] | Inr (PublicKey ev) \<Rightarrow> [ev] | Inr _ \<Rightarrow> []) es)))"
    by (rule distinct_variant [where C = PublicKey and env = env, OF assms(1) variant_len(3) variant_mem(3)]) (erule (3) id, simp)
  show "distinct (map le_id (concat (map (\<lambda>e. case parse_event env e of Inl a \<Rightarrow> [] | Inr (LeafAdded ev) \<Rightarrow> [ev] | Inr _ \<Rightarrow> []) es)))"
    by (rule distinct_variant [where C = LeafAdded and env = env, OF assms(1) variant_len(4) variant_mem(4)]) (erule (3) id, simp)
qed

text \<open>The rows of commitments that are stored or will be.\<close>

definition candidate :: "xdr_env \<Rightarrow> local_store \<Rightarrow> commitment_row \<Rightarrow> bool" where
  "candidate env s c \<longleftrightarrow> c \<in> set (ls_commitments s) \<or> (\<exists>r \<in> set (unprocessed s). \<exists>ev. parse_event env (view s r) = Inr (Commitment ev) \<and>
     cr_commitment c = me_commitment ev \<and> cr_leaf_index c = me_index ev \<and> cr_encrypted_output c = me_encrypted_output ev)"

lemma next_events_distinct: "events_ok s \<Longrightarrow> distinct (next_events limit s)"
  unfolding next_events_def unprocessed_def by (auto simp: events_ok_def distinct_map intro!: distinct_take)

lemma honest_views:
  fixes limit :: nat
  assumes "events_ok s" "honest env s"
  defines "es \<equiv> rev (map (view s) (next_events limit s))"
  shows "distinct es" "\<And>e e'. e \<in> set es \<Longrightarrow> e' \<in> set es \<Longrightarrow> cv_id e = cv_id e' \<Longrightarrow> e = e'"
    "\<And>e e'. e \<in> set es \<Longrightarrow> e' \<in> set es \<Longrightarrow> table_key_of env e = table_key_of env e' \<Longrightarrow> e = e'"
    "\<And>e. e \<in> set es \<Longrightarrow> \<not> processed s (cv_id e) \<and> event_of s (cv_id e) \<noteq> None \<and> (\<exists>k. table_key_of env e = Some k \<and> \<not> taken s k)"
proof -
  have rows: "\<exists>r \<in> set (next_events limit s). r \<in> set (unprocessed s) \<and> r \<in> set (ls_events s) \<and> e = view s r" if "e \<in> set es" for e
    using that set_next_events [of limit s] by (auto simp: es_def unprocessed_def)
  have inj: "r = r'" if "r \<in> set (ls_events s)" "r' \<in> set (ls_events s)" "er_id r = er_id r'" for r r'
    using that assms(1) by (auto simp: events_ok_def distinct_map dest: inj_onD)
  have vid: "cv_id (view s r) = er_id r" for r by (simp add: view_def)
  show cv: "e = e'" if "e \<in> set es" "e' \<in> set es" "cv_id e = cv_id e'" for e e'
    using rows [OF that(1)] rows [OF that(2)] that(3) inj vid by metis
  show "e = e'" if "e \<in> set es" "e' \<in> set es" "table_key_of env e = table_key_of env e'" for e e'
    using rows [OF that(1)] rows [OF that(2)] that(3) assms(2) unfolding honest_def by metis
  show "\<not> processed s (cv_id e) \<and> event_of s (cv_id e) \<noteq> None \<and> (\<exists>k. table_key_of env e = Some k \<and> \<not> taken s k)" if "e \<in> set es" for e
    using rows [OF that] assms(2) vid by (auto simp: honest_def unprocessed_def event_of_known)
  have "inj_on (view s) (set (next_events limit s))"
  proof (rule inj_onI)
    fix r r' assume "r \<in> set (next_events limit s)" "r' \<in> set (next_events limit s)" "view s r = view s r'"
    then show "r = r'" using inj [of r r'] set_next_events [of limit s] vid [of r] vid [of r'] by (auto simp: unprocessed_def)
  qed
  then show "distinct es" using next_events_distinct [OF assms(1)] by (simp add: es_def distinct_map)
qed

lemma key_cases:
  assumes "table_key_of env e = Some k"
  obtains n where "parse_event env e = Inr (Nullifier n)" "k = NullifierKey (ne_nullifier n)"
    | c where "parse_event env e = Inr (Commitment c)" "k = CommitmentKey (me_commitment c)"
    | p where "parse_event env e = Inr (PublicKey p)" "k = EventKey (ke_id p)"
    | l where "parse_event env e = Inr (LeafAdded l)" "k = LeafKey (le_index l)"
  using assms by (auto simp: table_key_of_def split: sum.splits processed_event.splits)

lemma honest_events:
  assumes "events_ok s" "chain_ok s" "honest env s" "next_events limit s \<noteq> []"
  defines "es \<equiv> rev (map (view s) (next_events limit s))"
  shows "\<exists>t. process_events env limit s = (t, Inr True) \<and> (\<forall>e. processed t e \<longleftrightarrow> processed s e \<or> e \<in> cv_id ` set es) \<and>
    (\<forall>k. taken t k \<longrightarrow> taken s k \<or> (\<exists>e \<in> set es. table_key_of env e = Some k)) \<and>
    (\<forall>c \<in> set (ls_commitments t). c \<in> set (ls_commitments s) \<or> (\<exists>e \<in> set es. \<exists>ev. parse_event env e = Inr (Commitment ev) \<and>
      cr_commitment c = me_commitment ev \<and> cr_leaf_index c = me_index ev \<and> cr_encrypted_output c = me_encrypted_output ev))"
proof -
  note hv = honest_views [OF assms(1,3), where limit = limit, folded es_def]
  note d = distinct_batches [OF hv(1-3)]
  let ?N = "nullifiers_in env es" and ?C = "commitments_in env es" and ?P = "public_keys_in env es" and ?L = "leaves_in env es"
  have new: "\<not> processed s (processed_id ev) \<and> event_of s (processed_id ev) \<noteq> None \<and> (\<forall>k. table_key_of env e = Some k \<longrightarrow> \<not> taken s k)"
    if "e \<in> set es" "parse_event env e = Inr ev" for e ev
    using hv(4) [OF that(1)] parse_event_id [OF that(2)] by auto
  have fN: "ne_nullifier n \<notin> nr_nullifier ` set (ls_nullifiers s) \<and> ne_id n \<notin> nr_event ` set (ls_nullifiers s) \<and> event_of s (ne_id n) \<noteq> None" if g: "n \<in> set ?N" for n
  proof -
    obtain e where e: "e \<in> set es" "parse_event env e = Inr (Nullifier n)" using g unfolding in_batches by blast
    show ?thesis using new [OF e] table_key_simps(1) [OF e(2)] by (simp add: processed_def)
  qed
  have fC: "me_commitment c \<notin> cr_commitment ` set (ls_commitments s) \<and> me_id c \<notin> cr_event ` set (ls_commitments s) \<and> event_of s (me_id c) \<noteq> None" if g: "c \<in> set ?C" for c
  proof -
    obtain e where e: "e \<in> set es" "parse_event env e = Inr (Commitment c)" using g unfolding in_batches by blast
    show ?thesis using new [OF e] table_key_simps(2) [OF e(2)] by (simp add: processed_def)
  qed
  have fP: "ke_id k \<notin> pr_event ` set (ls_public_keys s) \<and> event_of s (ke_id k) \<noteq> None" if g: "k \<in> set ?P" for k
  proof -
    obtain e where e: "e \<in> set es" "parse_event env e = Inr (PublicKey k)" using g unfolding in_batches by blast
    show ?thesis using new [OF e] table_key_simps(3) [OF e(2)] by (simp add: processed_def)
  qed
  have fL: "le_index l \<notin> lr_leaf_index ` set (ls_asp_leaves s) \<and> le_id l \<notin> lr_event ` set (ls_asp_leaves s) \<and> event_of s (le_id l) \<noteq> None" if g: "l \<in> set ?L" for l
  proof -
    obtain e where e: "e \<in> set es" "parse_event env e = Inr (LeafAdded l)" using g unfolding in_batches by blast
    show ?thesis using new [OF e] table_key_simps(4) [OF e(2)] by (simp add: processed_def)
  qed
  have "\<forall>e \<in> set ?N. ne_nullifier e \<notin> nr_nullifier ` set (ls_nullifiers s) \<and> ne_id e \<notin> nr_event ` set (ls_nullifiers s) \<and> event_of s (ne_id e) \<noteq> None"
    using fN by blast
  from save_nullifiers_all [OF d(1,2) this] obtain rN where N: "save_nullifier_events_batch ?N s = Inr (s\<lparr>ls_nullifiers := ls_nullifiers s @ rN\<rparr>)"
    "map nr_event rN = map ne_id ?N" "map nr_nullifier rN = map ne_nullifier ?N" by blast
  let ?s1 = "s\<lparr>ls_nullifiers := ls_nullifiers s @ rN\<rparr>"
  have ev1: "event_of ?s1 = event_of s" by (simp add: event_of_def fun_eq_iff)
  have "\<forall>e \<in> set ?C. me_commitment e \<notin> cr_commitment ` set (ls_commitments ?s1) \<and> me_id e \<notin> cr_event ` set (ls_commitments ?s1) \<and> event_of ?s1 (me_id e) \<noteq> None"
    unfolding ev1 using fC by simp
  from save_commitments_all [OF d(3,4) this] obtain rC where C: "save_commitment_events_batch ?C ?s1 = Inr (?s1\<lparr>ls_commitments := ls_commitments ?s1 @ rC\<rparr>)"
    "map cr_event rC = map me_id ?C" "map cr_commitment rC = map me_commitment ?C" by blast
  let ?s2 = "?s1\<lparr>ls_commitments := ls_commitments ?s1 @ rC\<rparr>"
  have ev2: "event_of ?s2 = event_of s" by (simp add: event_of_def fun_eq_iff)
  have "\<forall>e \<in> set ?P. ke_id e \<notin> pr_event ` set (ls_public_keys ?s2) \<and> ke_id e \<notin> pr_event ` set (ls_public_keys ?s2) \<and> event_of ?s2 (ke_id e) \<noteq> None"
    unfolding ev2 using fP by simp
  from save_public_keys_all [OF d(5,5) this] obtain rP where P: "save_public_key_events_batch ?P ?s2 = Inr (?s2\<lparr>ls_public_keys := ls_public_keys ?s2 @ rP\<rparr>)"
    "map pr_event rP = map ke_id ?P" by blast
  let ?s3 = "?s2\<lparr>ls_public_keys := ls_public_keys ?s2 @ rP\<rparr>"
  have ev3: "event_of ?s3 = event_of s" by (simp add: event_of_def fun_eq_iff)
  have "\<forall>e \<in> set ?L. le_index e \<notin> lr_leaf_index ` set (ls_asp_leaves ?s3) \<and> le_id e \<notin> lr_event ` set (ls_asp_leaves ?s3) \<and> event_of ?s3 (le_id e) \<noteq> None"
    unfolding ev3 using fL by simp
  from save_leaves_all [OF d(6,7) this] obtain rL where L: "save_leaf_added_events_batch ?L ?s3 = Inr (?s3\<lparr>ls_asp_leaves := ls_asp_leaves ?s3 @ rL\<rparr>)"
    "map lr_event rL = map le_id ?L" "map lr_leaf_index rL = map le_index ?L" by blast
  let ?t = "?s3\<lparr>ls_asp_leaves := ls_asp_leaves ?s3 @ rL\<rparr>"
  have "get_unprocessed_events limit s \<noteq> []" using assms(4) by (simp add: get_unprocessed_view [OF assms(1)])
  then have run: "process_events env limit s = (?t, Inr True)"
    using N(1) C(1) P(1) L(1) by (simp add: process_events_batches get_unprocessed_view [OF assms(1)] es_def commit_def)
  note cols = N(2) C(2) P(2) L(2)
  have ids: "nr_event ` set rN = ne_id ` set ?N" "cr_event ` set rC = me_id ` set ?C" "pr_event ` set rP = ke_id ` set ?P" "lr_event ` set rL = le_id ` set ?L"
    "nr_nullifier ` set rN = ne_nullifier ` set ?N" "cr_commitment ` set rC = me_commitment ` set ?C" "lr_leaf_index ` set rL = le_index ` set ?L"
    using cols [THEN arg_cong, of set] N(3) [THEN arg_cong, of set] C(3) [THEN arg_cong, of set] L(3) [THEN arg_cong, of set] by simp_all
  have batch_ids: "ne_id ` set ?N \<union> me_id ` set ?C \<union> ke_id ` set ?P \<union> le_id ` set ?L = cv_id ` set es" (is "?U = _")
  proof
    show "?U \<subseteq> cv_id ` set es"
      by (auto simp: in_batches dest!: parse_event_id intro: rev_image_eqI)
    show "cv_id ` set es \<subseteq> ?U"
    proof
      fix i assume "i \<in> cv_id ` set es"
      then obtain e where e: "e \<in> set es" "i = cv_id e" by blast
      obtain k where "table_key_of env e = Some k" using hv(4) [OF e(1)] by blast
      then show "i \<in> ?U"
      proof (cases rule: key_cases)
        case (1 n)
        have "n \<in> set ?N" unfolding in_batches using e(1) 1(1) by blast
        moreover have "ne_id n = i" using parse_event_id [OF 1(1)] e(2) by simp
        ultimately have "i \<in> ne_id ` set ?N" by (metis imageI)
        then show ?thesis by simp
      next
        case (2 c)
        have "c \<in> set ?C" unfolding in_batches using e(1) 2(1) by blast
        moreover have "me_id c = i" using parse_event_id [OF 2(1)] e(2) by simp
        ultimately have "i \<in> me_id ` set ?C" by (metis imageI)
        then show ?thesis by simp
      next
        case (3 p)
        have "p \<in> set ?P" unfolding in_batches using e(1) 3(1) by blast
        moreover have "ke_id p = i" using parse_event_id [OF 3(1)] e(2) by simp
        ultimately have "i \<in> ke_id ` set ?P" by (metis imageI)
        then show ?thesis by simp
      next
        case (4 l)
        have "l \<in> set ?L" unfolding in_batches using e(1) 4(1) by blast
        moreover have "le_id l = i" using parse_event_id [OF 4(1)] e(2) by simp
        ultimately have "i \<in> le_id ` set ?L" by (metis imageI)
        then show ?thesis by simp
      qed
    qed
  qed
  have processed: "processed ?t e \<longleftrightarrow> processed s e \<or> e \<in> cv_id ` set es" for e
    unfolding batch_ids [symmetric] ids [symmetric] by (auto simp: processed_def)
  have taken: "taken s k \<or> (\<exists>e \<in> set es. table_key_of env e = Some k)" if t: "taken ?t k" for k
  proof (cases k)
    case (NullifierKey f)
    then have "f \<in> nr_nullifier ` set (ls_nullifiers s) \<or> f \<in> ne_nullifier ` set ?N" using t ids(5) by auto
    then show ?thesis using NullifierKey by (auto simp: in_batches) (metis table_key_simps(1))
  next
    case (CommitmentKey f)
    then have "f \<in> cr_commitment ` set (ls_commitments s) \<or> f \<in> me_commitment ` set ?C" using t ids(6) by auto
    then show ?thesis using CommitmentKey by (auto simp: in_batches) (metis table_key_simps(2))
  next
    case (EventKey f)
    then have "f \<in> pr_event ` set (ls_public_keys s) \<or> f \<in> ke_id ` set ?P" using t ids(3) by auto
    then show ?thesis using EventKey by (auto simp: in_batches) (metis table_key_simps(3))
  next
    case (LeafKey f)
    then have "f \<in> lr_leaf_index ` set (ls_asp_leaves s) \<or> f \<in> le_index ` set ?L" using t ids(7) by auto
    then show ?thesis using LeafKey by (auto simp: in_batches) (metis table_key_simps(4))
  qed
  have ch1: "chain_ok ?s1" using saves_nullifiers [OF assms(2) N(1) parsed_canonical(1)] by (simp add: saves_def)
  obtain rows' where rows': "?s2 = ?s1\<lparr>ls_commitments := ls_commitments ?s1 @ rows'\<rparr>" "set rows' \<subseteq> {r. \<exists>e \<in> set ?C. cr_commitment r = me_commitment e \<and>
      cr_leaf_index r = me_index e \<and> cr_encrypted_output r = me_encrypted_output e \<and> cr_event r = me_id e}"
    using save_commitment_events_ok [OF ch1 C(1)] by blast
  have "rows' = rC" using arg_cong [OF rows'(1), of ls_commitments] by simp
  note rows = rows'(2) [unfolded this]
  have coms: "c \<in> set (ls_commitments s) \<or> (\<exists>e \<in> set es. \<exists>ev. parse_event env e = Inr (Commitment ev) \<and>
      cr_commitment c = me_commitment ev \<and> cr_leaf_index c = me_index ev \<and> cr_encrypted_output c = me_encrypted_output ev)"
    if "c \<in> set (ls_commitments ?t)" for c
  proof (cases "c \<in> set (ls_commitments s)")
    case False
    then have "c \<in> set rC" using that by simp
    from subsetD [OF rows this] obtain ev where ev: "ev \<in> set ?C" "cr_commitment c = me_commitment ev \<and> cr_leaf_index c = me_index ev \<and>
      cr_encrypted_output c = me_encrypted_output ev" by blast
    from ev(1) obtain e where "e \<in> set es" "parse_event env e = Inr (Commitment ev)" unfolding in_batches by blast
    then show ?thesis using ev(2) by blast
  qed simp
  show ?thesis using run processed taken coms by blast
qed

section \<open>The loop ends\<close>

text \<open>
  What the scans need of the commitments, stored or waiting: every account can read the output of each, and no two
  notes that stored keys find in them have the same nullifier.
\<close>

definition outputs_readable :: "worker_env \<Rightarrow> local_store \<Rightarrow> bool" where
  "outputs_readable env s \<longleftrightarrow> (\<forall>a \<in> set (get_accounts_with_latest_keypairs s). \<forall>c. candidate (we_xdr env) s c \<longrightarrow>
     readable (we_crypto env) (ek_private (ak_encryption_keypair a)) (cr_encrypted_output c))"

definition nullifiers_collide :: "worker_env \<Rightarrow> local_store \<Rightarrow> bool" where
  "nullifiers_collide env s \<longleftrightarrow> (\<exists>a a' c c' d d'. keyed s a \<and> keyed s a' \<and> candidate (we_xdr env) s c \<and> candidate (we_xdr env) s c' \<and>
     worker_derive (we_crypto env) a c = Inr (Some d) \<and> worker_derive (we_crypto env) a' c' = Inr (Some d') \<and>
     dn_expected_nullifier d = dn_expected_nullifier d' \<and> cr_commitment c \<noteq> cr_commitment c')"

abbreviation candidates_ok :: "worker_env \<Rightarrow> local_store \<Rightarrow> bool" where
  "candidates_ok env s \<equiv> outputs_readable env s \<and> \<not> nullifiers_collide env s"

lemma readable_derives:
  assumes "store_inv env W s" "keyed s a"
  shows "(\<exists>d. worker_derive (we_crypto env) a c = Inr d) \<longleftrightarrow> readable (we_crypto env) (ek_private (ak_encryption_keypair a)) (cr_encrypted_output c)"
proof -
  obtain sig where "derive_encryption_and_note_keypairs (we_crypto env) sig = Inr (ak_note_keypair a, ak_encryption_keypair a)"
    using assms unfolding store_inv_def keys_of_def keyed_def by metis
  then obtain sk pk esk where "nk_private (ak_note_keypair a) = NotePrivateKey sk" "nk_public (ak_note_keypair a) = NotePublicKey pk"
    "ek_private (ak_encryption_keypair a) = EncryptionPrivateKey esk" "length sk = 32" "length pk = 32" "length esk = 32"
    using derived_key_sizes by metis
  then show ?thesis unfolding worker_derive_def using derive_succeeds_iff by simp
qed

lemma candidates_derive:
  assumes "candidates_ok env s" "store_inv env W s"
  shows "derive_total (worker_derive (we_crypto env)) s" "derive_unique (worker_derive (we_crypto env)) s"
proof -
  have c: "candidate (we_xdr env) s c" if "c \<in> set (ls_commitments s)" for c using that by (simp add: candidate_def)
  show "derive_total (worker_derive (we_crypto env)) s" unfolding derive_total_def
  proof (intro ballI)
    fix a c assume a: "a \<in> set (get_accounts_with_latest_keypairs s)" and "c \<in> set (ls_commitments s)"
    then have "readable (we_crypto env) (ek_private (ak_encryption_keypair a)) (cr_encrypted_output c)"
      using assms(1) c [of c] unfolding outputs_readable_def by blast
    then show "\<exists>d. worker_derive (we_crypto env) a c = Inr d" using readable_derives [OF assms(2) accounts_keyed [OF _ a]] store_inv_ok [OF assms(2)] by simp
  qed
  show "derive_unique (worker_derive (we_crypto env)) s" unfolding derive_unique_def
  proof (intro allI impI)
    fix a c d a' c' d'
    assume d: "keyed s a" "keyed s a'" "c \<in> set (ls_commitments s)" "c' \<in> set (ls_commitments s)" "worker_derive (we_crypto env) a c = Inr (Some d)"
      "worker_derive (we_crypto env) a' c' = Inr (Some d')" "dn_expected_nullifier d = dn_expected_nullifier d'"
    have "cr_commitment c = cr_commitment c'" using assms(1) c [OF d(3)] c [OF d(4)] d(1,2,5-7) unfolding nullifiers_collide_def by blast
    moreover have "chain_ok s" using store_inv_ok [OF assms(2)] by simp
    ultimately show "c = c'" using commitment_unique [of s c c'] d(3,4) by blast
  qed
qed

lemma candidates_mono:
  assumes "candidates_ok env s" "\<And>c. candidate (we_xdr env) t c \<Longrightarrow> candidate (we_xdr env) s c"
    "get_accounts_with_latest_keypairs t = get_accounts_with_latest_keypairs s" "ls_keypairs t = ls_keypairs s"
  shows "candidates_ok env t"
proof -
  have "keyed t a = keyed s a" for a by (simp add: keyed_def assms(4))
  then show ?thesis using assms(1,2) unfolding outputs_readable_def nullifiers_collide_def assms(3) by blast
qed

lemma pools_bound:
  assumes "events_ok s"
  shows "length (pools_of s es) \<le> length (ls_contracts s)"
proof -
  have "set (pools_of s es) \<subseteq> fst ` set (ls_contracts s)"
  proof
    fix p assume "p \<in> set (pools_of s es)"
    then obtain e r where "event_of s e = Some r" "er_contract r = p" unfolding pools_of_set contract_of_def by auto
    then have "r \<in> set (ls_events s)" "er_contract r = p" by (auto simp: event_of_def dest: find_key_Some)
    then show "p \<in> fst ` set (ls_contracts s)" using assms by (auto simp: events_ok_def)
  qed
  then have "card (set (pools_of s es)) \<le> length (ls_contracts s)"
    by (metis card_image_le card_length card_mono finite_imageI finite_set le_trans)
  moreover have "distinct (pools_of s es)" by (simp add: pools_of_def)
  ultimately show ?thesis by (simp add: distinct_card)
qed

lemma honest_turn:
  assumes "store_inv env W s" "honest (we_xdr env) s" "unprocessed s \<noteq> []"
  shows "\<exists>t r. process_turn env s = (t, r) \<and> (r = Inr True \<or> (\<exists>e. r = Inl e)) \<and> store_inv env W t \<and> honest (we_xdr env) t \<and>
    ls_contracts t = ls_contracts s \<and> length (unprocessed t) < length (unprocessed s) \<and>
    (candidates_ok env s \<longrightarrow> length (ls_contracts s) < 2 ^ 32 \<longrightarrow> r = Inr True \<and> candidates_ok env t)"
proof -
  obtain u r1 v r2 where p: "process_events (we_xdr env) FETCH_LIMIT s = (u, r1)" "store_inv env W u"
    "process_notes (worker_derive (we_crypto env)) FETCH_LIMIT u = (v, r2)" "store_inv env W v" "same_chain u v"
    "process_turn env s = (case r1 of Inl e \<Rightarrow> (u, Inl e) | Inr b1 \<Rightarrow>
      (case r2 of Inl e \<Rightarrow> (v, Inl e) | Inr b2 \<Rightarrow> (v, Inr (b1 \<or> b2))))"
    by (rule process_turn_parts [OF assms(1)])
  have ok: "events_ok s" "chain_ok s" and oku: "events_ok u" "chain_ok u" using store_inv_ok [OF assms(1)] store_inv_ok [OF p(2)] by auto
  have ne: "next_events FETCH_LIMIT s \<noteq> []" using assms(3) by (simp add: next_events_def FETCH_LIMIT_def)
  let ?es = "rev (map (view s) (next_events FETCH_LIMIT s))"
  obtain u' where u': "process_events (we_xdr env) FETCH_LIMIT s = (u', Inr True)" "\<forall>e. processed u' e \<longleftrightarrow> processed s e \<or> e \<in> cv_id ` set ?es"
    "\<forall>k. taken u' k \<longrightarrow> taken s k \<or> (\<exists>e \<in> set ?es. table_key_of (we_xdr env) e = Some k)"
    "\<forall>c \<in> set (ls_commitments u'). c \<in> set (ls_commitments s) \<or> (\<exists>e \<in> set ?es. \<exists>ev. parse_event (we_xdr env) e = Inr (Commitment ev) \<and>
      cr_commitment c = me_commitment ev \<and> cr_leaf_index c = me_index ev \<and> cr_encrypted_output c = me_encrypted_output ev)"
    using honest_events [OF ok assms(2) ne] by blast
  have u: "u' = u" and r1: "r1 = Inr True" using p(1) u'(1) by simp_all
  have base: "same_base s u" using process_events_ok [OF ok(2) p(1)] by (simp add: saves_def)
  have vw: "view u = view s" using base by (simp add: view_def same_base_def fun_eq_iff)
  have ids: "cv_id ` set ?es = er_id ` set (next_events FETCH_LIMIT s)" by (simp add: image_image view_def)
  have inj: "r = r'" if "r \<in> set (ls_events s)" "r' \<in> set (ls_events s)" "er_id r = er_id r'" for r r'
    using that ok(1) by (auto simp: events_ok_def distinct_map dest: inj_onD)
  have un: "unprocessed u = filter (\<lambda>r. er_id r \<notin> cv_id ` set ?es) (unprocessed s)"
    using u'(2) base unfolding u unprocessed_def same_base_def by (simp cong: filter_cong)
  have sub: "set (unprocessed u) \<subseteq> set (unprocessed s)" unfolding un by auto
  have "\<exists>r \<in> set (unprocessed s). er_id r \<in> cv_id ` set ?es"
    using ne set_next_events [of FETCH_LIMIT s] unfolding ids by (cases "next_events FETCH_LIMIT s") auto
  then have less: "length (unprocessed u) < length (unprocessed s)" unfolding un by (auto intro: length_filter_less)
  have hu: "honest (we_xdr env) u"
    unfolding honest_def vw
  proof (intro conjI ballI)
    fix r assume r: "r \<in> set (unprocessed u)"
    then obtain k where k: "table_key_of (we_xdr env) (view s r) = Some k" "\<not> taken s k" using assms(2) sub unfolding honest_def by blast
    have "\<not> taken u k"
    proof
      assume "taken u k"
      then obtain r' where r': "r' \<in> set (next_events FETCH_LIMIT s)" "table_key_of (we_xdr env) (view s r') = Some k"
        using u'(3) k(2) unfolding u by auto
      then have "r = r'" using assms(2) r sub set_next_events [of FETCH_LIMIT s] k(1) unfolding honest_def by (metis subsetD)
      then show False using r r'(1) unfolding un ids by simp
    qed
    then show "\<exists>k. table_key_of (we_xdr env) (view s r) = Some k \<and> \<not> taken u k" using k(1) by blast
  next
    fix r r' assume "r \<in> set (unprocessed u)" "r' \<in> set (unprocessed u)"
    then show "table_key_of (we_xdr env) (view s r) = table_key_of (we_xdr env) (view s r') \<longrightarrow> r = r'"
      using assms(2) sub unfolding honest_def by blast
  qed
  have cu: "candidates_ok env u" if cs: "candidates_ok env s"
  proof (rule candidates_mono [OF cs])
    show "ls_keypairs u = ls_keypairs s" using base by (simp add: same_base_def)
    show "get_accounts_with_latest_keypairs u = get_accounts_with_latest_keypairs s" by (rule same_base_accounts [OF base])
    fix c assume "candidate (we_xdr env) u c"
    then consider (row) "c \<in> set (ls_commitments u)" | (event) r ev where "r \<in> set (unprocessed u)" "parse_event (we_xdr env) (view u r) = Inr (Commitment ev)"
      "cr_commitment c = me_commitment ev" "cr_leaf_index c = me_index ev" "cr_encrypted_output c = me_encrypted_output ev"
      unfolding candidate_def by blast
    then show "candidate (we_xdr env) s c"
    proof cases
      case row
      then show ?thesis using u'(4) set_next_events [of FETCH_LIMIT s] unfolding u candidate_def by auto
    next
      case event
      then show ?thesis using sub unfolding candidate_def vw by blast
    qed
  qed
  have li: "loop_inv (worker_derive (we_crypto env)) (get_accounts_with_latest_keypairs u) u" using p(2) by (simp add: store_inv_def)
  have con: "ls_contracts u = ls_contracts s" using base by (simp add: same_base_def)
  have total: "\<exists>b. r2 = Inr b" if cs: "candidates_ok env s" "length (ls_contracts s) < 2 ^ 32"
  proof -
    have "length (pools_of u (map cr_event (ls_commitments u))) < 2 ^ 32" using pools_bound [OF oku(1)] cs(2) con le_less_trans by metis
    then show ?thesis using process_notes_total [OF li _ candidates_derive [OF cu [OF cs(1)] p(2)], of FETCH_LIMIT] p(3) by (auto simp: FETCH_LIMIT_def)
  qed
  have cv: "candidates_ok env v" if cs: "candidates_ok env s"
    using cu [OF cs] by (rule candidates_mono)
      (simp_all add: candidate_def same_chain_blocked(2,3) [OF p(5)] same_chain_reads(3,6) [OF p(5)] accounts_same [OF p(5)])
  have hv: "honest (we_xdr env) v" using hu unfolding honest_def same_chain_blocked(2,3) [OF p(5)]
    using taken_same [OF p(5)] by simp
  have keep: "ls_contracts v = ls_contracts s" "length (unprocessed v) < length (unprocessed s)"
    using con less by (simp_all add: same_chain_blocked(2) [OF p(5)] same_chain_reads(1) [OF p(5)])
  have "process_turn env s = (v, case r2 of Inl e \<Rightarrow> Inl e | Inr b \<Rightarrow> Inr True)" using p(6) by (simp add: r1 split: sum.splits)
  then show ?thesis using total cv hv keep p(4) by (intro exI conjI) (assumption | auto split: sum.splits)+
qed

lemma quiet_turn:
  assumes "store_inv env W s" "unprocessed s = []"
  shows "\<exists>t r. process_turn env s = (t, r) \<and> store_inv env W t \<and> same_chain s t \<and> unprocessed t = [] \<and>
    (r = Inr True \<longrightarrow> work (get_accounts_with_latest_keypairs s) t < work (get_accounts_with_latest_keypairs s) s) \<and> (r = Inr False \<longrightarrow> settled t) \<and>
    (candidates_ok env s \<longrightarrow> length (ls_contracts s) < 2 ^ 32 \<longrightarrow> (\<exists>b. r = Inr b) \<and> candidates_ok env t)"
proof -
  obtain u r1 v r2 where p: "process_events (we_xdr env) FETCH_LIMIT s = (u, r1)" "store_inv env W u"
    "process_notes (worker_derive (we_crypto env)) FETCH_LIMIT u = (v, r2)" "store_inv env W v" "same_chain u v"
    "process_turn env s = (case r1 of Inl e \<Rightarrow> (u, Inl e) | Inr b1 \<Rightarrow>
      (case r2 of Inl e \<Rightarrow> (v, Inl e) | Inr b2 \<Rightarrow> (v, Inr (b1 \<or> b2))))"
    by (rule process_turn_parts [OF assms(1)])
  have ok: "events_ok s" "chain_ok s" using store_inv_ok [OF assms(1)] by auto
  have "get_unprocessed_events FETCH_LIMIT s = []" by (simp add: get_unprocessed_view [OF ok(1)] next_events_def assms(2))
  then have u: "u = s" "r1 = Inr False" using p(1) by (simp_all add: process_events_batches)
  have li: "loop_inv (worker_derive (we_crypto env)) (get_accounts_with_latest_keypairs s) s" using assms(1) by (simp add: store_inv_def)
  have sc: "same_chain s v" using p(5) u(1) by simp
  have total: "\<exists>b. r2 = Inr b" if cs: "candidates_ok env s" "length (ls_contracts s) < 2 ^ 32"
  proof -
    have "length (pools_of s (map cr_event (ls_commitments s))) < 2 ^ 32" using pools_bound [OF ok(1)] cs(2) le_less_trans by metis
    then show ?thesis using process_notes_total [OF li _ candidates_derive [OF cs(1) assms(1)], of FETCH_LIMIT] p(3) u(1) by (auto simp: FETCH_LIMIT_def)
  qed
  have turn: "process_turn env s = (v, r2)" using p(6) by (simp add: u split: sum.splits)
  moreover have "work (get_accounts_with_latest_keypairs s) v < work (get_accounts_with_latest_keypairs s) s" if "r2 = Inr True"
    using process_notes_ok [OF li _ p(3) [unfolded u(1)]] that by (simp add: FETCH_LIMIT_def)
  moreover have "settled v" if "r2 = Inr False" using process_turn_ok [OF assms(1) turn] that by simp
  moreover have "candidates_ok env v" if cs: "candidates_ok env s"
    using cs by (rule candidates_mono) (simp_all add: candidate_def same_chain_blocked(2,3) [OF sc] same_chain_reads(3,6) [OF sc] accounts_same [OF sc])
  moreover have "unprocessed v = []" using assms(2) same_chain_blocked(2) [OF sc] by simp
  ultimately show ?thesis using p(4) sc total by blast
qed

text \<open>The loop ends in every case; without an error unless an output is unreadable or two nullifiers collide.\<close>

lemma quiet_run_ends:
  assumes "store_inv env W s" "unprocessed s = []"
  shows "\<exists>t r. process_until_empty env s = Some (t, r) \<and> store_inv env W t \<and> (r = Inr () \<longrightarrow> settled t) \<and>
    (candidates_ok env s \<longrightarrow> length (ls_contracts s) < 2 ^ 32 \<longrightarrow> r = Inr ())"
  using assms
proof (induction "work (get_accounts_with_latest_keypairs s) s" arbitrary: s rule: less_induct)
  case less
  obtain t r where t: "process_turn env s = (t, r)" "store_inv env W t" "same_chain s t" "unprocessed t = []"
    "r = Inr True \<longrightarrow> work (get_accounts_with_latest_keypairs s) t < work (get_accounts_with_latest_keypairs s) s" "r = Inr False \<longrightarrow> settled t"
    "candidates_ok env s \<longrightarrow> length (ls_contracts s) < 2 ^ 32 \<longrightarrow> (\<exists>b. r = Inr b) \<and> candidates_ok env t"
    using quiet_turn [OF less.prems] by (elim exE conjE) (rule that)
  have step: "process_until_empty env s =
      (case r of Inl e \<Rightarrow> Some (t, Inl e) | Inr b \<Rightarrow> if b then process_until_empty env t else Some (t, Inr ()))"
    by (subst process_until_empty.simps) (simp add: t(1))
  show ?case
  proof (cases "r = Inr True")
    case True
    have acc: "get_accounts_with_latest_keypairs t = get_accounts_with_latest_keypairs s" by (rule accounts_same [OF t(3)])
    obtain v q where v: "process_until_empty env t = Some (v, q)" "store_inv env W v" "q = Inr () \<longrightarrow> settled v"
      "candidates_ok env t \<longrightarrow> length (ls_contracts t) < 2 ^ 32 \<longrightarrow> q = Inr ()"
      using less.hyps [OF _ t(2,4)] True t(5) acc by auto
    then show ?thesis using t(7) True step by (simp add: same_chain_reads(1) [OF t(3)])
  next
    case False
    then show ?thesis using t(2,6,7) step by (cases r) auto
  qed
qed

lemma honest_run_ends:
  assumes "store_inv env W s" "honest (we_xdr env) s"
  shows "\<exists>t r. process_until_empty env s = Some (t, r) \<and> store_inv env W t \<and> (r = Inr () \<longrightarrow> settled t) \<and>
    (candidates_ok env s \<longrightarrow> length (ls_contracts s) < 2 ^ 32 \<longrightarrow> r = Inr ())"
  using assms
proof (induction "length (unprocessed s)" arbitrary: s rule: less_induct)
  case less
  show ?case
  proof (cases "unprocessed s = []")
    case True
    then show ?thesis using quiet_run_ends less.prems by blast
  next
    case False
    obtain t r where t: "process_turn env s = (t, r)" "r = Inr True \<or> (\<exists>e. r = Inl e)" "store_inv env W t" "honest (we_xdr env) t"
      "ls_contracts t = ls_contracts s" "length (unprocessed t) < length (unprocessed s)"
      "candidates_ok env s \<longrightarrow> length (ls_contracts s) < 2 ^ 32 \<longrightarrow> r = Inr True \<and> candidates_ok env t"
      using honest_turn [OF less.prems False] by (elim exE conjE) (rule that)
    have step: "process_until_empty env s =
        (case r of Inl e \<Rightarrow> Some (t, Inl e) | Inr b \<Rightarrow> if b then process_until_empty env t else Some (t, Inr ()))"
      by (subst process_until_empty.simps) (simp add: t(1))
    obtain v q where v: "process_until_empty env t = Some (v, q)" "store_inv env W v" "q = Inr () \<longrightarrow> settled v"
      "candidates_ok env t \<longrightarrow> length (ls_contracts t) < 2 ^ 32 \<longrightarrow> q = Inr ()"
      using less.hyps [OF t(6,3,4)] by blast
    show ?thesis
    proof (cases "r = Inr True")
      case True
      then show ?thesis using step v t(5,7) by simp
    next
      case False
      then show ?thesis using step t(2,3,7) by auto
    qed
  qed
qed

lemma quiet_run:
  assumes "store_inv env W s" "candidates_ok env s" "length (ls_contracts s) < 2 ^ 32" "unprocessed s = []"
  shows "\<exists>t. process_until_empty env s = Some (t, Inr ()) \<and> store_inv env W t \<and> settled t"
  using quiet_run_ends [OF assms(1,4)] assms(2,3) by auto

lemma honest_run:
  assumes "store_inv env W s" "honest (we_xdr env) s" "candidates_ok env s" "length (ls_contracts s) < 2 ^ 32"
  shows "\<exists>t. process_until_empty env s = Some (t, Inr ()) \<and> store_inv env W t \<and> settled t"
  using honest_run_ends [OF assms(1,2)] assms(3,4) by auto

end
