(* ===== verification/ProofInputs.thy ===== *)
theory ProofInputs imports Progress begin

text \<open>
  The parameters of proofs the worker assembles from the database: the inputs it lists are unspent notes of
  the account, with paths to the root it was asked for, and its membership proof is one for its own leaf.
\<close>

section \<open>Ordered leaves\<close>

lemma ordered_leaf:
  assumes "mset (map f rows) = mset (indexed_leaves leaves)" "length leaves < 2 ^ 32" "r \<in> set rows"
  shows "unat (fst (f r)) < length leaves \<and> leaves ! unat (fst (f r)) = snd (f r)"
proof -
  have "f r \<in> set (indexed_leaves leaves)" using mset_eq_setD [OF assms(1)] assms(3) by (metis imageI set_map)
  then obtain i where i: "i < length leaves" "f r = (word_of_nat i, leaves ! i)" by (auto simp: indexed_leaves_def)
  moreover have "unat (word_of_nat i :: u32) = i" using i(1) assms(2) by (simp add: unat_of_nat)
  ultimately show ?thesis by simp
qed

lemma ordered_leaves_set:
  assumes "mset (map f rows) = mset (indexed_leaves leaves)"
  shows "set leaves = snd ` f ` set rows"
proof -
  have "set leaves = snd ` set (indexed_leaves leaves)" using arg_cong [OF snd_indexed, of set leaves] by (simp only: set_map)
  then show ?thesis using mset_eq_setD [OF assms] by (simp only: set_map)
qed

text \<open>What a tree over leaves gives for an index.\<close>

definition path_to :: "field list \<Rightarrow> nat \<Rightarrow> merkle_proof \<Rightarrow> nat \<Rightarrow> bool" where
  "path_to leaves depth p i \<longleftrightarrow> length (mp_path_elements p) = depth \<and> mp_root p = Field (tree_root crate_perm (map f_val leaves) depth) \<and>
     mp_path_indices p = Field (word_of_nat i) \<and>
     fold_path field_hash (mp_path_elements p) (unat (f_val (mp_path_indices p))) (leaves ! i) = mp_root p"

lemma tree_root_node: "Field (tree_root crate_perm (map f_val leaves) depth) = node field_hash zero_field leaves depth 0"
  by (rule field.expand) (simp add: node_value tree_root_def merkle_root_def)

lemma tree_of_leaves:
  assumes "\<forall>f \<in> set leaves. f_canonical f" "length leaves < 2 ^ 32" "prefix_new depth leaves = Inr t" "prefix_build t = Inr tree"
  shows "1 \<le> depth \<and> depth \<le> 32 \<and> tree = built_of leaves depth \<and> built_root tree = Inr (Field (tree_root crate_perm (map f_val leaves) depth))"
proof -
  have d: "1 \<le> depth \<and> depth \<le> 32" using assms(3) by (auto simp: prefix_new_ok split: if_splits)
  then have "prefix_new depth leaves = Inr \<lparr>pt_depth = depth, pt_leaves = leaves, pt_empty = empties depth\<rparr>"
    using prefix_new_ok [of depth leaves] by simp
  then have t: "t = \<lparr>pt_depth = depth, pt_leaves = leaves, pt_empty = empties depth\<rparr>" using assms(3) by simp
  have "length leaves < 2 ^ 64" using assms(2) by simp
  then have "tree = built_of leaves depth" using prefix_build_ok [of depth leaves] d assms(1,4) unfolding t by (simp del: upt_Suc)
  then show ?thesis using d by (simp only: built_root_ok tree_root_node simp_thms)
qed

lemma tree_path:
  assumes "i < length leaves" "i < 2 ^ depth" "depth \<le> 32" "built_proof (built_of leaves depth) i = Inr p"
  shows "path_to leaves depth p i"
proof -
  have p: "p = \<lparr>mp_path_elements = siblings field_hash zero_field leaves depth i,
    mp_path_indices = Field (word_of_nat (i mod 2 ^ depth)), mp_root = node field_hash zero_field leaves depth 0, mp_levels = depth\<rparr>"
    using built_proof_ok [OF assms(1,3)] assms(4) by simp
  have "(2 :: nat) ^ depth \<le> 2 ^ 32" using assms(3) by (intro power_increasing) simp_all
  then have "i < 2 ^ 32" using assms(2) by simp
  then have "unat (word_of_nat i :: u256) = i" by (simp add: unat_of_nat)
  then show ?thesis using siblings_verify [of field_hash zero_field leaves depth i] assms(1,2)
    by (simp add: path_to_def p tree_root_node siblings_def)
qed

section \<open>The pool\<close>

lemma from_contract_rows: "set (pool_rows s pool) = {r \<in> set (ls_commitments s). from_contract s pool (cr_event r)}"
  by (auto simp: pool_rows_def)

lemma validated_tree:
  assumes "canonical s" "build_validated_pool_tree pool next_index tree_depth root s = Inr (Inl tree)"
  shows "\<exists>leaves. get_pool_commitment_leaves_ordered pool s = Inr leaves \<and> length leaves = unat next_index \<and>
    tree = built_of leaves (unat tree_depth) \<and> 1 \<le> unat tree_depth \<and> unat tree_depth \<le> 32 \<and>
    root = Field (tree_root crate_perm (map f_val leaves) (unat tree_depth))"
proof -
  obtain leaves t r where l: "get_pool_commitment_leaves_ordered pool s = Inr leaves" "length leaves = unat next_index"
    "prefix_new (unat tree_depth) leaves = Inr t" "prefix_build t = Inr tree" "built_root tree = Inr r" "r = root"
    using assms(2) by (auto simp: build_validated_pool_tree_def andThen_Inr map_err_Inr split: if_splits)
  have m: "mset (map (\<lambda>r. (cr_leaf_index r, cr_commitment r)) (pool_rows s pool)) = mset (indexed_leaves leaves)" "length leaves < 2 ^ 32"
    using l(1) by (simp_all add: pool_leaves_Inr)
  have "\<forall>f \<in> set leaves. f_canonical f" using assms(1) by (auto simp: ordered_leaves_set [OF m(1)] from_contract_rows canonical_def)
  from tree_of_leaves [OF this m(2) l(3,4)] show ?thesis using l by (intro exI [of _ leaves]) (simp del: upt_Suc)
qed

text \<open>An unspent note of the account for a commitment of the pool.\<close>

lemma first_Some: "(case xs of [] \<Rightarrow> None | r # _ \<Rightarrow> Some r) = Some y \<Longrightarrow> y \<in> set xs"
  by (cases xs) auto

lemma unspent_note:
  assumes "get_unspent_user_note_by_commitment pool user commitment s = Some (amount, blinding, leaf_index)"
  shows "\<exists>n \<in> set (ls_user_notes s). \<exists>c \<in> set (pool_rows s pool). id_address (ls_accounts s) (ur_account n) = Some user \<and>
    ur_nullifier_id n = None \<and> cr_id c = ur_commitment_id n \<and> cr_commitment c = commitment \<and> cr_leaf_index c = leaf_index \<and>
    ur_amount n = amount \<and> ur_blinding n = blinding"
  using first_Some [OF assms [unfolded get_unspent_user_note_by_commitment_def]] by (auto simp: from_contract_rows)

text \<open>What an input that is assembled for a commitment consists of.\<close>

definition input_of :: "local_store \<Rightarrow> string \<Rightarrow> string \<Rightarrow> nat \<Rightarrow> field \<Rightarrow> field \<Rightarrow> transact_input \<Rightarrow> bool" where
  "input_of s user pool depth root commitment inp \<longleftrightarrow>
     (\<exists>n \<in> set (ls_user_notes s). \<exists>c \<in> set (pool_rows s pool). id_address (ls_accounts s) (ur_account n) = Some user \<and>
        ur_nullifier_id n = None \<and> cr_id c = ur_commitment_id n \<and> cr_commitment c = commitment \<and>
        ti_amount inp = ur_amount n \<and> ti_blinding inp = ur_blinding n \<and>
        ti_path_indices inp = Field (ucast (cr_leaf_index c)) \<and> length (ti_path_elements inp) = depth \<and>
        fold_path field_hash (ti_path_elements inp) (unat (f_val (ti_path_indices inp))) commitment = root)"

lemma word_of_unat_u32: "(word_of_nat (unat (i :: u32)) :: u256) = ucast i"
  by simp

lemma unat_ucast_u32: "unat (ucast (i :: u32) :: u256) = unat i"
proof -
  have "unat i < 2 ^ 32" using unsigned_less [of i, where ?'a = nat] by simp
  then show ?thesis unfolding word_of_unat_u32 [symmetric] by (simp add: unat_of_nat del: of_nat_unat)
qed

lemma case_proof_Inl:
  "(case r of Inl a \<Rightarrow> f a | Inr b \<Rightarrow> Inr (Inr b)) = Inr (Inl y) \<longleftrightarrow> (\<exists>a. r = Inl a \<and> f a = Inr (Inl y))"
  "(case r' of Inl xs \<Rightarrow> Inl (x # xs) | Inr st \<Rightarrow> Inr st) = Inl ys \<longleftrightarrow> (\<exists>xs. r' = Inl xs \<and> ys = x # xs)"
  by (cases r; simp) (cases r'; auto)

lemma assembled_input:
  assumes "get_pool_commitment_leaves_ordered pool s = Inr leaves" "1 \<le> depth" "depth \<le> 32" "length leaves \<le> 2 ^ depth"
    and "get_unspent_user_note_by_commitment pool user commitment s = Some (amount, blinding, leaf_index)"
    and "build_pool_input_note amount blinding leaf_index (built_of leaves depth) = Inr inp"
  shows "input_of s user pool depth (Field (tree_root crate_perm (map f_val leaves) depth)) commitment inp"
proof -
  obtain n c where nc: "n \<in> set (ls_user_notes s)" "c \<in> set (pool_rows s pool)" "id_address (ls_accounts s) (ur_account n) = Some user"
    "ur_nullifier_id n = None" "cr_id c = ur_commitment_id n" "cr_commitment c = commitment" "cr_leaf_index c = leaf_index"
    "ur_amount n = amount" "ur_blinding n = blinding" using unspent_note [OF assms(5)] by blast
  have m: "mset (map (\<lambda>r. (cr_leaf_index r, cr_commitment r)) (pool_rows s pool)) = mset (indexed_leaves leaves)" "length leaves < 2 ^ 32"
    using assms(1) by (simp_all add: pool_leaves_Inr)
  have i: "unat leaf_index < length leaves" "leaves ! unat leaf_index = commitment"
    using ordered_leaf [OF m nc(2)] nc(6,7) by simp_all
  obtain p where p: "built_proof (built_of leaves depth) (unat leaf_index) = Inr p" "inp = \<lparr>ti_amount = amount, ti_blinding = blinding,
    ti_path_elements = mp_path_elements p, ti_path_indices = mp_path_indices p\<rparr>"
    using assms(6) by (auto simp: build_pool_input_note_def andThen_Inr map_err_Inr simp del: upt_Suc)
  have "path_to leaves depth p (unat leaf_index)" using tree_path [OF i(1) _ assms(3) p(1)] i(1) assms(4) by simp
  then have path: "length (mp_path_elements p) = depth" "mp_root p = Field (tree_root crate_perm (map f_val leaves) depth)"
    "mp_path_indices p = Field (ucast leaf_index)" "fold_path field_hash (mp_path_elements p) (unat (f_val (mp_path_indices p))) commitment = mp_root p"
    unfolding path_to_def i(2) by (elim conjE; simp only: word_of_unat_u32)+
  show ?thesis unfolding input_of_def using nc path(1,3) path(4) [unfolded path(2)]
    by (intro bexI [of _ n] bexI [of _ c]) (simp_all add: p(2))
qed

lemma pool_inputs_loop_ok:
  assumes "get_pool_commitment_leaves_ordered pool s = Inr leaves" "1 \<le> depth" "depth \<le> 32" "length leaves \<le> 2 ^ depth"
    and "pool_inputs_loop user pool (built_of leaves depth) cs s = Inr (Inl inputs)"
  shows "list_all2 (input_of s user pool depth (Field (tree_root crate_perm (map f_val leaves) depth))) cs inputs"
  using assms(5)
proof (induction cs arbitrary: inputs)
  case (Cons c cs)
  obtain amount blinding leaf_index where g: "get_unspent_user_note_by_commitment pool user c s = Some (amount, blinding, leaf_index)"
    using Cons.prems by (cases "get_unspent_user_note_by_commitment pool user c s") auto
  obtain inp rest where r: "build_pool_input_note amount blinding leaf_index (built_of leaves depth) = Inr inp"
    "pool_inputs_loop user pool (built_of leaves depth) cs s = Inr (Inl rest)" "inputs = inp # rest"
    using Cons.prems by (auto simp: g andThen_Inr case_proof_Inl simp del: upt_Suc)
  show ?case using Cons.IH [OF r(2)] assembled_input [OF assms(1-4) g r(1)] by (simp add: r(3))
qed simp

lemma pool_inputs_ok:
  assumes "canonical s" "build_pool_inputs user pool next_index tree_depth root cs s = Inr (Inl inputs)"
    and "unat next_index \<le> 2 ^ unat tree_depth"
  shows "list_all2 (input_of s user pool (unat tree_depth) root) cs inputs"
proof (cases "cs = []")
  case False
  obtain tree where t: "build_validated_pool_tree pool next_index tree_depth root s = Inr (Inl tree)"
    "pool_inputs_loop user pool tree cs s = Inr (Inl inputs)"
    using assms(2) False by (auto simp: build_pool_inputs_def andThen_Inr case_proof_Inl)
  obtain leaves where l: "get_pool_commitment_leaves_ordered pool s = Inr leaves" "length leaves = unat next_index"
    "tree = built_of leaves (unat tree_depth)" "1 \<le> unat tree_depth" "unat tree_depth \<le> 32"
    "root = Field (tree_root crate_perm (map f_val leaves) (unat tree_depth))"
    using validated_tree [OF assms(1) t(1)] by blast
  show ?thesis using pool_inputs_loop_ok [OF l(1,4,5) _ t(2) [unfolded l(3)]] assms(3) l(2,6) by simp
qed (use assms(2) in \<open>simp add: build_pool_inputs_def\<close>)

section \<open>The membership list\<close>

definition asp_rows :: "local_store \<Rightarrow> string \<Rightarrow> leaf_row list" where
  "asp_rows s asp = filter (\<lambda>r. from_contract s asp (lr_event r)) (ls_asp_leaves s)"

lemma precondition_index:
  assumes "check_asp_membership_precondition asp leaf root ledger s = Inr (UserIndex i)"
  shows "\<exists>m newest r. m \<in> set (get_sync_metadata s) \<and> sm_contract_id m = asp \<and> sm_last_fully_indexed_ledger m = ledger \<and>
    newest \<in> set (asp_rows s asp) \<and> (\<forall>x \<in> set (asp_rows s asp). lr_leaf_index x \<le> lr_leaf_index newest) \<and> lr_root newest = root \<and>
    r \<in> set (asp_rows s asp) \<and> lr_leaf r = leaf \<and> lr_leaf_index r = i"
proof -
  obtain m where m: "find (\<lambda>m. sm_contract_id m = asp) (get_sync_metadata s) = Some m"
    using assms by (cases "find (\<lambda>m. sm_contract_id m = asp) (get_sync_metadata s)") (auto simp: check_asp_membership_precondition_def)
  note a = assms [unfolded check_asp_membership_precondition_def m option.case, folded asp_rows_def]
  have led: "sm_last_fully_indexed_ledger m = ledger" using a by (auto split: if_splits)
  obtain newest rest where n: "rev (sort_key lr_leaf_index (asp_rows s asp)) = newest # rest"
    using a led by (cases "rev (sort_key lr_leaf_index (asp_rows s asp))") (auto simp: Let_def)
  have r0: "root = lr_root newest" using a led by (auto simp: n Let_def split: if_splits)
  obtain r where r: "find (\<lambda>r. lr_leaf r = leaf) (asp_rows s asp) = Some r" "lr_leaf_index r = i"
    using a led r0 by (auto simp: n Let_def split: option.splits)
  have "sort_key lr_leaf_index (asp_rows s asp) = rev rest @ [newest]" using arg_cong [OF n, of rev] by simp
  moreover have "sorted (map lr_leaf_index (sort_key lr_leaf_index (asp_rows s asp)))" by simp
  moreover have "set (sort_key lr_leaf_index (asp_rows s asp)) = set (asp_rows s asp)" by simp
  ultimately have "newest \<in> set (asp_rows s asp)" "\<forall>x \<in> set (asp_rows s asp). lr_leaf_index x \<le> lr_leaf_index newest"
    by (auto simp: sorted_append)
  then show ?thesis using find_key_Some [OF m] find_key_Some [OF r(1)] led r(2) r0 by blast
qed

lemma membership_proof_ok:
  assumes "canonical s" "build_membership_proof asp pk blinding root ledger tree_depth s = Inr (Inl m)"
  shows "\<exists>leaves i. get_all_asp_membership_leaves_ordered asp s = Inr leaves \<and> i < length leaves \<and> leaves ! i = am_leaf m \<and>
    asp_membership_leaf (note_public_bytes pk) blinding = Inr (am_leaf m) \<and> am_blinding m = blinding \<and>
    am_root m = Field (tree_root crate_perm (map f_val leaves) (unat tree_depth)) \<and> length (am_path_elements m) = unat tree_depth \<and>
    (length leaves \<le> 2 ^ unat tree_depth \<longrightarrow> unat (f_val (am_path_indices m)) = i \<and>
       fold_path field_hash (am_path_elements m) (unat (f_val (am_path_indices m))) (am_leaf m) = am_root m) \<and>
    (\<exists>newest \<in> set (asp_rows s asp). lr_root newest = root \<and> unat (lr_leaf_index newest) = length leaves - 1) \<and>
    (\<exists>meta \<in> set (get_sync_metadata s). sm_contract_id meta = asp \<and> sm_last_fully_indexed_ledger meta = ledger) \<and> 1 \<le> unat tree_depth"
proof -
  obtain leaf where leaf: "asp_membership_leaf (note_public_bytes pk) blinding = Inr leaf"
    using assms(2) by (auto simp: build_membership_proof_def andThen_Inr map_err_Inr)
  obtain status where st: "check_asp_membership_precondition asp leaf root ledger s = Inr status"
    using assms(2) by (auto simp: build_membership_proof_def andThen_Inr map_err_Inr leaf)
  obtain j where j: "status = UserIndex j" using assms(2) leaf st
    by (cases status) (auto simp: build_membership_proof_def andThen_Inr map_err_Inr)
  obtain leaves t tree p where l: "get_all_asp_membership_leaves_ordered asp s = Inr leaves" "prefix_new (unat tree_depth) leaves = Inr t"
    "prefix_build t = Inr tree" "built_proof tree (unat j) = Inr p"
    "m = \<lparr>am_leaf = leaf, am_blinding = blinding, am_path_elements = mp_path_elements p, am_path_indices = mp_path_indices p, am_root = mp_root p\<rparr>"
    using assms(2) by (auto simp: build_membership_proof_def andThen_Inr map_err_Inr leaf st j)
  have ms: "mset (map (\<lambda>r. (lr_leaf_index r, lr_leaf r)) (asp_rows s asp)) = mset (indexed_leaves leaves)" "length leaves < 2 ^ 32"
    using l(1) by (simp_all add: asp_leaves_Inr asp_rows_def)
  have "\<forall>f \<in> set leaves. f_canonical f" using assms(1) by (auto simp: ordered_leaves_set [OF ms(1)] asp_rows_def canonical_def)
  note tree = tree_of_leaves [OF this ms(2) l(2,3)]
  have meta: "\<exists>meta \<in> set (get_sync_metadata s). sm_contract_id meta = asp \<and> sm_last_fully_indexed_ledger meta = ledger"
    using precondition_index [OF st [unfolded j]] by blast
  obtain newest r where pre: "newest \<in> set (asp_rows s asp)" "\<forall>x \<in> set (asp_rows s asp). lr_leaf_index x \<le> lr_leaf_index newest"
    "lr_root newest = root" "r \<in> set (asp_rows s asp)" "lr_leaf r = leaf" "lr_leaf_index r = j"
    using precondition_index [OF st [unfolded j]] by blast
  have i: "unat j < length leaves" "leaves ! unat j = leaf" using ordered_leaf [OF ms pre(4)] pre(5,6) by simp_all
  have shape: "mp_root p = Field (tree_root crate_perm (map f_val leaves) (unat tree_depth))" "length (mp_path_elements p) = unat tree_depth"
  proof -
    have "built_proof (built_of leaves (unat tree_depth)) (unat j) = Inr p" using l(4) tree by simp
    then have p: "p = \<lparr>mp_path_elements = siblings field_hash zero_field leaves (unat tree_depth) (unat j),
      mp_path_indices = Field (word_of_nat (unat j mod 2 ^ unat tree_depth)), mp_root = node field_hash zero_field leaves (unat tree_depth) 0,
      mp_levels = unat tree_depth\<rparr>" using built_proof_ok [OF i(1), of "unat tree_depth"] tree by simp
    show "mp_root p = Field (tree_root crate_perm (map f_val leaves) (unat tree_depth))" "length (mp_path_elements p) = unat tree_depth"
      by (simp_all add: p tree_root_node siblings_def)
  qed
  have path: "path_to leaves (unat tree_depth) p (unat j)" if "length leaves \<le> 2 ^ unat tree_depth"
    using tree_path [OF i(1), of "unat tree_depth" p] l(4) tree i(1) that by (simp del: upt_Suc)
  note ix = unat_ucast_u32 [of j]
  have last: "unat (lr_leaf_index newest) = length leaves - 1"
  proof -
    have up: "unat (lr_leaf_index newest) < length leaves" using ordered_leaf [OF ms pre(1)] by simp
    have "(word_of_nat (length leaves - 1), leaves ! (length leaves - 1)) \<in> set (indexed_leaves leaves)"
      unfolding indexed_leaves_def set_map using i(1) by (intro image_eqI [of _ _ "length leaves - 1"]) (simp_all del: of_nat_diff)
    then obtain x where x: "x \<in> set (asp_rows s asp)" "lr_leaf_index x = word_of_nat (length leaves - 1)"
      using mset_eq_setD [OF ms(1)] by (metis (mono_tags, lifting) image_iff prod.inject set_map)
    then have "unat (word_of_nat (length leaves - 1) :: u32) \<le> unat (lr_leaf_index newest)" using pre(2) by (metis word_le_nat_alt)
    moreover have "unat (word_of_nat (length leaves - 1) :: u32) = length leaves - 1" using ms(2) by (simp add: unat_of_nat)
    ultimately show ?thesis using up by simp
  qed
  show ?thesis
    using l(1) i leaf shape path pre(1,3) last ix meta tree by (intro exI [of _ leaves] exI [of _ "unat j"]) (auto simp: l(5) path_to_def)
qed

section \<open>Requests for transactions\<close>

text \<open>A commitment that is requested twice gets the same leaf twice, and two commitments get two leaves.\<close>

lemma pool_inputs_leaves:
  assumes "canonical s" "chain_ok s" "build_pool_inputs user pool next_index tree_depth root cs s = Inr (Inl inputs)" "cs \<noteq> []"
    and "list_all2 (input_of s user pool depth root) cs inputs"
  shows "\<exists>leaves. get_pool_commitment_leaves_ordered pool s = Inr leaves \<and> length leaves = unat next_index \<and>
    root = Field (tree_root crate_perm (map f_val leaves) (unat tree_depth)) \<and>
    list_all2 (\<lambda>c inp. unat (f_val (ti_path_indices inp)) < length leaves \<and> leaves ! unat (f_val (ti_path_indices inp)) = c) cs inputs \<and>
    (distinct (map ti_path_indices inputs) \<longleftrightarrow> distinct cs)"
proof -
  obtain tree where t: "build_validated_pool_tree pool next_index tree_depth root s = Inr (Inl tree)"
    using assms(3,4) by (auto simp: build_pool_inputs_def andThen_Inr case_proof_Inl)
  obtain leaves where l: "get_pool_commitment_leaves_ordered pool s = Inr leaves" "length leaves = unat next_index"
    "root = Field (tree_root crate_perm (map f_val leaves) (unat tree_depth))"
    using validated_tree [OF assms(1) t] by blast
  have m: "mset (map (\<lambda>r. (cr_leaf_index r, cr_commitment r)) (pool_rows s pool)) = mset (indexed_leaves leaves)" "length leaves < 2 ^ 32"
    using l(1) by (simp_all add: pool_leaves_Inr)
  have leaf: "\<exists>r \<in> set (ls_commitments s). cr_commitment r = c \<and> ti_path_indices inp = Field (ucast (cr_leaf_index r)) \<and>
      unat (cr_leaf_index r) < length leaves \<and> leaves ! unat (cr_leaf_index r) = c"
    if "input_of s user pool depth root c inp" for c inp
    using that ordered_leaf [OF m] unfolding input_of_def by (force simp: from_contract_rows)
  have all: "list_all2 (\<lambda>c inp. unat (f_val (ti_path_indices inp)) < length leaves \<and> leaves ! unat (f_val (ti_path_indices inp)) = c) cs inputs"
    using assms(5) by (rule list_all2_mono) (use leaf in \<open>force simp: unat_ucast_u32\<close>)
  have same: "c = c' \<longleftrightarrow> ti_path_indices inp = ti_path_indices inp'"
    if i: "input_of s user pool depth root c inp" "input_of s user pool depth root c' inp'" for c c' inp inp'
  proof
    obtain r r' where r: "r \<in> set (ls_commitments s)" "cr_commitment r = c" "ti_path_indices inp = Field (ucast (cr_leaf_index r))"
      "leaves ! unat (cr_leaf_index r) = c"
      "r' \<in> set (ls_commitments s)" "cr_commitment r' = c'" "ti_path_indices inp' = Field (ucast (cr_leaf_index r'))"
      "leaves ! unat (cr_leaf_index r') = c'" using leaf [OF i(1)] leaf [OF i(2)] by metis
    show "ti_path_indices inp = ti_path_indices inp'" if "c = c'"
      using commitment_unique [OF assms(2) r(1,5)] r(2,3,6,7) that by simp
    show "c = c'" if "ti_path_indices inp = ti_path_indices inp'"
    proof -
      have "unat (ucast (cr_leaf_index r) :: u256) = unat (ucast (cr_leaf_index r') :: u256)" using that r(3,7) by simp
      then show ?thesis using r(4,8) by (simp add: unat_ucast_u32)
    qed
  qed
  have "distinct (map ti_path_indices inputs) \<longleftrightarrow> distinct cs"
  proof -
    have n: "length cs = length inputs" using assms(5) by (rule list_all2_lengthD)
    have "cs ! i = cs ! j \<longleftrightarrow> ti_path_indices (inputs ! i) = ti_path_indices (inputs ! j)" if "i < length cs" "j < length cs" for i j
      using same [OF list_all2_nthD [OF assms(5) that(1)] list_all2_nthD [OF assms(5) that(2)]] .
    then show ?thesis unfolding distinct_conv_nth using n by simp
  qed
  then show ?thesis using l all by blast
qed

text \<open>The outputs are the requested ones, each with a blinding that is drawn for it.\<close>

definition requested_output :: "note_amount \<Rightarrow> note_public_key option \<Rightarrow> encryption_public_key option \<Rightarrow> byte list \<Rightarrow> transact_output" where
  "requested_output amount note_pk enc_pk d = \<lparr>to_amount = amount, to_blinding = Field (word_of_nat (le_val d mod bn_p)),
     to_recipient_note_pubkey = note_pk, to_recipient_encryption_pubkey = enc_pk\<rparr>"

lemma output_note_Inl:
  assumes "output_note i amount note_pk enc_pk rng = Inr (Inl (out, rng'))"
  shows "\<exists>d. length d = 32 \<and> rng = d # rng' \<and> out = requested_output amount note_pk enc_pk d \<and> paired out"
proof -
  have p: "(note_pk = None) = (enc_pk = None)" using assms by (auto simp: output_note_def split: if_splits)
  obtain b where b: "generate_random_blinding rng = Inr (b, rng')" "out = \<lparr>to_amount = amount, to_blinding = b, to_recipient_note_pubkey = note_pk,
      to_recipient_encryption_pubkey = enc_pk\<rparr>" using assms p by (auto simp: output_note_def andThen_Inr map_err_Inr)
  obtain d rest where d: "rng = d # rest" "length d = 32"
    using b(1) by (cases rng) (auto simp: generate_random_blinding_def getrandom_def andThen_Inr split: if_splits)
  then show ?thesis using b p generate_random_blinding_ok [OF d(2), of rest] by (simp add: requested_output_def paired_def)
qed

lemma output_notes_Inl:
  assumes "output_notes req rng = Inr (Inl (outs, rng'))"
  shows "\<exists>d0 d1. length d0 = 32 \<and> length d1 = 32 \<and> rng = d0 # d1 # rng' \<and> (\<forall>out \<in> set outs. paired out) \<and>
    outs = [requested_output (fst (tq_output_amounts req)) (fst (tq_out_note_pubkeys req)) (fst (tq_out_encryption_pubkeys req)) d0,
      requested_output (snd (tq_output_amounts req)) (snd (tq_out_note_pubkeys req)) (snd (tq_out_encryption_pubkeys req)) d1]"
proof -
  obtain r0 where r0: "output_note 0 (fst (tq_output_amounts req)) (fst (tq_out_note_pubkeys req)) (fst (tq_out_encryption_pubkeys req)) rng = Inr r0"
    using assms by (auto simp: output_notes_def andThen_Inr)
  then obtain o0 rng0 where o0: "r0 = Inl (o0, rng0)" using assms by (cases r0) (auto simp: output_notes_def)
  obtain r1 where r1: "output_note 1 (snd (tq_output_amounts req)) (snd (tq_out_note_pubkeys req)) (snd (tq_out_encryption_pubkeys req)) rng0 = Inr r1"
    using assms r0 o0 by (auto simp: output_notes_def andThen_Inr)
  then obtain o1 rng1 where o1: "r1 = Inl (o1, rng1)" using assms r0 o0 by (cases r1) (auto simp: output_notes_def)
  have "outs = [o0, o1]" "rng1 = rng'" using assms r0 o0 r1 o1 by (simp_all add: output_notes_def)
  then show ?thesis using output_note_Inl [OF r0 [unfolded o0]] output_note_Inl [OF r1 [unfolded o1]] by auto
qed

lemma transact_response_parts:
  assumes "transact_response req rng s = Inr (TransactParamsAre tp, rng')"
  obtains k pool_root m inputs outputs where "get_user_keys (tq_user_address req) s = Some k" "tq_pool_root req = Some pool_root"
    "build_membership_proof (tq_aspmem_contract_id req) (nk_public (su_note k)) (su_membership_blinding k) (tq_aspmem_root req)
      (tq_aspmem_ledger req) (tq_tree_depth req) s = Inr (Inl m)"
    "build_pool_inputs (tq_user_address req) (tq_pool_address req) (tq_pool_next_index req) (tq_tree_depth req) pool_root
      (tq_input_commitments req) s = Inr (Inl inputs)"
    "tp_priv_key tp = nk_private (su_note k)" "tp_encryption_pubkey tp = ek_public (su_encryption k)" "tp_pool_root tp = pool_root"
    "tp_inputs tp = inputs" "tp_outputs tp = outputs" "tp_membership tp = m" "tp_tree_depth tp = unat (tq_tree_depth req)"
    "length (tq_input_commitments req) \<le> 2" "tp_ext_amount tp = tq_ext_amount req" "tp_ext_recipient tp = tq_ext_recipient req"
    "output_notes req rng = Inr (Inl (outputs, rng'))" "tp_non_membership tp = tq_non_membership_proof req" "tp_smt_depth tp = unat (tq_smt_depth req)"
proof -
  have small: "length (tq_input_commitments req) \<le> 2" using assms by (auto simp: transact_response_def split: if_splits)
  obtain k where k: "get_user_keys (tq_user_address req) s = Some k"
    using assms small by (cases "get_user_keys (tq_user_address req) s") (auto simp: transact_response_def load_user_key_material_def)
  note a = assms [unfolded transact_response_def load_user_key_material_def k]
  obtain mr where mr: "build_membership_proof (tq_aspmem_contract_id req) (nk_public (su_note k)) (su_membership_blinding k) (tq_aspmem_root req)
      (tq_aspmem_ledger req) (tq_tree_depth req) s = Inr mr" using a small by (auto simp: andThen_Inr)
  then obtain m where m: "mr = Inl m" using a small by (cases mr) auto
  obtain pool_root where root: "tq_pool_root req = Some pool_root" using a small mr m by (auto simp: andThen_Inr ok_or_def split: option.splits)
  obtain ir where ir: "build_pool_inputs (tq_user_address req) (tq_pool_address req) (tq_pool_next_index req) (tq_tree_depth req) pool_root
      (tq_input_commitments req) s = Inr ir" using a small mr m root by (auto simp: andThen_Inr)
  then obtain inputs where i: "ir = Inl inputs" using a small mr m root by (cases ir) auto
  obtain out where out: "output_notes req rng = Inr out" using a small mr m root ir i by (auto simp: andThen_Inr)
  then obtain outputs r where o: "out = Inl (outputs, r)" using a small mr m root ir i by (cases out) auto
  show thesis using that [OF k root mr [unfolded m] ir [unfolded i], of outputs] a small mr m root ir i out o by auto
qed

lemma user_keys_keypair:
  assumes "events_ok s" "get_user_keys user s = Some k"
  shows "\<exists>kr account. (account, user) \<in> set (ls_accounts s) \<and> kr \<in> set (ls_keypairs s) \<and> kr_account kr = account \<and>
    kr_note kr = su_note k \<and> kr_encryption kr = su_encryption k \<and> kr_membership_blinding kr = su_membership_blinding k"
proof -
  obtain account kr where "address_id (ls_accounts s) user = Some account" "latest_keypair s account = Some kr"
    "k = \<lparr>su_note = kr_note kr, su_encryption = kr_encryption kr, su_membership_blinding = kr_membership_blinding kr\<rparr>"
    using assms(2) by (auto simp: get_user_keys_def split: option.splits)
  then show ?thesis using latest_keypair_Some [OF assms(1)] address_id_Some by (intro exI [of _ kr] exI [of _ account]) auto
qed

text \<open>The keypairs of an account have the same keys.\<close>

lemma account_one_key:
  assumes "store_inv env W s" "one_signature W" "k \<in> set (ls_keypairs s)" "k' \<in> set (ls_keypairs s)" "kr_account k = kr_account k'"
  shows "kr_note k = kr_note k' \<and> kr_encryption k = kr_encryption k'"
proof -
  have inv: "names_ok (ls_accounts s)" "keys_of (we_crypto env) W s" using assms(1) by (simp_all add: store_inv_def events_ok_def)
  obtain a sig where a: "(kr_account k, a) \<in> set (ls_accounts s)" "(a, sig) \<in> W"
    "derive_encryption_and_note_keypairs (we_crypto env) sig = Inr (kr_note k, kr_encryption k)"
    using inv(2) assms(3) unfolding keys_of_def by metis
  obtain a' sig' where a': "(kr_account k', a') \<in> set (ls_accounts s)" "(a', sig') \<in> W"
    "derive_encryption_and_note_keypairs (we_crypto env) sig' = Inr (kr_note k', kr_encryption k')"
    using inv(2) assms(4) unfolding keys_of_def by metis
  have "Some a = Some a'" using id_address_in [of "ls_accounts s"] inv(1) a(1) a'(1) assms(5) unfolding names_ok_def by metis
  then have "sig = sig'" using assms(2) a(2) a'(2) unfolding one_signature_def by blast
  then show ?thesis using a(3) a'(3) by simp
qed

lemma derived_note_keys:
  assumes "derive_encryption_and_note_keypairs crypto sig = Inr (nk, ek)"
  shows "\<exists>sk pk. nk_private nk = NotePrivateKey sk \<and> nk_public nk = NotePublicKey pk \<and> derive_public_key sk = Inr pk"
proof -
  obtain npk where npk: "derive_note_private_key crypto sig = Inr npk"
    using assms by (auto simp: derive_encryption_and_note_keypairs_def andThen_Inr)
  obtain sk where sk: "npk = NotePrivateKey sk" by (cases npk)
  obtain pk where "derive_public_key sk = Inr pk" "length pk = 32" "nk = \<lparr>nk_private = NotePrivateKey sk, nk_public = NotePublicKey pk\<rparr>"
    using assms by (auto simp: derive_encryption_and_note_keypairs_def andThen_Inr npk sk to_array_32_def split: if_splits)
  then show ?thesis by simp
qed

text \<open>The note behind an input, as the scan derived it with the keys of the account.\<close>

lemma input_note:
  assumes "store_inv env W s" "one_signature W" "get_user_keys user s = Some k" "input_of s user pool depth root commitment inp"
  shows "\<exists>n \<in> set (ls_user_notes s). \<exists>c \<in> set (ls_commitments s). \<exists>d. ur_id n = commitment \<and> cr_commitment c = commitment \<and>
    ti_path_indices inp = Field (ucast (cr_leaf_index c)) \<and> ti_amount inp = dn_amount d \<and> ti_blinding inp = dn_blinding d \<and>
    dn_expected_nullifier d = ur_expected_nullifier n \<and>
    try_decrypt_and_derive_user_note (we_crypto env) (su_note k) (ek_private (su_encryption k)) commitment (cr_leaf_index c) (cr_encrypted_output c) = Inr (Some d)"
proof -
  have inv: "events_ok s" "chain_ok s" "notes_ok s" "notes_derived (worker_derive (we_crypto env)) s"
    using assms(1) by (simp_all add: store_inv_def loop_inv_def scan_inv_def)
  obtain n c where n: "n \<in> set (ls_user_notes s)" "c \<in> set (pool_rows s pool)" "id_address (ls_accounts s) (ur_account n) = Some user"
    "cr_id c = ur_commitment_id n" "cr_commitment c = commitment" "ti_amount inp = ur_amount n" "ti_blinding inp = ur_blinding n"
    "ti_path_indices inp = Field (ucast (cr_leaf_index c))" using assms(4) unfolding input_of_def by blast
  have c: "c \<in> set (ls_commitments s)" using n(2) by (simp add: from_contract_rows)
  obtain a c' d where d: "keyed s a" "ak_account_id a = ur_account n" "c' \<in> set (ls_commitments s)" "cr_id c' = ur_commitment_id n"
    "worker_derive (we_crypto env) a c' = Inr (Some d)" "ur_amount n = dn_amount d" "ur_blinding n = dn_blinding d"
    "ur_expected_nullifier n = dn_expected_nullifier d"
    using inv(4) n(1) unfolding notes_derived_def note_derived_def by metis
  have "c' = c" using commitment_id_unique [OF inv(2) d(3) c] d(4) n(4) by simp
  obtain k' where k': "k' \<in> set (ls_keypairs s)" "kr_account k' = ur_account n" "kr_note k' = ak_note_keypair a" "kr_encryption k' = ak_encryption_keypair a"
    using d(1,2) unfolding keyed_def by auto
  obtain kr where kr: "(kr_account kr, user) \<in> set (ls_accounts s)" "kr \<in> set (ls_keypairs s)" "kr_note kr = su_note k" "kr_encryption kr = su_encryption k"
    using user_keys_keypair [OF inv(1) assms(3)] by blast
  have names: "names_ok (ls_accounts s)" using inv(1) by (simp add: events_ok_def)
  have "(ur_account n, user) \<in> set (ls_accounts s)" using id_address_Some [OF n(3)] .
  then have "ur_account n = kr_account kr" using inj_onD [of snd "set (ls_accounts s)" "(ur_account n, user)" "(kr_account kr, user)"] kr(1) names
    by (simp add: names_ok_def distinct_map)
  then have "kr_note k' = kr_note kr \<and> kr_encryption k' = kr_encryption kr" using account_one_key [OF assms(1,2) k'(1) kr(2)] k'(2) by simp
  then have "try_decrypt_and_derive_user_note (we_crypto env) (su_note k) (ek_private (su_encryption k)) commitment (cr_leaf_index c) (cr_encrypted_output c) = Inr (Some d)"
    using d(5) k'(3,4) kr(3,4) n(5) \<open>c' = c\<close> by (simp add: worker_derive_def)
  moreover obtain cn where cn: "cn \<in> set (ls_commitments s)" "cr_id cn = ur_commitment_id n" "cr_commitment cn = ur_id n"
    using inv(3) n(1) unfolding notes_ok_def note_ok_def by blast
  moreover have "cn = c" using commitment_id_unique [OF inv(2) cn(1) c] cn(2) n(4) by simp
  ultimately show ?thesis using n c d by (intro bexI [of _ n] bexI [of _ c] exI [of _ d]) auto
qed

end
