(* ===== verification/Mirror.thy ===== *)
theory Mirror imports ProofInputs begin

text \<open>
  The tables of the chain and the log of events: every row is what a saved event parses to, and when the
  worker is idle the tables are exactly what the log parses to.
\<close>

section \<open>Tables as sets of events\<close>

definition table_events :: "local_store \<Rightarrow> processed_event set" where
  "table_events s =
     (\<lambda>r. Nullifier \<lparr>ne_id = nr_event r, ne_nullifier = nr_nullifier r\<rparr>) ` set (ls_nullifiers s) \<union>
     (\<lambda>r. Commitment \<lparr>me_id = cr_event r, me_commitment = cr_commitment r, me_index = cr_leaf_index r,
        me_encrypted_output = cr_encrypted_output r\<rparr>) ` set (ls_commitments s) \<union>
     (\<lambda>r. PublicKey \<lparr>ke_id = pr_event r, ke_owner = pr_owner r, ke_encryption_key = pr_encryption_key r, ke_note_key = pr_note_key r\<rparr>) `
        set (ls_public_keys s) \<union>
     (\<lambda>r. LeafAdded \<lparr>le_id = lr_event r, le_leaf = lr_leaf r, le_index = lr_leaf_index r, le_root = lr_root r\<rparr>) ` set (ls_asp_leaves s)"

definition mirrors :: "xdr_env \<Rightarrow> local_store \<Rightarrow> bool" where
  "mirrors env s \<longleftrightarrow> (\<forall>p \<in> table_events s. \<exists>r \<in> set (ls_events s). parse_event env (view s r) = Inr p)"

lemma processed_table: "processed s e \<longleftrightarrow> e \<in> processed_id ` table_events s"
  by (simp add: processed_def table_events_def image_Un image_image) blast

lemma table_events_frame:
  "ls_nullifiers t = ls_nullifiers s \<Longrightarrow> ls_commitments t = ls_commitments s \<Longrightarrow> ls_public_keys t = ls_public_keys s \<Longrightarrow>
    ls_asp_leaves t = ls_asp_leaves s \<Longrightarrow> table_events t = table_events s"
  by (simp add: table_events_def)

text \<open>A log that grows keeps what its events parse to.\<close>

lemma view_extends:
  assumes "events_ok s" "ls_contracts t = ls_contracts s @ cs" "r \<in> set (ls_events s)"
  shows "view t r = view s r"
proof -
  obtain a where "id_address (ls_contracts s) (er_contract r) = Some a" using event_address [OF assms(1,3)] by blast
  then have "id_address (ls_contracts t) (er_contract r) = Some a" by (auto simp: id_address_def assms(2) find_append_Some)
  then show ?thesis using \<open>id_address (ls_contracts s) (er_contract r) = Some a\<close> by (simp add: view_def)
qed

lemma mirrors_extends:
  assumes "events_ok s" "mirrors env s" "ls_contracts t = ls_contracts s @ cs" "set (ls_events s) \<subseteq> set (ls_events t)"
    and "table_events t = table_events s"
  shows "mirrors env t"
  using assms(2,4) view_extends [OF assms(1,3)] unfolding mirrors_def assms(5) by (metis subsetD)

section \<open>Processing events\<close>

text \<open>The rows a batch adds are its events.\<close>

definition adds :: "xdr_env \<Rightarrow> contract_event list \<Rightarrow> local_store \<Rightarrow> local_store \<Rightarrow> bool" where
  "adds env es s u \<longleftrightarrow> chain_ok u \<and> same_base s u \<and> (\<forall>p \<in> table_events u. p \<in> table_events s \<or> (\<exists>e \<in> set es. parse_event env e = Inr p))"

lemma adds_refl: "chain_ok s \<Longrightarrow> adds env es s s"
  by (simp add: adds_def same_base_def)

lemma adds_trans: "adds env es s u \<Longrightarrow> adds env es u v \<Longrightarrow> adds env es s v"
  unfolding adds_def same_base_def by auto

lemma adds_commit:
  assumes "chain_ok s" "commit t k s = (v, r)" "\<And>u. t s = Inr u \<Longrightarrow> adds env es s u" "\<And>u. chain_ok u \<Longrightarrow> k u = (v, r) \<Longrightarrow> adds env es u v"
  shows "adds env es s v"
proof (cases "t s")
  case (Inl e)
  then show ?thesis using assms(1,2) by (simp add: commit_def adds_refl)
next
  case (Inr u)
  then have "adds env es s u" "k u = (v, r)" using assms(2,3) by (simp_all add: commit_def)
  moreover from this have "chain_ok u" by (simp add: adds_def)
  ultimately show ?thesis using assms(4) [of u] adds_trans [of env es s u v] by simp
qed

lemma adds_nullifiers:
  assumes "chain_ok s" "save_nullifier_events_batch (nullifiers_in env es) s = Inr u"
  shows "adds env es s u"
proof -
  obtain rows where r: "chain_ok u" "u = s\<lparr>ls_nullifiers := ls_nullifiers s @ rows\<rparr>"
    "set rows \<subseteq> {r. \<exists>e \<in> set (nullifiers_in env es). nr_nullifier r = ne_nullifier e \<and> nr_event r = ne_id e}"
    using save_nullifier_events_ok [OF assms] by blast
  have "\<exists>e \<in> set es. parse_event env e = Inr (Nullifier \<lparr>ne_id = nr_event x, ne_nullifier = nr_nullifier x\<rparr>)" if x: "x \<in> set rows" for x
  proof -
    obtain ev where ev: "ev \<in> set (nullifiers_in env es)" "nr_nullifier x = ne_nullifier ev" "nr_event x = ne_id ev" using subsetD [OF r(3) x] by blast
    then have "\<lparr>ne_id = nr_event x, ne_nullifier = nr_nullifier x\<rparr> = ev" by simp
    then show ?thesis using ev(1) unfolding in_batches by metis
  qed
  then show ?thesis using r(1) unfolding adds_def by (auto simp: table_events_def same_base_def r(2))
qed

lemma adds_commitments:
  assumes "chain_ok s" "save_commitment_events_batch (commitments_in env es) s = Inr u"
  shows "adds env es s u"
proof -
  obtain rows where r: "chain_ok u" "u = s\<lparr>ls_commitments := ls_commitments s @ rows\<rparr>"
    "set rows \<subseteq> {r. \<exists>e \<in> set (commitments_in env es). cr_commitment r = me_commitment e \<and> cr_leaf_index r = me_index e \<and>
      cr_encrypted_output r = me_encrypted_output e \<and> cr_event r = me_id e}"
    using save_commitment_events_ok [OF assms] by blast
  have "\<exists>e \<in> set es. parse_event env e = Inr (Commitment \<lparr>me_id = cr_event x, me_commitment = cr_commitment x, me_index = cr_leaf_index x,
      me_encrypted_output = cr_encrypted_output x\<rparr>)" if x: "x \<in> set rows" for x
  proof -
    obtain ev where ev: "ev \<in> set (commitments_in env es)" "cr_commitment x = me_commitment ev" "cr_leaf_index x = me_index ev"
      "cr_encrypted_output x = me_encrypted_output ev" "cr_event x = me_id ev" using subsetD [OF r(3) x] by blast
    then have "\<lparr>me_id = cr_event x, me_commitment = cr_commitment x, me_index = cr_leaf_index x, me_encrypted_output = cr_encrypted_output x\<rparr> = ev" by simp
    then show ?thesis using ev(1) unfolding in_batches by metis
  qed
  then show ?thesis using r(1) unfolding adds_def by (auto simp: table_events_def same_base_def r(2))
qed

lemma adds_public_keys:
  assumes "chain_ok s" "save_public_key_events_batch (public_keys_in env es) s = Inr u"
  shows "adds env es s u"
proof -
  obtain rows where r: "chain_ok u" "u = s\<lparr>ls_public_keys := ls_public_keys s @ rows\<rparr>"
    "set rows \<subseteq> {r. \<exists>e \<in> set (public_keys_in env es). pr_owner r = ke_owner e \<and> pr_encryption_key r = ke_encryption_key e \<and>
      pr_note_key r = ke_note_key e \<and> pr_event r = ke_id e}"
    using save_public_key_events_ok [OF assms] by blast
  have "\<exists>e \<in> set es. parse_event env e = Inr (PublicKey \<lparr>ke_id = pr_event x, ke_owner = pr_owner x, ke_encryption_key = pr_encryption_key x,
      ke_note_key = pr_note_key x\<rparr>)" if x: "x \<in> set rows" for x
  proof -
    obtain ev where ev: "ev \<in> set (public_keys_in env es)" "pr_owner x = ke_owner ev" "pr_encryption_key x = ke_encryption_key ev"
      "pr_note_key x = ke_note_key ev" "pr_event x = ke_id ev" using subsetD [OF r(3) x] by blast
    then have "\<lparr>ke_id = pr_event x, ke_owner = pr_owner x, ke_encryption_key = pr_encryption_key x, ke_note_key = pr_note_key x\<rparr> = ev" by simp
    then show ?thesis using ev(1) unfolding in_batches by metis
  qed
  then show ?thesis using r(1) unfolding adds_def by (auto simp: table_events_def same_base_def r(2))
qed

lemma adds_leaves:
  assumes "chain_ok s" "save_leaf_added_events_batch (leaves_in env es) s = Inr u"
  shows "adds env es s u"
proof -
  obtain rows where r: "chain_ok u" "u = s\<lparr>ls_asp_leaves := ls_asp_leaves s @ rows\<rparr>"
    "set rows \<subseteq> {r. \<exists>e \<in> set (leaves_in env es). lr_leaf_index r = le_index e \<and> lr_leaf r = le_leaf e \<and> lr_root r = le_root e \<and> lr_event r = le_id e}"
    using save_leaf_added_events_ok [OF assms] by blast
  have "\<exists>e \<in> set es. parse_event env e = Inr (LeafAdded \<lparr>le_id = lr_event x, le_leaf = lr_leaf x, le_index = lr_leaf_index x, le_root = lr_root x\<rparr>)"
    if x: "x \<in> set rows" for x
  proof -
    obtain ev where ev: "ev \<in> set (leaves_in env es)" "lr_leaf_index x = le_index ev" "lr_leaf x = le_leaf ev" "lr_root x = le_root ev" "lr_event x = le_id ev"
      using subsetD [OF r(3) x] by blast
    then have "\<lparr>le_id = lr_event x, le_leaf = lr_leaf x, le_index = lr_leaf_index x, le_root = lr_root x\<rparr> = ev" by simp
    then show ?thesis using ev(1) unfolding in_batches by metis
  qed
  then show ?thesis using r(1) unfolding adds_def by (auto simp: table_events_def same_base_def r(2))
qed

lemma process_events_adds:
  assumes "chain_ok s" "process_events env limit s = (v, r)"
  shows "adds env (rev (get_unprocessed_events limit s)) s v"
proof (cases "get_unprocessed_events limit s = []")
  case True
  then show ?thesis using assms by (simp add: process_events_batches adds_refl)
next
  case False
  let ?es = "rev (get_unprocessed_events limit s)"
  have run: "commit (save_nullifier_events_batch (nullifiers_in env ?es)) (commit (save_commitment_events_batch (commitments_in env ?es))
    (commit (save_public_key_events_batch (public_keys_in env ?es)) (commit (save_leaf_added_events_batch (leaves_in env ?es)) (\<lambda>s. (s, Inr True))))) s = (v, r)"
    using assms(2) False by (simp add: process_events_batches Let_def)
  show ?thesis
    using assms(1) run adds_nullifiers [OF assms(1)]
  proof (rule adds_commit)
    fix u assume u: "chain_ok u" and run: "commit (save_commitment_events_batch (commitments_in env ?es))
      (commit (save_public_key_events_batch (public_keys_in env ?es)) (commit (save_leaf_added_events_batch (leaves_in env ?es)) (\<lambda>s. (s, Inr True)))) u = (v, r)"
    show "adds env ?es u v"
      using u run adds_commitments [OF u]
    proof (rule adds_commit)
      fix x assume x: "chain_ok x" and run: "commit (save_public_key_events_batch (public_keys_in env ?es))
        (commit (save_leaf_added_events_batch (leaves_in env ?es)) (\<lambda>s. (s, Inr True))) x = (v, r)"
      show "adds env ?es x v"
        using x run adds_public_keys [OF x]
      proof (rule adds_commit)
        fix y assume y: "chain_ok y" and run: "commit (save_leaf_added_events_batch (leaves_in env ?es)) (\<lambda>s. (s, Inr True)) y = (v, r)"
        show "adds env ?es y v" using y run adds_leaves [OF y] by (rule adds_commit) (auto intro: adds_refl)
      qed
    qed
  qed
qed

lemma mirrors_process_events:
  assumes "events_ok s" "chain_ok s" "mirrors env s" "process_events env limit s = (v, r)"
  shows "mirrors env v"
proof -
  note a = process_events_adds [OF assms(2,4), unfolded adds_def]
  have vw: "view v = view s" and ev: "ls_events v = ls_events s" using a by (simp_all add: same_base_def view_def fun_eq_iff)
  show ?thesis unfolding mirrors_def vw ev
  proof
    fix p assume "p \<in> table_events v"
    then consider "p \<in> table_events s" | e where "e \<in> set (get_unprocessed_events limit s)" "parse_event env e = Inr p" using a by auto
    then show "\<exists>r \<in> set (ls_events s). parse_event env (view s r) = Inr p"
    proof cases
      case 2
      then obtain row where "row \<in> set (next_events limit s)" "e = view s row" by (auto simp: get_unprocessed_view [OF assms(1)])
      then show ?thesis using 2(2) set_next_events [of limit s] by (auto simp: unprocessed_def)
    qed (use assms(3) in \<open>simp add: mirrors_def\<close>)
  qed
qed

section \<open>The worker\<close>

lemma mirrors_same_chain: "same_chain s t \<Longrightarrow> mirrors env t = mirrors env s"
  by (simp add: mirrors_def table_events_def same_chain_reads same_chain_blocked(3))

lemma mirrors_turn:
  assumes "store_inv env W s" "mirrors (we_xdr env) s" "process_turn env s = (t, r)"
  shows "mirrors (we_xdr env) t"
proof -
  obtain u r1 v r2 where p: "process_events (we_xdr env) FETCH_LIMIT s = (u, r1)" "store_inv env W u"
    "process_notes (worker_derive (we_crypto env)) FETCH_LIMIT u = (v, r2)" "store_inv env W v" "same_chain u v"
    "process_turn env s = (case r1 of Inl e \<Rightarrow> (u, Inl e) | Inr b1 \<Rightarrow>
      (case r2 of Inl e \<Rightarrow> (v, Inl e) | Inr b2 \<Rightarrow> (v, Inr (b1 \<or> b2))))"
    by (rule process_turn_parts [OF assms(1)])
  have u: "mirrors (we_xdr env) u" using mirrors_process_events [OF _ _ assms(2) p(1)] store_inv_ok [OF assms(1)] by blast
  have "t = u \<or> t = v" using assms(3) unfolding p(6) by (cases r1; cases r2) simp_all
  then show ?thesis using u mirrors_same_chain [OF p(5), of "we_xdr env"] by (elim disjE) simp_all
qed

text \<open>What a request does to the log and the tables of the chain.\<close>

definition log_extends :: "local_store \<Rightarrow> local_store \<Rightarrow> bool" where
  "log_extends s t \<longleftrightarrow> (\<exists>cs es. ls_contracts t = ls_contracts s @ cs \<and> ls_events t = ls_events s @ es) \<and>
     ls_nullifiers t = ls_nullifiers s \<and> ls_commitments t = ls_commitments s \<and> ls_public_keys t = ls_public_keys s \<and>
     ls_asp_leaves t = ls_asp_leaves s"

lemma log_extends_same: "ls_contracts t = ls_contracts s \<Longrightarrow> ls_events t = ls_events s \<Longrightarrow> ls_nullifiers t = ls_nullifiers s \<Longrightarrow>
    ls_commitments t = ls_commitments s \<Longrightarrow> ls_public_keys t = ls_public_keys s \<Longrightarrow> ls_asp_leaves t = ls_asp_leaves s \<Longrightarrow> log_extends s t"
  by (simp add: log_extends_def)

lemma quiet_log: "quiet s t \<Longrightarrow> log_extends s t"
  by (auto simp: quiet_def log_extends_def)

lemma router_log:
  assumes "events_ok (wk_store w)" "router env req rng w = (w', r)"
  shows "log_extends (wk_store w) (wk_store w')"
proof -
  let ?s = "wk_store w"
  have acc: "log_extends ?s t" if "get_or_create_account a ?s = (i, t)" for a i t
    using quiet_log [OF conjunct2 [OF quiet_account [OF assms(1) that, of "ls_disclaimers t"]]] by simp
  have kick: "wk_store (kick_processor v) = wk_store v" for v by (simp add: kick_processor_def)
  have same: "log_extends ?s ?s" by (simp add: log_extends_def)
  show ?thesis
  proof (cases req)
    case (SaveEvents es)
    obtain cs rs where "save_events_batch es ?s = ?s\<lparr>ls_contracts := ls_contracts ?s @ cs, ls_events := ls_events ?s @ rs\<rparr>"
      using save_events_batch_ok [OF assms(1)] unfolding extends_def by blast
    then have "log_extends ?s (save_events_batch es ?s)" by (simp add: log_extends_def)
    then show ?thesis using assms(2) SaveEvents by (auto simp: router_def kick)
  next
    case (SaveSyncProgress ms full)
    then show ?thesis using assms(2) quiet_log [OF quiet_sync [OF assms(1)]] by (auto simp: router_def)
  next
    case ClearIndexingCursors
    have "log_extends ?s (clear_indexing_cursors ?s)" by (simp add: clear_indexing_cursors_def log_extends_same)
    then show ?thesis using assms(2) ClearIndexingCursors by (auto simp: router_def)
  next
    case (DeriveSaveUserKeys a sig n)
    have "log_extends ?s (save_encryption_and_note_keypairs a nk ek b ?s)" for nk ek b
    proof -
      obtain i t where t: "get_or_create_account a ?s = (i, t)" by fastforce
      show ?thesis using acc [OF t] by (simp add: save_encryption_and_note_keypairs_def t log_extends_def)
    qed
    then show ?thesis using assms(2) same DeriveSaveUserKeys by (auto simp: router_def kick split: sum.splits prod.splits)
  next
    case (DisclaimerState a)
    then show ?thesis using assms(2) acc by (auto simp: router_def get_disclaimer_state_def split: prod.splits)
  next
    case (AcceptDisclaimer a h)
    obtain i t where t: "get_or_create_account a ?s = (i, t)" by fastforce
    have "log_extends ?s (t\<lparr>ls_disclaimers := d\<rparr>)" for d using acc [OF t] by (simp add: log_extends_def)
    then show ?thesis using assms(2) same AcceptDisclaimer t acc [OF t]
      by (auto simp: router_def accept_current_disclaimer_def guard_def split: sum.splits if_splits)
  next
    case (SetBootnodeConfig e u)
    then show ?thesis using assms(2) by (auto simp: router_def set_bootnode_config_def log_extends_same)
  qed (use assms(2) same in \<open>auto simp: router_def Let_def kick\<close>)
qed

lemma log_mirrors:
  assumes "log_extends s t" "events_ok s" "mirrors x s"
  shows "mirrors x t"
proof -
  obtain cs es where "ls_contracts t = ls_contracts s @ cs" "ls_events t = ls_events s @ es" using assms(1) unfolding log_extends_def by blast
  moreover have "table_events t = table_events s" using assms(1) by (simp add: table_events_def log_extends_def)
  ultimately show ?thesis using mirrors_extends [OF assms(2,3)] by simp
qed

lemma mirrors_connect: "mirrors x connect"
  by (simp add: mirrors_def table_events_def connect_def)

lemma worker_mirrors:
  assumes "worker_reachable env W w" "one_signature W"
  shows "mirrors (we_xdr env) (wk_store w)"
  using assms(1) unfolding worker_reachable_def
proof (induction rule: rtranclp_induct)
  case base
  then show ?case by (simp add: worker_init_def mirrors_connect)
next
  case (step v w)
  have inv: "store_inv env W (wk_store v)" using worker_reachable_inv [OF _ assms(2)] step.hyps(1) by (simp add: worker_reachable_def worker_inv_def)
  from step.hyps(2) show ?case
  proof cases
    case (request req rng r)
    then show ?thesis using log_mirrors [OF router_log] store_inv_ok [OF inv] step.IH by blast
  next
    case (turn s' r)
    then show ?thesis using mirrors_turn [OF inv step.IH turn(3)] by simp
  qed (use step.IH in simp)
qed

text \<open>When nothing is left to process, the tables are what the log parses to.\<close>

lemma settled_mirror:
  assumes "events_ok s" "mirrors env s" "\<forall>r \<in> set (ls_events s). processed s (er_id r)"
  shows "(\<lambda>r. parse_event env (view s r)) ` set (ls_events s) = Inr ` table_events s"
proof (intro equalityI subsetI)
  fix y assume "y \<in> (\<lambda>r. parse_event env (view s r)) ` set (ls_events s)"
  then obtain r where r: "r \<in> set (ls_events s)" "y = parse_event env (view s r)" by blast
  then obtain p where p: "p \<in> table_events s" "processed_id p = er_id r"
    using bspec [OF assms(3) r(1)] unfolding processed_table by (elim imageE) simp
  then obtain r' where r': "r' \<in> set (ls_events s)" "parse_event env (view s r') = Inr p"
    using bspec [OF assms(2) [unfolded mirrors_def] p(1)] by (elim bexE)
  then have "er_id r' = er_id r" using parse_event_id [OF r'(2)] p(2) by (simp add: view_def)
  then have "r' = r" using r(1) r'(1) assms(1) by (auto simp: events_ok_def distinct_map dest: inj_onD)
  then show "y \<in> Inr ` table_events s" using r(2) r'(2) p(1) by simp
next
  fix y :: "event_error fault + processed_event" assume "y \<in> Inr ` table_events s"
  then obtain p where p: "y = Inr p" "p \<in> table_events s" by blast
  then obtain r where "r \<in> set (ls_events s)" "parse_event env (view s r) = Inr p"
    using bspec [OF assms(2) [unfolded mirrors_def] p(2)] by (elim bexE)
  then show "y \<in> (\<lambda>r. parse_event env (view s r)) ` set (ls_events s)" using p(1) by (intro image_eqI [of _ _ r]) simp_all
qed

end
