(* ===== verification/Encoding.thy ===== *)
theory Encoding imports Events Pool begin

text \<open>
  The application and the pool contract agree on the data both hash: the external data of a
  transaction. The contract serializes its struct with the host; the application builds the same map.
\<close>

section \<open>Fields as 256-bit values\<close>

lemma take_le_bytes: "m \<le> n \<Longrightarrow> take m (le_bytes n x) = le_bytes m x"
proof (induction m arbitrary: n x)
  case (Suc m)
  then show ?case by (cases n) simp_all
qed simp

lemma drop_le_bytes: "drop m (le_bytes n x) = le_bytes (n - m) (x div 256 ^ m)"
proof (induction m arbitrary: n x)
  case (Suc m)
  then show ?case by (cases n) (simp_all add: div_mult2_eq)
qed simp

text \<open>Eight bytes of the big-endian form, counted from its end.\<close>

lemma be_word:
  assumes "m + 8 \<le> n"
  shows "from_be (take 8 (drop (n - 8 - m) (to_be n v))) = (word_of_nat (unat v div 256 ^ m) :: u64)"
proof -
  let ?L = "to_le n v"
  have k: "n - (n - (m + 8)) = m + 8" using assms by simp
  have "drop (n - 8 - m) (rev ?L) = rev (take (m + 8) ?L)" using assms k by (simp add: drop_rev add.commute)
  then have "take 8 (drop (n - 8 - m) (rev ?L)) = rev (drop m (take (m + 8) ?L))" using assms by (simp add: take_rev)
  then have "rev (take 8 (drop (n - 8 - m) (to_be n v))) = drop m (take (m + 8) ?L)" by (simp only: to_be_def rev_rev_ident)
  also have "\<dots> = le_bytes 8 (unat v div 256 ^ m)"
    using assms by (simp add: to_le_le_bytes take_le_bytes drop_le_bytes del: le_bytes.simps)
  finally have "from_be (take 8 (drop (n - 8 - m) (to_be n v))) = (word_of_nat (le_val (le_bytes 8 (unat v div 256 ^ m))) :: u64)"
    by (simp only: from_be_def from_le_le_val)
  moreover have "(word_of_nat (x mod 2 ^ 64) :: u64) = word_of_nat x" for x
    by (simp add: word_of_nat_eq_iff take_bit_nat_def)
  ultimately show ?thesis by (simp add: le_val_le_bytes del: le_bytes.simps)
qed

lemma parts_value:
  "scval_to_u256 (SCU256 a b c d) = Inr (word_of_nat (unat a * 2 ^ 192 + unat b * 2 ^ 128 + unat c * 2 ^ 64 + unat d))"
proof -
  have lt: "unat a < 2 ^ 64" "unat b < 2 ^ 64" "unat c < 2 ^ 64" "unat d < 2 ^ 64"
    using unsigned_less [of a, where ?'a = nat] unsigned_less [of b, where ?'a = nat] unsigned_less [of c, where ?'a = nat]
      unsigned_less [of d, where ?'a = nat] by simp_all
  have push: "(push_bit k (ucast x) :: u256) = word_of_nat (unat x * 2 ^ k)" for k and x :: u64
    by (simp add: push_bit_eq_mult)
  have add: "checked_add (word_of_nat x :: u256) (word_of_nat y) = Some (word_of_nat (x + y))" if "x + y < 2 ^ 256" for x y
    using that by (simp add: checked_add_unat unat_of_nat)
  have low: "(ucast d :: u256) = word_of_nat (unat d)" by simp
  show ?thesis unfolding scval_to_u256_def scval.case Let_def push low using lt by (simp add: add del: of_nat_unat of_nat_add of_nat_mult)
qed

lemma split_word: "(x :: nat) = y * k + m3 \<Longrightarrow> y = z * k + m2 \<Longrightarrow> z = h * k + m1 \<Longrightarrow> h * k ^ 3 + m1 * k ^ 2 + m2 * k + m3 = x"
  by (simp add: algebra_simps power2_eq_square power3_eq_cube)

lemma split_64: "x div 2 ^ 192 * 2 ^ 192 + x div 2 ^ 128 mod 2 ^ 64 * 2 ^ 128 + x div 2 ^ 64 mod 2 ^ 64 * 2 ^ 64 + x mod 2 ^ 64 = (x :: nat)"
proof -
  have d: "x div 2 ^ 128 = x div 2 ^ 64 div 2 ^ 64" "x div 2 ^ 192 = x div 2 ^ 128 div 2 ^ 64"
    by (simp_all add: div_mult2_eq [symmetric])
  have p: "(2 :: nat) ^ 192 = (2 ^ 64) ^ 3" "(2 :: nat) ^ 128 = (2 ^ 64) ^ 2" by simp_all
  show ?thesis unfolding p
    by (rule split_word [of x "x div 2 ^ 64" _ _ "x div 2 ^ 128"]) (simp_all only: d p [symmetric] div_mult_mod_eq)
qed

lemma u256_of_scval: "scval_to_u256 (field_to_scval_u256 f) = Inr (f_val f)"
proof -
  let ?x = "unat (f_val f)"
  have lt: "?x < 2 ^ 256" using unsigned_less [of "f_val f", where ?'a = nat] by simp
  then have hi: "?x div 2 ^ 192 mod 2 ^ 64 = ?x div 2 ^ 192" by (simp add: less_mult_imp_div_less)
  have sc: "field_to_scval_u256 f = SCU256 (word_of_nat (?x div 2 ^ 192)) (word_of_nat (?x div 2 ^ 128)) (word_of_nat (?x div 2 ^ 64)) (word_of_nat ?x)"
    using be_word [of 24 32 "f_val f"] be_word [of 16 32 "f_val f"] be_word [of 8 32 "f_val f"] be_word [of 0 32 "f_val f"]
    by (simp add: field_to_scval_u256_def f_to_be_bytes_def Let_def)
  have u: "unat (word_of_nat n :: u64) = n mod 2 ^ 64" for n by (simp add: unat_of_nat)
  show ?thesis unfolding sc parts_value u hi split_64 by simp
qed

section \<open>Signed amounts\<close>

text \<open>The four words of a 256-bit integer of the host.\<close>

definition i256_words :: "i256 \<Rightarrow> scval" where
  "i256_words w = SCI256 (ucast (drop_bit 192 w)) (ucast (drop_bit 128 w)) (ucast (drop_bit 64 w)) (ucast w)"

lemma i128_words: "i128_to_i256_scval n = i256_words (scast n)"
proof -
  have neg: "sint n < 0 \<longleftrightarrow> bit n 127" by (simp add: sint_uint signed_take_bit_negative_iff bit_uint_iff)
  have hi: "(if sint n < 0 then - 1 else 0 :: u64) = ucast (drop_bit k (scast n :: i256))" if "k = 192 \<or> k = 128" for k
    using that by (intro bit_word_eqI) (auto simp: neg bit_simps min_def)
  have "unat n div 256 ^ 8 = unat (drop_bit 64 n)" by (simp only: unat_drop_bit_eq) (simp add: drop_bit_eq_div)
  then have mid: "(word_of_nat (unat n div 256 ^ 8) :: u64) = ucast (drop_bit 64 n)" by simp
  have lo: "ucast (drop_bit 64 (scast n :: i256)) = (word_of_nat (unat n div 256 ^ 8) :: u64)"
    unfolding mid
  proof (rule bit_word_eqI)
    fix k assume "k < LENGTH(64)"
    then consider "k = 63" | "k < 63" by fastforce
    then show "bit (ucast (drop_bit 64 (scast n :: i256)) :: u64) k = bit (ucast (drop_bit 64 n) :: u64) k"
      by cases (simp_all add: bit_simps)
  qed
  have low: "ucast (scast n :: i256) = (word_of_nat (unat n) :: u64)"
    unfolding of_nat_unat by (rule bit_word_eqI) (simp add: bit_simps)
  show ?thesis unfolding i256_words_def hi [of 192, simplified, symmetric] hi [of 128, simplified, symmetric] lo low
    using be_word [of 8 16 n] be_word [of 0 16 n] by (simp add: i128_to_i256_scval_def Let_def)
qed

section \<open>The hash of the external data\<close>

text \<open>
  What both sides rely on: the host serializes a struct as the map of its fields in the order of their
  names, and both use the same hash function, whose digests have 32 bytes. \<open>addr\<close> is the address behind the
  value of an address.
\<close>

definition struct_scval :: "(address \<Rightarrow> sc_address) \<Rightarrow> ext_data \<Rightarrow> scval" where
  "struct_scval addr ext = SCMap (Some [(SCSymbol ''encrypted_output0'', SCBytes (ed_encrypted_output0 ext)),
     (SCSymbol ''encrypted_output1'', SCBytes (ed_encrypted_output1 ext)),
     (SCSymbol ''ext_amount'', i256_words (ed_ext_amount ext)), (SCSymbol ''recipient'', SCAddress (addr (ed_recipient ext)))])"

definition same_serialization :: "pool_env \<Rightarrow> xdr_env \<Rightarrow> (address \<Rightarrow> sc_address) \<Rightarrow> bool" where
  "same_serialization penv xenv addr \<longleftrightarrow> (\<forall>ext. xe_to_xdr xenv (struct_scval addr ext) = Some (pe_to_xdr penv ext)) \<and>
     (\<forall>p. xe_keccak256 xenv p = pe_keccak256 penv p \<and> length (xe_keccak256 xenv p) = 32)"

text \<open>
  The map the application builds, for the hash and for the call.
\<close>

lemma entries_sorted:
  "sort_key fst [(''encrypted_output0'', a), (''encrypted_output1'', b), (''ext_amount'', c), (''recipient'', d)] =
    [(''encrypted_output0'', a), (''encrypted_output1'', b), (''ext_amount'', c), (''recipient'', d)]"
  by (rule sort_key_id_if_sorted) (simp add: less_eq_char_def list_le_def list_less_def)

text \<open>
  Property C12: the application hashes the external data of a transaction to the bytes the pool contract computes for the
  same data, and passes the contract the value it hashed.
\<close>

theorem ext_data_hash_agrees:
  assumes "same_serialization penv xenv addr"
    and "ed_ext_amount ext = scast (ea_val (ce_ext_amount c))" "xe_parse_address xenv (ce_recipient c) = Some (addr (ed_recipient ext))"
    and "ed_encrypted_output0 ext = ce_encrypted_output0 c" "ed_encrypted_output1 ext = ce_encrypted_output1 c"
    and "length (ce_encrypted_output0 c) < 2 ^ 32" "length (ce_encrypted_output1 c) < 2 ^ 32"
  shows "hash_ext_data_offchain xenv c = Inr (hash_ext_data penv ext) \<and>
    pool_ext_data_to_scval xenv c = Inr (struct_scval addr ext)"
proof
  let ?es = "[(SCSymbol ''encrypted_output0'', SCBytes (ce_encrypted_output0 c)), (SCSymbol ''encrypted_output1'', SCBytes (ce_encrypted_output1 c)),
    (SCSymbol ''ext_amount'', i256_words (ed_ext_amount ext)), (SCSymbol ''recipient'', SCAddress (addr (ed_recipient ext)))]"
  have es: "SCMap (Some ?es) = struct_scval addr ext" by (simp add: struct_scval_def assms(4,5))
  have entry: "map_entry k v = Inr (SCSymbol k, v)" if "length k \<le> 32" for k v using that by (simp add: map_entry_def)
  have x: "xe_to_xdr xenv (SCMap (Some ?es)) = Some (pe_to_xdr penv ext)" "length (xe_keccak256 xenv (pe_to_xdr penv ext)) = 32"
    "xe_keccak256 xenv (pe_to_xdr penv ext) = pe_keccak256 penv (pe_to_xdr penv ext)"
    using assms(1) unfolding es same_serialization_def by blast+
  have m: "from_be BN254_MODULUS_BE = bn256_modulus" using bn254_modulus_u256_eq by (simp add: bn254_modulus_u256_def bn256_modulus_def BN256_MOD_BYTES_def BN254_MODULUS_BE_def)
  show "hash_ext_data_offchain xenv c = Inr (hash_ext_data penv ext)"
    unfolding hash_ext_data_offchain_def Let_def
    using assms(3,6,7) x by (simp add: bytes_to_scval_def entries_sorted entry i128_words assms(2) [symmetric] m hash_ext_data_def Let_def)
  show "pool_ext_data_to_scval xenv c = Inr (struct_scval addr ext)"
    using assms(3,6,7) by (simp add: pool_ext_data_to_scval_def bytes_to_scval_def entry i128_words assms(2) [symmetric] sorted_map_def symbol_key_def
      es [symmetric] sort_key_id_if_sorted less_eq_char_def list_le_def list_less_def)
qed

text \<open>An instance of the two serializations.\<close>

definition run_pool_env :: pool_env where
  "run_pool_env = \<lparr>pe_this = Address 0, pe_auth = (\<lambda>_. True), pe_to_xdr = (\<lambda>ext. ed_encrypted_output0 ext), pe_keccak256 = (\<lambda>p. take 32 (p @ replicate 32 7)),
     pe_asp_root = (\<lambda>_. None), pe_verify = (\<lambda>_ _ _. None), pe_transfer_ok = (\<lambda>_ _. True)\<rparr>"

definition run_struct_env :: xdr_env where
  "run_struct_env = \<lparr>xe_from_base64 = (\<lambda>_. None), xe_to_xdr = (\<lambda>v. case v of SCMap (Some ((_, SCBytes b) # _)) \<Rightarrow> Some b | _ \<Rightarrow> None), xe_utf8 = Some,
     xe_account_string = (\<lambda>_. ''G''), xe_contract_string = (\<lambda>_. ''C''), xe_parse_address = (\<lambda>_. Some (ContractAddress [])),
     xe_keccak256 = (\<lambda>p. take 32 (p @ replicate 32 7))\<rparr>"

lemma run_serialization: "same_serialization run_pool_env run_struct_env (\<lambda>_. ContractAddress [])"
  unfolding same_serialization_def
proof (intro conjI allI)
  fix p show "length (xe_keccak256 run_struct_env p) = 32" by (simp add: run_struct_env_def min_def)
qed (simp_all add: struct_scval_def run_struct_env_def run_pool_env_def)

theorem ext_data_hash_agrees_witness:
  "\<exists>c. length (ce_encrypted_output0 c) = 3 \<and> sint (ea_val (ce_ext_amount c)) = - 5 \<and>
    hash_ext_data_offchain run_struct_env c = Inr (hash_ext_data run_pool_env
      \<lparr>ed_recipient = Address 1, ed_ext_amount = - 5, ed_encrypted_output0 = [1, 2, 3], ed_encrypted_output1 = []\<rparr>)"
proof -
  let ?c = "\<lparr>ce_recipient = ''x'', ce_ext_amount = ExtAmount (- 5), ce_encrypted_output0 = [1, 2, 3], ce_encrypted_output1 = []\<rparr>"
  let ?e = "\<lparr>ed_recipient = Address 1, ed_ext_amount = - 5, ed_encrypted_output0 = [1, 2, 3], ed_encrypted_output1 = []\<rparr>"
  have "xe_parse_address run_struct_env (ce_recipient ?c) = Some (ContractAddress [])" by (simp add: run_struct_env_def)
  from conjunct1 [OF ext_data_hash_agrees [OF run_serialization, of ?e ?c, OF _ this]]
  have "hash_ext_data_offchain run_struct_env ?c = Inr (hash_ext_data run_pool_env ?e)" by simp
  then show ?thesis by (intro exI [of _ ?c]) simp
qed

text \<open>
  The value an application writes for a field element is read back as the element; values of the chain that are
  not below the modulus are refused.
\<close>

theorem field_value_round_trip:
  "scval_to_u256 (field_to_scval_u256 f) = Inr (f_val f) \<and>
    scval_to_field (field_to_scval_u256 f) = (if f_canonical f then Inr f else Inl (Fail (FieldError FieldOutOfRange)))"
  by (cases f) (simp add: u256_of_scval scval_to_field_def f_try_from_u256_def f_canonical_def map_err_def not_less [symmetric])

end
