(* ===== verification/SampleRun.thy ===== *)
theory SampleRun imports Mirror Encoding begin

text \<open>
  A run of the worker, to show that what is said of workers can happen: an account registers, its deposit
  and its leaf of the membership list arrive, the loop runs to its end, and the worker is idle.
\<close>

section \<open>Runs of the loop\<close>

text \<open>A run of the loop to its end is a sequence of steps of the worker.\<close>

lemma run_steps:
  assumes "process_until_empty env s = Some y"
  shows "\<forall>w :: worker. wk_store w = s \<longrightarrow> wk_running w \<longrightarrow>
    (worker_step env W)\<^sup>*\<^sup>* w (w\<lparr>wk_store := fst y, wk_running := False, wk_failed := (\<exists>e. snd y = Inl e)\<rparr>)"
proof (rule process_until_empty.raw_induct [OF _ assms, where P = "\<lambda>env s y. \<forall>w :: worker. wk_store w = s \<longrightarrow> wk_running w \<longrightarrow>
    (worker_step env W)\<^sup>*\<^sup>* w (w\<lparr>wk_store := fst y, wk_running := False, wk_failed := (\<exists>e. snd y = Inl e)\<rparr>)"], intro allI impI)
  fix run env s y and w :: worker
  assume ih: "\<And>env s y. run env s = Some y \<Longrightarrow> \<forall>w :: worker. wk_store w = s \<longrightarrow> wk_running w \<longrightarrow>
      (worker_step env W)\<^sup>*\<^sup>* w (w\<lparr>wk_store := fst y, wk_running := False, wk_failed := (\<exists>e. snd y = Inl e)\<rparr>)"
    and body: "(case process_turn env s of (s', Inl e) \<Rightarrow> Some (s', Inl e)
      | (s', Inr did_work) \<Rightarrow> if did_work then run env s' else Some (s', Inr ())) = Some y"
    and w: "wk_store w = s" "wk_running w"
  obtain t r where t: "process_turn env s = (t, r)" by fastforce
  let ?v = "w\<lparr>wk_store := t, wk_running := (r = Inr True), wk_failed := (\<exists>e. r = Inl e)\<rparr>"
  have step: "worker_step env W w ?v" using worker_step.turn [OF w(2), of env t r W] t w(1) by simp
  show "(worker_step env W)\<^sup>*\<^sup>* w (w\<lparr>wk_store := fst y, wk_running := False, wk_failed := (\<exists>e. snd y = Inl e)\<rparr>)"
  proof (cases "r = Inr True")
    case True
    then have "run env t = Some y" using body t by simp
    from mp [OF mp [OF spec [OF ih [OF this], of ?v]]] True
    have "(worker_step env W)\<^sup>*\<^sup>* ?v (w\<lparr>wk_store := fst y, wk_running := False, wk_failed := (\<exists>e. snd y = Inl e)\<rparr>)" by simp
    then show ?thesis by (rule converse_rtranclp_into_rtranclp [of "worker_step env W", OF step])
  next
    case False
    have "?v = w\<lparr>wk_store := fst y, wk_running := False, wk_failed := (\<exists>e. snd y = Inl e)\<rparr>"
      using body t False by (cases r) auto
    then show ?thesis using r_into_rtranclp [of "worker_step env W", OF step] by simp
  qed
qed

lemma reachable_steps: "worker_reachable env W w \<Longrightarrow> (worker_step env W)\<^sup>*\<^sup>* w w' \<Longrightarrow> worker_reachable env W w'"
  unfolding worker_reachable_def by (rule rtranclp_trans)

lemma reachable_step: "worker_reachable env W w \<Longrightarrow> worker_step env W w w' \<Longrightarrow> worker_reachable env W w'"
  unfolding worker_reachable_def by (rule rtranclp.rtrancl_into_rtrancl)

lemma reachable_store: "worker_reachable env W w \<Longrightarrow> one_signature W \<Longrightarrow> store_inv env W (wk_store w)"
  using worker_reachable_inv [of env W w] by (simp add: worker_inv_def)

section \<open>Notes of a settled store\<close>

text \<open>The notes of a settled store are found and marked.\<close>

lemma settled_notes:
  assumes "store_inv env W s" "settled s"
  shows "\<forall>a \<in> set (get_accounts_with_latest_keypairs s). \<forall>c \<in> set (ls_commitments s). \<forall>d.
      worker_derive (we_crypto env) a c = Inr (Some d) \<longrightarrow>
      (\<exists>n \<in> set (ls_user_notes s). ur_commitment_id n = cr_id c \<or> ur_expected_nullifier n = dn_expected_nullifier d)"
    and "\<forall>n \<in> set (ls_user_notes s). ur_nullifier_id n \<noteq> None \<longleftrightarrow>
      (\<exists>r \<in> set (ls_nullifiers s). contract_of s (nr_event r) = note_contract s n \<and> nr_nullifier r = ur_expected_nullifier n)"
proof -
  let ?D = "worker_derive (we_crypto env)" and ?A = "get_accounts_with_latest_keypairs s"
  have inv: "chain_ok s" "notes_ok s" "scanned ?D ?A s" using assms(1) by (simp_all add: store_inv_def loop_inv_def scan_inv_def)
  have contract: "\<exists>p. contract_of s (cr_event c) = Some p" if "c \<in> set (ls_commitments s)" for c
    using commitment_known [OF inv(1) that] by (simp add: contract_of_def)
  show "\<forall>a \<in> set ?A. \<forall>c \<in> set (ls_commitments s). \<forall>d. ?D a c = Inr (Some d) \<longrightarrow>
      (\<exists>n \<in> set (ls_user_notes s). ur_commitment_id n = cr_id c \<or> ur_expected_nullifier n = dn_expected_nullifier d)"
  proof (intro ballI allI impI)
    fix a c d assume a: "a \<in> set ?A" "c \<in> set (ls_commitments s)" "?D a c = Inr (Some d)"
    obtain p where p: "contract_of s (cr_event c) = Some p" using contract a(2) by blast
    have "unscanned s p (scan_mark s p (ak_account_id a)) = []" using assms(2) a(1) by (simp add: settled_def backlog_def)
    then have "cr_id c \<le> scan_mark s p (ak_account_id a)" using a(2) p unscanned_set [of c s p "scan_mark s p (ak_account_id a)"] by force
    then have "covered ?D s a c" using inv(3) a(1,2) p unfolding scanned_def by blast
    then show "\<exists>n \<in> set (ls_user_notes s). ur_commitment_id n = cr_id c \<or> ur_expected_nullifier n = dn_expected_nullifier d"
      using a(3) by (force simp: covered_def note_keys_def)
  qed
  show "\<forall>n \<in> set (ls_user_notes s). ur_nullifier_id n \<noteq> None \<longleftrightarrow>
      (\<exists>r \<in> set (ls_nullifiers s). contract_of s (nr_event r) = note_contract s n \<and> nr_nullifier r = ur_expected_nullifier n)"
  proof
    fix n assume "n \<in> set (ls_user_notes s)"
    then have n: "note_ok s n" using inv(2) by (simp add: notes_ok_def)
    show "ur_nullifier_id n \<noteq> None \<longleftrightarrow>
      (\<exists>r \<in> set (ls_nullifiers s). contract_of s (nr_event r) = note_contract s n \<and> nr_nullifier r = ur_expected_nullifier n)"
    proof
      assume "ur_nullifier_id n \<noteq> None"
      then show "\<exists>r \<in> set (ls_nullifiers s). contract_of s (nr_event r) = note_contract s n \<and> nr_nullifier r = ur_expected_nullifier n"
        using note_ok_spent [OF n] by blast
    next
      assume "\<exists>r \<in> set (ls_nullifiers s). contract_of s (nr_event r) = note_contract s n \<and> nr_nullifier r = ur_expected_nullifier n"
      then obtain r where r: "r \<in> set (ls_nullifiers s)" "contract_of s (nr_event r) = note_contract s n" "nr_nullifier r = ur_expected_nullifier n" by blast
      obtain p where p: "contract_of s (nr_event r) = Some p" using nullifier_known [OF inv(1) r(1)] by (auto simp: contract_of_def)
      have "pending s p = []" using assms(2) by (simp add: settled_def)
      then have "nr_id r \<le> nullifier_mark s p" using r(1) p pending_set [of r s p] by force
      then show "ur_nullifier_id n \<noteq> None" using n r p unfolding note_ok_def by force
    qed
  qed
qed

section \<open>Keys and a note\<close>

abbreviation sample_signature :: key_derivation_signature where
  "sample_signature \<equiv> KeyDerivationSignature (replicate 64 9)"

definition sample_note_keys :: "field \<Rightarrow> field \<Rightarrow> note_key_pair" where
  "sample_note_keys sk pk = \<lparr>nk_private = NotePrivateKey (f_to_le_bytes sk), nk_public = NotePublicKey (f_to_le_bytes pk)\<rparr>"

definition sample_keys :: "byte list \<Rightarrow> encryption_key_pair" where
  "sample_keys esk = \<lparr>ek_private = EncryptionPrivateKey esk, ek_public = EncryptionPublicKey (ce_public plain_env esk)\<rparr>"

text \<open>The values the run is about: keys, the blinding and the leaf of the membership, and a note with its encrypted output.\<close>

definition sample_ok :: "field \<Rightarrow> field \<Rightarrow> byte list \<Rightarrow> field \<Rightarrow> field \<Rightarrow> field \<Rightarrow> byte list \<Rightarrow> field \<Rightarrow> bool" where
  "sample_ok sk pk esk blinding leaf cm enc nullifier \<longleftrightarrow>
     derive_encryption_and_note_keypairs plain_env sample_signature = Inr (sample_note_keys sk pk, sample_keys esk) \<and>
     derive_membership_blinding plain_env sample_signature ''net'' = Inr blinding \<and>
     asp_membership_leaf (f_to_le_bytes pk) blinding = Inr leaf \<and> f_canonical leaf \<and> f_canonical cm \<and> length esk = 32 \<and>
     derive_public_key (f_to_le_bytes sk) = Inr (f_to_le_bytes pk) \<and>
     try_decrypt_and_derive_user_note plain_env (sample_note_keys sk pk) (EncryptionPrivateKey esk) cm 0 enc =
       Inr (Some \<lparr>dn_amount = NoteAmount 5, dn_blinding = F_ONE, dn_expected_nullifier = nullifier\<rparr>)"

lemma sample_note:
  assumes "length esk = 32"
  shows "\<exists>cm enc n. f_canonical cm \<and> try_decrypt_and_derive_user_note plain_env (sample_note_keys sk pk) (EncryptionPrivateKey esk) cm 0 enc =
    Inr (Some \<lparr>dn_amount = NoteAmount 5, dn_blinding = F_ONE, dn_expected_nullifier = n\<rparr>)"
proof -
  obtain cm where c: "f_canonical cm" "compute_commitment (f_to_le_bytes (f_from_note (NoteAmount 5))) (f_to_le_bytes pk) (f_to_le_bytes F_ONE) =
    Inr (f_to_le_bytes cm)"
    using hash_fields(1) [OF length_f_to_le_bytes length_f_to_le_bytes length_f_to_le_bytes] by metis
  let ?c = "(na_to_le_bytes (NoteAmount 5) @ f_to_le_bytes F_ONE) @ replicate 16 7"
  have "decrypt_output_note plain_env (EncryptionPrivateKey esk) (ce_public plain_env [] @ replicate 24 3 @ ?c) =
      Inr (Some (NoteAmount 5, F_ONE))"
    by (rule decrypt_packed [OF plain_env_ok]) (simp_all add: assms plain_env_def f_canonical_nat F_ONE_def)
  from derive_after_decrypt [OF this _ _ length_f_to_le_bytes length_f_to_le_bytes _ c(2), of "sample_note_keys sk pk" sk cm 0] c(1)
  show ?thesis by (fastforce simp: na_is_zero_def sample_note_keys_def)
qed

lemma sample_exists: "\<exists>sk pk esk blinding leaf cm enc nullifier. sample_ok sk pk esk blinding leaf cm enc nullifier"
proof -
  obtain sk pk esk where k: "derive_encryption_and_note_keypairs plain_env sample_signature = Inr (sample_note_keys sk pk, sample_keys esk)"
    "f_canonical pk" "derive_public_key (f_to_le_bytes sk) = Inr (f_to_le_bytes pk)" "length esk = 32"
    using derived_keys [OF plain_env_ok, of "replicate 64 9"] by (auto simp: sample_note_keys_def sample_keys_def)
  let ?v = "le_val (hash_signature_with_domain_and_context plain_env (replicate 64 9) MEMBERSHIP_BLINDING_DOMAIN (str_bytes ''net'')) mod bn_p"
  have "f_try_from_le_bytes (le_bytes 32 ?v) = Inr (Field (word_of_nat ?v))" by (rule scalar_bytes_field) simp
  then have b: "derive_membership_blinding plain_env sample_signature ''net'' = Inr (Field (word_of_nat ?v))"
    by (simp add: derive_membership_blinding_def Let_def del: le_bytes.simps)
  have v: "f_canonical (Field (word_of_nat ?v))" by (simp add: f_canonical_nat unat_of_nat)
  have "le_val (f_to_le_bytes pk) < bn_p" using k(2) by (simp add: f_to_le_bytes_nat f_canonical_nat le_val_le_bytes_p del: le_bytes.simps)
  then obtain leaf where leaf: "asp_membership_leaf (f_to_le_bytes pk) (Field (word_of_nat ?v)) = Inr (Field leaf)"
    using asp_leaf_is_contract_hash [OF length_f_to_le_bytes _ v] by blast
  then have "f_canonical (Field leaf)"
    by (auto simp: asp_membership_leaf_def andThen_Inr map_err_Inr f_try_from_le_bytes_def f_try_from_u256_def f_canonical_def split: if_splits)
  moreover obtain cm enc n where "f_canonical cm" "try_decrypt_and_derive_user_note plain_env (sample_note_keys sk pk) (EncryptionPrivateKey esk) cm 0 enc =
    Inr (Some \<lparr>dn_amount = NoteAmount 5, dn_blinding = F_ONE, dn_expected_nullifier = n\<rparr>)" using sample_note [OF k(4)] by blast
  ultimately show ?thesis unfolding sample_ok_def using k b leaf
    by (intro exI [of _ sk] exI [of _ pk] exI [of _ esk] exI [of _ "Field (word_of_nat ?v)"] exI [of _ "Field leaf"] exI [of _ cm] exI [of _ enc] exI [of _ n])
      (intro conjI)
qed

section \<open>The events of the run\<close>

definition sample_decode :: "field \<Rightarrow> byte list \<Rightarrow> field \<Rightarrow> string \<Rightarrow> scval option" where
  "sample_decode cm enc leaf t =
     (if t = ''c0'' then Some (SCSymbol ''new_commitment_event'')
      else if t = ''c1'' then Some (field_to_scval_u256 cm)
      else if t = ''cv'' then Some (SCMap (Some [(SCSymbol ''index'', SCU32 0), (SCSymbol ''encrypted_output'', SCBytes enc)]))
      else if t = ''dv'' then Some (SCMap (Some [(SCSymbol ''index'', SCU32 1), (SCSymbol ''encrypted_output'', SCBytes enc)]))
      else if t = ''l0'' then Some (SCSymbol ''leaf_added'')
      else if t = ''lv'' then Some (SCMap (Some [(SCSymbol ''leaf'', field_to_scval_u256 leaf), (SCSymbol ''index'', SCU64 0),
        (SCSymbol ''root'', field_to_scval_u256 F_ONE)]))
      else None)"

definition sample_env :: "field \<Rightarrow> byte list \<Rightarrow> field \<Rightarrow> worker_env" where
  "sample_env cm enc leaf = \<lparr>we_crypto = plain_env,
     we_xdr = \<lparr>xe_from_base64 = sample_decode cm enc leaf, xe_to_xdr = (\<lambda>_. None), xe_utf8 = Some, xe_account_string = (\<lambda>_. ''G''),
       xe_contract_string = (\<lambda>_. ''C''), xe_parse_address = (\<lambda>_. None), xe_keccak256 = (\<lambda>_. [])\<rparr>, we_disclaimer = ''''\<rparr>"

lemma sample_env_simps [simp]: "we_crypto (sample_env cm enc leaf) = plain_env"
  "xe_from_base64 (we_xdr (sample_env cm enc leaf)) = sample_decode cm enc leaf" "xe_utf8 (we_xdr (sample_env cm enc leaf)) = Some"
  by (simp_all add: sample_env_def)

definition commitment_call :: "string \<Rightarrow> u32 \<Rightarrow> string \<Rightarrow> contract_event" where
  "commitment_call i ledger v = \<lparr>cv_id = i, cv_ledger = ledger, cv_contract_id = ''P'', cv_topics = [''c0'', ''c1''], cv_value = v\<rparr>"

definition leaf_call :: contract_event where
  "leaf_call = \<lparr>cv_id = ''e2'', cv_ledger = 8, cv_contract_id = ''A'', cv_topics = [''l0''], cv_value = ''lv''\<rparr>"

lemma scval_to_field_written: "f_canonical f \<Longrightarrow> scval_to_field (field_to_scval_u256 f) = Inr f"
  by (cases f) (simp add: u256_of_scval scval_to_field_def f_try_from_u256_def f_canonical_def map_err_def not_less [symmetric])

lemmas parse_defs = parse_event_def parse_event_metadata_def symbol_string_def first_topic_def event_value_def map_ok_def
  parse_new_commitment_event_def parse_leaf_added_def scval_to_u32_def scval_to_u64_def scval_to_bytes_def

lemma parse_commitment_call:
  assumes "f_canonical cm" "v = ''cv'' \<and> i = 0 \<or> v = ''dv'' \<and> i = 1"
  shows "parse_event (we_xdr (sample_env cm enc leaf)) (commitment_call e l v) =
    Inr (Commitment \<lparr>me_id = e, me_commitment = cm, me_index = i, me_encrypted_output = enc\<rparr>)"
  using assms(2) by (elim disjE; simp add: parse_defs commitment_call_def sample_decode_def scval_to_field_written [OF assms(1)])

lemma parse_leaf_call:
  assumes "f_canonical leaf"
  shows "parse_event (we_xdr (sample_env cm enc leaf)) leaf_call =
    Inr (LeafAdded \<lparr>le_id = ''e2'', le_leaf = leaf, le_index = 0, le_root = F_ONE\<rparr>)"
proof -
  have "f_canonical F_ONE" by (simp add: f_canonical_nat F_ONE_def)
  then show ?thesis by (simp add: parse_defs leaf_call_def sample_decode_def scval_to_field_written assms)
qed

definition sample_events :: "event_row list" where
  "sample_events = [\<lparr>er_id = ''e1'', er_ledger = 7, er_contract = 1, er_topics = ''c0,c1'', er_value = ''cv''\<rparr>,
     \<lparr>er_id = ''e2'', er_ledger = 8, er_contract = 2, er_topics = ''l0'', er_value = ''lv''\<rparr>]"

definition sample_store :: "field \<Rightarrow> field \<Rightarrow> byte list \<Rightarrow> field \<Rightarrow> local_store" where
  "sample_store sk pk esk blinding = connect\<lparr>ls_contracts := [(1, ''P''), (2, ''A'')],
     ls_indexing := [\<lparr>sr_contract = 2, sr_cursor = Some ''x'', sr_last_indexed = 8, sr_last_fully_indexed = 8\<rparr>],
     ls_events := sample_events, ls_accounts := [(1, ''U'')],
     ls_keypairs := [\<lparr>kr_id = 1, kr_note = sample_note_keys sk pk, kr_encryption = sample_keys esk, kr_membership_blinding = blinding, kr_account = 1\<rparr>]\<rparr>"

lemma sample_views:
  assumes "ls_contracts s = [(1, ''P''), (2, ''A'')]"
  shows "map (view s) sample_events = [commitment_call ''e1'' 7 ''cv'', leaf_call]"
  by (simp add: sample_events_def view_def assms id_address_def commitment_call_def leaf_call_def)

abbreviation sample_signatures :: "(string \<times> key_derivation_signature) set" where
  "sample_signatures \<equiv> {(''U'', sample_signature)}"

lemma sample_one_signature: "one_signature sample_signatures"
  by (simp add: one_signature_def)

lemma sample_reachable:
  assumes "sample_ok sk pk esk blinding leaf cm enc nullifier"
  shows "\<exists>w. worker_reachable (sample_env cm enc leaf) sample_signatures w \<and> wk_running w \<and> wk_signals w = 1 \<and>
    wk_store w = sample_store sk pk esk blinding"
proof -
  let ?E = "sample_env cm enc leaf" and ?W = sample_signatures
  let ?k = "\<lparr>kr_id = 1, kr_note = sample_note_keys sk pk, kr_encryption = sample_keys esk, kr_membership_blinding = blinding, kr_account = 1\<rparr>"
  let ?s1 = "connect\<lparr>ls_accounts := [(1, ''U'')], ls_keypairs := [?k]\<rparr>"
  let ?s2 = "?s1\<lparr>ls_contracts := [(1, ''P''), (2, ''A'')], ls_events := sample_events\<rparr>"
  let ?w1 = "\<lparr>wk_store = ?s1, wk_signals = 1, wk_running = False, wk_failed = False\<rparr>"
  let ?w2 = "\<lparr>wk_store = ?s2, wk_signals = 2, wk_running = False, wk_failed = False\<rparr>"
  let ?w3 = "\<lparr>wk_store = sample_store sk pk esk blinding, wk_signals = 2, wk_running = False, wk_failed = False\<rparr>"
  let ?w4 = "\<lparr>wk_store = sample_store sk pk esk blinding, wk_signals = 1, wk_running = True, wk_failed = False\<rparr>"
  have k: "derive_encryption_and_note_keypairs plain_env sample_signature = Inr (sample_note_keys sk pk, sample_keys esk)"
    "derive_membership_blinding plain_env sample_signature ''net'' = Inr blinding" using assms by (simp_all add: sample_ok_def)
  have "router ?E (DeriveSaveUserKeys ''U'' sample_signature ''net'') [] worker_init = (?w1, Inr (Saved, []))"
    by (simp add: router_def k worker_init_def save_encryption_and_note_keypairs_def get_or_create_account_def address_id_def connect_def
      next_id_def kick_processor_def Let_def)
  then have 1: "worker_step ?E ?W worker_init ?w1" by (rule worker_step.request [rotated]) simp
  have "router ?E (SaveEvents [commitment_call ''e1'' 7 ''cv'', leaf_call]) [] ?w1 = (?w2, Inr (Saved, []))"
    by (simp add: router_def get_or_create_contract_id_def address_id_def connect_def next_id_def kick_processor_def Let_def commitment_call_def
      leaf_call_def sample_events_def)
  then have 2: "worker_step ?E ?W ?w1 ?w2" by (rule worker_step.request [rotated]) simp
  have "router ?E (SaveSyncProgress [\<lparr>sm_contract_id = ''A'', sm_cursor = ''x'', sm_last_indexed_ledger = 8, sm_last_fully_indexed_ledger = 8\<rparr>] True) [] ?w2 =
      (?w3, Inr (Saved, []))"
    by (simp add: router_def get_or_create_contract_id_def address_id_def connect_def next_id_def Let_def sample_store_def)
  then have 3: "worker_step ?E ?W ?w2 ?w3" by (rule worker_step.request [rotated]) simp
  have 4: "worker_step ?E ?W ?w3 ?w4" using worker_step.start [of ?w3 ?E ?W] by simp
  have "worker_reachable ?E ?W worker_init" by (simp add: worker_reachable_def)
  from reachable_step [OF reachable_step [OF reachable_step [OF reachable_step [OF this 1] 2] 3] 4]
  show ?thesis by (intro exI [of _ ?w4]) simp
qed

section \<open>The loop of the run\<close>

lemma same_chain_base: "same_chain s t \<Longrightarrow> same_base s t"
  by (simp add: same_base_def same_chain_reads)

lemma turn_base:
  assumes "store_inv env W s" "process_turn env s = (t, r)"
  shows "same_base s t"
proof -
  obtain u r1 v r2 where p: "process_events (we_xdr env) FETCH_LIMIT s = (u, r1)" "store_inv env W u"
    "process_notes (worker_derive (we_crypto env)) FETCH_LIMIT u = (v, r2)" "store_inv env W v" "same_chain u v"
    "process_turn env s = (case r1 of Inl e \<Rightarrow> (u, Inl e) | Inr b1 \<Rightarrow>
      (case r2 of Inl e \<Rightarrow> (v, Inl e) | Inr b2 \<Rightarrow> (v, Inr (b1 \<or> b2))))"
    by (rule process_turn_parts [OF assms(1)])
  have u: "same_base s u" using process_events_ok [OF _ p(1)] store_inv_ok [OF assms(1)] by (simp add: saves_def)
  have "t = u \<or> t = v" using assms(2) unfolding p(6) by (cases r1; cases r2) simp_all
  then show ?thesis using u same_chain_base [OF p(5)] by (auto simp: same_base_def)
qed

lemma run_base:
  assumes "process_until_empty env s = Some y"
  shows "store_inv env W s \<longrightarrow> same_base s (fst y)"
proof (rule process_until_empty.raw_induct [OF _ assms, where P = "\<lambda>env s y. store_inv env W s \<longrightarrow> same_base s (fst y)"], intro impI)
  fix run env s y
  assume ih: "\<And>env s y. run env s = Some y \<Longrightarrow> store_inv env W s \<longrightarrow> same_base s (fst y)"
    and body: "(case process_turn env s of (s', Inl e) \<Rightarrow> Some (s', Inl e)
      | (s', Inr did_work) \<Rightarrow> if did_work then run env s' else Some (s', Inr ())) = Some y"
    and s: "store_inv env W s"
  obtain t r where t: "process_turn env s = (t, r)" by fastforce
  have b: "same_base s t" "store_inv env W t" using turn_base [OF s t] process_turn_ok [OF s t] by auto
  show "same_base s (fst y)"
  proof (cases "r = Inr True")
    case True
    then have "run env t = Some y" using body t by simp
    from mp [OF ih [OF this] b(2)] b(1) show ?thesis by (simp add: same_base_def)
  next
    case False
    then have "fst y = t" using body t by (cases r) auto
    then show ?thesis using b(1) by simp
  qed
qed

text \<open>The log of the run, in every store that keeps it.\<close>

lemma sample_parses:
  assumes "sample_ok sk pk esk blinding leaf cm enc nullifier" "same_base (sample_store sk pk esk blinding) s"
  shows "map (\<lambda>r. parse_event (we_xdr (sample_env cm enc leaf)) (view s r)) (ls_events s) =
    [Inr (Commitment \<lparr>me_id = ''e1'', me_commitment = cm, me_index = 0, me_encrypted_output = enc\<rparr>),
     Inr (LeafAdded \<lparr>le_id = ''e2'', le_leaf = leaf, le_index = 0, le_root = F_ONE\<rparr>)]"
proof -
  have f: "f_canonical cm" "f_canonical leaf" using assms(1) by (simp_all add: sample_ok_def)
  have s: "ls_contracts s = [(1, ''P''), (2, ''A'')]" "ls_events s = sample_events" using assms(2) by (simp_all add: same_base_def sample_store_def)
  have "map (\<lambda>r. parse_event (we_xdr (sample_env cm enc leaf)) (view s r)) (ls_events s) =
    map (parse_event (we_xdr (sample_env cm enc leaf))) (map (view s) sample_events)" by (simp add: s(2))
  also have "\<dots> = [Inr (Commitment \<lparr>me_id = ''e1'', me_commitment = cm, me_index = 0, me_encrypted_output = enc\<rparr>),
     Inr (LeafAdded \<lparr>le_id = ''e2'', le_leaf = leaf, le_index = 0, le_root = F_ONE\<rparr>)]"
    unfolding sample_views [OF s(1)] by (simp add: parse_commitment_call [OF f(1)] parse_leaf_call [OF f(2)])
  finally show ?thesis .
qed

lemma sample_parse_cases:
  assumes "sample_ok sk pk esk blinding leaf cm enc nullifier" "same_base (sample_store sk pk esk blinding) s" "r \<in> set (ls_events s)"
  shows "parse_event (we_xdr (sample_env cm enc leaf)) (view s r) \<in>
    {Inr (Commitment \<lparr>me_id = ''e1'', me_commitment = cm, me_index = 0, me_encrypted_output = enc\<rparr>),
     Inr (LeafAdded \<lparr>le_id = ''e2'', le_leaf = leaf, le_index = 0, le_root = F_ONE\<rparr>)}"
proof -
  have "parse_event (we_xdr (sample_env cm enc leaf)) (view s r) \<in>
    set (map (\<lambda>r. parse_event (we_xdr (sample_env cm enc leaf)) (view s r)) (ls_events s))" using assms(3) by (simp only: set_map) (rule imageI)
  then show ?thesis unfolding sample_parses [OF assms(1,2)] by simp
qed

lemma sample_candidate:
  assumes "sample_ok sk pk esk blinding leaf cm enc nullifier" "same_base (sample_store sk pk esk blinding) s"
    "mirrors (we_xdr (sample_env cm enc leaf)) s" "candidate (we_xdr (sample_env cm enc leaf)) s c"
  shows "cr_commitment c = cm \<and> cr_leaf_index c = 0 \<and> cr_encrypted_output c = enc"
proof -
  let ?x = "we_xdr (sample_env cm enc leaf)"
  obtain r ev where r: "r \<in> set (ls_events s)" "parse_event ?x (view s r) = Inr (Commitment ev)" "cr_commitment c = me_commitment ev"
    "cr_leaf_index c = me_index ev" "cr_encrypted_output c = me_encrypted_output ev"
  proof (cases "c \<in> set (ls_commitments s)")
    case True
    then have "Commitment \<lparr>me_id = cr_event c, me_commitment = cr_commitment c, me_index = cr_leaf_index c, me_encrypted_output = cr_encrypted_output c\<rparr> \<in>
      table_events s" by (simp add: table_events_def)
    then obtain r where "r \<in> set (ls_events s)" "parse_event ?x (view s r) = Inr (Commitment \<lparr>me_id = cr_event c, me_commitment = cr_commitment c,
      me_index = cr_leaf_index c, me_encrypted_output = cr_encrypted_output c\<rparr>)" using assms(3) unfolding mirrors_def by blast
    then show thesis using that by simp
  next
    case False
    then show thesis using assms(4) that unfolding candidate_def unprocessed_def by auto
  qed
  then show ?thesis using sample_parse_cases [OF assms(1,2) r(1)] by auto
qed

lemma sample_accounts:
  assumes "same_base (sample_store sk pk esk blinding) s"
  shows "get_accounts_with_latest_keypairs s =
    [\<lparr>ak_account_id = 1, ak_note_keypair = sample_note_keys sk pk, ak_encryption_keypair = sample_keys esk, ak_membership_blinding = blinding\<rparr>]"
  using assms by (simp add: get_accounts_with_latest_keypairs_def latest_keypair_def same_base_def sample_store_def)

lemma sample_candidates_ok:
  assumes "sample_ok sk pk esk blinding leaf cm enc nullifier" "same_base (sample_store sk pk esk blinding) s"
    "mirrors (we_xdr (sample_env cm enc leaf)) s"
  shows "outputs_readable (sample_env cm enc leaf) s" "\<not> nullifiers_collide (sample_env cm enc leaf) s"
proof -
  have d: "worker_derive plain_env a c = Inr (Some \<lparr>dn_amount = NoteAmount 5, dn_blinding = F_ONE, dn_expected_nullifier = nullifier\<rparr>)"
    if "a \<in> set (get_accounts_with_latest_keypairs s)" "candidate (we_xdr (sample_env cm enc leaf)) s c" for a c
    using assms(1) that(1) sample_candidate [OF assms that(2)]
    by (simp add: sample_accounts [OF assms(2)] worker_derive_def sample_keys_def sample_ok_def)
  have "cr_commitment c = cr_commitment c'" if "candidate (we_xdr (sample_env cm enc leaf)) s c" "candidate (we_xdr (sample_env cm enc leaf)) s c'" for c c'
    using sample_candidate [OF assms that(1)] sample_candidate [OF assms that(2)] by simp
  then show "\<not> nullifiers_collide (sample_env cm enc leaf) s" unfolding nullifiers_collide_def by blast
  show "outputs_readable (sample_env cm enc leaf) s" unfolding outputs_readable_def sample_env_simps
  proof (intro ballI allI impI)
    fix a c assume a: "a \<in> set (get_accounts_with_latest_keypairs s)" and c: "candidate (we_xdr (sample_env cm enc leaf)) s c"
    then have keys: "ak_note_keypair a = sample_note_keys sk pk" "ak_encryption_keypair a = sample_keys esk" "length esk = 32"
      using assms(1) by (simp_all add: sample_accounts [OF assms(2)] sample_ok_def)
    have "\<exists>x. worker_derive plain_env a c = Inr x" using d [OF a c] by blast
    then show "readable plain_env (ek_private (ak_encryption_keypair a)) (cr_encrypted_output c)"
      unfolding worker_derive_def keys sample_keys_def encryption_key_pair.select_convs
      using derive_succeeds_iff [of "sample_note_keys sk pk" "f_to_le_bytes pk" "f_to_le_bytes sk" esk plain_env] keys(3)
      by (simp add: sample_note_keys_def)
  qed
qed

lemma sample_honest:
  assumes "sample_ok sk pk esk blinding leaf cm enc nullifier"
  shows "honest (we_xdr (sample_env cm enc leaf)) (sample_store sk pk esk blinding)"
proof -
  let ?x = "we_xdr (sample_env cm enc leaf)" and ?s = "sample_store sk pk esk blinding"
  have "same_base ?s ?s" by (simp add: same_base_def)
  note p = sample_parses [OF assms this]
  have ev: "ls_events ?s = sample_events" by (simp add: sample_store_def)
  have k: "table_key_of ?x (view ?s (sample_events ! 0)) = Some (CommitmentKey cm)" "table_key_of ?x (view ?s (sample_events ! 1)) = Some (LeafKey 0)"
    using p unfolding ev by (simp_all add: sample_events_def table_key_of_def)
  have un: "unprocessed ?s = [sample_events ! 0, sample_events ! 1]"
    by (simp add: unprocessed_def sample_store_def sample_events_def processed_def connect_def)
  have "\<not> taken ?s (CommitmentKey cm)" "\<not> taken ?s (LeafKey 0)" by (simp_all add: sample_store_def connect_def)
  then show ?thesis unfolding honest_def un using k by auto
qed

text \<open>Two runs of the loop take the two signals and leave the worker idle.\<close>

lemma sample_idle:
  assumes ok: "sample_ok sk pk esk blinding leaf cm enc nullifier"
  shows "\<exists>w. worker_reachable (sample_env cm enc leaf) sample_signatures w \<and> \<not> wk_running w \<and> wk_signals w = 0 \<and> \<not> wk_failed w \<and>
    same_base (sample_store sk pk esk blinding) (wk_store w)"
proof -
  let ?E = "sample_env cm enc leaf" and ?W = sample_signatures and ?S = "sample_store sk pk esk blinding"
  obtain w where w: "worker_reachable ?E ?W w" "wk_running w" "wk_signals w = 1" "wk_store w = ?S" using sample_reachable [OF ok] by blast
  have inv: "store_inv ?E ?W ?S" "mirrors (we_xdr ?E) ?S"
    using reachable_store [OF w(1) sample_one_signature] worker_mirrors [OF w(1) sample_one_signature] w(4) by simp_all
  have "same_base ?S ?S" by (simp add: same_base_def)
  note c = sample_candidates_ok [OF ok this inv(2)]
  have small: "length (ls_contracts s) < 2 ^ 32" if "same_base ?S s" for s
    using that by (simp add: same_base_def sample_store_def)
  obtain t where t: "process_until_empty ?E ?S = Some (t, Inr ())" "store_inv ?E ?W t" "settled t"
    using honest_run [OF inv(1) sample_honest [OF ok] conjI [OF c]] small \<open>same_base ?S ?S\<close> by blast
  have bt: "same_base ?S t" using mp [OF run_base [OF t(1)] inv(1)] by simp
  let ?w1 = "w\<lparr>wk_store := t, wk_running := False, wk_failed := False\<rparr>"
  have r1: "worker_reachable ?E ?W ?w1"
    using reachable_steps [OF w(1)] mp [OF mp [OF spec [OF run_steps [OF t(1)], of w] w(4)] w(2)] by simp
  let ?w2 = "?w1\<lparr>wk_signals := 0, wk_running := True, wk_failed := False\<rparr>"
  have r2: "worker_reachable ?E ?W ?w2" using reachable_step [OF r1 worker_step.start [of ?w1 ?E ?W]] w(3) by simp
  have mt: "mirrors (we_xdr ?E) t" using worker_mirrors [OF r1 sample_one_signature] by simp
  have "unprocessed t = []" using t(3) by (simp add: settled_def unprocessed_def filter_empty_conv)
  then obtain u where u: "process_until_empty ?E t = Some (u, Inr ())"
    using quiet_run [OF t(2) conjI [OF sample_candidates_ok [OF ok bt mt]] small [OF bt]] by blast
  have bu: "same_base ?S u" using mp [OF run_base [OF u] t(2)] bt by (simp add: same_base_def)
  let ?w3 = "?w2\<lparr>wk_store := u, wk_running := False, wk_failed := False\<rparr>"
  have "worker_reachable ?E ?W ?w3"
    using reachable_steps [OF r2] mp [OF mp [OF spec [OF run_steps [OF u], of ?w2]]] by simp
  then show ?thesis using bu by (intro exI [of _ ?w3]) simp
qed

text \<open>What the tables of the idle worker hold.\<close>

lemma singleton_list: "distinct (map f xs) \<Longrightarrow> (\<And>x. x \<in> set xs \<Longrightarrow> f x = k) \<Longrightarrow> xs \<noteq> [] \<Longrightarrow> \<exists>x. xs = [x]"
  by (cases xs rule: remdups_adj.cases) auto

definition sample_tables :: "field \<Rightarrow> field \<Rightarrow> byte list \<Rightarrow> field \<Rightarrow> local_store \<Rightarrow> bool" where
  "sample_tables cm leaf enc nullifier s \<longleftrightarrow>
     (\<exists>i. ls_commitments s = [\<lparr>cr_id = i, cr_commitment = cm, cr_leaf_index = 0, cr_encrypted_output = enc, cr_event = ''e1''\<rparr>] \<and>
        ls_user_notes s = [\<lparr>ur_id = cm, ur_account = 1, ur_commitment_id = i, ur_nullifier_id = None, ur_expected_nullifier = nullifier,
          ur_blinding = F_ONE, ur_amount = NoteAmount 5\<rparr>]) \<and>
     ls_asp_leaves s = [\<lparr>lr_leaf_index = 0, lr_leaf = leaf, lr_root = F_ONE, lr_event = ''e2''\<rparr>] \<and> ls_nullifiers s = [] \<and> ls_public_keys s = []"

lemma sample_idle_tables:
  assumes ok: "sample_ok sk pk esk blinding leaf cm enc nullifier"
    and "worker_reachable (sample_env cm enc leaf) sample_signatures w" "\<not> wk_running w" "wk_signals w = 0" "\<not> wk_failed w"
    and "same_base (sample_store sk pk esk blinding) (wk_store w)"
  shows "sample_tables cm leaf enc nullifier (wk_store w)"
proof -
  let ?E = "sample_env cm enc leaf" and ?s = "wk_store w"
  have s: "store_inv ?E sample_signatures ?s" "settled ?s" "mirrors (we_xdr ?E) ?s"
    using worker_reachable_inv [OF assms(2) sample_one_signature] worker_mirrors [OF assms(2) sample_one_signature] assms(3-5) by (simp_all add: worker_inv_def)
  have inv: "chain_ok ?s" "notes_ok ?s" "notes_derived (worker_derive plain_env) ?s"
    "scanned (worker_derive plain_env) (get_accounts_with_latest_keypairs ?s) ?s" "events_ok ?s"
    using s(1) by (simp_all add: store_inv_def loop_inv_def scan_inv_def)
  let ?c = "Commitment \<lparr>me_id = ''e1'', me_commitment = cm, me_index = 0, me_encrypted_output = enc\<rparr>"
    and ?l = "LeafAdded \<lparr>le_id = ''e2'', le_leaf = leaf, le_index = 0, le_root = F_ONE\<rparr>"
  have "\<forall>r \<in> set (ls_events ?s). processed ?s (er_id r)" using s(2) by (simp add: settled_def)
  from settled_mirror [OF inv(5) s(3) this]
  have "Inr ` table_events ?s = set (map (\<lambda>r. parse_event (we_xdr ?E) (view ?s r)) (ls_events ?s))" by simp
  then have "(Inr :: _ \<Rightarrow> event_error fault + processed_event) ` table_events ?s = Inr ` {?c, ?l}"
    unfolding sample_parses [OF ok assms(6)] by simp
  then have te: "table_events ?s = {?c, ?l}" by (simp only: inj_image_eq_iff [OF inj_Inr])
  have nul: "ls_nullifiers ?s = []"
  proof (rule ccontr)
    assume "ls_nullifiers ?s \<noteq> []"
    then obtain n where "n \<in> set (ls_nullifiers ?s)" by fastforce
    then have "Nullifier \<lparr>ne_id = nr_event n, ne_nullifier = nr_nullifier n\<rparr> \<in> table_events ?s" by (simp add: table_events_def)
    then show False using te by simp
  qed
  have pks: "ls_public_keys ?s = []"
  proof (rule ccontr)
    assume "ls_public_keys ?s \<noteq> []"
    then obtain k where "k \<in> set (ls_public_keys ?s)" by fastforce
    then have "PublicKey \<lparr>ke_id = pr_event k, ke_owner = pr_owner k, ke_encryption_key = pr_encryption_key k, ke_note_key = pr_note_key k\<rparr> \<in> table_events ?s"
      by (simp add: table_events_def)
    then show False using te by simp
  qed
  have row: "cr_commitment c = cm \<and> cr_leaf_index c = 0 \<and> cr_encrypted_output c = enc \<and> cr_event c = ''e1''" if "c \<in> set (ls_commitments ?s)" for c
  proof -
    have "Commitment \<lparr>me_id = cr_event c, me_commitment = cr_commitment c, me_index = cr_leaf_index c, me_encrypted_output = cr_encrypted_output c\<rparr> \<in>
      table_events ?s" using that by (simp add: table_events_def)
    then show ?thesis using te by simp
  qed
  have "?c \<in> table_events ?s" "?l \<in> table_events ?s" using te by simp_all
  then have ne: "ls_commitments ?s \<noteq> []" "ls_asp_leaves ?s \<noteq> []" by (auto simp: table_events_def)
  obtain c where c: "ls_commitments ?s = [c]"
    using singleton_list [of cr_commitment "ls_commitments ?s" cm] ne(1) row inv(1) by (auto simp: chain_ok_def)
  have leaf: "lr_leaf_index l = 0 \<and> lr_leaf l = leaf \<and> lr_root l = F_ONE \<and> lr_event l = ''e2''" if "l \<in> set (ls_asp_leaves ?s)" for l
  proof -
    have "LeafAdded \<lparr>le_id = lr_event l, le_leaf = lr_leaf l, le_index = lr_leaf_index l, le_root = lr_root l\<rparr> \<in> table_events ?s"
      using that by (simp add: table_events_def)
    then show ?thesis using te by simp
  qed
  obtain l where l: "ls_asp_leaves ?s = [l]"
    using singleton_list [of lr_event "ls_asp_leaves ?s" "''e2''"] ne(2) leaf inv(1) by (auto simp: chain_ok_def)
  have own: "ur_id n = cm \<and> ur_account n = 1 \<and> ur_commitment_id n = cr_id c \<and> ur_nullifier_id n = None \<and> ur_expected_nullifier n = nullifier \<and>
      ur_blinding n = F_ONE \<and> ur_amount n = NoteAmount 5" if n: "n \<in> set (ls_user_notes ?s)" for n
  proof -
    obtain a c' d where d: "keyed ?s a" "ak_account_id a = ur_account n" "c' \<in> set (ls_commitments ?s)" "cr_id c' = ur_commitment_id n"
      "worker_derive plain_env a c' = Inr (Some d)" "ur_amount n = dn_amount d" "ur_blinding n = dn_blinding d"
      "ur_expected_nullifier n = dn_expected_nullifier d" using inv(3) n unfolding notes_derived_def note_derived_def by metis
    have a: "ak_account_id a = 1" "ak_note_keypair a = sample_note_keys sk pk" "ak_encryption_keypair a = sample_keys esk"
      using d(1) assms(6) by (auto simp: keyed_def same_base_def sample_store_def)
    have "d = \<lparr>dn_amount = NoteAmount 5, dn_blinding = F_ONE, dn_expected_nullifier = nullifier\<rparr>"
      using d(5) row [OF d(3)] ok by (simp add: worker_derive_def a sample_keys_def sample_ok_def)
    moreover have "note_ok ?s n" using inv(2) n by (simp add: notes_ok_def)
    then have "ur_id n = cm" "ur_nullifier_id n = None" using nul row by (auto simp: note_ok_def)
    ultimately show ?thesis using d(2,3,4,6-8) a(1) c by simp
  qed
  have "ls_user_notes ?s \<noteq> []"
  proof -
    let ?a = "\<lparr>ak_account_id = 1, ak_note_keypair = sample_note_keys sk pk, ak_encryption_keypair = sample_keys esk, ak_membership_blinding = blinding\<rparr>"
    have "worker_derive plain_env ?a c = Inr (Some \<lparr>dn_amount = NoteAmount 5, dn_blinding = F_ONE, dn_expected_nullifier = nullifier\<rparr>)"
      using ok row [of c] c by (simp add: worker_derive_def sample_keys_def sample_ok_def)
    then show ?thesis using settled_notes(1) [OF s(1,2)] c by (auto simp: sample_accounts [OF assms(6)])
  qed
  then obtain n where n: "ls_user_notes ?s = [n]"
    using singleton_list [of ur_id "ls_user_notes ?s" cm] own inv(2) by (auto simp: notes_ok_def)
  have "c = \<lparr>cr_id = cr_id c, cr_commitment = cm, cr_leaf_index = 0, cr_encrypted_output = enc, cr_event = ''e1''\<rparr>" using row [of c] c by simp
  moreover have "n = \<lparr>ur_id = cm, ur_account = 1, ur_commitment_id = cr_id c, ur_nullifier_id = None, ur_expected_nullifier = nullifier,
      ur_blinding = F_ONE, ur_amount = NoteAmount 5\<rparr>" using own [of n] n by simp
  moreover have "l = \<lparr>lr_leaf_index = 0, lr_leaf = leaf, lr_root = F_ONE, lr_event = ''e2''\<rparr>" using leaf [of l] l by simp
  ultimately show ?thesis unfolding sample_tables_def c n l nul pks by (intro conjI exI [of _ "cr_id c"]) simp_all
qed

lemma sample_run:
  obtains sk pk esk blinding leaf cm enc nullifier w where "sample_ok sk pk esk blinding leaf cm enc nullifier"
    "worker_reachable (sample_env cm enc leaf) sample_signatures w" "\<not> wk_running w" "wk_signals w = 0" "\<not> wk_failed w"
    "same_base (sample_store sk pk esk blinding) (wk_store w)" "sample_tables cm leaf enc nullifier (wk_store w)"
proof -
  obtain sk pk esk blinding leaf cm enc nullifier where ok: "sample_ok sk pk esk blinding leaf cm enc nullifier" using sample_exists by blast
  obtain w where w: "worker_reachable (sample_env cm enc leaf) sample_signatures w" "\<not> wk_running w" "wk_signals w = 0" "\<not> wk_failed w"
    "same_base (sample_store sk pk esk blinding) (wk_store w)" using sample_idle [OF ok] by blast
  show thesis using that [OF ok w sample_idle_tables [OF ok w]] .
qed

section \<open>A second event for the commitment\<close>

definition dup_row :: "string \<Rightarrow> event_row" where
  "dup_row e = \<lparr>er_id = e, er_ledger = 9, er_contract = 1, er_topics = ''c0,c1'', er_value = ''dv''\<rparr>"

lemma sample_duplicate:
  assumes "sample_ok sk pk esk blinding leaf cm enc nullifier" "worker_reachable (sample_env cm enc leaf) sample_signatures w"
    and "same_base (sample_store sk pk esk blinding) (wk_store w)"
  shows "\<exists>v. worker_reachable (sample_env cm enc leaf) sample_signatures v \<and>
    wk_store v = (wk_store w)\<lparr>ls_events := ls_events (wk_store w) @ [dup_row ''e3'']\<rparr>"
proof -
  let ?s = "(wk_store w)\<lparr>ls_events := ls_events (wk_store w) @ [dup_row ''e3'']\<rparr>"
  have b: "ls_contracts (wk_store w) = [(1, ''P''), (2, ''A'')]" "ls_events (wk_store w) = sample_events"
    using assms(3) by (simp_all add: same_base_def sample_store_def)
  have "save_events_batch [commitment_call ''e3'' 9 ''dv''] (wk_store w) = ?s"
    by (simp add: get_or_create_contract_id_def address_id_def commitment_call_def b sample_events_def dup_row_def Let_def)
  then have "router (sample_env cm enc leaf) (SaveEvents [commitment_call ''e3'' 9 ''dv'']) [] w = (kick_processor (w\<lparr>wk_store := ?s\<rparr>), Inr (Saved, []))"
    by (simp add: router_def)
  then have "worker_step (sample_env cm enc leaf) sample_signatures w (kick_processor (w\<lparr>wk_store := ?s\<rparr>))"
    by (rule worker_step.request [rotated]) simp
  from reachable_step [OF assms(2) this] show ?thesis by (intro exI [of _ "kick_processor (w\<lparr>wk_store := ?s\<rparr>)"]) (simp add: kick_processor_def)
qed

lemma sample_duplicate_parse:
  assumes "sample_ok sk pk esk blinding leaf cm enc nullifier" "same_base (sample_store sk pk esk blinding) s"
  shows "parse_event (we_xdr (sample_env cm enc leaf)) (view (s\<lparr>ls_events := ls_events s @ [dup_row ''e3'']\<rparr>) (dup_row ''e3'')) =
    Inr (Commitment \<lparr>me_id = ''e3'', me_commitment = cm, me_index = 1, me_encrypted_output = enc\<rparr>)"
proof -
  have "view (s\<lparr>ls_events := ls_events s @ [dup_row ''e3'']\<rparr>) (dup_row ''e3'') = commitment_call ''e3'' 9 ''dv''"
    using assms(2) by (simp add: view_def dup_row_def same_base_def sample_store_def id_address_def commitment_call_def)
  then show ?thesis using parse_commitment_call [of cm "''dv''" 1] assms(1) by (simp add: sample_ok_def)
qed

end
