(* ===== verification/Sync.thy ===== *)
theory Sync imports SampleRun Encoding begin

text \<open>
  What holds of the storage worker from its start: the notes it lists, the tables of an idle worker, the
  end of its processing loop, the events it never gets past, and the transactions it prepares.
\<close>

section \<open>Notes\<close>

text \<open>
  Property C6: at every moment each listed note was decrypted from its commitment with keys derived from a signature of the
  owner, opens that commitment, is listed once, and is spent only by its own nullifier in its own pool.
\<close>

theorem worker_notes_invariant:
  assumes "worker_reachable env W w" "one_signature W" "wk_store w = s"
  shows "distinct (map ur_commitment_id (ls_user_notes s)) \<and> distinct (map ur_id (ls_user_notes s)) \<and>
    (\<forall>n \<in> set (ls_user_notes s).
       (\<exists>c \<in> set (ls_commitments s). \<exists>k \<in> set (ls_keypairs s). \<exists>address sig d. cr_id c = ur_commitment_id n \<and> cr_commitment c = ur_id n \<and>
          kr_account k = ur_account n \<and> (ur_account n, address) \<in> set (ls_accounts s) \<and> (address, sig) \<in> W \<and>
          derive_encryption_and_note_keypairs (we_crypto env) sig = Inr (kr_note k, kr_encryption k) \<and>
          try_decrypt_and_derive_user_note (we_crypto env) (kr_note k) (ek_private (kr_encryption k)) (ur_id n) (cr_leaf_index c)
            (cr_encrypted_output c) = Inr (Some d) \<and>
          ur_amount n = dn_amount d \<and> ur_blinding n = dn_blinding d \<and> ur_expected_nullifier n = dn_expected_nullifier d) \<and>
       (\<forall>i. ur_nullifier_id n = Some i \<longrightarrow> (\<exists>r \<in> set (ls_nullifiers s). nr_id r = i \<and> nr_nullifier r = ur_expected_nullifier n \<and>
          contract_of s (nr_event r) = note_contract s n)))"
proof -
  have s: "store_inv env W s" using reachable_store [OF assms(1,2)] assms(3) by simp
  have inv: "chain_ok s" "notes_ok s" "notes_derived (worker_derive (we_crypto env)) s" "keys_of (we_crypto env) W s"
    using s by (simp_all add: store_inv_def loop_inv_def scan_inv_def)
  have names: "names_ok (ls_accounts s)" using s by (simp add: store_inv_def events_ok_def)
  have own: "\<exists>c \<in> set (ls_commitments s). \<exists>k \<in> set (ls_keypairs s). \<exists>address sig d. cr_id c = ur_commitment_id n \<and> cr_commitment c = ur_id n \<and>
      kr_account k = ur_account n \<and> (ur_account n, address) \<in> set (ls_accounts s) \<and> (address, sig) \<in> W \<and>
      derive_encryption_and_note_keypairs (we_crypto env) sig = Inr (kr_note k, kr_encryption k) \<and>
      try_decrypt_and_derive_user_note (we_crypto env) (kr_note k) (ek_private (kr_encryption k)) (ur_id n) (cr_leaf_index c)
        (cr_encrypted_output c) = Inr (Some d) \<and>
      ur_amount n = dn_amount d \<and> ur_blinding n = dn_blinding d \<and> ur_expected_nullifier n = dn_expected_nullifier d"
    if n: "n \<in> set (ls_user_notes s)" for n
  proof -
    obtain a c d where d: "keyed s a" "ak_account_id a = ur_account n" "c \<in> set (ls_commitments s)" "cr_id c = ur_commitment_id n"
      "worker_derive (we_crypto env) a c = Inr (Some d)" "ur_amount n = dn_amount d" "ur_blinding n = dn_blinding d"
      "ur_expected_nullifier n = dn_expected_nullifier d" using inv(3) n unfolding notes_derived_def note_derived_def by metis
    obtain k where k: "k \<in> set (ls_keypairs s)" "kr_account k = ur_account n" "kr_note k = ak_note_keypair a" "kr_encryption k = ak_encryption_keypair a"
      using d(1,2) unfolding keyed_def by auto
    obtain address sig where sig: "(kr_account k, address) \<in> set (ls_accounts s)" "(address, sig) \<in> W"
      "derive_encryption_and_note_keypairs (we_crypto env) sig = Inr (kr_note k, kr_encryption k)" using inv(4) k(1) unfolding keys_of_def by metis
    obtain c' where c': "c' \<in> set (ls_commitments s)" "cr_id c' = ur_commitment_id n" "cr_commitment c' = ur_id n"
      using inv(2) n unfolding notes_ok_def note_ok_def by blast
    have "c' = c" using commitment_id_unique [OF inv(1) c'(1) d(3)] c'(2) d(4) by simp
    then show ?thesis using d k sig c' by (intro bexI [of _ c] bexI [of _ k] exI [of _ address] exI [of _ sig] exI [of _ d])
      (simp_all add: worker_derive_def)
  qed
  show ?thesis using inv(2) own note_ok_spent unfolding notes_ok_def by blast
qed

theorem worker_notes_invariant_witness:
  "\<exists>env W w. worker_reachable env W w \<and> ls_user_notes (wk_store w) \<noteq> [] \<and> distinct (map ur_commitment_id (ls_user_notes (wk_store w)))"
proof -
  obtain sk pk esk blinding leaf cm enc nullifier w where w: "sample_ok sk pk esk blinding leaf cm enc nullifier"
    "worker_reachable (sample_env cm enc leaf) sample_signatures w" "\<not> wk_running w" "wk_signals w = 0" "\<not> wk_failed w"
    "same_base (sample_store sk pk esk blinding) (wk_store w)" "sample_tables cm leaf enc nullifier (wk_store w)" by (rule sample_run)
  have "ls_user_notes (wk_store w) \<noteq> []" using w(7) by (auto simp: sample_tables_def)
  with worker_notes_invariant [OF w(2) sample_one_signature refl] w(2) show ?thesis by blast
qed

section \<open>Idle workers\<close>

text \<open>
  Property C5: in an idle worker whose last run did not fail, the tables of the chain are exactly what the saved events parse
  to, every note an account can decrypt is listed, and the spent notes are those whose nullifier their pool has published.
\<close>

theorem idle_worker_in_sync:
  assumes "worker_reachable env W w" "one_signature W" "\<not> wk_running w" "wk_signals w = 0" "\<not> wk_failed w" "wk_store w = s"
  shows "(\<lambda>r. parse_event (we_xdr env) (view s r)) ` set (ls_events s) = Inr ` table_events s \<and>
    (\<forall>a \<in> set (get_accounts_with_latest_keypairs s). \<forall>c \<in> set (ls_commitments s). \<forall>d.
      worker_derive (we_crypto env) a c = Inr (Some d) \<longrightarrow>
      (\<exists>n \<in> set (ls_user_notes s). ur_commitment_id n = cr_id c \<or> ur_expected_nullifier n = dn_expected_nullifier d)) \<and>
    (\<forall>n \<in> set (ls_user_notes s). ur_nullifier_id n \<noteq> None \<longleftrightarrow>
      (\<exists>r \<in> set (ls_nullifiers s). contract_of s (nr_event r) = note_contract s n \<and> nr_nullifier r = ur_expected_nullifier n))"
proof -
  have s: "store_inv env W s" "settled s" using worker_reachable_inv [OF assms(1,2)] assms(3-6) by (simp_all add: worker_inv_def)
  have "mirrors (we_xdr env) s" using worker_mirrors [OF assms(1,2)] assms(6) by simp
  moreover have "\<forall>r \<in> set (ls_events s). processed s (er_id r)" using s(2) by (simp add: settled_def)
  ultimately show ?thesis using settled_mirror [of s "we_xdr env"] settled_notes [OF s] store_inv_ok [OF s(1)] by (intro conjI) simp_all
qed

theorem idle_worker_in_sync_witness:
  "\<exists>env W w. worker_reachable env W w \<and> \<not> wk_running w \<and> length (ls_events (wk_store w)) = 2 \<and>
    (\<lambda>r. parse_event (we_xdr env) (view (wk_store w) r)) ` set (ls_events (wk_store w)) = Inr ` table_events (wk_store w)"
proof -
  obtain sk pk esk blinding leaf cm enc nullifier w where w: "sample_ok sk pk esk blinding leaf cm enc nullifier"
    "worker_reachable (sample_env cm enc leaf) sample_signatures w" "\<not> wk_running w" "wk_signals w = 0" "\<not> wk_failed w"
    "same_base (sample_store sk pk esk blinding) (wk_store w)" "sample_tables cm leaf enc nullifier (wk_store w)" by (rule sample_run)
  have "length (ls_events (wk_store w)) = 2" using w(6) by (simp add: same_base_def sample_store_def sample_events_def)
  with idle_worker_in_sync [OF w(2) sample_one_signature w(3-5) refl] w(2,3) show ?thesis by blast
qed

section \<open>The end of the loop\<close>

text \<open>
  Property C9: when every event that waits parses to a new entry of its table, the loop comes to an end, and the worker reaches that
  state by its own steps. If it ends without an error nothing is left to process; and it ends without an error if every account can
  read the output of every commitment, stored or waiting (at least 120 bytes, and an amount and blinding if it decrypts at all),
  and no two notes found with stored keys have the same nullifier.
\<close>

theorem sync_completes:
  assumes "worker_reachable env W w" "one_signature W" "wk_running w" "honest (we_xdr env) (wk_store w)"
  shows "\<exists>t r. process_until_empty env (wk_store w) = Some (t, r) \<and>
    (worker_step env W)\<^sup>*\<^sup>* w (w\<lparr>wk_store := t, wk_running := False, wk_failed := (r \<noteq> Inr ())\<rparr>) \<and>
    (r = Inr () \<longrightarrow> unprocessed t = []) \<and>
    (outputs_readable env (wk_store w) \<and> \<not> nullifiers_collide env (wk_store w) \<and> length (ls_contracts (wk_store w)) < 2 ^ 32 \<longrightarrow> r = Inr ())"
proof -
  obtain t r where t: "process_until_empty env (wk_store w) = Some (t, r)" "r = Inr () \<longrightarrow> settled t"
    "candidates_ok env (wk_store w) \<longrightarrow> length (ls_contracts (wk_store w)) < 2 ^ 32 \<longrightarrow> r = Inr ()"
    using honest_run_ends [OF reachable_store [OF assms(1,2)] assms(4)] by blast
  have "(\<exists>e. r = Inl e) = (r \<noteq> Inr ())" by (cases r) auto
  then have "(worker_step env W)\<^sup>*\<^sup>* w (w\<lparr>wk_store := t, wk_running := False, wk_failed := (r \<noteq> Inr ())\<rparr>)"
    using mp [OF mp [OF spec [OF run_steps [OF t(1)], of w] refl] assms(3)] by simp
  moreover have "r = Inr () \<longrightarrow> unprocessed t = []" using t(2) by (auto simp: settled_def unprocessed_def filter_empty_conv)
  ultimately show ?thesis using t(1,3) by blast
qed

theorem sync_completes_witness:
  "\<exists>env W w t. worker_reachable env W w \<and> length (unprocessed (wk_store w)) = 2 \<and> outputs_readable env (wk_store w) \<and>
    process_until_empty env (wk_store w) = Some (t, Inr ()) \<and> unprocessed t = [] \<and>
    worker_reachable env W (w\<lparr>wk_store := t, wk_running := False, wk_failed := False\<rparr>)"
proof -
  obtain sk pk esk blinding leaf cm enc nullifier where ok: "sample_ok sk pk esk blinding leaf cm enc nullifier" using sample_exists by blast
  let ?S = "sample_store sk pk esk blinding" and ?E = "sample_env cm enc leaf"
  obtain w where w: "worker_reachable ?E sample_signatures w" "wk_running w" "wk_store w = ?S" using sample_reachable [OF ok] by blast
  have b: "same_base ?S ?S" by (simp add: same_base_def)
  have m: "mirrors (we_xdr ?E) ?S" using worker_mirrors [OF w(1) sample_one_signature] w(3) by simp
  have "length (ls_contracts ?S) < 2 ^ 32" by (simp add: sample_store_def)
  moreover note c = sample_candidates_ok [OF ok b m]
  ultimately obtain t where t: "process_until_empty ?E ?S = Some (t, Inr ())" "unprocessed t = []"
    "(worker_step ?E sample_signatures)\<^sup>*\<^sup>* w (w\<lparr>wk_store := t, wk_running := False, wk_failed := False\<rparr>)"
    using sync_completes [OF w(1) sample_one_signature w(2), unfolded w(3), OF sample_honest [OF ok]] by auto
  have "length (unprocessed ?S) = 2"
    by (simp add: unprocessed_def sample_store_def sample_events_def processed_def connect_def)
  then show ?thesis using t w(1,3) c(1) reachable_steps [OF w(1) t(3)]
    by (intro exI [of _ ?E] exI [of _ sample_signatures] exI [of _ w] exI [of _ t]) simp
qed

section \<open>Events nothing gets past\<close>

lemma log_blocked:
  assumes "log_extends s t" "events_ok s" "blocked x s row"
  shows "blocked x t row"
proof -
  obtain cs es where t: "ls_contracts t = ls_contracts s @ cs" "ls_events t = ls_events s @ es" using assms(1) unfolding log_extends_def by blast
  have tables: "processed t = processed s" "taken t k = taken s k" for k
    using assms(1) by (simp_all add: log_extends_def processed_def fun_eq_iff) (cases k; simp add: log_extends_def)
  have row: "row \<in> set (unprocessed s)" using assms(3) by (simp add: blocked_def)
  then have "row \<in> set (ls_events s)" by (simp add: unprocessed_def)
  moreover have "row \<in> set (unprocessed t)" using row t(2) by (auto simp: unprocessed_def tables)
  ultimately show ?thesis using assms(3) view_extends [OF assms(2) t(1)] tables by (simp add: blocked_def cong: option.case_cong)
qed

lemma blocked_step:
  assumes "store_inv env W (wk_store w)" "worker_step env W w w'" "blocked (we_xdr env) (wk_store w) row"
  shows "blocked (we_xdr env) (wk_store w') row"
  using assms(2)
proof cases
  case (request req rng r)
  have "events_ok (wk_store w)" using store_inv_ok [OF assms(1)] by blast
  from log_blocked [OF router_log [OF this request(2)] this assms(3)] show ?thesis .
next
  case (turn s' r)
  then show ?thesis using blocked_turn [OF assms(1) turn(3) assms(3)] by simp
qed (use assms(3) in simp)

text \<open>
  Property C11: an event that does not parse, has no table, or whose commitment, nullifier or leaf index is stored already is
  never processed: no step of the worker changes that, and no run of the loop ends without an error.
\<close>

theorem blocked_event_stalls:
  assumes "worker_reachable env W w" "one_signature W" "(worker_step env W)\<^sup>*\<^sup>* w w'"
    and "r \<in> set (ls_events (wk_store w))" "\<not> processed (wk_store w) (er_id r)"
    and "case table_key_of (we_xdr env) (view (wk_store w) r) of None \<Rightarrow> True | Some k \<Rightarrow> taken (wk_store w) k"
  shows "\<not> processed (wk_store w') (er_id r) \<and> process_until_empty env (wk_store w') \<noteq> Some (t, Inr ())"
proof -
  have b: "blocked (we_xdr env) (wk_store w) r" using assms(4-6) by (simp add: blocked_def unprocessed_def)
  have "blocked (we_xdr env) (wk_store w') r \<and> worker_reachable env W w'"
    using assms(3)
  proof (induction rule: rtranclp_induct)
    case base
    then show ?case using b assms(1) by simp
  next
    case (step u v)
    then show ?case using blocked_step [OF reachable_store [OF _ assms(2)] step.hyps(2)] reachable_step by blast
  qed
  then have b': "blocked (we_xdr env) (wk_store w') r" "store_inv env W (wk_store w')" using reachable_store [OF _ assms(2)] by auto
  have "process_until_empty env (wk_store w') \<noteq> Some (t, Inr ())"
  proof
    assume "process_until_empty env (wk_store w') = Some (t, Inr ())"
    from blocked_run [OF this, of W r] show False using b' by simp
  qed
  then show ?thesis using b'(1) by (simp add: blocked_def unprocessed_def)
qed

theorem blocked_event_stalls_witness:
  "\<exists>env (w :: worker) r. r \<in> set (ls_events (wk_store w)) \<and> \<not> processed (wk_store w) (er_id r) \<and>
    (\<forall>t. process_until_empty env (wk_store w) \<noteq> Some (t, Inr ()))"
proof -
  obtain sk pk esk blinding leaf cm enc nullifier w where w: "sample_ok sk pk esk blinding leaf cm enc nullifier"
    "worker_reachable (sample_env cm enc leaf) sample_signatures w" "\<not> wk_running w" "wk_signals w = 0" "\<not> wk_failed w"
    "same_base (sample_store sk pk esk blinding) (wk_store w)" "sample_tables cm leaf enc nullifier (wk_store w)" by (rule sample_run)
  obtain v where v: "worker_reachable (sample_env cm enc leaf) sample_signatures v" "wk_store v = (wk_store w)\<lparr>ls_events := ls_events (wk_store w) @ [dup_row ''e3'']\<rparr>"
    using sample_duplicate [OF w(1,2,6)] by blast
  let ?r = "dup_row ''e3''" and ?s = "(wk_store w)\<lparr>ls_events := ls_events (wk_store w) @ [dup_row ''e3'']\<rparr>"
  have p: "\<not> processed ?s (er_id ?r)" using w(7) by (auto simp: processed_def sample_tables_def dup_row_def)
  have "table_key_of (we_xdr (sample_env cm enc leaf)) (view ?s ?r) = Some (CommitmentKey cm)"
    using sample_duplicate_parse [OF w(1,6)] by (simp add: table_key_of_def)
  moreover have "taken ?s (CommitmentKey cm)" using w(7) by (auto simp: sample_tables_def)
  ultimately have "\<not> processed (wk_store v) (er_id ?r) \<and> process_until_empty (sample_env cm enc leaf) (wk_store v) \<noteq> Some (t, Inr ())" for t
    using p by (intro blocked_event_stalls [OF v(1) sample_one_signature rtranclp.rtrancl_refl]) (simp_all add: v(2))
  then show ?thesis by (intro exI [of _ "sample_env cm enc leaf"] exI [of _ v] exI [of _ ?r]) (simp add: v(2))
qed

lemma find_key_in: "distinct (map f xs) \<Longrightarrow> x \<in> set xs \<Longrightarrow> find (\<lambda>y. f y = f x) xs = Some x"
  by (induction xs) auto

text \<open>A second event for a stored commitment.\<close>

lemma duplicate_blocked:
  assumes "events_ok s" "mirrors x s" "r \<in> set (ls_events s)" "parse_event x (view s r) = Inr (Commitment ev)"
    and "c \<in> set (ls_commitments s)" "cr_commitment c = me_commitment ev" "cr_event c \<noteq> er_id r" "chain_ok s"
  shows "\<not> processed s (er_id r)" "taken s (CommitmentKey (me_commitment ev))" "cr_event c' = er_id r \<Longrightarrow> c' \<notin> set (ls_commitments s)"
proof -
  have no: "c' \<notin> set (ls_commitments s)" if e: "cr_event c' = er_id r" for c'
  proof
    assume c': "c' \<in> set (ls_commitments s)"
    let ?p = "Commitment \<lparr>me_id = cr_event c', me_commitment = cr_commitment c', me_index = cr_leaf_index c', me_encrypted_output = cr_encrypted_output c'\<rparr>"
    have "?p \<in> table_events s" using c' by (simp add: table_events_def)
    then obtain r' where r': "r' \<in> set (ls_events s)" "parse_event x (view s r') = Inr ?p" using assms(2) unfolding mirrors_def by blast
    then have "er_id r' = er_id r" using parse_event_id [OF r'(2)] e by (simp add: view_def)
    then have "r' = r" using r'(1) assms(1,3) by (auto simp: events_ok_def distinct_map dest: inj_onD)
    then have "cr_commitment c' = me_commitment ev" using r'(2) assms(4) by auto
    then have "c' = c" using commitment_unique [OF assms(8) c' assms(5)] assms(6) by simp
    then show False using e assms(7) by simp
  qed
  show "taken s (CommitmentKey (me_commitment ev))" using assms(5,6) by force
  show "cr_event c' = er_id r \<Longrightarrow> c' \<notin> set (ls_commitments s)" by (rule no)
  show "\<not> processed s (er_id r)"
  proof
    assume "processed s (er_id r)"
    then obtain p where p: "p \<in> table_events s" "processed_id p = er_id r" unfolding processed_table by force
    obtain r' where r': "r' \<in> set (ls_events s)" "parse_event x (view s r') = Inr p" using assms(2) p(1) unfolding mirrors_def by blast
    then have "er_id r' = er_id r" using parse_event_id [OF r'(2)] p(2) by (simp add: view_def)
    then have "r' = r" using r'(1) assms(1,3) by (auto simp: events_ok_def distinct_map dest: inj_onD)
    then have "p = Commitment ev" using r'(2) assms(4) by simp
    then obtain c' where "c' \<in> set (ls_commitments s)" "cr_event c' = me_id ev" using p(1) by (auto simp: table_events_def)
    then show False using no [of c'] p(2) \<open>p = Commitment ev\<close> by simp
  qed
qed

text \<open>
  Property C10: a commitment that is inserted into a tree twice stops every client: the loop never ends, and no client gets a
  tree for the pool, neither to spend a note nor to disclose one.
\<close>

theorem duplicate_commitment_stops_clients:
  assumes "worker_reachable env W w" "one_signature W" "wk_store w = s"
    and "r \<in> set (ls_events s)" "parse_event (we_xdr env) (view s r) = Inr (Commitment ev)" "cv_contract_id (view s r) = pool"
    and "c \<in> set (ls_commitments s)" "cr_commitment c = me_commitment ev" "cr_event c \<noteq> er_id r"
    and "\<forall>r' \<in> set (ls_events s). \<forall>ev'. parse_event (we_xdr env) (view s r') = Inr (Commitment ev') \<longrightarrow>
      cv_contract_id (view s r') = pool \<longrightarrow> me_index ev' = me_index ev \<longrightarrow> r' = r"
    and "me_index ev < next_index"
  shows "process_until_empty env s \<noteq> Some (t, Inr ()) \<and>
    build_validated_pool_tree pool next_index depth root s \<noteq> Inr (Inl tree)"
proof
  have inv: "store_inv env W s" "events_ok s" "chain_ok s" using reachable_store [OF assms(1,2)] assms(3) store_inv_ok by auto
  have mir: "mirrors (we_xdr env) s" using worker_mirrors [OF assms(1,2)] assms(3) by simp
  note dup = duplicate_blocked [OF inv(2) mir assms(4,5,7-9) inv(3)]
  have b: "blocked (we_xdr env) s r" using dup(1,2) assms(4) table_key_simps(2) [OF assms(5)] by (simp add: blocked_def unprocessed_def)
  show "process_until_empty env s \<noteq> Some (t, Inr ())"
  proof
    assume "process_until_empty env s = Some (t, Inr ())"
    from blocked_run [OF this, of W r] show False using b inv(1) by simp
  qed
  show "build_validated_pool_tree pool next_index depth root s \<noteq> Inr (Inl tree)"
  proof
    assume "build_validated_pool_tree pool next_index depth root s = Inr (Inl tree)"
    then obtain leaves where l: "get_pool_commitment_leaves_ordered pool s = Inr leaves" "length leaves = unat next_index"
      by (auto simp: build_validated_pool_tree_def andThen_Inr map_err_Inr split: if_splits)
    have m: "mset (map (\<lambda>r. (cr_leaf_index r, cr_commitment r)) (pool_rows s pool)) = mset (indexed_leaves leaves)" "length leaves < 2 ^ 32"
      using l(1) by (simp_all add: pool_leaves_Inr)
    let ?i = "unat (me_index ev)"
    have i: "?i < length leaves" using assms(11) l(2) by (simp add: word_less_nat_alt)
    have "(word_of_nat ?i, leaves ! ?i) \<in> set (indexed_leaves leaves)"
      unfolding indexed_leaves_def set_map using i by (intro image_eqI [of _ _ ?i]) simp_all
    then obtain c' where c': "c' \<in> set (pool_rows s pool)" "cr_leaf_index c' = me_index ev"
      using mset_eq_setD [OF m(1)] by (force simp: image_iff)
    then have row: "c' \<in> set (ls_commitments s)" "from_contract s pool (cr_event c')" by (simp_all add: from_contract_rows)
    let ?p = "Commitment \<lparr>me_id = cr_event c', me_commitment = cr_commitment c', me_index = cr_leaf_index c', me_encrypted_output = cr_encrypted_output c'\<rparr>"
    have "?p \<in> table_events s" using row(1) by (simp add: table_events_def)
    then obtain r' where r': "r' \<in> set (ls_events s)" "parse_event (we_xdr env) (view s r') = Inr ?p" using mir unfolding mirrors_def by blast
    then have id: "er_id r' = cr_event c'" using parse_event_id [OF r'(2)] by (simp add: view_def)
    have "event_of s (cr_event c') = Some r'"
      using find_key_in [of er_id "ls_events s" r'] r'(1) id inv(2) by (simp add: event_of_def events_ok_def)
    then have "cv_contract_id (view s r') = pool" using row(2) by (simp add: from_contract_def contract_of_def view_def)
    then have "r' = r" using assms(10) r' c'(2) by simp
    then show False using dup(3) [of c'] id row(1) by simp
  qed
qed

theorem duplicate_commitment_stops_clients_witness:
  "\<exists>env (w :: worker). length (ls_commitments (wk_store w)) = 1 \<and> (\<forall>t. process_until_empty env (wk_store w) \<noteq> Some (t, Inr ())) \<and>
    (\<forall>depth root tree. build_validated_pool_tree ''P'' 2 depth root (wk_store w) \<noteq> Inr (Inl tree))"
proof -
  obtain sk pk esk blinding leaf cm enc nullifier w where w: "sample_ok sk pk esk blinding leaf cm enc nullifier"
    "worker_reachable (sample_env cm enc leaf) sample_signatures w" "\<not> wk_running w" "wk_signals w = 0" "\<not> wk_failed w"
    "same_base (sample_store sk pk esk blinding) (wk_store w)" "sample_tables cm leaf enc nullifier (wk_store w)" by (rule sample_run)
  let ?x = "we_xdr (sample_env cm enc leaf)" and ?r = "dup_row ''e3''" and ?s = "(wk_store w)\<lparr>ls_events := ls_events (wk_store w) @ [dup_row ''e3'']\<rparr>"
  obtain v where v: "worker_reachable (sample_env cm enc leaf) sample_signatures v" "wk_store v = ?s"
    using sample_duplicate [OF w(1,2,6)] by blast
  note p = sample_duplicate_parse [OF w(1,6)]
  obtain c where c: "ls_commitments ?s = [c]" "cr_commitment c = cm" "cr_event c = ''e1''" using w(7) by (auto simp: sample_tables_def)
  have pool: "cv_contract_id (view ?s ?r) = ''P''"
    using w(6) by (simp add: view_def dup_row_def same_base_def sample_store_def id_address_def)
  have once: "\<forall>r' \<in> set (ls_events ?s). \<forall>ev'. parse_event ?x (view ?s r') = Inr (Commitment ev') \<longrightarrow> cv_contract_id (view ?s r') = ''P'' \<longrightarrow>
      me_index ev' = 1 \<longrightarrow> r' = ?r"
  proof (intro ballI allI impI)
    fix r' ev' assume r': "r' \<in> set (ls_events ?s)" "parse_event ?x (view ?s r') = Inr (Commitment ev')" "me_index ev' = 1"
    show "r' = ?r"
    proof (rule ccontr)
      assume "r' \<noteq> ?r"
      then have "r' \<in> set (ls_events (wk_store w))" using r'(1) by simp
      moreover have "view ?s r' = view (wk_store w) r'" by (simp add: view_def)
      ultimately show False using sample_parse_cases [OF w(1,6), of r'] r'(2,3) by auto
    qed
  qed
  have "process_until_empty (sample_env cm enc leaf) ?s \<noteq> Some (t, Inr ()) \<and> build_validated_pool_tree ''P'' 2 depth root ?s \<noteq> Inr (Inl tree)"
    for t depth root tree
  proof (rule duplicate_commitment_stops_clients [OF v(1) sample_one_signature v(2) _ p pool, of c])
    show "?r \<in> set (ls_events ?s)" "c \<in> set (ls_commitments ?s)" "cr_event c \<noteq> er_id ?r" using c by (simp_all add: dup_row_def)
  qed (use once c(2) in simp_all)
  then show ?thesis using c(1) v(2) by (intro exI [of _ "sample_env cm enc leaf"] exI [of _ v]) (simp add: v(2))
qed

end
