(* ===== verification/Prepare.thy ===== *)
theory Prepare imports Sync begin

text \<open>
  Transactions from the worker to the prover: what the parameters hold that the worker answers a request with, and
  the nullifiers a transaction built from them publishes, which are those the worker waits for.
\<close>

section \<open>Requests\<close>

lemma router_transact:
  "router env (Transact req) rng w = (w', Inr (TransactParamsAre tp, rng')) \<longleftrightarrow>
    w' = w \<and> transact_response req rng (wk_store w) = Inr (TransactParamsAre tp, rng')"
  by (auto simp: router_def Let_def)

section \<open>A request of the sample run\<close>

definition sample_request :: "field \<Rightarrow> transact_request" where
  "sample_request cm = \<lparr>tq_user_address = ''U'', tq_pool_root = Some (Field (tree_root crate_perm [f_val cm] 1)), tq_pool_next_index = 1,
     tq_pool_address = ''P'', tq_ext_recipient = ''P'', tq_ext_amount = EA_ZERO, tq_aspmem_root = F_ONE, tq_aspmem_contract_id = ''A'',
     tq_aspmem_ledger = 8, tq_input_commitments = [cm], tq_output_amounts = (NoteAmount 5, NA_ZERO), tq_out_note_pubkeys = (None, None),
     tq_out_encryption_pubkeys = (None, None), tq_smt_depth = 1, tq_tree_depth = 1, tq_non_membership_proof = run_non_membership\<rparr>"

abbreviation sample_rng :: rng where
  "sample_rng \<equiv> [replicate 32 1, replicate 32 2]"

lemma tree_of_one:
  assumes "f_canonical f"
  shows "prefix_new 1 [f] = Inr \<lparr>pt_depth = 1, pt_leaves = [f], pt_empty = empties 1\<rparr>"
    "prefix_build \<lparr>pt_depth = 1, pt_leaves = [f], pt_empty = empties 1\<rparr> = Inr (built_of [f] 1)"
    "built_root (built_of [f] 1) = Inr (Field (tree_root crate_perm [f_val f] 1))" "\<exists>p. built_proof (built_of [f] 1) 0 = Inr p"
  using prefix_build_ok [of 1 "[f]"] assms built_proof_ok [of 0 "[f]" 1] tree_root_node [of "[f]" 1]
  by (simp_all add: prefix_new_ok built_root_ok del: upt_Suc)

lemma sample_response:
  assumes ok: "sample_ok sk pk esk blinding leaf cm enc nullifier" and base: "same_base (sample_store sk pk esk blinding) s"
    and tables: "sample_tables cm leaf enc nullifier s"
  shows "\<exists>tp. transact_response (sample_request cm) sample_rng s = Inr (TransactParamsAre tp, []) \<and>
    tp_smt_depth tp = 1 \<and> tp_non_membership tp = run_non_membership \<and> tp_ext_amount tp = EA_ZERO \<and> tp_tree_depth tp = 1 \<and>
    map to_amount (tp_outputs tp) = [NoteAmount 5, NA_ZERO] \<and> length (am_path_elements (tp_membership tp)) = 1 \<and>
    (\<forall>out \<in> set (tp_outputs tp). to_recipient_note_pubkey out = None \<and> to_recipient_encryption_pubkey out = None) \<and>
    map ti_amount (tp_inputs tp) = [NoteAmount 5] \<and> (\<forall>i \<in> set (tp_inputs tp). length (ti_path_elements i) = 1) \<and>
    tp_priv_key tp = NotePrivateKey (f_to_le_bytes sk) \<and> tp_encryption_pubkey tp = EncryptionPublicKey (ce_public plain_env esk)"
proof -
  let ?req = "sample_request cm"
  have f: "f_canonical cm" "f_canonical leaf" "asp_membership_leaf (f_to_le_bytes pk) blinding = Inr leaf" using ok by (simp_all add: sample_ok_def)
  have b: "ls_contracts s = [(1, ''P''), (2, ''A'')]" "ls_events s = sample_events" "ls_accounts s = [(1, ''U'')]"
    "ls_indexing s = [\<lparr>sr_contract = 2, sr_cursor = Some ''x'', sr_last_indexed = 8, sr_last_fully_indexed = 8\<rparr>]"
    "ls_keypairs s = [\<lparr>kr_id = 1, kr_note = sample_note_keys sk pk, kr_encryption = sample_keys esk, kr_membership_blinding = blinding, kr_account = 1\<rparr>]"
    using base by (simp_all add: same_base_def sample_store_def)
  obtain i where t: "ls_commitments s = [\<lparr>cr_id = i, cr_commitment = cm, cr_leaf_index = 0, cr_encrypted_output = enc, cr_event = ''e1''\<rparr>]"
    "ls_user_notes s = [\<lparr>ur_id = cm, ur_account = 1, ur_commitment_id = i, ur_nullifier_id = None, ur_expected_nullifier = nullifier,
          ur_blinding = F_ONE, ur_amount = NoteAmount 5\<rparr>]"
    "ls_asp_leaves s = [\<lparr>lr_leaf_index = 0, lr_leaf = leaf, lr_root = F_ONE, lr_event = ''e2''\<rparr>]" using tables by (auto simp: sample_tables_def)
  have orig: "from_contract s ''P'' ''e1''" "from_contract s ''A'' ''e2''"
    by (simp_all add: from_contract_def contract_of_def event_of_def id_address_def b sample_events_def)
  have keys: "load_user_key_material ''U'' s = Inr (NotePrivateKey (f_to_le_bytes sk), NotePublicKey (f_to_le_bytes pk),
      EncryptionPublicKey (ce_public plain_env esk), blinding)"
    by (simp add: load_user_key_material_def get_user_keys_def address_id_def latest_keypair_def b sample_note_keys_def sample_keys_def)
  have pre: "check_asp_membership_precondition ''A'' leaf F_ONE 8 s = Inr (UserIndex 0)"
    by (simp add: check_asp_membership_precondition_def get_sync_metadata_def id_address_def b t orig Let_def)
  have leaves: "get_all_asp_membership_leaves_ordered ''A'' s = Inr [leaf]" "get_pool_commitment_leaves_ordered ''P'' s = Inr [cm]"
    by (simp_all add: get_all_asp_membership_leaves_ordered_def get_pool_commitment_leaves_ordered_def t orig guard_def checked_add_def)
  note lt = tree_of_one [OF f(2)] and ct = tree_of_one [OF f(1)]
  obtain p where p: "built_proof (built_of [leaf] 1) 0 = Inr p" using lt(4) by blast
  obtain q where q: "built_proof (built_of [cm] 1) 0 = Inr q" using ct(4) by blast
  have pq: "length (mp_path_elements p) = 1" "length (mp_path_elements q) = 1"
    using p q built_proof_ok [of 0 "[leaf]" 1] built_proof_ok [of 0 "[cm]" 1] by (auto simp: siblings_def simp del: upt_Suc)
  let ?m = "\<lparr>am_leaf = leaf, am_blinding = blinding, am_path_elements = mp_path_elements p, am_path_indices = mp_path_indices p, am_root = mp_root p\<rparr>"
  have member: "build_membership_proof ''A'' (NotePublicKey (f_to_le_bytes pk)) blinding F_ONE 8 1 s = Inr (Inl ?m)"
    using lt p by (simp add: build_membership_proof_def note_public_bytes_def f(3) pre leaves map_err_def)
  let ?i = "\<lparr>ti_amount = NoteAmount 5, ti_blinding = F_ONE, ti_path_elements = mp_path_elements q, ti_path_indices = mp_path_indices q\<rparr>"
  have unspent: "get_unspent_user_note_by_commitment ''P'' ''U'' cm s = Some (NoteAmount 5, F_ONE, 0)"
    by (simp add: get_unspent_user_note_by_commitment_def t orig b id_address_def)
  have inputs: "build_pool_inputs ''U'' ''P'' 1 1 (Field (tree_root crate_perm [f_val cm] 1)) [cm] s = Inr (Inl [?i])"
    using ct q by (simp add: build_pool_inputs_def build_validated_pool_tree_def build_pool_input_note_def leaves unspent map_err_def)
  obtain b1 b2 where outs: "output_notes ?req sample_rng = Inr (Inl ([\<lparr>to_amount = NoteAmount 5, to_blinding = b1, to_recipient_note_pubkey = None,
      to_recipient_encryption_pubkey = None\<rparr>, \<lparr>to_amount = NA_ZERO, to_blinding = b2, to_recipient_note_pubkey = None,
      to_recipient_encryption_pubkey = None\<rparr>], []))"
    by (simp add: output_notes_def output_note_def sample_request_def generate_random_blinding_ok map_err_def)
  have req: "tq_user_address ?req = ''U''" "tq_aspmem_contract_id ?req = ''A''" "tq_aspmem_root ?req = F_ONE" "tq_aspmem_ledger ?req = 8"
    "tq_tree_depth ?req = 1" "tq_pool_address ?req = ''P''" "tq_pool_next_index ?req = 1" "tq_input_commitments ?req = [cm]"
    "tq_pool_root ?req = Some (Field (tree_root crate_perm [f_val cm] 1))" by (simp_all add: sample_request_def)
  show ?thesis
    unfolding transact_response_def req keys member inputs outs by (simp add: member inputs [unfolded One_nat_def] outs pq ok_or_def sample_request_def)
qed

lemma sample_params:
  assumes "sample_ok sk pk esk blinding leaf cm enc nullifier" "same_base (sample_store sk pk esk blinding) s" "sample_tables cm leaf enc nullifier s"
  shows "\<exists>tp. transact_response (sample_request cm) sample_rng s = Inr (TransactParamsAre tp, []) \<and> keys_sized tp \<and> shapes_ok tp \<and> amounts_ok tp \<and>
    length (tp_inputs tp) = 1 \<and> length (tp_outputs tp) = 2"
proof -
  obtain tp where tp: "transact_response (sample_request cm) sample_rng s = Inr (TransactParamsAre tp, [])"
    "tp_smt_depth tp = 1" "tp_non_membership tp = run_non_membership" "tp_ext_amount tp = EA_ZERO" "tp_tree_depth tp = 1"
    "map to_amount (tp_outputs tp) = [NoteAmount 5, NA_ZERO]" "length (am_path_elements (tp_membership tp)) = 1"
    "\<forall>out \<in> set (tp_outputs tp). to_recipient_note_pubkey out = None \<and> to_recipient_encryption_pubkey out = None"
    "map ti_amount (tp_inputs tp) = [NoteAmount 5]" "\<forall>i \<in> set (tp_inputs tp). length (ti_path_elements i) = 1"
    "tp_priv_key tp = NotePrivateKey (f_to_le_bytes sk)" "tp_encryption_pubkey tp = EncryptionPublicKey (ce_public plain_env esk)"
    using sample_response [OF assms] by (elim exE conjE) (rule that)
  have len: "length (tp_inputs tp) = 1" "length (tp_outputs tp) = 2"
    using arg_cong [OF tp(9), of length] arg_cong [OF tp(6), of length] by simp_all
  have "length (ce_public plain_env esk) = 32" using plain_env_ok by (simp add: crypto_ok_def)
  then have "keys_sized tp" using tp(8) by (auto simp: keys_sized_def tp(11,12))
  moreover have "shapes_ok tp" using tp len by (auto simp: shapes_ok_def run_non_membership_def paired_def)
  moreover obtain o1 o2 where "tp_outputs tp = [o1, o2]" using len(2) by (auto simp: length_Suc_conv numeral_2_eq_2)
  moreover obtain i1 where "tp_inputs tp = [i1]" using len(1) by (auto simp: length_Suc_conv)
  ultimately show ?thesis using tp len by (intro exI [of _ tp]) (simp add: amounts_ok_def EA_ZERO_def NA_ZERO_def)
qed

section \<open>What a request is answered with\<close>



text \<open>
  Property C8: a transaction built from parameters of the worker publishes, for each requested commitment, the nullifier the
  worker has stored for the note and by which it will recognize that the note is spent.
\<close>

theorem worker_spends_known_notes:
  assumes "worker_reachable env W w" "one_signature W" "wk_store w = s"
    and "router env (Transact req) rng w = (w', Inr (TransactParamsAre tp, rng'))"
    and "unat (tq_pool_next_index req) \<le> 2 ^ unat (tq_tree_depth req)"
    and "crypto_ok (we_crypto env)" "keys_sized tp" "\<forall>e. \<exists>x. ext_hash e = Inr x" "draws tp ds os rest rng1"
    and "build_transact (we_crypto env) tp ext_hash rng1 = Inr (a, rng2)" "j < length (tq_input_commitments req)"
  shows "\<exists>n \<in> set (ls_user_notes s). ur_id n = tq_input_commitments req ! j \<and>
    pr_input_nullifiers (ta_prepared a) ! j = ur_expected_nullifier n"
proof -
  have inv: "store_inv env W s" using reachable_store [OF assms(1,2)] assms(3) by simp
  then have can: "canonical s" and ev: "events_ok s" and keys: "keys_of (we_crypto env) W s" by (simp_all add: store_inv_def)
  have "transact_response req rng s = Inr (TransactParamsAre tp, rng')" using assms(3,4) by (simp add: router_transact)
  then obtain k pool_root inputs where r: "get_user_keys (tq_user_address req) s = Some k"
    "build_pool_inputs (tq_user_address req) (tq_pool_address req) (tq_pool_next_index req) (tq_tree_depth req) pool_root
      (tq_input_commitments req) s = Inr (Inl inputs)"
    "tp_priv_key tp = nk_private (su_note k)" "tp_inputs tp = inputs"
    by (rule transact_response_parts) blast
  note all = pool_inputs_ok [OF can r(2) assms(5)]
  have j: "j < length (tp_inputs tp)" using list_all2_lengthD [OF all] assms(11) by (simp add: r(4))
  obtain n d and c :: commitment_row where n: "n \<in> set (ls_user_notes s)" "ur_id n = tq_input_commitments req ! j"
    "ti_path_indices (tp_inputs tp ! j) = Field (ucast (cr_leaf_index c))" "ti_amount (tp_inputs tp ! j) = dn_amount d"
    "ti_blinding (tp_inputs tp ! j) = dn_blinding d" "dn_expected_nullifier d = ur_expected_nullifier n"
    "try_decrypt_and_derive_user_note (we_crypto env) (su_note k) (ek_private (su_encryption k)) (tq_input_commitments req ! j)
      (cr_leaf_index c) (cr_encrypted_output c) = Inr (Some d)"
    using input_note [OF inv assms(2) r(1) list_all2_nthD [OF all assms(11)]] unfolding r(4) by blast
  obtain kr where kr: "kr \<in> set (ls_keypairs s)" "kr_note kr = su_note k" using user_keys_keypair [OF ev r(1)] by blast
  obtain sig where "derive_encryption_and_note_keypairs (we_crypto env) sig = Inr (kr_note kr, kr_encryption kr)"
    using keys kr(1) unfolding keys_of_def by blast
  from derived_note_keys [OF this] obtain sk pk where sk: "nk_private (su_note k) = NotePrivateKey sk" "nk_public (su_note k) = NotePublicKey pk"
    "derive_public_key sk = Inr pk" unfolding kr(2) by blast
  have "pr_input_nullifiers (ta_prepared a) ! j = dn_expected_nullifier d"
    using spend_publishes [OF assms(6-10) _ sk(3) sk(1,2) n(7) j n(4,5,3)] r(3) sk(1) by simp
  then show ?thesis using n(1,2,6) by (intro bexI [of _ n]) simp_all
qed

theorem worker_spends_known_notes_witness:
  "\<exists>env W (w :: worker) req tp rng1 (a :: transact_artifacts). worker_reachable env W w \<and>
    router env (Transact req) sample_rng w = (w, Inr (TransactParamsAre tp, [])) \<and> build_transact (we_crypto env) tp run_hash rng1 = Inr (a, []) \<and>
    length (ls_user_notes (wk_store w)) = 1 \<and> pr_input_nullifiers (ta_prepared a) ! 0 = ur_expected_nullifier (ls_user_notes (wk_store w) ! 0)"
proof -
  obtain sk pk esk blinding leaf cm enc nullifier w where w: "sample_ok sk pk esk blinding leaf cm enc nullifier"
    "worker_reachable (sample_env cm enc leaf) sample_signatures w" "\<not> wk_running w" "wk_signals w = 0" "\<not> wk_failed w"
    "same_base (sample_store sk pk esk blinding) (wk_store w)" "sample_tables cm leaf enc nullifier (wk_store w)" by (rule sample_run)
  obtain tp where tp: "transact_response (sample_request cm) sample_rng (wk_store w) = Inr (TransactParamsAre tp, [])"
    "keys_sized tp" "shapes_ok tp" "amounts_ok tp" "length (tp_inputs tp) = 1" "length (tp_outputs tp) = 2" using sample_params [OF w(1,6,7)] by blast
  have r: "router (sample_env cm enc leaf) (Transact (sample_request cm)) sample_rng w = (w, Inr (TransactParamsAre tp, []))"
    using tp(1) by (simp add: router_transact)
  let ?rng = "[replicate 32 1] @ [] @ [replicate 32 3, replicate 24 4, replicate 32 5, replicate 24 6] @ []"
  have d: "draws tp [replicate 32 1] [] [] ?rng" unfolding draws_def using tp(5,6)
    by (intro conjI exI [of _ "replicate 32 3"] exI [of _ "replicate 24 4"] exI [of _ "replicate 32 5"] exI [of _ "replicate 24 6"]) simp_all
  have c: "crypto_ok (we_crypto (sample_env cm enc leaf))" using plain_env_ok by simp
  have h: "\<forall>e. \<exists>x. run_hash e = Inr x" by simp
  obtain a where a: "build_transact (we_crypto (sample_env cm enc leaf)) tp run_hash ?rng = Inr (a, [])"
    using build_transact_ok [OF plain_env_ok tp(2-4) d h] by auto
  obtain i where n: "ls_user_notes (wk_store w) = [\<lparr>ur_id = cm, ur_account = 1, ur_commitment_id = i, ur_nullifier_id = None,
    ur_expected_nullifier = nullifier, ur_blinding = F_ONE, ur_amount = NoteAmount 5\<rparr>]" using w(7) by (auto simp: sample_tables_def)
  have "\<exists>n \<in> set (ls_user_notes (wk_store w)). ur_id n = tq_input_commitments (sample_request cm) ! 0 \<and>
      pr_input_nullifiers (ta_prepared a) ! 0 = ur_expected_nullifier n"
    by (rule worker_spends_known_notes [OF w(2) sample_one_signature refl r _ c tp(2) h d a]) (simp_all add: sample_request_def)
  then show ?thesis using n w(2) r a
    by (intro exI [of _ "sample_env cm enc leaf"] exI [of _ sample_signatures] exI [of _ w] exI [of _ "sample_request cm"] exI [of _ tp]
        exI [of _ ?rng] exI [of _ a]) simp
qed

end
