(* ===== verification/Spec2Isabelle.thy ===== *)
theory Spec2Isabelle imports Session AspMembership PoolLedger Spm PublicKeyRegistry SmtLedger ClientMerkle ClientSmt Flows Prepare begin

text \<open>
  A model of a privacy pool on Stellar and of the client that uses it, with the theorems that make
  its parts correct, each and together. Paths are those of the repository.

  \<^bold>\<open>The program.\<close> Money enters a pool contract by deposits, moves inside it as notes and leaves it by
  withdrawals. A note is an amount, a blinding and a public key; the pool keeps only its commitment, a
  Poseidon2 hash, as a leaf of a Merkle tree. A transaction spends up to two notes and creates two: it
  shows a Groth16 proof for a root of the tree, the nullifiers of the spent notes, two new commitments
  and a public amount, and it proves that its owner is in the tree of a membership contract and not in
  that of a non-membership contract. The client finds its notes by decrypting the outputs in the events of
  the pool, plans which notes to spend, and prepares the inputs of the proof.

  \<^bold>\<open>Shared vocabulary.\<close> \<open>Prelude\<close> has the machine integers, the type \<open>outcome\<close> of fallible Rust code
  (a value, an error of the code, or a panic), the checked arithmetic and the generic lemmas; its
  collection \<open>res_simps\<close> unfolds outcomes that returned a value. \<open>Host\<close> has what contracts use of the host
  (addresses and authorization) and the locale \<open>admin_gate\<close> of administrated contracts. \<open>Poseidon\<close> is
  \<^verbatim>\<open>contracts/soroban-utils/src/poseidon2.rs\<close> and its constants; the permutation itself is a host function and a
  parameter. \<open>Frontier\<close> states what a Merkle tree filled from the left is, and the locale \<open>path_loop\<close> in which
  the incremental loops of two contracts are proved right once. \<open>SparseTrie\<close> is the abstract sparse Merkle tree.

  \<^bold>\<open>Contracts.\<close> \<open>MerkleHistory\<close> is \<^verbatim>\<open>pool/src/merkle_with_history.rs\<close>: the tree with its ring of ninety roots. \<open>Pool\<close>
  is \<^verbatim>\<open>pool/src/pool.rs\<close>, its storage a record with one field for each key, its entry points functions to an outcome of the
  new state, the token, verifier and association contracts parameters; \<open>PoolLedger\<close> gives the exact condition under which
  a transaction is accepted and, by rule induction over \<open>pool_reach\<close>, what the whole history leaves: no double spend, root,
  transfers and events, solvency, and what the public inputs bind. \<open>AspMembership\<close> and \<open>AspNonMembership\<close> with \<open>SmtLedger\<close> are
  the two association set contracts; the second is refined to tries, so that its root is canonical and its proofs answer
  exactly membership. \<open>Groth16\<close> is the verifier over parameters for the curve, \<open>PublicKeyRegistry\<close> and \<open>Spm\<close> the
  registry and the prediction market.

  \<^bold>\<open>Client, hashing and proofs.\<close> \<open>Zkhash\<close> and \<open>ZkhashBn256\<close> are the crate \<^verbatim>\<open>poseidon2\<close> with the instances for BN254, tables
  included. \<open>Amounts\<close> is \<^verbatim>\<open>types/src/amounts.rs\<close>, \<open>Serialization\<close>, \<open>ClientCrypto\<close>, \<open>ClientMerkle\<close>, \<open>ClientSmt\<close>, \<open>Notes\<close> and \<open>Flows\<close> are
  \<^verbatim>\<open>serialization.rs\<close>, \<^verbatim>\<open>crypto.rs\<close>, \<^verbatim>\<open>merkle.rs\<close>, \<^verbatim>\<open>sparse_merkle.rs\<close>, \<^verbatim>\<open>encryption.rs\<close> with \<^verbatim>\<open>notes.rs\<close>, and \<^verbatim>\<open>flows.rs\<close> of the
  crate \<^verbatim>\<open>prover\<close>. Their lemmas tie the client to the contracts: the same hashes, the same roots, proofs the contracts accept, one field
  element for an external amount; that an encrypted output is found by its recipient and by nobody who does not own it; and
  when a transaction can be built and what all of its parts are, the signals of the circuit included.

  \<^bold>\<open>Client, planning.\<close> \<open>Combination\<close>, \<open>Plan\<close> and \<open>Session\<close> are the crate \<^verbatim>\<open>tx-planner\<close>: selection of notes (sound, of fewest
  notes, total), plans of merging steps, and the session that carries a plan out one transaction at a time.

  \<^bold>\<open>Client, local state.\<close> \<open>Events\<close> reads and writes values of the chain (\<^verbatim>\<open>conversions.rs\<close>, \<^verbatim>\<open>soroban_encode.rs\<close>, \<^verbatim>\<open>events_parsers.rs\<close>),
  \<open>Encoding\<close> shows that application and contract hash the same external data. \<open>LocalStore\<close> is the database
  (\<^verbatim>\<open>state/src/storage.rs\<close>, \<^verbatim>\<open>schema.sql\<close>), its tables lists under the constraints of the schema, \<open>NoteScan\<close> the two scans that
  turn events into notes, \<open>StorageWorker\<close> the worker of \<^verbatim>\<open>workers/storage.rs\<close>: requests, signals and turns of its
  processing loop as a step relation \<open>worker_step\<close>, and the invariant of every reachable worker. \<open>Progress\<close> shows which events the
  loop saves and when it ends, \<open>Mirror\<close> that the tables are what the events parse to, \<open>ProofInputs\<close> what the worker assembles for a
  proof, \<open>SampleRun\<close> a concrete run, \<open>Sync\<close> and \<open>Prepare\<close> the properties of the worker and of the transactions it prepares. A
  transaction goes from \<open>transact_response\<close> (\<open>Prepare\<close>) through \<open>build_transact\<close> (\<open>Flows\<close>) to \<open>transact\<close> (\<open>Pool\<close>).

  \<^bold>\<open>Interfaces.\<close> The locales are \<open>path_loop\<close> (interpreted for the trees of the pool and of the membership contract), \<open>admin_gate\<close>
  (for the pool and for the non-membership contract), \<open>coin_selector\<close> (for \<open>find_combination\<close>) and \<open>byte_codec\<close> (for the two byte
  orders of field elements).

  \<^bold>\<open>Parameters and hypotheses.\<close> Code outside the repository is a parameter: the permutation of the host (\<open>poseidon_ok\<close>: it keeps
  field elements and their number; \<open>host_ok\<close>: it is the one of the crate), curve and pairing, token, Keccak-256 and XDR bytes, and
  the primitives of note encryption (\<open>crypto_ok\<close>: lengths, agreement of keys, decryption of what was encrypted). Where injectivity of
  a hash matters it is never assumed of all inputs: statements exclude collisions among the values in question. Each
  property with hypotheses has a witness in which they hold, on parameters given as functions.

  \<^bold>\<open>Loops and bounds.\<close> Loops are structural recursion or have a measure. The search for combinations and the loop over the pools carry
  the counters of the source. Only \<open>process_until_empty\<close> may run for ever; it is a partial function to an option, where no value means
  that it does not return, and both that it returns and that it cannot are proved. Integers have the width of the source; indices,
  depths and counts of collections are natural numbers where the source has \<open>usize\<close>, with its checked operations kept except for the
  capacity of the vector of path elements in \<open>build_transact\<close>, which two paths of checked length cannot exceed.

  \<^bold>\<open>Limits.\<close> A worker starts from a fresh database; that a restart opens a kept one is not modelled. The order SQLite gives rows when a
  query names none is that of insertion; no property depends on it. That the loop ends without an error needs that all
  outputs can be read: one output below 120 bytes stops the scans of a client (\<open>short_output_fails\<close>). Not modelled are the circuits, the
  prover and its files, RPC and assembly of transactions, signing, the bindings to the browser, the boot node and the ceremony
  tool: calls to other programs and libraries, or code of other languages.
\<close>

end
